(* ===== verification/Prelude.thy ===== *)
theory Prelude
  imports Main "HOL-Library.Multiset"
begin

text \<open>
  Generic material shared by every component: the index lists of strided loops, ceiling
  division, regrouping of index lists by class, and the execution of a list of writers
  that touch pairwise disjoint cells (the reason why the order in which work-items run
  does not matter). Nothing here mentions the library's code.
\<close>

named_theorems loop_simps \<open>closed forms of the index arithmetic of the kernels\<close>

section \<open>Ceiling division\<close>

definition cdiv :: "nat \<Rightarrow> nat \<Rightarrow> nat" where
  "cdiv a b = (a + b - 1) div b"

lemma cdiv_0 [simp]: "cdiv 0 b = 0"
  by (cases b) (simp_all add: cdiv_def)

lemma cdiv_covers: "0 < b \<Longrightarrow> a \<le> cdiv a b * b"
proof -
  assume b: "0 < b"
  have "a + b - 1 = (a + b - 1) div b * b + (a + b - 1) mod b" by simp
  moreover have "(a + b - 1) mod b < b" using b by simp
  ultimately show ?thesis using b unfolding cdiv_def by linarith
qed

lemma cdiv_le_iff: "0 < b \<Longrightarrow> cdiv a b \<le> c \<longleftrightarrow> a \<le> c * b"
proof
  assume b: "0 < b" and "cdiv a b \<le> c"
  then show "a \<le> c * b" using cdiv_covers [OF b, of a] by (meson le_trans mult_le_mono1)
next
  assume b: "0 < b" and a: "a \<le> c * b"
  then have "(a + b - 1) div b \<le> (c * b + (b - 1)) div b" by (intro div_le_mono) simp
  also have "\<dots> = c" using b by (intro div_nat_eqI) (auto simp: algebra_simps)
  finally show "cdiv a b \<le> c" using b by (simp add: cdiv_def)
qed

lemma cdiv_less_iff: "0 < b \<Longrightarrow> c < cdiv a b \<longleftrightarrow> c * b < a"
  using cdiv_le_iff [of b a c] by linarith

lemma cdiv_pred: "0 < b \<Longrightarrow> 0 < a \<Longrightarrow> (a - 1) div b + 1 = cdiv a b"
proof -
  assume b: "0 < b" and a: "0 < a"
  obtain c where c: "a = Suc c" using a by (cases a) auto
  have "(c + b) div b = c div b + 1" using b by (intro div_add_self2) simp
  then show ?thesis by (simp add: cdiv_def c)
qed

lemma cdiv_pos: "0 < b \<Longrightarrow> 0 < a \<Longrightarrow> 0 < cdiv a b"
  using cdiv_less_iff [of b 0 a] by simp

lemma cdiv_by_0 [simp]: "cdiv a 0 = 0"
  by (simp add: cdiv_def)

lemma cdiv_shrinks: "1 < n \<Longrightarrow> cdiv n (2 * l) < n"
proof (cases "l = 0")
  case False
  assume n: "1 < n"
  have "n \<le> (n - 1) * 2" using n by arith
  also have "\<dots> \<le> (n - 1) * (2 * l)" using False by (intro mult_le_mono2) simp
  finally have "cdiv n (2 * l) \<le> n - 1" using False by (subst cdiv_le_iff) auto
  then show ?thesis using n by arith
qed simp

section \<open>Strided loops\<close>

text \<open>The indices of \<open>for (k = a; k < n; k += s)\<close>. A stride of 0 is a loop that does not
  end in the source; every use below has a positive stride.\<close>

function strided :: "nat \<Rightarrow> nat \<Rightarrow> nat \<Rightarrow> nat list" where
  "strided a n s = (if a < n \<and> 0 < s then a # strided (a + s) n s else [])"
  by pat_completeness auto
termination
  by (relation "measure (\<lambda>(a, n, s). n - a)") auto

declare strided.simps [simp del]

lemma strided_Nil [simp]: "n \<le> a \<Longrightarrow> strided a n s = []"
  by (subst strided.simps) simp

lemma strided_step: "a < n \<Longrightarrow> 0 < s \<Longrightarrow> strided a n s = a # strided (a + s) n s"
  by (subst strided.simps) simp

lemma set_strided: "0 < s \<Longrightarrow> set (strided a n s) = {k. a \<le> k \<and> k < n \<and> k mod s = a mod s}"
proof (induction a n s rule: strided.induct)
  case (1 a n s)
  show ?case
  proof (cases "a < n")
    case False
    then show ?thesis by auto
  next
    case True
    have tail: "set (strided (a + s) n s) = {k. a + s \<le> k \<and> k < n \<and> k mod s = a mod s}"
      using "1.IH" True "1.prems" by simp
    have gap: "a = k" if "a \<le> k" "k < a + s" "k mod s = a mod s" for k
    proof -
      have "(k - a) mod s = 0" using that by (simp add: mod_eq_dvd_iff_nat)
      moreover have "k - a < s" using that by arith
      ultimately show "a = k" using that by simp
    qed
    have "{k. a \<le> k \<and> k < n \<and> k mod s = a mod s}
        = insert a {k. a + s \<le> k \<and> k < n \<and> k mod s = a mod s}"
      using True gap by (auto simp: not_less[symmetric])
    then show ?thesis using tail True "1.prems" by (simp add: strided_step)
  qed
qed

lemma strided_lower: "k \<in> set (strided a n s) \<Longrightarrow> a \<le> k"
  by (cases "0 < s") (auto simp: set_strided, subst (asm) strided.simps, simp)

lemma distinct_strided [simp]: "distinct (strided a n s)"
proof (induction a n s rule: strided.induct)
  case (1 a n s)
  show ?case
  proof (cases "a < n \<and> 0 < s")
    case True
    then have "a \<notin> set (strided (a + s) n s)" using strided_lower by fastforce
    then show ?thesis using 1 True by (simp add: strided_step)
  next
    case False
    then have "strided a n s = []" by (subst strided.simps) simp
    then show ?thesis by simp
  qed
qed

lemma strided_1 [simp]: "strided a n (Suc 0) = [a..<n]"
proof (induction a n "Suc 0" rule: strided.induct)
  case (1 a n)
  then show ?case by (cases "a < n") (simp_all add: strided_step upt_conv_Cons)
qed

lemma strided_block_ex:
  assumes "0 < s" "a \<le> j" "j < n"
  shows "\<exists>c \<in> set (strided a n s). c \<le> j \<and> j < c + s"
proof -
  let ?c = "a + (j - a) div s * s"
  have "(j - a) div s * s + (j - a) mod s = j - a" by simp
  moreover have "(j - a) mod s < s" using assms(1) by simp
  ultimately have "?c \<le> j" "j < ?c + s" using assms(2) by linarith+
  moreover from this have "?c \<in> set (strided a n s)" using assms by (simp add: set_strided)
  ultimately show ?thesis by blast
qed

lemma strided_block_unique:
  assumes "0 < s" "c \<in> set (strided a n s)" "d \<in> set (strided a n s)" "c \<le> j" "j < c + s" "d \<le> j" "j < d + s"
  shows "c = d"
proof -
  have "c mod s = d mod s" using assms(1-3) by (simp add: set_strided)
  moreover have "c < d + s" "d < c + s" using assms by auto
  ultimately show ?thesis
    by (metis add.commute assms(1) le_add_diff_inverse less_add_same_cancel1 linorder_le_cases
        mod_add_self1 mod_eq_dvd_iff_nat mod_less nat_add_left_cancel_less dvd_imp_mod_0 add_0_right)
qed

section \<open>Regrouping index lists\<close>

lemma mset_filter_upt_eqI:
  assumes "distinct ys" and "set ys = {j. j < n \<and> P j}"
  shows "mset ys = mset (filter P [0..<n])"
  using assms by (intro set_eq_iff_mset_eq_distinct [THEN iffD1]) auto

lemma mset_concat_classes:
  assumes "distinct cs"
  shows "mset (concat (map (\<lambda>c. filter (\<lambda>j. cls j = c) xs) cs))
       = mset (filter (\<lambda>j. cls j \<in> set cs) xs)"
  using assms
proof (induction cs)
  case Nil
  then show ?case by simp
next
  case (Cons c cs)
  have "mset (filter (\<lambda>j. cls j \<in> set (c # cs)) xs)
      = mset (filter (\<lambda>j. cls j = c) xs) + mset (filter (\<lambda>j. cls j \<in> set cs) xs)"
    using Cons.prems by (induction xs) auto
  then show ?case using Cons by simp
qed

lemma mset_concat_cong:
  "(\<And>x. x \<in> set xs \<Longrightarrow> mset (f x) = mset (g x)) \<Longrightarrow>
   mset (concat (map f xs)) = mset (concat (map g xs))"
  by (induction xs) auto

lemma sum_list_mset_eq: "mset xs = mset ys \<Longrightarrow> sum_list xs = sum_list (ys :: 'a::comm_monoid_add list)"
  by (metis sum_mset_sum_list)

lemma foldl_plus_sum_list: "foldl (\<lambda>a x. a + f x) s xs = s + sum_list (map f xs)"
  for s :: "'a::monoid_add"
  by (induction xs arbitrary: s) (simp_all add: add.assoc)

section \<open>Writers on disjoint cells\<close>

text \<open>
  A list of writers runs over a store of cells. When every writer changes only its own
  cells, no two writers own a common cell, and what a writer stores does not depend on a
  cell of another writer, then each cell ends up with what its owner would have written in
  the initial store, whatever the order of the list.
\<close>

lemma fold_disjoint_writers:
  assumes writes: "\<And>x f c. x \<in> X \<Longrightarrow> c \<notin> W x \<Longrightarrow> step x f c = f c"
    and disj: "\<And>x y. x \<in> X \<Longrightarrow> y \<in> X \<Longrightarrow> x \<noteq> y \<Longrightarrow> W x \<inter> W y = {}"
    and reads: "\<And>x f f' c. x \<in> X \<Longrightarrow> c \<in> W x \<Longrightarrow>
        (\<And>d. (\<And>y. y \<in> X \<Longrightarrow> y \<noteq> x \<Longrightarrow> d \<notin> W y) \<Longrightarrow> f d = f' d) \<Longrightarrow> step x f c = step x f' c"
    and xs: "distinct xs" "set xs \<subseteq> X"
  shows "(x \<in> set xs \<longrightarrow> c \<in> W x \<longrightarrow> fold step xs f0 c = step x f0 c) \<and>
         ((\<forall>x \<in> set xs. c \<notin> W x) \<longrightarrow> fold step xs f0 c = f0 c)"
  using xs
proof (induction xs arbitrary: f0 x)
  case Nil
  then show ?case by simp
next
  case (Cons y ys)
  have y: "y \<in> X" "y \<notin> set ys" "distinct ys" "set ys \<subseteq> X" using Cons.prems by auto
  note IH = Cons.IH [OF y(3,4), where ?f0.0 = "step y f0"]
  show ?case
  proof (intro conjI impI)
    assume x: "x \<in> set (y # ys)" and c: "c \<in> W x"
    show "fold step (y # ys) f0 c = step x f0 c"
    proof (cases "x = y")
      case True
      have "\<forall>z \<in> set ys. c \<notin> W z" using disj c y True by blast
      then show ?thesis using IH True by simp
    next
      case False
      then have xs: "x \<in> set ys" "x \<in> X" using x y by auto
      then have "fold step ys (step y f0) c = step x (step y f0) c" using IH [of x] c by simp
      also have "\<dots> = step x f0 c"
        by (rule reads [OF xs(2) c]) (use writes y False in blast)
      finally show ?thesis by simp
    qed
  next
    assume "\<forall>x \<in> set (y # ys). c \<notin> W x"
    then show "fold step (y # ys) f0 c = f0 c" using IH writes y by simp
  qed
qed

lemma fold_guarded: "fold (\<lambda>x s. if P x then f x s else s) xs s = fold f (filter P xs) s"
  by (induction xs arbitrary: s) auto

text \<open>The common case: writer \<open>x\<close> owns the single cell \<open>a x\<close>.\<close>

lemma fold_cell_writers:
  assumes inj: "inj_on a X"
    and reads: "\<And>x f f'. x \<in> X \<Longrightarrow>
        (\<And>d. (\<And>y. y \<in> X \<Longrightarrow> y \<noteq> x \<Longrightarrow> d \<noteq> a y) \<Longrightarrow> f d = f' d) \<Longrightarrow> v x f = v x f'"
    and xs: "distinct xs" "set xs = X"
  shows fold_cell_writers_hit: "x \<in> X \<Longrightarrow> fold (\<lambda>x f. f(a x := v x f)) xs f0 (a x) = v x f0"
    and fold_cell_writers_miss: "c \<notin> a ` X \<Longrightarrow> fold (\<lambda>x f. f(a x := v x f)) xs f0 c = f0 c"
proof -
  have key: "(x \<in> set xs \<longrightarrow> c \<in> {a x} \<longrightarrow> fold (\<lambda>x f. f(a x := v x f)) xs f0 c = (f0(a x := v x f0)) c) \<and>
      ((\<forall>x \<in> set xs. c \<notin> {a x}) \<longrightarrow> fold (\<lambda>x f. f(a x := v x f)) xs f0 c = f0 c)" for x c
  proof (rule fold_disjoint_writers [where X = X])
    show "{a x} \<inter> {a y} = {}" if "x \<in> X" "y \<in> X" "x \<noteq> y" for x y
      using inj that by (auto dest: inj_onD)
    show "(f(a x := v x f)) c = (f'(a x := v x f')) c"
      if "x \<in> X" "c \<in> {a x}" "\<And>d. (\<And>y. y \<in> X \<Longrightarrow> y \<noteq> x \<Longrightarrow> d \<notin> {a y}) \<Longrightarrow> f d = f' d" for x f f' c
      using that reads [of x f f'] by simp
  qed (use xs in auto)
  show "x \<in> X \<Longrightarrow> fold (\<lambda>x f. f(a x := v x f)) xs f0 (a x) = v x f0"
    using key [of x "a x"] xs by simp
  show "c \<notin> a ` X \<Longrightarrow> fold (\<lambda>x f. f(a x := v x f)) xs f0 c = f0 c"
    using key [of _ c] xs by auto
qed

text \<open>The case of writers that read no cell any of them writes: all their cells lie in \<open>U\<close>, and
  what they store is determined by the store outside \<open>U\<close>.\<close>

lemma fold_blind_writers:
  assumes writes: "\<And>x f c. x \<in> X \<Longrightarrow> c \<notin> W x \<Longrightarrow> step x f c = f c"
    and vals: "\<And>x f c. x \<in> X \<Longrightarrow> c \<in> W x \<Longrightarrow> (\<And>d. d \<notin> U \<Longrightarrow> f d = f0 d) \<Longrightarrow> step x f c = val x c"
    and disj: "\<And>x y. x \<in> X \<Longrightarrow> y \<in> X \<Longrightarrow> x \<noteq> y \<Longrightarrow> W x \<inter> W y = {}"
    and sub: "\<And>x. x \<in> X \<Longrightarrow> W x \<subseteq> U"
    and xs: "distinct xs" "set xs \<subseteq> X" and f: "\<And>d. d \<notin> U \<Longrightarrow> f d = f0 d"
  shows "(x \<in> set xs \<longrightarrow> c \<in> W x \<longrightarrow> fold step xs f c = val x c) \<and>
         ((\<forall>x \<in> set xs. c \<notin> W x) \<longrightarrow> fold step xs f c = f c)"
  using xs f
proof (induction xs arbitrary: f x)
  case Nil
  then show ?case by simp
next
  case (Cons y ys)
  have y: "y \<in> X" "y \<notin> set ys" "distinct ys" "set ys \<subseteq> X" using Cons.prems by auto
  have out: "step y f d = f0 d" if "d \<notin> U" for d
    using writes [OF y(1)] sub [OF y(1)] Cons.prems(3) that by fastforce
  note IH = Cons.IH [OF y(3,4) out]
  show ?case
  proof (intro conjI impI)
    assume x: "x \<in> set (y # ys)" and c: "c \<in> W x"
    show "fold step (y # ys) f c = val x c"
    proof (cases "x = y")
      case True
      have "\<forall>z \<in> set ys. c \<notin> W z" using disj c y True by blast
      then have "fold step ys (step y f) c = step y f c" using IH by blast
      then show ?thesis using vals [OF y(1), of c f] c True Cons.prems(3) by simp
    next
      case False
      then show ?thesis using IH x c by simp
    qed
  next
    assume "\<forall>x \<in> set (y # ys). c \<notin> W x"
    then show "fold step (y # ys) f c = f c" using IH writes y by simp
  qed
qed

text \<open>Writers that add to their own cells. \<open>added a S v m m'\<close>: cell \<open>a p\<close> grew by \<open>v p\<close> for every \<open>p\<close> in
  \<open>S\<close>, and no other cell changed.\<close>

definition added :: "('p \<Rightarrow> 'a) \<Rightarrow> 'p set \<Rightarrow> ('p \<Rightarrow> 'v::plus) \<Rightarrow> ('a \<Rightarrow> 'v) \<Rightarrow> ('a \<Rightarrow> 'v) \<Rightarrow> bool" where
  "added a S v m m' \<longleftrightarrow> (\<forall>p \<in> S. m' (a p) = m (a p) + v p) \<and> (\<forall>c. c \<notin> a ` S \<longrightarrow> m' c = m c)"

lemma added_empty [simp]: "added a {} v m m"
  by (simp add: added_def)

lemma added_frame: "added a S v m m' \<Longrightarrow> S \<subseteq> R \<Longrightarrow> c \<notin> a ` R \<Longrightarrow> m' c = m c"
  unfolding added_def by blast

lemma added_trans:
  assumes "added a S v m m1" "added a T v m1 m2" "S \<inter> T = {}" "inj_on a (S \<union> T)"
  shows "added a (S \<union> T) v m m2"
  unfolding added_def
proof (intro conjI ballI allI impI)
  fix p assume p: "p \<in> S \<union> T"
  show "m2 (a p) = m (a p) + v p"
  proof (cases "p \<in> S")
    case True
    then have "a p \<notin> a ` T" using assms(3,4) by (auto dest: inj_onD)
    then show ?thesis using assms(1,2) True by (simp add: added_def)
  next
    case False
    then have "p \<in> T" "a p \<notin> a ` S" using assms(3,4) p by (auto dest: inj_onD)
    then show ?thesis using assms(1,2) by (simp add: added_def)
  qed
next
  fix c assume "c \<notin> a ` (S \<union> T)"
  then show "m2 c = m c" using assms(1,2) by (simp add: added_def image_Un)
qed

lemma fold_added:
  assumes inj: "inj_on a R"
    and step: "\<And>x m. x \<in> X \<Longrightarrow> (\<And>c. c \<notin> a ` R \<Longrightarrow> m c = m0 c) \<Longrightarrow> added a (S x) v m (step x m)"
    and sub: "\<And>x. x \<in> X \<Longrightarrow> S x \<subseteq> R"
    and disj: "\<And>x y. x \<in> X \<Longrightarrow> y \<in> X \<Longrightarrow> x \<noteq> y \<Longrightarrow> S x \<inter> S y = {}"
    and xs: "distinct xs" "set xs \<subseteq> X" and m: "\<And>c. c \<notin> a ` R \<Longrightarrow> m c = m0 c"
  shows "added a (\<Union>x \<in> set xs. S x) v m (fold step xs m)"
  using xs m
proof (induction xs arbitrary: m)
  case Nil
  then show ?case by simp
next
  case (Cons x xs)
  have x: "x \<in> X" "x \<notin> set xs" "distinct xs" "set xs \<subseteq> X" using Cons.prems by auto
  have one: "added a (S x) v m (step x m)" using step [OF x(1)] Cons.prems(3) by blast
  have rest: "added a (\<Union>y \<in> set xs. S y) v (step x m) (fold step xs (step x m))"
  proof (rule Cons.IH [OF x(3,4)])
    show "step x m c = m0 c" if "c \<notin> a ` R" for c
      using added_frame [OF one sub [OF x(1)] that] Cons.prems(3) [OF that] by simp
  qed
  have "S x \<inter> (\<Union>y \<in> set xs. S y) = {}" using disj [OF x(1)] x by blast
  moreover have "inj_on a (S x \<union> (\<Union>y \<in> set xs. S y))"
    using inj by (rule inj_on_subset) (use sub x in blast)
  ultimately show ?case using added_trans [OF one rest] by simp
qed

section \<open>Permutations of an index range\<close>

text \<open>Writers that store \<open>v p\<close> in cell \<open>a p\<close> for every \<open>p\<close> in \<open>S\<close>, and nothing else.\<close>

definition wrote :: "('p \<Rightarrow> 'a) \<Rightarrow> 'p set \<Rightarrow> ('p \<Rightarrow> 'v) \<Rightarrow> ('a \<Rightarrow> 'v) \<Rightarrow> ('a \<Rightarrow> 'v) \<Rightarrow> bool" where
  "wrote a S v m m' \<longleftrightarrow> (\<forall>p \<in> S. m' (a p) = v p) \<and> (\<forall>c. c \<notin> a ` S \<longrightarrow> m' c = m c)"

lemma wrote_reindex:
  assumes "wrote (\<lambda>x. a (h x)) S (\<lambda>x. v (h x)) m m'"
  shows "wrote a (h ` S) v m m'"
  using assms by (auto simp: wrote_def image_image)

lemma wrote_cong:
  assumes "wrote a S v m m'" "\<And>x. x \<in> S \<Longrightarrow> a x = b x" "\<And>x. x \<in> S \<Longrightarrow> v x = w x"
  shows "wrote b S w m m'"
  using assms by (simp add: wrote_def image_def)

lemma wrote_unique: "wrote a S v m m1 \<Longrightarrow> wrote a S v m m2 \<Longrightarrow> m1 = m2"
proof (rule ext)
  fix d assume w: "wrote a S v m m1" "wrote a S v m m2"
  show "m1 d = m2 d"
  proof (cases "d \<in> a ` S")
    case True
    then show ?thesis using w unfolding wrote_def by fastforce
  next
    case False
    then show ?thesis using w unfolding wrote_def by metis
  qed
qed

lemma wrote_commute:
  assumes "\<And>m. wrote a S v m (f m)" "\<And>m. wrote b T w m (g m)" "a ` S \<inter> b ` T = {}"
  shows "g (f m) = f (g m)"
proof (rule ext)
  fix d
  have f: "f m (a x) = v x" "x \<in> S \<Longrightarrow> True" if "x \<in> S" for x m using assms(1) [of m] that by (simp_all add: wrote_def)
  have g: "g m (b x) = w x" if "x \<in> T" for x m using assms(2) [of m] that by (simp add: wrote_def)
  have ff: "f m d = m d" if "d \<notin> a ` S" for m d using assms(1) [of m] that unfolding wrote_def by blast
  have gf: "g m d = m d" if "d \<notin> b ` T" for m d using assms(2) [of m] that unfolding wrote_def by blast
  consider x where "x \<in> S" "d = a x" "d \<notin> b ` T" | x where "x \<in> T" "d = b x" "d \<notin> a ` S" | "d \<notin> a ` S" "d \<notin> b ` T"
    using assms(3) by blast
  then show "g (f m) d = f (g m) d"
    by cases (simp_all add: f g ff gf)
qed

lemma wrote_trans:
  assumes "wrote a S v m m1" "wrote a T v m1 m2" "inj_on a (S \<union> T)"
  shows "wrote a (S \<union> T) v m m2"
  unfolding wrote_def
proof (intro conjI ballI allI impI)
  fix p assume p: "p \<in> S \<union> T"
  show "m2 (a p) = v p"
  proof (cases "p \<in> T")
    case False
    then have "p \<in> S" "a p \<notin> a ` T" using assms(3) p by (auto dest: inj_onD)
    then show ?thesis using assms(1,2) by (simp add: wrote_def)
  qed (use assms(2) in \<open>simp add: wrote_def\<close>)
next
  fix c assume "c \<notin> a ` (S \<union> T)"
  then show "m2 c = m c" using assms(1,2) by (simp add: wrote_def image_Un)
qed

lemma fold_wrote:
  assumes "inj_on a R" "\<And>x m. x \<in> set xs \<Longrightarrow> wrote a (S x) v m (step x m)" "\<And>x. x \<in> set xs \<Longrightarrow> S x \<subseteq> R"
  shows "wrote a (\<Union>x \<in> set xs. S x) v m (fold step xs m)"
  using assms(2,3)
proof (induction xs arbitrary: m)
  case Nil
  then show ?case by (simp add: wrote_def)
next
  case (Cons x xs)
  have "wrote a (S x) v m (step x m)" "wrote a (\<Union>x \<in> set xs. S x) v (step x m) (fold step xs (step x m))"
    using Cons by simp_all
  moreover have "inj_on a (S x \<union> (\<Union>x \<in> set xs. S x))"
    using Cons.prems(2) by (intro inj_on_subset [OF assms(1)]) auto
  ultimately show ?case using wrote_trans by fastforce
qed

lemma filter_single: "distinct xs \<Longrightarrow> x \<in> set xs \<Longrightarrow> filter (\<lambda>y. y = x) xs = [x]"
  by (induction xs) (auto simp: filter_empty_conv)

lemma mset_upt_perm:
  assumes "mset xs = mset [0..<n]"
  shows "distinct xs" and "set xs = {..<n}"
proof -
  show "distinct xs" using assms by (metis distinct_upt mset_eq_imp_distinct_iff)
  show "set xs = {..<n}" using mset_eq_setD [OF assms] by (simp add: lessThan_atLeast0)
qed

section \<open>Sums cut into blocks\<close>

lemma sum_blocks:
  fixes f :: "nat \<Rightarrow> 'a::comm_monoid_add"
  assumes "0 < l"
  shows "(\<Sum>g<cdiv n l. \<Sum>c<l. if c + g * l < n then f (c + g * l) else 0) = (\<Sum>j<n. f j)"
proof -
  let ?h = "\<lambda>j. if j < n then f j else 0"
  have shift: "(\<Sum>c<l. ?h (c + g * l)) = sum ?h {g * l..<g * l + l}" for g
    using sum.shift_bounds_nat_ivl [of ?h 0 "g * l" l] by (simp add: atLeast0LessThan add.commute)
  have "(\<Sum>g<cdiv n l. \<Sum>c<l. ?h (c + g * l)) = sum ?h {..<cdiv n l * l}"
    unfolding shift by (rule sum.nat_group)
  also have "\<dots> = sum ?h {..<n}"
    using cdiv_covers [OF assms, of n] by (intro sum.mono_neutral_right) auto
  finally show ?thesis by simp
qed

section \<open>Rows dealt out to items\<close>

text \<open>The items of a group take the rows of a block in turn.\<close>

lemma cyclic_rows:
  fixes i :: nat
  assumes "0 < L" "L dvd D" "0 < D" "l < L"
  shows "set (strided (b * D + l) (min M (b * D + l + D)) L) = {i. i < M \<and> i div D = b \<and> i mod L = l}"
proof -
  obtain q where q: "D = L * q" using assms(2) by (auto simp: dvd_def)
  have bD: "(b * D + l) mod L = l" using assms(4) by (simp add: q mult.left_commute [of b])
  have "b * D + l \<le> i \<and> i < b * D + l + D \<longleftrightarrow> i div D = b" if i: "i mod L = l" for i
  proof
    assume le: "b * D + l \<le> i \<and> i < b * D + l + D"
    have "i < b * D + D"
    proof (rule ccontr)
      assume "\<not> i < b * D + D"
      define k where "k = i - (b * D + D)"
      have k: "i = k + L * (b * q + q)" "k < l"
        using le \<open>\<not> i < b * D + D\<close> by (auto simp: k_def q algebra_simps)
      then have "i mod L = k" using assms(4) by simp
      then show False using i k(2) by simp
    qed
    then show "i div D = b" using le by (intro div_nat_eqI) (auto simp: mult.commute)
  next
    assume b: "i div D = b"
    define k where "k = i mod D"
    have k: "i = b * D + k" "k < D" using b assms(3) by (auto simp: k_def)
    have "k mod L = l" using i assms(4) unfolding k(1) by (simp add: q mult.left_commute [of b])
    then have "l \<le> k" by auto
    then show "b * D + l \<le> i \<and> i < b * D + l + D" using k by simp
  qed
  then show ?thesis using assms(1) bD by (auto simp: set_strided)
qed

text \<open>\<open>R\<close> rows cut into \<open>n\<close> blocks whose length is a multiple of the group size.\<close>

lemma padded_blocks:
  assumes "0 < L" "0 < n" "0 < R"
  shows "L dvd cdiv R (L * n) * L" "0 < cdiv R (L * n) * L" "R \<le> n * (cdiv R (L * n) * L)"
  using cdiv_covers [of "L * n" R] assms by (simp_all add: cdiv_pos mult.commute mult.left_commute)

text \<open>Block \<open>b\<close> of length \<open>c\<close>.\<close>

lemma block_iff:
  fixes j :: nat
  assumes "0 < c"
  shows "j div c = b \<longleftrightarrow> b * c \<le> j \<and> j < b * c + c"
  using div_nat_eqI [of c b j] dividend_less_div_times [OF assms, of j] by (auto simp: mult.commute)

lemma sum_consecutive_blocks:
  fixes f :: "nat \<Rightarrow> 'a::comm_monoid_add"
  assumes "n \<le> w * c"
  shows "(\<Sum>g<w. sum f {g * c..<min n (g * c + c)}) = sum f {..<n}"
proof -
  let ?h = "\<lambda>j. if j < n then f j else 0"
  have "sum f {g * c..<min n (g * c + c)} = sum ?h {g * c..<g * c + c}" for g
    by (rule sum.mono_neutral_cong_left) auto
  then have "(\<Sum>g<w. sum f {g * c..<min n (g * c + c)}) = sum ?h {..<w * c}"
    using sum.nat_group [of ?h c w] by simp
  also have "\<dots> = sum f {..<n}"
    using assms by (intro sum.mono_neutral_cong_right) auto
  finally show ?thesis .
qed

end
