(* ===== verification/Meta.thy ===== *)
theory Meta
  imports Prelude "HOL-Library.Word"
begin

text \<open>
  \<^verbatim>\<open>include/blas_meta.h\<close>: layouts, transposition options, compile-time choice, the bit
  tricks on sizes, rounding up, and the concatenation of event vectors that every
  operation returns.
\<close>

unbundle bit_operations_syntax

section \<open>Enumerations\<close>

datatype access_layout = row_major | col_major

primrec is_col_major :: "access_layout \<Rightarrow> bool" where
  "is_col_major row_major = False"
| "is_col_major col_major = True"

datatype transpose_type = Normal | Transposed | Conjugate

definition Choose :: "bool \<Rightarrow> 'v \<Rightarrow> 'v \<Rightarrow> 'v" where
  "Choose cond value_one value_two = (if cond then value_one else value_two)"

section \<open>Powers of two\<close>

text \<open>\<open>is_power_of_2\<close> on a signed index, \<open>get_power_of_two\<close> on a 64-bit \<open>size_t\<close> (the
  64-bit host branch of the source, with its shift by 32).\<close>

definition is_power_of_2 :: "int \<Rightarrow> bool" where
  "is_power_of_2 ind \<longleftrightarrow> ind > 0 \<and> ind AND (ind - 1) = 0"

definition smear :: "nat \<Rightarrow> 64 word \<Rightarrow> 64 word" where
  "smear k w = w OR drop_bit k w"

definition get_power_of_two :: "64 word \<Rightarrow> bool \<Rightarrow> 64 word" where
  "get_power_of_two wGSize rounUp =
     (let w0 = (if rounUp then wGSize - 1 else wGSize);
          w = smear 32 (smear 16 (smear 8 (smear 4 (smear 2 (smear 1 w0)))))
      in if \<not> rounUp then w - drop_bit 1 w else w + 1)"

definition roundUp :: "nat \<Rightarrow> nat \<Rightarrow> nat" where
  "roundUp x y = ((x + y - 1) div y) * y"

lemma roundUp_cdiv: "roundUp x y = cdiv x y * y"
  by (simp add: roundUp_def cdiv_def)

lemma roundUp_ge: "0 < y \<Longrightarrow> x \<le> roundUp x y"
  by (simp add: roundUp_cdiv cdiv_covers)

lemma roundUp_dvd: "y dvd roundUp x y"
  by (simp add: roundUp_def)

lemma roundUp_least: "0 < y \<Longrightarrow> x \<le> k * y \<Longrightarrow> roundUp x y \<le> k * y"
  by (simp add: roundUp_cdiv cdiv_le_iff)

section \<open>Event vectors\<close>

text \<open>A vector of events is a list; \<open>vec_total_size\<close> only feeds \<open>reserve\<close>, which the list
  model does not need. The variadic argument pack is a list of vectors.\<close>

definition append_vector :: "'e list \<Rightarrow> 'e list \<Rightarrow> 'e list" where
  "append_vector lhs_vector rhs_vector = lhs_vector @ rhs_vector"

definition concatenate_vectors :: "'e list \<Rightarrow> 'e list list \<Rightarrow> 'e list" where
  "concatenate_vectors first_vector other_vectors =
     foldl append_vector first_vector other_vectors"

lemma concatenate_vectors_eq: "concatenate_vectors v vs = v @ concat vs"
  unfolding concatenate_vectors_def append_vector_def by (induction vs arbitrary: v) auto

section \<open>Bit smearing\<close>

lemma bit_smear: "bit (smear k w) n \<longleftrightarrow> bit w n \<or> bit w (n + k)"
  by (auto simp: smear_def bit_or_iff bit_drop_bit_eq add.commute)

lemma bit_smear_step:
  assumes w': "\<And>n. bit w' n \<longleftrightarrow> (\<exists>j < d. bit w (n + j))" and e: "e = d + d"
  shows "bit (smear d w') n \<longleftrightarrow> (\<exists>j < e. bit w (n + j))"
proof -
  have "(\<exists>j < d + d. bit w (n + j)) \<longleftrightarrow> (\<exists>j < d. bit w (n + j)) \<or> (\<exists>j < d. bit w (n + d + j))"
  proof safe
    fix j assume "j < d + d" "bit w (n + j)" "\<not> (\<exists>j<d. bit w (n + d + j))"
    then show "\<exists>j<d. bit w (n + j)" by (metis add.assoc le_add_diff_inverse less_diff_conv2 not_less nat_add_left_cancel_less)
  next
    fix j assume "j < d" "bit w (n + d + j)"
    then show "\<exists>j<d + d. bit w (n + j)" by (intro exI [of _ "d + j"]) (simp add: add.assoc)
  next
    fix j assume "j < d" "bit w (n + j)"
    then show "\<exists>j<d + d. bit w (n + j)" by (intro exI [of _ j]) simp
  qed
  then show ?thesis by (simp add: bit_smear w' e)
qed

lemma bit_smear_all:
  "bit (smear 32 (smear 16 (smear 8 (smear 4 (smear 2 (smear 1 w)))))) n \<longleftrightarrow> (\<exists>j < 64. bit w (n + j))"
proof -
  have s1: "bit (smear 1 w) n \<longleftrightarrow> (\<exists>j < 2. bit w (n + j))" for n
    by (rule bit_smear_step [where d = 1]) (simp, simp)
  have s2: "bit (smear 2 (smear 1 w)) n \<longleftrightarrow> (\<exists>j < 4. bit w (n + j))" for n
    by (rule bit_smear_step [where d = 2]) (rule s1, simp)
  have s4: "bit (smear 4 (smear 2 (smear 1 w))) n \<longleftrightarrow> (\<exists>j < 8. bit w (n + j))" for n
    by (rule bit_smear_step [where d = 4]) (rule s2, simp)
  have s8: "bit (smear 8 (smear 4 (smear 2 (smear 1 w)))) n \<longleftrightarrow> (\<exists>j < 16. bit w (n + j))" for n
    by (rule bit_smear_step [where d = 8]) (rule s4, simp)
  have s16: "bit (smear 16 (smear 8 (smear 4 (smear 2 (smear 1 w))))) n \<longleftrightarrow> (\<exists>j < 32. bit w (n + j))" for n
    by (rule bit_smear_step [where d = 16]) (rule s8, simp)
  show ?thesis
    by (rule bit_smear_step [where d = 32]) (rule s16, simp)
qed

lemma smear_all_mask:
  fixes w :: "64 word"
  assumes lo: "2 ^ h \<le> unat w" and hi: "unat w < 2 ^ Suc h"
  shows "smear 32 (smear 16 (smear 8 (smear 4 (smear 2 (smear 1 w))))) = mask (Suc h)"
proof -
  have h: "h < 64"
  proof (rule ccontr)
    assume "\<not> h < 64"
    then have "(2::nat) ^ 64 \<le> 2 ^ h" by (intro power_increasing) auto
    then show False using lo unsigned_less [of w, where 'a = nat] by simp
  qed
  have bitw: "bit w n \<longleftrightarrow> odd (unat w div 2 ^ n)" for n
  proof -
    have "bit w n \<longleftrightarrow> bit (unat w) n" by (simp add: bit_unsigned_iff)
    then show ?thesis by (simp add: bit_iff_odd)
  qed
  have top: "bit w h" using lo hi
    by (simp add: bitw) (metis One_nat_def div_nat_eqI lessI mult.commute mult_1 odd_one power_Suc numeral_2_eq_2 Suc_1 mult_numeral_1)
  have above: "\<not> bit w n" if "h < n" for n
  proof -
    have "unat w < 2 ^ n" using hi that by (meson Suc_leI less_le_trans one_le_numeral power_increasing)
    then show ?thesis by (simp add: bitw)
  qed
  show ?thesis
  proof (rule bit_word_eqI)
    fix n assume "n < LENGTH(64)"
    have "(\<exists>j < 64. bit w (n + j)) \<longleftrightarrow> n \<le> h"
    proof
      assume "n \<le> h"
      then show "\<exists>j < 64. bit w (n + j)" using top h by (intro exI [of _ "h - n"]) auto
    next
      assume "\<exists>j < 64. bit w (n + j)"
      then show "n \<le> h" using above by (meson le_add1 le_less_trans not_less)
    qed
    then show "bit (smear 32 (smear 16 (smear 8 (smear 4 (smear 2 (smear 1 w)))))) n = bit (mask (Suc h) :: 64 word) n"
      using \<open>n < LENGTH(64)\<close> by (simp only: bit_smear_all) (simp add: bit_mask_iff less_Suc_eq_le)
  qed
qed

lemma ex_log2: "0 < (n::nat) \<Longrightarrow> \<exists>h. 2 ^ h \<le> n \<and> n < 2 ^ Suc h"
proof -
  assume n: "0 < n"
  obtain m where m: "n < 2 ^ m" using less_exp by blast
  define h where "h = (LEAST m. n < 2 ^ m)"
  have h: "n < 2 ^ h" unfolding h_def by (rule LeastI) (rule m)
  then have "h \<noteq> 0" using n by (auto intro: Nat.gr0I)
  then have "\<not> n < 2 ^ (h - 1)" unfolding h_def
    by (intro not_less_Least) (simp add: h_def)
  then show ?thesis using h \<open>h \<noteq> 0\<close> by (intro exI [of _ "h - 1"]) simp
qed

lemma unat_push_bit_1: "h < 64 \<Longrightarrow> unat (push_bit h 1 :: 64 word) = 2 ^ h"
proof -
  assume h: "h < 64"
  then have "(2::nat) ^ h < 2 ^ 64" by (intro power_strict_increasing) auto
  then show ?thesis
    by (simp only: unsigned_push_bit_eq unsigned_1) (simp add: push_bit_eq_mult take_bit_eq_mod)
qed

text \<open>Rounding down: the largest power of two not above the argument.\<close>

lemma get_power_of_two_down:
  assumes lo: "2 ^ h \<le> unat w" and hi: "unat w < 2 ^ Suc h"
  shows "unat (get_power_of_two w False) = 2 ^ h"
proof -
  have h: "h < 64"
  proof (rule ccontr)
    assume "\<not> h < 64"
    then have "(2::nat) ^ 64 \<le> 2 ^ h" by (intro power_increasing) auto
    then show False using lo unsigned_less [of w, where 'a = nat] by simp
  qed
  have "get_power_of_two w False = mask (Suc h) - drop_bit 1 (mask (Suc h))"
    by (simp only: get_power_of_two_def Let_def smear_all_mask [OF lo hi] if_False if_True not_False_eq_True)
  also have "\<dots> = push_bit h 1"
  proof -
    have "drop_bit 1 (mask (Suc h) :: 64 word) = mask h"
      by (rule bit_word_eqI) (use h in \<open>auto simp: bit_simps\<close>)
    then show ?thesis by (simp add: mask_eq_exp_minus_1 push_bit_eq_mult)
  qed
  finally show ?thesis using h by (simp only: unat_push_bit_1 [OF h])
qed

lemma get_power_of_two_up:
  assumes lo: "2 ^ h < unat w" and hi: "unat w \<le> 2 ^ Suc h" and h: "h < 63"
  shows "unat (get_power_of_two w True) = 2 ^ Suc h"
proof -
  have w0: "unat (w - 1) = unat w - 1" using lo by (intro unat_minus_one) auto
  have "smear 32 (smear 16 (smear 8 (smear 4 (smear 2 (smear 1 (w - 1)))))) = mask (Suc h)"
    by (rule smear_all_mask) (use lo hi w0 in auto)
  then have "get_power_of_two w True = 2 ^ Suc h"
    by (simp only: get_power_of_two_def Let_def if_False if_True not_True_eq_False) (simp add: mask_eq_exp_minus_1)
  then have "get_power_of_two w True = push_bit (Suc h) 1" by (simp add: push_bit_eq_mult)
  then show ?thesis using unat_push_bit_1 [of "Suc h"] h by simp
qed

section \<open>Properties\<close>

lemma get_power_of_two_1: "get_power_of_two 1 True = 1"
  by (simp add: get_power_of_two_def smear_def)

text \<open>C40: \<open>get_power_of_two\<close> rounds a positive 64-bit size down to the largest power of two not
  above it, or up to the smallest one not below it, as long as that one fits in 64 bits.\<close>

theorem get_power_of_two_correct:
  assumes "0 < unat w" "unat w \<le> 2 ^ 63"
  shows "(\<exists>h. unat (get_power_of_two w False) = 2 ^ h \<and> 2 ^ h \<le> unat w \<and> unat w < 2 ^ Suc h) \<and>
         (\<exists>h. unat (get_power_of_two w True) = 2 ^ h \<and> unat w \<le> 2 ^ h \<and> 2 ^ h < 2 * unat w)"
proof
  obtain h where h: "2 ^ h \<le> unat w" "unat w < 2 ^ Suc h" using ex_log2 [OF assms(1)] by blast
  then show "\<exists>h. unat (get_power_of_two w False) = 2 ^ h \<and> 2 ^ h \<le> unat w \<and> unat w < 2 ^ Suc h"
    using get_power_of_two_down by blast
  show "\<exists>h. unat (get_power_of_two w True) = 2 ^ h \<and> unat w \<le> 2 ^ h \<and> 2 ^ h < 2 * unat w"
  proof (cases "unat w = 1")
    case True
    then have "w = 1" by (metis unsigned_1 unsigned_word_eqI)
    then show ?thesis by (intro exI [of _ 0]) (simp add: get_power_of_two_1 [simplified])
  next
    case False
    then have "0 < unat w - 1" using assms(1) by linarith
    then obtain k where k: "2 ^ k \<le> unat w - 1" "unat w - 1 < 2 ^ Suc k" using ex_log2 by blast
    then have k': "2 ^ k < unat w" "unat w \<le> 2 ^ Suc k" using assms(1) by linarith+
    then have "(2 :: nat) ^ k < 2 ^ 63" using assms(2) by linarith
    then have "k < 63" by (rule power_less_imp_less_exp [rotated]) simp
    then have "unat (get_power_of_two w True) = 2 ^ Suc k" using get_power_of_two_up k' by blast
    then show ?thesis using k' by (intro exI [of _ "Suc k"]) auto
  qed
qed

lemma get_power_of_two_correct_witness:
  "(\<exists>h. unat (get_power_of_two 100 False) = 2 ^ h \<and> 2 ^ h \<le> (100 :: nat) \<and> (100 :: nat) < 2 ^ Suc h) \<and>
   (\<exists>h. unat (get_power_of_two 100 True) = 2 ^ h \<and> (100 :: nat) \<le> 2 ^ h \<and> 2 ^ h < (2 * 100 :: nat))"
  using get_power_of_two_correct [of 100] by simp

lemma bit_top_int: "2 ^ h \<le> (n :: int) \<Longrightarrow> n < 2 ^ Suc h \<Longrightarrow> bit n h"
proof -
  assume "2 ^ h \<le> n" "n < 2 ^ Suc h"
  then have "n div 2 ^ h = 1" by (intro int_div_pos_eq [where r = "n - 2 ^ h"]) auto
  then show ?thesis by (simp add: bit_iff_odd)
qed

text \<open>\<open>is_power_of_2\<close> recognises exactly the powers of two.\<close>

theorem is_power_of_2_correct: "is_power_of_2 n = (\<exists>k. n = 2 ^ k)"
proof
  assume "\<exists>k. n = 2 ^ k"
  then obtain k where k: "n = 2 ^ k" by blast
  have "n AND (n - 1) = 0"
    by (rule bit_eqI) (auto simp: k bit_and_iff bit_exp_iff bit_mask_iff simp flip: mask_eq_exp_minus_1)
  then show "is_power_of_2 n" by (simp add: is_power_of_2_def k)
next
  assume p: "is_power_of_2 n"
  then have n: "0 < n" "n AND (n - 1) = 0" by (simp_all add: is_power_of_2_def)
  obtain h where "2 ^ h \<le> nat n" "nat n < 2 ^ Suc h" using ex_log2 [of "nat n"] n by auto
  then have h: "2 ^ h \<le> n" "n < 2 ^ Suc h"
    using n by (metis nat_le_iff nat_less_iff int_nat_eq of_nat_le_iff of_nat_numeral of_nat_power order_less_imp_le,
        metis nat_less_iff n(1) of_nat_numeral of_nat_power order_less_imp_le)
  have "n = 2 ^ h"
  proof (rule ccontr)
    assume "n \<noteq> 2 ^ h"
    then have "bit n h" "bit (n - 1) h" using h by (auto intro!: bit_top_int)
    then have "bit (n AND (n - 1)) h" by (simp add: bit_and_iff)
    then show False using n(2) by simp
  qed
  then show "\<exists>k. n = 2 ^ k" by blast
qed

end
