(* ===== verification/Operators.thy ===== *)
theory Operators
  imports Meta
begin

text \<open>
  \<^verbatim>\<open>include/operations/blas_constants.h\<close> and \<^verbatim>\<open>src/operations/blas_operators.hpp\<close>: index-value
  tuples, the compile-time constants, the unary and binary operators with the neutral element
  (\<open>init\<close>) each reduction starts from, and the contract a reduction needs from an operator.
  The operators are polymorphic in the element type, as the templates are: a definition only
  asks for the operations it uses, a theorem for the laws it uses.
\<close>

section \<open>Index-value tuples and constants\<close>

record 'v IndexValueTuple =
  ind :: nat
  val :: 'v

definition get_index :: "'v IndexValueTuple \<Rightarrow> nat" where
  "get_index t = ind t"

text \<open>\<open>GetTupleValue\<close> is specialised for nested tuples: \<open>(a, x)\<close> gives \<open>x\<close> and
  \<open>(a, (b, x))\<close> gives \<open>x\<close>.\<close>

definition get_value :: "'v IndexValueTuple \<Rightarrow> 'v" where
  "get_value t = val t"

definition get_value_nested :: "'v IndexValueTuple IndexValueTuple \<Rightarrow> 'v" where
  "get_value_nested t = get_value (val t)"

datatype const_val = zero_c | one_c | m_one_c | two_c | m_two_c | max_c | min_c | abs_max_c | abs_min_c | collapse_c

text \<open>\<open>std::numeric_limits\<close> of a type is a parameter: its \<open>min()\<close> is the lowest value of an
  integer type, but the smallest positive normal value of a floating-point type.\<close>

record 'v numeric_limits =
  nl_min :: 'v
  nl_max :: 'v

primrec constant_value :: "'v::{zero, one, uminus, numeral} numeric_limits \<Rightarrow> const_val \<Rightarrow> 'v" where
  "constant_value nl zero_c = 0"
| "constant_value nl one_c = 1"
| "constant_value nl m_one_c = - 1"
| "constant_value nl two_c = 2"
| "constant_value nl m_two_c = - 2"
| "constant_value nl max_c = nl_max nl"
| "constant_value nl min_c = nl_min nl"
| "constant_value nl abs_max_c = nl_max nl"
| "constant_value nl abs_min_c = 0"
| "constant_value nl collapse_c = 7"

text \<open>The specialisations for tuples fix the index to the maximum of the index type.\<close>

primrec constant_tuple ::
  "nat \<Rightarrow> 'v::{zero, one, uminus, numeral} numeric_limits \<Rightarrow> const_val \<Rightarrow> 'v IndexValueTuple" where
  "constant_tuple imax nl abs_max_c = \<lparr>ind = imax, val = nl_max nl\<rparr>"
| "constant_tuple imax nl abs_min_c = \<lparr>ind = imax, val = 0\<rparr>"
| "constant_tuple imax nl max_c = \<lparr>ind = imax, val = nl_max nl\<rparr>"
| "constant_tuple imax nl min_c = \<lparr>ind = imax, val = nl_min nl\<rparr>"
| "constant_tuple imax nl collapse_c = \<lparr>ind = imax, val = nl_max nl\<rparr>"
| "constant_tuple imax nl zero_c = \<lparr>ind = imax, val = constant_value nl zero_c\<rparr>"
| "constant_tuple imax nl one_c = \<lparr>ind = imax, val = constant_value nl one_c\<rparr>"
| "constant_tuple imax nl m_one_c = \<lparr>ind = imax, val = constant_value nl m_one_c\<rparr>"
| "constant_tuple imax nl two_c = \<lparr>ind = imax, val = constant_value nl two_c\<rparr>"
| "constant_tuple imax nl m_two_c = \<lparr>ind = imax, val = constant_value nl m_two_c\<rparr>"

text \<open>\<open>constant<std::complex>\<close> puts the constant in both the real and the imaginary part.\<close>

definition constant_complex ::
  "'v::{zero, one, uminus, numeral} numeric_limits \<Rightarrow> const_val \<Rightarrow> 'v \<times> 'v" where
  "constant_complex nl k = (constant_value nl k, constant_value nl k)"

text \<open>The index of a \<open>constant_pair\<close> is a constant of the (signed) index type, of which only
  \<open>max\<close> and \<open>zero\<close> are used.\<close>

definition constant_pair ::
  "nat \<Rightarrow> 'v::{zero, one, uminus, numeral} numeric_limits \<Rightarrow> const_val \<Rightarrow> 'v IndexValueTuple" where
  "constant_pair index_constant nl k = \<lparr>ind = index_constant, val = constant_value nl k\<rparr>"

section \<open>Unary operators\<close>

definition AbsoluteValue :: "'v::abs \<Rightarrow> 'v" where
  "AbsoluteValue v = \<bar>v\<bar>"

definition AdditionIdentity :: "'v::zero \<Rightarrow> 'v" where
  "AdditionIdentity r = 0"

definition ProductIdentity :: "'v::one \<Rightarrow> 'v" where
  "ProductIdentity r = 1"

definition IdentityOperator :: "'v \<Rightarrow> 'v" where
  "IdentityOperator r = r"

definition NegationOperator :: "'v::uminus \<Rightarrow> 'v" where
  "NegationOperator r = - r"

text \<open>\<open>cl::sycl::sqrt\<close> is a built-in of the device: a parameter.\<close>

definition SqrtOperator :: "('v \<Rightarrow> 'v) \<Rightarrow> 'v \<Rightarrow> 'v" where
  "SqrtOperator sycl_sqrt r = sycl_sqrt r"

definition DoubleOperator :: "'v::plus \<Rightarrow> 'v" where
  "DoubleOperator r = r + r"

definition SquareOperator :: "'v::times \<Rightarrow> 'v" where
  "SquareOperator r = r * r"

section \<open>Binary operators and their neutral elements\<close>

definition AddOperator :: "'v::plus \<Rightarrow> 'v \<Rightarrow> 'v" where
  "AddOperator l r = l + r"

definition AddOperator_init :: "'v::{zero, one, uminus, numeral} numeric_limits \<Rightarrow> 'v" where
  "AddOperator_init nl = constant_value nl zero_c"

definition ProductOperator :: "'v::times \<Rightarrow> 'v \<Rightarrow> 'v" where
  "ProductOperator l r = l * r"

definition ProductOperator_init :: "'v::{zero, one, uminus, numeral} numeric_limits \<Rightarrow> 'v" where
  "ProductOperator_init nl = constant_value nl one_c"

definition DivisionOperator :: "'v::divide \<Rightarrow> 'v \<Rightarrow> 'v" where
  "DivisionOperator l r = l div r"

definition DivisionOperator_init :: "'v::{zero, one, uminus, numeral} numeric_limits \<Rightarrow> 'v" where
  "DivisionOperator_init nl = constant_value nl one_c"

definition MaxOperator :: "'v::ord \<Rightarrow> 'v \<Rightarrow> 'v" where
  "MaxOperator l r = (if l > r then l else r)"

definition MaxOperator_init :: "'v::{zero, one, uminus, numeral} numeric_limits \<Rightarrow> 'v" where
  "MaxOperator_init nl = constant_value nl min_c"

definition MinOperator :: "'v::ord \<Rightarrow> 'v \<Rightarrow> 'v" where
  "MinOperator l r = (if l < r then l else r)"

definition MinOperator_init :: "'v::{zero, one, uminus, numeral} numeric_limits \<Rightarrow> 'v" where
  "MinOperator_init nl = constant_value nl max_c"

definition AbsoluteAddOperator :: "'v::{plus, abs} \<Rightarrow> 'v \<Rightarrow> 'v" where
  "AbsoluteAddOperator l r = AbsoluteValue l + AbsoluteValue r"

definition AbsoluteAddOperator_init :: "'v::{zero, one, uminus, numeral} numeric_limits \<Rightarrow> 'v" where
  "AbsoluteAddOperator_init nl = constant_value nl zero_c"

definition IMaxOperator ::
  "'v::{abs, ord} IndexValueTuple \<Rightarrow> 'v IndexValueTuple \<Rightarrow> 'v IndexValueTuple" where
  "IMaxOperator l r =
     (if AbsoluteValue (get_value l) < AbsoluteValue (get_value r)
         \<or> (AbsoluteValue (get_value l) = AbsoluteValue (get_value r) \<and> get_index l > get_index r)
      then r else l)"

definition IMaxOperator_init ::
  "nat \<Rightarrow> 'v::{zero, one, uminus, numeral} numeric_limits \<Rightarrow> 'v IndexValueTuple" where
  "IMaxOperator_init imax nl = constant_pair imax nl zero_c"

definition IMinOperator ::
  "'v::{abs, ord} IndexValueTuple \<Rightarrow> 'v IndexValueTuple \<Rightarrow> 'v IndexValueTuple" where
  "IMinOperator l r =
     (if AbsoluteValue (get_value l) > AbsoluteValue (get_value r)
         \<or> (AbsoluteValue (get_value l) = AbsoluteValue (get_value r) \<and> get_index l > get_index r)
      then r else l)"

definition IMinOperator_init ::
  "nat \<Rightarrow> 'v::{zero, one, uminus, numeral} numeric_limits \<Rightarrow> 'v IndexValueTuple" where
  "IMinOperator_init imax nl = constant_pair imax nl abs_max_c"

definition CollapseIndexTupleOperator ::
  "nat \<Rightarrow> 'v IndexValueTuple IndexValueTuple \<Rightarrow> 'v IndexValueTuple" where
  "CollapseIndexTupleOperator l r =
     \<lparr>ind = get_index r * l + get_index (val r), val = get_value_nested r\<rparr>"

section \<open>The contract of a reduction\<close>

text \<open>A reduction folds an operator from its neutral element.\<close>

definition red :: "('a \<Rightarrow> 'a \<Rightarrow> 'a) \<Rightarrow> 'a \<Rightarrow> 'a list \<Rightarrow> 'a" where
  "red f init xs = foldl f init xs"

text \<open>
  The kernels split a vector into groups, start every group from \<open>init\<close> and combine the
  partial results in a tree. For the result to be that of the one fold, the operator must be
  associative and commutative on the values that occur and \<open>init\<close> must absorb itself; it need
  not be neutral (for \<open>AbsoluteAddOperator\<close>, combining with \<open>init\<close> takes the absolute value).
\<close>

locale reduction_op =
  fixes A :: "'a set" and f :: "'a \<Rightarrow> 'a \<Rightarrow> 'a" and init :: 'a
  assumes init_in: "init \<in> A"
    and closed: "a \<in> A \<Longrightarrow> b \<in> A \<Longrightarrow> f a b \<in> A"
    and assoc: "a \<in> A \<Longrightarrow> b \<in> A \<Longrightarrow> c \<in> A \<Longrightarrow> f (f a b) c = f a (f b c)"
    and comm: "a \<in> A \<Longrightarrow> b \<in> A \<Longrightarrow> f a b = f b a"
    and init_init: "f init init = init"
begin

lemma foldl_closed: "a \<in> A \<Longrightarrow> set xs \<subseteq> A \<Longrightarrow> foldl f a xs \<in> A"
  by (induction xs arbitrary: a) (auto simp: closed)

lemma red_closed [simp]: "set xs \<subseteq> A \<Longrightarrow> red f init xs \<in> A"
  by (simp add: red_def foldl_closed init_in)

lemma red_Nil: "red f init [] = init"
  by (simp add: red_def)

lemma foldl_pull: "a \<in> A \<Longrightarrow> b \<in> A \<Longrightarrow> set xs \<subseteq> A \<Longrightarrow> foldl f (f a b) xs = f a (foldl f b xs)"
  by (induction xs arbitrary: b) (auto simp: assoc closed)

lemma red_absorb: "set xs \<subseteq> A \<Longrightarrow> f init (red f init xs) = red f init xs"
  using foldl_pull [of init init xs] by (simp add: red_def init_in init_init)

lemma foldl_red: "a \<in> A \<Longrightarrow> set xs \<subseteq> A \<Longrightarrow> foldl f (f a init) xs = f a (red f init xs)"
  by (simp add: red_def foldl_pull init_in)

lemma red_append:
  assumes "set xs \<subseteq> A" and "set ys \<subseteq> A"
  shows "red f init (xs @ ys) = f (red f init xs) (red f init ys)"
proof -
  have "f (red f init xs) init = red f init xs"
    using assms red_absorb comm init_in by (metis red_closed)
  then have "red f init (xs @ ys) = foldl f (f (red f init xs) init) ys"
    by (simp add: red_def)
  also have "\<dots> = f (red f init xs) (red f init ys)"
    using assms by (simp add: foldl_red)
  finally show ?thesis .
qed

lemma red_concat:
  "(\<And>xs. xs \<in> set xss \<Longrightarrow> set xs \<subseteq> A) \<Longrightarrow>
   red f init (concat xss) = red f init (map (red f init) xss)"
proof (induction xss)
  case Nil
  then show ?case by simp
next
  case (Cons xs xss)
  have xs: "set xs \<subseteq> A" and xss: "set (concat xss) \<subseteq> A" using Cons.prems by auto
  have "red f init (map (red f init) (xs # xss)) = f (red f init xs) (red f init (map (red f init) xss))"
  proof -
    have "set (map (red f init) xss) \<subseteq> A" using Cons.prems by auto
    then have "red f init ([red f init xs] @ map (red f init) xss)
        = f (red f init [red f init xs]) (red f init (map (red f init) xss))"
      using xs by (intro red_append) auto
    moreover have "red f init [red f init xs] = red f init xs"
      using red_absorb [OF xs] by (simp add: red_def)
    ultimately show ?thesis by simp
  qed
  moreover have "red f init (concat (xs # xss)) = f (red f init xs) (red f init (concat xss))"
    using red_append [OF xs xss] by simp
  ultimately show ?case using Cons by simp
qed

lemma red_perm:
  assumes "mset xs = mset ys" and "set xs \<subseteq> A"
  shows "red f init xs = red f init ys"
proof -
  define g where "g = (\<lambda>x a. if x \<in> A \<and> a \<in> A then f a x else a)"
  have g: "fold g zs a = foldl f a zs" if "set zs \<subseteq> A" "a \<in> A" for zs a
    using that by (induction zs arbitrary: a) (auto simp: g_def closed)
  have "g x (g y a) = g y (g x a)" for x y a
  proof (cases "x \<in> A \<and> y \<in> A \<and> a \<in> A")
    case True
    then have "f (f a y) x = f (f a x) y" by (metis assoc comm)
    then show ?thesis using True by (simp add: g_def closed)
  next
    case False
    then show ?thesis by (auto simp: g_def)
  qed
  then have "fold g xs = fold g ys"
    using assms(1) by (intro fold_multiset_equiv) auto
  then show ?thesis
    using g assms init_in by (metis red_def mset_eq_setD)
qed

end

text \<open>The library's operators satisfy the contract.\<close>

interpretation add_red: reduction_op UNIV AddOperator "0 :: 'a::comm_monoid_add"
  by unfold_locales (auto simp: AddOperator_def ac_simps)

interpretation prod_red: reduction_op UNIV ProductOperator "1 :: 'a::comm_monoid_mult"
  by unfold_locales (auto simp: ProductOperator_def ac_simps)

interpretation max_red: reduction_op UNIV MaxOperator "m :: 'a::linorder" for m
  by unfold_locales (auto simp: MaxOperator_def)

interpretation min_red: reduction_op UNIV MinOperator "m :: 'a::linorder" for m
  by unfold_locales (auto simp: MinOperator_def)

interpretation abs_add_red: reduction_op UNIV AbsoluteAddOperator "0 :: 'a::ordered_ab_group_add_abs"
  by unfold_locales (auto simp: AbsoluteAddOperator_def AbsoluteValue_def ac_simps abs_add_abs)

text \<open>For \<open>iamax\<close> and \<open>iamin\<close> the values are the tuples of one vector together with the neutral
  element, whose index is above every index of the vector.\<close>

definition tuples_of :: "(nat \<Rightarrow> 'v) \<Rightarrow> 'v IndexValueTuple \<Rightarrow> 'v IndexValueTuple set" where
  "tuples_of v init = insert init ((\<lambda>i. \<lparr>ind = i, val = v i\<rparr>) ` {..<ind init})"

lemma tuples_of_inj: "a \<in> tuples_of v i0 \<Longrightarrow> b \<in> tuples_of v i0 \<Longrightarrow> ind a = ind b \<Longrightarrow> a = b"
  by (auto simp: tuples_of_def)

lemma tuples_of_init [simp]: "i0 \<in> tuples_of v i0"
  by (simp add: tuples_of_def)

lemma tuples_of_elem [simp]: "i < ind i0 \<Longrightarrow> \<lparr>ind = i, val = v i\<rparr> \<in> tuples_of v i0"
  by (simp add: tuples_of_def)

interpretation imax_red: reduction_op "tuples_of v i0" IMaxOperator i0
  for v :: "nat \<Rightarrow> 'v::linordered_idom" and i0
proof
  show "IMaxOperator i0 i0 = i0" by (simp add: IMaxOperator_def)
  show "IMaxOperator a b \<in> tuples_of v i0" if "a \<in> tuples_of v i0" "b \<in> tuples_of v i0" for a b
    using that by (simp add: IMaxOperator_def)
  show "IMaxOperator a b = IMaxOperator b a" if "a \<in> tuples_of v i0" "b \<in> tuples_of v i0" for a b
    using tuples_of_inj [OF that] by (auto simp: IMaxOperator_def get_index_def)
  show "IMaxOperator (IMaxOperator a b) c = IMaxOperator a (IMaxOperator b c)"
    if "a \<in> tuples_of v i0" "b \<in> tuples_of v i0" "c \<in> tuples_of v i0" for a b c
    by (auto simp: IMaxOperator_def)
qed simp

interpretation imin_red: reduction_op "tuples_of v i0" IMinOperator i0
  for v :: "nat \<Rightarrow> 'v::linordered_idom" and i0
proof
  show "IMinOperator i0 i0 = i0" by (simp add: IMinOperator_def)
  show "IMinOperator a b \<in> tuples_of v i0" if "a \<in> tuples_of v i0" "b \<in> tuples_of v i0" for a b
    using that by (simp add: IMinOperator_def)
  show "IMinOperator a b = IMinOperator b a" if "a \<in> tuples_of v i0" "b \<in> tuples_of v i0" for a b
    using tuples_of_inj [OF that] by (auto simp: IMinOperator_def get_index_def)
  show "IMinOperator (IMinOperator a b) c = IMinOperator a (IMinOperator b c)"
    if "a \<in> tuples_of v i0" "b \<in> tuples_of v i0" "c \<in> tuples_of v i0" for a b c
    by (auto simp: IMinOperator_def)
qed simp

section \<open>What the folds compute\<close>

lemma red_AddOperator: "red AddOperator 0 xs = sum_list (xs :: 'a::comm_monoid_add list)"
proof -
  have "foldl AddOperator s xs = s + sum_list xs" for s
    by (induction xs arbitrary: s) (simp_all add: AddOperator_def ac_simps)
  then show ?thesis by (simp add: red_def)
qed

lemma red_AbsoluteAdd:
  "red AbsoluteAddOperator 0 xs = sum_list (map abs (xs :: 'a::linordered_idom list))"
proof -
  have "0 \<le> s \<Longrightarrow> foldl AbsoluteAddOperator s xs = s + sum_list (map abs xs)" for s
    by (induction xs arbitrary: s) (simp_all add: AbsoluteAddOperator_def AbsoluteValue_def ac_simps)
  then show ?thesis by (simp add: red_def)
qed

lemma red_MaxOperator: "red MaxOperator m xs = Max (set (m # xs))"
  for m :: "'a::linorder"
  unfolding red_def
proof (induction xs rule: rev_induct)
  case Nil
  then show ?case by simp
next
  case (snoc x xs)
  have "MaxOperator a x = max x a" for a by (auto simp: MaxOperator_def max_def)
  moreover have "set (m # xs @ [x]) = insert x (set (m # xs))" by auto
  moreover have "Max (insert x (set (m # xs))) = max x (Max (set (m # xs)))"
    by (rule Max_insert) auto
  ultimately show ?case using snoc by (metis foldl_Cons foldl_Nil foldl_append)
qed

text \<open>\<open>imax_le a b\<close>: \<open>a\<close> comes before \<open>b\<close> for \<open>iamax\<close>, by larger absolute value, then by
  smaller index; \<open>imin_le\<close> likewise for \<open>iamin\<close>.\<close>

definition imax_le :: "'v::linordered_idom IndexValueTuple \<Rightarrow> 'v IndexValueTuple \<Rightarrow> bool" where
  "imax_le a b \<longleftrightarrow> \<bar>val b\<bar> < \<bar>val a\<bar> \<or> (\<bar>val b\<bar> = \<bar>val a\<bar> \<and> ind a \<le> ind b)"

definition imin_le :: "'v::linordered_idom IndexValueTuple \<Rightarrow> 'v IndexValueTuple \<Rightarrow> bool" where
  "imin_le a b \<longleftrightarrow> \<bar>val a\<bar> < \<bar>val b\<bar> \<or> (\<bar>val b\<bar> = \<bar>val a\<bar> \<and> ind a \<le> ind b)"

lemmas ivt_defs = IMaxOperator_def IMinOperator_def get_value_def get_index_def AbsoluteValue_def
  imax_le_def imin_le_def

lemma red_IMaxOperator:
  "red IMaxOperator t0 ts \<in> set (t0 # ts) \<and> (\<forall>t \<in> set (t0 # ts). imax_le (red IMaxOperator t0 ts) t)"
  unfolding red_def
proof (induction ts rule: rev_induct)
  case Nil
  then show ?case by (simp add: imax_le_def)
next
  case (snoc t ts)
  let ?r = "foldl IMaxOperator t0 ts" and ?s = "IMaxOperator (foldl IMaxOperator t0 ts) t"
  have "?s = ?r \<or> ?s = t" by (simp add: IMaxOperator_def)
  moreover have "imax_le ?s t" and r: "imax_le ?s ?r"
    by (auto simp: ivt_defs)
  moreover have "imax_le ?s u" if "u \<in> set (t0 # ts)" for u
  proof -
    have "imax_le ?r u" using snoc.IH that by blast
    with r show ?thesis by (auto simp: imax_le_def)
  qed
  ultimately show ?case using snoc.IH by auto
qed

lemma red_IMinOperator:
  "red IMinOperator t0 ts \<in> set (t0 # ts) \<and> (\<forall>t \<in> set (t0 # ts). imin_le (red IMinOperator t0 ts) t)"
  unfolding red_def
proof (induction ts rule: rev_induct)
  case Nil
  then show ?case by (simp add: imin_le_def)
next
  case (snoc t ts)
  let ?r = "foldl IMinOperator t0 ts" and ?s = "IMinOperator (foldl IMinOperator t0 ts) t"
  have "?s = ?r \<or> ?s = t" by (simp add: IMinOperator_def)
  moreover have "imin_le ?s t" and r: "imin_le ?s ?r"
    by (auto simp: ivt_defs)
  moreover have "imin_le ?s u" if "u \<in> set (t0 # ts)" for u
  proof -
    have "imin_le ?r u" using snoc.IH that by blast
    with r show ?thesis by (auto simp: imin_le_def)
  qed
  ultimately show ?case using snoc.IH by auto
qed

end
