(* ===== verification/Views.thy ===== *)
theory Views
  imports Operators
begin

text \<open>
  Buffers, iterators and views: \<^verbatim>\<open>include/container/sycl_iterator.h\<close>,
  \<^verbatim>\<open>src/views/view_sycl.hpp\<close> and the container-generic \<^verbatim>\<open>src/views/view.hpp\<close>.

  Device memory is a function from addresses to values. An address is a buffer and an
  element index in it; indices are integers, because a displacement or a stride may be
  negative. Whether an address lies inside its buffer is a matter of the bounds theorems.
  Sizes are natural numbers (a negative size is outside the documented interface).
\<close>

type_synonym addr = "nat \<times> int"
type_synonym 'v mem = "addr \<Rightarrow> 'v"

section \<open>Buffer iterators and accessors\<close>

record BufferIterator =
  it_buffer :: nat
  it_count :: nat
  it_offset :: int

definition make_sycl_iterator_buffer :: "nat \<Rightarrow> nat \<Rightarrow> BufferIterator" where
  "make_sycl_iterator_buffer buff sz = \<lparr>it_buffer = buff, it_count = sz, it_offset = 0\<rparr>"

definition it_plus_eq :: "BufferIterator \<Rightarrow> int \<Rightarrow> BufferIterator" where
  "it_plus_eq it off = it\<lparr>it_offset := it_offset it + off\<rparr>"

definition it_plus :: "BufferIterator \<Rightarrow> int \<Rightarrow> BufferIterator" where
  "it_plus it off = \<lparr>it_buffer = it_buffer it, it_count = it_count it, it_offset = it_offset it + off\<rparr>"

definition it_minus :: "BufferIterator \<Rightarrow> int \<Rightarrow> BufferIterator" where
  "it_minus it off = \<lparr>it_buffer = it_buffer it, it_count = it_count it, it_offset = it_offset it - off\<rparr>"

definition it_minus_eq :: "BufferIterator \<Rightarrow> int \<Rightarrow> BufferIterator" where
  "it_minus_eq it off = it\<lparr>it_offset := it_offset it - off\<rparr>"

definition it_pre_incr :: "BufferIterator \<Rightarrow> BufferIterator" where
  "it_pre_incr it = it\<lparr>it_offset := it_offset it + 1\<rparr>"

text \<open>The post-increment returns the old iterator and the object it leaves behind.\<close>

definition it_post_incr :: "BufferIterator \<Rightarrow> BufferIterator \<times> BufferIterator" where
  "it_post_incr it = (it, it\<lparr>it_offset := it_offset it + 1\<rparr>)"

definition it_get_size :: "BufferIterator \<Rightarrow> int" where
  "it_get_size it = int (it_count it) - it_offset it"

definition it_set_offset :: "BufferIterator \<Rightarrow> int \<Rightarrow> BufferIterator" where
  "it_set_offset it off = it\<lparr>it_offset := off\<rparr>"

text \<open>A placeholder accessor: the region of a buffer a kernel asks for. Its
  \<open>get_pointer()\<close> is the start of the buffer, not of the region (SYCL 1.2.1), which is
  why the views add the offset themselves.\<close>

record acc_range =
  acc_buffer :: nat
  acc_count :: nat
  acc_offset :: int

definition get_range_accessor_sized :: "BufferIterator \<Rightarrow> nat \<Rightarrow> acc_range" where
  "get_range_accessor_sized it sz =
     \<lparr>acc_buffer = it_buffer it, acc_count = sz, acc_offset = it_offset it\<rparr>"

definition get_range_accessor :: "BufferIterator \<Rightarrow> acc_range" where
  "get_range_accessor it = get_range_accessor_sized it (nat (it_get_size it))"

text \<open>The cells of an accessor's region.\<close>

definition region :: "acc_range \<Rightarrow> addr set" where
  "region a = {acc_buffer a} \<times> {acc_offset a ..< acc_offset a + int (acc_count a)}"

definition wf_iter :: "BufferIterator \<Rightarrow> bool" where
  "wf_iter it \<longleftrightarrow> 0 \<le> it_offset it \<and> it_offset it \<le> int (it_count it)"

lemma region_range_accessor:
  "wf_iter it \<Longrightarrow> region (get_range_accessor it) = {it_buffer it} \<times> {it_offset it ..< int (it_count it)}"
  by (simp add: region_def get_range_accessor_def get_range_accessor_sized_def it_get_size_def wf_iter_def)

section \<open>Vector views\<close>

record VectorView =
  vv_data :: acc_range
  vv_size :: nat
  vv_disp :: int
  vv_stride :: int
  vv_ptr :: int

definition round_up_ratio :: "nat \<Rightarrow> nat \<Rightarrow> nat" where
  "round_up_ratio num den = (num + den - 1) div den"

definition calculate_input_data_size :: "acc_range \<Rightarrow> int \<Rightarrow> int \<Rightarrow> nat \<Rightarrow> nat" where
  "calculate_input_data_size data disp stride sz =
     (let positive_stride = (if stride < 0 then - stride else stride);
          calc_size = round_up_ratio (acc_count data) (nat positive_stride)
      in min sz calc_size)"

text \<open>The constructor leaves \<open>ptr_\<close> unset; the model sets it to 0 there, and every kernel
  calls \<open>adjust_access_displacement\<close> before it evaluates.\<close>

definition make_VectorView :: "acc_range \<Rightarrow> int \<Rightarrow> int \<Rightarrow> nat \<Rightarrow> VectorView" where
  "make_VectorView data disp strd sz =
     (let sz' = calculate_input_data_size data disp strd sz
      in \<lparr>vv_data = data, vv_size = sz',
          vv_disp = (if strd > 0 then disp else disp + (int sz' - 1) * (- strd)),
          vv_stride = strd, vv_ptr = 0\<rparr>)"

definition VectorView_of_iter :: "BufferIterator \<Rightarrow> int \<Rightarrow> nat \<Rightarrow> VectorView" where
  "VectorView_of_iter data strd sz =
     make_VectorView (get_range_accessor data) (it_offset data) strd sz"

definition VectorView_of_view :: "VectorView \<Rightarrow> int \<Rightarrow> int \<Rightarrow> nat \<Rightarrow> VectorView" where
  "VectorView_of_view opV disp strd sz = make_VectorView (vv_data opV) disp strd sz"

definition make_vector_view :: "BufferIterator \<Rightarrow> int \<Rightarrow> nat \<Rightarrow> VectorView" where
  "make_vector_view buff inc sz = VectorView_of_iter buff inc sz"

definition vv_adjust :: "VectorView \<Rightarrow> VectorView" where
  "vv_adjust v = v\<lparr>vv_ptr := vv_disp v\<rparr>"

definition vv_eval_addr :: "VectorView \<Rightarrow> nat \<Rightarrow> addr" where
  "vv_eval_addr v i =
     (acc_buffer (vv_data v),
      if vv_stride v = 1 then vv_ptr v + int i else vv_ptr v + int i * vv_stride v)"

definition vv_eval_ptr_addr :: "VectorView \<Rightarrow> nat \<Rightarrow> addr" where
  "vv_eval_ptr_addr v indx = (acc_buffer (vv_data v), vv_ptr v + int indx)"

definition vv_bind :: "VectorView \<Rightarrow> acc_range list" where
  "vv_bind v = [vv_data v]"

text \<open>The cell a kernel uses for element \<open>i\<close>: it adjusts the view, then evaluates it.\<close>

definition vaddr :: "VectorView \<Rightarrow> nat \<Rightarrow> addr" where
  "vaddr v i = vv_eval_addr (vv_adjust v) i"

lemma vaddr_eq: "vaddr v i = (acc_buffer (vv_data v), vv_disp v + int i * vv_stride v)"
  by (simp add: vaddr_def vv_eval_addr_def vv_adjust_def)

definition wf_vector_view :: "VectorView \<Rightarrow> bool" where
  "wf_vector_view v \<longleftrightarrow> vv_stride v \<noteq> 0 \<and>
     (0 < vv_size v \<longrightarrow> vaddr v 0 \<in> region (vv_data v) \<and> vaddr v (vv_size v - 1) \<in> region (vv_data v))"

lemma vaddr_inj: "vv_stride v \<noteq> 0 \<Longrightarrow> vaddr v i = vaddr v j \<Longrightarrow> i = j"
  by (simp add: vaddr_eq)

lemma vaddr_between:
  assumes "i < vv_size v" "wf_vector_view v"
  shows "vaddr v i \<in> region (vv_data v)"
proof -
  define n where "n = int (vv_size v) - 1"
  have n: "int (vv_size v - 1) = n" "0 \<le> int i" "int i \<le> n" using assms by (auto simp: n_def)
  have ends: "vaddr v 0 \<in> region (vv_data v)" "vaddr v (vv_size v - 1) \<in> region (vv_data v)"
    using assms by (auto simp: wf_vector_view_def)
  have "min 0 (n * vv_stride v) \<le> int i * vv_stride v \<and> int i * vv_stride v \<le> max 0 (n * vv_stride v)"
  proof (cases "0 \<le> vv_stride v")
    case True
    then have "0 \<le> int i * vv_stride v" "int i * vv_stride v \<le> n * vv_stride v"
      using n by (auto intro: mult_right_mono)
    then show ?thesis by auto
  next
    case False
    then have "int i * vv_stride v \<le> 0" "n * vv_stride v \<le> int i * vv_stride v"
      using n by (auto simp: mult_le_0_iff intro: mult_right_mono_neg)
    then show ?thesis by auto
  qed
  then show ?thesis using ends n(1) by (auto simp: region_def vaddr_eq min_def max_def split: if_splits)
qed

text \<open>The size a view computes for itself never reaches past the accessor, in either
  direction of traversal.\<close>

lemma make_VectorView_simps [simp]:
  "vv_size (make_VectorView data disp strd sz) = min sz (cdiv (acc_count data) (nat \<bar>strd\<bar>))"
  "vv_stride (make_VectorView data disp strd sz) = strd"
  "vv_data (make_VectorView data disp strd sz) = data"
  by (simp_all add: make_VectorView_def calculate_input_data_size_def Let_def round_up_ratio_def
      cdiv_def abs_if)

lemma make_VectorView_disp:
  "vv_disp (make_VectorView data disp strd sz) =
     (if strd > 0 then disp
      else disp + (int (vv_size (make_VectorView data disp strd sz)) - 1) * (- strd))"
  by (simp add: make_VectorView_def Let_def)

lemma make_VectorView_wf:
  assumes "strd \<noteq> 0" "disp = acc_offset data"
  shows "wf_vector_view (make_VectorView data disp strd sz)"
proof -
  define s where "s = nat \<bar>strd\<bar>"
  have s: "0 < s" "strd = int s \<or> strd = - int s" using assms by (auto simp: s_def)
  define v where "v = make_VectorView data disp strd sz"
  define k where "k = vv_size v"
  have k: "k = min sz (cdiv (acc_count data) s)" by (simp add: k_def v_def s_def)
  have reach: "(int k - 1) * int s < int (acc_count data)" "0 \<le> (int k - 1) * int s" if "0 < k"
  proof -
    have "k - 1 < cdiv (acc_count data) s" using that by (auto simp: k)
    then have "(k - 1) * s < acc_count data" using s by (simp add: cdiv_less_iff)
    then have "int ((k - 1) * s) < int (acc_count data)" by (simp only: of_nat_less_iff)
    then show "(int k - 1) * int s < int (acc_count data)" using that by (simp add: of_nat_diff)
    show "0 \<le> (int k - 1) * int s" using that by simp
  qed
  have room: "0 < acc_count data" if "0 < k"
    using reach [OF that] by linarith
  have disp: "vv_disp v = (if strd > 0 then disp else disp + (int k - 1) * (- strd))"
    unfolding v_def k_def by (rule make_VectorView_disp)
  have "strd \<noteq> 0 \<and> (0 < k \<longrightarrow> vaddr v 0 \<in> region data \<and> vaddr v (k - 1) \<in> region data)"
  proof (intro conjI impI)
    assume pos: "0 < k"
    show "vaddr v 0 \<in> region data" "vaddr v (k - 1) \<in> region data"
      using s(2) reach [OF pos] room [OF pos] pos assms s(1)
      by (auto simp: region_def vaddr_eq disp of_nat_diff) (auto simp: v_def)
  qed (rule assms)
  then show ?thesis by (simp add: wf_vector_view_def k_def v_def)
qed

lemma make_vector_view_wf: "inc \<noteq> 0 \<Longrightarrow> wf_vector_view (make_vector_view it inc n)"
  by (simp add: make_vector_view_def VectorView_of_iter_def make_VectorView_wf
      get_range_accessor_def get_range_accessor_sized_def)

text \<open>A vector of \<open>n\<close> elements fits when the buffer holds all of them; then the view has
  exactly \<open>n\<close> elements.\<close>

definition vector_fits :: "BufferIterator \<Rightarrow> int \<Rightarrow> nat \<Rightarrow> bool" where
  "vector_fits it inc n \<longleftrightarrow> inc \<noteq> 0 \<and> 0 \<le> it_offset it \<and>
     (0 < n \<longrightarrow> it_offset it + (int n - 1) * \<bar>inc\<bar> < int (it_count it))"

lemma vector_fits_size:
  assumes "vector_fits it inc n"
  shows "vv_size (make_vector_view it inc n) = n"
proof (cases "n = 0")
  case False
  define s where "s = nat \<bar>inc\<bar>"
  define c where "c = nat (int (it_count it) - it_offset it)"
  have s: "0 < s" "\<bar>inc\<bar> = int s" using assms by (auto simp: vector_fits_def s_def)
  have "(int n - 1) * int s < int c"
    using assms False s by (auto simp: vector_fits_def c_def)
  then have "int ((n - 1) * s) < int c" using False by (simp add: of_nat_diff)
  then have "n - 1 < cdiv c s" using s by (simp only: cdiv_less_iff of_nat_less_iff)
  then show ?thesis
    using False by (simp add: make_vector_view_def VectorView_of_iter_def get_range_accessor_def
        get_range_accessor_sized_def it_get_size_def c_def s_def)
qed (simp add: make_vector_view_def VectorView_of_iter_def)

text \<open>Where element \<open>i\<close> of a vector of \<open>n\<close> elements with increment \<open>inc\<close> is, in the
  convention of the BLAS: backwards from the far end when \<open>inc\<close> is negative.\<close>

definition blas_index :: "nat \<Rightarrow> int \<Rightarrow> nat \<Rightarrow> int" where
  "blas_index n inc i = (if 0 < inc then int i * inc else (int i - (int n - 1)) * inc)"

lemma vaddr_make_vector_view:
  assumes "vector_fits it inc n"
  shows "vaddr (make_vector_view it inc n) i = (it_buffer it, it_offset it + blas_index n inc i)"
proof -
  have "vv_size (make_VectorView (get_range_accessor it) (it_offset it) inc n) = n"
    using vector_fits_size [OF assms] by (simp add: make_vector_view_def VectorView_of_iter_def)
  moreover have "acc_buffer (get_range_accessor it) = it_buffer it"
    by (simp add: get_range_accessor_def get_range_accessor_sized_def)
  ultimately show ?thesis
    unfolding vaddr_eq make_vector_view_def VectorView_of_iter_def make_VectorView_disp
    by (cases "0 < inc") (simp_all add: blas_index_def algebra_simps)
qed

section \<open>Matrix views\<close>

record MatrixView =
  mv_data :: acc_range
  mv_sizeR :: nat
  mv_sizeC :: nat
  mv_sizeL :: nat
  mv_disp :: int
  mv_layout :: access_layout
  mv_ptr :: int

definition make_MatrixView ::
  "access_layout \<Rightarrow> acc_range \<Rightarrow> nat \<Rightarrow> nat \<Rightarrow> nat \<Rightarrow> int \<Rightarrow> MatrixView" where
  "make_MatrixView lay data sizeR sizeC sizeL disp =
     \<lparr>mv_data = data, mv_sizeR = sizeR, mv_sizeC = sizeC, mv_sizeL = sizeL, mv_disp = disp,
      mv_layout = lay, mv_ptr = 0\<rparr>"

definition MatrixView_of_iter ::
  "access_layout \<Rightarrow> BufferIterator \<Rightarrow> nat \<Rightarrow> nat \<Rightarrow> nat \<Rightarrow> MatrixView" where
  "MatrixView_of_iter lay data sizeR sizeC sizeL =
     make_MatrixView lay (get_range_accessor data) sizeR sizeC sizeL (it_offset data)"

definition MatrixView_of_view :: "MatrixView \<Rightarrow> nat \<Rightarrow> nat \<Rightarrow> nat \<Rightarrow> int \<Rightarrow> MatrixView" where
  "MatrixView_of_view opM sizeR sizeC sizeL disp =
     make_MatrixView (mv_layout opM) (mv_data opM) sizeR sizeC sizeL disp"

definition make_matrix_view ::
  "access_layout \<Rightarrow> BufferIterator \<Rightarrow> nat \<Rightarrow> nat \<Rightarrow> nat \<Rightarrow> MatrixView" where
  "make_matrix_view lay buff m n lda = MatrixView_of_iter lay buff m n lda"

definition mv_get_size :: "MatrixView \<Rightarrow> nat" where
  "mv_get_size v = mv_sizeR v * mv_sizeC v"

definition mv_adjust :: "MatrixView \<Rightarrow> MatrixView" where
  "mv_adjust v = v\<lparr>mv_ptr := mv_disp v\<rparr>"

definition mv_eval_addr :: "MatrixView \<Rightarrow> nat \<Rightarrow> nat \<Rightarrow> addr" where
  "mv_eval_addr v i j =
     (acc_buffer (mv_data v),
      if is_col_major (mv_layout v) then mv_ptr v + int i + int (mv_sizeL v * j)
      else mv_ptr v + int j + int (mv_sizeL v * i))"

definition mv_eval_lin_addr :: "MatrixView \<Rightarrow> nat \<Rightarrow> addr" where
  "mv_eval_lin_addr v indx =
     (let j = indx div mv_sizeR v; i = indx - mv_sizeR v * j in mv_eval_addr v i j)"

definition mv_eval_ptr_addr :: "MatrixView \<Rightarrow> nat \<Rightarrow> addr" where
  "mv_eval_ptr_addr v indx = (acc_buffer (mv_data v), mv_ptr v + int indx)"

definition mv_bind :: "MatrixView \<Rightarrow> acc_range list" where
  "mv_bind v = [mv_data v]"

definition maddr :: "MatrixView \<Rightarrow> nat \<Rightarrow> nat \<Rightarrow> addr" where
  "maddr v i j = mv_eval_addr (mv_adjust v) i j"

definition maddr_lin :: "MatrixView \<Rightarrow> nat \<Rightarrow> addr" where
  "maddr_lin v k = mv_eval_lin_addr (mv_adjust v) k"

lemma maddr_eq: "maddr v i j = (acc_buffer (mv_data v),
    mv_disp v + (if is_col_major (mv_layout v) then int (i + mv_sizeL v * j) else int (j + mv_sizeL v * i)))"
  by (simp add: maddr_def mv_eval_addr_def mv_adjust_def)

lemma maddr_lin_eq: "maddr_lin v k = maddr v (k mod mv_sizeR v) (k div mv_sizeR v)"
  by (simp add: maddr_lin_def maddr_def mv_eval_lin_addr_def Let_def mv_adjust_def minus_mult_div_eq_mod)

text \<open>The leading dimension must cover the fast dimension, and the last element must lie in
  the region; no constructor checks either.\<close>

definition wf_matrix_view :: "MatrixView \<Rightarrow> bool" where
  "wf_matrix_view v \<longleftrightarrow>
     (if is_col_major (mv_layout v) then mv_sizeR v \<le> mv_sizeL v else mv_sizeC v \<le> mv_sizeL v) \<and>
     (0 < mv_sizeR v \<longrightarrow> 0 < mv_sizeC v \<longrightarrow>
        maddr v 0 0 \<in> region (mv_data v) \<and> maddr v (mv_sizeR v - 1) (mv_sizeC v - 1) \<in> region (mv_data v))"

lemma ld_index_inj:
  assumes "(i::nat) < n" "i' < n" "n \<le> ld" "i + ld * j = i' + ld * j'"
  shows "i = i' \<and> j = j'"
proof -
  have "i < ld" "i' < ld" using assms by auto
  then have "j = (i + ld * j) div ld" "j' = (i' + ld * j') div ld" by auto
  then show ?thesis using assms(4) by auto
qed

lemma maddr_inj:
  assumes "wf_matrix_view v" "i < mv_sizeR v" "i' < mv_sizeR v" "j < mv_sizeC v" "j' < mv_sizeC v"
    and "maddr v i j = maddr v i' j'"
  shows "i = i' \<and> j = j'"
proof (cases "is_col_major (mv_layout v)")
  case True
  then have "i + mv_sizeL v * j = i' + mv_sizeL v * j'" and "mv_sizeR v \<le> mv_sizeL v"
    using assms by (simp_all add: maddr_eq wf_matrix_view_def flip: of_nat_add of_nat_mult)
  then show ?thesis using assms by (intro ld_index_inj)
next
  case False
  then have "j + mv_sizeL v * i = j' + mv_sizeL v * i'" and "mv_sizeC v \<le> mv_sizeL v"
    using assms by (simp_all add: maddr_eq wf_matrix_view_def flip: of_nat_add of_nat_mult)
  then have "j = j' \<and> i = i'" using assms by (intro ld_index_inj)
  then show ?thesis by simp
qed

lemma maddr_in_region:
  assumes "wf_matrix_view v" "i < mv_sizeR v" "j < mv_sizeC v"
  shows "maddr v i j \<in> region (mv_data v)"
proof -
  have ends: "maddr v 0 0 \<in> region (mv_data v)"
    "maddr v (mv_sizeR v - 1) (mv_sizeC v - 1) \<in> region (mv_data v)"
    using assms by (auto simp: wf_matrix_view_def)
  have "mv_sizeL v * j \<le> mv_sizeL v * (mv_sizeC v - 1)" "mv_sizeL v * i \<le> mv_sizeL v * (mv_sizeR v - 1)"
    using assms by auto
  then have "i + mv_sizeL v * j \<le> mv_sizeR v - 1 + mv_sizeL v * (mv_sizeC v - 1)"
    "j + mv_sizeL v * i \<le> mv_sizeC v - 1 + mv_sizeL v * (mv_sizeR v - 1)" using assms by linarith+
  moreover obtain a b where "a = (if is_col_major (mv_layout v) then i + mv_sizeL v * j else j + mv_sizeL v * i)"
    "b = (if is_col_major (mv_layout v) then mv_sizeR v - 1 + mv_sizeL v * (mv_sizeC v - 1)
          else mv_sizeC v - 1 + mv_sizeL v * (mv_sizeR v - 1))" by blast
  ultimately have "a \<le> b" "maddr v i j = (acc_buffer (mv_data v), mv_disp v + int a)"
    "maddr v (mv_sizeR v - 1) (mv_sizeC v - 1) = (acc_buffer (mv_data v), mv_disp v + int b)"
    by (simp_all add: maddr_eq del: One_nat_def)
  then show ?thesis using ends by (simp add: region_def maddr_eq [of v 0 0])
qed

lemma lin_index_bounds:
  "k < mv_get_size v \<Longrightarrow> k mod mv_sizeR v < mv_sizeR v \<and> k div mv_sizeR v < mv_sizeC v"
  by (cases "mv_sizeR v = 0") (auto simp: mv_get_size_def less_mult_imp_div_less mult.commute)

section \<open>Properties\<close>

lemma make_vector_view_data [simp]:
  "vv_data (make_vector_view it inc n) = get_range_accessor it" "vv_stride (make_vector_view it inc n) = inc"
  "vv_size (make_vector_view it inc n) \<le> n"
  by (simp_all add: make_vector_view_def VectorView_of_iter_def)

text \<open>C39: whatever size a caller asks for and whatever the sign of the increment, every element
  of a vector view lies in the part of the buffer behind the iterator, and different elements
  are different cells.\<close>

theorem make_vector_view_safe:
  assumes "wf_iter it" "inc \<noteq> 0" "i < vv_size (make_vector_view it inc n)"
  shows "vaddr (make_vector_view it inc n) i \<in> {it_buffer it} \<times> {it_offset it ..< int (it_count it)} \<and>
         (\<forall>j. vaddr (make_vector_view it inc n) j = vaddr (make_vector_view it inc n) i \<longrightarrow> j = i)"
  using vaddr_between [OF assms(3) make_vector_view_wf [OF assms(2)]] region_range_accessor [OF assms(1)]
    vaddr_inj [of "make_vector_view it inc n"] assms(2) by simp

lemma make_vector_view_safe_witness:
  "vaddr (make_vector_view \<lparr>it_buffer = 4, it_count = 10, it_offset = 3\<rparr> (- 3) 7) 2 = (4, 3)"
  using make_vector_view_safe [of "\<lparr>it_buffer = 4, it_count = 10, it_offset = 3\<rparr>" "- 3" 2 7]
  by (simp add: vaddr_eq make_vector_view_def VectorView_of_iter_def make_VectorView_disp wf_iter_def
      get_range_accessor_def get_range_accessor_sized_def it_get_size_def cdiv_def)

text \<open>In a matrix view whose leading dimension covers the fast dimension, the linear index
  \<open>eval(k)\<close> walks the columns: it enumerates every element \<open>(i, j)\<close> once, each in its own cell
  of the region.\<close>

theorem matrix_view_linear:
  assumes "wf_matrix_view v" "i < mv_sizeR v" "j < mv_sizeC v"
  shows "maddr_lin v (i + mv_sizeR v * j) = maddr v i j \<and> i + mv_sizeR v * j < mv_get_size v \<and>
         maddr v i j \<in> region (mv_data v) \<and>
         (\<forall>k < mv_get_size v. maddr_lin v k = maddr v i j \<longrightarrow> k = i + mv_sizeR v * j)"
proof (intro conjI allI impI)
  show lin: "maddr_lin v (i + mv_sizeR v * j) = maddr v i j"
    using assms by (simp add: maddr_lin_eq)
  have "i + mv_sizeR v * j < mv_sizeR v * Suc j" using assms by simp
  also have "\<dots> \<le> mv_sizeR v * mv_sizeC v" using assms by (intro mult_le_mono2) simp
  finally show "i + mv_sizeR v * j < mv_get_size v" by (simp add: mv_get_size_def)
  show "maddr v i j \<in> region (mv_data v)" by (rule maddr_in_region [OF assms])
  fix k assume k: "k < mv_get_size v" "maddr_lin v k = maddr v i j"
  then have "k mod mv_sizeR v = i \<and> k div mv_sizeR v = j"
    using lin_index_bounds [OF k(1)] assms maddr_inj [OF assms(1), of "k mod mv_sizeR v" i "k div mv_sizeR v" j]
    by (simp add: maddr_lin_eq)
  then show "k = i + mv_sizeR v * j" by (metis add.commute mult_div_mod_eq)
qed

lemma matrix_view_linear_witness:
  "maddr_lin (make_matrix_view col_major \<lparr>it_buffer = 4, it_count = 20, it_offset = 2\<rparr> 3 4 5) 7 = (4, 13)"
  using matrix_view_linear [of "make_matrix_view col_major \<lparr>it_buffer = 4, it_count = 20, it_offset = 2\<rparr> 3 4 5" 1 2]
  by (simp add: maddr_eq wf_matrix_view_def make_matrix_view_def MatrixView_of_iter_def make_MatrixView_def
      get_range_accessor_def get_range_accessor_sized_def it_get_size_def region_def)

end
