(* ===== verification/Generic_Views.thy ===== *)
theory Generic_Views
  imports Views "HOL-Library.Signed_Division"
begin

text \<open>
  The container-generic views of \<^verbatim>\<open>src/views/view.hpp\<close>, over any container with a size.
  A container is a list; an exception is the left value of a sum. Integer division truncates towards
  zero, as in C++ (\<open>sdiv\<close>).
\<close>

datatype view_error = invalid_argument string

record 'v gen_VectorView =
  gv_data :: "'v list"
  gv_size_data :: int
  gv_size :: int
  gv_disp :: int
  gv_strd :: int

definition gen_initialize :: "'v gen_VectorView \<Rightarrow> int \<Rightarrow> view_error + 'v gen_VectorView" where
  "gen_initialize v originalSize =
     (if gv_strd v > 0 then
        (let sizeV = gv_size_data v - gv_disp v;
             quot = (sizeV + gv_strd v - 1) sdiv gv_strd v;
             size1 = quot;
             size2 = (if originalSize < size1 then originalSize else size1)
         in Inr (v\<lparr>gv_size := size2,
                    gv_disp := (if gv_strd v < 0 then gv_disp v + (size2 - 1) * gv_strd v else gv_disp v)\<rparr>))
      else if gv_strd v > 0 then
        (let nstrd = - gv_strd v;
             quot = (gv_disp v + nstrd) sdiv nstrd;
             size1 = quot;
             size2 = (if originalSize < size1 then originalSize else size1)
         in Inr (v\<lparr>gv_size := size2,
                    gv_disp := (if gv_strd v < 0 then gv_disp v + (size2 - 1) * gv_strd v else gv_disp v)\<rparr>))
      else Inl (invalid_argument ''Cannot create view with 0 stride''))"

definition gen_make_VectorView :: "'v list \<Rightarrow> int \<Rightarrow> int \<Rightarrow> 'v gen_VectorView" where
  "gen_make_VectorView data disp strd =
     \<lparr>gv_data = data, gv_size_data = int (length data), gv_size = int (length data),
      gv_disp = disp, gv_strd = strd\<rparr>"

definition gen_make_VectorView_sized ::
  "'v list \<Rightarrow> int \<Rightarrow> int \<Rightarrow> int \<Rightarrow> view_error + 'v gen_VectorView" where
  "gen_make_VectorView_sized data disp strd sz =
     gen_initialize
       \<lparr>gv_data = data, gv_size_data = int (length data), gv_size = 0, gv_disp = disp, gv_strd = strd\<rparr> sz"

definition gen_VectorView_of_view ::
  "'v gen_VectorView \<Rightarrow> int \<Rightarrow> int \<Rightarrow> int \<Rightarrow> view_error + 'v gen_VectorView" where
  "gen_VectorView_of_view opV disp strd sz =
     gen_initialize
       \<lparr>gv_data = gv_data opV, gv_size_data = int (length (gv_data opV)), gv_size = 0,
        gv_disp = disp, gv_strd = strd\<rparr> sz"

text \<open>The element index \<open>eval\<close> reads; a negative index is not caught by its test.\<close>

definition gen_vv_eval_index :: "'v gen_VectorView \<Rightarrow> int \<Rightarrow> view_error + int" where
  "gen_vv_eval_index v i =
     (let index = (if gv_strd v > 0 then gv_disp v + gv_strd v * i
                   else gv_disp v - gv_strd v * (gv_size v - i - 1))
      in if index \<ge> gv_size_data v then Inl (invalid_argument ''Out of range access'') else Inr index)"

definition gen_mv_eval_index :: "access_layout \<Rightarrow> nat \<Rightarrow> nat \<Rightarrow> nat \<Rightarrow> nat" where
  "gen_mv_eval_index lay sizeL i j = (if is_col_major lay then sizeL * i + j else sizeL * j + i)"

section \<open>Lemmas\<close>

text \<open>A positive stride gives a view that never leaves the container.\<close>

lemma gen_initialize_pos:
  assumes "0 < strd" "0 \<le> disp" "disp \<le> int (length data)" "0 \<le> sz"
  obtains v where "gen_make_VectorView_sized data disp strd sz = Inr v"
    and "0 \<le> gv_size v" "gv_size v \<le> sz"
    and "\<And>i. 0 \<le> i \<Longrightarrow> i < gv_size v \<Longrightarrow> gen_vv_eval_index v i = Inr (disp + strd * i)"
    and "\<And>i. 0 \<le> i \<Longrightarrow> i < gv_size v \<Longrightarrow> disp + strd * i < int (length data)"
proof -
  define q where "q = (int (length data) - disp + strd - 1) div strd"
  define v where "v = \<lparr>gv_data = data, gv_size_data = int (length data),
    gv_size = (if sz < q then sz else q), gv_disp = disp, gv_strd = strd\<rparr>"
  have "0 \<le> q" unfolding q_def using assms by (intro pos_imp_zdiv_nonneg_iff [THEN iffD2]) auto
  moreover have below: "disp + strd * i < int (length data)" if "0 \<le> i" "i < gv_size v" for i
  proof -
    have "i + 1 \<le> q" using that by (auto simp: v_def split: if_splits)
    then have "(i + 1) * strd \<le> q * strd" using assms by (intro mult_right_mono) auto
    also have "q * strd \<le> int (length data) - disp + strd - 1"
      unfolding q_def minus_mod_eq_div_mult [symmetric]
    using pos_mod_sign [OF assms(1), of "int (length data) - disp + strd - 1"] by linarith
    finally show ?thesis by (simp add: algebra_simps)
  qed
  moreover have "gen_vv_eval_index v i = Inr (disp + strd * i)" if "0 \<le> i" "i < gv_size v" for i
    using below [OF that] assms by (simp add: gen_vv_eval_index_def v_def Let_def)
  moreover have "(int (length data) - disp + strd - 1) sdiv strd = q"
    using assms by (cases "int (length data) - disp + strd - 1 = 0")
      (simp_all add: signed_divide_int_def q_def)
  then have "gen_make_VectorView_sized data disp strd sz = Inr v"
    using assms by (simp add: gen_make_VectorView_sized_def gen_initialize_def Let_def v_def)
  ultimately show thesis using that assms by (simp add: v_def)
qed

text \<open>The generic view handles a positive stride (its elements stay in the container) but
  refuses every negative one: the second branch of \<open>initialize\<close> tests \<open>strd_ > 0\<close> again, so a
  negative stride falls through to the exception for stride 0.\<close>

theorem gen_view_strides:
  assumes "0 \<le> disp" "disp \<le> int (length data)" "0 \<le> sz"
  shows "(0 < strd \<longrightarrow> (\<exists>v. gen_make_VectorView_sized data disp strd sz = Inr v \<and> gv_size v \<le> sz \<and>
            (\<forall>i. 0 \<le> i \<and> i < gv_size v \<longrightarrow> gen_vv_eval_index v i = Inr (disp + strd * i) \<and>
               disp + strd * i < int (length data)))) \<and>
         (strd < 0 \<longrightarrow> gen_make_VectorView_sized data disp strd sz =
            Inl (invalid_argument ''Cannot create view with 0 stride''))"
proof (intro conjI impI)
  assume s: "0 < strd"
  obtain v where "gen_make_VectorView_sized data disp strd sz = Inr v" "gv_size v \<le> sz"
    "\<And>i. 0 \<le> i \<Longrightarrow> i < gv_size v \<Longrightarrow> gen_vv_eval_index v i = Inr (disp + strd * i)"
    "\<And>i. 0 \<le> i \<Longrightarrow> i < gv_size v \<Longrightarrow> disp + strd * i < int (length data)"
    by (rule gen_initialize_pos [OF s assms]) blast
  then show "\<exists>v. gen_make_VectorView_sized data disp strd sz = Inr v \<and> gv_size v \<le> sz \<and>
            (\<forall>i. 0 \<le> i \<and> i < gv_size v \<longrightarrow> gen_vv_eval_index v i = Inr (disp + strd * i) \<and>
               disp + strd * i < int (length data))" by blast
qed (simp add: gen_make_VectorView_sized_def gen_initialize_def)

lemma gen_view_strides_witness:
  "gen_make_VectorView_sized [10, 20, 30 :: nat] 2 (- 1) 3 =
     Inl (invalid_argument ''Cannot create view with 0 stride'')"
  using gen_view_strides [of 2 "[10, 20, 30 :: nat]" 3 "- 1"] by simp

text \<open>The generic matrix view swaps the layouts of the device view: it puts element \<open>(i, j)\<close> of
  a column-major matrix where \<open>MatrixView\<close> of \<^verbatim>\<open>view_sycl.hpp\<close> puts it in a row-major one.\<close>

theorem gen_matrix_layout_swapped:
  "snd (maddr v i j) = mv_disp v +
     int (gen_mv_eval_index (if is_col_major (mv_layout v) then row_major else col_major) (mv_sizeL v) i j)"
  by (simp add: maddr_eq gen_mv_eval_index_def)

end
