(* ===== verification/Kernels.thy ===== *)
theory Kernels
  imports Views
begin

text \<open>
  How a kernel runs on the device: \<^verbatim>\<open>src/executors/kernel_constructor.hpp\<close> and the plain
  \<open>execute\<close> overloads of \<^verbatim>\<open>src/executors/executor_sycl.hpp\<close>.

  An ND-range of \<open>globalSize\<close> work-items is cut into groups of \<open>localSize\<close>. The device
  may run work-items in any order. A \<open>device_run\<close> fixes the order of the items of a kernel
  without barriers, the order of the groups, the order of a group's items between every two
  barriers, and what local memory holds when a group starts; the theorems hold for every
  run. What a work-item does between two barriers is one step, and groups do not interleave.
\<close>

section \<open>Work-items\<close>

record nd_item =
  nd_group :: nat
  nd_local :: nat
  nd_local_range :: nat
  nd_group_range :: nat

definition get_global_id :: "nd_item \<Rightarrow> nat" where
  "get_global_id it = nd_group it * nd_local_range it + nd_local it"

definition item_of :: "nat \<Rightarrow> nat \<Rightarrow> nat \<Rightarrow> nd_item" where
  "item_of localSize globalSize gid =
     \<lparr>nd_group = gid div localSize, nd_local = gid mod localSize,
      nd_local_range = localSize, nd_group_range = globalSize div localSize\<rparr>"

lemma get_global_id_item_of [simp]: "get_global_id (item_of l g i) = i"
  by (simp add: get_global_id_def item_of_def)

text \<open>The runtime refuses an empty range, and one whose groups do not tile it.\<close>

definition nd_range_ok :: "nat \<Rightarrow> nat \<Rightarrow> bool" where
  "nd_range_ok globalSize localSize \<longleftrightarrow>
     0 < localSize \<and> 0 < globalSize \<and> globalSize mod localSize = 0"

section \<open>Device runs\<close>

record 't device_run =
  global_order :: "nat \<Rightarrow> nat list"
  group_order :: "nat \<Rightarrow> nat list"
  item_order :: "nat \<Rightarrow> nat \<Rightarrow> nat \<Rightarrow> nat list"
  local_init :: "nat \<Rightarrow> nat \<Rightarrow> 't"

definition is_run :: "'t device_run \<Rightarrow> bool" where
  "is_run r \<longleftrightarrow>
     (\<forall>n. mset (global_order r n) = mset [0..<n]) \<and>
     (\<forall>n. mset (group_order r n) = mset [0..<n]) \<and>
     (\<forall>g k n. mset (item_order r g k n) = mset [0..<n])"

definition seq_run :: "'t \<Rightarrow> 't device_run" where
  "seq_run x = \<lparr>global_order = (\<lambda>n. [0..<n]), group_order = (\<lambda>n. [0..<n]),
     item_order = (\<lambda>g k n. [0..<n]), local_init = (\<lambda>g i. x)\<rparr>"

lemma is_run_seq [simp]: "is_run (seq_run x)"
  by (simp add: is_run_def seq_run_def)

lemma run_global:
  "is_run r \<Longrightarrow> distinct (global_order r n)" "is_run r \<Longrightarrow> set (global_order r n) = {..<n}"
  using mset_upt_perm [of "global_order r n" n] by (auto simp: is_run_def)

lemma run_groups:
  "is_run r \<Longrightarrow> distinct (group_order r n)" "is_run r \<Longrightarrow> set (group_order r n) = {..<n}"
  using mset_upt_perm [of "group_order r n" n] by (auto simp: is_run_def)

lemma run_items:
  "is_run r \<Longrightarrow> distinct (item_order r g k n)" "is_run r \<Longrightarrow> set (item_order r g k n) = {..<n}"
  using mset_upt_perm [of "item_order r g k n" n] by (auto simp: is_run_def)

section \<open>Kernels without local memory\<close>

text \<open>\<open>execute_tree<using_local_memory::disabled>\<close>: an item that \<open>valid_thread\<close> rejects does
  nothing. When the runtime refuses the range, the exception is caught and logged, and memory
  is as it was.\<close>

definition execute_tree ::
  "'t device_run \<Rightarrow> (nd_item \<Rightarrow> bool) \<Rightarrow> (nd_item \<Rightarrow> 's \<Rightarrow> 's) \<Rightarrow> nat \<Rightarrow> nat \<Rightarrow> 's \<Rightarrow> 's" where
  "execute_tree r valid_thread eval localSize globalSize s =
     (if nd_range_ok globalSize localSize then
        fold (\<lambda>gid s. let it = item_of localSize globalSize gid
                      in if valid_thread it then eval it s else s)
          (global_order r globalSize) s
      else s)"

section \<open>Kernels with local memory\<close>

text \<open>The state of a running group: device memory, the group's local memory, and the private
  variables of its items.\<close>

record ('s, 't, 'p) group_state =
  gs_mem :: 's
  gs_local :: "nat \<Rightarrow> 't"
  gs_priv :: "nat \<Rightarrow> 'p"

text \<open>\<open>run_phases\<close>: the barriers cut a kernel's body into phases; every item finishes a phase
  before one starts the next.\<close>

fun run_phases :: "(nat \<Rightarrow> nat list) \<Rightarrow> nat \<Rightarrow> (nat \<Rightarrow> 'g \<Rightarrow> 'g) list \<Rightarrow> 'g \<Rightarrow> 'g" where
  "run_phases ord k [] g = g"
| "run_phases ord k (p # ps) g = run_phases ord (Suc k) ps (fold p (ord k) g)"

definition run_group ::
  "'t device_run \<Rightarrow> nat \<Rightarrow> nat \<Rightarrow> 'p \<Rightarrow> (nat \<Rightarrow> ('s, 't, 'p) group_state \<Rightarrow> ('s, 't, 'p) group_state) list
   \<Rightarrow> 's \<Rightarrow> 's" where
  "run_group r g localSize p0 phases s =
     gs_mem (run_phases (\<lambda>k. item_order r g k localSize) 0 phases
       \<lparr>gs_mem = s, gs_local = local_init r g, gs_priv = (\<lambda>_. p0)\<rparr>)"

definition execute_tree_local ::
  "'t device_run \<Rightarrow> 'p \<Rightarrow>
   (nd_item \<Rightarrow> (nat \<Rightarrow> ('s, 't, 'p) group_state \<Rightarrow> ('s, 't, 'p) group_state) list) \<Rightarrow>
   nat \<Rightarrow> nat \<Rightarrow> 's \<Rightarrow> 's" where
  "execute_tree_local r p0 phases localSize globalSize s =
     (if nd_range_ok globalSize localSize then
        fold (\<lambda>g. run_group r g localSize p0 (phases (item_of localSize globalSize (g * localSize))))
          (group_order r (globalSize div localSize)) s
      else s)"

lemma run_phases_append:
  "run_phases ord k (ps @ qs) g = run_phases ord (k + length ps) qs (run_phases ord k ps g)"
  by (induction ps arbitrary: k g) auto

lemma item_of_group [simp]:
  "0 < l \<Longrightarrow> nd_group (item_of l g (k * l)) = k"
  "nd_local_range (item_of l g i) = l"
  "nd_group_range (item_of l g i) = g div l"
  by (simp_all add: item_of_def)

section \<open>The sizes of a launch\<close>

text \<open>\<open>Executor::execute(t, localSize)\<close> rounds the number of items up to whole groups;
  \<open>Executor::execute(t)\<close> uses the policy's work-group size.\<close>

definition launch_global_size :: "nat \<Rightarrow> nat \<Rightarrow> nat" where
  "launch_global_size N localSize =
     (let nWG = (N + localSize - 1) div localSize in nWG * localSize)"

lemma launch_global_size_cdiv: "launch_global_size n l = cdiv n l * l"
  by (simp add: launch_global_size_def cdiv_def Let_def)

lemma launch_global_size_ok:
  "0 < l \<Longrightarrow> 0 < n \<Longrightarrow> nd_range_ok (launch_global_size n l) l \<and> n \<le> launch_global_size n l"
  by (simp add: launch_global_size_cdiv nd_range_ok_def cdiv_covers cdiv_pos)

lemma launch_global_size_0 [simp]: "launch_global_size 0 l = 0"
  by (simp add: launch_global_size_cdiv)

text \<open>A kernel whose valid items are exactly those below \<open>n\<close>.\<close>

lemma execute_tree_fold:
  assumes "nd_range_ok globalSize localSize"
    and "\<And>gid. gid < globalSize \<Longrightarrow> is_run r \<Longrightarrow> valid_thread (item_of localSize globalSize gid) \<longleftrightarrow> gid < n"
    and "is_run r" "n \<le> globalSize"
  obtains xs where "distinct xs" "set xs = {..<n}"
    and "execute_tree r valid_thread eval localSize globalSize s
       = fold (\<lambda>gid. eval (item_of localSize globalSize gid)) xs s"
proof
  let ?xs = "filter (\<lambda>gid. gid < n) (global_order r globalSize)"
  show "distinct ?xs" using assms(3) by (simp add: run_global)
  show "set ?xs = {..<n}" using assms(3,4) by (auto simp: run_global)
  have "fold (\<lambda>gid s. let it = item_of localSize globalSize gid
                      in if valid_thread it then eval it s else s) zs s
      = fold (\<lambda>gid. eval (item_of localSize globalSize gid)) (filter (\<lambda>gid. gid < n) zs) s"
    if "set zs \<subseteq> {..<globalSize}" for zs s
    using that assms(2,3) by (induction zs arbitrary: s) (auto simp: Let_def)
  then show "execute_tree r valid_thread eval localSize globalSize s
       = fold (\<lambda>gid. eval (item_of localSize globalSize gid)) ?xs s"
    using assms(1,3) by (simp add: execute_tree_def run_global)
qed

section \<open>Phases that write local memory\<close>

lemma fold_local_writes:
  fixes upd :: "nat \<Rightarrow> ('s, 't, 'p) group_state \<Rightarrow> ('s, 't, 'p) group_state"
  assumes "\<And>l gs. upd l gs = (if P l then gs\<lparr>gs_local := (gs_local gs)(l := v l (gs_mem gs) (gs_local gs))\<rparr> else gs)"
  shows "fold upd xs gs
       = gs\<lparr>gs_local := fold (\<lambda>l f. f(l := v l (gs_mem gs) f)) (filter P xs) (gs_local gs)\<rparr>"
proof (induction xs arbitrary: gs)
  case Nil
  then show ?case by simp
next
  case (Cons x xs)
  then show ?case by (simp add: assms del: fun_upd_apply)
qed

text \<open>Between two barriers every item may write its own cell of local memory, from cells that
  no other active item writes: the phase has the same result in every order.\<close>

lemma phase_local:
  fixes upd :: "nat \<Rightarrow> ('s, 't, 'p) group_state \<Rightarrow> ('s, 't, 'p) group_state"
  assumes upd: "\<And>l gs. upd l gs = (if P l then gs\<lparr>gs_local := (gs_local gs)(l := v l (gs_mem gs) (gs_local gs))\<rparr> else gs)"
    and reads: "\<And>l f f' s. P l \<Longrightarrow> l < n \<Longrightarrow> (\<And>d. (\<And>k. P k \<Longrightarrow> k < n \<Longrightarrow> k \<noteq> l \<Longrightarrow> d \<noteq> k) \<Longrightarrow> f d = f' d) \<Longrightarrow>
      v l s f = v l s f'"
    and xs: "distinct xs" "set xs = {..<n}"
  shows "fold upd xs gs = gs\<lparr>gs_local := (\<lambda>l. if l < n \<and> P l then v l (gs_mem gs) (gs_local gs)
            else gs_local gs l)\<rparr>"
proof -
  let ?X = "{l. l < n \<and> P l}"
  let ?step = "\<lambda>l f. f(l := v l (gs_mem gs) f)"
  have X: "distinct (filter P xs)" "set (filter P xs) = ?X" using xs by auto
  have inj: "inj_on (\<lambda>l. l) ?X" by simp
  have rd: "v x (gs_mem gs) f = v x (gs_mem gs) f'"
    if "x \<in> ?X" "\<And>d. (\<And>y. y \<in> ?X \<Longrightarrow> y \<noteq> x \<Longrightarrow> d \<noteq> y) \<Longrightarrow> f d = f' d" for x f f'
    using that by (intro reads) auto
  have "fold ?step (filter P xs) (gs_local gs) = (\<lambda>l. if l < n \<and> P l then v l (gs_mem gs) (gs_local gs)
            else gs_local gs l)"
  proof (rule ext)
    fix l
    show "fold ?step (filter P xs) (gs_local gs) l
        = (if l < n \<and> P l then v l (gs_mem gs) (gs_local gs) else gs_local gs l)"
    proof (cases "l \<in> ?X")
      case True
      then have "fold ?step (filter P xs) (gs_local gs) l = v l (gs_mem gs) (gs_local gs)"
        by (intro fold_cell_writers_hit [OF inj _ X]) (auto intro: rd)
      then show ?thesis using True by simp
    next
      case False
      then have "fold ?step (filter P xs) (gs_local gs) l = gs_local gs l"
        by (intro fold_cell_writers_miss [OF inj _ X]) (auto intro: rd)
      then show ?thesis using False by auto
    qed
  qed
  then show ?thesis by (subst fold_local_writes [OF upd]) simp
qed

text \<open>An item may also write several cells of local memory. What it writes then depends on device
  memory only.\<close>

lemma phase_local_cells:
  fixes upd :: "nat \<Rightarrow> ('s, 't, 'p) group_state \<Rightarrow> ('s, 't, 'p) group_state"
  assumes upd: "\<And>l gs. upd l gs = gs\<lparr>gs_local := step l (gs_mem gs) (gs_local gs)\<rparr>"
    and frame: "\<And>l s f c. l < n \<Longrightarrow> c \<notin> W l \<Longrightarrow> step l s f c = f c"
    and vals: "\<And>l s f c. l < n \<Longrightarrow> c \<in> W l \<Longrightarrow> step l s f c = v l s c"
    and disj: "\<And>k l. k < n \<Longrightarrow> l < n \<Longrightarrow> k \<noteq> l \<Longrightarrow> W k \<inter> W l = {}"
    and xs: "distinct xs" "set xs = {..<n}"
  obtains g where "fold upd xs gs = gs\<lparr>gs_local := g\<rparr>"
    and "\<And>l c. l < n \<Longrightarrow> c \<in> W l \<Longrightarrow> g c = v l (gs_mem gs) c"
    and "\<And>c. (\<And>l. l < n \<Longrightarrow> c \<notin> W l) \<Longrightarrow> g c = gs_local gs c"
proof
  let ?g = "fold (\<lambda>l. step l (gs_mem gs)) xs (gs_local gs)"
  show "fold upd xs gs = gs\<lparr>gs_local := ?g\<rparr>"
    by (induction xs arbitrary: gs) (simp_all add: upd)
  have key: "(l \<in> set xs \<longrightarrow> c \<in> W l \<longrightarrow> ?g c = v l (gs_mem gs) c) \<and>
      ((\<forall>l \<in> set xs. c \<notin> W l) \<longrightarrow> ?g c = gs_local gs c)" for l c
    by (rule fold_blind_writers [where X = "{..<n}" and U = UNIV]) (use frame vals disj xs in auto)
  show "?g c = v l (gs_mem gs) c" if "l < n" "c \<in> W l" for l c using key [of l c] that xs by auto
  show "?g c = gs_local gs c" if "\<And>l. l < n \<Longrightarrow> c \<notin> W l" for c using key [of _ c] that xs by auto
qed

section \<open>Phases that write private variables or device memory\<close>

lemma phase_private:
  fixes upd :: "nat \<Rightarrow> ('s, 't, 'p) group_state \<Rightarrow> ('s, 't, 'p) group_state"
  assumes upd: "\<And>l gs. upd l gs = gs\<lparr>gs_priv := (gs_priv gs)(l := v l (gs_mem gs) (gs_local gs) (gs_priv gs l))\<rparr>"
    and "distinct xs" "set xs = {..<n}"
  shows "fold upd xs gs = gs\<lparr>gs_priv := (\<lambda>l. if l < n then v l (gs_mem gs) (gs_local gs) (gs_priv gs l)
            else gs_priv gs l)\<rparr>"
proof -
  have "fold upd xs gs = gs\<lparr>gs_priv := (\<lambda>l. if l \<in> set xs then v l (gs_mem gs) (gs_local gs) (gs_priv gs l)
            else gs_priv gs l)\<rparr>" if "distinct xs"
    using that
  proof (induction xs arbitrary: gs)
    case (Cons x xs)
    then show ?case by (auto simp: upd fun_eq_iff intro!: arg_cong [where f = "\<lambda>p. gs\<lparr>gs_priv := p\<rparr>"])
  qed simp
  then show ?thesis using assms(2,3) by (simp add: lessThan_def)
qed

text \<open>A phase in which every item that passes \<open>P\<close> stores one element in a cell of \<open>U\<close>, and no
  item reads \<open>U\<close>.\<close>

lemma phase_mem:
  fixes upd :: "nat \<Rightarrow> ('a \<Rightarrow> 'v, 't, 'p) group_state \<Rightarrow> ('a \<Rightarrow> 'v, 't, 'p) group_state"
  assumes upd: "\<And>l gs. upd l gs = (if P l then gs\<lparr>gs_mem := (gs_mem gs)(a l := v l (gs_mem gs) (gs_local gs) (gs_priv gs))\<rparr> else gs)"
    and inj: "inj_on a {l. l < n \<and> P l}" and U: "\<And>l. l < n \<Longrightarrow> P l \<Longrightarrow> a l \<in> U"
    and reads: "\<And>l s s' f p. l < n \<Longrightarrow> P l \<Longrightarrow> (\<And>d. d \<notin> U \<Longrightarrow> s d = s' d) \<Longrightarrow> v l s f p = v l s' f p"
    and xs: "distinct xs" "set xs = {..<n}"
  shows phase_mem_hit: "l < n \<Longrightarrow> P l \<Longrightarrow> gs_mem (fold upd xs gs) (a l) = v l (gs_mem gs) (gs_local gs) (gs_priv gs)"
    and phase_mem_miss: "(\<And>l. l < n \<Longrightarrow> P l \<Longrightarrow> c \<noteq> a l) \<Longrightarrow> gs_mem (fold upd xs gs) c = gs_mem gs c"
proof -
  let ?v = "\<lambda>l s. v l s (gs_local gs) (gs_priv gs)"
  let ?step = "\<lambda>l s. if P l then s(a l := ?v l s) else s"
  have mem: "fold upd ys gs = gs\<lparr>gs_mem := fold ?step ys (gs_mem gs)\<rparr>" for ys
  proof (induction ys rule: rev_induct)
    case (snoc y ys)
    then show ?case by (simp add: upd)
  qed simp
  have key: "(l \<in> set xs \<longrightarrow> c \<in> (if P l then {a l} else {}) \<longrightarrow> fold ?step xs (gs_mem gs) c = ?v l (gs_mem gs)) \<and>
      ((\<forall>l \<in> set xs. c \<notin> (if P l then {a l} else {})) \<longrightarrow> fold ?step xs (gs_mem gs) c = gs_mem gs c)" for l c
  proof (rule fold_blind_writers [where X = "{..<n}" and U = U and ?f0.0 = "gs_mem gs"])
    show "?step x f c = ?v x (gs_mem gs)"
      if "x \<in> {..<n}" "c \<in> (if P x then {a x} else {})" "\<And>d. d \<notin> U \<Longrightarrow> f d = gs_mem gs d" for x f c
      using that reads [of x f "gs_mem gs"] by (auto split: if_splits)
    show "(if P x then {a x} else {}) \<inter> (if P y then {a y} else {}) = {}"
      if "x \<in> {..<n}" "y \<in> {..<n}" "x \<noteq> y" for x y
      using that inj by (auto dest: inj_onD)
  qed (use U xs in \<open>auto split: if_splits\<close>)
  show "l < n \<Longrightarrow> P l \<Longrightarrow> gs_mem (fold upd xs gs) (a l) = v l (gs_mem gs) (gs_local gs) (gs_priv gs)"
    using key [of l "a l"] xs by (simp add: mem)
  show "(\<And>l. l < n \<Longrightarrow> P l \<Longrightarrow> c \<noteq> a l) \<Longrightarrow> gs_mem (fold upd xs gs) c = gs_mem gs c"
    using key [of _ c] xs by (simp add: mem)
qed

text \<open>Groups that store in their own cells of \<open>U\<close> and read nothing there.\<close>

lemma execute_tree_local_blind:
  fixes s :: "'a \<Rightarrow> 'v"
  assumes "nd_range_ok globalSize L" "is_run r"
    and frame: "\<And>g s c. g < globalSize div L \<Longrightarrow> c \<notin> W g \<Longrightarrow>
        run_group r g L p0 (phases (item_of L globalSize (g * L))) s c = s c"
    and vals: "\<And>g s' c. g < globalSize div L \<Longrightarrow> c \<in> W g \<Longrightarrow> (\<And>d. d \<notin> U \<Longrightarrow> s' d = s d) \<Longrightarrow>
        run_group r g L p0 (phases (item_of L globalSize (g * L))) s' c = stored g c"
    and disj: "\<And>g h. g < globalSize div L \<Longrightarrow> h < globalSize div L \<Longrightarrow> g \<noteq> h \<Longrightarrow> W g \<inter> W h = {}"
    and sub: "\<And>g. g < globalSize div L \<Longrightarrow> W g \<subseteq> U"
  shows "g < globalSize div L \<Longrightarrow> c \<in> W g \<Longrightarrow> execute_tree_local r p0 phases L globalSize s c = stored g c"
    and "(\<And>g. g < globalSize div L \<Longrightarrow> c \<notin> W g) \<Longrightarrow> execute_tree_local r p0 phases L globalSize s c = s c"
proof -
  let ?xs = "group_order r (globalSize div L)"
  let ?step = "\<lambda>g. run_group r g L p0 (phases (item_of L globalSize (g * L)))"
  have key: "(g \<in> set ?xs \<longrightarrow> c \<in> W g \<longrightarrow> fold ?step ?xs s c = stored g c) \<and>
      ((\<forall>g \<in> set ?xs. c \<notin> W g) \<longrightarrow> fold ?step ?xs s c = s c)" for g c
    by (rule fold_blind_writers [where X = "{..<globalSize div L}" and U = U and ?f0.0 = s])
      (use frame vals disj sub run_groups [OF assms(2)] in auto)
  show "g < globalSize div L \<Longrightarrow> c \<in> W g \<Longrightarrow> execute_tree_local r p0 phases L globalSize s c = stored g c"
    using key [of g c] assms(1,2) by (simp add: execute_tree_local_def run_groups)
  show "(\<And>g. g < globalSize div L \<Longrightarrow> c \<notin> W g) \<Longrightarrow> execute_tree_local r p0 phases L globalSize s c = s c"
    using key [of _ c] assms(1,2) by (simp add: execute_tree_local_def run_groups)
qed

lemma execute_tree_blind:
  fixes s :: "'a \<Rightarrow> 'v"
  assumes "nd_range_ok globalSize L" "is_run r"
    and frame: "\<And>i s c. i < globalSize \<Longrightarrow> c \<notin> W i \<Longrightarrow> eval (item_of L globalSize i) s c = s c"
    and vals: "\<And>i s' c. i < globalSize \<Longrightarrow> c \<in> W i \<Longrightarrow> (\<And>d. d \<notin> U \<Longrightarrow> s' d = s d) \<Longrightarrow>
        eval (item_of L globalSize i) s' c = stored i c"
    and disj: "\<And>i j. i < globalSize \<Longrightarrow> j < globalSize \<Longrightarrow> i \<noteq> j \<Longrightarrow> W i \<inter> W j = {}"
    and sub: "\<And>i. i < globalSize \<Longrightarrow> W i \<subseteq> U"
  shows "i < globalSize \<Longrightarrow> c \<in> W i \<Longrightarrow> execute_tree r (\<lambda>_. True) eval L globalSize s c = stored i c"
    and "(\<And>i. i < globalSize \<Longrightarrow> c \<notin> W i) \<Longrightarrow> execute_tree r (\<lambda>_. True) eval L globalSize s c = s c"
proof -
  let ?xs = "global_order r globalSize"
  let ?step = "\<lambda>i. eval (item_of L globalSize i)"
  have key: "(i \<in> set ?xs \<longrightarrow> c \<in> W i \<longrightarrow> fold ?step ?xs s c = stored i c) \<and>
      ((\<forall>i \<in> set ?xs. c \<notin> W i) \<longrightarrow> fold ?step ?xs s c = s c)" for i c
    by (rule fold_blind_writers [where X = "{..<globalSize}" and U = U and ?f0.0 = s])
      (use frame vals disj sub run_global [OF assms(2)] in auto)
  show "i < globalSize \<Longrightarrow> c \<in> W i \<Longrightarrow> execute_tree r (\<lambda>_. True) eval L globalSize s c = stored i c"
    using key [of i c] assms(1,2) by (simp add: execute_tree_def run_global Let_def)
  show "(\<And>i. i < globalSize \<Longrightarrow> c \<notin> W i) \<Longrightarrow> execute_tree r (\<lambda>_. True) eval L globalSize s c = s c"
    using key [of _ c] assms(1,2) by (simp add: execute_tree_def run_global Let_def)
qed

text \<open>Items that store in their own cells and may read them, but no cell of another item.\<close>

lemma execute_tree_own:
  fixes s :: "'a \<Rightarrow> 'v"
  assumes "nd_range_ok globalSize L" "is_run r"
    and frame: "\<And>i s c. i < globalSize \<Longrightarrow> c \<notin> W i \<Longrightarrow> eval (item_of L globalSize i) s c = s c"
    and reads: "\<And>i f f' c. i < globalSize \<Longrightarrow> c \<in> W i \<Longrightarrow>
        (\<And>d. (\<And>j. j < globalSize \<Longrightarrow> j \<noteq> i \<Longrightarrow> d \<notin> W j) \<Longrightarrow> f d = f' d) \<Longrightarrow>
        eval (item_of L globalSize i) f c = eval (item_of L globalSize i) f' c"
    and disj: "\<And>i j. i < globalSize \<Longrightarrow> j < globalSize \<Longrightarrow> i \<noteq> j \<Longrightarrow> W i \<inter> W j = {}"
  shows "i < globalSize \<Longrightarrow> c \<in> W i \<Longrightarrow>
      execute_tree r (\<lambda>_. True) eval L globalSize s c = eval (item_of L globalSize i) s c"
    and "(\<And>i. i < globalSize \<Longrightarrow> c \<notin> W i) \<Longrightarrow> execute_tree r (\<lambda>_. True) eval L globalSize s c = s c"
proof -
  let ?xs = "global_order r globalSize"
  let ?step = "\<lambda>i. eval (item_of L globalSize i)"
  have key: "(i \<in> set ?xs \<longrightarrow> c \<in> W i \<longrightarrow> fold ?step ?xs s c = ?step i s c) \<and>
      ((\<forall>i \<in> set ?xs. c \<notin> W i) \<longrightarrow> fold ?step ?xs s c = s c)" for i c
  proof (rule fold_disjoint_writers [where X = "{..<globalSize}"])
    show "?step x f c = ?step x f' c"
      if "x \<in> {..<globalSize}" "c \<in> W x" "\<And>d. (\<And>y. y \<in> {..<globalSize} \<Longrightarrow> y \<noteq> x \<Longrightarrow> d \<notin> W y) \<Longrightarrow> f d = f' d"
      for x f f' c
      using that by (intro reads) simp_all
  qed (use frame disj run_global [OF assms(2)] in simp_all)
  show "i < globalSize \<Longrightarrow> c \<in> W i \<Longrightarrow> execute_tree r (\<lambda>_. True) eval L globalSize s c = ?step i s c"
    using key [of i c] assms(1,2) by (simp add: execute_tree_def run_global Let_def)
  show "(\<And>i. i < globalSize \<Longrightarrow> c \<notin> W i) \<Longrightarrow> execute_tree r (\<lambda>_. True) eval L globalSize s c = s c"
    using key [of _ c] assms(1,2) by (simp add: execute_tree_def run_global Let_def)
qed

end
