(* ===== verification/Trees.thy ===== *)
theory Trees
  imports Kernels
begin

text \<open>
  The expression trees of \<^verbatim>\<open>src/operations/blas1_trees.hpp\<close>. A C++ node type supplies
  \<open>get_size\<close>, \<open>eval\<close> and \<open>bind\<close>; here a node is the record of those three. A node that is
  only read is an \<open>expr\<close>, one that stands on the left of an assignment an \<open>lval\<close>, and one that
  writes when it is evaluated a \<open>root\<close>. \<open>adjust_access_displacement\<close> forwards to the leaves,
  where \<open>vaddr\<close> and \<open>maddr\<close> apply it.
\<close>

record ('s, 'v) expr =
  ex_size :: nat
  ex_eval :: "'s \<Rightarrow> nat \<Rightarrow> 'v"
  ex_bind :: "acc_range list"

record lval =
  lv_size :: nat
  lv_addr :: "nat \<Rightarrow> addr"
  lv_bind :: "acc_range list"

record ('s, 'v) root =
  rt_size :: nat
  rt_eval :: "nat \<Rightarrow> 's \<Rightarrow> 'v \<times> 's"
  rt_bind :: "acc_range list"

section \<open>Leaves\<close>

definition vec_expr :: "VectorView \<Rightarrow> ('v mem, 'v) expr" where
  "vec_expr v = \<lparr>ex_size = vv_size v, ex_eval = (\<lambda>m i. m (vaddr v i)), ex_bind = vv_bind v\<rparr>"

definition vec_lval :: "VectorView \<Rightarrow> lval" where
  "vec_lval v = \<lparr>lv_size = vv_size v, lv_addr = vaddr v, lv_bind = vv_bind v\<rparr>"

definition mat_expr :: "MatrixView \<Rightarrow> ('v mem, 'v) expr" where
  "mat_expr v = \<lparr>ex_size = mv_get_size v, ex_eval = (\<lambda>m k. m (maddr_lin v k)), ex_bind = mv_bind v\<rparr>"

definition mat_lval :: "MatrixView \<Rightarrow> lval" where
  "mat_lval v = \<lparr>lv_size = mv_get_size v, lv_addr = maddr_lin v, lv_bind = mv_bind v\<rparr>"

section \<open>Nodes without side effect\<close>

text \<open>\<open>DetectScalar\<close>: a literal stands for itself, any other node for its first element.\<close>

datatype ('s, 'v) scalar_arg = Literal 'v | Node "('s, 'v) expr"

primrec get_scalar :: "'s \<Rightarrow> ('s, 'v) scalar_arg \<Rightarrow> 'v" where
  "get_scalar s (Literal x) = x"
| "get_scalar s (Node e) = ex_eval e s 0"

definition ScalarOp ::
  "('a \<Rightarrow> 'b \<Rightarrow> 'c) \<Rightarrow> ('s, 'a) scalar_arg \<Rightarrow> ('s, 'b) expr \<Rightarrow> ('s, 'c) expr" where
  "ScalarOp operator scl rhs =
     \<lparr>ex_size = ex_size rhs,
      ex_eval = (\<lambda>s i. operator (get_scalar s scl) (ex_eval rhs s i)),
      ex_bind = ex_bind rhs\<rparr>"

definition UnaryOp :: "('a \<Rightarrow> 'b) \<Rightarrow> ('s, 'a) expr \<Rightarrow> ('s, 'b) expr" where
  "UnaryOp operator rhs =
     \<lparr>ex_size = ex_size rhs,
      ex_eval = (\<lambda>s i. operator (ex_eval rhs s i)),
      ex_bind = ex_bind rhs\<rparr>"

definition BinaryOp ::
  "('a \<Rightarrow> 'b \<Rightarrow> 'c) \<Rightarrow> ('s, 'a) expr \<Rightarrow> ('s, 'b) expr \<Rightarrow> ('s, 'c) expr" where
  "BinaryOp operator lhs rhs =
     \<lparr>ex_size = ex_size rhs,
      ex_eval = (\<lambda>s i. operator (ex_eval lhs s i) (ex_eval rhs s i)),
      ex_bind = ex_bind lhs @ ex_bind rhs\<rparr>"

definition TupleOp :: "('s, 'v) expr \<Rightarrow> ('s, 'v IndexValueTuple) expr" where
  "TupleOp rhs =
     \<lparr>ex_size = ex_size rhs,
      ex_eval = (\<lambda>s i. \<lparr>ind = i, val = ex_eval rhs s i\<rparr>),
      ex_bind = ex_bind rhs\<rparr>"

section \<open>Nodes with side effects\<close>

definition Assign :: "lval \<Rightarrow> ('v mem, 'v) expr \<Rightarrow> ('v mem, 'v) root" where
  "Assign lhs rhs =
     \<lparr>rt_size = ex_size rhs,
      rt_eval = (\<lambda>i m. let v = ex_eval rhs m i in (v, m(lv_addr lhs i := v))),
      rt_bind = lv_bind lhs @ ex_bind rhs\<rparr>"

definition DoubleAssign ::
  "lval \<Rightarrow> lval \<Rightarrow> ('v mem, 'v) expr \<Rightarrow> ('v mem, 'v) expr \<Rightarrow> ('v mem, 'v) root" where
  "DoubleAssign lhs_1 lhs_2 rhs_1 rhs_2 =
     \<lparr>rt_size = ex_size rhs_2,
      rt_eval = (\<lambda>i m. let val1 = ex_eval rhs_1 m i; val2 = ex_eval rhs_2 m i
                       in (val1, m(lv_addr lhs_1 i := val1, lv_addr lhs_2 i := val2))),
      rt_bind = lv_bind lhs_1 @ ex_bind rhs_1 @ lv_bind lhs_2 @ ex_bind rhs_2\<rparr>"

definition Join :: "('s, 'a) root \<Rightarrow> ('s, 'b) root \<Rightarrow> ('s, 'b) root" where
  "Join lhs rhs =
     \<lparr>rt_size = rt_size rhs,
      rt_eval = (\<lambda>i s. rt_eval rhs i (snd (rt_eval lhs i s))),
      rt_bind = rt_bind lhs @ rt_bind rhs\<rparr>"

text \<open>\<open>valid_thread\<close> is the same test in every tree of this file.\<close>

definition rt_valid_thread :: "('s, 'v) root \<Rightarrow> nd_item \<Rightarrow> bool" where
  "rt_valid_thread t it \<longleftrightarrow> get_global_id it < rt_size t"

definition rt_eval_item :: "('s, 'v) root \<Rightarrow> nd_item \<Rightarrow> 's \<Rightarrow> 's" where
  "rt_eval_item t it s = snd (rt_eval t (get_global_id it) s)"

text \<open>\<open>Executor::execute(t, localSize)\<close> and, with the policy's size, \<open>Executor::execute(t)\<close>.\<close>

definition execute_sized :: "'t device_run \<Rightarrow> ('s, 'v) root \<Rightarrow> nat \<Rightarrow> 's \<Rightarrow> 's" where
  "execute_sized r t localSize s =
     execute_tree r (rt_valid_thread t) (rt_eval_item t) localSize
       (launch_global_size (rt_size t) localSize) s"

definition execute :: "'t device_run \<Rightarrow> nat \<Rightarrow> ('s, 'v) root \<Rightarrow> 's \<Rightarrow> 's" where
  "execute r work_group_size t s = execute_sized r t work_group_size s"

lemmas expr_defs = vec_expr_def vec_lval_def mat_expr_def mat_lval_def
  ScalarOp_def UnaryOp_def BinaryOp_def TupleOp_def

lemmas root_defs = Assign_def DoubleAssign_def Join_def

section \<open>Running a root\<close>

lemma rt_eval_item_of [simp]: "rt_eval_item t (item_of l g i) = (\<lambda>s. snd (rt_eval t i s))"
  by (simp add: fun_eq_iff rt_eval_item_def)

lemma execute_sized_fold:
  assumes "is_run r" "0 < localSize"
  obtains xs where "distinct xs" "set xs = {..<rt_size t}"
    and "execute_sized r t localSize s = fold (\<lambda>i s. snd (rt_eval t i s)) xs s"
proof (cases "rt_size t = 0")
  case True
  then show thesis
    using that [of "[]"] by (simp add: execute_sized_def execute_tree_def nd_range_ok_def)
next
  case False
  note ok = launch_global_size_ok [OF assms(2), of "rt_size t"]
  obtain xs where xs: "distinct xs" "set xs = {..<rt_size t}"
    and "execute_tree r (rt_valid_thread t) (rt_eval_item t) localSize
           (launch_global_size (rt_size t) localSize) s
       = fold (\<lambda>gid. rt_eval_item t (item_of localSize (launch_global_size (rt_size t) localSize) gid)) xs s"
    using execute_tree_fold [of "launch_global_size (rt_size t) localSize" localSize r "rt_valid_thread t" "rt_size t"]
      ok False assms by (metis get_global_id_item_of gr0I rt_valid_thread_def)
  then show thesis
    using that [OF xs] by (simp add: execute_sized_def)
qed

text \<open>An assignment whose items own different cells, and whose right-hand side reads no cell of
  another item, stores the value of each right-hand side in the memory before the launch.\<close>

definition independent :: "nat \<Rightarrow> (nat \<Rightarrow> addr set) \<Rightarrow> ('v mem, 'a) expr \<Rightarrow> bool" where
  "independent n W e \<longleftrightarrow>
     (\<forall>i < n. \<forall>m m'. (\<forall>a. (\<forall>j < n. j \<noteq> i \<longrightarrow> a \<notin> W j) \<longrightarrow> m a = m' a) \<longrightarrow>
        ex_eval e m i = ex_eval e m' i)"

lemma independentD:
  "independent n W e \<Longrightarrow> i < n \<Longrightarrow>
   (\<And>a. (\<And>j. j < n \<Longrightarrow> j \<noteq> i \<Longrightarrow> a \<notin> W j) \<Longrightarrow> m a = m' a) \<Longrightarrow> ex_eval e m i = ex_eval e m' i"
  by (auto simp: independent_def)

lemma execute_Assign:
  fixes rhs :: "('v mem, 'v) expr"
  assumes "is_run r" "0 < localSize"
    and inj: "inj_on (lv_addr lhs) {..<ex_size rhs}"
    and ind: "independent (ex_size rhs) (\<lambda>i. {lv_addr lhs i}) rhs"
  shows "i < ex_size rhs \<Longrightarrow> execute_sized r (Assign lhs rhs) localSize m (lv_addr lhs i) = ex_eval rhs m i"
    and "c \<notin> lv_addr lhs ` {..<ex_size rhs} \<Longrightarrow> execute_sized r (Assign lhs rhs) localSize m c = m c"
proof -
  obtain xs where xs: "distinct xs" "set xs = {..<ex_size rhs}"
    and run: "execute_sized r (Assign lhs rhs) localSize m
       = fold (\<lambda>i m. m(lv_addr lhs i := ex_eval rhs m i)) xs m"
    using execute_sized_fold [OF assms(1,2), of "Assign lhs rhs" m] by (auto simp: Assign_def Let_def)
  have reads: "ex_eval rhs f x = ex_eval rhs f' x"
    if "x \<in> {..<ex_size rhs}"
      "\<And>d. (\<And>y. y \<in> {..<ex_size rhs} \<Longrightarrow> y \<noteq> x \<Longrightarrow> d \<noteq> lv_addr lhs y) \<Longrightarrow> f d = f' d" for x f f'
    using that by (intro independentD [OF ind]) auto
  show "i < ex_size rhs \<Longrightarrow> execute_sized r (Assign lhs rhs) localSize m (lv_addr lhs i) = ex_eval rhs m i"
    unfolding run by (rule fold_cell_writers_hit [OF inj _ xs]) (rule reads, auto)
  show "c \<notin> lv_addr lhs ` {..<ex_size rhs} \<Longrightarrow> execute_sized r (Assign lhs rhs) localSize m c = m c"
    unfolding run by (rule fold_cell_writers_miss [OF inj _ xs]) (rule reads, auto)
qed

lemma execute_DoubleAssign:
  fixes rhs_1 rhs_2 :: "('v mem, 'v) expr"
  assumes "is_run r" "0 < localSize" and n: "n = ex_size rhs_2"
    and inj: "inj_on (lv_addr lhs_1) {..<n}" "inj_on (lv_addr lhs_2) {..<n}"
    and apart: "\<And>i j. i < n \<Longrightarrow> j < n \<Longrightarrow> lv_addr lhs_1 i \<noteq> lv_addr lhs_2 j"
    and ind: "independent n (\<lambda>i. {lv_addr lhs_1 i, lv_addr lhs_2 i}) rhs_1"
      "independent n (\<lambda>i. {lv_addr lhs_1 i, lv_addr lhs_2 i}) rhs_2"
  shows "i < n \<Longrightarrow> execute_sized r (DoubleAssign lhs_1 lhs_2 rhs_1 rhs_2) localSize m (lv_addr lhs_1 i)
           = ex_eval rhs_1 m i"
    and "i < n \<Longrightarrow> execute_sized r (DoubleAssign lhs_1 lhs_2 rhs_1 rhs_2) localSize m (lv_addr lhs_2 i)
           = ex_eval rhs_2 m i"
    and "c \<notin> lv_addr lhs_1 ` {..<n} \<union> lv_addr lhs_2 ` {..<n} \<Longrightarrow>
         execute_sized r (DoubleAssign lhs_1 lhs_2 rhs_1 rhs_2) localSize m c = m c"
proof -
  define W where "W = (\<lambda>i. {lv_addr lhs_1 i, lv_addr lhs_2 i})"
  define step where "step = (\<lambda>i m. m(lv_addr lhs_1 i := ex_eval rhs_1 m i, lv_addr lhs_2 i := ex_eval rhs_2 m i))"
  obtain xs where xs: "distinct xs" "set xs = {..<n}"
    and run: "execute_sized r (DoubleAssign lhs_1 lhs_2 rhs_1 rhs_2) localSize m = fold step xs m"
    using execute_sized_fold [OF assms(1,2), of "DoubleAssign lhs_1 lhs_2 rhs_1 rhs_2" m]
    by (auto simp: DoubleAssign_def Let_def n step_def)
  have key: "(x \<in> set xs \<longrightarrow> c \<in> W x \<longrightarrow> fold step xs m c = step x m c) \<and>
         ((\<forall>x \<in> set xs. c \<notin> W x) \<longrightarrow> fold step xs m c = m c)" for x c
  proof (rule fold_disjoint_writers [where X = "{..<n}"])
    show "W x \<inter> W y = {}" if "x \<in> {..<n}" "y \<in> {..<n}" "x \<noteq> y" for x y
      using that inj apart by (fastforce simp: W_def dest: inj_onD)
    show "step x f c = step x f' c" if "x \<in> {..<n}" "c \<in> W x"
        "\<And>d. (\<And>y. y \<in> {..<n} \<Longrightarrow> y \<noteq> x \<Longrightarrow> d \<notin> W y) \<Longrightarrow> f d = f' d" for x f f' c
    proof -
      have "ex_eval rhs_1 f x = ex_eval rhs_1 f' x"
        using that by (intro independentD [OF ind(1)]) (auto simp: W_def)
      moreover have "ex_eval rhs_2 f x = ex_eval rhs_2 f' x"
        using that by (intro independentD [OF ind(2)]) (auto simp: W_def)
      ultimately show ?thesis using that(2) by (auto simp: step_def W_def)
    qed
  qed (use xs in \<open>auto simp: step_def W_def\<close>)
  show "i < n \<Longrightarrow> execute_sized r (DoubleAssign lhs_1 lhs_2 rhs_1 rhs_2) localSize m (lv_addr lhs_1 i)
           = ex_eval rhs_1 m i"
    unfolding run using key [of i "lv_addr lhs_1 i"] xs apart [of i i] by (auto simp: W_def step_def)
  show "i < n \<Longrightarrow> execute_sized r (DoubleAssign lhs_1 lhs_2 rhs_1 rhs_2) localSize m (lv_addr lhs_2 i)
           = ex_eval rhs_2 m i"
    unfolding run using key [of i "lv_addr lhs_2 i"] xs by (auto simp: W_def step_def)
  show "c \<notin> lv_addr lhs_1 ` {..<n} \<union> lv_addr lhs_2 ` {..<n} \<Longrightarrow>
         execute_sized r (DoubleAssign lhs_1 lhs_2 rhs_1 rhs_2) localSize m c = m c"
    unfolding run using key [of _ c] xs by (auto simp: W_def)
qed

section \<open>Footprints\<close>

text \<open>\<open>footprint e F\<close>: element \<open>i\<close> of \<open>e\<close> depends on no cell outside \<open>F i\<close>.\<close>

definition footprint :: "('v mem, 'a) expr \<Rightarrow> (nat \<Rightarrow> addr set) \<Rightarrow> bool" where
  "footprint e F \<longleftrightarrow> (\<forall>i m m'. (\<forall>a \<in> F i. m a = m' a) \<longrightarrow> ex_eval e m i = ex_eval e m' i)"

named_theorems footprints \<open>what the nodes of a tree read\<close>

lemma footprint_vec [footprints]: "footprint (vec_expr v) (\<lambda>i. {vaddr v i})"
  by (simp add: footprint_def vec_expr_def)

lemma footprint_mat [footprints]: "footprint (mat_expr v) (\<lambda>i. {maddr_lin v i})"
  by (simp add: footprint_def mat_expr_def)

lemma footprint_ScalarOp [footprints]:
  "footprint e F \<Longrightarrow> footprint (ScalarOp f (Literal x) e) F"
  unfolding footprint_def ScalarOp_def get_scalar.simps expr.simps by metis

lemma footprint_ScalarOp_Node [footprints]:
  "footprint e F \<Longrightarrow> footprint d G \<Longrightarrow> footprint (ScalarOp f (Node d) e) (\<lambda>i. F i \<union> G 0)"
  unfolding footprint_def ScalarOp_def get_scalar.simps expr.simps by (metis Un_iff)

lemma footprint_UnaryOp [footprints]: "footprint e F \<Longrightarrow> footprint (UnaryOp f e) F"
  unfolding footprint_def UnaryOp_def expr.simps by metis

lemma footprint_BinaryOp [footprints]:
  "footprint d F \<Longrightarrow> footprint e G \<Longrightarrow> footprint (BinaryOp f d e) (\<lambda>i. F i \<union> G i)"
  unfolding footprint_def BinaryOp_def expr.simps by (metis Un_iff)

lemma footprint_TupleOp [footprints]: "footprint e F \<Longrightarrow> footprint (TupleOp e) F"
  unfolding footprint_def TupleOp_def expr.simps by metis

lemma footprint_mono: "footprint e F \<Longrightarrow> (\<And>i. F i \<subseteq> G i) \<Longrightarrow> footprint e G"
  unfolding footprint_def by blast

lemma footprint_independent:
  fixes e :: "('v mem, 'a) expr"
  assumes "footprint e F" "\<And>i j. i < n \<Longrightarrow> j < n \<Longrightarrow> i \<noteq> j \<Longrightarrow> F i \<inter> W j = {}"
  shows "independent n W e"
  unfolding independent_def
proof (intro allI impI)
  fix i and m m' :: "'v mem"
  assume i: "i < n" and eq: "\<forall>a. (\<forall>j < n. j \<noteq> i \<longrightarrow> a \<notin> W j) \<longrightarrow> m a = m' a"
  have "m a = m' a" if "a \<in> F i" for a
    using assms(2) [OF i] that eq by blast
  then show "ex_eval e m i = ex_eval e m' i" using assms(1) by (simp add: footprint_def)
qed

lemma tree_size [simp]:
  "ex_size (vec_expr v) = vv_size v" "ex_size (mat_expr w) = mv_get_size w"
  "ex_size (ScalarOp f x e) = ex_size e" "ex_size (UnaryOp g e) = ex_size e"
  "ex_size (BinaryOp h d e) = ex_size e" "ex_size (TupleOp e) = ex_size e"
  "lv_size (vec_lval v) = vv_size v" "lv_size (mat_lval w) = mv_get_size w"
  by (simp_all add: expr_defs)

lemma tree_eval [simp]:
  "ex_eval (vec_expr v) m i = m (vaddr v i)" "ex_eval (mat_expr w) m i = m (maddr_lin w i)"
  "ex_eval (ScalarOp f (Literal x) e) s i = f x (ex_eval e s i)"
  "ex_eval (UnaryOp g e) s i = g (ex_eval e s i)"
  "ex_eval (BinaryOp h d e) s i = h (ex_eval d s i) (ex_eval e s i)"
  "ex_eval (TupleOp e) s i = \<lparr>ind = i, val = ex_eval e s i\<rparr>"
  "lv_addr (vec_lval v) = vaddr v" "lv_addr (mat_lval w) = maddr_lin w"
  by (simp_all add: expr_defs)

section \<open>The interface of a view\<close>

text \<open>What the trees rely on: different elements are different cells, all in the region the
  view binds.\<close>

locale view_interface =
  fixes wf :: "'w \<Rightarrow> bool" and sz :: "'w \<Rightarrow> nat" and addr_of :: "'w \<Rightarrow> nat \<Rightarrow> addr"
    and reg :: "'w \<Rightarrow> acc_range"
  assumes addr_inj: "wf v \<Longrightarrow> i < sz v \<Longrightarrow> j < sz v \<Longrightarrow> addr_of v i = addr_of v j \<Longrightarrow> i = j"
    and addr_region: "wf v \<Longrightarrow> i < sz v \<Longrightarrow> addr_of v i \<in> region (reg v)"
begin

lemma assign_correct:
  fixes rhs :: "('v mem, 'v) expr"
  assumes "wf v" "is_run r" "0 < localSize" "ex_size rhs \<le> sz v" "lv_addr lhs = addr_of v"
    and "footprint rhs F"
    and "\<And>i j. i < ex_size rhs \<Longrightarrow> j < ex_size rhs \<Longrightarrow> i \<noteq> j \<Longrightarrow> addr_of v j \<notin> F i"
  shows "i < ex_size rhs \<Longrightarrow> execute_sized r (Assign lhs rhs) localSize m (addr_of v i) = ex_eval rhs m i"
    and "c \<notin> addr_of v ` {..<ex_size rhs} \<Longrightarrow> execute_sized r (Assign lhs rhs) localSize m c = m c"
proof -
  have inj: "inj_on (lv_addr lhs) {..<ex_size rhs}"
    using assms by (auto simp: inj_on_def intro: addr_inj)
  have ind: "independent (ex_size rhs) (\<lambda>i. {lv_addr lhs i}) rhs"
    using assms by (intro footprint_independent) auto
  show "i < ex_size rhs \<Longrightarrow> execute_sized r (Assign lhs rhs) localSize m (addr_of v i) = ex_eval rhs m i"
    using execute_Assign(1) [OF assms(2,3) inj ind] assms(5) by simp
  show "c \<notin> addr_of v ` {..<ex_size rhs} \<Longrightarrow> execute_sized r (Assign lhs rhs) localSize m c = m c"
    using execute_Assign(2) [OF assms(2,3) inj ind] assms(5) by simp
qed

lemma cells_in_region: "wf v \<Longrightarrow> addr_of v ` {..<sz v} \<subseteq> region (reg v)"
  using addr_region by auto

lemma assign_frame:
  fixes rhs :: "('v mem, 'v) expr"
  assumes "wf v" "is_run r" "0 < localSize" "ex_size rhs \<le> sz v" "lv_addr lhs = addr_of v"
    and "footprint rhs F"
    and "\<And>i j. i < ex_size rhs \<Longrightarrow> j < ex_size rhs \<Longrightarrow> i \<noteq> j \<Longrightarrow> addr_of v j \<notin> F i"
    and "c \<notin> region (reg v)"
  shows "execute_sized r (Assign lhs rhs) localSize m c = m c"
proof (rule assign_correct(2) [OF assms(1-7)])
  show "c \<notin> addr_of v ` {..<ex_size rhs}"
    using assms(1,4,8) addr_region by fastforce
qed

end

interpretation vec: view_interface wf_vector_view vv_size vaddr vv_data
  by unfold_locales (auto simp: wf_vector_view_def dest: vaddr_inj intro: vaddr_between [unfolded wf_vector_view_def])

interpretation mat: view_interface wf_matrix_view mv_get_size maddr_lin mv_data
proof
  fix v i j
  assume v: "wf_matrix_view v" and i: "i < mv_get_size v"
  note bi = lin_index_bounds [OF i]
  show "maddr_lin v i \<in> region (mv_data v)"
    using v bi by (simp add: maddr_lin_eq maddr_in_region)
  assume j: "j < mv_get_size v" and eq: "maddr_lin v i = maddr_lin v j"
  have "i mod mv_sizeR v = j mod mv_sizeR v \<and> i div mv_sizeR v = j div mv_sizeR v"
    using maddr_inj [OF v, of "i mod mv_sizeR v" "j mod mv_sizeR v" "i div mv_sizeR v" "j div mv_sizeR v"]
      bi lin_index_bounds [OF j] eq by (simp add: maddr_lin_eq)
  then show "i = j" by (metis mult_div_mod_eq)
qed

end
