(* ===== verification/Reductions.thy ===== *)
theory Reductions
  imports Trees
begin

text \<open>
  \<open>AssignReduction\<close> of \<^verbatim>\<open>src/operations/blas1_trees.hpp\<close> and the reductions of
  \<^verbatim>\<open>src/executors/executor_sycl.hpp\<close>. A launch with \<open>W\<close> groups of \<open>L\<close> items leaves one partial
  result per group; the host repeats launches on the partial results until one is left.
\<close>

section \<open>The tree\<close>

record ('s, 'v) AssignReduction =
  ar_operator :: "'v \<Rightarrow> 'v \<Rightarrow> 'v"
  ar_init :: 'v
  ar_lhs :: VectorView
  ar_rhs :: "('s, 'v) expr"
  ar_local_num_thread :: nat
  ar_global_num_thread :: nat

text \<open>\<open>eval(index_t i)\<close>, without local memory.\<close>

definition ar_item_val :: "('s, 'v) AssignReduction \<Rightarrow> 's \<Rightarrow> nat \<Rightarrow> 'v" where
  "ar_item_val t s j =
     (let vecS = ex_size (ar_rhs t); f = ar_operator t; x = ex_eval (ar_rhs t) s; L = ar_local_num_thread t
      in foldl (\<lambda>local_val k.
           let local_val = f local_val (x k)
           in if k + L < vecS then f local_val (x (k + L)) else local_val)
         (ar_init t) (strided j vecS (2 * ar_global_num_thread t)))"

definition ar_eval_index :: "('v mem, 'v) AssignReduction \<Rightarrow> nat \<Rightarrow> 'v mem \<Rightarrow> 'v \<times> 'v mem" where
  "ar_eval_index t i m =
     (let vecS = ex_size (ar_rhs t);
          frs_thrd = 2 * ar_local_num_thread t * i;
          lst_thrd = (if frs_thrd + ar_local_num_thread t > vecS then vecS
                      else frs_thrd + ar_local_num_thread t);
          v = foldl (\<lambda>v j. ar_operator t v (ar_item_val t m j)) (ar_init t) [frs_thrd..<lst_thrd]
      in (v, if i < vv_size (ar_lhs t) then m(vaddr (ar_lhs t) i := v) else m))"

text \<open>\<open>eval(scratch, ndItem)\<close>. The barriers cut it into the accumulation, one phase for each
  value of \<open>offset\<close>, and the final write by item 0.\<close>

fun halvings :: "nat \<Rightarrow> nat list" where
  "halvings offset = (if offset = 0 then [] else offset # halvings (offset div 2))"

declare halvings.simps [simp del]

definition ar_accumulate ::
  "('s, 'v) AssignReduction \<Rightarrow> nd_item \<Rightarrow> nat \<Rightarrow> ('s, 'v, unit) group_state \<Rightarrow> ('s, 'v, unit) group_state" where
  "ar_accumulate t it localid gs =
     (let frs_thrd = 2 * nd_group it * nd_local_range it + localid;
          v = ar_item_val t (gs_mem gs) frs_thrd
      in gs\<lparr>gs_local := (gs_local gs)(localid := v)\<rparr>)"

definition ar_tree_step ::
  "('s, 'v) AssignReduction \<Rightarrow> nat \<Rightarrow> nat \<Rightarrow> ('s, 'v, unit) group_state \<Rightarrow> ('s, 'v, unit) group_state" where
  "ar_tree_step t offset localid gs =
     (if localid < offset
      then gs\<lparr>gs_local := (gs_local gs)(localid :=
             ar_operator t (gs_local gs localid) (gs_local gs (localid + offset)))\<rparr>
      else gs)"

definition ar_write ::
  "('v mem, 'v) AssignReduction \<Rightarrow> nd_item \<Rightarrow> nat \<Rightarrow> ('v mem, 'v, unit) group_state
   \<Rightarrow> ('v mem, 'v, unit) group_state" where
  "ar_write t it localid gs =
     (if localid = 0
      then gs\<lparr>gs_mem := (gs_mem gs)(vaddr (ar_lhs t) (nd_group it) := gs_local gs localid)\<rparr>
      else gs)"

definition ar_phases ::
  "('v mem, 'v) AssignReduction \<Rightarrow> nd_item \<Rightarrow>
   (nat \<Rightarrow> ('v mem, 'v, unit) group_state \<Rightarrow> ('v mem, 'v, unit) group_state) list" where
  "ar_phases t it =
     ar_accumulate t it # map (ar_tree_step t) (halvings (nd_local_range it div 2)) @ [ar_write t it]"

section \<open>The host loop\<close>

definition launch_reduction ::
  "'v device_run \<Rightarrow> ('v mem, 'v) AssignReduction \<Rightarrow> nat \<Rightarrow> nat \<Rightarrow> 'v mem \<Rightarrow> 'v mem" where
  "launch_reduction r t localSize globalSize m =
     execute_tree_local r () (ar_phases t) localSize globalSize m"

text \<open>One turn of \<open>do ... while (_N > 1)\<close> per call; \<open>runs k\<close> is how the device runs the
  \<open>k\<close>-th launch.\<close>

function reduction_loop ::
  "(nat \<Rightarrow> 'v device_run) \<Rightarrow> ('v \<Rightarrow> 'v \<Rightarrow> 'v) \<Rightarrow> 'v \<Rightarrow> VectorView \<Rightarrow> ('v mem, 'v) expr \<Rightarrow>
   VectorView \<Rightarrow> VectorView \<Rightarrow> nat \<Rightarrow> nat \<Rightarrow> bool \<Rightarrow> bool \<Rightarrow> nat \<Rightarrow> 'v mem \<Rightarrow> 'v mem" where
  "reduction_loop runs f i0 lhs rhs opShMem1 opShMem2 localSize k frst evn nWG m =
     (let globalSize = nWG * localSize;
          localTree =
            (if frst then
               \<lparr>ar_operator = f, ar_init = i0, ar_lhs = (if nWG = 1 then lhs else opShMem1), ar_rhs = rhs,
                ar_local_num_thread = localSize, ar_global_num_thread = globalSize\<rparr>
             else
               \<lparr>ar_operator = f, ar_init = i0,
                ar_lhs = (if nWG = 1 then lhs else if evn then opShMem2 else opShMem1),
                ar_rhs = vec_expr (if evn then opShMem1 else opShMem2),
                ar_local_num_thread = localSize, ar_global_num_thread = globalSize\<rparr>);
          m' = launch_reduction (runs k) localTree localSize globalSize m;
          N = nWG;
          nWG' = (N + 2 * localSize - 1) div (2 * localSize)
      in if N > 1
         then reduction_loop runs f i0 lhs rhs opShMem1 opShMem2 localSize (Suc k) False (\<not> evn) nWG' m'
         else m')"
  by pat_completeness auto
termination
  by (relation "measure (\<lambda>(runs, f, i0, lhs, rhs, s1, s2, localSize, k, frst, evn, nWG, m). nWG)")
    (simp_all add: cdiv_shrinks [unfolded cdiv_def One_nat_def])

declare reduction_loop.simps [simp del]

definition execute_AssignReduction ::
  "(nat \<Rightarrow> 'v device_run) \<Rightarrow> nat \<Rightarrow> nat \<Rightarrow> ('v mem, 'v) AssignReduction \<Rightarrow> 'v mem \<Rightarrow> 'v mem" where
  "execute_AssignReduction runs buf1 buf2 t m =
     (let localSize = ar_local_num_thread t;
          nWG = (ar_global_num_thread t + 2 * localSize - 1) div (2 * localSize);
          sharedSize = (if nWG < localSize then localSize else nWG);
          opShMem1 = VectorView_of_iter (make_sycl_iterator_buffer buf1 sharedSize) 1 sharedSize;
          opShMem2 = VectorView_of_iter (make_sycl_iterator_buffer buf2 sharedSize) 1 sharedSize
      in reduction_loop runs (ar_operator t) (ar_init t) (ar_lhs t) (ar_rhs t) opShMem1 opShMem2
           localSize 0 True False nWG m)"

definition execute_AssignReduction_scratch ::
  "(nat \<Rightarrow> 'v device_run) \<Rightarrow> ('v mem, 'v) AssignReduction \<Rightarrow> BufferIterator \<Rightarrow> 'v mem \<Rightarrow> 'v mem" where
  "execute_AssignReduction_scratch runs t scr m =
     (let localSize = ar_local_num_thread t;
          nWG = (ar_global_num_thread t + 2 * localSize - 1) div (2 * localSize);
          sharedSize = (if nWG < localSize then localSize else nWG);
          opShMem1 = VectorView_of_iter scr 1 sharedSize;
          opShMem2 = VectorView_of_iter (it_plus scr (int sharedSize)) 1 sharedSize
      in reduction_loop runs (ar_operator t) (ar_init t) (ar_lhs t) (ar_rhs t) opShMem1 opShMem2
           localSize 0 True False nWG m)"

section \<open>Which elements a group reads\<close>

definition item_indices :: "nat \<Rightarrow> nat \<Rightarrow> nat \<Rightarrow> nat \<Rightarrow> nat list" where
  "item_indices n L gnt j =
     concat (map (\<lambda>k. k # (if k + L < n then [k + L] else [])) (strided j n (2 * gnt)))"

lemma ar_item_val_foldl:
  "ar_item_val t s j = foldl (ar_operator t) (ar_init t)
     (map (ex_eval (ar_rhs t) s)
       (item_indices (ex_size (ar_rhs t)) (ar_local_num_thread t) (ar_global_num_thread t) j))"
proof -
  let ?f = "ar_operator t" and ?x = "ex_eval (ar_rhs t) s" and ?L = "ar_local_num_thread t"
    and ?n = "ex_size (ar_rhs t)"
  have "foldl (\<lambda>v k. let v = ?f v (?x k) in if k + ?L < ?n then ?f v (?x (k + ?L)) else v) a ks
      = foldl ?f a (map ?x (concat (map (\<lambda>k. k # (if k + ?L < ?n then [k + ?L] else [])) ks)))" for ks a
    by (induction ks arbitrary: a) (auto simp: Let_def)
  then show ?thesis by (simp add: ar_item_val_def item_indices_def Let_def)
qed

lemma mset_pairs:
  "mset (concat (map (\<lambda>k. k # (if k + L < n then [k + L] else [])) ks))
 = mset (ks @ filter (\<lambda>j. j < n) (map (\<lambda>k. k + L) ks))" for L :: nat
  by (induction ks) auto

lemma mod_split:
  fixes g l L W :: nat
  assumes "g < W" "l < L"
  shows "r < 2 * W * L \<Longrightarrow> (r = 2 * g * L + l \<or> r = 2 * g * L + l + L) \<longleftrightarrow>
    r div (2 * L) = g \<and> r mod L = l"
proof
  assume "r div (2 * L) = g \<and> r mod L = l"
  then have r: "r = 2 * L * g + r mod (2 * L)" "r mod L = l" by (metis mult_div_mod_eq)+
  define q where "q = r mod (2 * L)"
  have q: "q < 2 * L" "r = 2 * L * g + q" using assms r by (auto simp: q_def)
  have "r = L * (2 * g) + q" using q(2) by simp
  then have "q mod L = l" using r(2) by (metis mod_mult_self4)
  then have "q = l \<or> q = l + L" using q(1) by (cases "q < L") (auto simp: mod_if [of q L])
  then show "r = 2 * g * L + l \<or> r = 2 * g * L + l + L" using q(2) by (auto simp: algebra_simps)
next
  assume "r = 2 * g * L + l \<or> r = 2 * g * L + l + L"
  moreover have "(2 * g * L + l) div (2 * L) = g" "(2 * g * L + l + L) div (2 * L) = g"
    using assms by (auto intro!: div_nat_eqI simp: algebra_simps)
  ultimately show "r div (2 * L) = g \<and> r mod L = l" using assms by auto
qed

lemma mset_item_indices:
  assumes "g < W" "l < L"
  shows "mset (item_indices n L (W * L) (2 * g * L + l))
       = mset (filter (\<lambda>j. (j mod (2 * W * L)) mod L = l)
                (filter (\<lambda>j. (j mod (2 * W * L)) div (2 * L) = g) [0..<n]))"
proof -
  define s where "s = 2 * W * L"
  define a where "a = 2 * g * L + l"
  define ks where "ks = strided a n s"
  have "(2 * g + 2) * L \<le> (2 * W) * L" using assms by (intro mult_le_mono1) simp
  then have aL: "a + L < s" using assms by (simp add: a_def s_def algebra_simps)
  have ks: "set ks = {k. k < n \<and> k mod s = a}"
    using aL by (auto simp: ks_def set_strided)
  have shift: "(k + L) mod s = a + L" if "k mod s = a" for k
    using that aL by (metis mod_add_left_eq mod_less)
  have un: "(j mod s = a + L \<longleftrightarrow> (\<exists>k. k mod s = a \<and> j = k + L))" for j
  proof
    assume j: "j mod s = a + L"
    then have "a + L \<le> j" by (metis mod_less_eq_dividend)
    moreover have "(j - L) mod s = a"
    proof -
      have "j = s * (j div s) + (a + L)" using j by (metis mult_div_mod_eq)
      then have "j - L = s * (j div s) + a" by simp
      then show ?thesis using aL by simp
    qed
    ultimately show "\<exists>k. k mod s = a \<and> j = k + L" by (intro exI [of _ "j - L"]) auto
  qed (auto simp: shift)
  let ?ys = "ks @ filter (\<lambda>j. j < n) (map (\<lambda>k. k + L) ks)"
  have "distinct ?ys"
  proof -
    have "distinct ks" "distinct (map (\<lambda>k. k + L) ks)"
      by (simp_all add: ks_def distinct_map inj_on_def)
    moreover have "j \<notin> set ks" if "j \<in> set (map (\<lambda>k. k + L) ks)" for j
    proof -
      have "j mod s = a + L" using that ks shift by auto
      then show ?thesis using ks assms(2) by simp
    qed
    ultimately show ?thesis by auto
  qed
  moreover have "set ?ys = {j. j < n \<and> (j mod s = a \<or> j mod s = a + L)}"
    using ks un by auto
  ultimately have "mset ?ys = mset (filter (\<lambda>j. j mod s = a \<or> j mod s = a + L) [0..<n])"
    by (rule mset_filter_upt_eqI)
  moreover have "(j mod s = a \<or> j mod s = a + L) \<longleftrightarrow> (j mod s) div (2 * L) = g \<and> (j mod s) mod L = l" for j
  proof -
    have "j mod s < 2 * W * L" using aL unfolding s_def [symmetric] by simp
    from mod_split [OF assms this] show ?thesis unfolding a_def by blast
  qed
  ultimately have "mset ?ys = mset (filter (\<lambda>j. (j mod s) mod L = l)
      (filter (\<lambda>j. (j mod s) div (2 * L) = g) [0..<n]))"
    by (simp only: filter_filter)
  moreover have "mset (item_indices n L (W * L) (2 * g * L + l)) = mset ?ys"
    unfolding item_indices_def mset_pairs ks_def a_def s_def mult.assoc ..
  ultimately show ?thesis by (simp only: s_def)
qed

lemma mset_group_indices:
  assumes "g < W" "0 < L"
  shows "mset (concat (map (\<lambda>l. item_indices n L (W * L) (2 * g * L + l)) [0..<L]))
       = mset (filter (\<lambda>j. (j mod (2 * W * L)) div (2 * L) = g) [0..<n])"
proof -
  let ?xs = "filter (\<lambda>j. (j mod (2 * W * L)) div (2 * L) = g) [0..<n]"
  have "mset (concat (map (\<lambda>l. item_indices n L (W * L) (2 * g * L + l)) [0..<L]))
      = mset (concat (map (\<lambda>l. filter (\<lambda>j. (j mod (2 * W * L)) mod L = l) ?xs) [0..<L]))"
    using assms by (intro mset_concat_cong mset_item_indices) auto
  also have "\<dots> = mset (filter (\<lambda>j. (j mod (2 * W * L)) mod L \<in> set [0..<L]) ?xs)"
    by (rule mset_concat_classes) simp
  also have "filter (\<lambda>j. (j mod (2 * W * L)) mod L \<in> set [0..<L]) ?xs = ?xs"
    using assms by (auto simp: filter_id_conv)
  finally show ?thesis .
qed

lemma mset_all_groups:
  assumes "0 < L" "0 < W"
  shows "mset (concat (map (\<lambda>g. filter (\<lambda>j. (j mod (2 * W * L)) div (2 * L) = g) [0..<n]) [0..<W]))
       = mset [0..<n]"
proof -
  have "(j mod (2 * W * L)) div (2 * L) < W" for j
  proof -
    have "j mod (2 * W * L) < W * (2 * L)" using assms by (simp add: mult.assoc mult.left_commute)
    then show ?thesis by (rule less_mult_imp_div_less)
  qed
  then have "filter (\<lambda>j. (j mod (2 * W * L)) div (2 * L) \<in> set [0..<W]) [0..<n] = [0..<n]"
    by (auto simp: filter_id_conv)
  then show ?thesis by (simp only: mset_concat_classes distinct_upt)
qed

section \<open>One launch\<close>

definition tree_step :: "('v \<Rightarrow> 'v \<Rightarrow> 'v) \<Rightarrow> nat \<Rightarrow> (nat \<Rightarrow> 'v) \<Rightarrow> nat \<Rightarrow> 'v" where
  "tree_step f offset scr = (\<lambda>l. if l < offset then f (scr l) (scr (l + offset)) else scr l)"

lemma halvings_0 [simp]: "halvings 0 = []"
  by (simp add: halvings.simps)

lemma halvings_pow2: "halvings (2 ^ p) = 2 ^ p # halvings (2 ^ p div 2)"
  by (subst halvings.simps) simp

lemma halvings_le: "k \<in> set (halvings n) \<Longrightarrow> k \<le> n"
proof (induction n rule: halvings.induct)
  case (1 n)
  then show ?case by (subst (asm) (2) halvings.simps) (auto split: if_splits)
qed

lemma run_tree_phases:
  assumes "is_run r" "\<forall>k \<in> set os. k \<le> L"
  shows "run_phases (\<lambda>k. item_order r g k L) k (map (ar_tree_step t) os) gs
       = gs\<lparr>gs_local := fold (tree_step (ar_operator t)) os (gs_local gs)\<rparr>"
  using assms(2)
proof (induction os arbitrary: k gs)
  case Nil
  then show ?case by simp
next
  case (Cons i os)
  have "fold (ar_tree_step t i) (item_order r g k L) gs
      = gs\<lparr>gs_local := (\<lambda>l. if l < L \<and> l < i then ar_operator t (gs_local gs l) (gs_local gs (l + i))
                        else gs_local gs l)\<rparr>"
    by (rule phase_local [OF _ _ run_items [OF assms(1)]]) (auto simp: ar_tree_step_def)
  also have "\<dots> = gs\<lparr>gs_local := tree_step (ar_operator t) i (gs_local gs)\<rparr>"
    using Cons.prems by (simp add: tree_step_def fun_eq_iff)
  finally show ?case using Cons by simp
qed

lemma run_group_AssignReduction:
  assumes "is_run r" "0 < L" "nd_group it = g" "nd_local_range it = L"
  shows "run_group r g L () (ar_phases t it) m
       = m(vaddr (ar_lhs t) g :=
           fold (tree_step (ar_operator t)) (halvings (L div 2))
             (\<lambda>l. if l < L then ar_item_val t m (2 * g * L + l) else local_init r g l) 0)"
proof -
  define gs where "gs = \<lparr>gs_mem = m, gs_local = local_init r g, gs_priv = (\<lambda>_. ())\<rparr>"
  define scr where "scr = (\<lambda>l. if l < L then ar_item_val t m (2 * g * L + l) else local_init r g l)"
  define os where "os = halvings (L div 2)"
  define ord where "ord = (\<lambda>k. item_order r g k L)"
  have acc: "fold (ar_accumulate t it) (ord 0) gs = gs\<lparr>gs_local := scr\<rparr>"
  proof -
    have "fold (ar_accumulate t it) (ord 0) gs
        = gs\<lparr>gs_local := (\<lambda>l. if l < L \<and> True then ar_item_val t (gs_mem gs) (2 * g * L + l) else gs_local gs l)\<rparr>"
      unfolding ord_def
      by (rule phase_local [OF _ _ run_items [OF assms(1)]]) (auto simp: ar_accumulate_def Let_def assms)
    then show ?thesis by (simp add: scr_def gs_def cong: if_cong)
  qed
  have "\<forall>k \<in> set os. k \<le> L" using halvings_le by (fastforce simp: os_def)
  then have tree: "run_phases ord 1 (map (ar_tree_step t) os) (gs\<lparr>gs_local := scr\<rparr>)
      = gs\<lparr>gs_local := fold (tree_step (ar_operator t)) os scr\<rparr>"
    using run_tree_phases [OF assms(1), of os L g 1 t "gs\<lparr>gs_local := scr\<rparr>"] by (simp add: ord_def)
  have wr: "gs_mem (fold (ar_write t it) (ord k) s) = (gs_mem s)(vaddr (ar_lhs t) g := gs_local s 0)" for k s
  proof -
    have "fold (ar_write t it) (ord k) s
        = fold (\<lambda>l gs. gs\<lparr>gs_mem := (gs_mem gs)(vaddr (ar_lhs t) g := gs_local gs l)\<rparr>)
            (filter (\<lambda>l. l = 0) (ord k)) s"
      unfolding ar_write_def assms(3) by (rule fold_guarded)
    moreover have "filter (\<lambda>l. l = 0) (ord k) = [0]"
      using assms(1,2) by (intro filter_single) (simp_all add: ord_def run_items)
    ultimately show ?thesis by simp
  qed
  have "run_group r g L () (ar_phases t it) m = gs_mem (run_phases ord 0 (ar_phases t it) gs)"
    by (simp add: run_group_def ord_def gs_def)
  also have "ar_phases t it = ar_accumulate t it # map (ar_tree_step t) os @ [ar_write t it]"
    by (simp add: ar_phases_def assms os_def)
  also have "gs_mem (run_phases ord 0 \<dots> gs)
      = gs_mem (fold (ar_write t it) (ord (1 + length os)) (gs\<lparr>gs_local := fold (tree_step (ar_operator t)) os scr\<rparr>))"
    using acc tree by (simp add: run_phases_append)
  finally show ?thesis by (simp add: wr gs_def scr_def os_def ar_phases_def assms)
qed

text \<open>A value into which the neutral element has been folded already.\<close>

definition folded_in :: "'a set \<Rightarrow> ('a \<Rightarrow> 'a \<Rightarrow> 'a) \<Rightarrow> 'a \<Rightarrow> 'a \<Rightarrow> bool" where
  "folded_in A f init a \<longleftrightarrow> a \<in> A \<and> f init a = a"

context reduction_op
begin

lemma folded_in_red: "set xs \<subseteq> A \<Longrightarrow> folded_in A f init (red f init xs)"
  by (simp add: folded_in_def red_absorb)

lemma folded_in_f: "folded_in A f init a \<Longrightarrow> folded_in A f init b \<Longrightarrow> folded_in A f init (f a b)"
  using assoc [of init a b] by (simp add: folded_in_def closed init_in)

lemma red_pair: "folded_in A f init a \<Longrightarrow> b \<in> A \<Longrightarrow> red f init [a, b] = f a b"
  by (simp add: red_def folded_in_def)

lemma tree_red:
  "(\<And>l. l < 2 ^ p \<Longrightarrow> folded_in A f init (scr l)) \<Longrightarrow>
   fold (tree_step f) (halvings (2 ^ p div 2)) scr 0 = red f init (map scr [0..<2 ^ p])"
proof (induction p arbitrary: scr)
  case 0
  then show ?case by (simp add: red_def folded_in_def)
next
  case (Suc p)
  let ?h = "2 ^ p :: nat" and ?scr' = "tree_step f (2 ^ p) scr"
  have abs: "folded_in A f init (scr l)" "folded_in A f init (scr (l + ?h))" if "l < ?h" for l
    using Suc.prems [of l] Suc.prems [of "l + ?h"] that by auto
  have "fold (tree_step f) (halvings (2 ^ Suc p div 2)) scr 0
      = fold (tree_step f) (halvings (?h div 2)) ?scr' 0"
    by (simp add: halvings_pow2)
  also have "\<dots> = red f init (map ?scr' [0..<?h])"
    using abs by (intro Suc.IH) (simp add: tree_step_def folded_in_f)
  also have "map ?scr' [0..<?h] = map (red f init) (map (\<lambda>l. [scr l, scr (l + ?h)]) [0..<?h])"
    using abs by (auto simp: tree_step_def red_pair folded_in_def)
  also have "red f init \<dots> = red f init (concat (map (\<lambda>l. [scr l, scr (l + ?h)]) [0..<?h]))"
    using abs by (intro red_concat [symmetric]) (auto simp: folded_in_def)
  also have "\<dots> = red f init (map scr [0..<2 ^ Suc p])"
  proof (rule red_perm)
    have "mset (concat (map (\<lambda>l. [scr l, scr (l + ?h)]) ks)) = mset (map scr ks) + mset (map scr (map (\<lambda>l. l + ?h) ks))" for ks
      by (induction ks) auto
    then have "mset (concat (map (\<lambda>l. [scr l, scr (l + ?h)]) [0..<?h])) = mset (map scr ([0..<?h] @ [?h..<?h + ?h]))"
      by (simp only: map_add_upt map_append mset_append)
    also have "[0..<?h] @ [?h..<?h + ?h] = [0..<2 ^ Suc p]"
      by (metis le0 mult_2 power_Suc upt_add_eq_append)
    finally show "mset (concat (map (\<lambda>l. [scr l, scr (l + ?h)]) [0..<?h])) = mset (map scr [0..<2 ^ Suc p])" .
    show "set (concat (map (\<lambda>l. [scr l, scr (l + ?h)]) [0..<?h])) \<subseteq> A"
      using abs by (auto simp: folded_in_def)
  qed
  finally show ?case .
qed

end

lemma strided_upper: "k \<in> set (strided a n s) \<Longrightarrow> k < n"
  by (cases "0 < s") (auto simp: set_strided, subst (asm) strided.simps, simp)

lemma item_indices_lt: "k \<in> set (item_indices n L gnt j) \<Longrightarrow> k < n"
  by (auto simp: item_indices_def dest: strided_upper split: if_splits)

text \<open>The indices whose values group \<open>g\<close> of \<open>W\<close> groups of \<open>L\<close> items combines.\<close>

definition group_indices :: "nat \<Rightarrow> nat \<Rightarrow> nat \<Rightarrow> nat \<Rightarrow> nat list" where
  "group_indices n L W g = filter (\<lambda>j. (j mod (2 * W * L)) div (2 * L) = g) [0..<n]"

lemma group_indices_1: "0 < L \<Longrightarrow> group_indices n L 1 0 = [0..<n]"
  by (simp add: group_indices_def filter_id_conv)

context reduction_op
begin

lemma group_value:
  assumes "L = 2 ^ p" "g < W" and t: "ar_operator t = f" "ar_init t = init"
    "ar_local_num_thread t = L" "ar_global_num_thread t = W * L" "ex_size (ar_rhs t) = n"
    and inA: "\<And>i. i < n \<Longrightarrow> ex_eval (ar_rhs t) m i \<in> A"
  shows "fold (tree_step f) (halvings (L div 2))
           (\<lambda>l. if l < L then ar_item_val t m (2 * g * L + l) else z l) 0
       = red f init (map (ex_eval (ar_rhs t) m) (group_indices n L W g))"
proof -
  let ?x = "ex_eval (ar_rhs t) m" and ?I = "\<lambda>l. item_indices n L (W * L) (2 * g * L + l)"
  have sub: "set (map ?x (?I l)) \<subseteq> A" for l using inA item_indices_lt by fastforce
  have val: "ar_item_val t m (2 * g * L + l) = red f init (map ?x (?I l))" for l
    by (simp add: ar_item_val_foldl t red_def)
  have "fold (tree_step f) (halvings (L div 2))
           (\<lambda>l. if l < L then ar_item_val t m (2 * g * L + l) else z l) 0
       = red f init (map (\<lambda>l. if l < L then ar_item_val t m (2 * g * L + l) else z l) [0..<L])"
  proof -
    let ?scr = "\<lambda>l. if l < L then ar_item_val t m (2 * g * L + l) else z l"
    have "folded_in A f init (?scr l)" if "l < 2 ^ p" for l
      using that assms(1) folded_in_red [OF sub [of l]] val [of l] by simp
    then show ?thesis using tree_red [of p ?scr] assms(1) by simp
  qed
  also have "map (\<lambda>l. if l < L then ar_item_val t m (2 * g * L + l) else z l) [0..<L]
      = map (red f init) (map (\<lambda>l. map ?x (?I l)) [0..<L])"
    by (simp add: val)
  also have "red f init \<dots> = red f init (concat (map (\<lambda>l. map ?x (?I l)) [0..<L]))"
    by (intro red_concat [symmetric]) (use sub in \<open>fastforce simp: image_subset_iff\<close>)
  also have "concat (map (\<lambda>l. map ?x (?I l)) [0..<L]) = map ?x (concat (map ?I [0..<L]))"
    by (simp add: map_concat comp_def)
  also have "red f init \<dots> = red f init (map ?x (group_indices n L W g))"
  proof (rule red_perm)
    have "mset (concat (map ?I [0..<L])) = mset (group_indices n L W g)"
      unfolding group_indices_def using assms(1,2) by (intro mset_group_indices) auto
    then show "mset (map ?x (concat (map ?I [0..<L]))) = mset (map ?x (group_indices n L W g))"
      by (metis mset_map)
    show "set (map ?x (concat (map ?I [0..<L]))) \<subseteq> A" using sub by auto
  qed
  finally show ?thesis .
qed

lemma launch_correct:
  assumes run: "is_run r" and L: "L = 2 ^ p" and W: "0 < W"
    and t: "ar_operator t = f" "ar_init t = init" "ar_local_num_thread t = L"
      "ar_global_num_thread t = W * L" "ex_size (ar_rhs t) = n"
    and inj: "inj_on (vaddr (ar_lhs t)) {..<W}"
    and indep: "\<And>m' i. i < n \<Longrightarrow> (\<And>a. a \<notin> vaddr (ar_lhs t) ` {..<W} \<Longrightarrow> m a = m' a) \<Longrightarrow>
      ex_eval (ar_rhs t) m i = ex_eval (ar_rhs t) m' i"
    and inA: "\<And>i. i < n \<Longrightarrow> ex_eval (ar_rhs t) m i \<in> A"
  shows "g < W \<Longrightarrow> launch_reduction r t L (W * L) m (vaddr (ar_lhs t) g)
           = red f init (map (ex_eval (ar_rhs t) m) (group_indices n L W g))"
    and "c \<notin> vaddr (ar_lhs t) ` {..<W} \<Longrightarrow> launch_reduction r t L (W * L) m c = m c"
proof -
  define V where "V = (\<lambda>g. red f init (map (ex_eval (ar_rhs t) m) (group_indices n L W g)))"
  have eq: "run_group r g L () (ar_phases t (item_of L (W * L) (g * L))) m' = m'(vaddr (ar_lhs t) g := V g)"
    if "g < W" and m': "\<And>a. a \<notin> vaddr (ar_lhs t) ` {..<W} \<Longrightarrow> m a = m' a" for g m'
  proof -
    have x: "ex_eval (ar_rhs t) m' i = ex_eval (ar_rhs t) m i" if "i < n" for i
      using indep [OF that m'] by simp
    have "run_group r g L () (ar_phases t (item_of L (W * L) (g * L))) m'
        = m'(vaddr (ar_lhs t) g := red f init (map (ex_eval (ar_rhs t) m') (group_indices n L W g)))"
      using run_group_AssignReduction [OF run, of L "item_of L (W * L) (g * L)" g t m'] L
        group_value [OF L \<open>g < W\<close> t, of m' "local_init r g"] x inA t(1) by simp
    also have "map (ex_eval (ar_rhs t) m') (group_indices n L W g)
        = map (ex_eval (ar_rhs t) m) (group_indices n L W g)"
      using x by (simp add: group_indices_def)
    finally show ?thesis by (simp add: V_def fun_upd_def)
  qed
  have "fold (\<lambda>g. run_group r g L () (ar_phases t (item_of L (W * L) (g * L)))) gs m'
      = fold (\<lambda>g m. m(vaddr (ar_lhs t) g := V g)) gs m'"
    if "set gs \<subseteq> {..<W}" "\<And>a. a \<notin> vaddr (ar_lhs t) ` {..<W} \<Longrightarrow> m a = m' a" for gs m'
    using that
  proof (induction gs arbitrary: m')
    case Nil
    then show ?case by simp
  next
    case (Cons g gs)
    have "g < W" using Cons.prems by simp
    have "fold (\<lambda>g m. m(vaddr (ar_lhs t) g := V g)) gs (m'(vaddr (ar_lhs t) g := V g))
        = fold (\<lambda>g. run_group r g L () (ar_phases t (item_of L (W * L) (g * L)))) gs (m'(vaddr (ar_lhs t) g := V g))"
      using Cons.prems \<open>g < W\<close> by (intro Cons.IH [symmetric]) auto
    then show ?case using eq [OF \<open>g < W\<close>, of m'] Cons.prems(2) by (simp del: fun_upd_apply)
  qed
  note gfold = this
  have xs: "distinct (group_order r W)" "set (group_order r W) = {..<W}"
    using run_groups [OF run] by auto
  have out: "launch_reduction r t L (W * L) m = fold (\<lambda>g m. m(vaddr (ar_lhs t) g := V g)) (group_order r W) m"
    using gfold [of "group_order r W" m] W L xs
    by (simp add: launch_reduction_def execute_tree_local_def nd_range_ok_def)
  show "g < W \<Longrightarrow> launch_reduction r t L (W * L) m (vaddr (ar_lhs t) g)
           = red f init (map (ex_eval (ar_rhs t) m) (group_indices n L W g))"
    unfolding out using fold_cell_writers_hit [OF inj _ xs, where v = "\<lambda>g m. V g" and x = g]
    by (simp add: V_def del: fun_upd_apply)
  show "c \<notin> vaddr (ar_lhs t) ` {..<W} \<Longrightarrow> launch_reduction r t L (W * L) m c = m c"
    unfolding out by (rule fold_cell_writers_miss [OF inj _ xs]) auto
qed

end

section \<open>The host loop\<close>

definition depends_only_outside :: "addr set \<Rightarrow> ('v mem, 'v) expr \<Rightarrow> bool" where
  "depends_only_outside C e \<longleftrightarrow>
     (\<forall>m m' i. i < ex_size e \<longrightarrow> (\<forall>a. a \<notin> C \<longrightarrow> m a = m' a) \<longrightarrow> ex_eval e m i = ex_eval e m' i)"

lemma depends_only_outsideD:
  "depends_only_outside C e \<Longrightarrow> i < ex_size e \<Longrightarrow> (\<And>a. a \<notin> C \<Longrightarrow> m a = m' a) \<Longrightarrow>
   ex_eval e m i = ex_eval e m' i"
  unfolding depends_only_outside_def by blast

lemma depends_only_outside_mono:
  "depends_only_outside C e \<Longrightarrow> D \<subseteq> C \<Longrightarrow> depends_only_outside D e"
  unfolding depends_only_outside_def by blast

lemma footprint_depends:
  "footprint e F \<Longrightarrow> (\<And>i. i < ex_size e \<Longrightarrow> F i \<inter> C = {}) \<Longrightarrow> depends_only_outside C e"
  unfolding footprint_def depends_only_outside_def by blast

context reduction_op
begin

text \<open>With one group, the launch is the last one and writes the result.\<close>

lemma loop_last:
  assumes "is_run (runs k)" "L = 2 ^ p"
    and "depends_only_outside {vaddr lhs 0} rhs"
    and rhs: "rhs = (if frst then rhs0 else vec_expr (if evn then sh1 else sh2))"
    and "\<And>i. i < ex_size rhs \<Longrightarrow> ex_eval rhs m i \<in> A"
  shows "reduction_loop runs f init lhs rhs0 sh1 sh2 L k frst evn 1 m (vaddr lhs 0)
           = red f init (map (ex_eval rhs m) [0..<ex_size rhs])"
    and "c \<noteq> vaddr lhs 0 \<Longrightarrow> reduction_loop runs f init lhs rhs0 sh1 sh2 L k frst evn 1 m c = m c"
proof -
  define t where "t = \<lparr>ar_operator = f, ar_init = init, ar_lhs = lhs, ar_rhs = rhs,
    ar_local_num_thread = L, ar_global_num_thread = 1 * L\<rparr>"
  have t: "ar_operator t = f" "ar_init t = init" "ar_local_num_thread t = L"
    "ar_global_num_thread t = 1 * L" "ex_size (ar_rhs t) = ex_size rhs" "ar_lhs t = lhs" "ar_rhs t = rhs"
    by (simp_all add: t_def)
  have indep: "ex_eval (ar_rhs t) m i = ex_eval (ar_rhs t) m' i"
    if "i < ex_size rhs" "\<And>a. a \<notin> vaddr (ar_lhs t) ` {..<1} \<Longrightarrow> m a = m' a" for m' i
    using that by (intro depends_only_outsideD [OF assms(3), folded t(7)]) (auto simp: t)
  have inj: "inj_on (vaddr (ar_lhs t)) {..<1}" by (auto simp: inj_on_def)
  have loop: "reduction_loop runs f init lhs rhs0 sh1 sh2 L k frst evn 1 m
      = launch_reduction (runs k) t L (1 * L) m"
    by (subst reduction_loop.simps) (simp add: Let_def t_def rhs)
  show "reduction_loop runs f init lhs rhs0 sh1 sh2 L k frst evn 1 m (vaddr lhs 0)
           = red f init (map (ex_eval rhs m) [0..<ex_size rhs])"
  proof -
    have "launch_reduction (runs k) t L (1 * L) m (vaddr (ar_lhs t) 0)
        = red f init (map (ex_eval (ar_rhs t) m) (group_indices (ex_size rhs) L 1 0))"
      by (rule launch_correct(1) [OF assms(1,2) _ t(1-5) inj indep]) (use assms(5) in \<open>auto simp: t\<close>)
    then show ?thesis using assms(2) unfolding loop by (simp add: t(6,7) group_indices_1 [simplified])
  qed
  show "c \<noteq> vaddr lhs 0 \<Longrightarrow> reduction_loop runs f init lhs rhs0 sh1 sh2 L k frst evn 1 m c = m c"
    unfolding loop
    by (rule launch_correct(2) [OF assms(1,2) _ t(1-5) inj indep]) (use assms(5) in \<open>auto simp: t\<close>)
qed

text \<open>Two launches: the first leaves one partial result per group in \<open>sh1\<close>, the second
  combines all cells of \<open>sh1\<close>, also those beyond the number of groups, which hold what they held
  before.\<close>

lemma loop_two_any:
  assumes run: "\<And>k. is_run (runs k)" and L: "L = 2 ^ p" and W: "1 < W" "W \<le> 2 * L"
    and sh1: "vv_size sh1 = S" "inj_on (vaddr sh1) {..<S}" "vaddr lhs 0 \<notin> vaddr sh1 ` {..<S}" and WS: "W \<le> S"
    and dep: "depends_only_outside (vaddr sh1 ` {..<W}) rhs"
    and inA: "\<And>i. i < ex_size rhs \<Longrightarrow> ex_eval rhs m i \<in> A"
    and tail: "\<And>i. W \<le> i \<Longrightarrow> i < S \<Longrightarrow> m (vaddr sh1 i) \<in> A"
  shows "reduction_loop runs f init lhs rhs sh1 sh2 L k True False W m (vaddr lhs 0)
           = red f init (map (ex_eval rhs m) [0..<ex_size rhs] @ map (\<lambda>i. m (vaddr sh1 i)) [W..<S])"
    and "c \<noteq> vaddr lhs 0 \<Longrightarrow> c \<notin> vaddr sh1 ` {..<W} \<Longrightarrow>
         reduction_loop runs f init lhs rhs sh1 sh2 L k True False W m c = m c"
proof -
  define n where "n = ex_size rhs"
  define t where "t = \<lparr>ar_operator = f, ar_init = init, ar_lhs = sh1, ar_rhs = rhs,
    ar_local_num_thread = L, ar_global_num_thread = W * L\<rparr>"
  have t: "ar_operator t = f" "ar_init t = init" "ar_local_num_thread t = L"
    "ar_global_num_thread t = W * L" "ex_size (ar_rhs t) = n" "ar_lhs t = sh1" "ar_rhs t = rhs"
    by (simp_all add: t_def n_def)
  define m1 where "m1 = launch_reduction (runs k) t L (W * L) m"
  have "(W + 2 * L - 1) div (2 * L) = 1"
    using W L by (intro div_nat_eqI) auto
  then have loop: "reduction_loop runs f init lhs rhs sh1 sh2 L k True False W m
      = reduction_loop runs f init lhs rhs sh1 sh2 L (Suc k) False True 1 m1"
    using W by (subst reduction_loop.simps) (simp add: Let_def t_def m1_def)
  have indep: "ex_eval (ar_rhs t) m i = ex_eval (ar_rhs t) m' i"
    if "i < n" "\<And>a. a \<notin> vaddr (ar_lhs t) ` {..<W} \<Longrightarrow> m a = m' a" for m' i
    using that by (intro depends_only_outsideD [OF dep, folded t(7)]) (auto simp: t n_def)
  have inj: "inj_on (vaddr (ar_lhs t)) {..<W}" using sh1(2) WS by (auto simp: t inj_on_def)
  have W0: "0 < W" using W by simp
  have part: "m1 (vaddr sh1 g) = red f init (map (ex_eval rhs m) (group_indices n L W g))" if "g < W" for g
  proof -
    have "launch_reduction (runs k) t L (W * L) m (vaddr (ar_lhs t) g)
        = red f init (map (ex_eval (ar_rhs t) m) (group_indices n L W g))"
      by (rule launch_correct(1) [OF run L W0 t(1-5) inj indep]) (use inA that in \<open>auto simp: t n_def\<close>)
    then show ?thesis by (simp only: t(6,7) m1_def)
  qed
  have keep: "m1 c = m c" if "c \<notin> vaddr sh1 ` {..<W}" for c
    unfolding m1_def
    by (rule launch_correct(2) [OF run L W0 t(1-5) inj indep]) (use inA that in \<open>auto simp: t n_def\<close>)
  have sub: "set (map (ex_eval rhs m) (group_indices n L W g)) \<subseteq> A" for g
    using inA by (auto simp: group_indices_def n_def)
  have unwritten: "m1 (vaddr sh1 i) = m (vaddr sh1 i)" if "W \<le> i" "i < S" for i
    using that WS inj_onD [OF sh1(2), of i] by (intro keep) fastforce
  have inA1: "ex_eval (vec_expr sh1) m1 i \<in> A" if "i < ex_size (vec_expr sh1 :: ('a mem, 'a) expr)" for i
    using that sub part unwritten tail by (cases "i < W") (simp_all add: sh1)
  have dep1: "depends_only_outside {vaddr lhs 0} (vec_expr sh1 :: ('a mem, 'a) expr)"
    using sh1 by (intro footprint_depends [OF footprint_vec]) auto
  have eq1: "vec_expr sh1 = (if False then rhs else vec_expr (if True then sh1 else sh2))" by simp
  note last = loop_last [where runs = runs and k = "Suc k", OF run L dep1 eq1 inA1]
  let ?tail = "map (\<lambda>i. m (vaddr sh1 i)) [W..<S]"
  have whole: "reduction_loop runs f init lhs rhs sh1 sh2 L k True False W m (vaddr lhs 0)
      = red f init (map (\<lambda>g. m1 (vaddr sh1 g)) [0..<W] @ ?tail)"
  proof -
    have "[0..<S] = [0..<W] @ [W..<S]" using upt_add_eq_append [of 0 W "S - W"] WS by simp
    moreover have "map (\<lambda>i. m1 (vaddr sh1 i)) [W..<S] = ?tail" by (rule map_cong) (simp_all add: unwritten)
    ultimately have "map (\<lambda>i. m1 (vaddr sh1 i)) [0..<S] = map (\<lambda>g. m1 (vaddr sh1 g)) [0..<W] @ ?tail" by simp
    moreover have "map (ex_eval (vec_expr sh1) m1) [0..<S] = map (\<lambda>i. m1 (vaddr sh1 i)) [0..<S]"
      by (rule map_cong) (simp_all add: sh1)
    ultimately show ?thesis unfolding loop using last(1) by (simp add: sh1)
  qed
  have partial: "map (\<lambda>g. m1 (vaddr sh1 g)) [0..<W]
      = map (red f init) (map (\<lambda>g. map (ex_eval rhs m) (group_indices n L W g)) [0..<W])"
    by (simp add: part)
  have "red f init (map (\<lambda>g. m1 (vaddr sh1 g)) [0..<W])
      = red f init (concat (map (\<lambda>g. map (ex_eval rhs m) (group_indices n L W g)) [0..<W]))"
    unfolding partial
    by (intro red_concat [symmetric]) (use sub in \<open>fastforce simp: image_subset_iff\<close>)
  also have "\<dots> = red f init (map (ex_eval rhs m) (concat (map (group_indices n L W) [0..<W])))"
    by (simp add: map_concat comp_def)
  also have "\<dots> = red f init (map (ex_eval rhs m) [0..<n])"
  proof (rule red_perm)
    have "mset (concat (map (group_indices n L W) [0..<W])) = mset [0..<n]"
      unfolding group_indices_def using L W0 by (intro mset_all_groups) auto
    then show "mset (map (ex_eval rhs m) (concat (map (group_indices n L W) [0..<W])))
        = mset (map (ex_eval rhs m) [0..<n])" by (metis mset_map)
    show "set (map (ex_eval rhs m) (concat (map (group_indices n L W) [0..<W]))) \<subseteq> A"
      using sub by auto
  qed
  finally have parts: "red f init (map (\<lambda>g. m1 (vaddr sh1 g)) [0..<W]) = red f init (map (ex_eval rhs m) [0..<n])" .
  have "set (map (\<lambda>g. m1 (vaddr sh1 g)) [0..<W]) \<subseteq> A" "set ?tail \<subseteq> A" "set (map (ex_eval rhs m) [0..<n]) \<subseteq> A"
    using sub part tail inA by (auto simp: n_def)
  then show "reduction_loop runs f init lhs rhs sh1 sh2 L k True False W m (vaddr lhs 0)
           = red f init (map (ex_eval rhs m) [0..<ex_size rhs] @ ?tail)"
    unfolding whole n_def [symmetric] by (simp only: red_append parts)
  show "c \<noteq> vaddr lhs 0 \<Longrightarrow> c \<notin> vaddr sh1 ` {..<W} \<Longrightarrow>
         reduction_loop runs f init lhs rhs sh1 sh2 L k True False W m c = m c"
    unfolding loop using last(2) keep by simp
qed

text \<open>The second launch must find all of \<open>sh1\<close> written: its size is the number of groups.\<close>

lemma loop_two:
  assumes "\<And>k. is_run (runs k)" "L = 2 ^ p" "1 < W" "W \<le> 2 * L"
    and "vv_size sh1 = W" "inj_on (vaddr sh1) {..<W}" "vaddr lhs 0 \<notin> vaddr sh1 ` {..<W}"
    and "depends_only_outside (vaddr sh1 ` {..<W}) rhs"
    and "\<And>i. i < ex_size rhs \<Longrightarrow> ex_eval rhs m i \<in> A"
  shows "reduction_loop runs f init lhs rhs sh1 sh2 L k True False W m (vaddr lhs 0)
           = red f init (map (ex_eval rhs m) [0..<ex_size rhs])"
    and "c \<noteq> vaddr lhs 0 \<Longrightarrow> c \<notin> vaddr sh1 ` {..<W} \<Longrightarrow>
         reduction_loop runs f init lhs rhs sh1 sh2 L k True False W m c = m c"
  using loop_two_any [OF assms(1-7) order_refl assms(8,9)] by simp_all

end

text \<open>The cells of the two temporaries.\<close>

lemma temp_view:
  "vv_size (VectorView_of_iter (make_sycl_iterator_buffer b n) 1 n) = n"
  "vaddr (VectorView_of_iter (make_sycl_iterator_buffer b n) 1 n) i = (b, int i)"
proof -
  have fits: "vector_fits (make_sycl_iterator_buffer b n) 1 n"
    by (simp add: vector_fits_def make_sycl_iterator_buffer_def)
  show "vv_size (VectorView_of_iter (make_sycl_iterator_buffer b n) 1 n) = n"
    using vector_fits_size [OF fits] by (simp add: make_vector_view_def)
  show "vaddr (VectorView_of_iter (make_sycl_iterator_buffer b n) 1 n) i = (b, int i)"
    using vaddr_make_vector_view [OF fits, of i]
    by (simp add: make_vector_view_def blas_index_def make_sycl_iterator_buffer_def)
qed

text \<open>The number of groups of the first launch.\<close>

definition reduction_groups :: "('s, 'v) AssignReduction \<Rightarrow> nat" where
  "reduction_groups t = cdiv (ar_global_num_thread t) (2 * ar_local_num_thread t)"

text \<open>The launches read every cell of a temporary; it is completely written when there is one
  group, or at least as many groups as items in a group.\<close>

definition good_launch :: "nat \<Rightarrow> nat \<Rightarrow> bool" where
  "good_launch L W \<longleftrightarrow> (\<exists>p. L = 2 ^ p) \<and> (W = 1 \<or> L \<le> W \<and> W \<le> 2 * L)"

context reduction_op
begin

lemma loop_correct:
  assumes run: "\<And>k. is_run (runs k)" and good: "good_launch L W"
    and sh1: "L \<le> W \<Longrightarrow> vv_size sh1 = W" "inj_on (vaddr sh1) {..<W}" "vaddr sh1 ` {..<W} \<subseteq> C"
    and apart: "vaddr lhs 0 \<notin> C"
    and dep: "depends_only_outside (insert (vaddr lhs 0) C) rhs"
    and inA: "\<And>i. i < ex_size rhs \<Longrightarrow> ex_eval rhs m i \<in> A"
  shows "reduction_loop runs f init lhs rhs sh1 sh2 L 0 True False W m (vaddr lhs 0)
           = red f init (map (ex_eval rhs m) [0..<ex_size rhs]) \<and>
         (\<forall>c. c \<noteq> vaddr lhs 0 \<longrightarrow> c \<notin> C \<longrightarrow>
            reduction_loop runs f init lhs rhs sh1 sh2 L 0 True False W m c = m c)"
proof -
  obtain p where p: "L = 2 ^ p" using good by (auto simp: good_launch_def)
  show ?thesis
  proof (cases "W = 1")
    case True
    have "depends_only_outside {vaddr lhs 0} rhs"
      by (rule depends_only_outside_mono [OF dep]) auto
    moreover have "rhs = (if True then rhs else vec_expr (if False then sh1 else sh2))" by simp
    ultimately show ?thesis
      unfolding True using loop_last [where runs = runs and k = 0, OF run p _ _ inA] by blast
  next
    case False
    then have W: "L \<le> W" "W \<le> 2 * L" using good by (auto simp: good_launch_def)
    have "0 < L" using p by simp
    then have W1: "1 < W" using W False by linarith
    have "depends_only_outside (vaddr sh1 ` {..<W}) rhs"
      by (rule depends_only_outside_mono [OF dep]) (use sh1(3) in auto)
    moreover have "vaddr lhs 0 \<notin> vaddr sh1 ` {..<W}" using sh1(3) apart by auto
    ultimately show ?thesis
      using loop_two [where runs = runs and k = 0, OF run p W1 W(2) sh1(1) [OF W(1)] sh1(2) _ _ inA] sh1(3)
      by blast
  qed
qed

lemma execute_reduction:
  assumes run: "\<And>k. is_run (runs k)" and good: "good_launch (ar_local_num_thread t) (reduction_groups t)"
    and t: "ar_operator t = f" "ar_init t = init"
    and apart: "fst (vaddr (ar_lhs t) 0) \<noteq> b1"
    and dep: "depends_only_outside (insert (vaddr (ar_lhs t) 0) ({b1} \<times> UNIV)) (ar_rhs t)"
    and inA: "\<And>i. i < ex_size (ar_rhs t) \<Longrightarrow> ex_eval (ar_rhs t) m i \<in> A"
  shows "execute_AssignReduction runs b1 b2 t m (vaddr (ar_lhs t) 0)
           = red f init (map (ex_eval (ar_rhs t) m) [0..<ex_size (ar_rhs t)]) \<and>
         (\<forall>c. c \<noteq> vaddr (ar_lhs t) 0 \<longrightarrow> fst c \<noteq> b1 \<longrightarrow>
            execute_AssignReduction runs b1 b2 t m c = m c)"
proof -
  define L where "L = ar_local_num_thread t"
  define W where "W = reduction_groups t"
  define S where "S = (if W < L then L else W)"
  define sh1 where "sh1 = VectorView_of_iter (make_sycl_iterator_buffer b1 S) 1 S"
  have "vaddr (ar_lhs t) 0 \<notin> {b1} \<times> UNIV" using apart by (auto simp: mem_Times_iff)
  moreover have "L \<le> W \<Longrightarrow> vv_size sh1 = W" "inj_on (vaddr sh1) {..<W}" "vaddr sh1 ` {..<W} \<subseteq> {b1} \<times> UNIV"
    by (auto simp: sh1_def S_def temp_view inj_on_def)
  ultimately have "\<forall>sh2. reduction_loop runs f init (ar_lhs t) (ar_rhs t) sh1 sh2 L 0 True False W m (vaddr (ar_lhs t) 0)
           = red f init (map (ex_eval (ar_rhs t) m) [0..<ex_size (ar_rhs t)]) \<and>
         (\<forall>c. c \<noteq> vaddr (ar_lhs t) 0 \<longrightarrow> c \<notin> {b1} \<times> UNIV \<longrightarrow>
            reduction_loop runs f init (ar_lhs t) (ar_rhs t) sh1 sh2 L 0 True False W m c = m c)"
    using loop_correct [where runs = runs, OF run good [folded L_def W_def] _ _ _ _ dep inA] by blast
  moreover have "(ar_global_num_thread t + 2 * L - 1) div (2 * L) = W"
    by (simp add: W_def reduction_groups_def cdiv_def L_def)
  then have "execute_AssignReduction runs b1 b2 t m = reduction_loop runs f init (ar_lhs t) (ar_rhs t) sh1
      (VectorView_of_iter (make_sycl_iterator_buffer b2 S) 1 S) L 0 True False W m"
    unfolding execute_AssignReduction_def Let_def L_def [symmetric] t by (simp only: sh1_def S_def)
  ultimately show ?thesis by (auto simp: mem_Times_iff)
qed

end

section \<open>The sequential evaluation\<close>

lemma item_indices_beyond: "n \<le> j \<Longrightarrow> item_indices n L gnt j = []"
  by (simp add: item_indices_def)

lemma concat_clipped:
  "concat (map (item_indices n L gnt) [a..<(if a + L > n then n else a + L)])
 = concat (map (\<lambda>l. item_indices n L gnt (a + l)) [0..<L])"
proof -
  have shift: "map (\<lambda>l. item_indices n L gnt (a + l)) [0..<L] = map (item_indices n L gnt) [a..<a + L]"
    by (rule nth_equalityI) auto
  have beyond: "concat (map (item_indices n L gnt) [b..<c]) = []" if "n \<le> b" for b c
    using that by (auto simp: item_indices_beyond)
  show ?thesis
  proof (cases "a + L > n")
    case True
    show ?thesis
    proof (cases "a \<le> n")
      case True
      then have "[a..<a + L] = [a..<n] @ [n..<a + L]"
        using \<open>a + L > n\<close> by (metis less_imp_le_nat le_add_diff_inverse upt_add_eq_append)
      then have "concat (map (item_indices n L gnt) [a..<a + L])
          = concat (map (item_indices n L gnt) [a..<n])" by (simp only: map_append concat_append beyond [OF order_refl] append_Nil2)
      then show ?thesis using \<open>a + L > n\<close> by (simp add: shift)
    next
      case False
      then show ?thesis using beyond [of a "a + L"] \<open>a + L > n\<close> by (simp add: shift)
    qed
  qed (simp add: shift)
qed

context reduction_op
begin

lemma sequential_value:
  assumes "0 < L" "g < W" and t: "ar_operator t = f" "ar_init t = init"
    "ar_local_num_thread t = L" "ar_global_num_thread t = W * L" "ex_size (ar_rhs t) = n"
    and inA: "\<And>i. i < n \<Longrightarrow> ex_eval (ar_rhs t) m i \<in> A"
  shows "fst (ar_eval_index t g m) = red f init (map (ex_eval (ar_rhs t) m) (group_indices n L W g))"
proof -
  let ?x = "ex_eval (ar_rhs t) m" and ?I = "item_indices n L (W * L)" and ?a = "2 * L * g"
  let ?js = "[?a..<(if ?a + L > n then n else ?a + L)]"
  have sub: "set (map ?x (?I j)) \<subseteq> A" for j using inA item_indices_lt by fastforce
  have val: "ar_item_val t m = (\<lambda>j. red f init (map ?x (?I j)))"
    by (rule ext) (simp add: ar_item_val_foldl t red_def)
  have "fst (ar_eval_index t g m) = red f init (map (ar_item_val t m) ?js)"
    by (simp add: ar_eval_index_def Let_def t red_def foldl_map)
  also have "map (ar_item_val t m) ?js = map (red f init) (map (\<lambda>j. map ?x (?I j)) ?js)"
    by (simp add: val comp_def)
  also have "red f init \<dots> = red f init (concat (map (\<lambda>j. map ?x (?I j)) ?js))"
    by (intro red_concat [symmetric]) (use sub in \<open>fastforce simp: image_subset_iff\<close>)
  also have "concat (map (\<lambda>j. map ?x (?I j)) ?js) = map ?x (concat (map ?I ?js))"
    by (simp only: map_concat map_map comp_def)
  also have "concat (map ?I ?js) = concat (map (\<lambda>l. ?I (2 * g * L + l)) [0..<L])"
    unfolding concat_clipped by (simp add: mult.commute mult.left_commute)
  also have "red f init (map ?x \<dots>) = red f init (map ?x (group_indices n L W g))"
  proof (rule red_perm)
    have "mset (concat (map (\<lambda>l. ?I (2 * g * L + l)) [0..<L])) = mset (group_indices n L W g)"
      unfolding group_indices_def using assms(1,2) by (intro mset_group_indices)
    then show "mset (map ?x (concat (map (\<lambda>l. ?I (2 * g * L + l)) [0..<L]))) = mset (map ?x (group_indices n L W g))"
      by (metis mset_map)
    show "set (map ?x (concat (map (\<lambda>l. ?I (2 * g * L + l)) [0..<L]))) \<subseteq> A"
      using inA item_indices_lt by fastforce
  qed
  finally show ?thesis .
qed

end

text \<open>C28: the tree reduction in local memory leaves in the cell of every group what the sequential
  evaluation of the same tree node computes for it, for every operator with the contract of a
  reduction, every order of items and groups and every initial content of local memory.\<close>

theorem local_reduction_is_sequential:
  assumes "reduction_op A (ar_operator t) (ar_init t)" "is_run r"
    and "ar_local_num_thread t = 2 ^ p" "ar_global_num_thread t = W * 2 ^ p"
    and "vv_stride (ar_lhs t) \<noteq> 0"
    and "depends_only_outside (vaddr (ar_lhs t) ` {..<W}) (ar_rhs t)"
    and "\<And>i. i < ex_size (ar_rhs t) \<Longrightarrow> ex_eval (ar_rhs t) m i \<in> A"
    and "g < W"
  shows "launch_reduction r t (2 ^ p) (W * 2 ^ p) m (vaddr (ar_lhs t) g) = fst (ar_eval_index t g m)"
proof -
  have inj: "inj_on (vaddr (ar_lhs t)) {..<W}"
    using assms(5) by (auto simp: inj_on_def dest: vaddr_inj)
  have indep: "ex_eval (ar_rhs t) m i = ex_eval (ar_rhs t) m' i"
    if "i < ex_size (ar_rhs t)" "\<And>a. a \<notin> vaddr (ar_lhs t) ` {..<W} \<Longrightarrow> m a = m' a" for m' i
    using depends_only_outsideD [OF assms(6) that] .
  have W: "0 < W" using assms(8) by simp
  have "launch_reduction r t (2 ^ p) (W * 2 ^ p) m (vaddr (ar_lhs t) g)
      = red (ar_operator t) (ar_init t) (map (ex_eval (ar_rhs t) m) (group_indices (ex_size (ar_rhs t)) (2 ^ p) W g))"
    by (rule reduction_op.launch_correct(1) [OF assms(1,2) refl W refl refl assms(3,4) refl inj indep])
      (use assms(7,8) in auto)
  also have "\<dots> = fst (ar_eval_index t g m)"
    by (rule reduction_op.sequential_value [OF assms(1), symmetric]) (use assms in auto)
  finally show ?thesis .
qed

text \<open>An example: six elements, three groups of two items.\<close>

definition sample_reduction :: "nat \<Rightarrow> nat \<Rightarrow> nat \<Rightarrow> (int mem, int) AssignReduction" where
  "sample_reduction n L gnt =
     \<lparr>ar_operator = AddOperator, ar_init = 0,
      ar_lhs = make_vector_view (make_sycl_iterator_buffer 2 8) 1 8,
      ar_rhs = vec_expr (make_vector_view (make_sycl_iterator_buffer 1 8) 1 n),
      ar_local_num_thread = L, ar_global_num_thread = gnt\<rparr>"

lemma sample_reduction_rhs:
  "n \<le> 8 \<Longrightarrow> ex_size (ar_rhs (sample_reduction n L gnt)) = n"
  "n \<le> 8 \<Longrightarrow> ex_eval (ar_rhs (sample_reduction n L gnt)) m i = m (1, int i)"
  "vaddr (ar_lhs (sample_reduction n L gnt)) i = (2, int i)"
proof -
  have v: "vaddr (make_vector_view (make_sycl_iterator_buffer b 8) 1 k) i = (b, int i)" if "k \<le> 8" for b k i
    using that vaddr_make_vector_view [of "make_sycl_iterator_buffer b 8" 1 k i]
    by (simp add: vector_fits_def make_sycl_iterator_buffer_def blas_index_def)
  show "n \<le> 8 \<Longrightarrow> ex_size (ar_rhs (sample_reduction n L gnt)) = n"
    using vector_fits_size [of "make_sycl_iterator_buffer 1 8" 1 n]
    by (simp add: sample_reduction_def vector_fits_def make_sycl_iterator_buffer_def)
  show "n \<le> 8 \<Longrightarrow> ex_eval (ar_rhs (sample_reduction n L gnt)) m i = m (1, int i)"
    "vaddr (ar_lhs (sample_reduction n L gnt)) i = (2, int i)"
    by (simp_all add: sample_reduction_def v)
qed

lemma local_reduction_is_sequential_witness:
  "launch_reduction (seq_run 9) (sample_reduction 6 2 6) 2 6 (\<lambda>(b, k). k + 1) (2, 1)
     = fst (ar_eval_index (sample_reduction 6 2 6) 1 (\<lambda>(b, k). k + 1))"
proof -
  have dep: "depends_only_outside (vaddr (ar_lhs (sample_reduction 6 2 6)) ` {..<3}) (ar_rhs (sample_reduction 6 2 6))"
    unfolding depends_only_outside_def
  proof (intro allI impI)
    fix m m' :: "int mem" and i
    assume "i < ex_size (ar_rhs (sample_reduction 6 2 6))"
      and eq: "\<forall>a. a \<notin> vaddr (ar_lhs (sample_reduction 6 2 6)) ` {..<3} \<longrightarrow> m a = m' a"
    have "(1, int i) \<notin> vaddr (ar_lhs (sample_reduction 6 2 6)) ` {..<3}"
      by (auto simp: sample_reduction_rhs)
    then show "ex_eval (ar_rhs (sample_reduction 6 2 6)) m i = ex_eval (ar_rhs (sample_reduction 6 2 6)) m' i"
      using eq by (simp add: sample_reduction_rhs)
  qed
  have op: "reduction_op UNIV (ar_operator (sample_reduction 6 2 6)) (ar_init (sample_reduction 6 2 6))"
    using add_red.reduction_op_axioms by (simp add: sample_reduction_def)
  show ?thesis
    using local_reduction_is_sequential [where r = "seq_run 9" and p = 1 and W = 3 and g = 1
        and m = "\<lambda>(b, k). k + 1", OF op is_run_seq] dep
    by (simp add: sample_reduction_rhs(3)) (simp add: sample_reduction_def make_vector_view_def VectorView_of_iter_def)
qed

text \<open>C38: when a reduction starts with more than one group but fewer groups than items per group, the
  temporary has more cells than there are groups, and the second launch reduces all of them: the
  result is that of the elements together with what the fresh temporary \<open>b1\<close> held in the cells that
  no kernel wrote, in every order. (\<open>good_launch\<close> excludes these sizes; the interface never asks for
  them.)\<close>

theorem small_launch_reads_unwritten:
  assumes "reduction_op A (ar_operator t) (ar_init t)" "\<And>k. is_run (runs k)"
    and "ar_local_num_thread t = 2 ^ p" "1 < reduction_groups t" "reduction_groups t < ar_local_num_thread t"
    and "fst (vaddr (ar_lhs t) 0) \<noteq> b1" "depends_only_outside ({b1} \<times> UNIV) (ar_rhs t)"
    and "\<And>i. i < ex_size (ar_rhs t) \<Longrightarrow> ex_eval (ar_rhs t) m i \<in> A" "\<And>i. m (b1, i) \<in> A"
  shows "execute_AssignReduction runs b1 b2 t m (vaddr (ar_lhs t) 0)
    = red (ar_operator t) (ar_init t) (map (ex_eval (ar_rhs t) m) [0..<ex_size (ar_rhs t)] @
        map (\<lambda>i. m (b1, int i)) [reduction_groups t..<ar_local_num_thread t])"
proof -
  define L where "L = ar_local_num_thread t"
  define W where "W = reduction_groups t"
  define sh1 where "sh1 = VectorView_of_iter (make_sycl_iterator_buffer b1 L) 1 L"
  have W: "1 < W" "W \<le> 2 * L" "W \<le> L" using assms(4,5) by (simp_all add: W_def L_def)
  have sh1: "vv_size sh1 = L" "inj_on (vaddr sh1) {..<L}" "vaddr (ar_lhs t) 0 \<notin> vaddr sh1 ` {..<L}" "vaddr sh1 i = (b1, int i)" for i
    using assms(6) by (auto simp: sh1_def temp_view inj_on_def)
  have dep: "depends_only_outside (vaddr sh1 ` {..<W}) (ar_rhs t)"
    by (rule depends_only_outside_mono [OF assms(7)]) (auto simp: sh1)
  have groups: "(ar_global_num_thread t + 2 * L - 1) div (2 * L) = W"
    by (simp add: W_def reduction_groups_def cdiv_def L_def)
  have "execute_AssignReduction runs b1 b2 t m = reduction_loop runs (ar_operator t) (ar_init t) (ar_lhs t) (ar_rhs t) sh1
      (VectorView_of_iter (make_sycl_iterator_buffer b2 L) 1 L) L 0 True False W m"
    unfolding execute_AssignReduction_def Let_def L_def [symmetric] groups using assms(5) [folded L_def W_def] by (simp add: sh1_def)
  then show ?thesis
    using reduction_op.loop_two_any(1) [OF assms(1,2) assms(3) [folded L_def] W(1,2) sh1(1-3) W(3) dep assms(8)] assms(9)
    by (simp add: sh1(4) L_def W_def)
qed

lemma small_launch_reads_unwritten_witness:
  "execute_AssignReduction (\<lambda>_. seq_run 0) 7 8 (sample_reduction 1 4 16) (\<lambda>(b, k). if b = 7 then 5 else 0) (2, 0) = 10"
proof -
  let ?t = "sample_reduction 1 4 16"
  have op: "reduction_op UNIV (ar_operator ?t) (ar_init ?t)"
    using add_red.reduction_op_axioms by (simp add: sample_reduction_def)
  have W: "reduction_groups ?t = 2" "ar_local_num_thread ?t = 4"
    by (simp_all add: reduction_groups_def sample_reduction_def cdiv_def)
  have opi: "ar_operator ?t = AddOperator" "ar_init ?t = 0" "ex_size (ar_rhs ?t) = 1"
    by (simp_all add: sample_reduction_rhs) (simp_all add: sample_reduction_def)
  have dep: "depends_only_outside ({7} \<times> UNIV) (ar_rhs ?t)"
    unfolding depends_only_outside_def by (auto simp: sample_reduction_rhs)
  have "[2..<4] = [2, 3 :: nat]" by (simp add: upt_rec)
  then show ?thesis
    using small_launch_reads_unwritten [OF op is_run_seq, where p = 2 and ?b1.0 = 7 and ?b2.0 = 8 and m = "\<lambda>(b, k). if b = 7 then 5 else 0",
        unfolded W opi red_AddOperator] dep
    by (simp add: sample_reduction_rhs)
qed

text \<open>C37: the overload that takes its temporaries from a caller's scratch buffer leaves the same
  reduction in the result cell and changes only that cell and the scratch cells of the first
  temporary.\<close>

theorem execute_scratch_correct:
  assumes "reduction_op A (ar_operator t) (ar_init t)" "\<And>k. is_run (runs k)"
    and "good_launch (ar_local_num_thread t) (reduction_groups t)"
    and "vector_fits scr 1 (reduction_groups t)"
    and "vaddr (ar_lhs t) 0 \<notin> {it_buffer scr} \<times> {it_offset scr ..< it_offset scr + int (reduction_groups t)}"
    and "depends_only_outside (insert (vaddr (ar_lhs t) 0)
           ({it_buffer scr} \<times> {it_offset scr ..< it_offset scr + int (reduction_groups t)})) (ar_rhs t)"
    and "\<And>i. i < ex_size (ar_rhs t) \<Longrightarrow> ex_eval (ar_rhs t) m i \<in> A"
  shows "execute_AssignReduction_scratch runs t scr m (vaddr (ar_lhs t) 0)
           = red (ar_operator t) (ar_init t) (map (ex_eval (ar_rhs t) m) [0..<ex_size (ar_rhs t)]) \<and>
         (\<forall>c. c \<noteq> vaddr (ar_lhs t) 0 \<longrightarrow>
            c \<notin> {it_buffer scr} \<times> {it_offset scr ..< it_offset scr + int (reduction_groups t)} \<longrightarrow>
            execute_AssignReduction_scratch runs t scr m c = m c)"
proof -
  define L where "L = ar_local_num_thread t"
  define W where "W = reduction_groups t"
  define S where "S = (if W < L then L else W)"
  define sh1 where "sh1 = VectorView_of_iter scr 1 S"
  have disp: "vaddr sh1 i = (it_buffer scr, it_offset scr + int i)" for i
    by (simp add: sh1_def VectorView_of_iter_def vaddr_eq make_VectorView_disp get_range_accessor_def
        get_range_accessor_sized_def)
  have "L \<le> W \<Longrightarrow> vv_size sh1 = W"
    using vector_fits_size [OF assms(4)] by (simp add: sh1_def S_def W_def make_vector_view_def)
  moreover have "inj_on (vaddr sh1) {..<W}"
    "vaddr sh1 ` {..<W} \<subseteq> {it_buffer scr} \<times> {it_offset scr ..< it_offset scr + int W}"
    by (auto simp: disp inj_on_def)
  moreover have "execute_AssignReduction_scratch runs t scr m = reduction_loop runs (ar_operator t) (ar_init t)
      (ar_lhs t) (ar_rhs t) sh1 (VectorView_of_iter (it_plus scr (int S)) 1 S) L 0 True False W m"
    unfolding execute_AssignReduction_scratch_def Let_def
    by (simp only: sh1_def S_def W_def reduction_groups_def cdiv_def L_def)
  ultimately show ?thesis
    using reduction_op.loop_correct [OF assms(1), where runs = runs, OF assms(2) assms(3) [folded L_def W_def]
        _ _ _ assms(5) [folded W_def] assms(6) [folded W_def] assms(7)]
    by (simp add: W_def)
qed

lemma execute_scratch_correct_witness:
  "execute_AssignReduction_scratch (\<lambda>_. seq_run 9) (sample_reduction 6 2 8) (make_sycl_iterator_buffer 3 8)
     (\<lambda>(b, k). k + 1) (2, 0) = 21"
proof -
  let ?t = "sample_reduction 6 2 8"
  have op: "reduction_op UNIV (ar_operator ?t) (ar_init ?t)"
    using add_red.reduction_op_axioms by (simp add: sample_reduction_def)
  have W: "reduction_groups ?t = 2" "ar_local_num_thread ?t = 2"
    by (simp_all add: reduction_groups_def sample_reduction_def cdiv_def)
  have good: "good_launch (ar_local_num_thread ?t) (reduction_groups ?t)"
    unfolding W good_launch_def by (intro conjI exI [of _ 1]) auto
  have fits: "vector_fits (make_sycl_iterator_buffer 3 8) 1 (reduction_groups ?t)"
    by (simp add: W vector_fits_def make_sycl_iterator_buffer_def)
  have dep: "depends_only_outside (insert (vaddr (ar_lhs ?t) 0) ({it_buffer (make_sycl_iterator_buffer 3 8)} \<times>
      {it_offset (make_sycl_iterator_buffer 3 8) ..< it_offset (make_sycl_iterator_buffer 3 8) + int (reduction_groups ?t)}))
      (ar_rhs ?t)"
    unfolding depends_only_outside_def by (auto simp: sample_reduction_rhs make_sycl_iterator_buffer_def)
  have "map (ex_eval (ar_rhs ?t) (\<lambda>(b, k). k + 1)) [0..<6] = map (\<lambda>i. int i + 1) [0..<6]"
    by (rule map_cong) (simp_all add: sample_reduction_rhs)
  note map = this
  have opi: "ar_operator ?t = AddOperator" "ar_init ?t = 0" "ex_size (ar_rhs ?t) = 6"
    by (simp_all add: sample_reduction_rhs) (simp_all add: sample_reduction_def)
  have sum: "red (ar_operator ?t) (ar_init ?t) (map (ex_eval (ar_rhs ?t) (\<lambda>(b, k). k + 1))
      [0..<ex_size (ar_rhs ?t)]) = 21"
    unfolding opi map by (simp add: red_AddOperator eval_nat_numeral)
  have apart: "vaddr (ar_lhs ?t) 0 \<notin> {it_buffer (make_sycl_iterator_buffer 3 8)} \<times>
      {it_offset (make_sycl_iterator_buffer 3 8) ..< it_offset (make_sycl_iterator_buffer 3 8) + int (reduction_groups ?t)}"
    by (simp add: sample_reduction_rhs make_sycl_iterator_buffer_def)
  then show ?thesis
    using execute_scratch_correct [where runs = "\<lambda>_. seq_run 9" and m = "\<lambda>(b, k). k + 1", OF op is_run_seq good fits apart dep, unfolded sum] by (simp add: sample_reduction_rhs)
qed

end
