(* ===== verification/Policy.thy ===== *)
theory Policy
  imports Reductions "HOL-Library.Sublist"
begin

text \<open>
  \<^verbatim>\<open>include/policy/sycl_policy.h\<close>, \<^verbatim>\<open>src/policy/sycl_policy_handler.hpp\<close> and
  \<^verbatim>\<open>src/quantize/quantize.hpp\<close>: what the library asks of a device, which back end it chooses,
  and the copies between host and device. What a query to the SYCL runtime answers is an
  argument. A copy is complete when the model's function returns.
\<close>

section \<open>Device queries\<close>

datatype device_type = cpu | host | intel_gpu | amd_gpu | arm_gpu | rcar_cvengine | rcar_cpu | unsupported

datatype sycl_device_kind = sycl_cpu | sycl_gpu | sycl_accelerator | sycl_host

definition get_work_group_size :: "nat \<Rightarrow> nat" where
  "get_work_group_size max_work_group_size = min 256 max_work_group_size"

definition tolower_char :: "char \<Rightarrow> char" where
  "tolower_char c =
     (if 65 \<le> (of_char c :: nat) \<and> (of_char c :: nat) \<le> 90 then char_of (of_char c + 32 :: nat) else c)"

definition name_contains :: "string \<Rightarrow> string \<Rightarrow> bool" where
  "name_contains s sub \<longleftrightarrow> sublist sub s"

definition find_chosen_device_type :: "string \<Rightarrow> sycl_device_kind \<Rightarrow> device_type" where
  "find_chosen_device_type platform_name dev_type =
     (let plat_name = map tolower_char platform_name in
      if name_contains plat_name ''amd'' \<and> dev_type = sycl_gpu then amd_gpu
      else if name_contains plat_name ''intel'' \<and> dev_type = sycl_gpu then intel_gpu
      else if name_contains plat_name ''computeaorta'' \<and> dev_type = sycl_accelerator then rcar_cvengine
      else if name_contains plat_name ''arm'' \<and> dev_type = sycl_gpu then arm_gpu
      else if name_contains plat_name ''computeaorta'' \<and> dev_type = sycl_cpu then rcar_cpu
      else unsupported)"

record policy_handler =
  ph_work_group_size :: nat
  ph_device_type :: device_type
  ph_has_local_memory :: bool
  ph_num_compute_units :: nat

definition make_policy_handler ::
  "nat \<Rightarrow> string \<Rightarrow> sycl_device_kind \<Rightarrow> bool \<Rightarrow> nat \<Rightarrow> policy_handler" where
  "make_policy_handler max_work_group_size platform_name dev_type local_mem compute_units =
     \<lparr>ph_work_group_size = get_work_group_size max_work_group_size,
      ph_device_type = find_chosen_device_type platform_name dev_type,
      ph_has_local_memory = local_mem,
      ph_num_compute_units = compute_units\<rparr>"

section \<open>Copies between host and device\<close>

definition copy_to_device :: "'v list \<Rightarrow> BufferIterator \<Rightarrow> nat \<Rightarrow> 'v mem \<Rightarrow> 'v mem" where
  "copy_to_device src dst sz m =
     (\<lambda>(b, k). if b = it_buffer dst \<and> it_offset dst \<le> k \<and> k < it_offset dst + int sz
               then src ! nat (k - it_offset dst) else m (b, k))"

definition copy_to_host :: "BufferIterator \<Rightarrow> nat \<Rightarrow> 'v mem \<Rightarrow> 'v list" where
  "copy_to_host src sz m = map (\<lambda>i. m (it_buffer src, it_offset src + int i)) [0..<sz]"

definition device_fill :: "BufferIterator \<Rightarrow> 'v \<Rightarrow> nat \<Rightarrow> 'v mem \<Rightarrow> 'v mem" where
  "device_fill dst x sz m =
     (\<lambda>(b, k). if b = it_buffer dst \<and> it_offset dst \<le> k \<and> k < it_offset dst + int sz
               then x else m (b, k))"

lemma copy_back: "sz \<le> length src \<Longrightarrow> copy_to_host it sz (copy_to_device src it sz m) = take sz src"
  by (rule nth_equalityI) (auto simp: copy_to_host_def copy_to_device_def)

lemma fill_back: "copy_to_host it sz (device_fill it x sz m) = replicate sz x"
  by (rule nth_equalityI) (auto simp: copy_to_host_def device_fill_def)

section \<open>Quantization\<close>

text \<open>\<open>QuantizeKernel\<close> converts element by element; the specialisation for equal types copies
  the buffer. \<open>static_cast\<close> is the conversion \<open>cast\<close>. The two buffers have different types.\<close>

definition quantize_kernel :: "('a \<Rightarrow> 'b) \<Rightarrow> nat \<Rightarrow> nat \<Rightarrow> 'a mem \<Rightarrow> nat \<Rightarrow> 'b mem \<Rightarrow> 'b mem" where
  "quantize_kernel cast input output mi index mout =
     mout((output, int index) := cast (mi (input, int index)))"

definition quantize_run ::
  "'t device_run \<Rightarrow> ('a \<Rightarrow> 'b) \<Rightarrow> nat \<Rightarrow> nat \<Rightarrow> nat \<Rightarrow> 'a mem \<Rightarrow> 'b mem \<Rightarrow> 'b mem" where
  "quantize_run r cast input input_count output mi mout =
     fold (quantize_kernel cast input output mi) (global_order r input_count) mout"

definition quantize_copy :: "nat \<Rightarrow> nat \<Rightarrow> nat \<Rightarrow> 'a mem \<Rightarrow> 'a mem" where
  "quantize_copy input input_count output m =
     (\<lambda>(b, k). if b = output \<and> 0 \<le> k \<and> k < int input_count then m (input, k) else m (b, k))"

lemma quantize_run_eq:
  assumes "is_run r"
  shows "quantize_run r cast input n output mi mout (b, k)
       = (if b = output \<and> 0 \<le> k \<and> k < int n then cast (mi (input, k)) else mout (b, k))"
proof -
  let ?a = "\<lambda>i. (output, int i)" and ?v = "\<lambda>i (_ :: 'b mem). cast (mi (input, int i))"
  have inj: "inj_on ?a {..<n}" by (auto simp: inj_on_def)
  have xs: "distinct (global_order r n)" "set (global_order r n) = {..<n}"
    using assms by (simp_all add: run_global)
  have run: "quantize_run r cast input n output mi mout = fold (\<lambda>i f. f(?a i := ?v i f)) (global_order r n) mout"
    by (simp add: quantize_run_def quantize_kernel_def [abs_def] del: fun_upd_apply)
  show ?thesis
  proof (cases "b = output \<and> 0 \<le> k \<and> k < int n")
    case True
    then obtain i where i: "k = int i" "i < n" by (metis nat_0_le of_nat_less_iff)
    have "fold (\<lambda>i f. f(?a i := ?v i f)) (global_order r n) mout (?a i) = ?v i mout"
      by (rule fold_cell_writers_hit [OF inj _ xs]) (use i in auto)
    then show ?thesis unfolding run using True i by simp
  next
    case False
    have "fold (\<lambda>i f. f(?a i := ?v i f)) (global_order r n) mout (b, k) = mout (b, k)"
      by (rule fold_cell_writers_miss [OF inj _ xs]) (use False in auto)
    then show ?thesis unfolding run if_not_P [OF False] .
  qed
qed

end
