(* ===== verification/Blas1.thy ===== *)
theory Blas1
  imports Policy
begin

text \<open>
  The level 1 interface, \<^verbatim>\<open>src/interface/blas1_interface.hpp\<close>. Each operation builds the views
  and the tree and runs it. Memory is passed explicitly; the device run, the policy handler,
  the numeric limits of the element type and the identities of the fresh temporaries are
  arguments. \<open>_iamax\<close> and \<open>_iamin\<close> read a vector of elements and write a buffer of tuples, so
  they take the one memory and return the other.
\<close>

section \<open>Element-wise operations\<close>

definition axpy ::
  "'t device_run \<Rightarrow> policy_handler \<Rightarrow> nat \<Rightarrow> 'v::{plus, times} \<Rightarrow> BufferIterator \<Rightarrow> int \<Rightarrow>
   BufferIterator \<Rightarrow> int \<Rightarrow> 'v mem \<Rightarrow> 'v mem" where
  "axpy r ph N alpha x incx y incy m =
     (let vx = make_vector_view x incx N;
          vy = make_vector_view y incy N;
          scalOp = ScalarOp ProductOperator (Literal alpha) (vec_expr vx);
          addOp = BinaryOp AddOperator (vec_expr vy) scalOp;
          assignOp = Assign (vec_lval vy) addOp
      in execute r (ph_work_group_size ph) assignOp m)"

definition copy ::
  "'t device_run \<Rightarrow> policy_handler \<Rightarrow> nat \<Rightarrow> BufferIterator \<Rightarrow> int \<Rightarrow> BufferIterator \<Rightarrow> int \<Rightarrow>
   'v mem \<Rightarrow> 'v mem" where
  "copy r ph N x incx y incy m =
     (let vx = make_vector_view x incx N;
          vy = make_vector_view y incy N;
          assignOp2 = Assign (vec_lval vy) (vec_expr vx)
      in execute r (ph_work_group_size ph) assignOp2 m)"

definition swap ::
  "'t device_run \<Rightarrow> policy_handler \<Rightarrow> nat \<Rightarrow> BufferIterator \<Rightarrow> int \<Rightarrow> BufferIterator \<Rightarrow> int \<Rightarrow>
   'v mem \<Rightarrow> 'v mem" where
  "swap r ph N x incx y incy m =
     (let vx = make_vector_view x incx N;
          vy = make_vector_view y incy N;
          swapOp = DoubleAssign (vec_lval vy) (vec_lval vx) (vec_expr vx) (vec_expr vy)
      in execute r (ph_work_group_size ph) swapOp m)"

definition scal ::
  "'t device_run \<Rightarrow> policy_handler \<Rightarrow> nat \<Rightarrow> 'v::{zero, times} \<Rightarrow> BufferIterator \<Rightarrow> int \<Rightarrow>
   'v mem \<Rightarrow> 'v mem" where
  "scal r ph N alpha x incx m =
     (let vx = make_vector_view x incx N
      in if alpha = 0 then
           (let zeroOp = UnaryOp AdditionIdentity (vec_expr vx);
                assignOp = Assign (vec_lval vx) zeroOp
            in execute r (ph_work_group_size ph) assignOp m)
         else
           (let scalOp = ScalarOp ProductOperator (Literal alpha) (vec_expr vx);
                assignOp = Assign (vec_lval vx) scalOp
            in execute r (ph_work_group_size ph) assignOp m))"

definition rot ::
  "'t device_run \<Rightarrow> policy_handler \<Rightarrow> nat \<Rightarrow> BufferIterator \<Rightarrow> int \<Rightarrow> BufferIterator \<Rightarrow> int \<Rightarrow>
   'v::{plus, times, uminus} \<Rightarrow> 'v \<Rightarrow> 'v mem \<Rightarrow> 'v mem" where
  "rot r ph N x incx y incy cs sn m =
     (let vx = make_vector_view x incx N;
          vy = make_vector_view y incy N;
          scalOp1 = ScalarOp ProductOperator (Literal cs) (vec_expr vx);
          scalOp2 = ScalarOp ProductOperator (Literal sn) (vec_expr vy);
          scalOp3 = ScalarOp ProductOperator (Literal (- sn)) (vec_expr vx);
          scalOp4 = ScalarOp ProductOperator (Literal cs) (vec_expr vy);
          addOp12 = BinaryOp AddOperator scalOp1 scalOp2;
          addOp34 = BinaryOp AddOperator scalOp3 scalOp4;
          doubleAssignView = DoubleAssign (vec_lval vx) (vec_lval vy) addOp12 addOp34
      in execute r (ph_work_group_size ph) doubleAssignView m)"

section \<open>Reductions\<close>

definition make_AssignReduction ::
  "('v \<Rightarrow> 'v \<Rightarrow> 'v) \<Rightarrow> 'v \<Rightarrow> VectorView \<Rightarrow> ('s, 'v) expr \<Rightarrow> nat \<Rightarrow> nat \<Rightarrow> ('s, 'v) AssignReduction" where
  "make_AssignReduction f i0 lhs rhs local_num_thread global_num_thread =
     \<lparr>ar_operator = f, ar_init = i0, ar_lhs = lhs, ar_rhs = rhs,
      ar_local_num_thread = local_num_thread, ar_global_num_thread = global_num_thread\<rparr>"

text \<open>A node over one memory, evaluated in that memory, as a node over another.\<close>

definition in_memory :: "'s \<Rightarrow> ('s, 'v) expr \<Rightarrow> ('u, 'v) expr" where
  "in_memory s e = \<lparr>ex_size = ex_size e, ex_eval = (\<lambda>_ i. ex_eval e s i), ex_bind = ex_bind e\<rparr>"

definition dot ::
  "(nat \<Rightarrow> 'v device_run) \<Rightarrow> policy_handler \<Rightarrow> 'v::{plus, times, zero, one, uminus, numeral} numeric_limits \<Rightarrow>
   nat \<times> nat \<Rightarrow> nat \<Rightarrow> BufferIterator \<Rightarrow> int \<Rightarrow> BufferIterator \<Rightarrow> int \<Rightarrow> BufferIterator \<Rightarrow> 'v mem \<Rightarrow> 'v mem" where
  "dot runs ph nl tmp N x incx y incy res m =
     (let vx = make_vector_view x incx N;
          vy = make_vector_view y incy N;
          rs = make_vector_view res 1 1;
          prdOp = BinaryOp ProductOperator (vec_expr vx) (vec_expr vy);
          localSize = ph_work_group_size ph;
          nWG = 2 * localSize;
          assignOp = make_AssignReduction AddOperator (AddOperator_init nl) rs prdOp localSize (localSize * nWG)
      in execute_AssignReduction runs (fst tmp) (snd tmp) assignOp m)"

definition asum ::
  "(nat \<Rightarrow> 'v device_run) \<Rightarrow> policy_handler \<Rightarrow> 'v::{plus, abs, zero, one, uminus, numeral} numeric_limits \<Rightarrow>
   nat \<times> nat \<Rightarrow> nat \<Rightarrow> BufferIterator \<Rightarrow> int \<Rightarrow> BufferIterator \<Rightarrow> 'v mem \<Rightarrow> 'v mem" where
  "asum runs ph nl tmp N x incx res m =
     (let vx = make_vector_view x incx N;
          rs = make_vector_view res 1 1;
          localSize = ph_work_group_size ph;
          nWG = 2 * localSize;
          assignOp = make_AssignReduction AbsoluteAddOperator (AbsoluteAddOperator_init nl) rs (vec_expr vx)
            localSize (localSize * nWG)
      in execute_AssignReduction runs (fst tmp) (snd tmp) assignOp m)"

definition iamax ::
  "(nat \<Rightarrow> 'v IndexValueTuple device_run) \<Rightarrow> policy_handler \<Rightarrow> nat \<Rightarrow>
   'v::{abs, ord, zero, one, uminus, numeral} numeric_limits \<Rightarrow> nat \<times> nat \<Rightarrow> nat \<Rightarrow>
   BufferIterator \<Rightarrow> int \<Rightarrow> BufferIterator \<Rightarrow> 'v mem \<Rightarrow> 'v IndexValueTuple mem \<Rightarrow> 'v IndexValueTuple mem" where
  "iamax runs ph index_max nl tmp N x incx res mx m =
     (let vx = make_vector_view x incx N;
          rs = make_vector_view res 1 1;
          localSize = ph_work_group_size ph;
          nWG = 2 * localSize;
          tupOp = TupleOp (in_memory mx (vec_expr vx));
          assignOp = make_AssignReduction IMaxOperator (IMaxOperator_init index_max nl) rs tupOp
            localSize (localSize * nWG)
      in execute_AssignReduction runs (fst tmp) (snd tmp) assignOp m)"

definition iamin ::
  "(nat \<Rightarrow> 'v IndexValueTuple device_run) \<Rightarrow> policy_handler \<Rightarrow> nat \<Rightarrow>
   'v::{abs, ord, zero, one, uminus, numeral} numeric_limits \<Rightarrow> nat \<times> nat \<Rightarrow> nat \<Rightarrow>
   BufferIterator \<Rightarrow> int \<Rightarrow> BufferIterator \<Rightarrow> 'v mem \<Rightarrow> 'v IndexValueTuple mem \<Rightarrow> 'v IndexValueTuple mem" where
  "iamin runs ph index_max nl tmp N x incx res mx m =
     (let vx = make_vector_view x incx N;
          rs = make_vector_view res 1 1;
          localSize = ph_work_group_size ph;
          nWG = 2 * localSize;
          tupOp = TupleOp (in_memory mx (vec_expr vx));
          assignOp = make_AssignReduction IMinOperator (IMinOperator_init index_max nl) rs tupOp
            localSize (localSize * nWG)
      in execute_AssignReduction runs (fst tmp) (snd tmp) assignOp m)"

text \<open>\<open>_nrm2\<close> reduces the squares and then replaces the result by its square root.\<close>

definition nrm2 ::
  "('v \<Rightarrow> 'v) \<Rightarrow> (nat \<Rightarrow> 'v device_run) \<Rightarrow> 'v device_run \<Rightarrow> policy_handler \<Rightarrow>
   'v::{plus, times, zero, one, uminus, numeral} numeric_limits \<Rightarrow>
   nat \<times> nat \<Rightarrow> nat \<Rightarrow> BufferIterator \<Rightarrow> int \<Rightarrow> BufferIterator \<Rightarrow> 'v mem \<Rightarrow> 'v mem" where
  "nrm2 sycl_sqrt runs run1 ph nl tmp N x incx res m =
     (let vx = make_vector_view x incx N;
          rs = make_vector_view res 1 1;
          prdOp = UnaryOp SquareOperator (vec_expr vx);
          localSize = ph_work_group_size ph;
          nWG = 2 * localSize;
          assignOp = make_AssignReduction AddOperator (AddOperator_init nl) rs prdOp localSize (localSize * nWG);
          m0 = execute_AssignReduction runs (fst tmp) (snd tmp) assignOp m;
          sqrtOp = UnaryOp (SqrtOperator sycl_sqrt) (vec_expr rs);
          assignOpFinal = Assign (vec_lval rs) sqrtOp
      in execute run1 (ph_work_group_size ph) assignOpFinal m0)"

section \<open>Operations that return a value\<close>

text \<open>They reduce into a fresh one-element buffer \<open>gpu\<close> and copy it to the host.\<close>

definition dot_return where
  "dot_return runs ph nl tmp gpu N x incx y incy m =
     (let gpu_res = make_sycl_iterator_buffer gpu 1;
          m' = dot runs ph nl tmp N x incx y incy gpu_res m
      in (copy_to_host gpu_res 1 m' ! 0, m'))"

definition asum_return where
  "asum_return runs ph nl tmp gpu N x incx m =
     (let gpu_res = make_sycl_iterator_buffer gpu 1;
          m' = asum runs ph nl tmp N x incx gpu_res m
      in (copy_to_host gpu_res 1 m' ! 0, m'))"

definition nrm2_return where
  "nrm2_return sycl_sqrt runs run1 ph nl tmp gpu N x incx m =
     (let gpu_res = make_sycl_iterator_buffer gpu 1;
          m' = nrm2 sycl_sqrt runs run1 ph nl tmp N x incx gpu_res m
      in (copy_to_host gpu_res 1 m' ! 0, m'))"

definition iamax_return where
  "iamax_return runs ph index_max nl tmp gpu N x incx mx m =
     (let gpu_res = make_sycl_iterator_buffer gpu 1;
          m' = iamax runs ph index_max nl tmp N x incx gpu_res mx m
      in (get_index (copy_to_host gpu_res 1 m' ! 0), m'))"

definition iamin_return where
  "iamin_return runs ph index_max nl tmp gpu N x incx mx m =
     (let gpu_res = make_sycl_iterator_buffer gpu 1;
          m' = iamin runs ph index_max nl tmp N x incx gpu_res mx m
      in (get_index (copy_to_host gpu_res 1 m' ! 0), m'))"

section \<open>The vectors of a call\<close>

text \<open>The cell of element \<open>i\<close> of a vector argument.\<close>

definition cell :: "BufferIterator \<Rightarrow> int \<Rightarrow> nat \<Rightarrow> nat \<Rightarrow> addr" where
  "cell it inc n i = (it_buffer it, it_offset it + blas_index n inc i)"

lemma vaddr_cell: "vector_fits it inc n \<Longrightarrow> vaddr (make_vector_view it inc n) i = cell it inc n i"
  by (simp add: vaddr_make_vector_view cell_def)

lemma vector_fits_wf: "vector_fits it inc n \<Longrightarrow> wf_vector_view (make_vector_view it inc n)"
  by (auto simp: vector_fits_def intro: make_vector_view_wf)

lemmas fits_simps = vector_fits_size vaddr_cell vector_fits_wf

text \<open>\<open>own_cells n X Y\<close>: vectors may be the same, or apart, but element \<open>i\<close> of one is not
  element \<open>j\<close> of the other for different \<open>i\<close> and \<open>j\<close>.\<close>

definition own_cells :: "nat \<Rightarrow> (nat \<Rightarrow> addr) \<Rightarrow> (nat \<Rightarrow> addr) \<Rightarrow> bool" where
  "own_cells n X Y \<longleftrightarrow> (\<forall>i < n. \<forall>j < n. i \<noteq> j \<longrightarrow> X i \<noteq> Y j)"

definition apart_cells :: "nat \<Rightarrow> (nat \<Rightarrow> addr) \<Rightarrow> (nat \<Rightarrow> addr) \<Rightarrow> bool" where
  "apart_cells n X Y \<longleftrightarrow> (\<forall>i < n. \<forall>j < n. X i \<noteq> Y j)"

lemma own_cells_self: "vector_fits it inc n \<Longrightarrow> own_cells n (cell it inc n) (cell it inc n)"
  by (auto simp: own_cells_def cell_def blas_index_def vector_fits_def)

lemma cell_inj: "vector_fits it inc n \<Longrightarrow> inj_on (cell it inc n) A"
  by (auto simp: inj_on_def cell_def blas_index_def vector_fits_def)

lemma footprint_cell: "vector_fits it inc n \<Longrightarrow> footprint (vec_expr (make_vector_view it inc n)) (\<lambda>i. {cell it inc n i})"
  by (simp add: footprint_def vaddr_cell)

lemma own_cellsD: "own_cells n X Y \<Longrightarrow> i < n \<Longrightarrow> j < n \<Longrightarrow> i \<noteq> j \<Longrightarrow> Y j \<noteq> X i"
  by (metis own_cells_def)

section \<open>A concrete call\<close>

text \<open>The arguments of the examples that follow the theorems: work-groups of two items, three
  buffers of eight elements.\<close>

definition sample_ph :: policy_handler where
  "sample_ph = make_policy_handler 2 ''host'' sycl_cpu True 1"

definition sample_it :: "nat \<Rightarrow> BufferIterator" where
  "sample_it b = make_sycl_iterator_buffer b 8"

definition sample_mem :: "int mem" where
  "sample_mem = (\<lambda>(b, k). if b = 1 then k - 1 else 10 * k)"

lemma sample_simps [simp]:
  "ph_work_group_size sample_ph = 2" "it_buffer (sample_it b) = b" "it_offset (sample_it b) = 0"
  "vector_fits (sample_it b) inc n \<longleftrightarrow> inc \<noteq> 0 \<and> (0 < n \<longrightarrow> (int n - 1) * \<bar>inc\<bar> < 8)"
  by (simp_all add: sample_ph_def make_policy_handler_def get_work_group_size_def sample_it_def
      make_sycl_iterator_buffer_def vector_fits_def)

lemma sample_pow2: "\<exists>p. ph_work_group_size sample_ph = 2 ^ p"
  by (rule exI [of _ 1]) simp

lemma sample_apart [simp]:
  "b \<noteq> c \<Longrightarrow> apart_cells n (cell (sample_it b) i n) (cell (sample_it c) j n)"
  "b \<noteq> c \<Longrightarrow> own_cells n (cell (sample_it b) i n) (cell (sample_it c) j n)"
  by (auto simp: apart_cells_def own_cells_def cell_def)

lemma less_cases:
  "i < (2 :: nat) \<longleftrightarrow> i = 0 \<or> i = 1" "i < (3 :: nat) \<longleftrightarrow> i = 0 \<or> i = 1 \<or> i = 2"
  "{..<2 :: nat} = {0, 1}" "{..<3 :: nat} = {0, 1, 2}" "{..<4 :: nat} = {0, 1, 2, 3}"
  by auto

lemma sample_cell [simp]: "cell (sample_it b) inc n i = (b, blas_index n inc i)"
  by (simp add: cell_def)

section \<open>Element-wise operations are correct\<close>

text \<open>The common part: an assignment to a fitting vector from a tree of the same size.\<close>

lemma assign_to_vector:
  fixes rhs :: "('v mem, 'v) expr"
  assumes "is_run r" "0 < L" and y: "vector_fits y incy n" and sz: "ex_size rhs = n"
    and fp: "footprint rhs F"
    and own: "\<And>i j. i < n \<Longrightarrow> j < n \<Longrightarrow> i \<noteq> j \<Longrightarrow> cell y incy n j \<notin> F i"
  shows "(\<forall>i < n. execute r L (Assign (vec_lval (make_vector_view y incy n)) rhs) m (cell y incy n i)
            = ex_eval rhs m i) \<and>
         (\<forall>c. c \<notin> cell y incy n ` {..<n} \<longrightarrow>
            execute r L (Assign (vec_lval (make_vector_view y incy n)) rhs) m c = m c)"
proof -
  let ?v = "make_vector_view y incy n"
  note fits = fits_simps [OF y]
  have img: "vaddr ?v ` {..<n} = cell y incy n ` {..<n}" by (simp add: fits)
  have sz': "ex_size rhs \<le> vv_size ?v" by (simp add: fits sz)
  have lv: "lv_addr (vec_lval ?v) = vaddr ?v" by simp
  have own': "vaddr ?v j \<notin> F i" if "i < ex_size rhs" "j < ex_size rhs" "i \<noteq> j" for i j
    using own that by (simp add: fits sz)
  note run = vec.assign_correct [OF fits(3) assms(1,2) sz' lv fp own']
  show ?thesis using run [unfolded sz img] by (auto simp: execute_def fits)
qed

text \<open>C35: \<open>_axpy\<close> stores \<open>y + alpha * x\<close> in every element of \<open>y\<close> and changes nothing else,
  however the device orders the work-items and whatever the signs of the increments.\<close>

theorem axpy_correct:
  fixes alpha :: "'v::{plus, times}"
  assumes "is_run r" "0 < ph_work_group_size ph"
    and "vector_fits x incx n" "vector_fits y incy n"
    and "own_cells n (cell x incx n) (cell y incy n)"
  shows "(\<forall>i < n. axpy r ph n alpha x incx y incy m (cell y incy n i)
            = m (cell y incy n i) + alpha * m (cell x incx n i)) \<and>
         (\<forall>c. c \<notin> cell y incy n ` {..<n} \<longrightarrow> axpy r ph n alpha x incx y incy m c = m c)"
proof -
  let ?rhs = "BinaryOp AddOperator (vec_expr (make_vector_view y incy n))
    (ScalarOp ProductOperator (Literal alpha) (vec_expr (make_vector_view x incx n)))"
  have fp: "footprint ?rhs (\<lambda>i. {cell y incy n i} \<union> {cell x incx n i})"
    using assms(3,4) by (intro footprint_BinaryOp footprint_ScalarOp footprint_cell)
  have sz: "ex_size ?rhs = n" using assms by (simp add: fits_simps)
  have own: "cell y incy n j \<notin> {cell y incy n i} \<union> {cell x incx n i}" if "i < n" "j < n" "i \<noteq> j" for i j
    using own_cellsD [OF assms(5) that] own_cellsD [OF own_cells_self [OF assms(4)] that] by auto
  from assign_to_vector [OF assms(1,2,4) sz fp own, of m] show ?thesis
    using assms(3,4) by (simp add: axpy_def Let_def fits_simps AddOperator_def ProductOperator_def)
qed

lemma axpy_correct_witness:
  "axpy (seq_run ()) sample_ph 2 3 (sample_it 1) 1 (sample_it 2) (- 1) sample_mem (2, 1) = 7 \<and>
   axpy (seq_run ()) sample_ph 2 3 (sample_it 1) 1 (sample_it 2) (- 1) sample_mem (2, 0) = 0 \<and>
   axpy (seq_run ()) sample_ph 2 3 (sample_it 1) 1 (sample_it 2) (- 1) sample_mem (2, 2) = 20"
proof -
  note * = axpy_correct [of "seq_run ()" sample_ph "sample_it 1" 1 2 "sample_it 2" "- 1" 3 sample_mem]
  have "cell (sample_it 2) (- 1) 2 0 = (2, 1)" "cell (sample_it 2) (- 1) 2 1 = (2, 0)"
    "(2, 2) \<notin> cell (sample_it 2) (- 1) 2 ` {..<2}"
    by (auto simp: blas_index_def)
  then show ?thesis using * by (auto simp: sample_mem_def blas_index_def numeral_2_eq_2 All_less_Suc)
qed

text \<open>\<open>_copy\<close> copies, also onto the vector itself.\<close>

theorem copy_correct:
  fixes m :: "'v mem"
  assumes "is_run r" "0 < ph_work_group_size ph"
    and "vector_fits x incx n" "vector_fits y incy n"
    and "own_cells n (cell x incx n) (cell y incy n)"
  shows "(\<forall>i < n. copy r ph n x incx y incy m (cell y incy n i) = m (cell x incx n i)) \<and>
         (\<forall>c. c \<notin> cell y incy n ` {..<n} \<longrightarrow> copy r ph n x incx y incy m c = m c)"
proof -
  let ?rhs = "vec_expr (make_vector_view x incx n) :: ('v mem, 'v) expr"
  have fp: "footprint ?rhs (\<lambda>i. {cell x incx n i})"
    using assms(3) by (rule footprint_cell)
  have sz: "ex_size ?rhs = n" using assms by (simp add: fits_simps)
  have own: "cell y incy n j \<notin> {cell x incx n i}" if "i < n" "j < n" "i \<noteq> j" for i j
    using own_cellsD [OF assms(5) that] by auto
  from assign_to_vector [OF assms(1,2,4) sz fp own, of m] show ?thesis
    using assms(3) by (simp add: copy_def Let_def fits_simps)
qed

lemma copy_correct_witness:
  "copy (seq_run ()) sample_ph 3 (sample_it 1) 2 (sample_it 2) 1 sample_mem (2, 1) = 1 \<and>
   copy (seq_run ()) sample_ph 3 (sample_it 1) 2 (sample_it 2) 1 sample_mem (2, 3) = 30"
  using copy_correct [of "seq_run ()" sample_ph "sample_it 1" 2 3 "sample_it 2" 1 sample_mem]
  by (auto simp: sample_mem_def blas_index_def less_cases)

text \<open>\<open>_scal\<close> multiplies every element by \<open>alpha\<close>. With \<open>alpha = 0\<close> it stores zero without
  multiplying, which is what a multiplication would store where \<open>0 * x = 0\<close>.\<close>

theorem scal_correct:
  fixes alpha :: "'v::mult_zero"
  assumes "is_run r" "0 < ph_work_group_size ph" "vector_fits x incx n"
  shows "(\<forall>i < n. scal r ph n alpha x incx m (cell x incx n i) = alpha * m (cell x incx n i)) \<and>
         (\<forall>c. c \<notin> cell x incx n ` {..<n} \<longrightarrow> scal r ph n alpha x incx m c = m c)"
proof -
  let ?x = "vec_expr (make_vector_view x incx n) :: ('v mem, 'v) expr"
  let ?zero = "UnaryOp AdditionIdentity ?x" and ?mul = "ScalarOp ProductOperator (Literal alpha) ?x"
  have fp: "footprint ?zero (\<lambda>i. {cell x incx n i})" "footprint ?mul (\<lambda>i. {cell x incx n i})"
    by (intro footprint_UnaryOp footprint_ScalarOp footprint_cell [OF assms(3)])+
  have "ex_size ?zero = n" "ex_size ?mul = n" using assms by (simp_all add: fits_simps)
  note zero = assign_to_vector [OF assms(1-3) this(1) fp(1), where m = m]
    and mul = assign_to_vector [OF assms(1-3) this(2) fp(2), where m = m]
  have own: "cell x incx n j \<notin> {cell x incx n i}" if "i < n" "j < n" "i \<noteq> j" for i j
    using own_cells_self [OF assms(3)] that by (auto simp: own_cells_def)
  show ?thesis
  proof (cases "alpha = 0")
    case True
    then show ?thesis using zero [OF own] assms(3)
      by (simp add: scal_def Let_def AdditionIdentity_def)
  next
    case False
    then show ?thesis using mul [OF own] assms(3)
      by (simp add: scal_def Let_def ProductOperator_def fits_simps)
  qed
qed

lemma scal_correct_witness:
  "scal (seq_run ()) sample_ph 3 5 (sample_it 1) 2 sample_mem (1, 4) = 15 \<and>
   scal (seq_run ()) sample_ph 3 0 (sample_it 1) 2 sample_mem (1, 4) = 0 \<and>
   scal (seq_run ()) sample_ph 3 0 (sample_it 1) 2 sample_mem (1, 3) = 2"
  using scal_correct [of "seq_run ()" sample_ph "sample_it 1" 2 3 5 sample_mem]
    scal_correct [of "seq_run ()" sample_ph "sample_it 1" 2 3 0 sample_mem]
  by (auto simp: sample_mem_def blas_index_def less_cases)

text \<open>The common part of the two operations that write two vectors.\<close>

lemma assign_to_vectors:
  fixes rhs_1 rhs_2 :: "('v mem, 'v) expr"
  assumes "is_run r" "0 < L" and x: "vector_fits x incx n" and y: "vector_fits y incy n"
    and sz: "ex_size rhs_2 = n" and apart: "apart_cells n (cell x incx n) (cell y incy n)"
    and fp: "footprint rhs_1 (\<lambda>i. {cell x incx n i, cell y incy n i})"
      "footprint rhs_2 (\<lambda>i. {cell x incx n i, cell y incy n i})"
  defines "go \<equiv> execute r L (DoubleAssign (vec_lval (make_vector_view x incx n))
      (vec_lval (make_vector_view y incy n)) rhs_1 rhs_2)"
  shows "\<forall>i < n. go m (cell x incx n i) = ex_eval rhs_1 m i"
    and "\<forall>i < n. go m (cell y incy n i) = ex_eval rhs_2 m i"
    and "\<forall>c. c \<notin> cell x incx n ` {..<n} \<union> cell y incy n ` {..<n} \<longrightarrow> go m c = m c"
proof -
  let ?vx = "make_vector_view x incx n" and ?vy = "make_vector_view y incy n"
  have addr: "lv_addr (vec_lval ?vx) = cell x incx n" "lv_addr (vec_lval ?vy) = cell y incy n"
    using x y by (auto simp: fits_simps)
  note self = own_cells_self [OF x] own_cells_self [OF y]
  have dis: "{cell x incx n i, cell y incy n i} \<inter> {cell x incx n j, cell y incy n j} = {}"
    if "i < n" "j < n" "i \<noteq> j" for i j
    using own_cellsD [OF self(1) that] own_cellsD [OF self(2) that] apart that
    unfolding apart_cells_def by fastforce
  have ind: "independent n (\<lambda>i. {cell x incx n i, cell y incy n i}) rhs_1"
    "independent n (\<lambda>i. {cell x incx n i, cell y incy n i}) rhs_2"
    using fp dis by (auto intro: footprint_independent)
  have ap: "cell x incx n i \<noteq> cell y incy n j" if "i < n" "j < n" for i j
    using apart that by (auto simp: apart_cells_def)
  note run = execute_DoubleAssign [OF assms(1,2) sz [symmetric], of "vec_lval ?vx" "vec_lval ?vy" rhs_1,
      unfolded addr, OF cell_inj [OF x] cell_inj [OF y] ap ind]
  show "\<forall>i < n. go m (cell x incx n i) = ex_eval rhs_1 m i"
    "\<forall>i < n. go m (cell y incy n i) = ex_eval rhs_2 m i"
    "\<forall>c. c \<notin> cell x incx n ` {..<n} \<union> cell y incy n ` {..<n} \<longrightarrow> go m c = m c"
    using run by (auto simp: go_def execute_def)
qed

lemma apart_sym: "apart_cells n X Y \<Longrightarrow> apart_cells n Y X"
  by (metis apart_cells_def)

lemma footprint_two:
  assumes "vector_fits x incx n" "vector_fits y incy n"
  shows "footprint (vec_expr (make_vector_view x incx n)) (\<lambda>i. {cell x incx n i, cell y incy n i})"
    and "footprint (vec_expr (make_vector_view y incy n)) (\<lambda>i. {cell x incx n i, cell y incy n i})"
  using assms by (auto intro: footprint_mono [OF footprint_cell])

text \<open>\<open>_swap\<close> exchanges two vectors that do not overlap.\<close>

theorem swap_correct:
  fixes m :: "'v mem"
  assumes "is_run r" "0 < ph_work_group_size ph"
    and "vector_fits x incx n" "vector_fits y incy n"
    and "apart_cells n (cell x incx n) (cell y incy n)"
  shows "(\<forall>i < n. swap r ph n x incx y incy m (cell y incy n i) = m (cell x incx n i) \<and>
                   swap r ph n x incx y incy m (cell x incx n i) = m (cell y incy n i)) \<and>
         (\<forall>c. c \<notin> cell x incx n ` {..<n} \<union> cell y incy n ` {..<n} \<longrightarrow>
            swap r ph n x incx y incy m c = m c)"
proof -
  have sz: "ex_size (vec_expr (make_vector_view y incy n) :: ('v mem, 'v) expr) = n"
    using assms by (simp add: fits_simps)
  note fp = footprint_two [OF assms(4,3)]
  note run = assign_to_vectors [OF assms(1,2,4,3) sz apart_sym [OF assms(5)] fp(2,1), of m]
  show ?thesis
    using run assms(3,4) unfolding swap_def Let_def by (auto simp: fits_simps)
qed

lemma swap_correct_witness:
  "swap (seq_run ()) sample_ph 2 (sample_it 1) 1 (sample_it 2) 3 sample_mem (2, 3) = 0 \<and>
   swap (seq_run ()) sample_ph 2 (sample_it 1) 1 (sample_it 2) 3 sample_mem (1, 1) = 30"
  using swap_correct [of "seq_run ()" sample_ph "sample_it 1" 1 2 "sample_it 2" 3 sample_mem]
  by (auto simp: sample_mem_def blas_index_def less_cases)

text \<open>C36: \<open>_rot\<close> applies the plane rotation to every pair of elements, each new value computed
  from the two old ones.\<close>

theorem rot_correct:
  fixes cs sn :: "'v::ring" and m :: "'v mem"
  assumes "is_run r" "0 < ph_work_group_size ph"
    and "vector_fits x incx n" "vector_fits y incy n"
    and "apart_cells n (cell x incx n) (cell y incy n)"
  shows "(\<forall>i < n. rot r ph n x incx y incy cs sn m (cell x incx n i)
                     = cs * m (cell x incx n i) + sn * m (cell y incy n i) \<and>
                   rot r ph n x incx y incy cs sn m (cell y incy n i)
                     = cs * m (cell y incy n i) - sn * m (cell x incx n i)) \<and>
         (\<forall>c. c \<notin> cell x incx n ` {..<n} \<union> cell y incy n ` {..<n} \<longrightarrow>
            rot r ph n x incx y incy cs sn m c = m c)"
proof -
  let ?vx = "vec_expr (make_vector_view x incx n) :: ('v mem, 'v) expr"
  let ?vy = "vec_expr (make_vector_view y incy n) :: ('v mem, 'v) expr"
  let ?e = "\<lambda>a b. BinaryOp AddOperator (ScalarOp ProductOperator (Literal a) ?vx)
    (ScalarOp ProductOperator (Literal b) ?vy)"
  have sz: "ex_size (?e a b) = n" for a b using assms by (simp add: fits_simps)
  have fp: "footprint (?e a b) (\<lambda>i. {cell x incx n i, cell y incy n i})" for a b
    by (rule footprint_mono [OF footprint_BinaryOp [OF footprint_ScalarOp [OF footprint_two(1) [OF assms(3,4)]]
          footprint_ScalarOp [OF footprint_two(2) [OF assms(3,4)]]]]) auto
  note run = assign_to_vectors [OF assms(1-4) sz assms(5) fp fp, where m = m]
  show ?thesis
    using run assms(3,4) unfolding rot_def Let_def
    by (auto simp: fits_simps AddOperator_def ProductOperator_def algebra_simps)
qed

lemma rot_correct_witness:
  "rot (seq_run ()) sample_ph 2 (sample_it 1) 1 (sample_it 2) 1 3 4 sample_mem (1, 1) = 40 \<and>
   rot (seq_run ()) sample_ph 2 (sample_it 1) 1 (sample_it 2) 1 3 4 sample_mem (2, 0) = 4"
  using rot_correct [of "seq_run ()" sample_ph "sample_it 1" 1 2 "sample_it 2" 1 3 4 sample_mem]
  by (auto simp: sample_mem_def blas_index_def less_cases)

section \<open>Reductions are correct\<close>

lemma constant_zero: "AddOperator_init nl = 0" "AbsoluteAddOperator_init nl = 0"
  by (simp_all add: AddOperator_init_def AbsoluteAddOperator_init_def)

text \<open>A work-group size that is a power of two gives a good launch: as many groups as items.\<close>

lemma interface_launch:
  assumes "\<exists>p. L = 2 ^ p"
  shows "good_launch (ar_local_num_thread (make_AssignReduction f i0 lhs rhs L (L * (2 * L))))
    (reduction_groups (make_AssignReduction f i0 lhs rhs L (L * (2 * L))))"
proof -
  have L: "0 < L" using assms by auto
  have "cdiv (L * (2 * L)) (2 * L) = L"
    using L by (intro antisym) (simp_all add: cdiv_le_iff, metis cdiv_covers mult_pos_pos
      nat_0_less_mult_iff mult_le_cancel2 zero_less_numeral)
  then show ?thesis using assms by (simp add: good_launch_def reduction_groups_def make_AssignReduction_def)
qed

lemma result_view:
  assumes "vector_fits res 1 1"
  shows "vaddr (make_vector_view res 1 1) 0 = (it_buffer res, it_offset res)"
  using vaddr_cell [OF assms, of 0] by (simp add: cell_def blas_index_def)

definition result_cell :: "BufferIterator \<Rightarrow> addr" where
  "result_cell res = (it_buffer res, it_offset res)"

text \<open>The result does not lie in a vector argument, and the temporaries are fresh.\<close>

definition fresh_for :: "nat \<Rightarrow> BufferIterator \<Rightarrow> (nat \<Rightarrow> addr) \<Rightarrow> nat \<Rightarrow> bool" where
  "fresh_for b res X n \<longleftrightarrow>
     b \<noteq> it_buffer res \<and> (\<forall>i < n. X i \<noteq> result_cell res \<and> fst (X i) \<noteq> b)"

context reduction_op
begin

lemma interface_reduction:
  assumes "\<And>k. is_run (runs k)" "\<exists>p. L = 2 ^ p" "vector_fits res 1 1"
    and "b \<noteq> it_buffer res"
    and "footprint rhs F" "\<And>i. i < ex_size rhs \<Longrightarrow> F i \<inter> insert (result_cell res) ({b} \<times> UNIV) = {}"
    and "\<And>i. i < ex_size rhs \<Longrightarrow> ex_eval rhs m i \<in> A"
  shows "execute_AssignReduction runs b b2
           (make_AssignReduction f init (make_vector_view res 1 1) rhs L (L * (2 * L))) m (result_cell res)
           = red f init (map (ex_eval rhs m) [0..<ex_size rhs]) \<and>
         (\<forall>c. c \<noteq> result_cell res \<longrightarrow> fst c \<noteq> b \<longrightarrow>
            execute_AssignReduction runs b b2
              (make_AssignReduction f init (make_vector_view res 1 1) rhs L (L * (2 * L))) m c = m c)"
proof -
  let ?t = "make_AssignReduction f init (make_vector_view res 1 1) rhs L (L * (2 * L))"
  have t: "ar_operator ?t = f" "ar_init ?t = init" "ar_rhs ?t = rhs" "ar_lhs ?t = make_vector_view res 1 1"
    by (simp_all add: make_AssignReduction_def)
  have cell: "vaddr (ar_lhs ?t) 0 = result_cell res"
    unfolding t result_cell_def by (rule result_view [OF assms(3)])
  have dep: "depends_only_outside (insert (vaddr (ar_lhs ?t) 0) ({b} \<times> UNIV)) (ar_rhs ?t)"
    by (simp only: cell t(3)) (rule footprint_depends [OF assms(5,6)])
  have apart: "fst (vaddr (ar_lhs ?t) 0) \<noteq> b" unfolding cell using assms(4) by (simp add: result_cell_def)
  show ?thesis
    using execute_reduction [where runs = runs, OF assms(1) interface_launch [OF assms(2)] t(1,2) apart dep] assms(7)
    by (simp only: cell t(3)) blast
qed

end

lemma sum_list_upt: "sum_list (map f [0..<n]) = (\<Sum>i<n. f i)"
  by (simp add: interv_sum_list_conv_sum_set_nat atLeast0LessThan)

lemma fresh_disjoint:
  "fresh_for b res X n \<Longrightarrow> i < n \<Longrightarrow> {X i} \<inter> insert (result_cell res) ({b} \<times> UNIV) = {}"
  by (auto simp: fresh_for_def mem_Times_iff)

text \<open>C19: \<open>_dot\<close> leaves the inner product in the result cell, for every order in which the
  device runs items and groups in its two launches and whatever local memory held.\<close>

theorem dot_correct:
  fixes m :: "'v::comm_ring_1 mem"
  assumes "\<And>k. is_run (runs k)" "\<exists>p. ph_work_group_size ph = 2 ^ p"
    and "vector_fits x incx n" "vector_fits y incy n" "vector_fits res 1 1"
    and "fresh_for (fst tmp) res (cell x incx n) n" "fresh_for (fst tmp) res (cell y incy n) n"
  shows "dot runs ph nl tmp n x incx y incy res m (result_cell res)
           = (\<Sum>i<n. m (cell x incx n i) * m (cell y incy n i)) \<and>
         (\<forall>c. c \<noteq> result_cell res \<longrightarrow> fst c \<noteq> fst tmp \<longrightarrow> dot runs ph nl tmp n x incx y incy res m c = m c)"
proof -
  let ?rhs = "BinaryOp ProductOperator (vec_expr (make_vector_view x incx n))
    (vec_expr (make_vector_view y incy n)) :: ('v mem, 'v) expr"
  have fp: "footprint ?rhs (\<lambda>i. {cell x incx n i} \<union> {cell y incy n i})"
    by (intro footprint_BinaryOp footprint_cell assms(3,4))
  have sz: "ex_size ?rhs = n" using assms by (simp add: fits_simps)
  have dis: "({cell x incx n i} \<union> {cell y incy n i}) \<inter> insert (result_cell res) ({fst tmp} \<times> UNIV) = {}"
    if "i < ex_size ?rhs" for i
    using fresh_disjoint [OF assms(6)] fresh_disjoint [OF assms(7)] that sz by (simp add: Int_Un_distrib2)
  have "fst tmp \<noteq> it_buffer res" using assms(6) by (simp add: fresh_for_def)
  note run = add_red.interface_reduction [where runs = runs and m = m, OF assms(1,2,5) this fp dis]
  show ?thesis
    using run assms(3,4) unfolding dot_def Let_def constant_zero
    by (simp add: sz red_AddOperator sum_list_upt fits_simps ProductOperator_def cong: map_cong)
qed

lemma dot_correct_witness:
  "dot (\<lambda>_. seq_run 0) sample_ph \<lparr>nl_min = 0, nl_max = 0\<rparr> (7, 8) 3 (sample_it 1) 1 (sample_it 2) 1
     (sample_it 3) sample_mem (3, 0) = 20"
  using dot_correct [of "\<lambda>_. seq_run 0" sample_ph "sample_it 1" 1 3 "sample_it 2" 1 "sample_it 3" "(7, 8)"
      "\<lparr>nl_min = 0, nl_max = 0\<rparr>" sample_mem, OF is_run_seq sample_pow2]
  by (simp add: fresh_for_def result_cell_def sample_mem_def blas_index_def less_cases)

text \<open>\<open>_asum\<close> leaves the sum of the absolute values.\<close>

theorem asum_correct:
  fixes m :: "'v::linordered_idom mem"
  assumes "\<And>k. is_run (runs k)" "\<exists>p. ph_work_group_size ph = 2 ^ p"
    and "vector_fits x incx n" "vector_fits res 1 1"
    and "fresh_for (fst tmp) res (cell x incx n) n"
  shows "asum runs ph nl tmp n x incx res m (result_cell res) = (\<Sum>i<n. \<bar>m (cell x incx n i)\<bar>) \<and>
         (\<forall>c. c \<noteq> result_cell res \<longrightarrow> fst c \<noteq> fst tmp \<longrightarrow> asum runs ph nl tmp n x incx res m c = m c)"
proof -
  let ?rhs = "vec_expr (make_vector_view x incx n) :: ('v mem, 'v) expr"
  have fp: "footprint ?rhs (\<lambda>i. {cell x incx n i})" by (rule footprint_cell [OF assms(3)])
  have sz: "ex_size ?rhs = n" using assms by (simp add: fits_simps)
  have dis: "{cell x incx n i} \<inter> insert (result_cell res) ({fst tmp} \<times> UNIV) = {}"
    if "i < ex_size ?rhs" for i
    using fresh_disjoint [OF assms(5)] that unfolding sz .
  have "fst tmp \<noteq> it_buffer res" using assms(5) by (simp add: fresh_for_def)
  note run = abs_add_red.interface_reduction [where runs = runs and m = m, OF assms(1,2,4) this fp dis]
  show ?thesis
    using run assms(3) unfolding asum_def Let_def constant_zero
    by (simp add: sz red_AbsoluteAdd sum_list_upt fits_simps comp_def)
qed

lemma asum_correct_witness:
  "asum (\<lambda>_. seq_run 0) sample_ph \<lparr>nl_min = 0, nl_max = 0\<rparr> (7, 8) 3 (sample_it 1) 1
     (sample_it 3) sample_mem (3, 0) = 2"
  using asum_correct [of "\<lambda>_. seq_run 0" sample_ph "sample_it 1" 1 3 "sample_it 3" "(7, 8)"
      "\<lparr>nl_min = 0, nl_max = 0\<rparr>" sample_mem, OF is_run_seq sample_pow2]
  by (simp add: fresh_for_def result_cell_def sample_mem_def blas_index_def less_cases)

text \<open>\<open>_nrm2\<close> leaves the square root (of whatever \<open>sycl::sqrt\<close> computes) of the sum of the
  squares.\<close>

theorem nrm2_correct:
  fixes m :: "'v::comm_ring_1 mem"
  assumes "\<And>k. is_run (runs k)" "is_run run1" "\<exists>p. ph_work_group_size ph = 2 ^ p"
    and "vector_fits x incx n" "vector_fits res 1 1"
    and "fresh_for (fst tmp) res (cell x incx n) n"
  shows "nrm2 sycl_sqrt runs run1 ph nl tmp n x incx res m (result_cell res)
           = sycl_sqrt (\<Sum>i<n. (m (cell x incx n i))\<^sup>2) \<and>
         (\<forall>c. c \<noteq> result_cell res \<longrightarrow> fst c \<noteq> fst tmp \<longrightarrow>
            nrm2 sycl_sqrt runs run1 ph nl tmp n x incx res m c = m c)"
proof -
  let ?rhs = "UnaryOp SquareOperator (vec_expr (make_vector_view x incx n)) :: ('v mem, 'v) expr"
  let ?rs = "make_vector_view res 1 1"
  have fp: "footprint ?rhs (\<lambda>i. {cell x incx n i})" by (intro footprint_UnaryOp footprint_cell [OF assms(4)])
  have sz: "ex_size ?rhs = n" using assms by (simp add: fits_simps)
  have dis: "{cell x incx n i} \<inter> insert (result_cell res) ({fst tmp} \<times> UNIV) = {}"
    if "i < ex_size ?rhs" for i
    using fresh_disjoint [OF assms(6)] that unfolding sz .
  have b: "fst tmp \<noteq> it_buffer res" using assms(6) by (simp add: fresh_for_def)
  define m0 where "m0 = execute_AssignReduction runs (fst tmp) (snd tmp)
    (make_AssignReduction AddOperator 0 ?rs ?rhs (ph_work_group_size ph)
      (ph_work_group_size ph * (2 * ph_work_group_size ph))) m"
  note run = add_red.interface_reduction [where runs = runs and m = m, OF assms(1,3,5) b fp dis]
  have m0: "m0 (result_cell res) = (\<Sum>i<n. (m (cell x incx n i))\<^sup>2)"
    "\<And>c. c \<noteq> result_cell res \<Longrightarrow> fst c \<noteq> fst tmp \<Longrightarrow> m0 c = m c"
    subgoal using run assms(4) unfolding m0_def
      by (simp add: sz red_AddOperator sum_list_upt fits_simps SquareOperator_def power2_eq_square)
    subgoal using run unfolding m0_def by blast
    done
  let ?sq = "UnaryOp (SqrtOperator sycl_sqrt) (vec_expr ?rs) :: ('v mem, 'v) expr"
  have fp2: "footprint ?sq (\<lambda>i. {cell res 1 1 i})" by (intro footprint_UnaryOp footprint_cell [OF assms(5)])
  have sz2: "ex_size ?sq = 1" using assms(5) by (simp add: fits_simps)
  have L: "0 < ph_work_group_size ph" using assms(3) by auto
  have rc: "cell res 1 1 0 = result_cell res" by (simp add: cell_def result_cell_def blas_index_def)
  have own: "cell res 1 1 j \<notin> {cell res 1 1 i}" if "i < 1" "j < 1" "i \<noteq> j" for i j :: nat
    using that by simp
  note last = assign_to_vector [OF assms(2) L assms(5) sz2 fp2 own, of m0]
  have eq: "nrm2 sycl_sqrt runs run1 ph nl tmp n x incx res m
      = execute run1 (ph_work_group_size ph) (Assign (vec_lval ?rs) ?sq) m0"
    by (simp add: nrm2_def Let_def constant_zero m0_def)
  show ?thesis
    using last m0 unfolding eq 
    by (simp add: rc [unfolded One_nat_def] vaddr_cell [OF assms(5), unfolded One_nat_def] SqrtOperator_def
        lessThan_Suc)
qed

lemma nrm2_correct_witness:
  "nrm2 (\<lambda>x. x div 2) (\<lambda>_. seq_run 0) (seq_run 0) sample_ph \<lparr>nl_min = 0, nl_max = 0\<rparr> (7, 8) 4
     (sample_it 1) 1 (sample_it 3) sample_mem (3, 0) = 3"
  using nrm2_correct [of "\<lambda>_. seq_run 0" "seq_run 0" sample_ph "sample_it 1" 1 4 "sample_it 3" "(7, 8)"
      "\<lambda>x. x div 2" "\<lparr>nl_min = 0, nl_max = 0\<rparr>" sample_mem, OF is_run_seq is_run_seq sample_pow2]
  by (simp add: fresh_for_def result_cell_def sample_mem_def blas_index_def less_cases)

text \<open>The tuples of a vector.\<close>

lemma tuple_tree:
  fixes mx :: "'v mem"
  assumes "vector_fits x incx n"
  defines "e \<equiv> TupleOp (in_memory mx (vec_expr (make_vector_view x incx n)))
    :: ('v IndexValueTuple mem, 'v IndexValueTuple) expr"
  shows "footprint e (\<lambda>_. {})" "ex_size e = n"
    and "ex_eval e m i = \<lparr>ind = i, val = mx (cell x incx n i)\<rparr>"
  using assms(1) by (simp_all add: footprint_def in_memory_def e_def fits_simps)

lemma imax_init: "IMaxOperator_init index_max nl = \<lparr>ind = index_max, val = 0\<rparr>"
  by (simp add: IMaxOperator_init_def constant_pair_def)

lemma imin_init: "IMinOperator_init index_max nl = \<lparr>ind = index_max, val = nl_max nl\<rparr>"
  by (simp add: IMinOperator_init_def constant_pair_def)

text \<open>C20: \<open>_iamax\<close> leaves the smallest index at which the absolute value is largest, together
  with the element there, for a non-empty vector whose indices are below the maximum of the
  index type (which is the neutral element's index).\<close>

theorem iamax_correct:
  fixes mx :: "'v::linordered_idom mem"
  assumes "\<And>k. is_run (runs k)" "\<exists>p. ph_work_group_size ph = 2 ^ p"
    and "vector_fits x incx n" "vector_fits res 1 1" "fst tmp \<noteq> it_buffer res"
    and "0 < n" "n \<le> index_max"
  shows "\<exists>i < n. iamax runs ph index_max nl tmp n x incx res mx m (result_cell res)
              = \<lparr>ind = i, val = mx (cell x incx n i)\<rparr> \<and>
            (\<forall>j < n. \<bar>mx (cell x incx n j)\<bar> \<le> \<bar>mx (cell x incx n i)\<bar>) \<and>
            (\<forall>j < i. \<bar>mx (cell x incx n j)\<bar> < \<bar>mx (cell x incx n i)\<bar>)"
proof -
  define xs where "xs = (\<lambda>i. mx (cell x incx n i))"
  define t0 :: "'v IndexValueTuple" where "t0 = \<lparr>ind = index_max, val = 0\<rparr>"
  define rhs where "rhs = (TupleOp (in_memory mx (vec_expr (make_vector_view x incx n)))
    :: ('v IndexValueTuple mem, 'v IndexValueTuple) expr)"
  note tree = tuple_tree [OF assms(3), of mx, folded rhs_def]
  define ts where "ts = map (\<lambda>i. \<lparr>ind = i, val = xs i\<rparr>) [0..<n]"
  have ev: "ex_eval rhs m = (\<lambda>i. \<lparr>ind = i, val = mx (cell x incx n i)\<rparr>)" by (rule ext) (rule tree(3))
  have inA: "ex_eval rhs m i \<in> tuples_of xs t0" if "i < ex_size rhs" for i
    using tuples_of_elem [of i t0 xs] that assms(7) by (simp add: tree xs_def t0_def)
  have res: "iamax runs ph index_max nl tmp n x incx res mx m (result_cell res) = red IMaxOperator t0 ts"
    using imax_red.interface_reduction [where runs = runs and m = m and v = xs,
        OF assms(1,2,4,5) tree(1) _ inA]
    by (simp add: iamax_def Let_def imax_init rhs_def [symmetric] tree(2) ev ts_def xs_def t0_def)
  let ?r = "red IMaxOperator t0 ts"
  have best: "?r \<in> set (t0 # ts)" "\<And>t. t \<in> set (t0 # ts) \<Longrightarrow> imax_le ?r t"
    using red_IMaxOperator [of t0 ts] by auto
  have first: "\<lparr>ind = i, val = xs i\<rparr> \<in> set (t0 # ts)" if "i < n" for i using that by (simp add: ts_def)
  have "?r \<noteq> t0"
    using best(2) [OF first [OF assms(6)]] assms(6,7) by (auto simp: imax_le_def t0_def)
  then obtain i where i: "i < n" "?r = \<lparr>ind = i, val = xs i\<rparr>"
    using best(1) by (auto simp: ts_def)
  have le: "imax_le \<lparr>ind = i, val = xs i\<rparr> \<lparr>ind = j, val = xs j\<rparr>" if "j < n" for j
    using best(2) [OF first [OF that]] i(2) by simp
  then have "\<forall>j < n. \<bar>xs j\<bar> \<le> \<bar>xs i\<bar>" "\<forall>j < i. \<bar>xs j\<bar> < \<bar>xs i\<bar>"
  proof -
    show "\<forall>j < n. \<bar>xs j\<bar> \<le> \<bar>xs i\<bar>" using le by (fastforce simp: imax_le_def)
    show "\<forall>j < i. \<bar>xs j\<bar> < \<bar>xs i\<bar>"
    proof (intro allI impI)
      fix j assume "j < i"
      then show "\<bar>xs j\<bar> < \<bar>xs i\<bar>" using le [of j] i(1) by (auto simp: imax_le_def)
    qed
  qed
  then show ?thesis using i res by (auto simp: xs_def)
qed

lemma iamax_correct_witness:
  "iamax (\<lambda>_. seq_run \<lparr>ind = 5, val = 5\<rparr>) sample_ph 99 \<lparr>nl_min = 0, nl_max = 9\<rparr> (7, 8) 3 (sample_it 1) 1
     (sample_it 3) sample_mem (\<lambda>_. \<lparr>ind = 5, val = 5\<rparr>) (3, 0) = \<lparr>ind = 0, val = - 1\<rparr>"
proof -
  obtain i where i: "i < 3"
    "iamax (\<lambda>_. seq_run \<lparr>ind = 5, val = 5\<rparr>) sample_ph 99 \<lparr>nl_min = 0, nl_max = 9\<rparr> (7, 8) 3 (sample_it 1) 1
       (sample_it 3) sample_mem (\<lambda>_. \<lparr>ind = 5, val = 5\<rparr>) (3, 0) = \<lparr>ind = i, val = sample_mem (1, int i)\<rparr>"
    "\<forall>j < i. \<bar>sample_mem (1, int j)\<bar> < \<bar>sample_mem (1, int i)\<bar>"
    "\<bar>sample_mem (1, 0)\<bar> \<le> \<bar>sample_mem (1, int i)\<bar>"
    using iamax_correct [of "\<lambda>_. seq_run \<lparr>ind = 5, val = 5\<rparr>" sample_ph "sample_it 1" 1 3 "sample_it 3" "(7, 8)" 99
        "\<lparr>nl_min = 0, nl_max = 9\<rparr>" sample_mem "\<lambda>_. \<lparr>ind = 5, val = 5\<rparr>", OF is_run_seq sample_pow2]
    by (auto simp: result_cell_def blas_index_def less_cases sample_mem_def)
  then have "i = 0" by (auto simp: less_cases sample_mem_def)
  then show ?thesis using i(2) by (simp add: sample_mem_def)
qed

text \<open>C21: \<open>_iamin\<close> leaves the smallest index at which the absolute value is smallest, when no
  element exceeds the largest value of its type (an infinity may).\<close>

theorem iamin_correct:
  fixes mx :: "'v::linordered_idom mem"
  assumes "\<And>k. is_run (runs k)" "\<exists>p. ph_work_group_size ph = 2 ^ p"
    and "vector_fits x incx n" "vector_fits res 1 1" "fst tmp \<noteq> it_buffer res"
    and "0 < n" "n \<le> index_max" "\<And>i. i < n \<Longrightarrow> \<bar>mx (cell x incx n i)\<bar> \<le> nl_max nl"
  shows "\<exists>i < n. iamin runs ph index_max nl tmp n x incx res mx m (result_cell res)
              = \<lparr>ind = i, val = mx (cell x incx n i)\<rparr> \<and>
            (\<forall>j < n. \<bar>mx (cell x incx n i)\<bar> \<le> \<bar>mx (cell x incx n j)\<bar>) \<and>
            (\<forall>j < i. \<bar>mx (cell x incx n i)\<bar> < \<bar>mx (cell x incx n j)\<bar>)"
proof -
  define xs where "xs = (\<lambda>i. mx (cell x incx n i))"
  define t0 :: "'v IndexValueTuple" where "t0 = \<lparr>ind = index_max, val = nl_max nl\<rparr>"
  define rhs where "rhs = (TupleOp (in_memory mx (vec_expr (make_vector_view x incx n)))
    :: ('v IndexValueTuple mem, 'v IndexValueTuple) expr)"
  note tree = tuple_tree [OF assms(3), of mx, folded rhs_def]
  define ts where "ts = map (\<lambda>i. \<lparr>ind = i, val = xs i\<rparr>) [0..<n]"
  have ev: "ex_eval rhs m = (\<lambda>i. \<lparr>ind = i, val = mx (cell x incx n i)\<rparr>)" by (rule ext) (rule tree(3))
  have inA: "ex_eval rhs m i \<in> tuples_of xs t0" if "i < ex_size rhs" for i
    using tuples_of_elem [of i t0 xs] that assms(7) by (simp add: tree xs_def t0_def)
  have res: "iamin runs ph index_max nl tmp n x incx res mx m (result_cell res) = red IMinOperator t0 ts"
    using imin_red.interface_reduction [where runs = runs and m = m and v = xs,
        OF assms(1,2,4,5) tree(1) _ inA]
    by (simp add: iamin_def Let_def imin_init rhs_def [symmetric] tree(2) ev ts_def xs_def t0_def)
  let ?r = "red IMinOperator t0 ts"
  have best: "?r \<in> set (t0 # ts)" "\<And>t. t \<in> set (t0 # ts) \<Longrightarrow> imin_le ?r t"
    using red_IMinOperator [of t0 ts] by auto
  have first: "\<lparr>ind = i, val = xs i\<rparr> \<in> set (t0 # ts)" if "i < n" for i using that by (simp add: ts_def)
  have "?r \<noteq> t0"
  proof
    assume "?r = t0"
    then have "imin_le t0 \<lparr>ind = 0, val = xs 0\<rparr>" using best(2) [OF first [OF assms(6)]] by simp
    moreover have "\<bar>xs 0\<bar> \<le> nl_max nl" using assms(8) [OF assms(6)] by (simp add: xs_def)
    ultimately show False using assms(6,7) by (auto simp: imin_le_def t0_def)
  qed
  then obtain i where i: "i < n" "?r = \<lparr>ind = i, val = xs i\<rparr>"
    using best(1) by (auto simp: ts_def)
  have le: "imin_le \<lparr>ind = i, val = xs i\<rparr> \<lparr>ind = j, val = xs j\<rparr>" if "j < n" for j
    using best(2) [OF first [OF that]] i(2) by simp
  then have "\<forall>j < n. \<bar>xs i\<bar> \<le> \<bar>xs j\<bar>" "\<forall>j < i. \<bar>xs i\<bar> < \<bar>xs j\<bar>"
  proof -
    show "\<forall>j < n. \<bar>xs i\<bar> \<le> \<bar>xs j\<bar>" using le by (fastforce simp: imin_le_def)
    show "\<forall>j < i. \<bar>xs i\<bar> < \<bar>xs j\<bar>"
    proof (intro allI impI)
      fix j assume "j < i"
      then show "\<bar>xs i\<bar> < \<bar>xs j\<bar>" using le [of j] i(1) by (auto simp: imin_le_def)
    qed
  qed
  then show ?thesis using i res by (auto simp: xs_def)
qed

lemma iamin_correct_witness:
  "iamin (\<lambda>_. seq_run \<lparr>ind = 5, val = 5\<rparr>) sample_ph 99 \<lparr>nl_min = 0, nl_max = 9\<rparr> (7, 8) 3 (sample_it 1) 1
     (sample_it 3) sample_mem (\<lambda>_. \<lparr>ind = 5, val = 5\<rparr>) (3, 0) = \<lparr>ind = 1, val = 0\<rparr>"
proof -
  have b: "\<bar>sample_mem (cell (sample_it 1) 1 3 i)\<bar> \<le> nl_max \<lparr>nl_min = 0, nl_max = 9\<rparr>" if "i < 3" for i
    using that by (auto simp: less_cases sample_mem_def blas_index_def)
  obtain i where i: "i < 3"
    "iamin (\<lambda>_. seq_run \<lparr>ind = 5, val = 5\<rparr>) sample_ph 99 \<lparr>nl_min = 0, nl_max = 9\<rparr> (7, 8) 3 (sample_it 1) 1
       (sample_it 3) sample_mem (\<lambda>_. \<lparr>ind = 5, val = 5\<rparr>) (3, 0) = \<lparr>ind = i, val = sample_mem (1, int i)\<rparr>"
    "\<forall>j < i. \<bar>sample_mem (1, int i)\<bar> < \<bar>sample_mem (1, int j)\<bar>"
    "\<bar>sample_mem (1, int i)\<bar> \<le> \<bar>sample_mem (1, 1)\<bar>"
    using iamin_correct [of "\<lambda>_. seq_run \<lparr>ind = 5, val = 5\<rparr>" sample_ph "sample_it 1" 1 3 "sample_it 3" "(7, 8)" 99
        sample_mem "\<lparr>nl_min = 0, nl_max = 9\<rparr>" "\<lambda>_. \<lparr>ind = 5, val = 5\<rparr>", OF is_run_seq sample_pow2 _ _ _ _ _ b]
    by (auto simp: result_cell_def blas_index_def less_cases sample_mem_def)
  then have "i = 1" by (auto simp: less_cases sample_mem_def)
  then show ?thesis using i(2) by (simp add: sample_mem_def)
qed

end
