(* ===== verification/Gemm_Trees.thy ===== *)
theory Gemm_Trees
  imports Blas1
begin

text \<open>
  The common part of the matrix products, from \<^verbatim>\<open>include/operations/blas3_trees.h\<close> and
  \<^verbatim>\<open>include/interface/gemm_launcher.h\<close>: the enumerations that select a kernel, the tiling, the
  template parameters of a launch, the node \<open>Gemm\<close> itself, and what a product has to compute.

  The template parameters are the fields of the record \<open>Gemm_Launcher\<close>. Dimensions and leading
  dimensions are natural numbers; \<open>batch_size_\<close>, which a kernel counts down past zero, is an integer there.
\<close>

section \<open>Parameters\<close>

datatype gemm_memory_t = mem_local | mem_no_local | mem_subgroup

datatype gemm_algorithm_t = alg_naive | alg_standard | alg_tall_skinny

datatype gemm_vectorization_t = vec_none | vec_partial | vec_full

datatype gemm_batch_type_t = strided_batch | interleaved_batch

record Tile =
  item_rows :: nat
  item_cols :: nat
  wg_rows :: nat
  wg_cols :: nat
  sg_rows :: nat
  sg_cols :: nat
  tl_rows :: nat
  tl_cols :: nat
  item_batchs :: nat
  wg_batchs :: nat

text \<open>\<open>Tile\<close> with the first four parameters, the others at their defaults.\<close>

definition Tile4 :: "nat \<Rightarrow> nat \<Rightarrow> nat \<Rightarrow> nat \<Rightarrow> Tile" where
  "Tile4 ir ic wr wc = \<lparr>item_rows = ir, item_cols = ic, wg_rows = wr, wg_cols = wc, sg_rows = 1, sg_cols = 1,
     tl_rows = 1, tl_cols = 1, item_batchs = 1, wg_batchs = 1\<rparr>"

text \<open>\<open>Tile<>\<close>: every parameter at its default.\<close>

definition Tile_default :: Tile where
  "Tile_default = Tile4 8 8 16 16"

record Gemm_Launcher =
  WgSize :: nat
  DoubleBuffer :: bool
  ConflictA :: bool
  ConflictB :: bool
  ClSize :: nat
  TileT :: Tile
  TransA :: bool
  TransB :: bool
  MemoryType :: gemm_memory_t
  Algorithm :: gemm_algorithm_t
  Vectorization :: gemm_vectorization_t
  beta_zero :: bool
  VectorSize :: nat
  BatchType :: gemm_batch_type_t

definition make_launcher ::
  "nat \<Rightarrow> bool \<Rightarrow> bool \<Rightarrow> bool \<Rightarrow> nat \<Rightarrow> Tile \<Rightarrow> bool \<Rightarrow> bool \<Rightarrow> gemm_memory_t \<Rightarrow> gemm_algorithm_t \<Rightarrow>
   gemm_vectorization_t \<Rightarrow> bool \<Rightarrow> nat \<Rightarrow> gemm_batch_type_t \<Rightarrow> Gemm_Launcher" where
  "make_launcher wg db ca cb cl tile ta tb mem alg vec z vs bt =
     \<lparr>WgSize = wg, DoubleBuffer = db, ConflictA = ca, ConflictB = cb, ClSize = cl, TileT = tile,
      TransA = ta, TransB = tb, MemoryType = mem, Algorithm = alg, Vectorization = vec,
      beta_zero = z, VectorSize = vs, BatchType = bt\<rparr>"

section \<open>The node\<close>

record 'v Gemm =
  gm_cfg :: Gemm_Launcher
  gm_a :: MatrixView
  gm_b :: MatrixView
  gm_c :: MatrixView
  gm_alpha :: 'v
  gm_beta :: 'v
  gm_m :: nat
  gm_n :: nat
  gm_k :: nat
  gm_lda :: nat
  gm_ldb :: nat
  gm_ldc :: nat
  gm_batch_size :: nat

definition make_gemm ::
  "Gemm_Launcher \<Rightarrow> MatrixView \<Rightarrow> MatrixView \<Rightarrow> MatrixView \<Rightarrow> 'v \<Rightarrow> 'v \<Rightarrow> nat \<Rightarrow> 'v Gemm" where
  "make_gemm cfg A B C alpha beta batch_size =
     \<lparr>gm_cfg = cfg, gm_a = A, gm_b = B, gm_c = C, gm_alpha = alpha, gm_beta = beta,
      gm_m = mv_sizeR A, gm_n = mv_sizeC B, gm_k = mv_sizeC A,
      gm_lda = mv_sizeL A, gm_ldb = mv_sizeL B, gm_ldc = mv_sizeL C, gm_batch_size = batch_size\<rparr>"

text \<open>\<open>_select_gemm\<close> wraps the buffers; \<open>A\<close> and \<open>B\<close> are wrapped with the dimensions of the product
  also when they are stored transposed.\<close>

definition select_gemm_tree ::
  "Gemm_Launcher \<Rightarrow> nat \<Rightarrow> nat \<Rightarrow> nat \<Rightarrow> 'v \<Rightarrow> BufferIterator \<Rightarrow> nat \<Rightarrow> BufferIterator \<Rightarrow> nat \<Rightarrow> 'v \<Rightarrow>
   BufferIterator \<Rightarrow> nat \<Rightarrow> nat \<Rightarrow> 'v Gemm" where
  "select_gemm_tree cfg M N K alpha a lda b ldb beta c ldc batch_size =
     (let buffer_a = make_matrix_view col_major a M K lda;
          buffer_b = make_matrix_view col_major b K N ldb;
          buffer_c = make_matrix_view col_major c M N ldc
      in make_gemm cfg buffer_a buffer_b buffer_c alpha beta batch_size)"

section \<open>Pointers\<close>

text \<open>\<open>p + d\<close> on a device pointer, and \<open>get_pointer()\<close> of a view after \<open>adjust_access_displacement\<close>.\<close>

fun ptr_add :: "addr \<Rightarrow> int \<Rightarrow> addr" where
  "ptr_add (b, k) d = (b, k + d)"

definition mv_get_pointer :: "MatrixView \<Rightarrow> addr" where
  "mv_get_pointer v = mv_eval_ptr_addr (mv_adjust v) 0"

lemma ptr_add_0 [simp]: "ptr_add p 0 = p"
  by (cases p) simp

lemma ptr_add_add [simp]: "ptr_add (ptr_add p x) y = ptr_add p (x + y)"
  by (cases p) simp

lemma ptr_add_inject [simp]: "ptr_add p x = ptr_add p y \<longleftrightarrow> x = y"
  by (cases p) simp

lemma fst_ptr_add [simp]: "fst (ptr_add p x) = fst p"
  by (cases p) simp

lemma mv_get_pointer_eq: "mv_get_pointer v = (acc_buffer (mv_data v), mv_disp v)"
  by (simp add: mv_get_pointer_def mv_eval_ptr_addr_def mv_adjust_def)

section \<open>What a product computes\<close>

text \<open>Element \<open>(i, j)\<close> of matrix \<open>b\<close> of a batch that starts at \<open>p\<close>, the matrices \<open>stride\<close>
  elements apart, stored by columns with leading dimension \<open>ld\<close>; transposed on request.\<close>

definition batch_cell :: "addr \<Rightarrow> nat \<Rightarrow> nat \<Rightarrow> nat \<Rightarrow> nat \<Rightarrow> nat \<Rightarrow> addr" where
  "batch_cell p stride ld b i j = ptr_add p (int (b * stride + i + j * ld))"

definition operand_cell :: "bool \<Rightarrow> addr \<Rightarrow> nat \<Rightarrow> nat \<Rightarrow> nat \<Rightarrow> nat \<Rightarrow> nat \<Rightarrow> addr" where
  "operand_cell tr p stride ld b i j = (if tr then batch_cell p stride ld b j i else batch_cell p stride ld b i j)"

text \<open>The distance between two matrices of a strided batch.\<close>

definition a_stride :: "bool \<Rightarrow> nat \<Rightarrow> nat \<Rightarrow> nat \<Rightarrow> nat" where
  "a_stride trans_a m k lda = (if trans_a then m * lda else k * lda)"

definition b_stride :: "bool \<Rightarrow> nat \<Rightarrow> nat \<Rightarrow> nat \<Rightarrow> nat" where
  "b_stride trans_b n k ldb = (if trans_b then ldb * k else n * ldb)"

definition product_of ::
  "bool \<Rightarrow> bool \<Rightarrow> nat \<Rightarrow> nat \<Rightarrow> nat \<Rightarrow> addr \<Rightarrow> nat \<Rightarrow> addr \<Rightarrow> nat \<Rightarrow> 'v::{comm_monoid_add, times} mem \<Rightarrow>
   nat \<Rightarrow> nat \<Rightarrow> nat \<Rightarrow> 'v" where
  "product_of ta tb M N K a lda b ldb m q i j =
     (\<Sum>l<K. m (operand_cell ta a (a_stride ta M K lda) lda q i l) * m (operand_cell tb b (b_stride tb N K ldb) ldb q l j))"

text \<open>\<open>gemm_result\<close>: every element of every matrix of the batch is
  \<open>alpha * op(A) * op(B) + beta * C\<close>, without the second term when \<open>z\<close> says that \<open>C\<close> may not be read,
  and no other cell has changed.\<close>

definition c_cells :: "nat \<Rightarrow> nat \<Rightarrow> addr \<Rightarrow> nat \<Rightarrow> nat \<Rightarrow> addr set" where
  "c_cells M N c ldc batch_size =
     {batch_cell c (ldc * N) ldc q i j |q i j. q < batch_size \<and> i < M \<and> j < N}"

definition gemm_result ::
  "bool \<Rightarrow> bool \<Rightarrow> bool \<Rightarrow> nat \<Rightarrow> nat \<Rightarrow> nat \<Rightarrow> 'v::{comm_monoid_add, times} \<Rightarrow> addr \<Rightarrow> nat \<Rightarrow> addr \<Rightarrow> nat \<Rightarrow>
   'v \<Rightarrow> addr \<Rightarrow> nat \<Rightarrow> nat \<Rightarrow> 'v mem \<Rightarrow> 'v mem \<Rightarrow> bool" where
  "gemm_result z ta tb M N K alpha a lda b ldb beta c ldc batch_size m m' \<longleftrightarrow>
     (\<forall>q < batch_size. \<forall>i < M. \<forall>j < N.
        m' (batch_cell c (ldc * N) ldc q i j) =
          alpha * product_of ta tb M N K a lda b ldb m q i j
          + (if z then 0 else beta * m (batch_cell c (ldc * N) ldc q i j))) \<and>
     (\<forall>d. d \<notin> c_cells M N c ldc batch_size \<longrightarrow> m' d = m d)"

lemma gemm_resultI:
  assumes "\<And>q i j. q < batch_size \<Longrightarrow> i < M \<Longrightarrow> j < N \<Longrightarrow>
      m' (batch_cell c (ldc * N) ldc q i j) = alpha * product_of ta tb M N K a lda b ldb m q i j
          + (if z then 0 else beta * m (batch_cell c (ldc * N) ldc q i j))"
    and "\<And>d. d \<notin> c_cells M N c ldc batch_size \<Longrightarrow> m' d = m d"
  shows "gemm_result z ta tb M N K alpha a lda b ldb beta c ldc batch_size m m'"
  using assms by (simp add: gemm_result_def)

text \<open>The elements of \<open>C\<close> are different cells.\<close>

lemma batch_cell_inj:
  assumes "i < ld" "i' < ld" "j < n" "j' < n" "batch_cell p (ld * n) ld q i j = batch_cell p (ld * n) ld q' i' j'"
  shows "q = q' \<and> i = i' \<and> j = j'"
proof -
  have "int (q * (ld * n) + i + j * ld) = int (q' * (ld * n) + i' + j' * ld)"
    using assms(5) by (simp only: batch_cell_def ptr_add_inject)
  then have "i + ld * (j + n * q) = i' + ld * (j' + n * q')"
    by (simp only: of_nat_eq_iff) (simp add: algebra_simps)
  with ld_index_inj [of i ld i' ld "j + n * q" "j' + n * q'"] assms(1,2)
  have "i = i'" "j + n * q = j' + n * q'" by auto
  with ld_index_inj [of j n j' n q q'] assms(3,4) show ?thesis by auto
qed

text \<open>The node that \<open>_select_gemm\<close> builds.\<close>

lemma select_gemm_simps:
  "gm_m (select_gemm_tree cfg M N K alpha a lda b ldb beta c ldc bs) = M"
  "gm_n (select_gemm_tree cfg M N K alpha a lda b ldb beta c ldc bs) = N"
  "gm_k (select_gemm_tree cfg M N K alpha a lda b ldb beta c ldc bs) = K"
  "gm_lda (select_gemm_tree cfg M N K alpha a lda b ldb beta c ldc bs) = lda"
  "gm_ldb (select_gemm_tree cfg M N K alpha a lda b ldb beta c ldc bs) = ldb"
  "gm_ldc (select_gemm_tree cfg M N K alpha a lda b ldb beta c ldc bs) = ldc"
  "gm_cfg (select_gemm_tree cfg M N K alpha a lda b ldb beta c ldc bs) = cfg"
  "gm_alpha (select_gemm_tree cfg M N K alpha a lda b ldb beta c ldc bs) = alpha"
  "gm_beta (select_gemm_tree cfg M N K alpha a lda b ldb beta c ldc bs) = beta"
  "gm_batch_size (select_gemm_tree cfg M N K alpha a lda b ldb beta c ldc bs) = bs"
  "mv_get_pointer (gm_a (select_gemm_tree cfg M N K alpha a lda b ldb beta c ldc bs)) = (it_buffer a, it_offset a)"
  "mv_get_pointer (gm_b (select_gemm_tree cfg M N K alpha a lda b ldb beta c ldc bs)) = (it_buffer b, it_offset b)"
  "mv_get_pointer (gm_c (select_gemm_tree cfg M N K alpha a lda b ldb beta c ldc bs)) = (it_buffer c, it_offset c)"
  "acc_buffer (mv_data (gm_a (select_gemm_tree cfg M N K alpha a lda b ldb beta c ldc bs))) = it_buffer a"
  "acc_buffer (mv_data (gm_b (select_gemm_tree cfg M N K alpha a lda b ldb beta c ldc bs))) = it_buffer b"
  "acc_buffer (mv_data (gm_c (select_gemm_tree cfg M N K alpha a lda b ldb beta c ldc bs))) = it_buffer c"
  by (simp_all add: select_gemm_tree_def make_gemm_def Let_def make_matrix_view_def MatrixView_of_iter_def
      make_MatrixView_def get_range_accessor_def get_range_accessor_sized_def mv_get_pointer_eq)

end
