(* ===== verification/Gemm_Kernels.thy ===== *)
theory Gemm_Kernels
  imports Gemm_Trees
begin

text \<open>
  What the kernels for strided batches share: the loop over the batch, and the contract \<open>gemm_kernel\<close>,
  under which a launch computes the product. Its work-groups form clusters; a cluster takes the matrices of the
  batch in turn, and every item of a cluster computes the elements of a fixed tile of each.
\<close>

section \<open>The loop over the batch\<close>

definition gm_a_size :: "'v Gemm \<Rightarrow> int" where
  "gm_a_size t = (if TransA (gm_cfg t) then int (gm_m t * gm_lda t) else int (gm_k t * gm_lda t))"

definition gm_b_size :: "'v Gemm \<Rightarrow> int" where
  "gm_b_size t = (if TransB (gm_cfg t) then int (gm_ldb t * gm_k t) else int (gm_n t * gm_ldb t))"

definition gm_c_size :: "'v Gemm \<Rightarrow> int" where
  "gm_c_size t = int (gm_ldc t * gm_n t)"

text \<open>The \<open>do\<close> loop. A stride of 0 would not end; no launch has it.\<close>

function gemm_batches ::
  "(addr \<Rightarrow> addr \<Rightarrow> addr \<Rightarrow> 's \<Rightarrow> 's) \<Rightarrow> 'v Gemm \<Rightarrow> nat \<Rightarrow> nat \<Rightarrow> int \<Rightarrow> addr \<Rightarrow> addr \<Rightarrow> addr \<Rightarrow> 's \<Rightarrow> 's" where
  "gemm_batches body t wg_batch_id batch_stride batch_size orig_A orig_B orig_C m =
     (let m' = body orig_A orig_B orig_C m;
          orig_A' = ptr_add orig_A (gm_a_size t * int batch_stride);
          orig_B' = ptr_add orig_B (gm_b_size t * int batch_stride);
          orig_C' = ptr_add orig_C (gm_c_size t * int batch_stride);
          batch_size' = batch_size - int batch_stride
      in if 0 < batch_stride \<and> int wg_batch_id < batch_size'
         then gemm_batches body t wg_batch_id batch_stride batch_size' orig_A' orig_B' orig_C' m'
         else m')"
  by pat_completeness auto
termination
  by (relation "measure (\<lambda>(f, t, w, s, n, A, B, C, m). nat n)") auto

declare gemm_batches.simps [simp del]

lemma gemm_batches_shift:
  "gemm_batches body t w s n (ptr_add A x) (ptr_add B y) (ptr_add C u) m
   = gemm_batches (\<lambda>A B C. body (ptr_add A x) (ptr_add B y) (ptr_add C u)) t w s n A B C m"
proof (induction "\<lambda>A B C. body (ptr_add A x) (ptr_add B y) (ptr_add C u)" t w s n A B C m rule: gemm_batches.induct)
  case (1 t w s n A B C m)
  show ?case
    by (subst (1 2) gemm_batches.simps)
      (use 1 [OF refl refl refl refl refl] in \<open>simp add: Let_def ac_simps\<close>)
qed

text \<open>The cells of a tile of the matrix at \<open>C\<close>.\<close>

definition tile_cells :: "nat \<Rightarrow> (nat \<times> nat) set \<Rightarrow> addr \<Rightarrow> addr set" where
  "tile_cells ldc T C = {ptr_add C (int (i + j * ldc)) |i j. (i, j) \<in> T}"

lemma tile_cells_fst: "d \<in> tile_cells ldc T C \<Longrightarrow> fst d = fst C"
  by (auto simp: tile_cells_def)

text \<open>The loop is a fold over the matrices \<open>w, w + s, \<dots>\<close> of the batch.\<close>

abbreviation at_batch ::
  "'v Gemm \<Rightarrow> (addr \<Rightarrow> addr \<Rightarrow> addr \<Rightarrow> 'a) \<Rightarrow> addr \<Rightarrow> addr \<Rightarrow> addr \<Rightarrow> nat \<Rightarrow> 'a" where
  "at_batch t f A B C q \<equiv> f (ptr_add A (int q * gm_a_size t)) (ptr_add B (int q * gm_b_size t)) (ptr_add C (int q * gm_c_size t))"

lemma gemm_batches_from:
  assumes "0 < s" "w \<le> k" "k < n"
  shows "at_batch t (gemm_batches body t w s (int n - (int k - int w))) A B C k m
    = fold (at_batch t body A B C) (strided k n s) m"
  using assms
proof (induction k n s arbitrary: m rule: strided.induct)
  case (1 k n s)
  have next_iff: "int w < int n - (int k - int w) - int s \<longleftrightarrow> k + s < n" by auto
  have ptr: "ptr_add p (int k * x + x * int s) = ptr_add p (int (k + s) * x)" for p x
    by (simp add: algebra_simps)
  show ?case
  proof (cases "k + s < n")
    case True
    have e: "int n - (int k - int w) - int s = int n - (int (k + s) - int w)" by simp
    show ?thesis
      using 1 True by (subst gemm_batches.simps) (simp add: Let_def next_iff strided_step ptr e del: of_nat_add)
  next
    case False
    then show ?thesis
      using "1.prems" by (subst gemm_batches.simps) (simp add: Let_def next_iff strided_step)
  qed
qed

lemma gemm_batches_fold:
  assumes "0 < s" "w < n"
  shows "at_batch t (gemm_batches body t w s (int n)) A B C w m = fold (at_batch t body A B C) (strided w n s) m"
  using gemm_batches_from [OF assms(1) order_refl assms(2)] by simp

section \<open>The contract\<close>

definition product_at ::
  "bool \<Rightarrow> bool \<Rightarrow> nat \<Rightarrow> addr \<Rightarrow> nat \<Rightarrow> addr \<Rightarrow> nat \<Rightarrow> 'v::{comm_monoid_add, times} mem \<Rightarrow> nat \<Rightarrow> nat \<Rightarrow> 'v" where
  "product_at ta tb K A lda B ldb m i j = (\<Sum>l<K. m (operand_cell ta A 0 lda 0 i l) * m (operand_cell tb B 0 ldb 0 l j))"

lemma product_of_at:
  "product_of (TransA (gm_cfg t)) (TransB (gm_cfg t)) (gm_m t) (gm_n t) (gm_k t) A (gm_lda t) B (gm_ldb t) m q i j
   = product_at (TransA (gm_cfg t)) (TransB (gm_cfg t)) (gm_k t) (ptr_add A (int q * gm_a_size t)) (gm_lda t)
       (ptr_add B (int q * gm_b_size t)) (gm_ldb t) m i j"
  by (simp add: product_of_def product_at_def operand_cell_def batch_cell_def a_stride_def b_stride_def
      gm_a_size_def gm_b_size_def ac_simps)

text \<open>The value of element \<open>(i, j)\<close> of the matrix at \<open>C\<close>.\<close>

definition gm_elem :: "'v::{comm_monoid_add, times} Gemm \<Rightarrow> addr \<Rightarrow> addr \<Rightarrow> addr \<Rightarrow> 'v mem \<Rightarrow> nat \<Rightarrow> nat \<Rightarrow> 'v" where
  "gm_elem t A B C m i j =
     gm_alpha t * product_at (TransA (gm_cfg t)) (TransB (gm_cfg t)) (gm_k t) A (gm_lda t) B (gm_ldb t) m i j
     + (if beta_zero (gm_cfg t) then 0 else gm_beta t * m (ptr_add C (int (i + j * gm_ldc t))))"

text \<open>There are rows, \<open>C\<close> has distinct elements, and the operands lie in other buffers.\<close>

definition gm_wf :: "'v Gemm \<Rightarrow> bool" where
  "gm_wf t \<longleftrightarrow> 0 < gm_m t \<and> gm_m t \<le> gm_ldc t \<and>
     acc_buffer (mv_data (gm_a t)) \<noteq> acc_buffer (mv_data (gm_c t)) \<and>
     acc_buffer (mv_data (gm_b t)) \<noteq> acc_buffer (mv_data (gm_c t))"

abbreviation "gm_A t \<equiv> mv_get_pointer (gm_a t)"
abbreviation "gm_B t \<equiv> mv_get_pointer (gm_b t)"
abbreviation "gm_C t \<equiv> mv_get_pointer (gm_c t)"

text \<open>\<open>ok\<close> is what a kernel asks of its configuration; \<open>wg_size\<close> and \<open>clusters\<close> are the sizes of a work-group and
  of a cluster.\<close>

locale gemm_kernel =
  fixes ok :: "'v::{comm_monoid_add, times} Gemm \<Rightarrow> bool"
    and wg_size :: "'v Gemm \<Rightarrow> nat" and cluster :: "'v Gemm \<Rightarrow> nat"
    and eval :: "'v Gemm \<Rightarrow> nd_item \<Rightarrow> 'v mem \<Rightarrow> 'v mem"
    and body :: "'v Gemm \<Rightarrow> nat \<Rightarrow> addr \<Rightarrow> addr \<Rightarrow> addr \<Rightarrow> 'v mem \<Rightarrow> 'v mem"
    and tile :: "'v Gemm \<Rightarrow> nat \<Rightarrow> (nat \<times> nat) set"
  assumes sizes: "ok t \<Longrightarrow> gm_wf t \<Longrightarrow> 0 < wg_size t \<and> 0 < cluster t"
    and eval_item: "ok t \<Longrightarrow> gm_wf t \<Longrightarrow> 0 < S \<Longrightarrow> i < wg_size t * cluster t * S \<Longrightarrow>
      eval t (item_of (wg_size t) (cluster t * S * wg_size t) i) m
      = (if gm_batch_size t \<le> i div (wg_size t * cluster t) then m
         else at_batch t (gemm_batches (body t (i mod (wg_size t * cluster t))) t (i div (wg_size t * cluster t)) S
                (int (gm_batch_size t))) (gm_A t) (gm_B t) (gm_C t) (i div (wg_size t * cluster t)) m)"
    and tile_bounds: "ok t \<Longrightarrow> gm_wf t \<Longrightarrow> e < wg_size t * cluster t \<Longrightarrow> (i, j) \<in> tile t e \<Longrightarrow> i < gm_m t \<and> j < gm_n t"
    and tile_disjoint: "ok t \<Longrightarrow> gm_wf t \<Longrightarrow> e < wg_size t * cluster t \<Longrightarrow> e' < wg_size t * cluster t \<Longrightarrow>
      e \<noteq> e' \<Longrightarrow> tile t e \<inter> tile t e' = {}"
    and tile_cover: "ok t \<Longrightarrow> gm_wf t \<Longrightarrow> i < gm_m t \<Longrightarrow> j < gm_n t \<Longrightarrow> \<exists>e < wg_size t * cluster t. (i, j) \<in> tile t e"
    and body_frame: "ok t \<Longrightarrow> gm_wf t \<Longrightarrow> e < wg_size t * cluster t \<Longrightarrow>
      d \<notin> tile_cells (gm_ldc t) (tile t e) C \<Longrightarrow> body t e A B C m d = m d"
    and body_elem: "ok t \<Longrightarrow> gm_wf t \<Longrightarrow> e < wg_size t * cluster t \<Longrightarrow> (i, j) \<in> tile t e \<Longrightarrow>
      fst A \<noteq> fst C \<Longrightarrow> fst B \<noteq> fst C \<Longrightarrow>
      body t e A B C m (ptr_add C (int (i + j * gm_ldc t))) = gm_elem t A B C m i j"
begin

text \<open>The cells that item \<open>i\<close> of a launch of \<open>S\<close> clusters stores.\<close>

definition item_cells :: "'v Gemm \<Rightarrow> nat \<Rightarrow> nat \<Rightarrow> addr set" where
  "item_cells t S i =
     (\<Union>q \<in> set (strided (i div (wg_size t * cluster t)) (gm_batch_size t) S).
        tile_cells (gm_ldc t) (tile t (i mod (wg_size t * cluster t))) (ptr_add (gm_C t) (int q * gm_c_size t)))"

lemma item_cells_fst: "d \<in> item_cells t S i \<Longrightarrow> fst d = fst (gm_C t)"
  by (auto simp: item_cells_def dest!: tile_cells_fst)

lemma tile_cells_elem:
  assumes "ok t" "gm_wf t" "e < wg_size t * cluster t" "d \<in> tile_cells (gm_ldc t) (tile t e) (ptr_add (gm_C t) (int q * gm_c_size t))"
  obtains i j where "(i, j) \<in> tile t e" "i < gm_m t" "j < gm_n t" "i < gm_ldc t"
    "d = batch_cell (gm_C t) (gm_ldc t * gm_n t) (gm_ldc t) q i j"
proof -
  obtain i j where ij: "(i, j) \<in> tile t e" "d = ptr_add (ptr_add (gm_C t) (int q * gm_c_size t)) (int (i + j * gm_ldc t))"
    using assms(4) unfolding tile_cells_def by blast
  moreover have "i < gm_m t \<and> j < gm_n t" by (rule tile_bounds [OF assms(1-3) ij(1)])
  moreover have "gm_m t \<le> gm_ldc t" using assms(2) by (simp add: gm_wf_def)
  ultimately show ?thesis using that by (simp add: batch_cell_def gm_c_size_def ac_simps)
qed

text \<open>No two items share a cell, and neither do two matrices of the batch.\<close>

lemma tile_cells_disjoint:
  assumes "ok t" "gm_wf t" "e < wg_size t * cluster t" "e' < wg_size t * cluster t" "(q, e) \<noteq> (q', e')"
  shows "tile_cells (gm_ldc t) (tile t e) (ptr_add (gm_C t) (int q * gm_c_size t)) \<inter>
         tile_cells (gm_ldc t) (tile t e') (ptr_add (gm_C t) (int q' * gm_c_size t)) = {}"
proof (rule ccontr)
  assume "\<not> ?thesis"
  then obtain d where d: "d \<in> tile_cells (gm_ldc t) (tile t e) (ptr_add (gm_C t) (int q * gm_c_size t))"
    "d \<in> tile_cells (gm_ldc t) (tile t e') (ptr_add (gm_C t) (int q' * gm_c_size t))" by blast
  obtain i j i' j' where ij: "(i, j) \<in> tile t e" "i < gm_ldc t" "j < gm_n t"
    "(i', j') \<in> tile t e'" "i' < gm_ldc t" "j' < gm_n t"
    "batch_cell (gm_C t) (gm_ldc t * gm_n t) (gm_ldc t) q i j = batch_cell (gm_C t) (gm_ldc t * gm_n t) (gm_ldc t) q' i' j'"
    using tile_cells_elem [OF assms(1-3) d(1)] tile_cells_elem [OF assms(1,2,4) d(2)] by metis
  have "q = q' \<and> i = i' \<and> j = j'" by (rule batch_cell_inj [OF ij(2,5,3,6,7)])
  then show False using tile_disjoint [OF assms(1-4)] ij(1,4) assms(5) by auto
qed

text \<open>What an item does.\<close>

lemma body_at:
  assumes "ok t" "gm_wf t" "e < wg_size t * cluster t" "(i, j) \<in> tile t e"
  shows "at_batch t (body t e) (gm_A t) (gm_B t) (gm_C t) q m (batch_cell (gm_C t) (gm_ldc t * gm_n t) (gm_ldc t) q i j)
    = gm_alpha t * product_of (TransA (gm_cfg t)) (TransB (gm_cfg t)) (gm_m t) (gm_n t) (gm_k t)
        (gm_A t) (gm_lda t) (gm_B t) (gm_ldb t) m q i j
      + (if beta_zero (gm_cfg t) then 0 else gm_beta t * m (batch_cell (gm_C t) (gm_ldc t * gm_n t) (gm_ldc t) q i j))"
proof -
  have c: "batch_cell (gm_C t) (gm_ldc t * gm_n t) (gm_ldc t) q i j
      = ptr_add (ptr_add (gm_C t) (int q * gm_c_size t)) (int (i + j * gm_ldc t))"
    by (simp add: batch_cell_def gm_c_size_def ac_simps)
  show ?thesis
    unfolding c product_of_at
    by (subst body_elem [OF assms]) (use assms(2) in \<open>simp_all add: gm_elem_def gm_wf_def mv_get_pointer_eq\<close>)
qed

lemma body_cong:
  assumes "ok t" "gm_wf t" "e < wg_size t * cluster t"
    and d: "d \<in> tile_cells (gm_ldc t) (tile t e) (ptr_add (gm_C t) (int q * gm_c_size t))"
    and f: "\<And>c. fst c \<noteq> fst (gm_C t) \<Longrightarrow> f c = f' c" "f d = f' d"
  shows "at_batch t (body t e) (gm_A t) (gm_B t) (gm_C t) q f d = at_batch t (body t e) (gm_A t) (gm_B t) (gm_C t) q f' d"
proof -
  obtain i j where ij: "(i, j) \<in> tile t e" "d = batch_cell (gm_C t) (gm_ldc t * gm_n t) (gm_ldc t) q i j"
    by (rule tile_cells_elem [OF assms(1-4)])
  have "f (operand_cell ta (gm_A t) x y z u v) = f' (operand_cell ta (gm_A t) x y z u v)"
    "f (operand_cell ta (gm_B t) x y z u v) = f' (operand_cell ta (gm_B t) x y z u v)" for ta x y z u v
    using assms(2) by (auto intro!: f simp: operand_cell_def batch_cell_def gm_wf_def mv_get_pointer_eq)
  then show ?thesis
    unfolding ij(2) body_at [OF assms(1-3) ij(1)] product_of_def using f(2) ij(2) by simp
qed

lemma item_eval:
  assumes ok: "ok t" "gm_wf t" and S: "0 < S" and i: "i < wg_size t * cluster t * S"
  defines "it \<equiv> item_of (wg_size t) (cluster t * S * wg_size t) i" and "e \<equiv> i mod (wg_size t * cluster t)"
  shows "q < gm_batch_size t \<Longrightarrow> q mod S = i div (wg_size t * cluster t) \<Longrightarrow>
      d \<in> tile_cells (gm_ldc t) (tile t e) (ptr_add (gm_C t) (int q * gm_c_size t)) \<Longrightarrow>
      eval t it m d = at_batch t (body t e) (gm_A t) (gm_B t) (gm_C t) q m d"
    and "d \<notin> item_cells t S i \<Longrightarrow> eval t it m d = m d"
proof -
  let ?w = "i div (wg_size t * cluster t)"
  let ?W = "\<lambda>q. tile_cells (gm_ldc t) (tile t e) (ptr_add (gm_C t) (int q * gm_c_size t))"
  let ?go = "at_batch t (body t e) (gm_A t) (gm_B t) (gm_C t)"
  let ?xs = "strided ?w (gm_batch_size t) S"
  have pos: "0 < wg_size t * cluster t" using sizes [OF ok] by simp
  have e: "e < wg_size t * cluster t" using pos by (simp add: e_def)
  have w: "?w < S" using i by (simp add: less_mult_imp_div_less mult.commute [of S])
  have run: "eval t it m = fold ?go ?xs m"
    unfolding it_def eval_item [OF ok S i] e_def using gemm_batches_fold [OF S, where w = ?w and n = "gm_batch_size t" and t = t]
    by (cases "gm_batch_size t \<le> ?w") simp_all
  have key: "(q \<in> set ?xs \<longrightarrow> d \<in> ?W q \<longrightarrow> fold ?go ?xs m d = ?go q m d) \<and>
      ((\<forall>q \<in> set ?xs. d \<notin> ?W q) \<longrightarrow> fold ?go ?xs m d = m d)" for q d
  proof (rule fold_disjoint_writers [where X = UNIV])
    show "?go q f d = f d" if "d \<notin> ?W q" for q f d using body_frame [OF ok e] that by blast
    show "?W q \<inter> ?W q' = {}" if "q \<noteq> q'" for q q' using tile_cells_disjoint [OF ok e e] that by simp
    show "?go q f d = ?go q f' d"
      if q: "d \<in> ?W q" "\<And>d. (\<And>y. y \<in> UNIV \<Longrightarrow> y \<noteq> q \<Longrightarrow> d \<notin> ?W y) \<Longrightarrow> f d = f' d" for q f f' d
    proof (rule body_cong [OF ok e q(1)])
      show "f c = f' c" if "fst c \<noteq> fst (gm_C t)" for c
        using that tile_cells_fst [of c] by (intro q(2)) fastforce
      show "f d = f' d" using q(1) tile_cells_disjoint [OF ok e e] by (intro q(2)) blast
    qed
  qed simp_all
  show "eval t it m d = ?go q m d" if "q < gm_batch_size t" "q mod S = ?w" "d \<in> ?W q"
  proof -
    have "?w \<le> q" using that(2) mod_less_eq_dividend [of q S] by simp
    then have "q \<in> set ?xs" using that w S by (simp add: set_strided)
    then show ?thesis unfolding run using key that(3) by blast
  qed
  show "eval t it m d = m d" if "d \<notin> item_cells t S i"
    unfolding run using key that by (simp add: item_cells_def e_def)
qed

text \<open>A launch of any number \<open>S > 0\<close> of clusters computes the product.\<close>

lemma launch_correct:
  assumes ok: "ok t" "gm_wf t" and S: "0 < S" and r: "is_run r"
  shows "gemm_result (beta_zero (gm_cfg t)) (TransA (gm_cfg t)) (TransB (gm_cfg t)) (gm_m t) (gm_n t) (gm_k t) (gm_alpha t)
     (gm_A t) (gm_lda t) (gm_B t) (gm_ldb t) (gm_beta t) (gm_C t) (gm_ldc t) (gm_batch_size t) m
     (execute_tree r (\<lambda>_. True) (eval t) (wg_size t) (cluster t * S * wg_size t) m)"
proof -
  let ?I = "wg_size t * cluster t" and ?G = "cluster t * S * wg_size t" and ?W = "item_cells t S"
  have pos: "0 < wg_size t" "0 < cluster t" "0 < ?I" using sizes [OF ok] by auto
  have G: "?G = ?I * S" by simp
  have nd: "nd_range_ok ?G (wg_size t)" using pos S by (simp add: nd_range_ok_def)
  have lt: "i mod ?I < ?I" for i using pos by simp
  have in_W: "\<exists>q. q < gm_batch_size t \<and> q mod S = i div ?I \<and>
      d \<in> tile_cells (gm_ldc t) (tile t (i mod ?I)) (ptr_add (gm_C t) (int q * gm_c_size t))"
    if "i < ?G" "d \<in> ?W i" for i d
  proof -
    have "i div ?I < S" using that(1) unfolding G by (simp add: less_mult_imp_div_less mult.commute [of S])
    then show ?thesis using that(2) S by (auto simp: item_cells_def set_strided)
  qed
  have frame: "eval t (item_of (wg_size t) ?G i) s c = s c" if "i < ?G" "c \<notin> ?W i" for i s c
    using item_eval(2) [OF ok S that(1) [unfolded G]] that(2) by blast
  have disj: "?W i \<inter> ?W j = {}" if ij: "i < ?G" "j < ?G" "i \<noteq> j" for i j
  proof (rule ccontr)
    assume "?W i \<inter> ?W j \<noteq> {}"
    then obtain d q q' where d: "q mod S = i div ?I" "q' mod S = j div ?I"
      "d \<in> tile_cells (gm_ldc t) (tile t (i mod ?I)) (ptr_add (gm_C t) (int q * gm_c_size t))"
      "d \<in> tile_cells (gm_ldc t) (tile t (j mod ?I)) (ptr_add (gm_C t) (int q' * gm_c_size t))"
      using in_W [OF ij(1)] in_W [OF ij(2)] by blast
    then have "(q, i mod ?I) = (q', j mod ?I)" using tile_cells_disjoint [OF ok lt lt] by blast
    then have "i div ?I = j div ?I" "i mod ?I = j mod ?I" using d(1,2) by auto
    then show False using ij(3) by (metis div_mult_mod_eq)
  qed
  have reads: "eval t (item_of (wg_size t) ?G i) f c = eval t (item_of (wg_size t) ?G i) f' c"
    if i: "i < ?G" "c \<in> ?W i" and off: "\<And>d. (\<And>j. j < ?G \<Longrightarrow> j \<noteq> i \<Longrightarrow> d \<notin> ?W j) \<Longrightarrow> f d = f' d" for i f f' c
  proof -
    obtain q where q: "q < gm_batch_size t" "q mod S = i div ?I"
      "c \<in> tile_cells (gm_ldc t) (tile t (i mod ?I)) (ptr_add (gm_C t) (int q * gm_c_size t))"
      using in_W [OF i] by blast
    have "f c = f' c" using i disj by (intro off) blast
    moreover have "f d = f' d" if "fst d \<noteq> fst (gm_C t)" for d using that item_cells_fst by (intro off) blast
    ultimately show ?thesis
      using body_cong [OF ok lt q(3), of f f'] item_eval(1) [OF ok S i(1) [unfolded G] q] by simp
  qed
  note own = execute_tree_own [OF nd r, where W = ?W and eval = "eval t" and s = m]
  have hit: "execute_tree r (\<lambda>_. True) (eval t) (wg_size t) ?G m c = eval t (item_of (wg_size t) ?G i) m c"
    if "i < ?G" "c \<in> ?W i" for i c
    by (rule own(1) [OF _ _ _ that]) (fact frame reads disj | rule frame reads disj, assumption+)+
  have miss: "execute_tree r (\<lambda>_. True) (eval t) (wg_size t) ?G m c = m c" if "\<And>i. i < ?G \<Longrightarrow> c \<notin> ?W i" for c
    by (rule own(2)) (fact frame reads disj | erule that | rule frame reads disj, assumption+)+
  show ?thesis
  proof (rule gemm_resultI)
    fix q i j assume q: "q < gm_batch_size t" "i < gm_m t" "j < gm_n t"
    let ?d = "batch_cell (gm_C t) (gm_ldc t * gm_n t) (gm_ldc t) q i j"
    obtain e where e: "e < ?I" "(i, j) \<in> tile t e" using tile_cover [OF ok q(2,3)] by blast
    let ?x = "q mod S * ?I + e"
    have x: "?x mod ?I = e" "?x div ?I = q mod S" using e(1) pos by simp_all
    have "?x < (q mod S + 1) * ?I" using e(1) by simp
    also have "\<dots> \<le> S * ?I" using S mod_less_divisor [OF S, of q] by (intro mult_le_mono1) simp
    finally have x_lt: "?x < ?I * S" by (simp add: mult.commute)
    have d: "?d \<in> tile_cells (gm_ldc t) (tile t (?x mod ?I)) (ptr_add (gm_C t) (int q * gm_c_size t))"
    proof -
      have "?d = ptr_add (ptr_add (gm_C t) (int q * gm_c_size t)) (int (i + j * gm_ldc t))"
        by (simp add: batch_cell_def gm_c_size_def ac_simps)
      then show ?thesis using e(2) unfolding x(1) tile_cells_def by blast
    qed
    have "q mod S \<le> q" by simp
    then have "q \<in> set (strided (?x div ?I) (gm_batch_size t) S)" using q(1) S unfolding x(2) by (simp add: set_strided)
    then have "?d \<in> ?W ?x" unfolding item_cells_def using d by blast
    then have "execute_tree r (\<lambda>_. True) (eval t) (wg_size t) ?G m ?d = eval t (item_of (wg_size t) ?G ?x) m ?d"
      using hit x_lt unfolding G by blast
    also have "\<dots> = at_batch t (body t e) (gm_A t) (gm_B t) (gm_C t) q m ?d"
      using item_eval(1) [OF ok S x_lt q(1) x(2) [symmetric] d, of m] unfolding x(1) .
    also have "\<dots> = gm_alpha t * product_of (TransA (gm_cfg t)) (TransB (gm_cfg t)) (gm_m t) (gm_n t) (gm_k t)
        (gm_A t) (gm_lda t) (gm_B t) (gm_ldb t) m q i j + (if beta_zero (gm_cfg t) then 0 else gm_beta t * m ?d)"
      by (rule body_at [OF ok e])
    finally show "execute_tree r (\<lambda>_. True) (eval t) (wg_size t) ?G m ?d = \<dots>" .
  next
    fix d assume d: "d \<notin> c_cells (gm_m t) (gm_n t) (gm_C t) (gm_ldc t) (gm_batch_size t)"
    show "execute_tree r (\<lambda>_. True) (eval t) (wg_size t) ?G m d = m d"
    proof (rule miss)
      fix i assume "i < ?G"
      show "d \<notin> ?W i"
      proof
        assume "d \<in> ?W i"
        then obtain q where q: "q < gm_batch_size t"
          "d \<in> tile_cells (gm_ldc t) (tile t (i mod ?I)) (ptr_add (gm_C t) (int q * gm_c_size t))"
          using in_W [OF \<open>i < ?G\<close>] by blast
        then show False using d tile_cells_elem [OF ok lt q(2)] unfolding c_cells_def by blast
      qed
    qed
  qed
qed

end

end
