(* ===== verification/Gemm_Ref.thy ===== *)
theory Gemm_Ref
  imports Gemm_Kernels
begin

text \<open>
  The reference matrix product of \<^verbatim>\<open>src/operations/blas3/gemm_ref.hpp\<close>: one work-item computes one
  element of \<open>C\<close> in every matrix of the batch that its cluster of work-groups handles.
\<close>

section \<open>The kernel\<close>

definition gf_wg_size :: "'v Gemm \<Rightarrow> nat" where
  "gf_wg_size t = wg_rows (TileT (gm_cfg t)) * wg_cols (TileT (gm_cfg t))"

text \<open>The number of groups that cover \<open>C\<close>. For an empty matrix and groups of one item the difference is negative in the code,
  which then gets 0 where this definition, truncated at zero, gives 1; such a group has nothing to store.\<close>

definition gf_get_workgroup_cluster :: "'v Gemm \<Rightarrow> nat" where
  "gf_get_workgroup_cluster t = (gm_m t * gm_n t - 1) div gf_wg_size t + 1"

definition gf_get_num_workgroup_cluster :: "'v Gemm \<Rightarrow> nat \<Rightarrow> nat" where
  "gf_get_num_workgroup_cluster t compute_units =
     (let num_gemm_per_compute_units = 4
      in (num_gemm_per_compute_units * compute_units - 1) div gf_get_workgroup_cluster t + 1)"

text \<open>The local and the global range.\<close>

definition gf_get_nd_range :: "'v Gemm \<Rightarrow> nat \<Rightarrow> nat \<times> nat" where
  "gf_get_nd_range t compute_units =
     (let nwg = gf_get_workgroup_cluster t * gf_get_num_workgroup_cluster t compute_units; wgs = gf_wg_size t
      in (wgs, nwg * wgs))"

definition gf_get_size :: "'v Gemm \<Rightarrow> nat" where
  "gf_get_size t = gm_m t * gm_n t"

definition gf_valid_thread :: "'v Gemm \<Rightarrow> nd_item \<Rightarrow> bool" where
  "gf_valid_thread t it \<longleftrightarrow> True"

text \<open>The inner loop counts \<open>k_\<close> down while it walks a row of \<open>op(A)\<close> and a column of \<open>op(B)\<close>.\<close>

fun gf_dot :: "'v::{plus, times} mem \<Rightarrow> int \<Rightarrow> int \<Rightarrow> nat \<Rightarrow> addr \<Rightarrow> addr \<Rightarrow> 'v \<Rightarrow> 'v" where
  "gf_dot m da db 0 A B reg_res = reg_res"
| "gf_dot m da db (Suc k) A B reg_res = gf_dot m da db k (ptr_add A da) (ptr_add B db) (m A * m B + reg_res)"

text \<open>The body of the batch loop: one element of one matrix.\<close>

definition gf_store :: "'v::{zero, plus, times} Gemm \<Rightarrow> addr \<Rightarrow> addr \<Rightarrow> addr \<Rightarrow> 'v mem \<Rightarrow> 'v mem" where
  "gf_store t A B C m =
     (let trans_a = TransA (gm_cfg t); trans_b = TransB (gm_cfg t);
          reg_res = gf_dot m (if trans_a then 1 else int (gm_lda t)) (if trans_b then int (gm_ldb t) else 1) (gm_k t) A B 0
      in if beta_zero (gm_cfg t) then m(C := gm_alpha t * reg_res)
         else m(C := gm_alpha t * reg_res + gm_beta t * m C))"

definition gf_eval :: "'v::{zero, plus, times} Gemm \<Rightarrow> nd_item \<Rightarrow> 'v mem \<Rightarrow> 'v mem" where
  "gf_eval t it m =
     (let trans_a = TransA (gm_cfg t); trans_b = TransB (gm_cfg t);
          wg_batch_id = nd_group it div gf_get_workgroup_cluster t
      in if gm_batch_size t \<le> wg_batch_id then m
         else
           let batch_stride = nd_group_range it div gf_get_workgroup_cluster t;
               orig_A = ptr_add (mv_get_pointer (gm_a t)) (int wg_batch_id * gm_a_size t);
               orig_B = ptr_add (mv_get_pointer (gm_b t)) (int wg_batch_id * gm_b_size t);
               orig_C = ptr_add (mv_get_pointer (gm_c t)) (int wg_batch_id * gm_c_size t);
               item_id = (nd_group it mod gf_get_workgroup_cluster t) * nd_local_range it + nd_local it
           in if gm_m t * gm_n t \<le> item_id then m
              else
                let row = item_id mod gm_m t; col = item_id div gm_m t;
                    orig_A = ptr_add orig_A (int row * (if trans_a then int (gm_lda t) else 1));
                    orig_B = ptr_add orig_B (int col * (if trans_b then 1 else int (gm_ldb t)));
                    orig_C = ptr_add orig_C (int row + int col * int (gm_ldc t))
                in gemm_batches (gf_store t) t wg_batch_id batch_stride (int (gm_batch_size t)) orig_A orig_B orig_C m)"

text \<open>\<open>Executor::execute(Gemm)\<close> for a kernel without local memory.\<close>

definition gemm_ref_execute ::
  "'t device_run \<Rightarrow> policy_handler \<Rightarrow> 'v::{zero, plus, times} Gemm \<Rightarrow> 'v mem \<Rightarrow> 'v mem" where
  "gemm_ref_execute r ph t m =
     (let rng = gf_get_nd_range t (ph_num_compute_units ph)
      in execute_tree r (gf_valid_thread t) (gf_eval t) (fst rng) (snd rng) m)"

section \<open>The contract\<close>

lemma gf_dot_eq:
  fixes m :: "'v::{comm_monoid_add, times} mem"
  shows "gf_dot m da db k A B x = x + (\<Sum>l<k. m (ptr_add A (int l * da)) * m (ptr_add B (int l * db)))"
proof (induction k arbitrary: A B x)
  case (Suc k)
  have "(\<Sum>l<Suc k. m (ptr_add A (int l * da)) * m (ptr_add B (int l * db)))
      = m A * m B + (\<Sum>l<k. m (ptr_add A (int (Suc l) * da)) * m (ptr_add B (int (Suc l) * db)))"
    by (subst sum.lessThan_Suc_shift) simp
  then show ?case by (simp add: Suc.IH algebra_simps)
qed simp

text \<open>The tile of item \<open>e\<close> of a cluster is one element, or nothing.\<close>

definition gf_tile :: "'v Gemm \<Rightarrow> nat \<Rightarrow> (nat \<times> nat) set" where
  "gf_tile t e = (if e < gm_m t * gm_n t then {(e mod gm_m t, e div gm_m t)} else {})"

definition gf_body :: "'v::{zero, plus, times} Gemm \<Rightarrow> nat \<Rightarrow> addr \<Rightarrow> addr \<Rightarrow> addr \<Rightarrow> 'v mem \<Rightarrow> 'v mem" where
  "gf_body t e A B C m =
     (if e < gm_m t * gm_n t then
        gf_store t (ptr_add A (int (e mod gm_m t) * (if TransA (gm_cfg t) then int (gm_lda t) else 1)))
          (ptr_add B (int (e div gm_m t) * (if TransB (gm_cfg t) then 1 else int (gm_ldb t))))
          (ptr_add C (int (e mod gm_m t) + int (e div gm_m t) * int (gm_ldc t))) m
      else m)"

lemma gf_store_elem:
  fixes t :: "'v::{comm_monoid_add, times} Gemm"
  shows "gf_store t (ptr_add A (int i * (if TransA (gm_cfg t) then int (gm_lda t) else 1)))
      (ptr_add B (int j * (if TransB (gm_cfg t) then 1 else int (gm_ldb t))))
      (ptr_add C (int i + int j * int (gm_ldc t))) m
    = m(ptr_add C (int (i + j * gm_ldc t)) := gm_elem t A B C m i j)"
  by (simp add: gf_store_def Let_def gf_dot_eq gm_elem_def product_at_def operand_cell_def batch_cell_def add.commute)

lemma gf_eval_item:
  fixes t :: "'v::{comm_monoid_add, times} Gemm"
  assumes pos: "0 < gf_wg_size t" and S: "0 < S" and i: "i < gf_wg_size t * gf_get_workgroup_cluster t * S"
  shows "gf_eval t (item_of (gf_wg_size t) (gf_get_workgroup_cluster t * S * gf_wg_size t) i) m
    = (if gm_batch_size t \<le> i div (gf_wg_size t * gf_get_workgroup_cluster t) then m
       else at_batch t (gemm_batches (gf_body t (i mod (gf_wg_size t * gf_get_workgroup_cluster t))) t
              (i div (gf_wg_size t * gf_get_workgroup_cluster t)) S (int (gm_batch_size t)))
              (gm_A t) (gm_B t) (gm_C t) (i div (gf_wg_size t * gf_get_workgroup_cluster t)) m)"
proof -
  let ?cl = "gf_get_workgroup_cluster t" and ?L = "gf_wg_size t"
  let ?it = "item_of ?L (?cl * S * ?L) i" and ?w = "i div (?L * ?cl)" and ?e = "i mod (?L * ?cl)"
  have cl: "0 < ?cl" by (simp add: gf_get_workgroup_cluster_def)
  have w: "nd_group ?it div ?cl = ?w" by (simp add: item_of_def div_mult2_eq)
  have s: "nd_group_range ?it div ?cl = S" using pos cl by (simp add: item_of_def)
  have e: "nd_group ?it mod ?cl * nd_local_range ?it + nd_local ?it = ?e"
    by (simp add: item_of_def mod_mult2_eq)
  show ?thesis
  proof (cases "gm_batch_size t \<le> ?w")
    case False
    show ?thesis
    proof (cases "gm_m t * gm_n t \<le> ?e")
      case True
      have "at_batch t (gemm_batches (gf_body t ?e) t ?w S (int (gm_batch_size t))) (gm_A t) (gm_B t) (gm_C t) ?w m
          = fold (at_batch t (gf_body t ?e) (gm_A t) (gm_B t) (gm_C t)) (strided ?w (gm_batch_size t) S) m"
        using False by (intro gemm_batches_fold [OF S]) simp
      also have "\<dots> = m" using True by (intro fold_invariant [where P = "\<lambda>m'. m' = m"]) (simp_all add: gf_body_def)
      finally show ?thesis using False True unfolding gf_eval_def Let_def w s e by simp
    next
      case le: False
      have body: "gf_body t ?e = (\<lambda>A B C. gf_store t
          (ptr_add A (int (?e mod gm_m t) * (if TransA (gm_cfg t) then int (gm_lda t) else 1)))
          (ptr_add B (int (?e div gm_m t) * (if TransB (gm_cfg t) then 1 else int (gm_ldb t))))
          (ptr_add C (int (?e mod gm_m t) + int (?e div gm_m t) * int (gm_ldc t))))"
        using le by (intro ext) (simp add: gf_body_def)
      show ?thesis using False le unfolding gf_eval_def Let_def w s e body gemm_batches_shift by simp
    qed
  qed (simp add: gf_eval_def w)
qed

interpretation gf: gemm_kernel "\<lambda>t :: 'v::{comm_monoid_add, times} Gemm. 0 < gf_wg_size t" gf_wg_size
  gf_get_workgroup_cluster gf_eval gf_body gf_tile
proof unfold_locales
  fix t :: "'v Gemm" and e e' i j :: nat
  let ?I = "gf_wg_size t * gf_get_workgroup_cluster t"
  assume ok: "0 < gf_wg_size t" and wf: "gm_wf t"
  have m: "0 < gm_m t" using wf by (simp add: gm_wf_def)
  show "0 < gf_wg_size t \<and> 0 < gf_get_workgroup_cluster t" using ok by (simp add: gf_get_workgroup_cluster_def)
  show "i < gm_m t \<and> j < gm_n t" if "(i, j) \<in> gf_tile t e"
    using that m by (auto simp: gf_tile_def less_mult_imp_div_less mult.commute split: if_splits)
  show "gf_tile t e \<inter> gf_tile t e' = {}" if "e \<noteq> e'"
  proof (rule ccontr)
    assume "gf_tile t e \<inter> gf_tile t e' \<noteq> {}"
    then have "e mod gm_m t = e' mod gm_m t \<and> e div gm_m t = e' div gm_m t"
      by (auto simp: gf_tile_def split: if_splits)
    then have "e = e'" by (metis div_mult_mod_eq)
    then show False using that by simp
  qed
  show "\<exists>e < ?I. (i, j) \<in> gf_tile t e" if ij: "i < gm_m t" "j < gm_n t"
  proof -
    have n: "0 < gm_n t" using ij by simp
    have "i + gm_m t * j < gm_m t * Suc j" using ij by simp
    also have "\<dots> \<le> gm_m t * gm_n t" using ij by (intro mult_le_mono2) simp
    finally have e: "i + gm_m t * j < gm_m t * gm_n t" .
    also have "\<dots> \<le> ?I"
      using ok m n cdiv_covers [of "gf_wg_size t" "gm_m t * gm_n t"]
      by (simp add: gf_get_workgroup_cluster_def cdiv_pred [simplified] mult.commute)
    finally have lt: "i + gm_m t * j < ?I" .
    have "(i, j) \<in> gf_tile t (i + gm_m t * j)" using e ij by (simp add: gf_tile_def)
    then show ?thesis using lt by blast
  qed
next
  fix t :: "'v Gemm" and e i j :: nat and A B C :: addr and m d
  assume "(i, j) \<in> gf_tile t e"
  then have ij: "e < gm_m t * gm_n t" "i = e mod gm_m t" "j = e div gm_m t" by (auto simp: gf_tile_def split: if_splits)
  show "gf_body t e A B C m (ptr_add C (int (i + j * gm_ldc t))) = gm_elem t A B C m i j"
    unfolding gf_body_def if_P [OF ij(1)] gf_store_elem ij(2,3) by simp
next
  fix t :: "'v Gemm" and e :: nat and A B C :: addr and m d
  assume d: "d \<notin> tile_cells (gm_ldc t) (gf_tile t e) C"
  show "gf_body t e A B C m d = m d"
  proof (cases "e < gm_m t * gm_n t")
    case True
    then have "d \<noteq> ptr_add C (int (e mod gm_m t + e div gm_m t * gm_ldc t))"
      using d by (auto simp: tile_cells_def gf_tile_def)
    then show ?thesis unfolding gf_body_def if_P [OF True] gf_store_elem by simp
  qed (simp add: gf_body_def)
qed (rule gf_eval_item)

lemma gemm_ref_result:
  fixes alpha beta :: "'v::{comm_monoid_add, times}"
  assumes "is_run r" "0 < M" "M \<le> ldc" "it_buffer a \<noteq> it_buffer c" "it_buffer b \<noteq> it_buffer c"
    and "0 < wg_rows (TileT cfg)" "0 < wg_cols (TileT cfg)"
  shows "gemm_result (beta_zero cfg) (TransA cfg) (TransB cfg) M N K alpha (it_buffer a, it_offset a) lda
     (it_buffer b, it_offset b) ldb beta (it_buffer c, it_offset c) ldc bs m
     (gemm_ref_execute r ph (select_gemm_tree cfg M N K alpha a lda b ldb beta c ldc bs) m)"
proof -
  let ?t = "select_gemm_tree cfg M N K alpha a lda b ldb beta c ldc bs"
  have wf: "0 < gf_wg_size ?t" "gm_wf ?t"
    using assms by (simp_all add: gm_wf_def gf_wg_size_def select_gemm_simps)
  have S: "0 < gf_get_num_workgroup_cluster ?t (ph_num_compute_units ph)"
    by (simp add: gf_get_num_workgroup_cluster_def)
  show ?thesis
    using gf.launch_correct [OF wf S assms(1), of m]
    by (simp add: gemm_ref_execute_def gf_get_nd_range_def Let_def gf_valid_thread_def [abs_def] select_gemm_simps)
qed

section \<open>Properties\<close>

text \<open>C10: the reference kernel, launched by \<open>_select_gemm\<close>, computes
  \<open>alpha * op(A) * op(B) + beta * C\<close> for every matrix of the batch and changes nothing else, however many
  compute units the device has and in whatever order the work-items run; \<open>C\<close> is not read when \<open>is_beta_zero\<close> is set.\<close>

theorem gemm_ref_correct:
  fixes alpha beta :: "'v::{comm_monoid_add, times}"
  assumes "is_run r" "0 < M" "M \<le> ldc" "it_buffer a \<noteq> it_buffer c" "it_buffer b \<noteq> it_buffer c"
    and "0 < wg_rows (TileT cfg)" "0 < wg_cols (TileT cfg)"
  shows "gemm_result (beta_zero cfg) (TransA cfg) (TransB cfg) M N K alpha (it_buffer a, it_offset a) lda
     (it_buffer b, it_offset b) ldb beta (it_buffer c, it_offset c) ldc bs m
     (gemm_ref_execute r ph (select_gemm_tree cfg M N K alpha a lda b ldb beta c ldc bs) m)"
  by (rule gemm_ref_result [OF assms])

lemma gemm_ref_correct_witness:
  "gemm_ref_execute (seq_run ()) sample_ph
     (select_gemm_tree (make_launcher 64 False False False 64 (Tile4 8 8 8 8) True False mem_no_local alg_naive vec_partial False 1 strided_batch)
        2 2 1 3 (sample_it 1) 1 (sample_it 2) 1 5 (sample_it 3) 2 1) sample_mem (3, 3) = 3 * (0 * 10) + 5 * 30"
  using gemm_ref_correct [OF is_run_seq, of 2 2 "sample_it 1" "sample_it 3" "sample_it 2"
      "make_launcher 64 False False False 64 (Tile4 8 8 8 8) True False mem_no_local alg_naive vec_partial False 1 strided_batch"
      2 1 3 1 1 5 1 sample_mem "()" sample_ph]
  by (simp add: make_launcher_def Tile4_def gemm_result_def product_of_def operand_cell_def batch_cell_def a_stride_def
      b_stride_def sample_mem_def less_cases)

end
