(* ===== verification/Gemm_Backends.thy ===== *)
theory Gemm_Backends
  imports Gemm_Trees
begin

text \<open>
  Which kernel, with which tiling, a build uses for a product: the functions \<open>_gemm\<close> of
  \<^verbatim>\<open>src/interface/blas3/backend\<close>, one per target, and the conditions the kernels check at compile time.

  The preprocessor symbols of a build are arguments: \<open>GEMM_TALL_SKINNY_SUPPORT\<close>, \<open>NAIVE_GEMM\<close>,
  \<open>GEMM_VECTORIZATION_SUPPORT\<close>, \<open>MODEL_RESNET_50\<close>, \<open>MODEL_VGG_16\<close> and the target. \<open>sizeof(element_t)\<close>
  is an argument as well, and \<open>z\<close> is the parameter \<open>is_beta_zero\<close>. Every function returns the
  template parameters of the launcher it calls.
\<close>

section \<open>The choice of a build\<close>

datatype arm_model = MODEL_RESNET_50 | MODEL_VGG_16 | MODEL_OTHER

definition rcar_gemm ::
  "bool \<Rightarrow> bool \<Rightarrow> bool \<Rightarrow> nat \<Rightarrow> nat \<Rightarrow> nat \<Rightarrow> nat \<Rightarrow> gemm_batch_type_t \<Rightarrow> Gemm_Launcher" where
  "rcar_gemm t_a t_b z M N K batch_size batch_type =
     (if batch_type = interleaved_batch
        then make_launcher 64 False False False 64 ((Tile4 4 4 4 4)\<lparr>item_batchs := 4, wg_batchs := 4\<rparr>) t_a t_b mem_no_local alg_standard vec_full z 4 interleaved_batch
      else if M < 512 \<and> N < 512
        then make_launcher 32 False False False 128 (Tile4 4 8 8 4) t_a t_b mem_local alg_standard vec_full z 4 strided_batch
      else make_launcher 32 False False False 128 (Tile4 8 4 4 8) t_a t_b mem_local alg_standard vec_full z 4 strided_batch)"

definition default_cpu_gemm ::
  "bool \<Rightarrow> bool \<Rightarrow> bool \<Rightarrow> bool \<Rightarrow> nat \<Rightarrow> nat \<Rightarrow> nat \<Rightarrow> nat \<Rightarrow> gemm_batch_type_t \<Rightarrow> Gemm_Launcher" where
  "default_cpu_gemm naive_gemm t_a t_b z M N K batch_size batch_type =
     (if batch_type = interleaved_batch
        then make_launcher 64 False False False 64 ((Tile4 2 2 4 4)\<lparr>item_batchs := 4, wg_batchs := 4\<rparr>) t_a t_b mem_no_local alg_standard vec_full z 4 interleaved_batch
      else if naive_gemm
        then make_launcher 64 False False False 64 (Tile4 8 8 8 8) t_a t_b mem_no_local alg_naive vec_partial z 1 strided_batch
      else if M \<le> 128 \<and> N \<le> 128 \<and> K \<le> 128
        then make_launcher 64 False False False 64 (Tile4 2 2 8 8) t_a t_b mem_no_local alg_standard vec_full z 2 strided_batch
      else make_launcher 64 False False False 64 (Tile4 8 8 8 8) t_a t_b mem_no_local alg_standard vec_partial z 1 strided_batch)"

definition nvidia_gpu_gemm ::
  "bool \<Rightarrow> bool \<Rightarrow> bool \<Rightarrow> nat \<Rightarrow> nat \<Rightarrow> nat \<Rightarrow> nat \<Rightarrow> gemm_batch_type_t \<Rightarrow> Gemm_Launcher" where
  "nvidia_gpu_gemm t_a t_b z M N K batch_size batch_type =
     (if batch_type = interleaved_batch
        then make_launcher 64 False False False 64 ((Tile4 2 2 4 4)\<lparr>item_batchs := 4, wg_batchs := 4\<rparr>) t_a t_b mem_no_local alg_standard vec_full z 4 interleaved_batch
      else if M < 512 \<and> N < 512 \<and> K < 512
        then make_launcher 128 False False True 128 (Tile4 2 2 8 8) t_a t_b mem_local alg_standard vec_full z 1 strided_batch
      else make_launcher 64 False False True 64 ((Tile4 8 8 8 8)\<lparr>tl_rows := 2, tl_cols := 2\<rparr>) t_a t_b mem_local alg_standard vec_full z 1 strided_batch)"

definition amd_gpu_gemm ::
  "bool \<Rightarrow> nat \<Rightarrow> bool \<Rightarrow> bool \<Rightarrow> bool \<Rightarrow> nat \<Rightarrow> nat \<Rightarrow> nat \<Rightarrow> nat \<Rightarrow> gemm_batch_type_t \<Rightarrow> Gemm_Launcher" where
  "amd_gpu_gemm tall_skinny_support size_of_element t_a t_b z M N K batch_size batch_type =
     (let ClSize = 64; tileWgSize = ClSize div size_of_element in
      if batch_type = interleaved_batch
        then make_launcher 64 False False False 64 ((Tile4 4 4 4 4)\<lparr>item_batchs := 4, wg_batchs := 4\<rparr>) t_a t_b mem_no_local alg_standard vec_full z 4 interleaved_batch
      else if tall_skinny_support \<and> batch_size = 1 \<and> ((K > 8192 \<and> M \<le> 1024 \<and> N \<le> 1024) \<or> (K > 1024 \<and> M \<le> 256 \<and> N \<le> 256))
        then (if M \<le> 16 \<and> N > 32
            then make_launcher 256 True True True ClSize (Tile4 1 4 tileWgSize tileWgSize) t_a t_b mem_local alg_tall_skinny vec_none z 2 strided_batch
          else if M > 64 \<and> N \<le> 32
            then make_launcher 256 True True True ClSize (Tile4 4 1 tileWgSize tileWgSize) t_a t_b mem_local alg_tall_skinny vec_none z 2 strided_batch
          else if M \<le> 16 \<or> N \<le> 16
            then make_launcher 256 True True True ClSize (Tile4 1 1 tileWgSize tileWgSize) t_a t_b mem_local alg_tall_skinny vec_none z 2 strided_batch
          else if M \<le> 32 \<or> N \<le> 32
            then make_launcher 256 True True True ClSize (Tile4 2 2 tileWgSize tileWgSize) t_a t_b mem_local alg_tall_skinny vec_none z 2 strided_batch
          else make_launcher 256 True True True ClSize (Tile4 4 4 tileWgSize tileWgSize) t_a t_b mem_local alg_tall_skinny vec_none z 2 strided_batch)
      else if M * N \<le> 65536
        then make_launcher 256 False False False ClSize (Tile4 1 1 tileWgSize tileWgSize) t_a t_b mem_local alg_standard vec_full z 1 strided_batch
      else make_launcher 256 False False False ClSize (Tile4 4 4 tileWgSize tileWgSize) t_a t_b mem_local alg_standard vec_full z 2 strided_batch)"

definition intel_gpu_gemm ::
  "bool \<Rightarrow> nat \<Rightarrow> bool \<Rightarrow> bool \<Rightarrow> bool \<Rightarrow> nat \<Rightarrow> nat \<Rightarrow> nat \<Rightarrow> nat \<Rightarrow> gemm_batch_type_t \<Rightarrow> Gemm_Launcher" where
  "intel_gpu_gemm tall_skinny_support size_of_element t_a t_b z M N K batch_size batch_type =
     (if batch_type = interleaved_batch
        then make_launcher 64 False False False 64 ((Tile4 4 4 4 4)\<lparr>item_batchs := 4, wg_batchs := 4\<rparr>) t_a t_b mem_no_local alg_standard vec_full z 4 interleaved_batch
      else if tall_skinny_support \<and> batch_size = 1 \<and> ((K \<ge> 4096 \<and> M * N \<le> 16384) \<or> (K \<ge> 1024 \<and> M * N \<le> 4096))
        then (if M \<ge> 16 \<and> N \<le> 4
            then make_launcher 32 True True True 64 (Tile4 2 1 8 4) t_a t_b mem_local alg_tall_skinny vec_none z 4 strided_batch
          else if M \<le> 4 \<or> N \<le> 4
            then (let wg_size = (if size_of_element = 2 then 8 else 4) in
            make_launcher 16 True False False 64 (Tile4 1 1 wg_size wg_size) t_a t_b mem_local alg_tall_skinny vec_none z 4 strided_batch)
          else if M \<ge> 16 \<and> N \<le> 8
            then make_launcher 32 True True True 64 (Tile4 2 2 8 4) t_a t_b mem_local alg_tall_skinny vec_none z 4 strided_batch
          else if M \<le> 8 \<or> N \<le> 8
            then (let wg_size = (if size_of_element = 2 then 8 else 4) in
            make_launcher 16 True False False 64 (Tile4 2 2 wg_size wg_size) t_a t_b mem_local alg_tall_skinny vec_none z 4 strided_batch)
          else if M \<le> 16 \<or> N \<le> 16
            then make_launcher 64 True True True 64 (Tile4 2 2 8 8) t_a t_b mem_local alg_tall_skinny vec_none z 4 strided_batch
          else if M \<le> 32 \<or> N \<le> 32
            then make_launcher 64 True True True 64 (Tile4 4 4 8 8) t_a t_b mem_local alg_tall_skinny vec_none z 4 strided_batch
          else (let wg_size = (if size_of_element = 8 then 8 else 16) in
            make_launcher 256 True True True 64 (Tile4 4 4 wg_size wg_size) t_a t_b mem_local alg_tall_skinny vec_none z 4 strided_batch))
      else if tall_skinny_support \<and> batch_size = 1 \<and> (t_a \<or> (t_b \<and> M * N > 1048576))
        then (if M \<le> 64 \<or> N \<le> 64
            then make_launcher 64 True True True 64 (Tile4 4 4 8 8) t_a t_b mem_local alg_tall_skinny vec_none z 4 strided_batch
          else (let wg_size = (if size_of_element = 8 then 8 else 16) in
            make_launcher 256 True True True 64 (Tile4 4 4 wg_size wg_size) t_a t_b mem_local alg_tall_skinny vec_none z 4 strided_batch))
      else if M \<le> 128 \<and> N \<le> 128
        then make_launcher 64 True False False 64 (Tile4 4 4 8 8) t_a t_b mem_local alg_standard vec_full z 4 strided_batch
      else if t_b \<and> \<not> t_a
        then make_launcher 64 False False False 64 (Tile4 8 8 8 8) t_a t_b mem_no_local alg_standard vec_partial z 4 strided_batch
      else make_launcher 64 False False False 64 (Tile4 8 8 8 8) t_a t_b mem_local alg_standard vec_full z 4 strided_batch)"

text \<open>The last tests of the ResNet-50 build.\<close>

definition arm_resnet_50_rest ::
  "bool \<Rightarrow> bool \<Rightarrow> bool \<Rightarrow> nat \<Rightarrow> nat \<Rightarrow> nat \<Rightarrow> nat \<Rightarrow> Gemm_Launcher" where
  "arm_resnet_50_rest t_a t_b z M N K batch_size =
     (if (M = 512 \<and> K = 256 \<and> N = 784)
          \<or> (M = 512 \<and> K = 128 \<and> N = 196)
          \<or> (M = 512 \<and> K = 2048 \<and> N = 49)
        then make_launcher 32 False False False 64 (Tile4 8 4 4 8) t_a t_b mem_no_local alg_standard vec_partial z 1 strided_batch
      else if (M = 256 \<and> K = 512 \<and> N = 196)
          \<or> (M = 512 \<and> K = 4608 \<and> N = 49)
        then make_launcher 64 False False False 64 (Tile4 4 4 8 8) t_a t_b mem_no_local alg_standard vec_partial z 2 strided_batch
      else if (M = 1024 \<and> K = 256 \<and> N = 49)
          \<or> (M = 2048 \<and> K = 1024 \<and> N = 49)
        then make_launcher 32 False False False 64 (Tile4 8 4 4 8) t_a t_b mem_no_local alg_standard vec_partial z 2 strided_batch
      else if (M = 512 \<and> K = 4608 \<and> N = 49)
        then make_launcher 16 False False False 64 (Tile4 4 4 4 4) t_a t_b mem_no_local alg_standard vec_partial z 2 strided_batch
      else if \<not> t_a
        then make_launcher 32 False False False 64 (Tile4 8 4 4 8) t_a t_b mem_no_local alg_standard vec_partial z 4 strided_batch
      else make_launcher 128 False False False 64 (Tile4 4 8 16 8) t_a t_b mem_no_local alg_standard vec_partial z 4 strided_batch)"

text \<open>The convolutions that are not batched.\<close>

definition arm_resnet_50_single ::
  "bool \<Rightarrow> bool \<Rightarrow> bool \<Rightarrow> nat \<Rightarrow> nat \<Rightarrow> nat \<Rightarrow> nat \<Rightarrow> Gemm_Launcher" where
  "arm_resnet_50_single t_a t_b z M N K batch_size =
     (if (M = 64 \<and> K = 576 \<and> N = 12544)
        then make_launcher 64 False False False 64 (Tile4 4 4 8 8) t_a t_b mem_no_local alg_standard vec_full z 4 strided_batch
      else if (M = 1024 \<and> K = 512 \<and> N = 3136)
          \<or> (M = 256 \<and> K = 2304 \<and> N = 784)
        then make_launcher 32 False False False 64 (Tile4 8 4 4 8) t_a t_b mem_no_local alg_standard vec_partial z 4 strided_batch
      else if (M = 2048 \<and> K = 1024 \<and> N = 784)
          \<or> (M = 512 \<and> K = 1024 \<and> N = 784)
          \<or> (M = 2048 \<and> K = 512 \<and> N = 784)
        then make_launcher 32 False False False 64 (Tile4 4 8 8 4) t_a t_b mem_no_local alg_standard vec_partial z 4 strided_batch
      else if (M = 512 \<and> K = 2048 \<and> N = 784)
        then make_launcher 64 False False False 64 (Tile4 4 4 8 8) t_a t_b mem_no_local alg_standard vec_partial z 4 strided_batch
      else if (M = 64 \<and> K = 576 \<and> N = 784)
          \<or> (M = 2048 \<and> K = 512 \<and> N = 49)
        then make_launcher 16 False False False 64 (Tile4 4 4 4 4) t_a t_b mem_no_local alg_standard vec_partial z 4 strided_batch
      else arm_resnet_50_rest t_a t_b z M N K batch_size)"

definition arm_resnet_50 ::
  "bool \<Rightarrow> bool \<Rightarrow> bool \<Rightarrow> nat \<Rightarrow> nat \<Rightarrow> nat \<Rightarrow> nat \<Rightarrow> Gemm_Launcher" where
  "arm_resnet_50 t_a t_b z M N K batch_size =
     (if batch_size = 36 \<and> M = 128 \<and> K = 128 \<and> N = 784
        then (if \<not> t_b then make_launcher 64 False False False 64 (Tile4 4 4 8 8) t_a t_b mem_no_local alg_standard vec_partial z 2 strided_batch
         else make_launcher 32 False False False 64 (Tile4 4 8 8 4) t_a t_b mem_no_local alg_standard vec_partial z 4 strided_batch)
      else if batch_size = 36 \<and> M = 128 \<and> K = 128 \<and> N = 49
        then (if \<not> t_b then make_launcher 32 False False False 64 (Tile4 8 4 4 8) t_a t_b mem_no_local alg_standard vec_partial z 4 strided_batch
         else make_launcher 32 False False False 64 (Tile4 4 8 8 4) t_a t_b mem_no_local alg_standard vec_partial z 4 strided_batch)
      else if batch_size = 36 \<and> M = 64 \<and> K = 64 \<and> N = 196
        then (if \<not> t_b then make_launcher 64 False False False 64 (Tile4 4 4 8 8) t_a t_b mem_no_local alg_standard vec_full z 4 strided_batch
         else make_launcher 32 False False False 64 (Tile4 8 4 4 8) t_a t_b mem_no_local alg_standard vec_partial z 1 strided_batch)
      else if batch_size = 16 \<and> M = 256 \<and> K = 256 \<and> N = 49
        then (if \<not> t_b then make_launcher 16 False False False 64 (Tile4 4 4 4 4) t_a t_b mem_no_local alg_standard vec_partial z 1 strided_batch
         else make_launcher 16 False False False 64 (Tile4 4 4 4 4) t_a t_b mem_no_local alg_standard vec_partial z 4 strided_batch)
      else if batch_size > 1 \<and> \<not> t_a
        then make_launcher 64 False False False 64 (Tile4 4 4 8 8) t_a t_b mem_no_local alg_standard vec_partial z 2 strided_batch
      else arm_resnet_50_single t_a t_b z M N K batch_size)"

definition arm_vgg_16 ::
  "bool \<Rightarrow> bool \<Rightarrow> bool \<Rightarrow> nat \<Rightarrow> nat \<Rightarrow> nat \<Rightarrow> nat \<Rightarrow> Gemm_Launcher" where
  "arm_vgg_16 t_a t_b z M N K batch_size =
     (if batch_size > 1 \<and> \<not> t_a
        then make_launcher 64 False False False 64 (Tile4 4 4 8 8) t_a t_b mem_no_local alg_standard vec_partial z 2 strided_batch
      else if \<not> t_a
        then make_launcher 64 False False False 64 (Tile4 4 4 4 4) t_a t_b mem_no_local alg_standard vec_partial z 2 strided_batch
      else make_launcher 128 False False False 64 (Tile4 4 8 16 8) t_a t_b mem_no_local alg_standard vec_partial z 4 strided_batch)"

definition arm_default ::
  "bool \<Rightarrow> bool \<Rightarrow> bool \<Rightarrow> nat \<Rightarrow> nat \<Rightarrow> nat \<Rightarrow> nat \<Rightarrow> Gemm_Launcher" where
  "arm_default t_a t_b z M N K batch_size =
     (if M = 512 \<and> N = 49 \<and> K = 512
        then make_launcher 64 False False False 64 (Tile4 4 4 8 8) t_a t_b mem_no_local alg_standard vec_partial z 4 strided_batch
      else if t_a
        then make_launcher 128 False False False 64 (Tile4 4 8 16 8) t_a t_b mem_no_local alg_standard vec_partial z 4 strided_batch
      else make_launcher 32 False False False 64 (Tile4 8 4 4 8) t_a t_b mem_no_local alg_standard vec_partial z 4 strided_batch)"

definition arm_gpu_gemm ::
  "arm_model \<Rightarrow> bool \<Rightarrow> bool \<Rightarrow> bool \<Rightarrow> nat \<Rightarrow> nat \<Rightarrow> nat \<Rightarrow> nat \<Rightarrow> gemm_batch_type_t \<Rightarrow> Gemm_Launcher" where
  "arm_gpu_gemm model t_a t_b z M N K batch_size batch_type =
     (if batch_type = interleaved_batch
        then make_launcher 64 False False False 64 ((Tile4 2 2 4 4)\<lparr>item_batchs := 4, wg_batchs := 4\<rparr>) t_a t_b mem_no_local alg_standard vec_full z 2 interleaved_batch
      else case model of
          MODEL_RESNET_50 \<Rightarrow> arm_resnet_50 t_a t_b z M N K batch_size
        | MODEL_VGG_16 \<Rightarrow> arm_vgg_16 t_a t_b z M N K batch_size
        | MODEL_OTHER \<Rightarrow> arm_default t_a t_b z M N K batch_size)"

definition power_vr_gemm ::
  "bool \<Rightarrow> bool \<Rightarrow> bool \<Rightarrow> nat \<Rightarrow> nat \<Rightarrow> nat \<Rightarrow> nat \<Rightarrow> gemm_batch_type_t \<Rightarrow> Gemm_Launcher" where
  "power_vr_gemm t_a t_b z M N K batch_size batch_type =
     (if batch_type = interleaved_batch
        then make_launcher 64 False False False 64 ((Tile4 4 4 4 4)\<lparr>item_batchs := 4, wg_batchs := 4\<rparr>) t_a t_b mem_no_local alg_standard vec_full z 4 interleaved_batch
      else if (M = 96 \<and> K = 16 \<and> N = 22500)
          \<or> (M = 273 \<and> K = 576 \<and> N = 100)
          \<or> (M = 384 \<and> K = 64 \<and> N = 361)
        then make_launcher 96 True False False 16 (Tile4 4 6 12 8) t_a t_b mem_local alg_standard vec_full z 1 strided_batch
      else if (M = 546 \<and> K = 512 \<and> N = 4)
          \<or> (M = 24 \<and> K = 512 \<and> N = 4)
          \<or> (M = 24 \<and> K = 256 \<and> N = 1)
          \<or> (M = 64 \<and> K = 256 \<and> N = 4)
          \<or> (M = 24 \<and> K = 256 \<and> N = 1)
          \<or> (M = 128 \<and> K = 64 \<and> N = 1)
        then make_launcher 64 False False False 128 (Tile4 1 1 8 8) t_a t_b mem_local alg_standard vec_full z 1 strided_batch
      else if (M = 546 \<and> K = 128 \<and> N = 1)
          \<or> (M = 546 \<and> K = 256 \<and> N = 1)
        then make_launcher 64 False False False 64 (Tile4 4 4 8 8) t_a t_b mem_no_local alg_standard vec_full z 1 strided_batch
      else if (M = 576 \<and> K = 96 \<and> N = 361)
          \<or> (M = 64 \<and> K = 384 \<and> N = 361)
          \<or> (M = 160 \<and> K = 576 \<and> N = 100)
          \<or> (M = 1280 \<and> K = 320 \<and> N = 100)
          \<or> (M = 256 \<and> K = 1280 \<and> N = 100)
          \<or> (M = 960 \<and> K = 160 \<and> N = 100)
          \<or> (M = 192 \<and> K = 32 \<and> N = 1444)
          \<or> (M > 64 \<and> K > 64 \<and> N > 64 \<and> is_power_of_2 (int M) \<and> is_power_of_2 (int K) \<and> is_power_of_2 (int N))
        then make_launcher 128 False False False 16 (Tile4 4 8 16 8) t_a t_b mem_local alg_standard vec_full z 1 strided_batch
      else make_launcher 64 False False False 32 (Tile4 4 4 8 8) t_a t_b mem_local alg_standard vec_full z 1 strided_batch)"

text \<open>\<^verbatim>\<open>backend.hpp\<close> includes one of them.\<close>

datatype gemm_target = target_rcar | target_intel_gpu | target_amd_gpu | target_arm_gpu | target_power_vr | target_nvidia_gpu | target_default_cpu

record gemm_build =
  target :: gemm_target
  GEMM_TALL_SKINNY_SUPPORT :: bool
  GEMM_VECTORIZATION_SUPPORT :: bool
  NAIVE_GEMM :: bool
  model :: arm_model

definition backend_gemm ::
  "gemm_build \<Rightarrow> nat \<Rightarrow> bool \<Rightarrow> bool \<Rightarrow> bool \<Rightarrow> nat \<Rightarrow> nat \<Rightarrow> nat \<Rightarrow> nat \<Rightarrow> gemm_batch_type_t \<Rightarrow> Gemm_Launcher" where
  "backend_gemm bd size_of_element t_a t_b z M N K batch_size batch_type =
     (case target bd of
        target_rcar \<Rightarrow> rcar_gemm t_a t_b z M N K batch_size batch_type
      | target_intel_gpu \<Rightarrow> intel_gpu_gemm (GEMM_TALL_SKINNY_SUPPORT bd) size_of_element t_a t_b z M N K batch_size batch_type
      | target_amd_gpu \<Rightarrow> amd_gpu_gemm (GEMM_TALL_SKINNY_SUPPORT bd) size_of_element t_a t_b z M N K batch_size batch_type
      | target_arm_gpu \<Rightarrow> arm_gpu_gemm (model bd) t_a t_b z M N K batch_size batch_type
      | target_power_vr \<Rightarrow> power_vr_gemm t_a t_b z M N K batch_size batch_type
      | target_nvidia_gpu \<Rightarrow> nvidia_gpu_gemm t_a t_b z M N K batch_size batch_type
      | target_default_cpu \<Rightarrow> default_cpu_gemm (NAIVE_GEMM bd) t_a t_b z M N K batch_size batch_type)"

section \<open>The kernels and what they check\<close>

text \<open>The specialisations of \<open>Gemm\<close>, and \<open>GemmPartial\<close>, which the executor runs for a tall and skinny
  product; anything else falls back to the primary template, whose own assertion then fails unless the
  naive algorithm was asked for.\<close>

datatype gemm_kernel = GemmRef | GemmLocal | GemmNoLocalPartial | GemmNoLocalFull | GemmInterleaved | GemmPartialLocal

fun kernel_of :: "Gemm_Launcher \<Rightarrow> gemm_kernel option" where
  "kernel_of cfg =
     (case (MemoryType cfg, Algorithm cfg, Vectorization cfg, BatchType cfg) of
        (mem_local, alg_standard, vec_full, strided_batch) \<Rightarrow> Some GemmLocal
      | (mem_no_local, alg_standard, vec_partial, strided_batch) \<Rightarrow> Some GemmNoLocalPartial
      | (mem_no_local, alg_standard, vec_full, strided_batch) \<Rightarrow> Some GemmNoLocalFull
      | (mem_no_local, alg_standard, vec_full, interleaved_batch) \<Rightarrow>
          (if \<not> DoubleBuffer cfg \<and> \<not> ConflictA cfg \<and> \<not> ConflictB cfg then Some GemmInterleaved else None)
      | (mem_local, alg_tall_skinny, _, _) \<Rightarrow> Some GemmPartialLocal
      | (_, alg_naive, _, _) \<Rightarrow> Some GemmRef
      | _ \<Rightarrow> None)"

text \<open>\<open>Packetize\<close>: its packet size, and \<open>check_size\<close>.\<close>

definition packet_size :: "bool \<Rightarrow> nat \<Rightarrow> nat" where
  "packet_size vectorization vector_size = (if vectorization then vector_size else 1)"

definition check_size :: "bool \<Rightarrow> nat \<Rightarrow> nat \<Rightarrow> bool" where
  "check_size vectorization vector_size dimension \<longleftrightarrow>
     (if vectorization then packet_size vectorization vector_size = 1 \<or> dimension = packet_size vectorization vector_size
      else True)"

definition gemm_local_asserts :: "bool \<Rightarrow> nat \<Rightarrow> Gemm_Launcher \<Rightarrow> bool" where
  "gemm_local_asserts vectorization size_of_element cfg \<longleftrightarrow>
     (let tile = TileT cfg; packet_size = packet_size vectorization (VectorSize cfg);
          cl_elems = ClSize cfg div size_of_element;
          wg_size = wg_rows tile * wg_cols tile;
          block_rows = wg_rows tile * item_rows tile; block_cols = wg_cols tile * item_cols tile;
          big_tile_rows = tl_rows tile * block_rows; big_tile_cols = tl_cols tile * block_cols
      in wg_size mod cl_elems = 0 \<and> wg_size mod block_rows = 0 \<and> wg_size mod block_cols = 0 \<and>
         big_tile_rows = big_tile_cols \<and> item_rows tile mod packet_size = 0 \<and> cl_elems mod packet_size = 0)"

definition no_local_partial_asserts :: "bool \<Rightarrow> Gemm_Launcher \<Rightarrow> bool" where
  "no_local_partial_asserts vectorization cfg \<longleftrightarrow>
     (let tile = TileT cfg; packet_size = packet_size vectorization (VectorSize cfg)
      in wg_cols tile * item_cols tile = item_rows tile * wg_rows tile \<and>
         item_rows tile mod packet_size = 0 \<and> item_cols tile mod packet_size = 0)"

definition no_local_full_asserts :: "bool \<Rightarrow> Gemm_Launcher \<Rightarrow> bool" where
  "no_local_full_asserts vectorization cfg \<longleftrightarrow>
     (let tile = TileT cfg; packet_size = packet_size vectorization (VectorSize cfg)
      in wg_cols tile * item_cols tile = item_rows tile * wg_rows tile \<and>
         item_rows tile mod packet_size = 0 \<and> item_cols tile mod packet_size = 0 \<and>
         check_size vectorization (VectorSize cfg) (item_rows tile) \<and>
         check_size vectorization (VectorSize cfg) (item_cols tile))"

definition interleaved_asserts :: "Gemm_Launcher \<Rightarrow> bool" where
  "interleaved_asserts cfg \<longleftrightarrow> item_batchs (TileT cfg) mod VectorSize cfg = 0"

definition partial_local_asserts :: "nat \<Rightarrow> Gemm_Launcher \<Rightarrow> bool" where
  "partial_local_asserts size_of_element cfg \<longleftrightarrow>
     (let tile = TileT cfg; cl_elems = ClSize cfg div size_of_element;
          tile_size_dim_m = wg_rows tile * item_rows tile;
          tile_size_dim_n = wg_cols tile * item_cols tile;
          tile_size_dim_k = cl_elems;
          lhs_tile_rows = (if TransA cfg then tile_size_dim_k else tile_size_dim_m);
          rhs_tile_rows = (if TransB cfg then tile_size_dim_n else tile_size_dim_k)
      in cl_elems mod wg_rows tile = 0 \<and> cl_elems mod wg_cols tile = 0 \<and>
         wg_rows tile * wg_cols tile mod lhs_tile_rows = 0 \<and> wg_rows tile * wg_cols tile mod rhs_tile_rows = 0)"

definition static_asserts :: "bool \<Rightarrow> nat \<Rightarrow> Gemm_Launcher \<Rightarrow> bool" where
  "static_asserts vectorization size_of_element cfg \<longleftrightarrow>
     (case kernel_of cfg of
        None \<Rightarrow> False
      | Some GemmRef \<Rightarrow> True
      | Some GemmLocal \<Rightarrow> gemm_local_asserts vectorization size_of_element cfg
      | Some GemmNoLocalPartial \<Rightarrow> no_local_partial_asserts vectorization cfg
      | Some GemmNoLocalFull \<Rightarrow> no_local_full_asserts vectorization cfg
      | Some GemmInterleaved \<Rightarrow> interleaved_asserts cfg
      | Some GemmPartialLocal \<Rightarrow> partial_local_asserts size_of_element cfg)"

section \<open>Properties\<close>

lemmas backend_defs = rcar_gemm_def intel_gpu_gemm_def amd_gpu_gemm_def arm_gpu_gemm_def arm_resnet_50_def
  arm_resnet_50_single_def arm_resnet_50_rest_def arm_vgg_16_def arm_default_def power_vr_gemm_def
  nvidia_gpu_gemm_def default_cpu_gemm_def

lemmas assert_defs = static_asserts_def gemm_local_asserts_def no_local_partial_asserts_def
  no_local_full_asserts_def interleaved_asserts_def partial_local_asserts_def check_size_def packet_size_def
  make_launcher_def Tile4_def Let_def

lemma static_asserts_if: "static_asserts v s a \<Longrightarrow> static_asserts v s b \<Longrightarrow> static_asserts v s (if c then a else b)"
  by simp

text \<open>Sizes of the element type the library is built for: \<open>float\<close> and \<open>double\<close>.\<close>

lemma targets_compile:
  assumes "s = 4 \<or> s = 8"
  shows "static_asserts v s (rcar_gemm t_a t_b z M N K batch_size batch_type)"
    and "static_asserts v s (power_vr_gemm t_a t_b z M N K batch_size batch_type)"
    and "static_asserts v s (nvidia_gpu_gemm t_a t_b z M N K batch_size batch_type)"
    and "static_asserts v s (default_cpu_gemm nv t_a t_b z M N K batch_size batch_type)"
  using assms unfolding backend_defs
  by - (elim disjE; hypsubst; (rule static_asserts_if | simp add: assert_defs; fail)+)+

lemma tall_skinny_targets_compile:
  assumes "s = 4 \<or> s = 8"
  shows "static_asserts v s (intel_gpu_gemm ts s t_a t_b z M N K batch_size batch_type)"
    and "static_asserts v s (amd_gpu_gemm ts s t_a t_b z M N K batch_size batch_type)"
  using assms unfolding backend_defs Let_def
  by - (elim disjE; hypsubst; (rule static_asserts_if | simp add: assert_defs; fail)+)+

lemma arm_models_compile:
  "static_asserts v s (arm_resnet_50_rest t_a t_b z M N K batch_size)"
  "static_asserts v s (arm_vgg_16 t_a t_b z M N K batch_size)"
  "static_asserts v s (arm_default t_a t_b z M N K batch_size)"
  unfolding backend_defs
  by (rule static_asserts_if | simp add: assert_defs; fail)+

lemma arm_resnet_compiles:
  "static_asserts v s (arm_resnet_50_single t_a t_b z M N K batch_size)"
  "static_asserts v s (arm_resnet_50 t_a t_b z M N K batch_size)"
  unfolding arm_resnet_50_def arm_resnet_50_single_def
  by (rule static_asserts_if arm_models_compile | simp add: assert_defs; fail)+

lemma arm_compiles: "static_asserts v s (arm_gpu_gemm md t_a t_b z M N K batch_size batch_type)"
  using arm_models_compile arm_resnet_compiles
  by (cases md) (simp_all add: arm_gpu_gemm_def, simp_all add: assert_defs)

text \<open>C12: for \<open>float\<close> and \<open>double\<close>, with and without vectorisation, every configuration that any target selects,
  for any dimensions, transpositions and batch, has a kernel, and passes that kernel's compile-time assertions.\<close>

theorem backend_configurations_compile:
  assumes "size_of_element = 4 \<or> size_of_element = 8"
  shows "static_asserts vectorization size_of_element
    (backend_gemm bd size_of_element t_a t_b z M N K batch_size batch_type)"
  using targets_compile [OF assms] tall_skinny_targets_compile [OF assms] arm_compiles by (simp add: backend_gemm_def split: gemm_target.split)

lemma backend_configurations_compile_witness:
  "static_asserts True 4 (backend_gemm \<lparr>target = target_power_vr, GEMM_TALL_SKINNY_SUPPORT = False,
     GEMM_VECTORIZATION_SUPPORT = True, NAIVE_GEMM = False, model = MODEL_OTHER\<rparr> 4 False False False 96 22500 16 1 strided_batch)"
  by (rule backend_configurations_compile) simp

text \<open>On the Renesas target the assertions fail for a two-byte element type: a cache line then
  holds more elements than a work-group has items.\<close>

theorem rcar_refuses_half:
  "static_asserts vectorization 2 (rcar_gemm t_a t_b z M N K batch_size batch_type) \<longleftrightarrow> batch_type = interleaved_batch"
  by (simp add: rcar_gemm_def assert_defs)

definition serves_request :: "bool \<Rightarrow> bool \<Rightarrow> bool \<Rightarrow> nat \<Rightarrow> gemm_batch_type_t \<Rightarrow> Gemm_Launcher \<Rightarrow> bool" where
  "serves_request t_a t_b z batch_size batch_type cfg \<longleftrightarrow>
     TransA cfg = t_a \<and> TransB cfg = t_b \<and> beta_zero cfg = z \<and> BatchType cfg = batch_type \<and>
     (kernel_of cfg = Some GemmInterleaved \<longleftrightarrow> batch_type = interleaved_batch) \<and>
     (kernel_of cfg = Some GemmPartialLocal \<longrightarrow> batch_size = 1)"

text \<open>All that the choice between two configurations has to keep.\<close>

lemma serves_request_ifs:
  "serves_request t_a t_b z n interleaved_batch a \<Longrightarrow> serves_request t_a t_b z n strided_batch b \<Longrightarrow>
   serves_request t_a t_b z n bt (if bt = interleaved_batch then a else b)"
  "(n = 1 \<Longrightarrow> serves_request t_a t_b z n bt a) \<Longrightarrow> serves_request t_a t_b z n bt b \<Longrightarrow>
   serves_request t_a t_b z n bt (if ts \<and> n = 1 \<and> c then a else b)"
  "serves_request t_a t_b z n bt a \<Longrightarrow> serves_request t_a t_b z n bt b \<Longrightarrow>
   serves_request t_a t_b z n bt (if c' then a else b)"
  by (cases bt; simp)+

lemmas serves_defs = serves_request_def make_launcher_def

lemma targets_serve:
  "serves_request t_a t_b z n bt (rcar_gemm t_a t_b z M N K n bt)"
  "serves_request t_a t_b z n bt (power_vr_gemm t_a t_b z M N K n bt)"
  "serves_request t_a t_b z n bt (nvidia_gpu_gemm t_a t_b z M N K n bt)"
  "serves_request t_a t_b z n bt (default_cpu_gemm nv t_a t_b z M N K n bt)"
  "serves_request t_a t_b z n bt (intel_gpu_gemm ts s t_a t_b z M N K n bt)"
  "serves_request t_a t_b z n bt (amd_gpu_gemm ts s t_a t_b z M N K n bt)"
  unfolding backend_defs Let_def
  by (rule serves_request_ifs | simp add: serves_defs; fail)+

lemma arm_models_serve:
  "serves_request t_a t_b z n strided_batch (arm_resnet_50_rest t_a t_b z M N K n)"
  "serves_request t_a t_b z n strided_batch (arm_vgg_16 t_a t_b z M N K n)"
  "serves_request t_a t_b z n strided_batch (arm_default t_a t_b z M N K n)"
  unfolding backend_defs
  by (rule serves_request_ifs(3) | simp add: serves_defs; fail)+

lemma arm_resnet_serves:
  "serves_request t_a t_b z n strided_batch (arm_resnet_50_single t_a t_b z M N K n)"
  "serves_request t_a t_b z n strided_batch (arm_resnet_50 t_a t_b z M N K n)"
  unfolding arm_resnet_50_def arm_resnet_50_single_def
  by (rule serves_request_ifs(3) arm_models_serve | simp add: serves_defs; fail)+

lemma arm_serves: "serves_request t_a t_b z n bt (arm_gpu_gemm md t_a t_b z M N K n bt)"
  unfolding arm_gpu_gemm_def
  by (rule serves_request_ifs(1), simp add: serves_defs, cases md; simp add: arm_models_serve arm_resnet_serves)

lemma backend_serves:
  "serves_request t_a t_b z n bt (backend_gemm bd s t_a t_b z M N K n bt)"
  using targets_serve arm_serves by (simp add: backend_gemm_def split: gemm_target.split)

text \<open>C13: a target passes the transpositions, \<open>is_beta_zero\<close> and the batch type on to the launcher; interleaved
  batches, and only those, run the interleaved kernel, and the tall and skinny algorithm, which has no loop
  over the batch, is selected for a single product only.\<close>

theorem backend_serves_request:
  "serves_request t_a t_b z batch_size batch_type (backend_gemm bd size_of_element t_a t_b z M N K batch_size batch_type)"
  by (rule backend_serves)

end
