(* ===== verification/Gemm_Blocks.thy ===== *)
theory Gemm_Blocks
  imports Gemm_Backends Gemm_Kernels Complex_Main
begin

text \<open>
  What the blocked kernels share: packets of elements, registers, and the layout that places the elements of \<open>C\<close>
  in the registers of the work-items. A work-group computes a block of \<open>C\<close>; item \<open>l\<close> of the group holds
  \<open>item_rows\<close> times \<open>item_cols\<close> elements of it, in packets of \<open>ip_a_packet\<close> consecutive rows and \<open>ip_b_packet\<close>
  consecutive columns that alternate with those of the other items.

  The locale \<open>block_layout\<close> states what a kernel computes for its groups and items; from that every element of
  \<open>C\<close> belongs to exactly one register of one item. Each kernel's placement interprets it.
\<close>

section \<open>Packets\<close>

definition do_check :: "bool \<Rightarrow> bool \<Rightarrow> bool" where
  "do_check check cond = (if check then cond else True)"

text \<open>\<open>vec::load\<close> from memory, \<open>vec::store\<close> to registers and to memory.\<close>

definition vec_load :: "'v mem \<Rightarrow> addr \<Rightarrow> nat \<Rightarrow> 'v" where
  "vec_load m p = (\<lambda>i. m (ptr_add p (int i)))"

definition reg_store :: "nat \<Rightarrow> nat \<Rightarrow> (nat \<Rightarrow> 'v) \<Rightarrow> (nat \<Rightarrow> 'v) \<Rightarrow> nat \<Rightarrow> 'v" where
  "reg_store sz pos packet reg = (\<lambda>i. if pos \<le> i \<and> i < pos + sz then packet (i - pos) else reg i)"

definition vec_store :: "nat \<Rightarrow> addr \<Rightarrow> (nat \<Rightarrow> 'v) \<Rightarrow> 'v mem \<Rightarrow> 'v mem" where
  "vec_store sz p packet m = fold (\<lambda>i m. m(ptr_add p (int i) := packet i)) [0..<sz] m"

abbreviation "gm_tile t \<equiv> TileT (gm_cfg t)"
abbreviation "gm_item_rows t \<equiv> item_rows (gm_tile t)"
abbreviation "gm_item_cols t \<equiv> item_cols (gm_tile t)"
abbreviation "gm_wg_rows t \<equiv> wg_rows (gm_tile t)"
abbreviation "gm_wg_cols t \<equiv> wg_cols (gm_tile t)"

definition gm_block_rows :: "'v Gemm \<Rightarrow> nat" where
  "gm_block_rows t = gm_wg_rows t * gm_item_rows t"

definition gm_block_cols :: "'v Gemm \<Rightarrow> nat" where
  "gm_block_cols t = gm_wg_cols t * gm_item_cols t"

definition gm_wg_size :: "'v Gemm \<Rightarrow> nat" where
  "gm_wg_size t = gm_wg_rows t * gm_wg_cols t"

text \<open>The constructors store \<open>beta / alpha\<close>.\<close>

definition gm_stored_beta :: "'v::divide Gemm \<Rightarrow> 'v" where
  "gm_stored_beta t = gm_beta t div gm_alpha t"

section \<open>Registers\<close>

text \<open>Updates of a row of registers, and of all rows.\<close>

lemma fold_reg_row:
  "fold (\<lambda>j reg. reg(b + j := f j (reg (b + j)))) [0..<n] reg x
   = (if b \<le> x \<and> x < b + n then f (x - b) (reg x) else reg x)"
  by (induction n) auto

lemma fold_reg_rows:
  fixes reg :: "nat \<Rightarrow> 'v"
  assumes step: "\<And>i reg x. step i reg x = (if i * n \<le> x \<and> x < i * n + n then f i (x - i * n) (reg x) else reg x)"
  shows "fold step [0..<k] reg x = (if x < k * n then f (x div n) (x mod n) (reg x) else reg x)"
proof (induction k)
  case (Suc k)
  have last: "fold step [0..<Suc k] reg x = (if k * n \<le> x \<and> x < k * n + n
      then f k (x - k * n) (fold step [0..<k] reg x) else fold step [0..<k] reg x)"
  proof -
    have "fold step [0..<Suc k] reg = step k (fold step [0..<k] reg)" by simp
    then show ?thesis by (simp only: step)
  qed
  consider "x < k * n" | "k * n \<le> x" "x < k * n + n" | "k * n + n \<le> x" by linarith
  then show ?case
  proof cases
    case 2
    define y where "y = x - k * n"
    then have "x = k * n + y" "y < n" using 2 by auto
    then show ?thesis unfolding last Suc.IH by simp
  qed (simp_all add: last Suc.IH del: upt_Suc)
qed simp

lemma fold_reg_row_guard:
  "fold (\<lambda>j reg. if P j then reg(b + j := f j) else reg) [0..<n] reg x
   = (if b \<le> x \<and> x < b + n then (if P (x - b) then f (x - b) else reg x) else reg x)"
  by (induction n) auto

lemma reg_index:
  fixes i j :: nat
  assumes "j < n" "i < k"
  shows "i * n + j < k * n" "(i * n + j) div n = i" "(i * n + j) mod n = j"
proof -
  have "i * n + j < Suc i * n" using assms by simp
  also have "\<dots> \<le> k * n" using assms by (intro mult_le_mono1) simp
  finally show "i * n + j < k * n" .
qed (use assms in auto)

lemma vec_store_wrote: "wrote (\<lambda>x. ptr_add p (int x)) {..<n} packet m (vec_store n p packet m)"
proof -
  have "wrote (\<lambda>x. ptr_add p (int x)) (\<Union>x \<in> set [0..<n]. {x}) packet m (vec_store n p packet m)"
    unfolding vec_store_def by (rule fold_wrote [where R = UNIV]) (auto simp: inj_on_def wrote_def)
  then show ?thesis by (simp add: lessThan_atLeast0)
qed

lemma fold_reg_packets:
  assumes "0 < w"
  shows "fold (\<lambda>j reg. if P j then reg_store w (b + j * w) (f j) reg else reg) [0..<n] reg x
    = (if b \<le> x \<and> x < b + n * w \<and> P ((x - b) div w) then f ((x - b) div w) ((x - b) mod w) else reg x)"
proof (induction n)
  case (Suc n)
  consider "x < b + n * w" | y where "x = b + n * w + y" "y < w" | "b + Suc n * w \<le> x"
  proof (cases "x < b + n * w")
    case False
    then show ?thesis using that(2) [of "x - (b + n * w)"] that(3) by fastforce
  qed (use that in blast)
  then show ?case
  proof cases
    case 2
    then show ?thesis using Suc by (simp add: reg_store_def)
  qed (use Suc in \<open>auto simp: reg_store_def\<close>)
qed auto

text \<open>Loops that move a pointer or count offsets along.\<close>

lemma fold_ptr:
  "fst (fold (\<lambda>i (s, p). (f i p s, ptr_add p d)) [0..<n] (s, p)) = fold (\<lambda>i. f i (ptr_add p (int i * d))) [0..<n] s"
proof -
  have "fold (\<lambda>i (s, p). (f i p s, ptr_add p d)) [0..<n] (s, p)
      = (fold (\<lambda>i. f i (ptr_add p (int i * d))) [0..<n] s, ptr_add p (int n * d))"
    by (induction n) (simp_all add: algebra_simps)
  then show ?thesis by simp
qed

lemma fold_offsets:
  "fst (fold (\<lambda>i (s, a, b). (f i a b s, a + x, b + y)) [0..<n] (s, 0, 0))
   = fold (\<lambda>i. f i (int i * x) (i * y)) [0..<n] s"
proof -
  have "fold (\<lambda>i (s, a, b). (f i a b s, a + x, b + y)) [0..<n] (s, 0, 0)
      = (fold (\<lambda>i. f i (int i * x) (i * y)) [0..<n] s, int n * x, n * y)"
    by (induction n) (simp_all add: algebra_simps)
  then show ?thesis by simp
qed

lemma fold_reg_stripe:
  assumes "j < w"
  shows "fold (\<lambda>k reg. reg(j + k * w := f k)) [0..<n] reg x = (if x mod w = j \<and> x div w < n then f (x div w) else reg x)"
proof (induction n)
  case (Suc n)
  have "x = j + n * w \<longleftrightarrow> x mod w = j \<and> x div w = n" using assms by (auto simp: mult.commute)
  then show ?case using Suc by (auto simp: less_Suc_eq)
qed simp

lemma fold_reg_transposed:
  assumes "l \<le> w"
  shows "fold (\<lambda>j reg. fold (\<lambda>k reg. reg(j + k * w := f j k)) [0..<n] reg) [0..<l] reg x
    = (if x mod w < l \<and> x div w < n then f (x mod w) (x div w) else reg x)"
  using assms
proof (induction l)
  case (Suc l)
  then have "l < w" by simp
  show ?case unfolding upt_Suc_append [OF le0] fold_append fold.simps comp_def id_def fold_reg_stripe [OF \<open>l < w\<close>]
    using Suc by (auto simp: less_Suc_eq simp del: fun_upd_apply)
qed simp
section \<open>Where a register lives\<close>

text \<open>Row \<open>j\<close> of an item is \<open>packet_off p w j\<close> rows below its first, for packets of size \<open>p\<close> and \<open>w\<close> items side by side.\<close>

definition packet_off :: "nat \<Rightarrow> nat \<Rightarrow> nat \<Rightarrow> nat" where
  "packet_off p w j = j div p * w * p + j mod p"

lemma packet_off_1 [simp]: "packet_off (Suc 0) w j = j * w"
  by (simp add: packet_off_def)

text \<open>Item \<open>l\<close> of \<open>w\<close> and register \<open>j\<close> of \<open>n\<close>: a mixed radix representation of the numbers below \<open>w * n\<close>.\<close>

lemma packet_off_radix:
  assumes "0 < p" "n mod p = 0" "l < w" "j < n"
  shows "l * p + packet_off p w j < w * n" "(l * p + packet_off p w j) div p mod w = l"
    "(l * p + packet_off p w j) div p div w * p + (l * p + packet_off p w j) mod p = j"
proof -
  define q s where "q = j div p" and "s = j mod p"
  have s: "s < p" "j = q * p + s" using assms(1) by (auto simp: q_def s_def)
  have off: "l * p + packet_off p w j = (q * w + l) * p + s" by (simp add: packet_off_def q_def s_def algebra_simps)
  have d: "((q * w + l) * p + s) div p = q * w + l" "((q * w + l) * p + s) mod p = s" using s by auto
  obtain c where c: "n = c * p" using assms(2) by (metis dvd_def mod_eq_0_iff_dvd mult.commute)
  have "q < c" using s assms(4) unfolding c by (metis less_mult_imp_div_less q_def)
  then have "q * w + l < c * w" using assms(3) by (rule reg_index(1) [rotated])
  then have "(q * w + l) * p + s < c * w * p" using s(1) by (rule reg_index(1) [rotated])
  then show "l * p + packet_off p w j < w * n" unfolding off c by (simp add: ac_simps)
  show "(l * p + packet_off p w j) div p mod w = l" unfolding off d using assms(3) by simp
  show "(l * p + packet_off p w j) div p div w * p + (l * p + packet_off p w j) mod p = j"
    unfolding off d using assms(3) s by simp
qed

lemma packet_off_surj:
  assumes "0 < p" "n mod p = 0" "r < w * n"
  shows "r = (r div p mod w) * p + packet_off p w (r div p div w * p + r mod p)"
    "r div p mod w < w" "r div p div w * p + r mod p < n"
proof -
  have w: "0 < w" using assms(3) by (cases w) auto
  obtain c where c: "n = c * p" using assms(2) by (metis dvd_def mod_eq_0_iff_dvd mult.commute)
  have "r < (w * c) * p" using assms(3) unfolding c by (simp add: ac_simps)
  then have "r div p < w * c" by (simp add: less_mult_imp_div_less)
  then have "r div p div w < c" by (simp add: less_mult_imp_div_less mult.commute)
  then show "r div p div w * p + r mod p < n" unfolding c using assms(1) by (intro reg_index(1)) simp_all
  show "r div p mod w < w" using w by simp
  have "packet_off p w (r div p div w * p + r mod p) = r div p div w * w * p + r mod p"
    using assms(1) by (simp add: packet_off_def)
  moreover have "(r div p mod w) * p + r div p div w * w * p = r div p * p"
    by (metis add.commute div_mult_mod_eq distrib_right)
  ultimately show "r = (r div p mod w) * p + packet_off p w (r div p div w * p + r mod p)"
    by (metis add.assoc div_mult_mod_eq)
qed

lemma packet_off_inj:
  assumes "0 < p" "n mod p = 0" "0 < w" "j < n" "j' < n" "packet_off p w j = packet_off p w j'"
  shows "j = j'"
  using packet_off_radix(3) [OF assms(1-3,4)] packet_off_radix(3) [OF assms(1-3,5)] assms(6) by simp

lemma packet_off_whole [simp]: "j < p \<Longrightarrow> packet_off p w j = j"
  by (simp add: packet_off_def)

text \<open>The position of a work-item: its first row and column, whether its block is at the edge, the packet sizes.\<close>

record item_place =
  ip_check :: bool
  ip_a_packet :: nat
  ip_b_packet :: nat
  ip_dim_m :: nat
  ip_dim_n :: nat
  ip_out_of_range :: bool

text \<open>The element of \<open>C\<close> behind register \<open>(i, j)\<close>, column \<open>i\<close> and row \<open>j\<close> of the item; the registers whose element exists.\<close>

definition ip_row :: "'v Gemm \<Rightarrow> item_place \<Rightarrow> nat \<Rightarrow> nat" where
  "ip_row t p j = ip_dim_m p + packet_off (ip_a_packet p) (gm_wg_rows t) j"

definition ip_col :: "'v Gemm \<Rightarrow> item_place \<Rightarrow> nat \<Rightarrow> nat" where
  "ip_col t p i = ip_dim_n p + packet_off (ip_b_packet p) (gm_wg_cols t) i"

definition ip_in :: "'v Gemm \<Rightarrow> item_place \<Rightarrow> (nat \<times> nat) set" where
  "ip_in t p = {(i, j). i < gm_item_cols t \<and> j < gm_item_rows t \<and> ip_row t p j < gm_m t \<and> ip_col t p i < gm_n t}"

definition ip_sound :: "'v Gemm \<Rightarrow> item_place \<Rightarrow> bool" where
  "ip_sound t p \<longleftrightarrow>
     0 < ip_a_packet p \<and> gm_item_rows t mod ip_a_packet p = 0 \<and> 0 < ip_b_packet p \<and> gm_item_cols t mod ip_b_packet p = 0 \<and>
     0 < gm_wg_rows t \<and> 0 < gm_wg_cols t \<and> 0 < gm_item_rows t \<and> 0 < gm_item_cols t \<and>
     (\<not> ip_check p \<longrightarrow> (\<forall>i < gm_item_cols t. \<forall>j < gm_item_rows t. (i, j) \<in> ip_in t p))"

definition ip_cell :: "'v Gemm \<Rightarrow> item_place \<Rightarrow> addr \<Rightarrow> nat \<times> nat \<Rightarrow> addr" where
  "ip_cell t p C = (\<lambda>(i, j). ptr_add C (int (packet_off (ip_a_packet p) (gm_wg_rows t) j
                                       + packet_off (ip_b_packet p) (gm_wg_cols t) i * gm_ldc t)))"

lemma ip_cell_inj:
  assumes "ip_sound t p" "gm_m t \<le> gm_ldc t"
  shows "inj_on (ip_cell t p C) (ip_in t p)"
proof (rule inj_onI, clarify)
  fix i j i' j' assume ij: "(i, j) \<in> ip_in t p" "(i', j') \<in> ip_in t p" "ip_cell t p C (i, j) = ip_cell t p C (i', j')"
  let ?r = "packet_off (ip_a_packet p) (gm_wg_rows t)" and ?c = "packet_off (ip_b_packet p) (gm_wg_cols t)"
  have "?r j + gm_ldc t * ?c i = ?r j' + gm_ldc t * ?c i'"
    using ij(3) by (simp only: ip_cell_def prod.case ptr_add_inject of_nat_eq_iff mult.commute)
  then have "?r j = ?r j' \<and> ?c i = ?c i'"
    using ij assms(2) by (intro ld_index_inj) (auto simp: ip_in_def ip_row_def)
  then show "i = i' \<and> j = j'"
    using ij assms(1) packet_off_inj [of "ip_a_packet p" "gm_item_rows t" "gm_wg_rows t" j j']
      packet_off_inj [of "ip_b_packet p" "gm_item_cols t" "gm_wg_cols t" i i']
    by (auto simp: ip_in_def ip_sound_def)
qed

text \<open>The stores of an item, packet by packet.\<close>

lemma packet_stores_wrote:
  fixes t :: "'v Gemm" and f :: "nat \<Rightarrow> nat \<Rightarrow> 'w"
  assumes p: "ip_sound t p" and ld: "gm_m t \<le> gm_ldc t"
    and chk: "\<And>i q x. i < gm_item_cols t \<Longrightarrow> q < gm_item_rows t div ip_a_packet p \<Longrightarrow> x < ip_a_packet p \<Longrightarrow>
      chk i q \<longleftrightarrow> (i, q * ip_a_packet p + x) \<in> ip_in t p"
  shows "wrote (ip_cell t p C) (ip_in t p) (\<lambda>(i, j). f i j) m
    (fold (\<lambda>i. fold (\<lambda>q m. if chk i q then vec_store (ip_a_packet p)
         (ptr_add (ptr_add C (int (packet_off (ip_b_packet p) (gm_wg_cols t) i * gm_ldc t))) (int (q * gm_wg_rows t * ip_a_packet p)))
         (\<lambda>x. f i (q * ip_a_packet p + x)) m else m) [0..<gm_item_rows t div ip_a_packet p]) [0..<gm_item_cols t] m)"
proof -
  let ?ap = "ip_a_packet p" and ?ir = "gm_item_rows t"
  let ?D = "\<lambda>i. ptr_add C (int (packet_off (ip_b_packet p) (gm_wg_cols t) i * gm_ldc t))"
  let ?v = "\<lambda>(i, j). f i j"
  let ?packet = "\<lambda>i q m. if chk i q
               then vec_store ?ap (ptr_add (?D i) (int (q * gm_wg_rows t * ?ap))) (\<lambda>x. f i (q * ?ap + x)) m
               else m"
  let ?S = "\<lambda>i q. if chk i q then {(i, q * ?ap + x) |x. x < ?ap} else {}"
  have pos: "0 < ip_b_packet p" "0 < gm_wg_cols t" "0 < ?ap" using p by (auto simp: ip_sound_def)
  have one: "wrote (ip_cell t p C) (?S i q) ?v m (?packet i q m)" for i q m
  proof (cases "chk i q")
    case True
    have a: "ptr_add (ptr_add (?D i) (int (q * gm_wg_rows t * ?ap))) (int x) = ip_cell t p C (i, q * ?ap + x)" if "x < ?ap" for x
      using that by (simp add: ip_cell_def packet_off_def)
    have w: "wrote (\<lambda>x. ptr_add (ptr_add (?D i) (int (q * gm_wg_rows t * ?ap))) (int x)) {..<?ap}
        (\<lambda>x. f i (q * ?ap + x)) m (?packet i q m)"
      unfolding if_P [OF True] by (rule vec_store_wrote)
    show ?thesis
      unfolding wrote_def
    proof (intro conjI ballI allI impI)
      fix c assume "c \<in> ?S i q"
      then obtain x where x: "c = (i, q * ?ap + x)" "x < ?ap" using True by auto
      show "?packet i q m (ip_cell t p C c) = ?v c"
        using w x unfolding wrote_def a [OF x(2), symmetric] x(1) by (simp add: add.assoc)
    next
      fix c assume c: "c \<notin> ip_cell t p C ` ?S i q"
      have "c \<notin> (\<lambda>x. ptr_add (ptr_add (?D i) (int (q * gm_wg_rows t * ?ap))) (int x)) ` {..<?ap}"
      proof
        assume "c \<in> (\<lambda>x. ptr_add (ptr_add (?D i) (int (q * gm_wg_rows t * ?ap))) (int x)) ` {..<?ap}"
        then obtain x where "x < ?ap" "c = ip_cell t p C (i, q * ?ap + x)" using a by auto
        then have "c \<in> ip_cell t p C ` ?S i q" using True by auto
        then show False using c by blast
      qed
      then show "?packet i q m c = m c" using w unfolding wrote_def by blast
    qed
  qed (simp add: wrote_def)
  have inj: "inj_on (ip_cell t p C) (ip_in t p)" by (rule ip_cell_inj [OF p ld])
  have sub: "?S i q \<subseteq> ip_in t p" if "i < gm_item_cols t" "q < ?ir div ?ap" for i q
    using chk [OF that] by auto
  have row: "wrote (ip_cell t p C) (\<Union>q \<in> set [0..<?ir div ?ap]. ?S i q) ?v m (fold (?packet i) [0..<?ir div ?ap] m)"
    if "i < gm_item_cols t" for i m
    by (rule fold_wrote [OF inj one]) (use sub that in auto)
  have "wrote (ip_cell t p C) (\<Union>i \<in> set [0..<gm_item_cols t]. \<Union>q \<in> set [0..<?ir div ?ap]. ?S i q) ?v m (fold (\<lambda>i. fold (?packet i) [0..<?ir div ?ap]) [0..<gm_item_cols t] m)"
  proof (rule fold_wrote [OF inj row])
    fix i assume "i \<in> set [0..<gm_item_cols t]"
    then show "(\<Union>q \<in> set [0..<?ir div ?ap]. ?S i q) \<subseteq> ip_in t p" by (intro UN_least sub) simp_all
  qed simp
  moreover have "(\<Union>i \<in> set [0..<gm_item_cols t]. \<Union>q \<in> set [0..<?ir div ?ap]. ?S i q) = ip_in t p"
  proof (rule subset_antisym [OF _ subsetI])
    show "(\<Union>i \<in> set [0..<gm_item_cols t]. \<Union>q \<in> set [0..<?ir div ?ap]. ?S i q) \<subseteq> ip_in t p"
      by (intro UN_least sub) simp_all
    fix c assume c: "c \<in> ip_in t p"
    obtain i j where ij: "c = (i, j)" "i < gm_item_cols t" "j < ?ir" using c by (auto simp: ip_in_def)
    obtain n where n: "?ir = n * ?ap" using p unfolding ip_sound_def by (metis dvd_def mod_eq_0_iff_dvd mult.commute)
    have q: "j div ?ap < ?ir div ?ap" using ij(3) pos(3) unfolding n by (simp add: less_mult_imp_div_less)
    have "chk i (j div ?ap)"
      using chk [OF ij(2) q, of "j mod ?ap"] c ij(1) pos(3) by simp
    then have "c \<in> ?S i (j div ?ap)" using ij(1) pos(3) by (auto intro!: exI [of _ "j mod ?ap"])
    then show "c \<in> (\<Union>i \<in> set [0..<gm_item_cols t]. \<Union>q \<in> set [0..<?ir div ?ap]. ?S i q)"
      using ij(2) q by (intro UN_I [of i] UN_I [of "j div ?ap"]) simp_all
  qed
  ultimately show ?thesis by simp
qed

text \<open>The item's first element.\<close>

definition ip_base :: "'v Gemm \<Rightarrow> item_place \<Rightarrow> addr \<Rightarrow> addr" where
  "ip_base t p C = ptr_add C (int (ip_dim_m p) + int (ip_dim_n p * gm_ldc t))"

lemma ip_cell_base:
  "ip_cell t p (ip_base t p C) = (\<lambda>(i, j). ptr_add C (int (ip_row t p j + ip_col t p i * gm_ldc t)))"
  by (auto simp: ip_cell_def ip_base_def ip_row_def ip_col_def fun_eq_iff algebra_simps)

text \<open>The elements of an item.\<close>

definition place_item :: "('v Gemm \<Rightarrow> nat \<Rightarrow> nat \<Rightarrow> item_place) \<Rightarrow> 'v Gemm \<Rightarrow> nat \<Rightarrow> item_place" where
  "place_item place t e = place t (e div gm_wg_size t) (e mod gm_wg_size t)"

definition place_tile :: "('v Gemm \<Rightarrow> nat \<Rightarrow> nat \<Rightarrow> item_place) \<Rightarrow> 'v Gemm \<Rightarrow> nat \<Rightarrow> (nat \<times> nat) set" where
  "place_tile place t e =
     (let p = place_item place t e in (\<lambda>(i, j). (ip_row t p j, ip_col t p i)) ` ip_in t p)"

text \<open>What an item stores when it writes the elements of its registers.\<close>

lemma wrote_tile:
  assumes "wrote (\<lambda>(i, j). ptr_add C (int (ip_row t (place_item place t e) j + ip_col t (place_item place t e) i * gm_ldc t)))
     (ip_in t (place_item place t e))
     (\<lambda>(i, j). f (ip_row t (place_item place t e) j) (ip_col t (place_item place t e) i)) m m'"
  shows wrote_tile_frame: "d \<notin> tile_cells (gm_ldc t) (place_tile place t e) C \<Longrightarrow> m' d = m d"
    and wrote_tile_elem: "(i, j) \<in> place_tile place t e \<Longrightarrow> m' (ptr_add C (int (i + j * gm_ldc t))) = f i j"
proof -
  let ?p = "place_item place t e"
  show "m' d = m d" if d: "d \<notin> tile_cells (gm_ldc t) (place_tile place t e) C"
  proof -
    have "d \<notin> (\<lambda>(i, j). ptr_add C (int (ip_row t ?p j + ip_col t ?p i * gm_ldc t))) ` ip_in t ?p"
      using d by (fastforce simp: tile_cells_def place_tile_def Let_def)
    then show ?thesis using assms unfolding wrote_def by blast
  qed
  show "m' (ptr_add C (int (i + j * gm_ldc t))) = f i j" if "(i, j) \<in> place_tile place t e"
    using assms that unfolding wrote_def place_tile_def Let_def by fastforce
qed

text \<open>Where work-item \<open>i\<close> of a launch stands, for clusters of \<open>cl\<close> groups of \<open>L\<close> items.\<close>

lemma cluster_item:
  assumes "0 < L" "0 < cl"
  shows "nd_group (item_of L (cl * S * L) i) div cl = i div (L * cl)"
    "nd_group_range (item_of L (cl * S * L) i) div cl = S"
    "nd_group (item_of L (cl * S * L) i) mod cl = i mod (L * cl) div L"
    "nd_local (item_of L (cl * S * L) i) = i mod (L * cl) mod L"
  using assms by (simp_all add: item_of_def div_mult2_eq mod_mult2_eq)

section \<open>The layout\<close>

locale block_layout =
  fixes ok :: "'v Gemm \<Rightarrow> bool" and groups :: "'v Gemm \<Rightarrow> nat"
    and block_row block_col :: "'v Gemm \<Rightarrow> nat \<Rightarrow> nat"
    and place :: "'v Gemm \<Rightarrow> nat \<Rightarrow> nat \<Rightarrow> item_place"
  assumes dims: "ok t \<Longrightarrow> 0 < gm_item_rows t \<and> 0 < gm_item_cols t \<and> 0 < gm_wg_rows t \<and> 0 < gm_wg_cols t"
    and packets: "ok t \<Longrightarrow> 0 < ip_a_packet (place t g l) \<and> gm_item_rows t mod ip_a_packet (place t g l) = 0 \<and>
      0 < ip_b_packet (place t g l) \<and> gm_item_cols t mod ip_b_packet (place t g l) = 0"
    and packets_group: "ip_a_packet (place t g l) = ip_a_packet (place t g 0) \<and>
      ip_b_packet (place t g l) = ip_b_packet (place t g 0)"
    and start: "ok t \<Longrightarrow> ip_dim_m (place t g l) = l mod gm_wg_rows t * ip_a_packet (place t g l) + block_row t g * gm_block_rows t"
      "ok t \<Longrightarrow> ip_dim_n (place t g l) = l div gm_wg_rows t * ip_b_packet (place t g l) + block_col t g * gm_block_cols t"
    and inner: "ok t \<Longrightarrow> gm_wf t \<Longrightarrow> g < groups t \<Longrightarrow> \<not> ip_check (place t g l) \<Longrightarrow>
      block_row t g * gm_block_rows t + gm_block_rows t \<le> gm_m t \<and>
      block_col t g * gm_block_cols t + gm_block_cols t \<le> gm_n t"
    and groups_inj: "ok t \<Longrightarrow> gm_wf t \<Longrightarrow> g < groups t \<Longrightarrow> g' < groups t \<Longrightarrow>
      block_row t g = block_row t g' \<Longrightarrow> block_col t g = block_col t g' \<Longrightarrow> g = g'"
    and groups_cover: "ok t \<Longrightarrow> gm_wf t \<Longrightarrow> x * gm_block_rows t < gm_m t \<Longrightarrow> y * gm_block_cols t < gm_n t \<Longrightarrow>
      \<exists>g < groups t. block_row t g = x \<and> block_col t g = y"
begin

lemma row_eq:
  assumes "ok t"
  shows "ip_row t (place t g l) j = block_row t g * gm_block_rows t +
     (l mod gm_wg_rows t * ip_a_packet (place t g l) + packet_off (ip_a_packet (place t g l)) (gm_wg_rows t) j)"
  "ip_col t (place t g l) i = block_col t g * gm_block_cols t +
     (l div gm_wg_rows t * ip_b_packet (place t g l) + packet_off (ip_b_packet (place t g l)) (gm_wg_cols t) i)"
  by (simp_all add: ip_row_def ip_col_def start [OF assms])

lemma item_bounds:
  assumes "ok t"
  shows "e mod gm_wg_size t mod gm_wg_rows t < gm_wg_rows t" "e mod gm_wg_size t div gm_wg_rows t < gm_wg_cols t"
proof -
  show "e mod gm_wg_size t mod gm_wg_rows t < gm_wg_rows t" using dims [OF assms] by simp
  have "e mod gm_wg_size t < gm_wg_cols t * gm_wg_rows t"
    using dims [OF assms] by (simp add: gm_wg_size_def mult.commute)
  then show "e mod gm_wg_size t div gm_wg_rows t < gm_wg_cols t" by (rule less_mult_imp_div_less)
qed

lemma packets':
  assumes "ok t"
  shows "0 < ip_a_packet (place t g l)" "gm_item_rows t mod ip_a_packet (place t g l) = 0"
    "0 < ip_b_packet (place t g l)" "gm_item_cols t mod ip_b_packet (place t g l) = 0"
  using packets [OF assms] by simp_all

lemma offsets:
  assumes ok: "ok t" and l: "l mod gm_wg_rows t < gm_wg_rows t" "l div gm_wg_rows t < gm_wg_cols t"
  shows "j < gm_item_rows t \<Longrightarrow> l mod gm_wg_rows t * ip_a_packet (place t g l)
      + packet_off (ip_a_packet (place t g l)) (gm_wg_rows t) j < gm_block_rows t"
    and "i < gm_item_cols t \<Longrightarrow> l div gm_wg_rows t * ip_b_packet (place t g l)
      + packet_off (ip_b_packet (place t g l)) (gm_wg_cols t) i < gm_block_cols t"
  unfolding gm_block_rows_def gm_block_cols_def
  by (rule packet_off_radix(1), (rule packets' [OF ok])+, rule l, assumption)+

lemma item_sound:
  assumes ok: "ok t" and wf: "gm_wf t" and e: "e < gm_wg_size t * groups t"
  shows "ip_sound t (place_item place t e)"
proof -
  note l = item_bounds [OF ok, of e]
  have g: "e div gm_wg_size t < groups t" using e by (simp add: less_mult_imp_div_less mult.commute)
  have all_in: "(i, j) \<in> ip_in t (place_item place t e)"
    if "\<not> ip_check (place_item place t e)" "i < gm_item_cols t" "j < gm_item_rows t" for i j
    using inner [OF ok wf g that(1) [unfolded place_item_def]] offsets(1) [OF ok l that(3), of "e div gm_wg_size t"]
      offsets(2) [OF ok l that(2), of "e div gm_wg_size t"] that(2,3)
    by (simp add: ip_in_def place_item_def row_eq [OF ok])
  show ?thesis
    unfolding ip_sound_def using all_in dims [OF ok] packets [OF ok] by (simp add: place_item_def)
qed

lemma tile_bounds: "(i, j) \<in> place_tile place t e \<Longrightarrow> i < gm_m t \<and> j < gm_n t"
  by (auto simp: place_tile_def ip_in_def Let_def)

lemma tile_disjoint:
  assumes ok: "ok t" and wf: "gm_wf t" and e: "e < gm_wg_size t * groups t"
    and e': "e' < gm_wg_size t * groups t" and ne: "e \<noteq> e'"
  shows "place_tile place t e \<inter> place_tile place t e' = {}"
proof (rule ccontr)
  assume "place_tile place t e \<inter> place_tile place t e' \<noteq> {}"
  then obtain i j i' j' where ij: "(i, j) \<in> ip_in t (place_item place t e)" "(i', j') \<in> ip_in t (place_item place t e')"
    "ip_row t (place_item place t e) j = ip_row t (place_item place t e') j'"
    "ip_col t (place_item place t e) i = ip_col t (place_item place t e') i'"
    by (auto simp: place_tile_def Let_def)
  define g l g' l' where "g = e div gm_wg_size t" and "l = e mod gm_wg_size t"
    and "g' = e' div gm_wg_size t" and "l' = e' mod gm_wg_size t"
  have bounds: "i < gm_item_cols t" "j < gm_item_rows t" "i' < gm_item_cols t" "j' < gm_item_rows t"
    using ij(1,2) by (auto simp: ip_in_def)
  have gs: "g < groups t" "g' < groups t"
    using e e' by (simp_all add: g_def g'_def less_mult_imp_div_less mult.commute)
  note l = item_bounds [OF ok, of e, folded l_def] and l' = item_bounds [OF ok, of e', folded l'_def]
  have pos: "0 < gm_block_rows t" "0 < gm_block_cols t" using dims [OF ok] by (auto simp: gm_block_rows_def gm_block_cols_def)
  note r = ij(3) [unfolded place_item_def row_eq [OF ok], folded g_def l_def g'_def l'_def]
    and c = ij(4) [unfolded place_item_def row_eq [OF ok], folded g_def l_def g'_def l'_def]
  have row: "block_row t g = block_row t g'"
    using arg_cong [OF r, of "\<lambda>x. x div gm_block_rows t"] offsets(1) [OF ok l bounds(2), of g]
      offsets(1) [OF ok l' bounds(4), of g'] pos(1) by simp
  have col: "block_col t g = block_col t g'"
    using arg_cong [OF c, of "\<lambda>x. x div gm_block_cols t"] offsets(2) [OF ok l bounds(1), of g]
      offsets(2) [OF ok l' bounds(3), of g'] pos(2) by simp
  have g: "g = g'" by (rule groups_inj [OF ok wf gs row col])
  have packets: "ip_a_packet (place t g l) = ip_a_packet (place t g l')" "ip_b_packet (place t g l) = ip_b_packet (place t g l')"
    using packets_group [of t g l] packets_group [of t g l'] by simp_all
  have "l mod gm_wg_rows t = l' mod gm_wg_rows t"
    using packet_off_radix(2) [OF packets'(1,2) [OF ok] l(1) bounds(2), of g l]
      packet_off_radix(2) [OF packets'(1,2) [OF ok] l'(1) bounds(4), of g l'] r row g packets by simp
  moreover have "l div gm_wg_rows t = l' div gm_wg_rows t"
    using packet_off_radix(2) [OF packets'(3,4) [OF ok] l(2) bounds(1), of g l]
      packet_off_radix(2) [OF packets'(3,4) [OF ok] l'(2) bounds(3), of g l'] c col g packets by simp
  ultimately have "l = l'" by (metis div_mult_mod_eq)
  then have "e = e'" using g unfolding g_def g'_def l_def l'_def by (metis div_mult_mod_eq)
  then show False using ne by simp
qed

lemma tile_cover:
  assumes ok: "ok t" and wf: "gm_wf t" and rc: "r < gm_m t" "c < gm_n t"
  shows "\<exists>e < gm_wg_size t * groups t. (r, c) \<in> place_tile place t e"
proof -
  have pos: "0 < gm_block_rows t" "0 < gm_block_cols t" "0 < gm_wg_rows t" "0 < gm_wg_cols t"
    using dims [OF ok] by (auto simp: gm_block_rows_def gm_block_cols_def)
  have "r div gm_block_rows t * gm_block_rows t < gm_m t" "c div gm_block_cols t * gm_block_cols t < gm_n t"
    using rc by (metis div_times_less_eq_dividend le_less_trans)+
  then obtain g where g: "g < groups t" "block_row t g = r div gm_block_rows t" "block_col t g = c div gm_block_cols t"
    using groups_cover [OF ok wf] by blast
  define ap bp where "ap = ip_a_packet (place t g 0)" and "bp = ip_b_packet (place t g 0)"
  have packets: "ip_a_packet (place t g l) = ap" "ip_b_packet (place t g l) = bp" for l
    using packets_group [of t g l] by (simp_all add: ap_def bp_def)
  have "r mod gm_block_rows t < gm_wg_rows t * gm_item_rows t" "c mod gm_block_cols t < gm_wg_cols t * gm_item_cols t"
    using pos by (simp_all add: gm_block_rows_def gm_block_cols_def)
  note R = packet_off_surj [OF packets'(1,2) [OF ok, of g 0, folded ap_def] this(1)]
    and C = packet_off_surj [OF packets'(3,4) [OF ok, of g 0, folded bp_def] this(2)]
  define lr j lc i where "lr = r mod gm_block_rows t div ap mod gm_wg_rows t"
    and "j = r mod gm_block_rows t div ap div gm_wg_rows t * ap + r mod gm_block_rows t mod ap"
    and "lc = c mod gm_block_cols t div bp mod gm_wg_cols t"
    and "i = c mod gm_block_cols t div bp div gm_wg_cols t * bp + c mod gm_block_cols t mod bp"
  note R = R [folded lr_def j_def] and C = C [folded lc_def i_def]
  define l where "l = lc * gm_wg_rows t + lr"
  have l: "l < gm_wg_size t" "l div gm_wg_rows t = lc" "l mod gm_wg_rows t = lr"
    using reg_index [OF R(2) C(2), folded l_def] by (simp_all add: gm_wg_size_def mult.commute)
  define e where "e = g * gm_wg_size t + l"
  have e: "e < groups t * gm_wg_size t" "e div gm_wg_size t = g" "e mod gm_wg_size t = l"
    using reg_index [OF l(1) g(1), folded e_def] by simp_all
  have p: "place_item place t e = place t g l" by (simp add: place_item_def e)
  have row: "ip_row t (place_item place t e) j = r" and col: "ip_col t (place_item place t e) i = c"
    unfolding p row_eq [OF ok] packets l(2,3) g(2,3) R(1) [symmetric] C(1) [symmetric] by simp_all
  have "(i, j) \<in> ip_in t (place_item place t e)" using row col rc R(3) C(3) by (simp add: ip_in_def)
  then have "(r, c) \<in> place_tile place t e" unfolding place_tile_def Let_def using row col by force
  then show ?thesis using e(1) by (metis mult.commute)
qed

end

section \<open>Rows of blocks\<close>

text \<open>The number of work-groups of a cluster and the block of group \<open>g\<close>, in the kernels without local memory.\<close>

definition gm_blocks_per_row :: "'v Gemm \<Rightarrow> nat" where
  "gm_blocks_per_row t = (gm_m t - 1) div gm_block_rows t + 1"

definition gm_blocks_cluster :: "'v Gemm \<Rightarrow> nat" where
  "gm_blocks_cluster t =
     ((gm_m t - 1) div (gm_item_rows t * gm_wg_rows t) + 1) * ((gm_n t - 1) div (gm_item_cols t * gm_wg_cols t) + 1)"

lemma div_below_cdiv: "x * b < (m::nat) \<Longrightarrow> 0 < b \<Longrightarrow> x < (m - 1) div b + 1"
  by (simp add: less_Suc_eq_le less_eq_div_iff_mult_less_eq)

lemma blocks_cover:
  assumes pos: "0 < gm_block_rows t" "0 < gm_block_cols t" and xy: "x * gm_block_rows t < gm_m t" "y * gm_block_cols t < gm_n t"
  shows "\<exists>g < gm_blocks_cluster t. g mod gm_blocks_per_row t = x \<and> g div gm_blocks_per_row t = y"
proof -
  have "x < gm_blocks_per_row t" "y < (gm_n t - 1) div gm_block_cols t + 1"
    unfolding gm_blocks_per_row_def by (rule div_below_cdiv; use pos xy in simp)+
  note g = reg_index [OF this]
  have "gm_blocks_cluster t = ((gm_n t - 1) div gm_block_cols t + 1) * gm_blocks_per_row t"
    by (simp add: gm_blocks_cluster_def gm_blocks_per_row_def gm_block_rows_def gm_block_cols_def ac_simps)
  then show ?thesis using g by metis
qed

text \<open>A memory for examples: every cell holds the sum of its buffer and its offset.\<close>

definition real_mem :: "real mem" where
  "real_mem = (\<lambda>(b, k). real b + of_int k)"

end
