(* ===== verification/Gemm_No_Local.thy ===== *)
theory Gemm_No_Local
  imports Gemm_Blocks
begin

text \<open>
  The kernel without local memory and with partial vectorisation,
  \<^verbatim>\<open>src/operations/blas3/gemm_no_local_partial_vec.hpp\<close>. A work-group computes a block of \<open>C\<close>, an
  item \<open>item_rows\<close> times \<open>item_cols\<close> elements of it, which it accumulates in registers. In a block that lies
  inside the matrix it moves packets of \<open>a_packet_size\<close> rows and \<open>b_packet_size\<close> columns; at the edge it moves
  single elements and checks the bounds.

  \<open>v\<close> is the build's \<open>GEMM_VECTORIZATION_SUPPORT\<close>. Registers are functions on indices; \<open>u\<close> is what they
  hold before anything is stored. The barrier of the \<open>ARM_GPU\<close> build guards no shared state and is left out.
\<close>

section \<open>The kernel\<close>

definition np_get_workgroup_cluster :: "'v Gemm \<Rightarrow> nat" where
  "np_get_workgroup_cluster t =
     ((gm_m t - 1) div (gm_item_rows t * gm_wg_rows t) + 1) * ((gm_n t - 1) div (gm_item_cols t * gm_wg_cols t) + 1)"

definition np_get_num_workgroup_cluster :: "'v Gemm \<Rightarrow> nat \<Rightarrow> nat" where
  "np_get_num_workgroup_cluster t compute_units =
     (let num_gemm_per_compute_units = 4
      in (num_gemm_per_compute_units * compute_units - 1) div np_get_workgroup_cluster t + 1)"

definition np_get_nd_range :: "'v Gemm \<Rightarrow> nat \<Rightarrow> nat \<times> nat" where
  "np_get_nd_range t compute_units =
     (let nwg = np_get_workgroup_cluster t * np_get_num_workgroup_cluster t compute_units; wgs = gm_wg_size t
      in (wgs, nwg * wgs))"

definition np_get_size :: "'v Gemm \<Rightarrow> nat" where
  "np_get_size t = gm_m t * gm_n t"

definition np_valid_thread :: "'v Gemm \<Rightarrow> nd_item \<Rightarrow> bool" where
  "np_valid_thread t it \<longleftrightarrow> True"

text \<open>\<open>load\<close>: \<open>n\<close> packets, the pointer, the index and the register moving on after each.\<close>

fun np_load_loop ::
  "'v::zero mem \<Rightarrow> bool \<Rightarrow> nat \<Rightarrow> nat \<Rightarrow> (nat \<Rightarrow> bool) \<Rightarrow> int \<Rightarrow> nat \<Rightarrow> addr \<Rightarrow> nat \<Rightarrow> nat \<Rightarrow> (nat \<Rightarrow> 'v) \<Rightarrow> nat \<Rightarrow> 'v" where
  "np_load_loop m check_block work_per_load next_element chk_boundary ld 0 ptr index pos reg = reg"
| "np_load_loop m check_block work_per_load next_element chk_boundary ld (Suc n) ptr index pos reg =
     (let in_range = do_check check_block (chk_boundary (index + (work_per_load - 1)));
          in_vec = (if in_range then vec_load m ptr else (\<lambda>i. 0))
      in np_load_loop m check_block work_per_load next_element chk_boundary ld n
           (ptr_add ptr ld) (index + next_element) (pos + work_per_load) (reg_store work_per_load pos in_vec reg))"

definition np_load ::
  "'v::zero mem \<Rightarrow> nat \<Rightarrow> nat \<Rightarrow> bool \<Rightarrow> nat \<Rightarrow> addr \<Rightarrow> (nat \<Rightarrow> 'v) \<Rightarrow> int \<Rightarrow> nat \<Rightarrow> (nat \<Rightarrow> bool) \<Rightarrow> bool \<Rightarrow> nat \<Rightarrow> 'v" where
  "np_load m item_size next_element check_block work_per_load ptr reg ld index chk_boundary out_of_range =
     (if out_of_range then reg
      else np_load_loop m check_block work_per_load next_element chk_boundary ld (item_size div work_per_load) ptr index 0 reg)"

definition np_compute_block ::
  "'v::{plus, times} Gemm \<Rightarrow> (nat \<Rightarrow> 'v) \<Rightarrow> (nat \<Rightarrow> 'v) \<Rightarrow> (nat \<Rightarrow> 'v) \<Rightarrow> nat \<Rightarrow> 'v" where
  "np_compute_block t reg_a reg_b reg_res =
     fold (\<lambda>i reg_res.
         fold (\<lambda>j reg_res. reg_res(i * gm_item_rows t + j := reg_a j * reg_b i + reg_res (i * gm_item_rows t + j)))
           [0..<gm_item_rows t] reg_res)
       [0..<gm_item_cols t] reg_res"

text \<open>How far the pointer into \<open>C\<close> moves after column \<open>i\<close>.\<close>

definition np_c_step :: "'v Gemm \<Rightarrow> nat \<Rightarrow> nat \<Rightarrow> nat" where
  "np_c_step t b_packet_size i =
     (if (i + 1) mod b_packet_size = 0 then (gm_wg_cols t * b_packet_size - (b_packet_size - 1)) * gm_ldc t
      else gm_ldc t)"

definition np_check_c :: "'v Gemm \<Rightarrow> item_place \<Rightarrow> nat \<Rightarrow> nat \<Rightarrow> bool" where
  "np_check_c t p i j \<longleftrightarrow>
     do_check (ip_check p) (ip_dim_m p + j * gm_wg_rows t < gm_m t \<and> ip_dim_n p + i * gm_wg_cols t < gm_n t)"

definition np_scaling_c ::
  "'v::{zero, times, divide} Gemm \<Rightarrow> item_place \<Rightarrow> 'v mem \<Rightarrow> addr \<Rightarrow> (nat \<Rightarrow> 'v) \<Rightarrow> nat \<Rightarrow> 'v" where
  "np_scaling_c t p m C reg_res =
     (if beta_zero (gm_cfg t) then fold (\<lambda>i reg_res. reg_res(i := 0)) [0..<gm_item_cols t * gm_item_rows t] reg_res
      else if ip_out_of_range p then reg_res
      else fst (fold (\<lambda>i (reg_res, C).
          (fold (\<lambda>j reg_res. if np_check_c t p i j
               then reg_res(i * gm_item_rows t + j := gm_stored_beta t *
                      m (ptr_add C (int (j mod ip_a_packet p + j div ip_a_packet p * gm_wg_rows t * ip_a_packet p))))
               else reg_res) [0..<gm_item_rows t] reg_res,
           ptr_add C (int (np_c_step t (ip_b_packet p) i))))
        [0..<gm_item_cols t] (reg_res, C)))"

definition np_store ::
  "'v::times Gemm \<Rightarrow> item_place \<Rightarrow> (nat \<Rightarrow> 'v) \<Rightarrow> addr \<Rightarrow> 'v mem \<Rightarrow> 'v mem" where
  "np_store t p reg_res C m =
     (if ip_out_of_range p then m
      else fst (fold (\<lambda>i (m, C).
          (fold (\<lambda>j m. if np_check_c t p i j
               then vec_store (ip_a_packet p) (ptr_add C (int (j * gm_wg_rows t * ip_a_packet p)))
                      (\<lambda>x. reg_res (i * gm_item_rows t + j * ip_a_packet p + x) * gm_alpha t) m
               else m) [0..<gm_item_rows t div ip_a_packet p] m,
           ptr_add C (int (np_c_step t (ip_b_packet p) i))))
        [0..<gm_item_cols t] (m, C)))"

text \<open>The loop over \<open>k\<close>.\<close>

definition np_A_ptr_index :: "'v Gemm \<Rightarrow> item_place \<Rightarrow> int" where
  "np_A_ptr_index t p = (if TransA (gm_cfg t) then int (gm_lda t) else 1) * int (gm_wg_rows t * ip_a_packet p)"

definition np_B_ptr_index :: "'v Gemm \<Rightarrow> item_place \<Rightarrow> int" where
  "np_B_ptr_index t p = (if TransB (gm_cfg t) then 1 else int (gm_ldb t)) * int (gm_wg_cols t * ip_b_packet p)"

fun np_k_loop ::
  "'v::{zero, plus, times} Gemm \<Rightarrow> item_place \<Rightarrow> 'v mem \<Rightarrow> nat \<Rightarrow> addr \<Rightarrow> addr \<Rightarrow> (nat \<Rightarrow> 'v) \<Rightarrow> (nat \<Rightarrow> 'v) \<Rightarrow> (nat \<Rightarrow> 'v) \<Rightarrow> nat \<Rightarrow> 'v" where
  "np_k_loop t p m 0 A B reg_a reg_b reg_res = reg_res"
| "np_k_loop t p m (Suc k) A B reg_a reg_b reg_res =
     (let reg_a = np_load m (gm_item_rows t) (gm_wg_rows t * ip_a_packet p) (ip_check p) (ip_a_packet p) A reg_a
                    (np_A_ptr_index t p) (ip_dim_m p) (\<lambda>i. i < gm_m t) (ip_out_of_range p);
          reg_b = np_load m (gm_item_cols t) (gm_wg_cols t * ip_b_packet p) (ip_check p) (ip_b_packet p) B reg_b
                    (np_B_ptr_index t p) (ip_dim_n p) (\<lambda>i. i < gm_n t) (ip_out_of_range p);
          reg_res = np_compute_block t reg_a reg_b reg_res
      in np_k_loop t p m k (ptr_add A (if TransA (gm_cfg t) then 1 else int (gm_lda t)))
           (ptr_add B (if TransB (gm_cfg t) then int (gm_ldb t) else 1)) reg_a reg_b reg_res)"

text \<open>\<open>compute_gemm_no_shared_pannel\<close>: the body of its loop over the batch.\<close>

definition np_panel ::
  "(nat \<Rightarrow> 'v) \<Rightarrow> 'v::{zero, plus, times, divide} Gemm \<Rightarrow> item_place \<Rightarrow> addr \<Rightarrow> addr \<Rightarrow> addr \<Rightarrow> 'v mem \<Rightarrow> 'v mem" where
  "np_panel u t p A B C m =
     (let reg_res = np_scaling_c t p m C u;
          reg_res = np_k_loop t p m (gm_k t) A B u u reg_res
      in np_store t p reg_res C m)"

text \<open>The part of \<open>eval\<close> that places item \<open>item_id\<close> of group \<open>wg_id\<close> of a cluster.\<close>

definition np_place_of :: "bool \<Rightarrow> 'v Gemm \<Rightarrow> nat \<Rightarrow> nat \<Rightarrow> item_place" where
  "np_place_of v t wg_id item_id =
     (let number_of_block_per_row = (gm_m t - 1) div gm_block_rows t + 1;
          tile_id_row = wg_id mod number_of_block_per_row;
          tile_id_col = wg_id div number_of_block_per_row;
          wg_row = tile_id_row * gm_block_rows t;
          wg_col = tile_id_col * gm_block_cols t;
          is_internal_block = (gm_m t - wg_row \<ge> gm_block_rows t \<and> gm_n t - wg_col \<ge> gm_block_cols t);
          a_packet_size = (if TransA (gm_cfg t) then 1 else packet_size v (VectorSize (gm_cfg t)));
          b_packet_size = (if TransB (gm_cfg t) then packet_size v (VectorSize (gm_cfg t)) else 1);
          local_item_id_row = item_id mod gm_wg_rows t * (if is_internal_block then a_packet_size else 1);
          local_item_id_col = item_id div gm_wg_rows t * (if is_internal_block then b_packet_size else 1)
      in \<lparr>ip_check = (\<not> is_internal_block),
          ip_a_packet = (if is_internal_block then a_packet_size else 1),
          ip_b_packet = (if is_internal_block then b_packet_size else 1),
          ip_dim_m = local_item_id_row + wg_row,
          ip_dim_n = local_item_id_col + wg_col,
          ip_out_of_range = (local_item_id_row + wg_row \<ge> gm_m t \<or> local_item_id_col + wg_col \<ge> gm_n t)\<rparr>)"

definition np_eval ::
  "bool \<Rightarrow> (nat \<Rightarrow> 'v) \<Rightarrow> 'v::{zero, plus, times, divide} Gemm \<Rightarrow> nd_item \<Rightarrow> 'v mem \<Rightarrow> 'v mem" where
  "np_eval v u t it m =
     (let wg_batch_id = nd_group it div np_get_workgroup_cluster t
      in if gm_batch_size t \<le> wg_batch_id then m
         else
           let batch_stride = nd_group_range it div np_get_workgroup_cluster t;
               orig_A = ptr_add (mv_get_pointer (gm_a t)) (int wg_batch_id * gm_a_size t);
               orig_B = ptr_add (mv_get_pointer (gm_b t)) (int wg_batch_id * gm_b_size t);
               orig_C = ptr_add (mv_get_pointer (gm_c t)) (int wg_batch_id * gm_c_size t);
               wg_id = nd_group it mod np_get_workgroup_cluster t;
               p = np_place_of v t wg_id (nd_local it);
               orig_A = ptr_add orig_A (int (ip_dim_m p) * (if TransA (gm_cfg t) then int (gm_lda t) else 1));
               orig_B = ptr_add orig_B (int (ip_dim_n p) * (if TransB (gm_cfg t) then 1 else int (gm_ldb t)));
               orig_C = ptr_add orig_C (int (ip_dim_m p) + int (ip_dim_n p * gm_ldc t))
           in gemm_batches (np_panel u t p) t wg_batch_id batch_stride (int (gm_batch_size t)) orig_A orig_B orig_C m)"

definition gemm_no_local_partial_execute ::
  "'t device_run \<Rightarrow> policy_handler \<Rightarrow> bool \<Rightarrow> (nat \<Rightarrow> 'v) \<Rightarrow> 'v::{zero, plus, times, divide} Gemm \<Rightarrow> 'v mem \<Rightarrow> 'v mem" where
  "gemm_no_local_partial_execute r ph v u t m =
     (let rng = np_get_nd_range t (ph_num_compute_units ph)
      in execute_tree r (np_valid_thread t) (np_eval v u t) (fst rng) (snd rng) m)"

section \<open>Registers\<close>

lemma np_load_loop_eq:
  assumes "0 < w"
  shows "np_load_loop m c w next chk ld n ptr index pos reg r =
    (if pos \<le> r \<and> r < pos + n * w then
       (if do_check c (chk (index + (r - pos) div w * next + (w - 1)))
        then m (ptr_add ptr (int ((r - pos) div w) * ld + int ((r - pos) mod w))) else 0)
     else reg r)"
proof (induction n arbitrary: ptr index pos reg)
  case (Suc n)
  consider "r < pos" | "pos \<le> r" "r < pos + w" | "pos + w \<le> r" "r < pos + Suc n * w" | "pos + Suc n * w \<le> r"
    by linarith
  then show ?case
  proof cases
    case 1
    then show ?thesis by (simp add: Suc.IH reg_store_def Let_def)
  next
    case 2
    then show ?thesis by (auto simp: Suc.IH reg_store_def vec_load_def Let_def)
  next
    case 3
    define x where "x = r - (pos + w)"
    have x: "r = pos + w + x" "x < n * w" using 3 by (auto simp: x_def)
    have "(w + x) div w = Suc (x div w)" "(w + x) mod w = x mod w" using assms by (simp_all add: div_add_self1)
    then have d: "(r - pos) div w = Suc (x div w)" "(r - pos) mod w = x mod w" "r - (pos + w) = x" using x by simp_all
    have "pos + w \<le> r \<and> r < pos + w + n * w" "pos \<le> r \<and> r < pos + Suc n * w" using 3 by simp_all
    then show ?thesis
      unfolding np_load_loop.simps Let_def Suc.IH d by (simp add: algebra_simps)
  next
    case 4
    then show ?thesis by (auto simp: Suc.IH reg_store_def Let_def)
  qed
qed auto

lemma np_load_eq:
  assumes "0 < w" "item_size mod w = 0" "r < item_size"
  shows "np_load m item_size next c w ptr reg ld index chk False r =
    (if do_check c (chk (index + r div w * next + (w - 1)))
     then m (ptr_add ptr (int (r div w) * ld + int (r mod w))) else 0)"
proof -
  have "item_size div w * w = item_size" using assms(2) by (metis add.right_neutral div_mult_mod_eq)
  then show ?thesis using assms by (simp add: np_load_def np_load_loop_eq)
qed

lemma np_compute_block_eq:
  "np_compute_block t reg_a reg_b reg_res x =
    (if x < gm_item_cols t * gm_item_rows t
     then reg_a (x mod gm_item_rows t) * reg_b (x div gm_item_rows t) + reg_res x else reg_res x)"
  unfolding np_compute_block_def
  by (rule trans [OF fold_reg_rows [where f = "\<lambda>i j y. reg_a j * reg_b i + y"]], rule fold_reg_row) simp

text \<open>The pointer into \<open>C\<close> follows the columns.\<close>

lemma np_c_step_off:
  assumes "0 < p" "0 < gm_wg_cols t"
  shows "packet_off p (gm_wg_cols t) (Suc i) * gm_ldc t = packet_off p (gm_wg_cols t) i * gm_ldc t + np_c_step t p i"
proof (cases "Suc i mod p = 0")
  case True
  have "p - 1 \<le> gm_wg_cols t * p" using assms by (cases "gm_wg_cols t") auto
  moreover have "i mod p = p - 1" "Suc i div p = Suc (i div p)"
    using True assms(1) by (auto simp: mod_Suc div_Suc split: if_splits)
  ultimately have "packet_off p (gm_wg_cols t) (Suc i) = packet_off p (gm_wg_cols t) i + (gm_wg_cols t * p - (p - 1))"
    using True by (simp add: packet_off_def algebra_simps)
  then show ?thesis using True by (simp add: np_c_step_def distrib_right)
next
  case False
  then have "packet_off p (gm_wg_cols t) (Suc i) = packet_off p (gm_wg_cols t) i + 1"
    by (auto simp: packet_off_def mod_Suc div_Suc split: if_splits)
  then show ?thesis using False by (simp add: np_c_step_def)
qed

lemma fold_np_columns:
  assumes "0 < ip_b_packet p" "0 < gm_wg_cols t"
  shows "fst (fold (\<lambda>i (s, C). (f i C s, ptr_add C (int (np_c_step t (ip_b_packet p) i)))) [0..<n] (s, C))
    = fold (\<lambda>i. f i (ptr_add C (int (packet_off (ip_b_packet p) (gm_wg_cols t) i * gm_ldc t)))) [0..<n] s"
proof -
  have "fold (\<lambda>i (s, C). (f i C s, ptr_add C (int (np_c_step t (ip_b_packet p) i)))) [0..<n] (s, C)
    = (fold (\<lambda>i. f i (ptr_add C (int (packet_off (ip_b_packet p) (gm_wg_cols t) i * gm_ldc t)))) [0..<n] s,
       ptr_add C (int (packet_off (ip_b_packet p) (gm_wg_cols t) n * gm_ldc t)))"
  proof (induction n)
    case 0
    then show ?case using assms(1) by (simp add: packet_off_def)
  next
    case (Suc n)
    then show ?case using np_c_step_off [OF assms, of n] by simp
  qed
  then show ?thesis by simp
qed

section \<open>One item\<close>

text \<open>What a panel relies on.\<close>

definition np_place_ok :: "'v Gemm \<Rightarrow> item_place \<Rightarrow> bool" where
  "np_place_ok t p \<longleftrightarrow> ip_sound t p \<and> (ip_check p \<longrightarrow> ip_a_packet p = 1 \<and> ip_b_packet p = 1) \<and>
     (TransA (gm_cfg t) \<longrightarrow> ip_a_packet p = 1) \<and> (\<not> TransB (gm_cfg t) \<longrightarrow> ip_b_packet p = 1) \<and>
     (ip_out_of_range p \<longleftrightarrow> gm_m t \<le> ip_dim_m p \<or> gm_n t \<le> ip_dim_n p)"

lemma np_check_c_iff:
  assumes "np_place_ok t p" "i < gm_item_cols t" "j < gm_item_rows t"
  shows "np_check_c t p i j \<longleftrightarrow> (ip_check p \<longrightarrow> (i, j) \<in> ip_in t p)"
  using assms by (auto simp: np_check_c_def do_check_def np_place_ok_def ip_sound_def ip_in_def ip_row_def ip_col_def)

lemma np_check_c_packet:
  assumes "np_place_ok t p" "i < gm_item_cols t" "q < gm_item_rows t div ip_a_packet p" "x < ip_a_packet p"
  shows "np_check_c t p i q \<longleftrightarrow> (i, q * ip_a_packet p + x) \<in> ip_in t p" "q * ip_a_packet p + x < gm_item_rows t"
proof -
  have "gm_item_rows t mod ip_a_packet p = 0" using assms(1) by (simp add: np_place_ok_def ip_sound_def)
  then have "gm_item_rows t div ip_a_packet p * ip_a_packet p = gm_item_rows t"
    by (metis add.right_neutral div_mult_mod_eq)
  then show lt: "q * ip_a_packet p + x < gm_item_rows t" using reg_index(1) [OF assms(4,3)] by simp
  show "np_check_c t p i q \<longleftrightarrow> (i, q * ip_a_packet p + x) \<in> ip_in t p"
  proof (cases "ip_check p")
    case True
    then show ?thesis using assms np_check_c_iff [OF assms(1,2), of q] by (simp add: np_place_ok_def ip_sound_def)
  next
    case False
    then show ?thesis using assms(1,2) lt by (simp add: np_check_c_def do_check_def np_place_ok_def ip_sound_def)
  qed
qed

text \<open>The registers after a load.\<close>

lemma np_load_a:
  assumes p: "np_place_ok t p" "\<not> ip_out_of_range p" and j: "j < gm_item_rows t" "ip_row t p j < gm_m t"
  shows "np_load m (gm_item_rows t) (gm_wg_rows t * ip_a_packet p) (ip_check p) (ip_a_packet p) A reg
      (np_A_ptr_index t p) (ip_dim_m p) (\<lambda>i. i < gm_m t) (ip_out_of_range p) j
    = m (ptr_add A (int (packet_off (ip_a_packet p) (gm_wg_rows t) j) * (if TransA (gm_cfg t) then int (gm_lda t) else 1)))"
proof -
  have "do_check (ip_check p) (ip_dim_m p + j div ip_a_packet p * (gm_wg_rows t * ip_a_packet p) + (ip_a_packet p - 1) < gm_m t)"
    using p j by (auto simp: do_check_def np_place_ok_def ip_sound_def ip_row_def)
  moreover have "int (j div ip_a_packet p) * np_A_ptr_index t p + int (j mod ip_a_packet p)
      = int (packet_off (ip_a_packet p) (gm_wg_rows t) j) * (if TransA (gm_cfg t) then int (gm_lda t) else 1)"
    using p(1) by (auto simp: np_A_ptr_index_def packet_off_def np_place_ok_def ip_sound_def)
  ultimately show ?thesis
    using p j unfolding np_place_ok_def ip_sound_def by (simp add: np_load_eq)
qed

lemma np_load_b:
  assumes p: "np_place_ok t p" "\<not> ip_out_of_range p" and i: "i < gm_item_cols t" "ip_col t p i < gm_n t"
  shows "np_load m (gm_item_cols t) (gm_wg_cols t * ip_b_packet p) (ip_check p) (ip_b_packet p) B reg
      (np_B_ptr_index t p) (ip_dim_n p) (\<lambda>i. i < gm_n t) (ip_out_of_range p) i
    = m (ptr_add B (int (packet_off (ip_b_packet p) (gm_wg_cols t) i) * (if TransB (gm_cfg t) then 1 else int (gm_ldb t))))"
proof -
  have "do_check (ip_check p) (ip_dim_n p + i div ip_b_packet p * (gm_wg_cols t * ip_b_packet p) + (ip_b_packet p - 1) < gm_n t)"
    using p i by (auto simp: do_check_def np_place_ok_def ip_sound_def ip_col_def)
  moreover have "int (i div ip_b_packet p) * np_B_ptr_index t p + int (i mod ip_b_packet p)
      = int (packet_off (ip_b_packet p) (gm_wg_cols t) i) * (if TransB (gm_cfg t) then 1 else int (gm_ldb t))"
    using p(1) by (auto simp: np_B_ptr_index_def packet_off_def np_place_ok_def ip_sound_def)
  ultimately show ?thesis
    using p i unfolding np_place_ok_def ip_sound_def by (simp add: np_load_eq)
qed

lemma np_k_loop_eq:
  fixes t :: "'v::{comm_monoid_add, times} Gemm"
  assumes p: "np_place_ok t p" "\<not> ip_out_of_range p" and ij: "(i, j) \<in> ip_in t p"
  shows "np_k_loop t p m k A B reg_a reg_b reg_res (i * gm_item_rows t + j)
    = reg_res (i * gm_item_rows t + j) + (\<Sum>l<k.
        m (ptr_add A (int (packet_off (ip_a_packet p) (gm_wg_rows t) j) * (if TransA (gm_cfg t) then int (gm_lda t) else 1)
                      + int l * (if TransA (gm_cfg t) then 1 else int (gm_lda t)))) *
        m (ptr_add B (int (packet_off (ip_b_packet p) (gm_wg_cols t) i) * (if TransB (gm_cfg t) then 1 else int (gm_ldb t))
                      + int l * (if TransB (gm_cfg t) then int (gm_ldb t) else 1))))"
proof (induction k arbitrary: A B reg_a reg_b reg_res)
  case (Suc k)
  have i: "i < gm_item_cols t" "ip_col t p i < gm_n t" and j: "j < gm_item_rows t" "ip_row t p j < gm_m t"
    using ij by (auto simp: ip_in_def)
  show ?case
    unfolding np_k_loop.simps Let_def Suc.IH np_compute_block_eq reg_index(2,3) [OF j(1) i(1)]
      np_load_a [OF p j] np_load_b [OF p i] sum.lessThan_Suc_shift
    using reg_index(1) [OF j(1) i(1)] by (simp add: algebra_simps)
qed simp

lemma np_scaling_eq:
  assumes p: "np_place_ok t p" "\<not> ip_out_of_range p" and ij: "(i, j) \<in> ip_in t p"
  shows "np_scaling_c t p m C reg (i * gm_item_rows t + j) =
    (if beta_zero (gm_cfg t) then 0
     else gm_stored_beta t * m (ptr_add C (int (packet_off (ip_a_packet p) (gm_wg_rows t) j
                                          + packet_off (ip_b_packet p) (gm_wg_cols t) i * gm_ldc t))))"
proof -
  have i: "i < gm_item_cols t" and j: "j < gm_item_rows t" using ij by (auto simp: ip_in_def)
  note x = reg_index [OF j i]
  show ?thesis
  proof (cases "beta_zero (gm_cfg t)")
    case True
    then show ?thesis
      using x(1) fold_reg_row_guard [where P = "\<lambda>_. True" and b = 0 and f = "\<lambda>_. 0" and n = "gm_item_cols t * gm_item_rows t" and reg = reg]
      by (simp add: np_scaling_c_def)
  next
    case False
    let ?D = "\<lambda>i. ptr_add C (int (packet_off (ip_b_packet p) (gm_wg_cols t) i * gm_ldc t))"
    let ?f = "\<lambda>i j y. if np_check_c t p i j
      then gm_stored_beta t * m (ptr_add (?D i) (int (packet_off (ip_a_packet p) (gm_wg_rows t) j))) else y"
    have pos: "0 < ip_b_packet p" "0 < gm_wg_cols t" using p(1) by (auto simp: np_place_ok_def ip_sound_def)
    have off: "j mod ip_a_packet p + j div ip_a_packet p * gm_wg_rows t * ip_a_packet p
        = packet_off (ip_a_packet p) (gm_wg_rows t) j" for j
      by (simp add: packet_off_def)
    have "np_scaling_c t p m C reg (i * gm_item_rows t + j)
      = fold (\<lambda>i reg_res. fold (\<lambda>j reg_res. if np_check_c t p i j
               then reg_res(i * gm_item_rows t + j := gm_stored_beta t * m (ptr_add (?D i) (int (packet_off (ip_a_packet p) (gm_wg_rows t) j))))
               else reg_res) [0..<gm_item_rows t] reg_res) [0..<gm_item_cols t] reg (i * gm_item_rows t + j)"
      unfolding np_scaling_c_def if_not_P [OF False] if_not_P [OF p(2)] off by (subst fold_np_columns [OF pos]) (rule refl)
    also have "\<dots> = (if i * gm_item_rows t + j < gm_item_cols t * gm_item_rows t
        then ?f ((i * gm_item_rows t + j) div gm_item_rows t) ((i * gm_item_rows t + j) mod gm_item_rows t) (reg (i * gm_item_rows t + j))
        else reg (i * gm_item_rows t + j))"
      by (rule fold_reg_rows, subst fold_reg_row_guard) simp
    also have "\<dots> = gm_stored_beta t * m (ptr_add (?D i) (int (packet_off (ip_a_packet p) (gm_wg_rows t) j)))"
      using x np_check_c_iff [OF p(1) i j] ij by simp
    finally show ?thesis using False by (simp add: add.commute)
  qed
qed

text \<open>What a panel stores.\<close>

lemma np_store_wrote:
  fixes t :: "'v::times Gemm"
  assumes p: "np_place_ok t p" "\<not> ip_out_of_range p" and ld: "gm_m t \<le> gm_ldc t"
  shows "wrote (ip_cell t p C) (ip_in t p) (\<lambda>(i, j). reg (i * gm_item_rows t + j) * gm_alpha t) m (np_store t p reg C m)"
proof -
  have s: "ip_sound t p" and pos: "0 < ip_b_packet p" "0 < gm_wg_cols t" using p(1) by (auto simp: np_place_ok_def ip_sound_def)
  show ?thesis
    unfolding np_store_def if_not_P [OF p(2)] fold_np_columns [OF pos] add.assoc
    by (rule packet_stores_wrote [OF s ld np_check_c_packet(1) [OF p(1)]])
qed

text \<open>One panel: element \<open>(i, j)\<close> of the item's registers.\<close>

lemma np_panel_wrote:
  fixes t :: "'v::field Gemm"
  assumes p: "np_place_ok t p" "\<not> ip_out_of_range p" and ld: "gm_m t \<le> gm_ldc t" and alpha: "gm_alpha t \<noteq> 0"
  shows "wrote (\<lambda>(i, j). ptr_add C (int (ip_row t p j + ip_col t p i * gm_ldc t))) (ip_in t p)
     (\<lambda>(i, j). gm_elem t A B C m (ip_row t p j) (ip_col t p i)) m
     (np_panel u t p (ptr_add A (int (ip_dim_m p) * (if TransA (gm_cfg t) then int (gm_lda t) else 1)))
        (ptr_add B (int (ip_dim_n p) * (if TransB (gm_cfg t) then 1 else int (gm_ldb t)))) (ip_base t p C) m)"
    (is "wrote ?cell _ ?v m (np_panel u t p ?A ?B ?C m)")
proof -
  let ?reg = "np_k_loop t p m (gm_k t) ?A ?B u u (np_scaling_c t p m ?C u)"
  have cell: "ip_cell t p ?C = ?cell" by (rule ip_cell_base)
  have reg: "?reg (i * gm_item_rows t + j) * gm_alpha t = ?v (i, j)" if ij: "(i, j) \<in> ip_in t p" for i j
  proof -
    have c: "ptr_add ?C (int (packet_off (ip_a_packet p) (gm_wg_rows t) j + packet_off (ip_b_packet p) (gm_wg_cols t) i * gm_ldc t))
        = ptr_add C (int (ip_row t p j + ip_col t p i * gm_ldc t))"
      using fun_cong [OF cell, of "(i, j)"] by (simp add: ip_cell_def)
    have a: "ptr_add ?A (int (packet_off (ip_a_packet p) (gm_wg_rows t) j) * (if TransA (gm_cfg t) then int (gm_lda t) else 1)
                      + int l * (if TransA (gm_cfg t) then 1 else int (gm_lda t)))
        = operand_cell (TransA (gm_cfg t)) A 0 (gm_lda t) 0 (ip_row t p j) l"
      and b: "ptr_add ?B (int (packet_off (ip_b_packet p) (gm_wg_cols t) i) * (if TransB (gm_cfg t) then 1 else int (gm_ldb t))
                      + int l * (if TransB (gm_cfg t) then int (gm_ldb t) else 1))
        = operand_cell (TransB (gm_cfg t)) B 0 (gm_ldb t) 0 l (ip_col t p i)" for l
      by (simp_all add: operand_cell_def batch_cell_def ip_row_def ip_col_def algebra_simps)
    show ?thesis
      unfolding np_k_loop_eq [OF p ij] np_scaling_eq [OF p ij] a b c prod.case gm_elem_def product_at_def
      using alpha by (simp add: gm_stored_beta_def field_simps)
  qed
  have "wrote ?cell (ip_in t p) (\<lambda>(i, j). ?reg (i * gm_item_rows t + j) * gm_alpha t) m (np_panel u t p ?A ?B ?C m)"
    using np_store_wrote [OF p ld, of ?C ?reg m] unfolding cell by (simp add: np_panel_def Let_def)
  then show ?thesis using reg unfolding wrote_def by auto
qed

section \<open>The contract\<close>

text \<open>What the kernel asks of its configuration.\<close>

definition np_ok :: "bool \<Rightarrow> 'v::zero Gemm \<Rightarrow> bool" where
  "np_ok v t \<longleftrightarrow> no_local_partial_asserts v (gm_cfg t) \<and> gm_alpha t \<noteq> 0 \<and>
     0 < gm_item_rows t \<and> 0 < gm_item_cols t \<and> 0 < gm_wg_rows t \<and> 0 < gm_wg_cols t"

definition np_body ::
  "bool \<Rightarrow> (nat \<Rightarrow> 'v) \<Rightarrow> 'v::{zero, plus, times, divide} Gemm \<Rightarrow> nat \<Rightarrow> addr \<Rightarrow> addr \<Rightarrow> addr \<Rightarrow> 'v mem \<Rightarrow> 'v mem" where
  "np_body v u t e A B C =
     (let p = place_item (np_place_of v) t e
      in np_panel u t p (ptr_add A (int (ip_dim_m p) * (if TransA (gm_cfg t) then int (gm_lda t) else 1)))
           (ptr_add B (int (ip_dim_n p) * (if TransB (gm_cfg t) then 1 else int (gm_ldb t)))) (ip_base t p C))"

text \<open>The two packet sizes.\<close>

lemma np_packets:
  assumes "np_ok v t"
  shows "0 < packet_size v (VectorSize (gm_cfg t))" "gm_item_rows t mod packet_size v (VectorSize (gm_cfg t)) = 0"
    "gm_item_cols t mod packet_size v (VectorSize (gm_cfg t)) = 0"
  using assms by (auto simp: np_ok_def no_local_partial_asserts_def Let_def intro!: gr0I)

lemma np_clusters: "np_get_workgroup_cluster t = gm_blocks_cluster t"
  by (simp add: np_get_workgroup_cluster_def gm_blocks_cluster_def)

lemma np_place_of_simps:
  fixes v :: bool and t :: "'v Gemm" and g l :: nat
  defines "p \<equiv> np_place_of v t g l" and "w \<equiv> packet_size v (VectorSize (gm_cfg t))"
    and "r \<equiv> g mod gm_blocks_per_row t" and "c \<equiv> g div gm_blocks_per_row t"
  shows "ip_check p \<longleftrightarrow> \<not> (gm_block_rows t \<le> gm_m t - r * gm_block_rows t \<and> gm_block_cols t \<le> gm_n t - c * gm_block_cols t)"
    "ip_a_packet p = (if ip_check p \<or> TransA (gm_cfg t) then 1 else w)"
    "ip_b_packet p = (if ip_check p \<or> \<not> TransB (gm_cfg t) then 1 else w)"
    "ip_dim_m p = l mod gm_wg_rows t * ip_a_packet p + r * gm_block_rows t"
    "ip_dim_n p = l div gm_wg_rows t * ip_b_packet p + c * gm_block_cols t"
    "ip_out_of_range p \<longleftrightarrow> gm_m t \<le> ip_dim_m p \<or> gm_n t \<le> ip_dim_n p"
  by (auto simp: np_place_of_def Let_def assms gm_blocks_per_row_def)

text \<open>An item's place.\<close>

interpretation npl: block_layout "\<lambda>t :: 'v::zero Gemm. np_ok v t" np_get_workgroup_cluster
  "\<lambda>t g. g mod gm_blocks_per_row t" "\<lambda>t g. g div gm_blocks_per_row t" "np_place_of v" for v
proof unfold_locales
  fix t :: "'v Gemm" and g g' l x y :: nat
  show "ip_a_packet (np_place_of v t g l) = ip_a_packet (np_place_of v t g 0) \<and>
      ip_b_packet (np_place_of v t g l) = ip_b_packet (np_place_of v t g 0)"
    by (simp add: np_place_of_simps)
  show "g = g'" if "g mod gm_blocks_per_row t = g' mod gm_blocks_per_row t" "g div gm_blocks_per_row t = g' div gm_blocks_per_row t"
    using that by (metis div_mult_mod_eq)
  assume ok: "np_ok v t"
  then show "0 < gm_item_rows t \<and> 0 < gm_item_cols t \<and> 0 < gm_wg_rows t \<and> 0 < gm_wg_cols t" by (simp add: np_ok_def)
  show "0 < ip_a_packet (np_place_of v t g l) \<and> gm_item_rows t mod ip_a_packet (np_place_of v t g l) = 0 \<and>
      0 < ip_b_packet (np_place_of v t g l) \<and> gm_item_cols t mod ip_b_packet (np_place_of v t g l) = 0"
    using np_packets [OF ok] by (simp add: np_place_of_simps)
  have pos: "0 < gm_block_rows t" "0 < gm_block_cols t" using ok by (auto simp: np_ok_def gm_block_rows_def gm_block_cols_def)
  show "\<exists>g < np_get_workgroup_cluster t. g mod gm_blocks_per_row t = x \<and> g div gm_blocks_per_row t = y"
    if "x * gm_block_rows t < gm_m t" "y * gm_block_cols t < gm_n t"
    unfolding np_clusters by (rule blocks_cover [OF pos that])
  show "g mod gm_blocks_per_row t * gm_block_rows t + gm_block_rows t \<le> gm_m t \<and>
      g div gm_blocks_per_row t * gm_block_cols t + gm_block_cols t \<le> gm_n t"
    if "g < np_get_workgroup_cluster t" "\<not> ip_check (np_place_of v t g l)"
    using pos that(2) by (auto simp: np_place_of_simps(1))
qed (simp_all add: np_place_of_simps(4,5))

lemma np_item_place_ok:
  assumes "np_ok v t" "gm_wf t" "e < gm_wg_size t * np_get_workgroup_cluster t"
  shows "np_place_ok t (place_item (np_place_of v) t e)"
  using npl.item_sound [OF assms] by (simp add: np_place_ok_def place_item_def np_place_of_simps)

text \<open>Outside the matrix an item stores nothing.\<close>

lemma np_panel_idle: "ip_out_of_range p \<Longrightarrow> np_panel u t p A B C m = m"
  by (simp add: np_panel_def np_store_def Let_def)

lemma np_eval_item:
  fixes t :: "'v::{zero, plus, times, divide} Gemm"
  assumes "0 < gm_wg_size t"
  shows "np_eval v u t (item_of (gm_wg_size t) (np_get_workgroup_cluster t * S * gm_wg_size t) i) m
    = (if gm_batch_size t \<le> i div (gm_wg_size t * np_get_workgroup_cluster t) then m
       else at_batch t (gemm_batches (np_body v u t (i mod (gm_wg_size t * np_get_workgroup_cluster t))) t
              (i div (gm_wg_size t * np_get_workgroup_cluster t)) S (int (gm_batch_size t)))
              (gm_A t) (gm_B t) (gm_C t) (i div (gm_wg_size t * np_get_workgroup_cluster t)) m)"
proof -
  have cl: "0 < np_get_workgroup_cluster t" by (simp add: np_get_workgroup_cluster_def)
  let ?p = "place_item (np_place_of v) t (i mod (gm_wg_size t * np_get_workgroup_cluster t))"
  have body: "np_body v u t (i mod (gm_wg_size t * np_get_workgroup_cluster t)) = (\<lambda>A B C. np_panel u t ?p
      (ptr_add A (int (ip_dim_m ?p) * (if TransA (gm_cfg t) then int (gm_lda t) else 1)))
      (ptr_add B (int (ip_dim_n ?p) * (if TransB (gm_cfg t) then 1 else int (gm_ldb t))))
      (ptr_add C (int (ip_dim_m ?p) + int (ip_dim_n ?p * gm_ldc t))))"
    by (intro ext) (simp add: np_body_def ip_base_def Let_def)
  show ?thesis
    unfolding np_eval_def Let_def cluster_item [OF assms cl] body gemm_batches_shift place_item_def ..
qed

lemma np_body_wrote:
  fixes t :: "'v::field Gemm"
  assumes ok: "np_ok v t" "gm_wf t" "e < gm_wg_size t * np_get_workgroup_cluster t"
  defines "p \<equiv> place_item (np_place_of v) t e"
  shows "wrote (\<lambda>(i, j). ptr_add C (int (ip_row t p j + ip_col t p i * gm_ldc t)))
     (ip_in t p) (\<lambda>(i, j). gm_elem t A B C m (ip_row t p j) (ip_col t p i)) m (np_body v u t e A B C m)"
proof (cases "ip_out_of_range p")
  case True
  then have "ip_in t p = {}"
    by (auto simp: p_def place_item_def np_place_of_simps(6) ip_in_def ip_row_def ip_col_def)
  then show ?thesis using True by (simp add: wrote_def np_body_def np_panel_idle flip: p_def)
next
  case False
  show ?thesis
    unfolding np_body_def Let_def p_def [symmetric]
    by (rule np_panel_wrote [OF np_item_place_ok [OF ok, folded p_def] False]) (use ok(1,2) in \<open>simp_all add: gm_wf_def np_ok_def\<close>)
qed

interpretation np: gemm_kernel "np_ok v :: 'v::field Gemm \<Rightarrow> bool" gm_wg_size np_get_workgroup_cluster
  "np_eval v u" "np_body v u" "place_tile (np_place_of v)" for v u
proof unfold_locales
  fix t :: "'v Gemm" and S i m
  assume "np_ok v t"
  then show "np_eval v u t (item_of (gm_wg_size t) (np_get_workgroup_cluster t * S * gm_wg_size t) i) m
    = (if gm_batch_size t \<le> i div (gm_wg_size t * np_get_workgroup_cluster t) then m
       else at_batch t (gemm_batches (np_body v u t (i mod (gm_wg_size t * np_get_workgroup_cluster t))) t
              (i div (gm_wg_size t * np_get_workgroup_cluster t)) S (int (gm_batch_size t)))
              (gm_A t) (gm_B t) (gm_C t) (i div (gm_wg_size t * np_get_workgroup_cluster t)) m)"
    by (intro np_eval_item) (simp add: np_ok_def gm_wg_size_def)
next
  fix t :: "'v Gemm"
  assume "np_ok v t"
  then show "0 < gm_wg_size t \<and> 0 < np_get_workgroup_cluster t"
    by (simp add: np_ok_def gm_wg_size_def np_get_workgroup_cluster_def)
next
  fix t :: "'v Gemm" and e d A B C m
  assume "np_ok v t" "gm_wf t" "e < gm_wg_size t * np_get_workgroup_cluster t"
    and "d \<notin> tile_cells (gm_ldc t) (place_tile (np_place_of v) t e) C"
  then show "np_body v u t e A B C m d = m d"
    by (intro wrote_tile_frame [OF np_body_wrote])
next
  fix t :: "'v Gemm" and e i j A B C m
  assume "np_ok v t" "gm_wf t" "e < gm_wg_size t * np_get_workgroup_cluster t" "(i, j) \<in> place_tile (np_place_of v) t e"
  then show "np_body v u t e A B C m (ptr_add C (int (i + j * gm_ldc t))) = gm_elem t A B C m i j"
    by (intro wrote_tile_elem [OF np_body_wrote])
qed (rule npl.tile_bounds npl.tile_disjoint npl.tile_cover; assumption)+

lemma np_get_num_pos: "0 < np_get_num_workgroup_cluster t compute_units"
  by (simp add: np_get_num_workgroup_cluster_def)

lemma gemm_no_local_partial_result:
  fixes alpha beta :: "'v::field"
  assumes "is_run r" "0 < M" "M \<le> ldc" "it_buffer a \<noteq> it_buffer c" "it_buffer b \<noteq> it_buffer c"
    and "alpha \<noteq> 0" "no_local_partial_asserts v cfg" "0 < item_rows (TileT cfg)" "0 < item_cols (TileT cfg)"
    and "0 < wg_rows (TileT cfg)" "0 < wg_cols (TileT cfg)"
  shows "gemm_result (beta_zero cfg) (TransA cfg) (TransB cfg) M N K alpha (it_buffer a, it_offset a) lda
     (it_buffer b, it_offset b) ldb beta (it_buffer c, it_offset c) ldc bs m
     (gemm_no_local_partial_execute r ph v u (select_gemm_tree cfg M N K alpha a lda b ldb beta c ldc bs) m)"
proof -
  let ?t = "select_gemm_tree cfg M N K alpha a lda b ldb beta c ldc bs"
  have wf: "np_ok v ?t" "gm_wf ?t"
    using assms by (simp_all add: gm_wf_def np_ok_def select_gemm_simps)
  show ?thesis
    using np.launch_correct [OF wf np_get_num_pos [of ?t "ph_num_compute_units ph"] assms(1), where u = u and m = m]
    by (simp add: gemm_no_local_partial_execute_def np_get_nd_range_def Let_def np_valid_thread_def [abs_def] select_gemm_simps)
qed

section \<open>Properties\<close>

text \<open>C9: the partially vectorised kernel computes \<open>alpha * op(A) * op(B) + beta * C\<close> for every matrix of the
  batch and changes nothing else, for every size of the matrices, every tiling and packet size that passes its
  assertions, any contents of uninitialised registers, and any order of the work-items; \<open>alpha\<close> must not be zero.\<close>

theorem gemm_no_local_partial_correct:
  fixes alpha beta :: "'v::field"
  assumes "is_run r" "0 < M" "M \<le> ldc" "it_buffer a \<noteq> it_buffer c" "it_buffer b \<noteq> it_buffer c"
    and "alpha \<noteq> 0" "no_local_partial_asserts v cfg" "0 < item_rows (TileT cfg)" "0 < item_cols (TileT cfg)"
    and "0 < wg_rows (TileT cfg)" "0 < wg_cols (TileT cfg)"
  shows "gemm_result (beta_zero cfg) (TransA cfg) (TransB cfg) M N K alpha (it_buffer a, it_offset a) lda
     (it_buffer b, it_offset b) ldb beta (it_buffer c, it_offset c) ldc bs m
     (gemm_no_local_partial_execute r ph v u (select_gemm_tree cfg M N K alpha a lda b ldb beta c ldc bs) m)"
  by (rule gemm_no_local_partial_result [OF assms])

lemma gemm_no_local_partial_correct_witness:
  "gemm_no_local_partial_execute (seq_run ()) sample_ph True (\<lambda>_. 9)
     (select_gemm_tree (make_launcher 64 False False False 64 (Tile4 2 2 2 2) False False mem_no_local alg_standard vec_partial False 2 strided_batch)
        2 2 1 3 (sample_it 1) 2 (sample_it 2) 1 5 (sample_it 3) 2 1) real_mem (3, 3) = 3 * (2 * 3) + 5 * 6"
  using gemm_no_local_partial_correct [OF is_run_seq, of 2 2 "sample_it 1" "sample_it 3" "sample_it 2" 3 True
      "make_launcher 64 False False False 64 (Tile4 2 2 2 2) False False mem_no_local alg_standard vec_partial False 2 strided_batch"
      2 1 2 1 5 1 real_mem "()" sample_ph "\<lambda>_. 9"]
  by (simp add: make_launcher_def Tile4_def no_local_partial_asserts_def packet_size_def gemm_result_def product_of_def
      operand_cell_def batch_cell_def a_stride_def b_stride_def real_mem_def less_cases)

end
