(* ===== verification/Gemm_No_Local_Full.thy ===== *)
theory Gemm_No_Local_Full
  imports Gemm_Blocks
begin

text \<open>
  The kernel without local memory and with full vectorisation,
  \<^verbatim>\<open>src/operations/blas3/gemm_no_local_full_vec.hpp\<close>. In a block that lies inside the matrix an item
  moves packets of both operands, also along \<open>k\<close>, and its tile is one packet by one packet; at the edge, and when
  vectorisation is off, it moves single elements and checks the bounds.

  As in \<open>Gemm_No_Local\<close>, \<open>v\<close> is the build's \<open>GEMM_VECTORIZATION_SUPPORT\<close> and \<open>u\<close> what registers hold before
  anything is stored. \<open>ip_a_packet\<close> is the template parameter \<open>packet_size\<close> of the panel,
  \<open>ip_check\<close> its parameter \<open>need_check_boundary\<close>.
\<close>

section \<open>The kernel\<close>

definition nf_get_workgroup_cluster :: "'v Gemm \<Rightarrow> nat" where
  "nf_get_workgroup_cluster t =
     ((gm_m t - 1) div (gm_item_rows t * gm_wg_rows t) + 1) * ((gm_n t - 1) div (gm_item_cols t * gm_wg_cols t) + 1)"

definition nf_get_num_workgroup_cluster :: "'v Gemm \<Rightarrow> nat \<Rightarrow> nat" where
  "nf_get_num_workgroup_cluster t compute_units =
     (let num_gemm_per_compute_units = 4
      in (num_gemm_per_compute_units * compute_units - 1) div nf_get_workgroup_cluster t + 1)"

definition nf_get_nd_range :: "'v Gemm \<Rightarrow> nat \<Rightarrow> nat \<times> nat" where
  "nf_get_nd_range t compute_units =
     (let nwg = nf_get_workgroup_cluster t * nf_get_num_workgroup_cluster t compute_units; wgs = gm_wg_size t
      in (wgs, nwg * wgs))"

definition nf_get_size :: "'v Gemm \<Rightarrow> nat" where
  "nf_get_size t = gm_m t * gm_n t"

definition nf_valid_thread :: "'v Gemm \<Rightarrow> nd_item \<Rightarrow> bool" where
  "nf_valid_thread t it \<longleftrightarrow> True"

subsection \<open>Scaling and storing\<close>

definition nf_check_c :: "'v Gemm \<Rightarrow> item_place \<Rightarrow> nat \<Rightarrow> nat \<Rightarrow> bool" where
  "nf_check_c t p i j \<longleftrightarrow>
     do_check (ip_check p) (ip_dim_m p + j * gm_wg_rows t < gm_m t \<and> ip_dim_n p + i * gm_wg_cols t < gm_n t)"

text \<open>How far the pointer into \<open>C\<close> moves after a column.\<close>

definition nf_c_step :: "'v Gemm \<Rightarrow> item_place \<Rightarrow> nat" where
  "nf_c_step t p =
     gm_ldc t * (if ip_check p \<or> \<not> TransB (gm_cfg t) then gm_wg_cols t else gm_item_cols t div ip_a_packet p)"

definition nf_scaling_c ::
  "'v::{zero, times, divide} Gemm \<Rightarrow> item_place \<Rightarrow> 'v mem \<Rightarrow> addr \<Rightarrow> (nat \<Rightarrow> 'v) \<Rightarrow> nat \<Rightarrow> 'v" where
  "nf_scaling_c t p m C reg_res =
     (if beta_zero (gm_cfg t) then fold (\<lambda>i reg_res. reg_res(i := 0)) [0..<gm_item_cols t * gm_item_rows t] reg_res
      else if ip_out_of_range p then reg_res
      else fst (fold (\<lambda>i (reg_res, C).
          (fold (\<lambda>j reg_res. if nf_check_c t p i j
               then reg_store (ip_a_packet p) (i * gm_item_rows t + j * ip_a_packet p)
                      (\<lambda>x. vec_load m (ptr_add C (int (j * gm_wg_rows t * ip_a_packet p))) x * gm_stored_beta t) reg_res
               else reg_res) [0..<gm_item_rows t div ip_a_packet p] reg_res,
           ptr_add C (int (nf_c_step t p))))
        [0..<gm_item_cols t] (reg_res, C)))"

definition nf_store ::
  "'v::times Gemm \<Rightarrow> item_place \<Rightarrow> (nat \<Rightarrow> 'v) \<Rightarrow> addr \<Rightarrow> 'v mem \<Rightarrow> 'v mem" where
  "nf_store t p reg_res C m =
     (if ip_out_of_range p then m
      else fst (fold (\<lambda>i (m, C).
          (fold (\<lambda>j m. if nf_check_c t p i j
               then vec_store (ip_a_packet p) (ptr_add C (int (j * gm_wg_rows t * ip_a_packet p)))
                      (\<lambda>x. reg_res (i * gm_item_rows t + j * ip_a_packet p + x) * gm_alpha t) m
               else m) [0..<gm_item_rows t div ip_a_packet p] m,
           ptr_add C (int (nf_c_step t p))))
        [0..<gm_item_cols t] (m, C)))"

subsection \<open>Loading\<close>

text \<open>A packet: whole when its last element is in range, else element by element into a zeroed vector.\<close>

definition nf_packet :: "'v::zero mem \<Rightarrow> addr \<Rightarrow> bool \<Rightarrow> (nat \<Rightarrow> bool) \<Rightarrow> nat \<Rightarrow> 'v" where
  "nf_packet m ptr in_range element_in_range =
     (if in_range then vec_load m ptr else (\<lambda>l. if element_in_range l then m (ptr_add ptr (int l)) else 0))"

text \<open>\<open>load_block_a\<close>, for both values of \<open>trans\<close>; \<open>work_per_load\<close> and \<open>cols\<close> are the packet size of the panel.\<close>

definition nf_load_block_a ::
  "'v::zero mem \<Rightarrow> nat \<Rightarrow> nat \<Rightarrow> nat \<Rightarrow> bool \<Rightarrow> bool \<Rightarrow> nat \<Rightarrow> addr \<Rightarrow> (nat \<Rightarrow> 'v) \<Rightarrow> int \<Rightarrow> nat \<Rightarrow>
   (nat \<Rightarrow> bool) \<Rightarrow> (nat \<Rightarrow> bool) \<Rightarrow> bool \<Rightarrow> nat \<Rightarrow> 'v" where
  "nf_load_block_a m rows cols next_element check_row check_col work_per_load ptr reg ptr_next ld
       is_valid_row is_valid_col out_of_range =
     (if out_of_range then reg
      else fst (fst (fold (\<lambda>i (reg_pos, ptr).
          (fold (\<lambda>j (reg, pos).
              (let in_range = (do_check check_row (is_valid_row (work_per_load - 1)) \<and> do_check check_col (is_valid_col i));
                   in_vec = nf_packet m (ptr_add ptr (int j * ptr_next)) in_range
                     (\<lambda>l. do_check check_row (is_valid_row l) \<and> do_check check_col (is_valid_col i))
               in (reg_store work_per_load pos in_vec reg, pos + work_per_load)))
            [0..<rows div work_per_load] reg_pos,
           ptr_add ptr (int ld)))
        [0..<cols] ((reg, 0), ptr))))"

definition nf_load_block_a_trans ::
  "'v::zero mem \<Rightarrow> nat \<Rightarrow> nat \<Rightarrow> nat \<Rightarrow> bool \<Rightarrow> bool \<Rightarrow> nat \<Rightarrow> addr \<Rightarrow> (nat \<Rightarrow> 'v) \<Rightarrow> nat \<Rightarrow>
   (nat \<Rightarrow> bool) \<Rightarrow> (nat \<Rightarrow> bool) \<Rightarrow> bool \<Rightarrow> nat \<Rightarrow> 'v" where
  "nf_load_block_a_trans m rows cols next_element check_row check_col work_per_load ptr reg ld
       is_valid_row is_valid_col out_of_range =
     (if out_of_range then reg
      else fst (fold (\<lambda>i (reg, ptr).
          (fold (\<lambda>j reg.
              (let in_range = (do_check check_row (is_valid_row (i * next_element + j)) \<and>
                               do_check check_col (is_valid_col (work_per_load - 1)));
                   in_vec = nf_packet m (ptr_add ptr (int (j * ld))) in_range
                     (\<lambda>l. do_check check_row (is_valid_row (i * next_element + j)) \<and> do_check check_col (is_valid_col l))
               in fold (\<lambda>k reg. reg(j + i * work_per_load + k * rows := in_vec k)) [0..<work_per_load] reg))
            [0..<cols] reg,
           ptr_add ptr (int (next_element * ld))))
        [0..<rows div work_per_load] (reg, ptr)))"

text \<open>\<open>load_single_b\<close>, for both values of \<open>trans\<close>.\<close>

definition nf_load_single_b ::
  "bool \<Rightarrow> 'v::zero mem \<Rightarrow> bool \<Rightarrow> bool \<Rightarrow> nat \<Rightarrow> addr \<Rightarrow> (nat \<Rightarrow> 'v) \<Rightarrow> nat \<Rightarrow> nat \<Rightarrow>
   (nat \<Rightarrow> bool) \<Rightarrow> (nat \<Rightarrow> bool) \<Rightarrow> bool \<Rightarrow> nat \<Rightarrow> 'v" where
  "nf_load_single_b trans_b m check_row check_col work_per_load ptr reg row_ofs col_ofs is_valid_row is_valid_col out_of_range =
     (if out_of_range then reg
      else if \<not> trans_b then
        (let in_range = (do_check check_row (is_valid_row (work_per_load - 1)) \<and> do_check check_col (is_valid_col col_ofs));
             in_vec = nf_packet m ptr in_range
               (\<lambda>k. do_check check_row (is_valid_row k) \<and> do_check check_col (is_valid_col col_ofs))
         in reg_store work_per_load 0 in_vec reg)
      else
        (let in_range = (do_check check_row (is_valid_row row_ofs) \<and> do_check check_col (is_valid_col (work_per_load - 1)));
             in_vec = nf_packet m ptr in_range
               (\<lambda>k. do_check check_row (is_valid_row row_ofs) \<and> do_check check_col (is_valid_col k))
         in reg_store work_per_load 0 in_vec reg))"

subsection \<open>Computing\<close>

text \<open>\<open>compute_block_gemm_no_shared\<close>: its three versions.\<close>

definition nf_compute_block ::
  "'v::{plus, times} Gemm \<Rightarrow> nat \<Rightarrow> nat \<Rightarrow> (nat \<Rightarrow> 'v) \<Rightarrow> (nat \<Rightarrow> 'v) \<Rightarrow> (nat \<Rightarrow> 'v) \<Rightarrow> nat \<Rightarrow> 'v" where
  "nf_compute_block t psize iteration reg_a reg_b reg_res =
     (if \<not> TransB (gm_cfg t) then
        fold (\<lambda>k reg_res. fold (\<lambda>j reg_res. reg_res(iteration * gm_item_rows t + j :=
             reg_a (k * gm_item_rows t + j) * reg_b k + reg_res (iteration * gm_item_rows t + j)))
           [0..<gm_item_rows t] reg_res) [0..<psize] reg_res
      else if psize \<noteq> 1 then
        fold (\<lambda>i reg_res. fold (\<lambda>j reg_res. reg_res(i * gm_item_rows t + j :=
             reg_a (iteration * gm_item_rows t + j) * reg_b i + reg_res (i * gm_item_rows t + j)))
           [0..<gm_item_rows t] reg_res) [0..<psize] reg_res
      else
        fold (\<lambda>j reg_res. reg_res(iteration * gm_item_rows t + j :=
             reg_a j * reg_b 0 + reg_res (iteration * gm_item_rows t + j)))
          [0..<gm_item_rows t] reg_res)"

definition nf_A_ptr_index :: "'v Gemm \<Rightarrow> item_place \<Rightarrow> int" where
  "nf_A_ptr_index t p = (if TransA (gm_cfg t) then int (gm_lda t) else 1) * int (gm_wg_rows t * ip_a_packet p)"

definition nf_B_ptr_index :: "'v Gemm \<Rightarrow> item_place \<Rightarrow> int" where
  "nf_B_ptr_index t p = (if TransB (gm_cfg t) then int (ip_a_packet p) else int (gm_ldb t)) * int (gm_wg_cols t)"

text \<open>\<open>load_and_compute_block\<close> and its loops; \<open>boundary_check_m\<close> and \<open>boundary_check_n\<close> compare with what is left of the matrix.\<close>

definition nf_block_a ::
  "'v::zero Gemm \<Rightarrow> item_place \<Rightarrow> 'v mem \<Rightarrow> bool \<Rightarrow> nat \<Rightarrow> addr \<Rightarrow> (nat \<Rightarrow> 'v) \<Rightarrow> nat \<Rightarrow> 'v" where
  "nf_block_a t p m check_k k A reg_a =
     (let psize = ip_a_packet p; next_element = gm_wg_rows t * psize
      in if TransA (gm_cfg t)
         then nf_load_block_a_trans m (gm_item_rows t) psize next_element (ip_check p) check_k psize A reg_a
                (gm_lda t) (\<lambda>idx. idx < gm_m t - ip_dim_m p) (\<lambda>idx. idx < k) (ip_out_of_range p)
         else nf_load_block_a m (gm_item_rows t) psize next_element (ip_check p) check_k psize A reg_a
                (nf_A_ptr_index t p) (gm_lda t) (\<lambda>idx. idx < gm_m t - ip_dim_m p) (\<lambda>idx. idx < k) (ip_out_of_range p))"

definition nf_b_step ::
  "'v::{zero, plus, times} Gemm \<Rightarrow> item_place \<Rightarrow> 'v mem \<Rightarrow> bool \<Rightarrow> nat \<Rightarrow> (nat \<Rightarrow> 'v) \<Rightarrow> nat \<Rightarrow> addr \<Rightarrow>
   nat \<Rightarrow> int \<Rightarrow> nat \<Rightarrow> (nat \<Rightarrow> 'v) \<times> (nat \<Rightarrow> 'v) \<Rightarrow> (nat \<Rightarrow> 'v) \<times> (nat \<Rightarrow> 'v)" where
  "nf_b_step t p m check_k k reg_a j B i ofs col_ofs = (\<lambda>(reg_b, reg_res).
     (let reg_b = nf_load_single_b (TransB (gm_cfg t)) m check_k (ip_check p) (ip_a_packet p) (ptr_add B ofs) reg_b j col_ofs
            (\<lambda>idx. idx < k) (\<lambda>idx. idx < gm_n t - ip_dim_n p) (ip_out_of_range p)
      in (reg_b, nf_compute_block t (ip_a_packet p) (i + j) reg_a reg_b reg_res)))"

definition nf_load_and_compute ::
  "'v::{zero, plus, times} Gemm \<Rightarrow> item_place \<Rightarrow> 'v mem \<Rightarrow> bool \<Rightarrow> nat \<Rightarrow> addr \<Rightarrow> addr \<Rightarrow>
   (nat \<Rightarrow> 'v) \<Rightarrow> (nat \<Rightarrow> 'v) \<Rightarrow> (nat \<Rightarrow> 'v) \<Rightarrow> (nat \<Rightarrow> 'v) \<times> (nat \<Rightarrow> 'v) \<times> (nat \<Rightarrow> 'v)" where
  "nf_load_and_compute t p m check_k k A B reg_a reg_b reg_res =
     (let psize = ip_a_packet p; trans_b = TransB (gm_cfg t);
          reg_a = nf_block_a t p m check_k k A reg_a
      in (reg_a,
          fst (fold (\<lambda>j (regs, B).
             (fst (fold (\<lambda>i (regs, ofs, col_ofs).
                  (nf_b_step t p m check_k k reg_a j B i ofs col_ofs regs, ofs + nf_B_ptr_index t p,
                   col_ofs + (if trans_b then psize else 1) * gm_wg_cols t))
                [0..<gm_item_cols t div psize] (regs, 0, 0)),
              ptr_add B (int (gm_ldb t * (if trans_b then 1 else gm_wg_cols t)))))
           [0..<psize] ((reg_b, reg_res), B))))"

text \<open>The loop over \<open>k\<close>, in steps of a packet and with a remainder.\<close>

function nf_k_loop ::
  "'v::{zero, plus, times} Gemm \<Rightarrow> item_place \<Rightarrow> 'v mem \<Rightarrow> nat \<Rightarrow> addr \<Rightarrow> addr \<Rightarrow>
   (nat \<Rightarrow> 'v) \<Rightarrow> (nat \<Rightarrow> 'v) \<Rightarrow> (nat \<Rightarrow> 'v) \<Rightarrow> nat \<Rightarrow> 'v" where
  "nf_k_loop t p m k A B reg_a reg_b reg_res =
     (if 0 < ip_a_packet p \<and> ip_a_packet p \<le> k then
        (let (reg_a, reg_b, reg_res) = nf_load_and_compute t p m False k A B reg_a reg_b reg_res
         in nf_k_loop t p m (k - ip_a_packet p)
              (ptr_add A (int ((if TransA (gm_cfg t) then 1 else gm_lda t) * ip_a_packet p)))
              (ptr_add B (int ((if TransB (gm_cfg t) then gm_ldb t else 1) * ip_a_packet p))) reg_a reg_b reg_res)
      else if 0 < k then snd (snd (nf_load_and_compute t p m True k A B reg_a reg_b reg_res))
      else reg_res)"
  by pat_completeness auto
termination
  by (relation "measure (\<lambda>(t, p, m, k, _). k)") auto

declare nf_k_loop.simps [simp del]

text \<open>\<open>compute_gemm_no_shared_pannel\<close>: the body of its loop over the batch.\<close>

definition nf_panel ::
  "(nat \<Rightarrow> 'v) \<Rightarrow> 'v::{zero, plus, times, divide} Gemm \<Rightarrow> item_place \<Rightarrow> addr \<Rightarrow> addr \<Rightarrow> addr \<Rightarrow> 'v mem \<Rightarrow> 'v mem" where
  "nf_panel u t p A B C m =
     (let reg_res = nf_scaling_c t p m C u;
          reg_res = nf_k_loop t p m (gm_k t) A B u u reg_res
      in nf_store t p reg_res C m)"

definition nf_place_of :: "bool \<Rightarrow> 'v Gemm \<Rightarrow> nat \<Rightarrow> nat \<Rightarrow> item_place" where
  "nf_place_of v t wg_id item_id =
     (let number_of_block_per_row = (gm_m t - 1) div gm_block_rows t + 1;
          tile_id_row = wg_id mod number_of_block_per_row;
          tile_id_col = wg_id div number_of_block_per_row;
          wg_row = tile_id_row * gm_block_rows t;
          wg_col = tile_id_col * gm_block_cols t;
          psize = packet_size v (VectorSize (gm_cfg t));
          is_internal_block = (psize \<noteq> 1 \<and> gm_m t - wg_row \<ge> gm_block_rows t \<and> gm_n t - wg_col \<ge> gm_block_cols t);
          vector_ofs = (if is_internal_block then psize else 1);
          local_item_id_row = item_id mod gm_wg_rows t * vector_ofs;
          local_item_id_col = item_id div gm_wg_rows t * (if TransB (gm_cfg t) then vector_ofs else 1)
      in \<lparr>ip_check = (\<not> is_internal_block),
          ip_a_packet = vector_ofs,
          ip_b_packet = (if TransB (gm_cfg t) then vector_ofs else 1),
          ip_dim_m = local_item_id_row + wg_row,
          ip_dim_n = local_item_id_col + wg_col,
          ip_out_of_range = (local_item_id_row + wg_row \<ge> gm_m t \<or> local_item_id_col + wg_col \<ge> gm_n t)\<rparr>)"

definition nf_eval ::
  "bool \<Rightarrow> (nat \<Rightarrow> 'v) \<Rightarrow> 'v::{zero, plus, times, divide} Gemm \<Rightarrow> nd_item \<Rightarrow> 'v mem \<Rightarrow> 'v mem" where
  "nf_eval v u t it m =
     (let wg_batch_id = nd_group it div nf_get_workgroup_cluster t
      in if gm_batch_size t \<le> wg_batch_id then m
         else
           let batch_stride = nd_group_range it div nf_get_workgroup_cluster t;
               orig_A = ptr_add (mv_get_pointer (gm_a t)) (int wg_batch_id * gm_a_size t);
               orig_B = ptr_add (mv_get_pointer (gm_b t)) (int wg_batch_id * gm_b_size t);
               orig_C = ptr_add (mv_get_pointer (gm_c t)) (int wg_batch_id * gm_c_size t);
               wg_id = nd_group it mod nf_get_workgroup_cluster t;
               p = nf_place_of v t wg_id (nd_local it);
               orig_A = ptr_add orig_A (int (ip_dim_m p) * (if TransA (gm_cfg t) then int (gm_lda t) else 1));
               orig_B = ptr_add orig_B (int (ip_dim_n p) * (if TransB (gm_cfg t) then 1 else int (gm_ldb t)));
               orig_C = ptr_add orig_C (int (ip_dim_m p) + int (ip_dim_n p * gm_ldc t))
           in gemm_batches (nf_panel u t p) t wg_batch_id batch_stride (int (gm_batch_size t)) orig_A orig_B orig_C m)"

definition gemm_no_local_full_execute ::
  "'t device_run \<Rightarrow> policy_handler \<Rightarrow> bool \<Rightarrow> (nat \<Rightarrow> 'v) \<Rightarrow> 'v::{zero, plus, times, divide} Gemm \<Rightarrow> 'v mem \<Rightarrow> 'v mem" where
  "gemm_no_local_full_execute r ph v u t m =
     (let rng = nf_get_nd_range t (ph_num_compute_units ph)
      in execute_tree r (nf_valid_thread t) (nf_eval v u t) (fst rng) (snd rng) m)"

section \<open>Registers\<close>

text \<open>What a panel relies on: at the edge the packets have one element, inside the item's tile is one packet by one packet.\<close>

definition nf_place_ok :: "'v Gemm \<Rightarrow> item_place \<Rightarrow> bool" where
  "nf_place_ok t p \<longleftrightarrow> ip_sound t p \<and>
     (if ip_check p then ip_a_packet p = 1
      else ip_a_packet p \<noteq> 1 \<and> gm_item_rows t = ip_a_packet p \<and> gm_item_cols t = ip_a_packet p) \<and>
     ip_b_packet p = (if TransB (gm_cfg t) then ip_a_packet p else 1) \<and>
     (ip_out_of_range p \<longleftrightarrow> gm_m t \<le> ip_dim_m p \<or> gm_n t \<le> ip_dim_n p)"

lemma nf_place_cases:
  assumes "nf_place_ok t p"
  obtains (edge) "ip_check p" "ip_a_packet p = Suc 0" "ip_b_packet p = Suc 0"
  | (inner) "\<not> ip_check p" "ip_a_packet p \<noteq> Suc 0" "gm_item_rows t = ip_a_packet p" "gm_item_cols t = ip_a_packet p"
      "0 < ip_a_packet p"
  using assms by (auto simp: nf_place_ok_def ip_sound_def split: if_splits)

lemma fold_reg_run:
  "fold (\<lambda>j (reg, pos). (reg_store w pos (f j) reg, pos + w)) [0..<n] (reg, 0)
   = (\<lambda>x. if x < n * w then f (x div w) (x mod w) else reg x, n * w)"
proof (induction n)
  case (Suc n)
  have "reg_store w (n * w) (f n) (\<lambda>x. if x < n * w then f (x div w) (x mod w) else reg x) x
      = (if x < Suc n * w then f (x div w) (x mod w) else reg x)" for x
  proof -
    consider "x < n * w" | "n * w \<le> x" "x < n * w + w" | "n * w + w \<le> x" by linarith
    then show ?thesis
    proof cases
      case 2
      then obtain y where "x = n * w + y" "y < w" by (metis add_less_cancel_left le_iff_add)
      then show ?thesis by (simp add: reg_store_def)
    qed (simp_all add: reg_store_def)
  qed
  then show ?case using Suc by (simp add: fun_eq_iff)
qed simp

lemma nf_packet_eq:
  assumes "in_range \<Longrightarrow> ok l"
  shows "nf_packet m ptr in_range ok l = (if ok l then m (ptr_add ptr (int l)) else 0)"
  using assms by (simp add: nf_packet_def vec_load_def)

lemma nf_block_a_eq:
  assumes p: "nf_place_ok t p" "\<not> ip_out_of_range p" and k: "0 < k" "\<not> check_k \<Longrightarrow> ip_a_packet p \<le> k"
    and j: "j < gm_item_rows t" "ip_row t p j < gm_m t" and kk: "kk < ip_a_packet p"
  shows "nf_block_a t p m check_k k A reg (kk * gm_item_rows t + j) =
    (if kk < k then m (ptr_add A (int (packet_off (ip_a_packet p) (gm_wg_rows t) j) * (if TransA (gm_cfg t) then int (gm_lda t) else 1)
       + int kk * (if TransA (gm_cfg t) then 1 else int (gm_lda t)))) else 0)"
  using p(1)
proof (cases rule: nf_place_cases)
  case edge
  have in_range: "ip_dim_m p < gm_m t" using p unfolding nf_place_ok_def by simp
  have r: "0 < gm_m t - ip_dim_m p" "j * gm_wg_rows t < gm_m t - ip_dim_m p"
    using in_range(1) j(2) edge(2) by (simp_all add: ip_row_def less_diff_conv add.commute)
  have kk0: "kk = 0" using kk edge by simp
  show ?thesis
  proof (cases "TransA (gm_cfg t)")
    case True
    let ?f = "\<lambda>i. nf_packet m (ptr_add A (int i * int (gm_wg_rows t * gm_lda t)))
       (do_check (ip_check p) (i * gm_wg_rows t < gm_m t - ip_dim_m p) \<and> do_check check_k (0 < k))
       (\<lambda>l. do_check (ip_check p) (i * gm_wg_rows t < gm_m t - ip_dim_m p) \<and> do_check check_k (l < k)) 0"
    have "nf_block_a t p m check_k k A reg j = fold (\<lambda>i reg. reg(0 + i := ?f i)) [0..<gm_item_rows t] reg j"
      unfolding nf_block_a_def Let_def if_P [OF True] nf_load_block_a_trans_def if_not_P [OF p(2)] edge
      by (subst fold_ptr) (simp add: mult.commute)
    also have "\<dots> = ?f j" using j(1) by (subst fold_reg_row) simp
    finally show ?thesis using True r k kk0 edge by (simp add: nf_packet_def do_check_def vec_load_def ac_simps)
  next
    case False
    let ?f = "\<lambda>j. nf_packet m (ptr_add A (int j * nf_A_ptr_index t p))
       (do_check (ip_check p) (0 < gm_m t - ip_dim_m p) \<and> do_check check_k (0 < k))
       (\<lambda>l. do_check (ip_check p) (l < gm_m t - ip_dim_m p) \<and> do_check check_k (0 < k))"
    have "nf_block_a t p m check_k k A reg j
       = fst (fold (\<lambda>j (reg, pos). (reg_store 1 pos (?f j) reg, pos + 1)) [0..<gm_item_rows t] (reg, 0)) j"
      unfolding nf_block_a_def Let_def if_not_P [OF False] nf_load_block_a_def if_not_P [OF p(2)] edge
      by simp
    also have "\<dots> = ?f j 0" using j(1) by (subst fold_reg_run) simp
    finally show ?thesis using False r k kk0 edge by (simp add: nf_packet_def do_check_def vec_load_def nf_A_ptr_index_def ac_simps)
  qed
next
  case inner
  let ?w = "ip_a_packet p"
  have row: "?w div ?w = 1" "kk * gm_item_rows t + j < ?w * ?w" "(kk * ?w + j) div ?w = kk" "(kk * ?w + j) mod ?w = j"
    using reg_index [of j ?w kk ?w] inner j(1) kk by simp_all
  show ?thesis
  proof (cases "TransA (gm_cfg t)")
    case True
    let ?v = "\<lambda>j. nf_packet m (ptr_add A (int (j * gm_lda t))) (do_check check_k (?w - 1 < k)) (\<lambda>l. do_check check_k (l < k))"
    have "nf_block_a t p m check_k k A reg (kk * ?w + j)
       = fold (\<lambda>j reg. fold (\<lambda>k reg. reg(j + k * ?w := ?v j k)) [0..<?w] reg) [0..<?w] reg (kk * ?w + j)"
      unfolding nf_block_a_def Let_def if_P [OF True] nf_load_block_a_trans_def if_not_P [OF p(2)] inner row(1)
      using inner by (simp add: do_check_def)
    also have "\<dots> = ?v j kk"
      using row inner kk j(1) by (subst fold_reg_transposed) simp_all
    finally have e: "nf_block_a t p m check_k k A reg (kk * ?w + j) = ?v j kk" .
    have "ip_a_packet p - 1 < k \<Longrightarrow> kk < k" using kk by simp
    then show ?thesis using e True inner j(1) less_le_trans [OF kk k(2)] by (simp add: nf_packet_eq do_check_def)
  next
    case False
    let ?f = "\<lambda>i. nf_packet m (ptr_add A (int i * int (gm_lda t))) (do_check check_k (i < k)) (\<lambda>l. do_check check_k (i < k))"
    have "nf_block_a t p m check_k k A reg (kk * ?w + j)
       = fst (fold (\<lambda>i (reg, pos). (reg_store ?w pos (?f i) reg, pos + ?w)) [0..<?w] (reg, 0)) (kk * ?w + j)"
      unfolding nf_block_a_def Let_def if_not_P [OF False] nf_load_block_a_def if_not_P [OF p(2)] inner row(1)
      using inner by (subst fold_ptr) (simp add: do_check_def)
    also have "\<dots> = ?f kk j" using row inner by (subst fold_reg_run) simp
    finally show ?thesis using False inner j(1) less_le_trans [OF kk k(2)] by (simp add: nf_packet_eq do_check_def add.commute)
  qed
qed

text \<open>The updates of \<open>compute_block_gemm_no_shared\<close>, as sums.\<close>

lemma fold_reg_row_sum:
  fixes reg :: "nat \<Rightarrow> 'v::{comm_monoid_add, times}"
  shows "fold (\<lambda>k reg. fold (\<lambda>j reg. reg(b + j := a k j * c k + reg (b + j))) [0..<n] reg) [0..<K] reg x
    = (if b \<le> x \<and> x < b + n then reg x + (\<Sum>k<K. a k (x - b) * c k) else reg x)"
proof (induction K)
  case (Suc K)
  have e: "fold (\<lambda>k reg. fold (\<lambda>j reg. reg(b + j := a k j * c k + reg (b + j))) [0..<n] reg) [0..<Suc K] reg x
      = fold (\<lambda>j reg. reg(b + j := a K j * c K + reg (b + j))) [0..<n]
          (fold (\<lambda>k reg. fold (\<lambda>j reg. reg(b + j := a k j * c k + reg (b + j))) [0..<n] reg) [0..<K] reg) x"
    by simp
  show ?case
    unfolding e fold_reg_row [where f = "\<lambda>j y. a K j * c K + y"] Suc by (simp add: ac_simps)
qed simp

lemma fold_snd_indep:
  assumes "\<And>x s y. x \<in> set xs \<Longrightarrow> snd (f x (s, y)) = h x y"
  shows "snd (fold f xs s) = fold h xs (snd s)"
  using assms
proof (induction xs arbitrary: s)
  case (Cons x xs)
  have "snd (f x s) = h x (snd s)" using Cons.prems [of x "fst s" "snd s"] by simp
  then show ?case using Cons by simp
qed simp

text \<open>A partial block of \<open>B\<close>: element \<open>l\<close> of the packet that starts at \<open>ptr\<close>.\<close>

lemma nf_load_single_b_eq:
  assumes "\<not> check_row \<Longrightarrow> row_ok (if trans_b then row_ofs else l)"
    and "\<not> check_col \<Longrightarrow> col_ok (if trans_b then l else col_ofs)"
    and "l < w" "row_ok (w - 1) \<Longrightarrow> row_ok l" "col_ok (w - 1) \<Longrightarrow> col_ok l"
  shows "nf_load_single_b trans_b m check_row check_col w ptr reg row_ofs col_ofs row_ok col_ok False l =
    (if row_ok (if trans_b then row_ofs else l) \<and> col_ok (if trans_b then l else col_ofs) then m (ptr_add ptr (int l)) else 0)"
  using assms
  by (auto simp: nf_load_single_b_def nf_packet_def vec_load_def reg_store_def do_check_def Let_def split: if_splits)


lemma nf_compute_row:
  fixes t :: "'v::{comm_monoid_add, times} Gemm"
  assumes "\<not> TransB (gm_cfg t) \<or> w = 1"
  shows "nf_compute_block t w r reg_a reg_b reg x =
    (if r * gm_item_rows t \<le> x \<and> x < r * gm_item_rows t + gm_item_rows t
     then reg x + (\<Sum>k<w. reg_a (k * gm_item_rows t + (x - r * gm_item_rows t)) * reg_b k) else reg x)"
proof (cases "TransB (gm_cfg t)")
  case True
  with assms have w: "w = 1" by simp
  show ?thesis
    using True unfolding nf_compute_block_def w fold_reg_row [where f = "\<lambda>j y. reg_a j * reg_b 0 + y"]
    by (simp add: fold_reg_row [where f = "\<lambda>j y. reg_a j * reg_b 0 + y"] add.commute [of "reg x"] del: fun_upd_apply)
next
  case False
  then show ?thesis
    unfolding nf_compute_block_def by (simp add: fold_reg_row_sum [where a = "\<lambda>k j. reg_a (k * gm_item_rows t + j)"] del: fun_upd_apply)
qed

lemma nf_compute_trans:
  fixes t :: "'v::{comm_monoid_add, times} Gemm"
  assumes "TransB (gm_cfg t)" "w \<noteq> 1"
  shows "nf_compute_block t w r reg_a reg_b reg x =
    (if x < w * gm_item_rows t
     then reg x + reg_a (r * gm_item_rows t + x mod gm_item_rows t) * reg_b (x div gm_item_rows t) else reg x)"
proof -
  have e: "nf_compute_block t w r reg_a reg_b reg =
      fold (\<lambda>i reg. fold (\<lambda>j reg. reg(i * gm_item_rows t + j := reg_a (r * gm_item_rows t + j) * reg_b i
         + reg (i * gm_item_rows t + j))) [0..<gm_item_rows t] reg) [0..<w] reg"
    using assms by (simp add: nf_compute_block_def)
  have "nf_compute_block t w r reg_a reg_b reg x = (if x < w * gm_item_rows t
     then reg_a (r * gm_item_rows t + x mod gm_item_rows t) * reg_b (x div gm_item_rows t) + reg x else reg x)"
    unfolding e
    by (rule trans [OF fold_reg_rows [where f = "\<lambda>i j y. reg_a (r * gm_item_rows t + j) * reg_b i + y"]], rule fold_reg_row) simp
  then show ?thesis by (simp add: add.commute)
qed

text \<open>One call of \<open>load_and_compute_block\<close> adds the products of a packet.\<close>

definition nf_a_at :: "'v Gemm \<Rightarrow> item_place \<Rightarrow> 'v mem \<Rightarrow> addr \<Rightarrow> nat \<Rightarrow> nat \<Rightarrow> 'v" where
  "nf_a_at t p m A j l = m (ptr_add A (int (packet_off (ip_a_packet p) (gm_wg_rows t) j) * (if TransA (gm_cfg t) then int (gm_lda t) else 1)
       + int l * (if TransA (gm_cfg t) then 1 else int (gm_lda t))))"

definition nf_b_at :: "'v Gemm \<Rightarrow> item_place \<Rightarrow> 'v mem \<Rightarrow> addr \<Rightarrow> nat \<Rightarrow> nat \<Rightarrow> 'v" where
  "nf_b_at t p m B i l = m (ptr_add B (int (packet_off (ip_b_packet p) (gm_wg_cols t) i) * (if TransB (gm_cfg t) then 1 else int (gm_ldb t))
       + int l * (if TransB (gm_cfg t) then int (gm_ldb t) else 1)))"

lemma nf_load_and_compute_fold:
  "snd (nf_load_and_compute t p m check_k k A B reg_a reg_b reg_res) =
    fold (\<lambda>j. fold (\<lambda>i. nf_b_step t p m check_k k (nf_block_a t p m check_k k A reg_a) j
              (ptr_add B (int j * int (gm_ldb t * (if TransB (gm_cfg t) then 1 else gm_wg_cols t)))) i
              (int i * nf_B_ptr_index t p) (i * ((if TransB (gm_cfg t) then ip_a_packet p else 1) * gm_wg_cols t)))
            [0..<gm_item_cols t div ip_a_packet p])
      [0..<ip_a_packet p] (reg_b, reg_res)"
  unfolding nf_load_and_compute_def Let_def snd_conv fold_ptr fold_offsets ..

lemma nf_edge:
  fixes t :: "'v::{comm_monoid_add, mult_zero} Gemm"
  assumes p: "nf_place_ok t p" "\<not> ip_out_of_range p" and k: "0 < k" "\<not> check_k \<Longrightarrow> ip_a_packet p \<le> k"
    and e: "ip_check p" "ip_a_packet p = Suc 0" "ip_b_packet p = Suc 0" and ij: "(i, j) \<in> ip_in t p"
  shows "snd (snd (nf_load_and_compute t p m check_k k A B reg_a reg_b reg_res)) (i * gm_item_rows t + j)
    = reg_res (i * gm_item_rows t + j) + nf_a_at t p m A j 0 * nf_b_at t p m B i 0"
proof -
  let ?ra = "nf_block_a t p m check_k k A reg_a"
  define bv where "bv = (\<lambda>i. if i * gm_wg_cols t < gm_n t - ip_dim_n p \<or> TransB (gm_cfg t) then m (ptr_add B (int i * nf_B_ptr_index t p)) else 0)"
  let ?h = "\<lambda>i reg x. if i * gm_item_rows t \<le> x \<and> x < i * gm_item_rows t + gm_item_rows t
     then reg x + ?ra (x - i * gm_item_rows t) * bv i else reg x"
  have i: "i < gm_item_cols t" "ip_col t p i < gm_n t" and j: "j < gm_item_rows t" "ip_row t p j < gm_m t"
    using ij by (auto simp: ip_in_def)
  have n: "0 < gm_n t - ip_dim_n p" using p unfolding nf_place_ok_def by simp
  have regs: "snd (snd (nf_load_and_compute t p m check_k k A B reg_a reg_b reg_res)) = fold ?h [0..<gm_item_cols t] reg_res"
  proof -
    let ?step = "\<lambda>i. nf_b_step t p m check_k k ?ra 0 B i (int i * nf_B_ptr_index t p) (i * gm_wg_cols t)"
    have "snd (?step i (rb, reg)) = ?h i reg" for i rb reg
    proof
      fix x
      have load: "nf_load_single_b (TransB (gm_cfg t)) m check_k True (Suc 0) (ptr_add B (int i * nf_B_ptr_index t p)) rb 0
          (i * gm_wg_cols t) (\<lambda>idx. idx < k) (\<lambda>idx. idx < gm_n t - ip_dim_n p) False 0 = bv i"
        using k n e by (subst nf_load_single_b_eq) (auto simp: bv_def)
      show "snd (?step i (rb, reg)) x = ?h i reg x"
        by (simp add: nf_b_step_def Let_def e p(2) nf_compute_row load)
    qed
    then have "snd (fold ?step [0..<gm_item_cols t] (reg_b, reg_res)) = fold ?h [0..<gm_item_cols t] reg_res"
      using fold_snd_indep [where f = ?step and h = ?h and xs = "[0..<gm_item_cols t]" and s = "(reg_b, reg_res)"] by simp
    then show ?thesis by (simp add: nf_load_and_compute_fold e if_distrib)
  qed
  have "snd (snd (nf_load_and_compute t p m check_k k A B reg_a reg_b reg_res)) (i * gm_item_rows t + j)
      = reg_res (i * gm_item_rows t + j) + ?ra j * bv i"
    unfolding regs
    by (rule trans [OF fold_reg_rows [where f = "\<lambda>i j y. y + ?ra j * bv i"]], rule refl) (use j(1) in \<open>simp add: reg_index [OF j(1) i(1)]\<close>)
  also have "?ra j = nf_a_at t p m A j 0"
    using nf_block_a_eq [where kk = 0 and m = m and A = A and reg = reg_a, OF p k j] e k by (simp add: nf_a_at_def)
  also have "bv i = nf_b_at t p m B i 0"
    using i(2) e by (auto simp: bv_def nf_b_at_def nf_B_ptr_index_def ip_col_def ac_simps)
  finally show ?thesis .
qed


lemma fold_add_sum:
  fixes g :: "nat \<Rightarrow> 'a \<Rightarrow> 'v::comm_monoid_add"
  shows "fold (\<lambda>l reg x. if P x then reg x + g l x else reg x) [0..<n] reg x = (if P x then reg x + (\<Sum>l<n. g l x) else reg x)"
  by (induction n) (simp_all add: add.assoc)

lemma nf_inner:
  fixes t :: "'v::{comm_monoid_add, mult_zero} Gemm"
  assumes p: "nf_place_ok t p" "\<not> ip_out_of_range p" and k: "0 < k" "\<not> check_k \<Longrightarrow> ip_a_packet p \<le> k"
    and e: "\<not> ip_check p" "ip_a_packet p \<noteq> Suc 0" "gm_item_rows t = ip_a_packet p" "gm_item_cols t = ip_a_packet p"
    and ij: "(i, j) \<in> ip_in t p"
  shows "snd (snd (nf_load_and_compute t p m check_k k A B reg_a reg_b reg_res)) (i * gm_item_rows t + j)
    = reg_res (i * gm_item_rows t + j)
      + (\<Sum>l<ip_a_packet p. if l < k then nf_a_at t p m A j l * nf_b_at t p m B i l else 0)"
proof -
  let ?w = "ip_a_packet p"
  let ?ra = "nf_block_a t p m check_k k A reg_a"
  have i: "i < ?w" and j: "j < ?w" "ip_row t p j < gm_m t" and jr: "j < gm_item_rows t"
    using ij e by (auto simp: ip_in_def)
  have w: "?w div ?w = 1" using j(1) by simp
  have kl: "l < k" if "l < ?w" "\<not> check_k" for l using that k by simp
  have a: "?ra (l * ?w + j) = (if l < k then nf_a_at t p m A j l else 0)" if "l < ?w" for l
    using nf_block_a_eq [where m = m and A = A and reg = reg_a, OF p k jr j(2)] that e by (simp add: nf_a_at_def)
  show ?thesis
  proof (cases "TransB (gm_cfg t)")
    case False
    define bv where "bv = (\<lambda>i l. if l < k then m (ptr_add B (int i * (int (gm_ldb t) * int (gm_wg_cols t)) + int l)) else 0)"
    let ?h = "\<lambda>i reg x. if i * ?w \<le> x \<and> x < i * ?w + ?w then reg x + (\<Sum>l<?w. ?ra (l * ?w + (x - i * ?w)) * bv i l) else reg x"
    let ?step = "\<lambda>i. nf_b_step t p m check_k k ?ra i (ptr_add B (int i * (int (gm_ldb t) * int (gm_wg_cols t)))) 0 0 0"
    have "snd (?step i (rb, reg)) = ?h i reg" for i rb reg
    proof
      fix x
      have load: "nf_load_single_b False m check_k False ?w (ptr_add B (int i * (int (gm_ldb t) * int (gm_wg_cols t)))) rb i 0
          (\<lambda>idx. idx < k) (\<lambda>idx. idx < gm_n t - ip_dim_n p) False l = bv i l" if "l < ?w" for l
        using kl that by (simp add: nf_load_single_b_def nf_packet_eq reg_store_def do_check_def bv_def Let_def)
      show "snd (?step i (rb, reg)) x = ?h i reg x"
        using False by (simp add: nf_b_step_def Let_def e p(2) nf_compute_row load)
    qed
    then have "snd (fold ?step [0..<?w] (reg_b, reg_res)) = fold ?h [0..<?w] reg_res"
      using fold_snd_indep [where f = ?step and h = ?h and xs = "[0..<?w]" and s = "(reg_b, reg_res)"] by simp
    then have regs: "snd (snd (nf_load_and_compute t p m check_k k A B reg_a reg_b reg_res)) = fold ?h [0..<?w] reg_res"
      using False by (simp add: nf_load_and_compute_fold e w)
    have "snd (snd (nf_load_and_compute t p m check_k k A B reg_a reg_b reg_res)) (i * ?w + j)
        = reg_res (i * ?w + j) + (\<Sum>l<?w. ?ra (l * ?w + j) * bv i l)"
      unfolding regs
      by (rule trans [OF fold_reg_rows [where f = "\<lambda>i j y. y + (\<Sum>l<?w. ?ra (l * ?w + j) * bv i l)"]], rule refl)
        (use j(1) in \<open>simp add: reg_index [OF j(1) i]\<close>)
    moreover have "(\<Sum>l<?w. ?ra (l * ?w + j) * bv i l) = (\<Sum>l<?w. if l < k then nf_a_at t p m A j l * nf_b_at t p m B i l else 0)"
    proof (rule sum.cong [OF refl])
      fix l assume "l \<in> {..<?w}"
      then have l: "l < ?w" by simp
      have "packet_off (ip_b_packet p) (gm_wg_cols t) i = i * gm_wg_cols t" using False e p(1) i by (simp add: nf_place_ok_def)
      then show "?ra (l * ?w + j) * bv i l = (if l < k then nf_a_at t p m A j l * nf_b_at t p m B i l else 0)"
        unfolding a [OF l] using False by (simp add: bv_def nf_b_at_def ac_simps)
    qed
    ultimately show ?thesis using e by simp
  next
    case True
    define bv where "bv = (\<lambda>l i. if l < k then m (ptr_add B (int l * int (gm_ldb t) + int i)) else 0)"
    let ?h = "\<lambda>l reg x. if x < ?w * ?w then reg x + ?ra (l * ?w + x mod ?w) * bv l (x div ?w) else reg x"
    let ?step = "\<lambda>l. nf_b_step t p m check_k k ?ra l (ptr_add B (int l * int (gm_ldb t))) 0 0 0"
    have "snd (?step l (rb, reg)) = ?h l reg" if "l \<in> set [0..<?w]" for l rb reg
    proof
      fix x
      have load: "nf_load_single_b True m check_k False ?w (ptr_add B (int l * int (gm_ldb t))) rb l 0
          (\<lambda>idx. idx < k) (\<lambda>idx. idx < gm_n t - ip_dim_n p) False i = bv l i" if "i < ?w" for i
        using kl [of l] that \<open>l \<in> set [0..<?w]\<close>
        by (auto simp: nf_load_single_b_def nf_packet_eq reg_store_def do_check_def bv_def Let_def)
      have "x div ?w < ?w" if "x < ?w * ?w" using that by (rule less_mult_imp_div_less)
      then show "snd (?step l (rb, reg)) x = ?h l reg x"
        using True e(2) by (simp add: nf_b_step_def Let_def e p(2) nf_compute_trans load)
    qed
    then have "snd (fold ?step [0..<?w] (reg_b, reg_res)) = fold ?h [0..<?w] reg_res"
      using fold_snd_indep [where f = ?step and h = ?h and xs = "[0..<?w]" and s = "(reg_b, reg_res)"] by simp
    then have regs: "snd (snd (nf_load_and_compute t p m check_k k A B reg_a reg_b reg_res)) = fold ?h [0..<?w] reg_res"
      using True by (simp add: nf_load_and_compute_fold e w)
    have "snd (snd (nf_load_and_compute t p m check_k k A B reg_a reg_b reg_res)) (i * ?w + j)
        = reg_res (i * ?w + j) + (\<Sum>l<?w. ?ra (l * ?w + j) * bv l i)"
      unfolding regs fold_add_sum reg_index [OF j(1) i] using reg_index(1) [OF j(1) i] by simp
    moreover have "(\<Sum>l<?w. ?ra (l * ?w + j) * bv l i) = (\<Sum>l<?w. if l < k then nf_a_at t p m A j l * nf_b_at t p m B i l else 0)"
    proof (rule sum.cong [OF refl])
      fix l assume "l \<in> {..<?w}"
      then have l: "l < ?w" by simp
      have "packet_off (ip_b_packet p) (gm_wg_cols t) i = i" using True e p(1) i by (simp add: nf_place_ok_def)
      then show "?ra (l * ?w + j) * bv l i = (if l < k then nf_a_at t p m A j l * nf_b_at t p m B i l else 0)"
        unfolding a [OF l] using True by (simp add: bv_def nf_b_at_def ac_simps)
    qed
    ultimately show ?thesis using e by simp
  qed
qed

lemma nf_load_and_compute_eq:
  fixes t :: "'v::{comm_monoid_add, mult_zero} Gemm"
  assumes p: "nf_place_ok t p" "\<not> ip_out_of_range p" and k: "0 < k" "\<not> check_k \<Longrightarrow> ip_a_packet p \<le> k"
    and ij: "(i, j) \<in> ip_in t p"
  shows "snd (snd (nf_load_and_compute t p m check_k k A B reg_a reg_b reg_res)) (i * gm_item_rows t + j)
    = reg_res (i * gm_item_rows t + j)
      + (\<Sum>l<ip_a_packet p. if l < k then nf_a_at t p m A j l * nf_b_at t p m B i l else 0)"
  using p(1)
proof (cases rule: nf_place_cases)
  case edge
  then show ?thesis using nf_edge [where m = m and A = A and B = B and reg_a = reg_a and reg_b = reg_b and reg_res = reg_res, OF p k edge ij] k by simp
next
  case inner
  then show ?thesis using nf_inner [OF p k inner(1-4) ij] by simp
qed

lemma nf_at_shift:
  "nf_a_at t p m (ptr_add A (int ((if TransA (gm_cfg t) then 1 else gm_lda t) * w))) j l = nf_a_at t p m A j (w + l)"
  "nf_b_at t p m (ptr_add B (int ((if TransB (gm_cfg t) then gm_ldb t else 1) * w))) i l = nf_b_at t p m B i (w + l)"
  by (simp_all add: nf_a_at_def nf_b_at_def algebra_simps)

lemma sum_lessThan_plus: "(\<Sum>l<w + n. f l) = (\<Sum>l<w. f l) + (\<Sum>l<n. f (w + l))" for f :: "nat \<Rightarrow> 'v::comm_monoid_add"
  by (induction n) (simp_all add: add.assoc)

lemma nf_k_loop_eq:
  fixes t :: "'v::{comm_monoid_add, mult_zero} Gemm"
  assumes p: "nf_place_ok t p" "\<not> ip_out_of_range p" and ij: "(i, j) \<in> ip_in t p"
  shows "nf_k_loop t p m k A B reg_a reg_b reg_res (i * gm_item_rows t + j)
    = reg_res (i * gm_item_rows t + j) + (\<Sum>l<k. nf_a_at t p m A j l * nf_b_at t p m B i l)"
proof (induction k arbitrary: A B reg_a reg_b reg_res rule: less_induct)
  case (less k)
  let ?w = "ip_a_packet p" and ?x = "i * gm_item_rows t + j"
  have w: "0 < ?w" using p(1) by (simp add: nf_place_ok_def ip_sound_def)
  consider "?w \<le> k" | "k < ?w" "0 < k" | "k = 0" by linarith
  then show ?case
  proof cases
    case 1
    obtain ra rb rr where r: "nf_load_and_compute t p m False k A B reg_a reg_b reg_res = (ra, rb, rr)"
      by (metis prod.exhaust)
    have rr: "rr ?x = reg_res ?x + (\<Sum>l<?w. nf_a_at t p m A j l * nf_b_at t p m B i l)"
      using nf_load_and_compute_eq [OF p _ _ ij, where k = k and check_k = False and m = m and A = A and B = B
          and reg_a = reg_a and reg_b = reg_b and reg_res = reg_res] 1 w by (simp add: r)
    have "(\<Sum>l<k. nf_a_at t p m A j l * nf_b_at t p m B i l) = (\<Sum>l<?w + (k - ?w). nf_a_at t p m A j l * nf_b_at t p m B i l)"
      using 1 by simp
    note sum = this [unfolded sum_lessThan_plus]
    show ?thesis
      by (subst nf_k_loop.simps) (use 1 w in \<open>simp add: r less.IH nf_at_shift rr sum add.assoc del: of_nat_mult\<close>)
  next
    case 2
    have "(\<Sum>l<?w. if l < k then nf_a_at t p m A j l * nf_b_at t p m B i l else 0)
        = (\<Sum>l<k. nf_a_at t p m A j l * nf_b_at t p m B i l)"
      using 2 by (intro sum.mono_neutral_cong_right) auto
    then show ?thesis
      using 2 nf_load_and_compute_eq [OF p 2(2) _ ij, where check_k = True]
      by (subst nf_k_loop.simps) simp
  next
    case 3
    then show ?thesis using w by (simp add: nf_k_loop.simps)
  qed
qed

section \<open>One item\<close>

lemma nf_check_c_iff:
  assumes "nf_place_ok t p" "i < gm_item_cols t" "j < gm_item_rows t"
  shows "nf_check_c t p i (j div ip_a_packet p) \<longleftrightarrow> (i, j) \<in> ip_in t p"
  using assms(1)
proof (cases rule: nf_place_cases)
  case edge
  then show ?thesis using assms by (simp add: nf_check_c_def do_check_def ip_in_def ip_row_def ip_col_def)
next
  case inner
  then show ?thesis using assms by (simp add: nf_check_c_def do_check_def nf_place_ok_def ip_sound_def)
qed

text \<open>The pointer into \<open>C\<close> follows the columns.\<close>

lemma nf_c_offset:
  assumes "nf_place_ok t p" "i < gm_item_cols t"
  shows "int i * int (nf_c_step t p) = int (packet_off (ip_b_packet p) (gm_wg_cols t) i * gm_ldc t)"
  using assms(1)
proof (cases rule: nf_place_cases)
  case edge
  then show ?thesis by (simp add: nf_c_step_def ac_simps)
next
  case inner
  then show ?thesis using assms by (auto simp: nf_c_step_def nf_place_ok_def ac_simps)
qed

lemma nf_rows_div:
  assumes "nf_place_ok t p"
  shows "gm_item_rows t div ip_a_packet p * ip_a_packet p = gm_item_rows t" "0 < ip_a_packet p"
  using assms by (auto simp: nf_place_ok_def ip_sound_def)

lemma nf_scaling_eq:
  fixes t :: "'v::field Gemm"
  assumes p: "nf_place_ok t p" "\<not> ip_out_of_range p" and ij: "(i, j) \<in> ip_in t p"
  shows "nf_scaling_c t p m C reg (i * gm_item_rows t + j) =
    (if beta_zero (gm_cfg t) then 0 else gm_stored_beta t * m (ip_cell t p C (i, j)))"
proof -
  have i: "i < gm_item_cols t" and j: "j < gm_item_rows t" using ij by (auto simp: ip_in_def)
  let ?x = "i * gm_item_rows t + j"
  note x = reg_index [OF j i]
  show ?thesis
  proof (cases "beta_zero (gm_cfg t)")
    case True
    then show ?thesis
      using x(1) fold_reg_row_guard [where P = "\<lambda>_. True" and b = 0 and f = "\<lambda>_. 0" and n = "gm_item_cols t * gm_item_rows t" and reg = reg]
      by (simp add: nf_scaling_c_def)
  next
    case False
    let ?w = "ip_a_packet p"
    note w = nf_rows_div [OF p(1)]
    let ?D = "\<lambda>i. ptr_add C (int i * int (nf_c_step t p))"
    define val where "val = (\<lambda>i j. m (ptr_add (?D i) (int (j div ?w * gm_wg_rows t * ?w) + int (j mod ?w))) * gm_stored_beta t)"
    let ?row = "\<lambda>i reg. fold (\<lambda>j reg. if nf_check_c t p i j
               then reg_store ?w (i * gm_item_rows t + j * ?w)
                      (\<lambda>x. vec_load m (ptr_add (?D i) (int (j * gm_wg_rows t * ?w))) x * gm_stored_beta t) reg
               else reg) [0..<gm_item_rows t div ?w] reg"
    have row: "?row i reg x = (if i * gm_item_rows t \<le> x \<and> x < i * gm_item_rows t + gm_item_rows t
        then (if nf_check_c t p i ((x - i * gm_item_rows t) div ?w) then val i (x - i * gm_item_rows t) else reg x) else reg x)"
      for i reg x
      unfolding fold_reg_packets [OF w(2)] w(1) by (simp add: vec_load_def val_def add.assoc)
    have "nf_scaling_c t p m C reg ?x = fold ?row [0..<gm_item_cols t] reg ?x"
      unfolding nf_scaling_c_def if_not_P [OF False] if_not_P [OF p(2)] by (subst fold_ptr) (rule refl)
    also have "\<dots> = val i j"
      by (rule trans [OF fold_reg_rows [where f = "\<lambda>i j y. if nf_check_c t p i (j div ?w) then val i j else y"]], rule row)
        (use x nf_check_c_iff [OF p(1) i j] ij in simp)
    also have "\<dots> = gm_stored_beta t * m (ip_cell t p C (i, j))"
      unfolding val_def nf_c_offset [OF p(1) i] by (simp add: ip_cell_def packet_off_def ac_simps)
    finally show ?thesis using False by simp
  qed
qed

lemma nf_store_wrote:
  fixes t :: "'v::times Gemm"
  assumes p: "nf_place_ok t p" "\<not> ip_out_of_range p" and ld: "gm_m t \<le> gm_ldc t"
  shows "wrote (ip_cell t p C) (ip_in t p) (\<lambda>(i, j). reg (i * gm_item_rows t + j) * gm_alpha t) m (nf_store t p reg C m)"
proof -
  let ?w = "ip_a_packet p"
  have s: "ip_sound t p" using p(1) by (simp add: nf_place_ok_def)
  have chk: "nf_check_c t p i q \<longleftrightarrow> (i, q * ?w + x) \<in> ip_in t p"
    if "i < gm_item_cols t" "q < gm_item_rows t div ?w" "x < ?w" for i q x
    using nf_check_c_iff [OF p(1) that(1), of "q * ?w + x"] reg_index [OF that(3,2)] nf_rows_div(1) [OF p(1)] that(3) by simp
  have "nf_store t p reg C m = fold (\<lambda>i. fold (\<lambda>q m. if nf_check_c t p i q then vec_store ?w
         (ptr_add (ptr_add C (int (packet_off (ip_b_packet p) (gm_wg_cols t) i * gm_ldc t))) (int (q * gm_wg_rows t * ?w)))
         (\<lambda>x. reg (i * gm_item_rows t + (q * ?w + x)) * gm_alpha t) m else m) [0..<gm_item_rows t div ?w]) [0..<gm_item_cols t] m"
    unfolding nf_store_def if_not_P [OF p(2)] fold_ptr add.assoc
    by (rule fold_cong, rule refl, rule refl, subst nf_c_offset [OF p(1)], simp_all)
  then show ?thesis using packet_stores_wrote [OF s ld chk] by simp
qed

text \<open>One panel: element \<open>(i, j)\<close> of the item's registers.\<close>

lemma nf_panel_wrote:
  fixes t :: "'v::field Gemm"
  assumes p: "nf_place_ok t p" "\<not> ip_out_of_range p" and ld: "gm_m t \<le> gm_ldc t" and alpha: "gm_alpha t \<noteq> 0"
  shows "wrote (\<lambda>(i, j). ptr_add C (int (ip_row t p j + ip_col t p i * gm_ldc t))) (ip_in t p)
     (\<lambda>(i, j). gm_elem t A B C m (ip_row t p j) (ip_col t p i)) m
     (nf_panel u t p (ptr_add A (int (ip_dim_m p) * (if TransA (gm_cfg t) then int (gm_lda t) else 1)))
        (ptr_add B (int (ip_dim_n p) * (if TransB (gm_cfg t) then 1 else int (gm_ldb t)))) (ip_base t p C) m)"
    (is "wrote ?cell _ ?v m (nf_panel u t p ?A ?B ?C m)")
proof -
  let ?reg = "nf_k_loop t p m (gm_k t) ?A ?B u u (nf_scaling_c t p m ?C u)"
  have reg: "?reg (i * gm_item_rows t + j) * gm_alpha t = ?v (i, j)" if ij: "(i, j) \<in> ip_in t p" for i j
  proof -
    have c: "ip_cell t p ?C (i, j) = ptr_add C (int (ip_row t p j + ip_col t p i * gm_ldc t))" by (simp add: ip_cell_base)
    have a: "nf_a_at t p m ?A j l = m (operand_cell (TransA (gm_cfg t)) A 0 (gm_lda t) 0 (ip_row t p j) l)"
      and b: "nf_b_at t p m ?B i l = m (operand_cell (TransB (gm_cfg t)) B 0 (gm_ldb t) 0 l (ip_col t p i))" for l
      by (simp_all add: nf_a_at_def nf_b_at_def operand_cell_def batch_cell_def ip_row_def ip_col_def algebra_simps)
    show ?thesis
      unfolding nf_k_loop_eq [OF p ij] nf_scaling_eq [OF p ij] a b c prod.case gm_elem_def product_at_def
      using alpha by (simp add: gm_stored_beta_def field_simps)
  qed
  have "wrote ?cell (ip_in t p) (\<lambda>(i, j). ?reg (i * gm_item_rows t + j) * gm_alpha t) m (nf_panel u t p ?A ?B ?C m)"
    using nf_store_wrote [OF p ld, of ?C ?reg m] unfolding ip_cell_base by (simp add: nf_panel_def Let_def)
  then show ?thesis using reg unfolding wrote_def by auto
qed

section \<open>The contract\<close>

text \<open>What the kernel asks of its configuration.\<close>

definition nf_ok :: "bool \<Rightarrow> 'v::zero Gemm \<Rightarrow> bool" where
  "nf_ok v t \<longleftrightarrow> no_local_full_asserts v (gm_cfg t) \<and> gm_alpha t \<noteq> 0 \<and>
     0 < gm_item_rows t \<and> 0 < gm_item_cols t \<and> 0 < gm_wg_rows t \<and> 0 < gm_wg_cols t"

definition nf_body ::
  "bool \<Rightarrow> (nat \<Rightarrow> 'v) \<Rightarrow> 'v::{zero, plus, times, divide} Gemm \<Rightarrow> nat \<Rightarrow> addr \<Rightarrow> addr \<Rightarrow> addr \<Rightarrow> 'v mem \<Rightarrow> 'v mem" where
  "nf_body v u t e A B C =
     (let p = place_item (nf_place_of v) t e
      in nf_panel u t p (ptr_add A (int (ip_dim_m p) * (if TransA (gm_cfg t) then int (gm_lda t) else 1)))
           (ptr_add B (int (ip_dim_n p) * (if TransB (gm_cfg t) then 1 else int (gm_ldb t)))) (ip_base t p C))"

lemma nf_packets:
  assumes "nf_ok v t"
  defines "w \<equiv> packet_size v (VectorSize (gm_cfg t))"
  shows "0 < w" "w \<noteq> 1 \<Longrightarrow> gm_item_rows t = w" "w \<noteq> 1 \<Longrightarrow> gm_item_cols t = w"
  using assms(1) unfolding w_def nf_ok_def no_local_full_asserts_def Let_def check_size_def packet_size_def
  by (auto intro!: gr0I split: if_splits)

lemma nf_clusters: "nf_get_workgroup_cluster t = gm_blocks_cluster t"
  by (simp add: nf_get_workgroup_cluster_def gm_blocks_cluster_def)

lemma nf_place_of_simps:
  fixes v :: bool and t :: "'v Gemm" and g l :: nat
  defines "p \<equiv> nf_place_of v t g l" and "w \<equiv> packet_size v (VectorSize (gm_cfg t))"
    and "r \<equiv> g mod gm_blocks_per_row t" and "c \<equiv> g div gm_blocks_per_row t"
  shows "ip_check p \<longleftrightarrow> w = 1 \<or> \<not> (gm_block_rows t \<le> gm_m t - r * gm_block_rows t \<and> gm_block_cols t \<le> gm_n t - c * gm_block_cols t)"
    "ip_a_packet p = (if ip_check p then 1 else w)"
    "ip_b_packet p = (if TransB (gm_cfg t) then ip_a_packet p else 1)"
    "ip_dim_m p = l mod gm_wg_rows t * ip_a_packet p + r * gm_block_rows t"
    "ip_dim_n p = l div gm_wg_rows t * ip_b_packet p + c * gm_block_cols t"
    "ip_out_of_range p \<longleftrightarrow> gm_m t \<le> ip_dim_m p \<or> gm_n t \<le> ip_dim_n p"
  by (auto simp: nf_place_of_def Let_def assms gm_blocks_per_row_def)

interpretation nfl: block_layout "\<lambda>t :: 'v::zero Gemm. nf_ok v t" nf_get_workgroup_cluster
  "\<lambda>t g. g mod gm_blocks_per_row t" "\<lambda>t g. g div gm_blocks_per_row t" "nf_place_of v" for v
proof unfold_locales
  fix t :: "'v Gemm" and g g' l x y :: nat
  show "ip_a_packet (nf_place_of v t g l) = ip_a_packet (nf_place_of v t g 0) \<and>
      ip_b_packet (nf_place_of v t g l) = ip_b_packet (nf_place_of v t g 0)"
    by (simp add: nf_place_of_simps)
  show "g = g'" if "g mod gm_blocks_per_row t = g' mod gm_blocks_per_row t" "g div gm_blocks_per_row t = g' div gm_blocks_per_row t"
    using that by (metis div_mult_mod_eq)
  assume ok: "nf_ok v t"
  then show "0 < gm_item_rows t \<and> 0 < gm_item_cols t \<and> 0 < gm_wg_rows t \<and> 0 < gm_wg_cols t" by (simp add: nf_ok_def)
  show "0 < ip_a_packet (nf_place_of v t g l) \<and> gm_item_rows t mod ip_a_packet (nf_place_of v t g l) = 0 \<and>
      0 < ip_b_packet (nf_place_of v t g l) \<and> gm_item_cols t mod ip_b_packet (nf_place_of v t g l) = 0"
    using nf_packets [OF ok] by (cases "packet_size v (VectorSize (gm_cfg t)) = 1") (simp_all add: nf_place_of_simps(2,3))
  have pos: "0 < gm_block_rows t" "0 < gm_block_cols t" using ok by (auto simp: nf_ok_def gm_block_rows_def gm_block_cols_def)
  show "\<exists>g < nf_get_workgroup_cluster t. g mod gm_blocks_per_row t = x \<and> g div gm_blocks_per_row t = y"
    if "x * gm_block_rows t < gm_m t" "y * gm_block_cols t < gm_n t"
    unfolding nf_clusters by (rule blocks_cover [OF pos that])
  show "g mod gm_blocks_per_row t * gm_block_rows t + gm_block_rows t \<le> gm_m t \<and>
      g div gm_blocks_per_row t * gm_block_cols t + gm_block_cols t \<le> gm_n t"
    if "g < nf_get_workgroup_cluster t" "\<not> ip_check (nf_place_of v t g l)"
    using pos that(2) by (auto simp: nf_place_of_simps(1))
qed (simp_all add: nf_place_of_simps(4,5))

lemma nf_item_place_ok:
  assumes "nf_ok v t" "gm_wf t" "e < gm_wg_size t * nf_get_workgroup_cluster t"
  shows "nf_place_ok t (place_item (nf_place_of v) t e)"
  using nfl.item_sound [OF assms] nf_packets [OF assms(1)]
  by (auto simp: nf_place_ok_def place_item_def nf_place_of_simps)

text \<open>Outside the matrix an item stores nothing.\<close>

lemma nf_panel_idle: "ip_out_of_range p \<Longrightarrow> nf_panel u t p A B C m = m"
  by (simp add: nf_panel_def nf_store_def Let_def)

lemma nf_eval_item:
  fixes t :: "'v::{zero, plus, times, divide} Gemm"
  assumes "0 < gm_wg_size t"
  shows "nf_eval v u t (item_of (gm_wg_size t) (nf_get_workgroup_cluster t * S * gm_wg_size t) i) m
    = (if gm_batch_size t \<le> i div (gm_wg_size t * nf_get_workgroup_cluster t) then m
       else at_batch t (gemm_batches (nf_body v u t (i mod (gm_wg_size t * nf_get_workgroup_cluster t))) t
              (i div (gm_wg_size t * nf_get_workgroup_cluster t)) S (int (gm_batch_size t)))
              (gm_A t) (gm_B t) (gm_C t) (i div (gm_wg_size t * nf_get_workgroup_cluster t)) m)"
proof -
  have cl: "0 < nf_get_workgroup_cluster t" by (simp add: nf_get_workgroup_cluster_def)
  let ?p = "place_item (nf_place_of v) t (i mod (gm_wg_size t * nf_get_workgroup_cluster t))"
  have body: "nf_body v u t (i mod (gm_wg_size t * nf_get_workgroup_cluster t)) = (\<lambda>A B C. nf_panel u t ?p
      (ptr_add A (int (ip_dim_m ?p) * (if TransA (gm_cfg t) then int (gm_lda t) else 1)))
      (ptr_add B (int (ip_dim_n ?p) * (if TransB (gm_cfg t) then 1 else int (gm_ldb t))))
      (ptr_add C (int (ip_dim_m ?p) + int (ip_dim_n ?p * gm_ldc t))))"
    by (intro ext) (simp add: nf_body_def ip_base_def Let_def)
  show ?thesis
    unfolding nf_eval_def Let_def cluster_item [OF assms cl] body gemm_batches_shift place_item_def ..
qed

lemma nf_body_wrote:
  fixes t :: "'v::field Gemm"
  assumes ok: "nf_ok v t" "gm_wf t" "e < gm_wg_size t * nf_get_workgroup_cluster t"
  defines "p \<equiv> place_item (nf_place_of v) t e"
  shows "wrote (\<lambda>(i, j). ptr_add C (int (ip_row t p j + ip_col t p i * gm_ldc t)))
     (ip_in t p) (\<lambda>(i, j). gm_elem t A B C m (ip_row t p j) (ip_col t p i)) m (nf_body v u t e A B C m)"
proof (cases "ip_out_of_range p")
  case True
  then have "ip_in t p = {}"
    by (auto simp: p_def place_item_def nf_place_of_simps(6) ip_in_def ip_row_def ip_col_def)
  then show ?thesis using True by (simp add: wrote_def nf_body_def nf_panel_idle flip: p_def)
next
  case False
  show ?thesis
    unfolding nf_body_def Let_def p_def [symmetric]
    by (rule nf_panel_wrote [OF nf_item_place_ok [OF ok, folded p_def] False]) (use ok(1,2) in \<open>simp_all add: gm_wf_def nf_ok_def\<close>)
qed

interpretation nf: gemm_kernel "nf_ok v :: 'v::field Gemm \<Rightarrow> bool" gm_wg_size nf_get_workgroup_cluster
  "nf_eval v u" "nf_body v u" "place_tile (nf_place_of v)" for v u
proof unfold_locales
  fix t :: "'v Gemm" and S i m
  assume "nf_ok v t"
  then show "nf_eval v u t (item_of (gm_wg_size t) (nf_get_workgroup_cluster t * S * gm_wg_size t) i) m
    = (if gm_batch_size t \<le> i div (gm_wg_size t * nf_get_workgroup_cluster t) then m
       else at_batch t (gemm_batches (nf_body v u t (i mod (gm_wg_size t * nf_get_workgroup_cluster t))) t
              (i div (gm_wg_size t * nf_get_workgroup_cluster t)) S (int (gm_batch_size t)))
              (gm_A t) (gm_B t) (gm_C t) (i div (gm_wg_size t * nf_get_workgroup_cluster t)) m)"
    by (intro nf_eval_item) (simp add: nf_ok_def gm_wg_size_def)
next
  fix t :: "'v Gemm"
  assume "nf_ok v t"
  then show "0 < gm_wg_size t \<and> 0 < nf_get_workgroup_cluster t"
    by (simp add: nf_ok_def gm_wg_size_def nf_get_workgroup_cluster_def)
next
  fix t :: "'v Gemm" and e d A B C m
  assume "nf_ok v t" "gm_wf t" "e < gm_wg_size t * nf_get_workgroup_cluster t"
    and "d \<notin> tile_cells (gm_ldc t) (place_tile (nf_place_of v) t e) C"
  then show "nf_body v u t e A B C m d = m d"
    by (intro wrote_tile_frame [OF nf_body_wrote])
next
  fix t :: "'v Gemm" and e i j A B C m
  assume "nf_ok v t" "gm_wf t" "e < gm_wg_size t * nf_get_workgroup_cluster t" "(i, j) \<in> place_tile (nf_place_of v) t e"
  then show "nf_body v u t e A B C m (ptr_add C (int (i + j * gm_ldc t))) = gm_elem t A B C m i j"
    by (intro wrote_tile_elem [OF nf_body_wrote])
qed (rule nfl.tile_bounds nfl.tile_disjoint nfl.tile_cover; assumption)+

lemma nf_get_num_pos: "0 < nf_get_num_workgroup_cluster t compute_units"
  by (simp add: nf_get_num_workgroup_cluster_def)

lemma gemm_no_local_full_result:
  fixes alpha beta :: "'v::field"
  assumes "is_run r" "0 < M" "M \<le> ldc" "it_buffer a \<noteq> it_buffer c" "it_buffer b \<noteq> it_buffer c"
    and "alpha \<noteq> 0" "no_local_full_asserts v cfg" "0 < item_rows (TileT cfg)" "0 < item_cols (TileT cfg)"
    and "0 < wg_rows (TileT cfg)" "0 < wg_cols (TileT cfg)"
  shows "gemm_result (beta_zero cfg) (TransA cfg) (TransB cfg) M N K alpha (it_buffer a, it_offset a) lda
     (it_buffer b, it_offset b) ldb beta (it_buffer c, it_offset c) ldc bs m
     (gemm_no_local_full_execute r ph v u (select_gemm_tree cfg M N K alpha a lda b ldb beta c ldc bs) m)"
proof -
  let ?t = "select_gemm_tree cfg M N K alpha a lda b ldb beta c ldc bs"
  have wf: "nf_ok v ?t" "gm_wf ?t"
    using assms by (simp_all add: gm_wf_def nf_ok_def select_gemm_simps)
  show ?thesis
    using nf.launch_correct [OF wf nf_get_num_pos [of ?t "ph_num_compute_units ph"] assms(1), where u = u and m = m]
    by (simp add: gemm_no_local_full_execute_def nf_get_nd_range_def Let_def nf_valid_thread_def [abs_def] select_gemm_simps)
qed

section \<open>Properties\<close>

text \<open>C8: the fully vectorised kernel computes \<open>alpha * op(A) * op(B) + beta * C\<close> for every matrix of the
  batch and changes nothing else, for every size of the matrices, every tiling and packet size that passes its
  assertions, with and without vectorisation, any contents of uninitialised registers, and any order of the
  work-items; \<open>alpha\<close> must not be zero.\<close>

theorem gemm_no_local_full_correct:
  fixes alpha beta :: "'v::field"
  assumes "is_run r" "0 < M" "M \<le> ldc" "it_buffer a \<noteq> it_buffer c" "it_buffer b \<noteq> it_buffer c"
    and "alpha \<noteq> 0" "no_local_full_asserts v cfg" "0 < item_rows (TileT cfg)" "0 < item_cols (TileT cfg)"
    and "0 < wg_rows (TileT cfg)" "0 < wg_cols (TileT cfg)"
  shows "gemm_result (beta_zero cfg) (TransA cfg) (TransB cfg) M N K alpha (it_buffer a, it_offset a) lda
     (it_buffer b, it_offset b) ldb beta (it_buffer c, it_offset c) ldc bs m
     (gemm_no_local_full_execute r ph v u (select_gemm_tree cfg M N K alpha a lda b ldb beta c ldc bs) m)"
  by (rule gemm_no_local_full_result [OF assms])

lemma gemm_no_local_full_correct_witness:
  "gemm_no_local_full_execute (seq_run ()) sample_ph True (\<lambda>_. 9)
     (select_gemm_tree (make_launcher 64 False False False 64 (Tile4 2 2 2 2) False False mem_no_local alg_standard vec_full False 2 strided_batch)
        2 2 1 3 (sample_it 1) 2 (sample_it 2) 1 5 (sample_it 3) 2 1) real_mem (3, 3) = 3 * (2 * 3) + 5 * 6"
  using gemm_no_local_full_correct [OF is_run_seq, of 2 2 "sample_it 1" "sample_it 3" "sample_it 2" 3 True
      "make_launcher 64 False False False 64 (Tile4 2 2 2 2) False False mem_no_local alg_standard vec_full False 2 strided_batch"
      2 1 2 1 5 1 real_mem "()" sample_ph "\<lambda>_. 9"]
  by (simp add: make_launcher_def Tile4_def no_local_full_asserts_def packet_size_def check_size_def gemm_result_def product_of_def
      operand_cell_def batch_cell_def a_stride_def b_stride_def real_mem_def less_cases)

end
