(* ===== verification/Barriers.thy ===== *)
theory Barriers
  imports Kernels
begin

text \<open>
  Work-group programs: what the items of a group do between barriers, as a list of commands that all of them run.
  A command changes one part of the state: an item's private variables, local memory, or device memory.

  The device only promises that a barrier separates what comes before from what comes after; between two barriers
  the items run in any order, each through all of its commands. A program is \<open>race_free\<close> when, of two different items
  that run the same command or two that no barrier separates, neither writes a cell that the other writes or reads.
  A program is \<open>commuting\<close> when commands that no barrier separates commute between different items; then the group
  may as well finish every command before it starts the next (\<open>run_program_cmds\<close>), and the program can be followed
  one command at a time.
\<close>

section \<open>Commands\<close>

datatype ('s, 't, 'p) cmd =
    Priv "nat \<Rightarrow> 's \<Rightarrow> (nat \<Rightarrow> 't) \<Rightarrow> 'p \<Rightarrow> 'p"
  | Local "nat \<Rightarrow> 's \<Rightarrow> (nat \<Rightarrow> 't) \<Rightarrow> 'p \<Rightarrow> nat \<Rightarrow> 't"
  | Mem "nat \<Rightarrow> 's \<Rightarrow> (nat \<Rightarrow> 't) \<Rightarrow> 'p \<Rightarrow> 's"
  | Barrier

text \<open>What item \<open>l\<close> does.\<close>

fun exec :: "('s, 't, 'p) cmd \<Rightarrow> nat \<Rightarrow> ('s, 't, 'p) group_state \<Rightarrow> ('s, 't, 'p) group_state" where
  "exec (Priv f) l gs = gs\<lparr>gs_priv := (gs_priv gs)(l := f l (gs_mem gs) (gs_local gs) (gs_priv gs l))\<rparr>"
| "exec (Local f) l gs = gs\<lparr>gs_local := f l (gs_mem gs) (gs_local gs) (gs_priv gs l)\<rparr>"
| "exec (Mem f) l gs = gs\<lparr>gs_mem := f l (gs_mem gs) (gs_local gs) (gs_priv gs l)\<rparr>"
| "exec Barrier l gs = gs"

text \<open>A program, cut at its barriers.\<close>

fun split_barriers :: "('s, 't, 'p) cmd list \<Rightarrow> ('s, 't, 'p) cmd list list" where
  "split_barriers [] = [[]]"
| "split_barriers (Barrier # cs) = [] # split_barriers cs"
| "split_barriers (c # cs) = (c # hd (split_barriers cs)) # tl (split_barriers cs)"

definition phase_of :: "('s, 't, 'p) cmd list \<Rightarrow> nat \<Rightarrow> ('s, 't, 'p) group_state \<Rightarrow> ('s, 't, 'p) group_state" where
  "phase_of cs l = fold (\<lambda>c. exec c l) cs"

definition program_phases ::
  "('s, 't, 'p) cmd list \<Rightarrow> (nat \<Rightarrow> ('s, 't, 'p) group_state \<Rightarrow> ('s, 't, 'p) group_state) list" where
  "program_phases cs = map phase_of (split_barriers cs)"

text \<open>The same program, one command at a time.\<close>

fun run_cmds :: "(nat \<Rightarrow> nat list) \<Rightarrow> nat \<Rightarrow> ('s, 't, 'p) cmd list \<Rightarrow> ('s, 't, 'p) group_state \<Rightarrow> ('s, 't, 'p) group_state" where
  "run_cmds ord k [] gs = gs"
| "run_cmds ord k (Barrier # cs) gs = run_cmds ord (Suc k) cs gs"
| "run_cmds ord k (c # cs) gs = run_cmds ord k cs (fold (exec c) (ord k) gs)"

section \<open>Commands that commute\<close>

definition commute :: "nat \<Rightarrow> ('s, 't, 'p) cmd \<Rightarrow> ('s, 't, 'p) cmd \<Rightarrow> bool" where
  "commute L c d \<longleftrightarrow> (\<forall>k < L. \<forall>l < L. k \<noteq> l \<longrightarrow> (\<forall>gs. exec d k (exec c l gs) = exec c l (exec d k gs)))"

fun commuting :: "nat \<Rightarrow> ('s, 't, 'p) cmd list \<Rightarrow> bool" where
  "commuting L [] = True"
| "commuting L (c # cs) = ((\<forall>d \<in> set (hd (split_barriers cs)). commute L c d) \<and> commuting L cs)"

lemma split_not_Nil [simp]: "split_barriers cs \<noteq> []"
  by (induction cs rule: split_barriers.induct) auto

lemma commute_Barrier [simp]: "commute L Barrier d" "commute L c Barrier"
  by (simp_all add: commute_def)

lemma fold_phase_split:
  assumes "\<And>d. d \<in> set ds \<Longrightarrow> commute L c d" "distinct xs" "set xs \<subseteq> {..<L}"
  shows "fold (\<lambda>l gs. phase_of ds l (exec c l gs)) xs gs = fold (phase_of ds) xs (fold (exec c) xs gs)"
  using assms(2,3)
proof (induction xs arbitrary: gs)
  case (Cons x xs)
  have swap: "fold (exec c) ys (phase_of ds x g) = phase_of ds x (fold (exec c) ys g)"
    if "x \<notin> set ys" "set ys \<subseteq> {..<L}" "x < L" for ys g
    using that
  proof (induction ys arbitrary: g)
    case (Cons y ys)
    have "exec c y (phase_of ds' x g) = phase_of ds' x (exec c y g)" if "set ds' \<subseteq> set ds" for ds' g
      using that
    proof (induction ds' arbitrary: g)
      case (Cons d ds')
      then have "exec d x (exec c y g) = exec c y (exec d x g)"
        using assms(1) [of d] \<open>x \<notin> set (y # ys)\<close> \<open>set (y # ys) \<subseteq> {..<L}\<close> \<open>x < L\<close> by (auto simp: commute_def)
      then show ?case using Cons by (simp add: phase_of_def)
    qed (simp add: phase_of_def)
    then show ?case using Cons by simp
  qed simp
  show ?case using Cons swap [of xs] by simp
qed simp

lemma run_program_cmds:
  assumes "commuting L cs" "\<And>k. distinct (ord k)" "\<And>k. set (ord k) = {..<L}"
  shows "run_phases ord k (program_phases cs) gs = run_cmds ord k cs gs"
  using assms(1)
proof (induction cs arbitrary: k gs)
  case Nil
  have "fold (phase_of []) xs gs = gs" for xs by (induction xs) (simp_all add: phase_of_def)
  then show ?case by (simp add: program_phases_def)
next
  case (Cons c cs)
  obtain p ps where p: "split_barriers cs = p # ps" by (cases "split_barriers cs") simp_all
  have first: "run_phases ord k (program_phases cs) g = run_phases ord (Suc k) (map phase_of ps) (fold (phase_of p) (ord k) g)" for k g
    by (simp add: program_phases_def p)
  have pc: "phase_of (c # p) = (\<lambda>l gs. phase_of p l (exec c l gs))" by (simp add: phase_of_def fun_eq_iff)
  have split: "fold (phase_of (c # p)) (ord k) gs = fold (phase_of p) (ord k) (fold (exec c) (ord k) gs)"
    unfolding pc by (rule fold_phase_split [where L = L]) (use Cons.prems assms(2,3) in \<open>simp_all add: p\<close>)
  show ?case
  proof (cases "c = Barrier")
    case True
    have "fold (phase_of []) xs g = g" for xs and g :: "('a, 'b, 'c) group_state"
      by (induction xs) (simp_all add: phase_of_def)
    then show ?thesis using True Cons by (simp add: program_phases_def)
  next
    case False
    then have "split_barriers (c # cs) = (c # p) # ps" by (cases c) (simp_all add: p)
    then have "run_phases ord k (program_phases (c # cs)) gs = run_phases ord k (program_phases cs) (fold (exec c) (ord k) gs)"
      unfolding first by (simp add: program_phases_def split)
    also have "\<dots> = run_cmds ord k (c # cs) gs" using Cons False by (cases c) simp_all
    finally show ?thesis .
  qed
qed

text \<open>When commands commute.\<close>

lemma commute_sym: "commute L c d \<Longrightarrow> commute L d c"
  by (auto simp: commute_def)

lemma commute_Priv_Priv [simp]: "commute L (Priv f) (Priv g)"
  by (auto simp: commute_def fun_eq_iff intro!: group_state.equality)

lemma commute_Priv_Local:
  assumes "\<And>k l s f p q. k < L \<Longrightarrow> l < L \<Longrightarrow> k \<noteq> l \<Longrightarrow> v l s (w k s f q) p = v l s f p"
  shows "commute L (Priv v) (Local w)" "commute L (Local w) (Priv v)"
  using assms by (auto simp: commute_def)

lemma commute_Priv_Mem:
  assumes "\<And>k l s f p q. k < L \<Longrightarrow> l < L \<Longrightarrow> k \<noteq> l \<Longrightarrow> v l (w k s f q) f p = v l s f p"
  shows "commute L (Priv v) (Mem w)" "commute L (Mem w) (Priv v)"
  using assms by (auto simp: commute_def)

lemma commute_Local_Mem:
  assumes "\<And>k l s f p q. k < L \<Longrightarrow> l < L \<Longrightarrow> k \<noteq> l \<Longrightarrow> v l (w k s f p) f q = v l s f q \<and> w k s (v l s f q) p = w k s f p"
  shows "commute L (Local v) (Mem w)" "commute L (Mem w) (Local v)"
  using assms by (auto simp: commute_def)

lemma commute_Mem_Mem:
  assumes "\<And>k l s f p q. k < L \<Longrightarrow> l < L \<Longrightarrow> k \<noteq> l \<Longrightarrow> w k (v l s f p) f q = v l (w k s f q) f p"
  shows "commute L (Mem v) (Mem w)"
  using assms by (auto simp: commute_def)

text \<open>One command, run by all items.\<close>

lemma fold_exec_Priv:
  assumes "distinct xs" "set xs = {..<L}"
  shows "fold (exec (Priv f)) xs gs
    = gs\<lparr>gs_priv := (\<lambda>l. if l < L then f l (gs_mem gs) (gs_local gs) (gs_priv gs l) else gs_priv gs l)\<rparr>"
  by (rule phase_private [OF _ assms]) simp

lemma fold_exec_Local:
  "fold (exec (Local f)) xs gs = gs\<lparr>gs_local := fold (\<lambda>l loc. f l (gs_mem gs) loc (gs_priv gs l)) xs (gs_local gs)\<rparr>"
  by (induction xs arbitrary: gs) simp_all

lemma fold_exec_Mem:
  "fold (exec (Mem f)) xs gs = gs\<lparr>gs_mem := fold (\<lambda>l m. f l m (gs_local gs) (gs_priv gs l)) xs (gs_mem gs)\<rparr>"
  by (induction xs arbitrary: gs) simp_all

section \<open>Races\<close>

text \<open>A cell of local memory or of device memory. Two states are equal besides a cell when they differ there at most.
  An item writes a cell when its command can change it, and reads a cell when what the cell holds can make a difference
  anywhere else.\<close>

definition equal_besides :: "nat + 'a \<Rightarrow> ('a \<Rightarrow> 'b, 't, 'p) group_state \<Rightarrow> ('a \<Rightarrow> 'b, 't, 'p) group_state \<Rightarrow> bool" where
  "equal_besides c gs gs' \<longleftrightarrow> gs_priv gs = gs_priv gs' \<and> (\<forall>x. c \<noteq> Inl x \<longrightarrow> gs_local gs x = gs_local gs' x) \<and>
     (\<forall>a. c \<noteq> Inr a \<longrightarrow> gs_mem gs a = gs_mem gs' a)"

definition cmd_writes :: "('a \<Rightarrow> 'b, 't, 'p) cmd \<Rightarrow> nat \<Rightarrow> (nat + 'a) set" where
  "cmd_writes c l = {Inl x |x. \<exists>gs. gs_local (exec c l gs) x \<noteq> gs_local gs x} \<union> {Inr a |a. \<exists>gs. gs_mem (exec c l gs) a \<noteq> gs_mem gs a}"

definition cmd_reads :: "('a \<Rightarrow> 'b, 't, 'p) cmd \<Rightarrow> nat \<Rightarrow> (nat + 'a) set" where
  "cmd_reads c l = {x. \<exists>gs gs'. equal_besides x gs gs' \<and> \<not> equal_besides x (exec c l gs) (exec c l gs')}"

definition conflict_free :: "nat \<Rightarrow> ('a \<Rightarrow> 'b, 't, 'p) cmd \<Rightarrow> ('a \<Rightarrow> 'b, 't, 'p) cmd \<Rightarrow> bool" where
  "conflict_free L c d \<longleftrightarrow> (\<forall>k < L. \<forall>l < L. k \<noteq> l \<longrightarrow>
     cmd_writes c k \<inter> (cmd_writes d l \<union> cmd_reads d l) = {} \<and> cmd_reads c k \<inter> cmd_writes d l = {})"

fun race_free :: "nat \<Rightarrow> ('a \<Rightarrow> 'b, 't, 'p) cmd list \<Rightarrow> bool" where
  "race_free L [] = True"
| "race_free L (c # cs) = ((\<forall>d \<in> set (c # hd (split_barriers cs)). conflict_free L c d) \<and> race_free L cs)"

text \<open>Two items that write one cell race, also when they run the same command.\<close>

lemma same_cell_races:
  assumes "x \<in> cmd_writes c k" "x \<in> cmd_writes c l" "k < L" "l < L" "k \<noteq> l"
  shows "\<not> race_free L (c # cs)"
  using assms unfolding race_free.simps conflict_free_def by auto

text \<open>Bounds on what a command touches.\<close>

lemma cmd_touches_simps [simp]:
  "cmd_writes (Priv v) l = {}" "cmd_writes Barrier l = {}" "cmd_reads Barrier l = {}"
  by (simp_all add: cmd_writes_def cmd_reads_def)

lemma conflict_free_Barrier [simp]: "conflict_free L Barrier d" "conflict_free L c Barrier"
  by (simp_all add: conflict_free_def)

lemma cmd_writes_Local: "(\<And>s f p x. x \<notin> X \<Longrightarrow> w l s f p x = f x) \<Longrightarrow> cmd_writes (Local w) l \<subseteq> Inl ` X"
  unfolding cmd_writes_def by auto (metis imageI)

lemma cmd_writes_Mem: "(\<And>s f p a. a \<notin> A \<Longrightarrow> w l s f p a = s a) \<Longrightarrow> cmd_writes (Mem w) l \<subseteq> Inr ` A"
  unfolding cmd_writes_def by auto (metis imageI)

lemma cmd_reads_Priv:
  assumes "\<And>s s' f f' p. \<forall>a \<in> A. s a = s' a \<Longrightarrow> \<forall>x \<in> X. f x = f' x \<Longrightarrow> v l s f p = v l s' f' p"
  shows "cmd_reads (Priv v) l \<subseteq> Inl ` X \<union> Inr ` A"
proof
  fix c assume "c \<in> cmd_reads (Priv v) l"
  then obtain gs gs' where g: "equal_besides c gs gs'" "\<not> equal_besides c (exec (Priv v) l gs) (exec (Priv v) l gs')"
    by (auto simp: cmd_reads_def)
  show "c \<in> Inl ` X \<union> Inr ` A"
  proof (rule ccontr)
    assume "c \<notin> Inl ` X \<union> Inr ` A"
    then have "\<forall>a \<in> A. gs_mem gs a = gs_mem gs' a" "\<forall>x \<in> X. gs_local gs x = gs_local gs' x"
      using g(1) by (auto simp: equal_besides_def)
    then show False using g assms [of "gs_mem gs" "gs_mem gs'" "gs_local gs" "gs_local gs'"] by (simp add: equal_besides_def)
  qed
qed

lemma cmd_reads_Local:
  assumes "\<And>s s' f f' p y. \<forall>a \<in> A. s a = s' a \<Longrightarrow> \<forall>x \<in> X. f x = f' x \<Longrightarrow> f y = f' y \<Longrightarrow> w l s f p y = w l s' f' p y"
  shows "cmd_reads (Local w) l \<subseteq> Inl ` X \<union> Inr ` A"
proof
  fix c assume "c \<in> cmd_reads (Local w) l"
  then obtain gs gs' where g: "equal_besides c gs gs'" "\<not> equal_besides c (exec (Local w) l gs) (exec (Local w) l gs')"
    by (auto simp: cmd_reads_def)
  show "c \<in> Inl ` X \<union> Inr ` A"
  proof (rule ccontr)
    assume "c \<notin> Inl ` X \<union> Inr ` A"
    then have "\<forall>a \<in> A. gs_mem gs a = gs_mem gs' a" "\<forall>x \<in> X. gs_local gs x = gs_local gs' x"
      using g(1) by (auto simp: equal_besides_def)
    then show False using g assms [of "gs_mem gs" "gs_mem gs'" "gs_local gs" "gs_local gs'"] by (simp add: equal_besides_def)
  qed
qed

lemma cmd_reads_Mem:
  assumes "\<And>s s' f f' p b. \<forall>a \<in> A. s a = s' a \<Longrightarrow> \<forall>x \<in> X. f x = f' x \<Longrightarrow> s b = s' b \<Longrightarrow> w l s f p b = w l s' f' p b"
  shows "cmd_reads (Mem w) l \<subseteq> Inl ` X \<union> Inr ` A"
proof
  fix c assume "c \<in> cmd_reads (Mem w) l"
  then obtain gs gs' where g: "equal_besides c gs gs'" "\<not> equal_besides c (exec (Mem w) l gs) (exec (Mem w) l gs')"
    by (auto simp: cmd_reads_def)
  show "c \<in> Inl ` X \<union> Inr ` A"
  proof (rule ccontr)
    assume "c \<notin> Inl ` X \<union> Inr ` A"
    then have "\<forall>a \<in> A. gs_mem gs a = gs_mem gs' a" "\<forall>x \<in> X. gs_local gs x = gs_local gs' x"
      using g(1) by (auto simp: equal_besides_def)
    then show False using g assms [of "gs_mem gs" "gs_mem gs'" "gs_local gs" "gs_local gs'"] by (simp add: equal_besides_def)
  qed
qed

lemma conflict_freeI:
  assumes "\<And>k. k < L \<Longrightarrow> cmd_writes c k \<subseteq> W k" "\<And>k. k < L \<Longrightarrow> cmd_reads c k \<subseteq> R k"
    and "\<And>k. k < L \<Longrightarrow> cmd_writes d k \<subseteq> W' k" "\<And>k. k < L \<Longrightarrow> cmd_reads d k \<subseteq> R' k"
    and "\<And>k l. k < L \<Longrightarrow> l < L \<Longrightarrow> k \<noteq> l \<Longrightarrow> W k \<inter> (W' l \<union> R' l) = {} \<and> R k \<inter> W' l = {}"
  shows "conflict_free L c d"
  unfolding conflict_free_def
proof (intro allI impI)
  fix k l assume kl: "k < L" "l < L" "k \<noteq> l"
  show "cmd_writes c k \<inter> (cmd_writes d l \<union> cmd_reads d l) = {} \<and> cmd_reads c k \<inter> cmd_writes d l = {}"
    using assms(1,2) [OF kl(1)] assms(3,4) [OF kl(2)] assms(5) [OF kl] by (metis Int_mono Un_mono subset_empty)
qed

section \<open>Programs in sequence\<close>

fun barriers :: "('s, 't, 'p) cmd list \<Rightarrow> nat" where
  "barriers [] = 0"
| "barriers (Barrier # cs) = Suc (barriers cs)"
| "barriers (c # cs) = barriers cs"

lemma run_cmds_append: "run_cmds ord k (cs @ ds) gs = run_cmds ord (k + barriers cs) ds (run_cmds ord k cs gs)"
  by (induction ord k cs gs rule: run_cmds.induct) auto

text \<open>A program without \<open>Mem\<close> leaves memory alone.\<close>

fun stores :: "('s, 't, 'p) cmd \<Rightarrow> bool" where
  "stores (Mem f) = True"
| "stores c = False"

lemma fold_exec_quiet: "\<not> stores c \<Longrightarrow> gs_mem (fold (exec c) xs gs) = gs_mem gs"
  by (induction xs arbitrary: gs) (cases c; simp)+

lemma run_cmds_quiet: "\<forall>c \<in> set cs. \<not> stores c \<Longrightarrow> gs_mem (run_cmds ord k cs gs) = gs_mem gs"
  by (induction ord k cs gs rule: run_cmds.induct) (simp_all add: fold_exec_quiet del: fold.simps)

text \<open>An order of the items for every phase.\<close>

definition item_orders :: "nat \<Rightarrow> (nat \<Rightarrow> nat list) \<Rightarrow> bool" where
  "item_orders L ord \<longleftrightarrow> (\<forall>k. distinct (ord k) \<and> set (ord k) = {..<L})"

lemma item_ordersD: "item_orders L ord \<Longrightarrow> distinct (ord k)" "item_orders L ord \<Longrightarrow> set (ord k) = {..<L}"
  by (simp_all add: item_orders_def)

end
