(* ===== verification/Gemm_Local.thy ===== *)
theory Gemm_Local
  imports Gemm_Blocks Barriers
begin

text \<open>
  The kernel with local memory, \<^verbatim>\<open>src/operations/blas3/gemm_local.hpp\<close>. The items of a group copy a block
  of \<open>A\<close> and a block of \<open>B\<close>, \<open>cl_elems\<close> deep, to local memory, wait at a barrier, and multiply the blocks into
  registers. With \<open>double_buffer\<close> the next copy goes to a second pair of blocks and needs no further barrier.

  \<open>v\<close> is the build's \<open>GEMM_VECTORIZATION_SUPPORT\<close>, \<open>s\<close> is \<open>sizeof(element_t)\<close>, and \<open>u\<close> what registers hold before
  anything is stored. \<open>k\<close>, \<open>batch_size\<close>, \<open>ofs\<close> and the distances the pointers have moved are the same in all items of
  a group: they are arguments of the functions that unroll the loops into commands. The pointers themselves
  are an item's start plus the distance.
\<close>

section \<open>Sizes\<close>

definition lg_cl_elems :: "nat \<Rightarrow> 'v Gemm \<Rightarrow> nat" where
  "lg_cl_elems s t = ClSize (gm_cfg t) div s"

definition lg_big_tile_rows :: "'v Gemm \<Rightarrow> nat" where
  "lg_big_tile_rows t = tl_rows (gm_tile t) * gm_block_rows t"

definition lg_big_tile_cols :: "'v Gemm \<Rightarrow> nat" where
  "lg_big_tile_cols t = tl_cols (gm_tile t) * gm_block_cols t"

definition lg_ldsa :: "'v Gemm \<Rightarrow> nat" where
  "lg_ldsa t = gm_block_rows t + of_bool (ConflictA (gm_cfg t))"

definition lg_ldsb :: "nat \<Rightarrow> 'v Gemm \<Rightarrow> nat" where
  "lg_ldsb s t = lg_cl_elems s t + of_bool (ConflictB (gm_cfg t))"

definition lg_local_memory_size :: "nat \<Rightarrow> 'v Gemm \<Rightarrow> nat" where
  "lg_local_memory_size s t =
     (of_bool (DoubleBuffer (gm_cfg t)) + 1) * (lg_ldsa t * lg_cl_elems s t + lg_ldsb s t * gm_block_cols t)"

definition lg_get_workgroup_cluster :: "'v Gemm \<Rightarrow> nat" where
  "lg_get_workgroup_cluster t =
     ((gm_m t - 1) div lg_big_tile_rows t + 1) * ((gm_n t - 1) div lg_big_tile_cols t + 1) *
     tl_rows (gm_tile t) * tl_cols (gm_tile t)"

definition lg_get_num_workgroup_cluster :: "'v Gemm \<Rightarrow> nat \<Rightarrow> nat" where
  "lg_get_num_workgroup_cluster t compute_units = (4 * compute_units - 1) div lg_get_workgroup_cluster t + 1"

definition lg_get_nd_range :: "'v Gemm \<Rightarrow> nat \<Rightarrow> nat \<times> nat" where
  "lg_get_nd_range t compute_units =
     (let nwg = lg_get_workgroup_cluster t * lg_get_num_workgroup_cluster t compute_units; wgs = gm_wg_size t
      in (wgs, nwg * wgs))"

definition lg_get_size :: "'v Gemm \<Rightarrow> nat" where
  "lg_get_size t = gm_m t * gm_n t"

section \<open>The place of an item\<close>

definition lg_wg_row :: "'v Gemm \<Rightarrow> nat \<Rightarrow> nat" where
  "lg_wg_row t wg_id =
     (let tile_size = tl_rows (gm_tile t) * tl_cols (gm_tile t);
          tile_id = wg_id div tile_size;
          tile_local_id = wg_id mod tile_size;
          tiles_per_col = (gm_m t - 1) div lg_big_tile_rows t + 1;
          tile_row = tile_id mod tiles_per_col * tl_rows (gm_tile t)
      in (tile_row + tile_local_id mod tl_rows (gm_tile t)) * gm_block_rows t)"

text \<open>The column is multiplied by \<open>block_rows\<close> in the code.\<close>

definition lg_wg_col :: "'v Gemm \<Rightarrow> nat \<Rightarrow> nat" where
  "lg_wg_col t wg_id =
     (let tile_size = tl_rows (gm_tile t) * tl_cols (gm_tile t);
          tile_id = wg_id div tile_size;
          tile_local_id = wg_id mod tile_size;
          tiles_per_col = (gm_m t - 1) div lg_big_tile_rows t + 1;
          tile_col = tile_id div tiles_per_col * tl_cols (gm_tile t)
      in (tile_col + tile_local_id div tl_rows (gm_tile t)) * gm_block_rows t)"

definition lg_place_of :: "bool \<Rightarrow> 'v Gemm \<Rightarrow> nat \<Rightarrow> nat \<Rightarrow> item_place" where
  "lg_place_of v t wg_id item_id =
     (let wg_row = lg_wg_row t wg_id; wg_col = lg_wg_col t wg_id;
          internal = (gm_m t - wg_row \<ge> gm_block_rows t \<and> gm_n t - wg_col \<ge> gm_block_cols t);
          vector_offset = (if internal then packet_size v (VectorSize (gm_cfg t)) else 1)
      in \<lparr>ip_check = (\<not> internal),
          ip_a_packet = vector_offset,
          ip_b_packet = gm_item_cols t,
          ip_dim_m = wg_row + item_id mod gm_wg_rows t * vector_offset,
          ip_dim_n = wg_col + item_id div gm_wg_rows t * gm_item_cols t,
          ip_out_of_range = (wg_row \<ge> gm_m t \<or> wg_col \<ge> gm_n t)\<rparr>)"

text \<open>Where an item starts to read \<open>A\<close> and \<open>B\<close>, what is left of the matrix there, and where it starts in local memory
  to write (\<open>s1\<close>, \<open>s3\<close>) and to read (\<open>s2\<close>, \<open>s4\<close>). \<open>w\<close> is \<open>vector_offset\<close>.\<close>

definition lg_ptr_A :: "nat \<Rightarrow> 'v Gemm \<Rightarrow> nat \<Rightarrow> nat \<Rightarrow> nat \<Rightarrow> nat" where
  "lg_ptr_A s t wg_row w item_id =
     (let item_id_ofs = item_id * w
      in if TransA (gm_cfg t) then (wg_row + item_id_ofs div lg_cl_elems s t) * gm_lda t + item_id_ofs mod lg_cl_elems s t
         else (wg_row + item_id_ofs mod gm_block_rows t) + item_id_ofs div gm_block_rows t * gm_lda t)"

definition lg_ptr_B :: "nat \<Rightarrow> 'v Gemm \<Rightarrow> nat \<Rightarrow> nat \<Rightarrow> nat \<Rightarrow> nat" where
  "lg_ptr_B s t wg_col w item_id =
     (let item_id_ofs = item_id * w
      in if TransB (gm_cfg t) then item_id_ofs div gm_block_cols t * gm_ldb t + (wg_col + item_id_ofs mod gm_block_cols t)
         else item_id_ofs mod lg_cl_elems s t + (wg_col + item_id_ofs div lg_cl_elems s t) * gm_ldb t)"

definition lg_m_left :: "nat \<Rightarrow> 'v Gemm \<Rightarrow> nat \<Rightarrow> nat \<Rightarrow> nat \<Rightarrow> nat" where
  "lg_m_left s t wg_row w item_id =
     gm_m t - wg_row - (if TransA (gm_cfg t) then item_id * w div lg_cl_elems s t else item_id * w mod gm_block_rows t)"

definition lg_n_left :: "nat \<Rightarrow> 'v Gemm \<Rightarrow> nat \<Rightarrow> nat \<Rightarrow> nat \<Rightarrow> nat" where
  "lg_n_left s t wg_col w item_id =
     gm_n t - wg_col - (if TransB (gm_cfg t) then item_id * w mod gm_block_cols t else item_id * w div lg_cl_elems s t)"

definition lg_s1 :: "nat \<Rightarrow> 'v Gemm \<Rightarrow> nat \<Rightarrow> nat \<Rightarrow> nat" where
  "lg_s1 s t w item_id =
     (let item_id_ofs = item_id * w
      in if TransB (gm_cfg t) then item_id_ofs div gm_block_cols t + item_id_ofs mod gm_block_cols t * lg_ldsb s t
         else item_id_ofs mod lg_cl_elems s t + item_id_ofs div lg_cl_elems s t * lg_ldsb s t)"

definition lg_s2 :: "nat \<Rightarrow> 'v Gemm \<Rightarrow> nat \<Rightarrow> nat" where
  "lg_s2 s t item_id = item_id div gm_wg_rows t * gm_item_cols t * lg_ldsb s t"

definition lg_ofs :: "nat \<Rightarrow> 'v Gemm \<Rightarrow> nat" where
  "lg_ofs s t = (of_bool (DoubleBuffer (gm_cfg t)) + 1) * gm_block_cols t * lg_ldsb s t"

definition lg_s3 :: "nat \<Rightarrow> 'v Gemm \<Rightarrow> nat \<Rightarrow> nat \<Rightarrow> nat" where
  "lg_s3 s t w item_id =
     (let item_id_ofs = item_id * w
      in lg_ofs s t +
         (if TransA (gm_cfg t) then item_id_ofs div lg_cl_elems s t + item_id_ofs mod lg_cl_elems s t * lg_ldsa t
          else item_id_ofs mod gm_block_rows t + item_id_ofs div gm_block_rows t * lg_ldsa t))"

definition lg_s4 :: "nat \<Rightarrow> 'v Gemm \<Rightarrow> nat \<Rightarrow> nat \<Rightarrow> nat" where
  "lg_s4 s t w item_id = lg_ofs s t + item_id mod gm_wg_rows t * w"

section \<open>Registers and the result\<close>

definition lg_check_c :: "'v Gemm \<Rightarrow> item_place \<Rightarrow> nat \<Rightarrow> nat \<Rightarrow> bool" where
  "lg_check_c t p i j \<longleftrightarrow>
     do_check (ip_check p) (j * gm_wg_rows t * ip_a_packet p < gm_m t - ip_dim_m p) \<and>
     do_check (ip_check p) (i < gm_n t - ip_dim_n p)"

definition lg_scaling_c ::
  "'v::{zero, times, divide} Gemm \<Rightarrow> item_place \<Rightarrow> 'v mem \<Rightarrow> addr \<Rightarrow> (nat \<Rightarrow> 'v) \<Rightarrow> nat \<Rightarrow> 'v" where
  "lg_scaling_c t p m C reg_res =
     (if beta_zero (gm_cfg t) then fold (\<lambda>i reg_res. reg_res(i := 0)) [0..<gm_item_cols t * gm_item_rows t] reg_res
      else if ip_out_of_range p then reg_res
      else fst (fold (\<lambda>i (reg_res, C).
          (fold (\<lambda>j reg_res. if lg_check_c t p i j
               then fold (\<lambda>l reg_res. reg_res(i * gm_item_rows t + j * ip_a_packet p + l :=
                        gm_stored_beta t * m (ptr_add C (int (j * (gm_wg_rows t * ip_a_packet p) + l)))))
                      [0..<ip_a_packet p] reg_res
               else reg_res) [0..<gm_item_rows t div ip_a_packet p] reg_res,
           ptr_add C (int (gm_ldc t))))
        [0..<gm_item_cols t] (reg_res, C)))"

text \<open>\<open>store_packet\<close>, for both values of \<open>internal\<close>.\<close>

definition lg_store_packet ::
  "'v::times Gemm \<Rightarrow> item_place \<Rightarrow> (nat \<Rightarrow> 'v) \<Rightarrow> nat \<Rightarrow> addr \<Rightarrow> 'v mem \<Rightarrow> 'v mem" where
  "lg_store_packet t p reg pos out_ptr m =
     (if ip_check p then m(out_ptr := gm_alpha t * reg pos)
      else vec_store (ip_a_packet p) out_ptr (\<lambda>x. reg (pos + x) * gm_alpha t) m)"

definition lg_store_output ::
  "'v::times Gemm \<Rightarrow> item_place \<Rightarrow> (nat \<Rightarrow> 'v) \<Rightarrow> addr \<Rightarrow> 'v mem \<Rightarrow> 'v mem" where
  "lg_store_output t p reg_res C m =
     (if ip_out_of_range p then m
      else fst (fst (fold (\<lambda>i (m_pos, C).
          (fold (\<lambda>j (m, pos).
               (if lg_check_c t p i j
                then lg_store_packet t p reg_res pos (ptr_add C (int (j * (gm_wg_rows t * ip_a_packet p)))) m else m,
                pos + ip_a_packet p)) [0..<gm_item_rows t div ip_a_packet p] m_pos,
           ptr_add C (int (gm_ldc t))))
        [0..<gm_item_cols t] ((m, 0), C))))"

section \<open>Blocks in local memory\<close>

text \<open>\<open>Packetize::load\<close>, for both values of \<open>internal\<close>, with \<open>Packetize::store\<close>; \<open>w\<close> is the packet size.\<close>

definition packetize_store :: "bool \<Rightarrow> nat \<Rightarrow> nat \<Rightarrow> (nat \<Rightarrow> 'v) \<Rightarrow> nat \<Rightarrow> (nat \<Rightarrow> 'v) \<Rightarrow> nat \<Rightarrow> 'v" where
  "packetize_store tr ld w packet dest loc =
     (if tr then fold (\<lambda>i loc. loc(dest + ld * i := packet i)) [0..<w] loc else reg_store w dest packet loc)"

definition packetize_load ::
  "bool \<Rightarrow> bool \<Rightarrow> nat \<Rightarrow> nat \<Rightarrow> 'v::zero mem \<Rightarrow> bool \<Rightarrow> addr \<Rightarrow> nat \<Rightarrow> (nat \<Rightarrow> bool) \<Rightarrow> (nat \<Rightarrow> 'v) \<Rightarrow> nat \<Rightarrow> 'v" where
  "packetize_load tr internal ld w m in_range src dest edge_in_range loc =
     (if \<not> internal then loc(dest := if in_range then m src else 0)
      else let packet = (if in_range then vec_load m src
                         else (\<lambda>i. if edge_in_range i then m (ptr_add src (int i)) else 0))
           in packetize_store tr ld w packet dest loc)"

text \<open>\<open>extract_block\<close>, for both values of \<open>trans\<close>; \<open>w\<close> is the multiplier.\<close>

definition lg_extract_block ::
  "nat \<Rightarrow> bool \<Rightarrow> nat \<Rightarrow> bool \<Rightarrow> bool \<Rightarrow> bool \<Rightarrow> nat \<Rightarrow> nat \<Rightarrow> nat \<Rightarrow> nat \<Rightarrow> 'v::zero mem \<Rightarrow> addr \<Rightarrow> nat \<Rightarrow> nat \<Rightarrow>
   (nat \<Rightarrow> nat \<Rightarrow> bool) \<Rightarrow> (nat \<Rightarrow> nat \<Rightarrow> bool) \<Rightarrow> (nat \<Rightarrow> 'v) \<Rightarrow> nat \<Rightarrow> 'v" where
  "lg_extract_block wg_size internal w check_row check_col tr rows cols lds item_id m ptr ld scratch in_row in_col loc =
     (let bs = rows * cols
      in fold (\<lambda>i loc.
           if \<not> do_check (bs mod (wg_size * w) \<noteq> 0) (item_id + i * (wg_size * w) < bs) then loc
           else if \<not> tr then
             (let col_ofs = i * (wg_size * w div rows);
                  in_range = (do_check check_row (in_row (item_id * w mod rows) (w - 1)) \<and>
                              do_check check_col (in_col (item_id * w div rows) col_ofs))
              in packetize_load tr internal lds w m in_range (ptr_add ptr (int (col_ofs * ld))) (scratch + col_ofs * lds)
                   (\<lambda>ofs. in_row (item_id * w mod rows) ofs \<and> in_col (item_id * w div rows) col_ofs) loc)
           else
             (let row_ofs = i * (wg_size * w div cols);
                  in_range = (do_check check_row (in_row (item_id * w div cols) row_ofs) \<and>
                              do_check check_col (in_col (item_id * w mod cols) (w - 1)))
              in packetize_load tr internal lds w m in_range (ptr_add ptr (int (row_ofs * ld))) (scratch + row_ofs)
                   (\<lambda>ofs. in_col (item_id * w mod cols) ofs \<and> in_row (item_id * w div cols) row_ofs) loc))
         [0..<(bs - 1) div (wg_size * w) + 1] loc)"

text \<open>The position in the double buffer: \<open>ofs\<close> and how far the pointers into the blocks of \<open>B\<close> and of \<open>A\<close> have moved.\<close>

type_synonym lg_sync = "int \<times> int \<times> int"

definition lg_sync_smem :: "nat \<Rightarrow> 'v Gemm \<Rightarrow> lg_sync \<Rightarrow> lg_sync" where
  "lg_sync_smem s t = (\<lambda>(ofs, sB, sA).
     if DoubleBuffer (gm_cfg t)
     then (- ofs, sB + ofs * int (gm_block_cols t * lg_ldsb s t), sA + ofs * int (lg_ldsa t * lg_cl_elems s t))
     else (ofs, sB, sA))"

text \<open>\<open>extract_input_blocks\<close>. \<open>dA\<close> and \<open>dB\<close> are the distances that \<open>A\<close> and \<open>B\<close> have moved.\<close>

definition lg_extract ::
  "bool \<Rightarrow> nat \<Rightarrow> 'v::zero Gemm \<Rightarrow> nat \<Rightarrow> bool \<Rightarrow> nat \<Rightarrow> addr \<Rightarrow> addr \<Rightarrow> lg_sync \<Rightarrow>
   nat \<Rightarrow> 'v mem \<Rightarrow> (nat \<Rightarrow> 'v) \<Rightarrow> nat \<Rightarrow> 'v" where
  "lg_extract v s t g check_k k A B sy item_id m loc =
     (let p = lg_place_of v t g item_id; w = ip_a_packet p; wg_row = lg_wg_row t g; wg_col = lg_wg_col t g
      in if ip_out_of_range p then loc
         else
           let loc = lg_extract_block (gm_wg_size t) (\<not> ip_check p) w (ip_check p) check_k (TransA (gm_cfg t))
                 (gm_block_rows t) (lg_cl_elems s t) (lg_ldsa t) item_id m
                 (ptr_add A (int (lg_ptr_A s t wg_row w item_id))) (gm_lda t)
                 (nat (int (lg_s3 s t w item_id) + snd (snd sy)))
                 (\<lambda>ir cr. cr < lg_m_left s t wg_row w item_id) (\<lambda>ic cc. cc < k - ic) loc
           in lg_extract_block (gm_wg_size t) (\<not> ip_check p) w check_k (ip_check p) (TransB (gm_cfg t))
                (lg_cl_elems s t) (gm_block_cols t) (lg_ldsb s t) item_id m
                (ptr_add B (int (lg_ptr_B s t wg_col w item_id))) (gm_ldb t)
                (nat (int (lg_s1 s t w item_id) + fst (snd sy)))
                (\<lambda>ir cr. cr < k - ir) (\<lambda>ic cc. cc < lg_n_left s t wg_col w item_id) loc)"

text \<open>\<open>compute_block_gemm\<close>. \<open>reg_a\<close> and \<open>reg_b\<close> are stored before they are read.\<close>

definition lg_compute_block ::
  "'v::{plus, times} Gemm \<Rightarrow> nat \<Rightarrow> nat \<Rightarrow> nat \<Rightarrow> (nat \<Rightarrow> 'v) \<Rightarrow> nat \<Rightarrow> nat \<Rightarrow> (nat \<Rightarrow> 'v) \<Rightarrow> (nat \<Rightarrow> 'v) \<Rightarrow> nat \<Rightarrow> 'v" where
  "lg_compute_block t cl_elems ldsb work_per_load loc B A reg_a reg_res =
     snd (fst (fold (\<lambda>_ ((reg_a, reg_res), A, B).
        (let reg_a = fold (\<lambda>j reg_a. fold (\<lambda>i reg_a. reg_a(i + j * work_per_load :=
                        loc (A + (i + j * gm_wg_rows t * work_per_load)))) [0..<work_per_load] reg_a)
                      [0..<gm_item_rows t div work_per_load] reg_a;
             reg_res = fold (\<lambda>j reg_res.
                 (let reg_b = loc (B + j * ldsb)
                  in fold (\<lambda>l reg_res. reg_res(j * gm_item_rows t + l := reg_a l * reg_b + reg_res (j * gm_item_rows t + l)))
                       [0..<gm_item_rows t] reg_res)) [0..<gm_item_cols t] reg_res
         in ((reg_a, reg_res), A + lg_ldsa t, B + 1)))
       [0..<cl_elems] ((reg_a, reg_res), A, B)))"

definition lg_compute ::
  "bool \<Rightarrow> nat \<Rightarrow> (nat \<Rightarrow> 'v) \<Rightarrow> 'v::{plus, times} Gemm \<Rightarrow> nat \<Rightarrow> lg_sync \<Rightarrow> nat \<Rightarrow> (nat \<Rightarrow> 'v) \<Rightarrow> (nat \<Rightarrow> 'v) \<Rightarrow> nat \<Rightarrow> 'v" where
  "lg_compute v s u t g sy item_id loc reg_res =
     (let w = ip_a_packet (lg_place_of v t g item_id)
      in lg_compute_block t (lg_cl_elems s t) (lg_ldsb s t) w loc (nat (int (lg_s2 s t item_id) + fst (snd sy)))
           (nat (int (lg_s4 s t w item_id) + snd (snd sy))) u reg_res)"

section \<open>The program of a group\<close>

type_synonym 'v lg_cmd = "('v mem, 'v, nat \<Rightarrow> 'v) cmd"

text \<open>The loop over \<open>k\<close>; its value is the program and the position in the double buffer afterwards.\<close>

definition lg_sync_cmds :: "'v Gemm \<Rightarrow> 'v lg_cmd list" where
  "lg_sync_cmds t = (if DoubleBuffer (gm_cfg t) then [] else [Barrier])"

definition lg_block ::
  "bool \<Rightarrow> nat \<Rightarrow> (nat \<Rightarrow> 'v) \<Rightarrow> 'v::{zero, plus, times} Gemm \<Rightarrow> nat \<Rightarrow> bool \<Rightarrow> nat \<Rightarrow> addr \<Rightarrow> addr \<Rightarrow> lg_sync \<Rightarrow> 'v lg_cmd list" where
  "lg_block v s u t g check_k k A B sy =
     [Local (\<lambda>l m loc _. lg_extract v s t g check_k k A B sy l m loc), Barrier, Priv (\<lambda>l _. lg_compute v s u t g sy l)] @ lg_sync_cmds t"

function lg_blocks ::
  "bool \<Rightarrow> nat \<Rightarrow> (nat \<Rightarrow> 'v) \<Rightarrow> 'v::{zero, plus, times} Gemm \<Rightarrow> nat \<Rightarrow> nat \<Rightarrow> addr \<Rightarrow> addr \<Rightarrow> lg_sync \<Rightarrow>
   'v lg_cmd list \<times> lg_sync" where
  "lg_blocks v s u t g k A B sy =
     (let cl = lg_cl_elems s t
      in if 0 < cl \<and> cl \<le> k then
           (let (cs, sy') = lg_blocks v s u t g (k - cl)
                  (ptr_add A (int (cl * (if TransA (gm_cfg t) then 1 else gm_lda t))))
                  (ptr_add B (int (cl * (if TransB (gm_cfg t) then gm_ldb t else 1)))) (lg_sync_smem s t sy)
            in (lg_block v s u t g False k A B sy @ cs, sy'))
         else if 0 < k then (lg_block v s u t g True k A B sy, lg_sync_smem s t sy)
         else ([], sy))"
  by pat_completeness auto
termination
  by (relation "measure (\<lambda>(v, s, u, t, g, k, _). k)") auto

declare lg_blocks.simps [simp del]

text \<open>\<open>compute_panel_gemm\<close>: the loop over the batch. \<open>C\<close> is the matrix, to which each item adds its own start.\<close>

definition lg_ptr_C :: "'v Gemm \<Rightarrow> item_place \<Rightarrow> addr \<Rightarrow> addr" where
  "lg_ptr_C t p C = ptr_add C (int (ip_dim_m p + ip_dim_n p * gm_ldc t))"

function lg_batches ::
  "bool \<Rightarrow> nat \<Rightarrow> (nat \<Rightarrow> 'v) \<Rightarrow> 'v::{zero, plus, times, divide} Gemm \<Rightarrow> nat \<Rightarrow> nat \<Rightarrow> nat \<Rightarrow> int \<Rightarrow> addr \<Rightarrow> addr \<Rightarrow> addr \<Rightarrow>
   lg_sync \<Rightarrow> 'v lg_cmd list" where
  "lg_batches v s u t g wg_batch_id batch_stride batch_size orig_A orig_B orig_C sy =
     (let (cs, sy') = lg_blocks v s u t g (gm_k t) orig_A orig_B sy;
          batch_size' = batch_size - int batch_stride
      in Priv (\<lambda>l m _ _. lg_scaling_c t (lg_place_of v t g l) m (lg_ptr_C t (lg_place_of v t g l) orig_C) u) # cs @
         Mem (\<lambda>l m _ reg_res. lg_store_output t (lg_place_of v t g l) reg_res (lg_ptr_C t (lg_place_of v t g l) orig_C) m) #
         (if 0 < batch_stride \<and> int wg_batch_id < batch_size'
          then lg_batches v s u t g wg_batch_id batch_stride batch_size'
                 (ptr_add orig_A (gm_a_size t * int batch_stride)) (ptr_add orig_B (gm_b_size t * int batch_stride))
                 (ptr_add orig_C (gm_c_size t * int batch_stride)) sy'
          else []))"
  by pat_completeness auto
termination
  by (relation "measure (\<lambda>(v, s, u, t, g, w, x, n, _). nat n)") auto

declare lg_batches.simps [simp del]

definition lg_program ::
  "bool \<Rightarrow> nat \<Rightarrow> (nat \<Rightarrow> 'v) \<Rightarrow> 'v::{zero, plus, times, divide} Gemm \<Rightarrow> nd_item \<Rightarrow> 'v lg_cmd list" where
  "lg_program v s u t it =
     (let wg_batch_id = nd_group it div lg_get_workgroup_cluster t
      in if gm_batch_size t \<le> wg_batch_id then []
         else
           let batch_stride = nd_group_range it div lg_get_workgroup_cluster t;
               wg_id = nd_group it mod lg_get_workgroup_cluster t
           in lg_batches v s u t wg_id wg_batch_id batch_stride (int (gm_batch_size t))
                (ptr_add (mv_get_pointer (gm_a t)) (int wg_batch_id * gm_a_size t))
                (ptr_add (mv_get_pointer (gm_b t)) (int wg_batch_id * gm_b_size t))
                (ptr_add (mv_get_pointer (gm_c t)) (int wg_batch_id * gm_c_size t)) (1, 0, 0))"

definition gemm_local_execute ::
  "'v device_run \<Rightarrow> policy_handler \<Rightarrow> bool \<Rightarrow> nat \<Rightarrow> (nat \<Rightarrow> 'v) \<Rightarrow> 'v::{zero, plus, times, divide} Gemm \<Rightarrow> 'v mem \<Rightarrow> 'v mem" where
  "gemm_local_execute r ph v s u t m =
     (let rng = lg_get_nd_range t (ph_num_compute_units ph)
      in execute_tree_local r u (\<lambda>it. program_phases (lg_program v s u t it)) (fst rng) (snd rng) m)"

end
