(* ===== verification/Gemm_Local_Copy.thy ===== *)
theory Gemm_Local_Copy
  imports Gemm_Local
begin

text \<open>
  What local memory holds after the items of a group have copied their blocks: element \<open>(r, c)\<close> of the block of
  \<open>A\<close> and of the block of \<open>B\<close>, zero outside the matrices, in any order of the items and within the bounds of local memory.
\<close>

section \<open>Copying a block\<close>

lemma reg_store_wrote: "wrote (\<lambda>x. pos + x) {..<w} packet reg (reg_store w pos packet reg)"
proof -
  have "d \<in> (\<lambda>x. pos + x) ` {..<w}" if "pos \<le> d" "d < pos + w" for d
    using that by (intro image_eqI [of _ _ "d - pos"]) auto
  then show ?thesis by (auto simp: wrote_def reg_store_def)
qed

lemma fold_upd_wrote:
  assumes "inj_on a {..<w}"
  shows "wrote a {..<w :: nat} f m (fold (\<lambda>i m. m(a i := f i)) [0..<w] m)"
proof -
  have "wrote a (\<Union>i \<in> set [0..<w]. {i}) f m (fold (\<lambda>i m. m(a i := f i)) [0..<w] m)"
    by (rule fold_wrote [where R = "{..<w}"]) (use assms in \<open>auto simp: wrote_def\<close>)
  moreover have "(\<Union>i \<in> set [0..<w]. {i}) = {..<w}" by auto
  ultimately show ?thesis by simp
qed

lemma packetize_load_wrote:
  assumes w: "\<not> internal \<Longrightarrow> w = 1" and ld: "tr \<Longrightarrow> 0 < ld"
    and in_range: "\<not> internal \<Longrightarrow> ok 0 \<Longrightarrow> in_range" "\<And>i. i < w \<Longrightarrow> edge i \<longleftrightarrow> ok i"
    and all: "\<And>i. in_range \<Longrightarrow> i < w \<Longrightarrow> ok i"
  shows "wrote (\<lambda>i. dest + i * (if tr then ld else 1)) {..<w} (\<lambda>i. if ok i then m (ptr_add src (int i)) else 0) loc
     (packetize_load tr internal ld w m in_range src dest edge loc)"
proof (cases internal)
  case False
  then show ?thesis using w in_range all [of 0] by (auto simp: packetize_load_def wrote_def)
next
  case True
  let ?packet = "if in_range then vec_load m src else (\<lambda>i. if edge i then m (ptr_add src (int i)) else 0)"
  have packet: "?packet i = (if ok i then m (ptr_add src (int i)) else 0)" if "i < w" for i
    using that in_range(2) all by (simp add: vec_load_def)
  have st: "wrote (\<lambda>i. dest + i * (if tr then ld else 1)) {..<w} ?packet loc (packetize_store tr ld w ?packet dest loc)"
  proof (cases tr)
    case True
    have "inj_on (\<lambda>i. dest + ld * i) {..<w}" using ld True by (auto simp: inj_on_def)
    then show ?thesis using fold_upd_wrote [of "\<lambda>i. dest + ld * i" w ?packet loc] True
      by (simp add: packetize_store_def mult.commute)
  next
    case False
    then show ?thesis using reg_store_wrote [of dest w ?packet loc] by (simp add: packetize_store_def)
  qed
  have pl: "packetize_load tr internal ld w m in_range src dest edge loc = packetize_store tr ld w ?packet dest loc"
    using True by (simp add: packetize_load_def Let_def)
  show ?thesis unfolding pl by (rule wrote_cong [OF st refl]) (simp only: packet lessThan_iff)
qed

text \<open>The elements of a block in the order of their packets: element \<open>x\<close> lies at distance \<open>x mod u\<close> in the direction
  in which the matrix is contiguous, and \<open>x div u\<close> in the other.\<close>

definition lg_cell :: "bool \<Rightarrow> nat \<Rightarrow> nat \<Rightarrow> nat \<Rightarrow> nat \<Rightarrow> nat" where
  "lg_cell tr u lds base x = (if tr then base + x div u + x mod u * lds else base + x mod u + x div u * lds)"

definition lg_elem :: "(nat \<Rightarrow> bool) \<Rightarrow> (nat \<Rightarrow> bool) \<Rightarrow> nat \<Rightarrow> nat \<Rightarrow> addr \<Rightarrow> 'v::zero mem \<Rightarrow> nat \<Rightarrow> 'v" where
  "lg_elem lo hi u ld ptr m x =
     (if lo (x mod u) \<and> hi (x div u) then m (ptr_add ptr (int (x mod u + x div u * ld))) else 0)"

lemma packet_index:
  fixes u w W i l x :: nat
  assumes "0 < w" "W mod u = 0" "u mod w = 0" "0 < u" "x < w"
  shows "(i * (W * w) + l * w + x) mod u = l * w mod u + x"
    "(i * (W * w) + l * w + x) div u = l * w div u + i * (W * w div u)"
proof -
  obtain c n where c: "W = u * c" and n: "u = w * n" using assms by (auto simp: mod_eq_0_iff_dvd elim!: dvdE)
  have "l * w mod u + x < u"
  proof -
    have "l * w mod u = (l mod n) * w" by (simp add: n mult.commute [of w] mod_mult_mult2)
    moreover have "l mod n < n" using assms(4) n by (cases n) auto
    ultimately show ?thesis using reg_index(1) [OF assms(5), of "l mod n" n] by (simp add: n mult.commute)
  qed
  moreover have e: "i * (W * w) + l * w + x = (l * w mod u + x) + (l * w div u + i * (c * w)) * u"
    using div_mult_mod_eq [of "l * w" u] by (simp add: c algebra_simps)
  moreover have "W * w div u = c * w" using assms(4) by (simp add: c mult.assoc)
  ultimately show "(i * (W * w) + l * w + x) mod u = l * w mod u + x"
    "(i * (W * w) + l * w + x) div u = l * w div u + i * (W * w div u)"
    using assms(4) by (simp_all only: mod_mult_self1 div_mult_self1 mod_less div_less neq0_conv)
qed

lemma lg_cell_inj:
  assumes "0 < u" "rows \<le> lds" "u = (if tr then cols else rows)"
  shows "inj_on (lg_cell tr u lds base) {..<rows * cols}"
proof (rule inj_onI)
  fix x y assume xy: "x \<in> {..<rows * cols}" "y \<in> {..<rows * cols}" "lg_cell tr u lds base x = lg_cell tr u lds base y"
  have "x mod u = y mod u \<and> x div u = y div u"
  proof (cases tr)
    case True
    have "x div u < rows" "y div u < rows" using xy(1,2) True assms(3) by (simp_all add: less_mult_imp_div_less)
    then show ?thesis
      using xy(3) True assms(2) ld_index_inj [of "x div u" lds "y div u" lds "x mod u" "y mod u"] by (simp add: lg_cell_def mult.commute)
  next
    case False
    have "x mod u < lds" "y mod u < lds" using False assms less_le_trans [OF mod_less_divisor] by auto
    then show ?thesis
      using xy(3) False ld_index_inj [of "x mod u" lds "y mod u" lds "x div u" "y div u"] by (simp add: lg_cell_def mult.commute)
  qed
  then show "x = y" by (metis div_mult_mod_eq)
qed

text \<open>What an item copies.\<close>

definition lg_part :: "nat \<Rightarrow> nat \<Rightarrow> nat \<Rightarrow> nat \<Rightarrow> nat set" where
  "lg_part W w bs l = {x. x < bs \<and> x mod (W * w) div w = l}"

lemma div_pred_mult:
  assumes "0 < N" "0 < q"
  shows "(q * N - 1) div N + 1 = (q :: nat)"
proof -
  obtain p where p: "q = Suc p" using assms(2) by (cases q) auto
  have "q * N - 1 = (N - 1) + p * N" using assms(1) by (simp add: p)
  then have "(q * N - 1) div N = p" using assms(1) by (simp only: div_mult_self1 neq0_conv) simp
  then show ?thesis by (simp add: p)
qed

lemma lg_extract_block_wrote:
  fixes m :: "'v::zero mem"
  assumes pos: "0 < W" "0 < w" "0 < u" "0 < rows * cols" and u: "u = (if tr then cols else rows)"
    and mult: "W mod u = 0" "u mod w = 0" "w = 1 \<or> rows * cols mod (W * w) = 0" and lds: "rows \<le> lds" "0 < lds"
    and internal: "\<not> internal \<Longrightarrow> w = 1" and l: "l < W"
    and in_row: "\<And>i. in_row (if tr then l * w div cols else l * w mod rows) i \<longleftrightarrow> row_ok ((if tr then l * w div cols else l * w mod rows) + i)"
    and in_col: "\<And>i. in_col (if tr then l * w mod cols else l * w div rows) i \<longleftrightarrow> col_ok ((if tr then l * w mod cols else l * w div rows) + i)"
    and check: "\<And>r. \<not> check_row \<Longrightarrow> r < rows \<Longrightarrow> row_ok r" "\<And>c. \<not> check_col \<Longrightarrow> c < cols \<Longrightarrow> col_ok c"
    and down: "\<And>x y. x \<le> y \<Longrightarrow> row_ok y \<Longrightarrow> row_ok x" "\<And>x y. x \<le> y \<Longrightarrow> col_ok y \<Longrightarrow> col_ok x"
  shows "wrote (lg_cell tr u lds base) (lg_part W w (rows * cols) l)
    (lg_elem (if tr then col_ok else row_ok) (if tr then row_ok else col_ok) u ld ptr m) loc
    (lg_extract_block W internal w check_row check_col tr rows cols lds l m
       (ptr_add ptr (int (l * w mod u + l * w div u * ld))) ld (lg_cell tr u lds base (l * w)) in_row in_col loc)"
proof -
  let ?N = "W * w" and ?bs = "rows * cols"
  let ?cell = "lg_cell tr u lds base" and ?val = "lg_elem (if tr then col_ok else row_ok) (if tr then row_ok else col_ok) u ld ptr m"
  let ?guard = "\<lambda>i. do_check (?bs mod ?N \<noteq> 0) (l + i * ?N < ?bs)"
  let ?S = "\<lambda>i. if ?guard i then (\<lambda>x. i * ?N + l * w + x) ` {..<w} else {}"
  let ?step = "\<lambda>i loc. if \<not> ?guard i then loc
           else if \<not> tr then
             (let col_ofs = i * (?N div rows);
                  in_range = (do_check check_row (in_row (l * w mod rows) (w - 1)) \<and>
                              do_check check_col (in_col (l * w div rows) col_ofs))
              in packetize_load tr internal lds w m in_range
                   (ptr_add (ptr_add ptr (int (l * w mod u + l * w div u * ld))) (int (col_ofs * ld))) (?cell (l * w) + col_ofs * lds)
                   (\<lambda>ofs. in_row (l * w mod rows) ofs \<and> in_col (l * w div rows) col_ofs) loc)
           else
             (let row_ofs = i * (?N div cols);
                  in_range = (do_check check_row (in_row (l * w div cols) row_ofs) \<and>
                              do_check check_col (in_col (l * w mod cols) (w - 1)))
              in packetize_load tr internal lds w m in_range
                   (ptr_add (ptr_add ptr (int (l * w mod u + l * w div u * ld))) (int (row_ofs * ld))) (?cell (l * w) + row_ofs)
                   (\<lambda>ofs. in_col (l * w mod cols) ofs \<and> in_row (l * w div cols) row_ofs) loc)"
  have N: "0 < ?N" using pos by simp
  have lw: "l * w + w \<le> ?N" using mult_le_mono1 [of "Suc l" W w] l by simp
  have idx: "(i * ?N + l * w + x) mod u = l * w mod u + x" "(i * ?N + l * w + x) div u = l * w div u + i * (?N div u)" if "x < w" for i x
    using packet_index [OF pos(2) mult(1,2) pos(3) that] by auto
  have inside: "i * ?N + l * w + x < ?bs" if "i < (?bs - 1) div ?N + 1" "?guard i" "x < w" for i x
  proof (cases "?bs mod ?N = 0")
    case True
    then obtain q where q: "?bs = q * ?N" by (metis dvd_def mod_eq_0_iff_dvd mult.commute)
    with pos(4) have "0 < q" by (cases q) simp_all
    then have "i < q" using that(1) unfolding q div_pred_mult [OF N \<open>0 < q\<close>] by simp
    then show ?thesis unfolding q using reg_index(1) [of "l * w + x" ?N i q] that(3) lw by (simp add: add.assoc)
  next
    case False
    then show ?thesis using that mult(3) by (auto simp: do_check_def ac_simps)
  qed
  have step: "wrote ?cell (?S i) ?val loc (?step i loc)" if "i < (?bs - 1) div ?N + 1" for i loc
  proof (cases "?guard i")
    case True
    note True_guard = True and in_bs = inside [OF that True]
    let ?ok = "\<lambda>x. (if tr then col_ok else row_ok) (l * w mod u + x) \<and> (if tr then row_ok else col_ok) (l * w div u + i * (?N div u))"
    have src: "ptr_add (ptr_add ptr (int (l * w mod u + l * w div u * ld))) (int (i * (?N div u) * ld) + int x)
        = ptr_add ptr (int (l * w mod u + x + (l * w div u + i * (?N div u)) * ld))" for x
      by (simp add: algebra_simps)
    have load: "wrote (\<lambda>x. ?cell (i * ?N + l * w + x)) {..<w} (\<lambda>x. ?val (i * ?N + l * w + x)) loc (?step i loc)"
    proof (cases tr)
      case False
      then have lo: "l * w mod rows + x < rows" "l * w div rows + i * (?N div rows) < cols" if "x < w" for x
        using idx [OF that, of i] in_bs [OF that] pos(3) u mod_less_divisor [OF pos(3), of "i * ?N + l * w + x"]
          less_mult_imp_div_less [of "i * ?N + l * w + x" cols rows] by (auto simp: mult.commute)
      note rc = in_row [unfolded if_not_P [OF False]] in_col [unfolded if_not_P [OF False]]
      let ?src = "ptr_add (ptr_add ptr (int (l * w mod u + l * w div u * ld))) (int (i * (?N div rows) * ld))"
      let ?range = "(do_check check_row (in_row (l * w mod rows) (w - 1)) \<and> do_check check_col (in_col (l * w div rows) (i * (?N div rows))))"
      have range: "?range \<Longrightarrow> x < w \<Longrightarrow> row_ok (l * w mod rows + x) \<and> col_ok (l * w div rows + i * (?N div rows))" for x
        using rc check lo [of x] down(1) [of "l * w mod rows + x" "l * w mod rows + (w - 1)"] down(2) [of "l * w div rows + i * (?N div rows)" "l * w div rows + i * (?N div rows)"]
        by (simp add: do_check_def split: if_splits)
      have "wrote (\<lambda>x. (?cell (l * w) + i * (?N div rows) * lds) + x * (if tr then lds else 1)) {..<w} (\<lambda>x. if row_ok (l * w mod rows + x) \<and> col_ok (l * w div rows + i * (?N div rows)) then m (ptr_add ?src (int x)) else 0) loc
          (packetize_load tr internal lds w m ?range ?src (?cell (l * w) + i * (?N div rows) * lds) (\<lambda>ofs. in_row (l * w mod rows) ofs \<and> in_col (l * w div rows) (i * (?N div rows))) loc)"
        by (rule packetize_load_wrote [OF internal lds(2) _ _ range])
          (use internal rc in \<open>auto simp: do_check_def\<close>)
      then have "wrote (\<lambda>x. ?cell (i * ?N + l * w + x)) {..<w} (\<lambda>x. ?val (i * ?N + l * w + x)) loc
          (packetize_load tr internal lds w m ?range ?src (?cell (l * w) + i * (?N div rows) * lds) (\<lambda>ofs. in_row (l * w mod rows) ofs \<and> in_col (l * w div rows) (i * (?N div rows))) loc)"
      proof (rule wrote_cong)
        fix x assume "x \<in> {..<w}"
        then have x: "x < w" by simp
        show "(?cell (l * w) + i * (?N div rows) * lds) + x * (if tr then lds else 1) = ?cell (i * ?N + l * w + x)"
          unfolding lg_cell_def idx [OF x, of i] using False u by (simp add: algebra_simps)
        show "(if row_ok (l * w mod rows + x) \<and> col_ok (l * w div rows + i * (?N div rows)) then m (ptr_add ?src (int x)) else 0) = ?val (i * ?N + l * w + x)"
          unfolding lg_elem_def idx [OF x, of i] using False u by (simp add: algebra_simps)
      qed
      then show ?thesis using False True_guard by (simp only: Let_def if_False if_True not_False_eq_True not_True_eq_False)
    next
      case True
      then have lo: "l * w mod cols + x < cols" "l * w div cols + i * (?N div cols) < rows" if "x < w" for x
        using idx [OF that, of i] in_bs [OF that] pos(3) u mod_less_divisor [OF pos(3), of "i * ?N + l * w + x"]
          less_mult_imp_div_less [of "i * ?N + l * w + x" rows cols] by (auto simp: mult.commute)
      note rc = in_row [unfolded if_P [OF True]] in_col [unfolded if_P [OF True]]
      let ?src = "ptr_add (ptr_add ptr (int (l * w mod u + l * w div u * ld))) (int (i * (?N div cols) * ld))"
      let ?range = "(do_check check_row (in_row (l * w div cols) (i * (?N div cols))) \<and> do_check check_col (in_col (l * w mod cols) (w - 1)))"
      have range: "?range \<Longrightarrow> x < w \<Longrightarrow> col_ok (l * w mod cols + x) \<and> row_ok (l * w div cols + i * (?N div cols))" for x
        using rc check lo [of x] down(1) [of "l * w div cols + i * (?N div cols)" "l * w div cols + i * (?N div cols)"] down(2) [of "l * w mod cols + x" "l * w mod cols + (w - 1)"]
        by (simp add: do_check_def split: if_splits)
      have "wrote (\<lambda>x. (?cell (l * w) + i * (?N div cols)) + x * (if tr then lds else 1)) {..<w} (\<lambda>x. if col_ok (l * w mod cols + x) \<and> row_ok (l * w div cols + i * (?N div cols)) then m (ptr_add ?src (int x)) else 0) loc
          (packetize_load tr internal lds w m ?range ?src (?cell (l * w) + i * (?N div cols)) (\<lambda>ofs. in_col (l * w mod cols) ofs \<and> in_row (l * w div cols) (i * (?N div cols))) loc)"
        by (rule packetize_load_wrote [OF internal lds(2) _ _ range])
          (use internal rc in \<open>auto simp: do_check_def\<close>)
      then have "wrote (\<lambda>x. ?cell (i * ?N + l * w + x)) {..<w} (\<lambda>x. ?val (i * ?N + l * w + x)) loc
          (packetize_load tr internal lds w m ?range ?src (?cell (l * w) + i * (?N div cols)) (\<lambda>ofs. in_col (l * w mod cols) ofs \<and> in_row (l * w div cols) (i * (?N div cols))) loc)"
      proof (rule wrote_cong)
        fix x assume "x \<in> {..<w}"
        then have x: "x < w" by simp
        show "(?cell (l * w) + i * (?N div cols)) + x * (if tr then lds else 1) = ?cell (i * ?N + l * w + x)"
          unfolding lg_cell_def idx [OF x, of i] using True u by (simp add: algebra_simps)
        show "(if col_ok (l * w mod cols + x) \<and> row_ok (l * w div cols + i * (?N div cols)) then m (ptr_add ?src (int x)) else 0) = ?val (i * ?N + l * w + x)"
          unfolding lg_elem_def idx [OF x, of i] using True u by (simp add: algebra_simps)
      qed
      then show ?thesis using True True_guard by (simp only: Let_def if_False if_True not_False_eq_True not_True_eq_False)
    qed
    show ?thesis using wrote_reindex [of ?cell "\<lambda>x. i * ?N + l * w + x" "{..<w}" ?val loc "?step i loc", OF load] True by simp
  qed (simp add: wrote_def)
  have "wrote ?cell (\<Union>i \<in> set [0..<(?bs - 1) div ?N + 1]. ?S i) ?val loc (fold ?step [0..<(?bs - 1) div ?N + 1] loc)"
  proof (rule fold_wrote [where R = "{..<?bs}"])
    show "inj_on ?cell {..<?bs}" by (rule lg_cell_inj [OF pos(3) lds(1) u])
    show "wrote ?cell (?S i) ?val loc (?step i loc)" if "i \<in> set [0..<(?bs - 1) div ?N + 1]" for i loc
      by (rule step) (use that in \<open>simp only: set_upt atLeastLessThan_iff\<close>)
    show "?S i \<subseteq> {..<?bs}" if "i \<in> set [0..<(?bs - 1) div ?N + 1]" for i
      using inside [of i] that by (auto simp del: upt_Suc split: if_splits)
  qed
  moreover have "(\<Union>i \<in> set [0..<(?bs - 1) div ?N + 1]. ?S i) = lg_part W w ?bs l"
  proof (intro set_eqI iffI)
    fix x assume "x \<in> (\<Union>i \<in> set [0..<(?bs - 1) div ?N + 1]. ?S i)"
    then obtain i y where y: "x = i * ?N + (l * w + y)" "y < w" "i < (?bs - 1) div ?N + 1" "?guard i"
      by (auto simp: add.assoc split: if_splits)
    have "l * w + y < ?N" using y(2) lw by simp
    then have "x mod ?N = l * w + y" by (simp add: y(1))
    then show "x \<in> lg_part W w ?bs l"
      using inside [OF y(3,4,2)] y(1,2) pos(2) by (simp add: lg_part_def add.assoc)
  next
    fix x assume x: "x \<in> lg_part W w ?bs l"
    define i y where "i = x div ?N" and "y = x mod ?N mod w"
    have "x mod ?N = l * w + y" using x pos(2) by (auto simp: lg_part_def y_def)
    then have xi: "x = i * ?N + l * w + y" by (metis add.assoc div_mult_mod_eq i_def)
    have "x \<le> ?bs - 1" using x by (auto simp: lg_part_def)
    then have i: "i < (?bs - 1) div ?N + 1" unfolding i_def by (simp add: div_le_mono less_Suc_eq_le)
    have "?guard i"
    proof (cases "?bs mod ?N = 0")
      case False
      then have "w = 1" using mult(3) by simp
      then have "x = i * ?N + l" using xi by (simp add: y_def)
      moreover have "x < ?bs" using x by (simp add: lg_part_def)
      ultimately show ?thesis by (simp add: do_check_def add.commute)
    qed (simp add: do_check_def)
    moreover have "y < w" using pos(2) by (simp add: y_def)
    ultimately show "x \<in> (\<Union>i \<in> set [0..<(?bs - 1) div ?N + 1]. ?S i)"
      using i xi by (intro UN_I [of i]) (simp_all only: set_upt atLeastLessThan_iff if_True le0 simp_thms image_eqI lessThan_iff)
  qed
  ultimately show ?thesis unfolding lg_extract_block_def Let_def by simp
qed

section \<open>What the items of a group copy\<close>

text \<open>What the kernel asks of its configuration. Apart from its own assertions, the top-level tiles must be square in
  blocks, for the columns are counted in \<open>block_rows\<close>, and a block must be a whole number of packets for every item.\<close>

definition lg_ok :: "bool \<Rightarrow> nat \<Rightarrow> 'v::zero Gemm \<Rightarrow> bool" where
  "lg_ok v s t \<longleftrightarrow> gemm_local_asserts v s (gm_cfg t) \<and> gm_alpha t \<noteq> 0 \<and> 0 < lg_cl_elems s t \<and>
     0 < gm_item_rows t \<and> 0 < gm_item_cols t \<and> 0 < gm_wg_rows t \<and> 0 < gm_wg_cols t \<and>
     0 < tl_rows (gm_tile t) \<and> 0 < tl_cols (gm_tile t) \<and> gm_block_rows t = gm_block_cols t \<and>
     gm_block_rows t * lg_cl_elems s t mod (gm_wg_size t * packet_size v (VectorSize (gm_cfg t))) = 0"

text \<open>Element \<open>(r, c)\<close> of the block of \<open>A\<close> and of \<open>B\<close> of a group, with \<open>k\<close> columns and rows left.\<close>

definition lg_a_elem :: "'v::zero Gemm \<Rightarrow> nat \<Rightarrow> nat \<Rightarrow> addr \<Rightarrow> 'v mem \<Rightarrow> nat \<Rightarrow> nat \<Rightarrow> 'v" where
  "lg_a_elem t g k A m r c =
     (if lg_wg_row t g + r < gm_m t \<and> c < k then m (operand_cell (TransA (gm_cfg t)) A 0 (gm_lda t) 0 (lg_wg_row t g + r) c) else 0)"

definition lg_b_elem :: "'v::zero Gemm \<Rightarrow> nat \<Rightarrow> nat \<Rightarrow> addr \<Rightarrow> 'v mem \<Rightarrow> nat \<Rightarrow> nat \<Rightarrow> 'v" where
  "lg_b_elem t g k B m r c =
     (if r < k \<and> lg_wg_col t g + c < gm_n t then m (operand_cell (TransB (gm_cfg t)) B 0 (gm_ldb t) 0 r (lg_wg_col t g + c)) else 0)"

text \<open>Where the two blocks start. The position in the double buffer is one of two.\<close>

definition lg_base_A :: "nat \<Rightarrow> 'v Gemm \<Rightarrow> lg_sync \<Rightarrow> nat" where
  "lg_base_A s t sy = nat (int (lg_ofs s t) + snd (snd sy))"

definition lg_base_B :: "lg_sync \<Rightarrow> nat" where
  "lg_base_B sy = nat (fst (snd sy))"

definition lg_sync_ok :: "nat \<Rightarrow> 'v Gemm \<Rightarrow> lg_sync \<Rightarrow> bool" where
  "lg_sync_ok s t sy \<longleftrightarrow> sy = (1, 0, 0) \<or>
     DoubleBuffer (gm_cfg t) \<and> sy = (- 1, int (gm_block_cols t * lg_ldsb s t), int (lg_ldsa t * lg_cl_elems s t))"

definition lg_ab_cell :: "nat \<Rightarrow> 'v Gemm \<Rightarrow> lg_sync \<Rightarrow> nat + nat \<Rightarrow> nat" where
  "lg_ab_cell s t sy = case_sum
     (lg_cell (TransA (gm_cfg t)) (if TransA (gm_cfg t) then lg_cl_elems s t else gm_block_rows t) (lg_ldsa t) (lg_base_A s t sy))
     (lg_cell (TransB (gm_cfg t)) (if TransB (gm_cfg t) then gm_block_cols t else lg_cl_elems s t) (lg_ldsb s t) (lg_base_B sy))"

definition lg_ab_region :: "nat \<Rightarrow> 'v Gemm \<Rightarrow> (nat + nat) set" where
  "lg_ab_region s t = Inl ` {..<gm_block_rows t * lg_cl_elems s t} \<union> Inr ` {..<lg_cl_elems s t * gm_block_cols t}"

definition lg_ab_part :: "nat \<Rightarrow> 'v Gemm \<Rightarrow> nat \<Rightarrow> nat \<Rightarrow> (nat + nat) set" where
  "lg_ab_part s t w l = Inl ` lg_part (gm_wg_size t) w (gm_block_rows t * lg_cl_elems s t) l \<union>
     Inr ` lg_part (gm_wg_size t) w (lg_cl_elems s t * gm_block_cols t) l"

definition lg_ab_val :: "nat \<Rightarrow> 'v::zero Gemm \<Rightarrow> nat \<Rightarrow> nat \<Rightarrow> addr \<Rightarrow> addr \<Rightarrow> 'v mem \<Rightarrow> nat + nat \<Rightarrow> 'v" where
  "lg_ab_val s t g k A B m = case_sum
     (\<lambda>x. if TransA (gm_cfg t) then lg_a_elem t g k A m (x div lg_cl_elems s t) (x mod lg_cl_elems s t)
          else lg_a_elem t g k A m (x mod gm_block_rows t) (x div gm_block_rows t))
     (\<lambda>x. if TransB (gm_cfg t) then lg_b_elem t g k B m (x div gm_block_cols t) (x mod gm_block_cols t)
          else lg_b_elem t g k B m (x mod lg_cl_elems s t) (x div lg_cl_elems s t))"

lemma lg_okD:
  assumes "lg_ok v s t"
  shows "0 < lg_cl_elems s t" "0 < gm_block_rows t" "0 < gm_block_cols t" "0 < gm_wg_size t"
    "0 < packet_size v (VectorSize (gm_cfg t))"
    "gm_wg_size t mod lg_cl_elems s t = 0" "gm_wg_size t mod gm_block_rows t = 0" "gm_wg_size t mod gm_block_cols t = 0"
    "gm_item_rows t mod packet_size v (VectorSize (gm_cfg t)) = 0" "lg_cl_elems s t mod packet_size v (VectorSize (gm_cfg t)) = 0"
    "gm_block_rows t mod packet_size v (VectorSize (gm_cfg t)) = 0" "gm_block_rows t = gm_block_cols t"
    "gm_block_rows t * lg_cl_elems s t mod (gm_wg_size t * packet_size v (VectorSize (gm_cfg t))) = 0"
  using assms
  by (auto simp: lg_ok_def gemm_local_asserts_def Let_def lg_cl_elems_def gm_block_rows_def gm_block_cols_def gm_wg_size_def intro!: gr0I)

lemma lg_place_of_simps:
  shows "ip_check (lg_place_of v t g l) \<longleftrightarrow>
      \<not> (gm_block_rows t \<le> gm_m t - lg_wg_row t g \<and> gm_block_cols t \<le> gm_n t - lg_wg_col t g)"
    "ip_a_packet (lg_place_of v t g l) = (if ip_check (lg_place_of v t g l) then 1 else packet_size v (VectorSize (gm_cfg t)))"
    "ip_b_packet (lg_place_of v t g l) = gm_item_cols t"
    "ip_dim_m (lg_place_of v t g l) = lg_wg_row t g + l mod gm_wg_rows t * ip_a_packet (lg_place_of v t g l)"
    "ip_dim_n (lg_place_of v t g l) = lg_wg_col t g + l div gm_wg_rows t * gm_item_cols t"
    "ip_out_of_range (lg_place_of v t g l) \<longleftrightarrow> gm_m t \<le> lg_wg_row t g \<or> gm_n t \<le> lg_wg_col t g"
  by (auto simp: lg_place_of_def Let_def)

lemma lg_packet:
  fixes g l :: nat
  assumes "lg_ok v s t"
  defines "w \<equiv> ip_a_packet (lg_place_of v t g l)"
  shows "0 < w" "gm_block_rows t mod w = 0" "gm_block_cols t mod w = 0" "lg_cl_elems s t mod w = 0" "gm_item_rows t mod w = 0"
    "w = 1 \<or> gm_block_rows t * lg_cl_elems s t mod (gm_wg_size t * w) = 0"
    "w = 1 \<or> lg_cl_elems s t * gm_block_cols t mod (gm_wg_size t * w) = 0"
  using lg_okD [OF assms(1)] by (auto simp: w_def lg_place_of_simps(2) mult.commute)

lemma lg_packet_group: "ip_a_packet (lg_place_of v t g l) = ip_a_packet (lg_place_of v t g 0)"
  "ip_check (lg_place_of v t g l) = ip_check (lg_place_of v t g 0)"
  "ip_out_of_range (lg_place_of v t g l) = ip_out_of_range (lg_place_of v t g 0)"
  by (simp_all add: lg_place_of_simps)

lemma lg_cell_bounds:
  assumes "0 < u" "x < rows * cols" "rows \<le> lds" "u = (if tr then cols else rows)"
  shows "base \<le> lg_cell tr u lds base x" "lg_cell tr u lds base x < base + cols * lds"
proof -
  show "base \<le> lg_cell tr u lds base x" by (simp add: lg_cell_def)
  show "lg_cell tr u lds base x < base + cols * lds"
  proof (cases tr)
    case True
    then have "x div u < lds" "x mod u < cols" using assms less_mult_imp_div_less [of x rows cols] by auto
    then have "x mod u * lds + x div u < cols * lds" by (rule reg_index(1))
    then show ?thesis using True by (simp add: lg_cell_def)
  next
    case False
    then have "x mod u < lds" "x div u < cols"
      using assms less_mult_imp_div_less [of x cols rows] less_le_trans [OF mod_less_divisor, of rows lds x] by (auto simp: mult.commute)
    then have "x div u * lds + x mod u < cols * lds" by (rule reg_index(1))
    then show ?thesis using False by (simp add: lg_cell_def)
  qed
qed

text \<open>The block of \<open>B\<close> lies below that of \<open>A\<close>, in either half of the buffers, and the halves are apart.\<close>

lemma lg_bases:
  assumes "lg_sync_ok s t sy"
  shows "lg_base_B sy + gm_block_cols t * lg_ldsb s t \<le> lg_ofs s t" "lg_ofs s t \<le> lg_base_A s t sy"
    "lg_base_A s t sy + lg_cl_elems s t * lg_ldsa t \<le> lg_local_memory_size s t"
proof -
  have "sy = (1, 0, 0) \<or> DoubleBuffer (gm_cfg t) \<and> sy = (- 1, int (gm_block_cols t * lg_ldsb s t), int (lg_ldsa t * lg_cl_elems s t))"
    using assms by (simp add: lg_sync_ok_def)
  then show "lg_base_B sy + gm_block_cols t * lg_ldsb s t \<le> lg_ofs s t" "lg_ofs s t \<le> lg_base_A s t sy"
    "lg_base_A s t sy + lg_cl_elems s t * lg_ldsa t \<le> lg_local_memory_size s t"
    by (elim disjE conjE; simp add: lg_base_A_def lg_base_B_def lg_ofs_def lg_local_memory_size_def nat_add_distrib algebra_simps del: of_nat_mult)+
qed

lemma lg_ab_cell_bounds:
  assumes ok: "lg_ok v s t" and sy: "lg_sync_ok s t sy" and x: "x \<in> lg_ab_region s t"
  shows "lg_ab_cell s t sy x < lg_local_memory_size s t"
    "isl x \<Longrightarrow> lg_base_A s t sy \<le> lg_ab_cell s t sy x \<and> lg_ab_cell s t sy x < lg_base_A s t sy + lg_cl_elems s t * lg_ldsa t"
    "\<not> isl x \<Longrightarrow> lg_base_B sy \<le> lg_ab_cell s t sy x \<and> lg_ab_cell s t sy x < lg_base_B sy + gm_block_cols t * lg_ldsb s t"
proof -
  note ok = lg_okD [OF ok] and b = lg_bases [OF sy]
  show A: "isl x \<Longrightarrow> lg_base_A s t sy \<le> lg_ab_cell s t sy x \<and> lg_ab_cell s t sy x < lg_base_A s t sy + lg_cl_elems s t * lg_ldsa t"
    using x lg_cell_bounds [OF _ _ _ refl, where tr = "TransA (gm_cfg t)" and cols = "lg_cl_elems s t" and rows = "gm_block_rows t"
      and lds = "lg_ldsa t" and base = "lg_base_A s t sy" and x = "projl x"] ok
    by (auto simp: lg_ab_region_def lg_ab_cell_def lg_ldsa_def)
  show B: "\<not> isl x \<Longrightarrow> lg_base_B sy \<le> lg_ab_cell s t sy x \<and> lg_ab_cell s t sy x < lg_base_B sy + gm_block_cols t * lg_ldsb s t"
    using x lg_cell_bounds [OF _ _ _ refl, where tr = "TransB (gm_cfg t)" and cols = "gm_block_cols t" and rows = "lg_cl_elems s t"
      and lds = "lg_ldsb s t" and base = "lg_base_B sy" and x = "projr x"] ok
    by (auto simp: lg_ab_region_def lg_ab_cell_def lg_ldsb_def)
  show "lg_ab_cell s t sy x < lg_local_memory_size s t" using A B b by (cases "isl x") auto
qed

lemma lg_ab_cell_inj:
  assumes ok: "lg_ok v s t" and sy: "lg_sync_ok s t sy"
  shows "inj_on (lg_ab_cell s t sy) (lg_ab_region s t)"
proof (rule inj_onI)
  note okD = lg_okD [OF ok] and b = lg_bases [OF sy]
  fix x y assume xy: "x \<in> lg_ab_region s t" "y \<in> lg_ab_region s t" "lg_ab_cell s t sy x = lg_ab_cell s t sy y"
  have a: "inj_on (\<lambda>x. lg_ab_cell s t sy (Inl x)) {..<gm_block_rows t * lg_cl_elems s t}"
    "inj_on (\<lambda>x. lg_ab_cell s t sy (Inr x)) {..<lg_cl_elems s t * gm_block_cols t}"
    unfolding lg_ab_cell_def sum.case by (rule lg_cell_inj; use okD in \<open>simp add: lg_ldsa_def lg_ldsb_def\<close>)+
  note A = lg_ab_cell_bounds(2) [OF ok sy xy(1)] lg_ab_cell_bounds(2) [OF ok sy xy(2)]
    and B = lg_ab_cell_bounds(3) [OF ok sy xy(1)] lg_ab_cell_bounds(3) [OF ok sy xy(2)]
  have "isl x = isl y" using A B b xy(3) by (cases "isl x"; cases "isl y") auto
  then show "x = y" using xy a by (auto simp: lg_ab_region_def inj_on_def)
qed

text \<open>What one item copies.\<close>

lemma wrote_Inl: "wrote (\<lambda>x. a (Inl x)) S (\<lambda>x. v (Inl x)) m m' \<Longrightarrow> wrote a (Inl ` S) v m m'"
  by (rule wrote_reindex)

lemma wrote_Inr: "wrote (\<lambda>x. a (Inr x)) S (\<lambda>x. v (Inr x)) m m' \<Longrightarrow> wrote a (Inr ` S) v m m'"
  by (rule wrote_reindex)

lemma lg_extract_wrote:
  fixes m :: "'v::zero mem"
  assumes ok: "lg_ok v s t" and sy: "lg_sync_ok s t sy" and l: "l < gm_wg_size t" and k: "\<not> check_k \<Longrightarrow> lg_cl_elems s t \<le> k"
    and range: "\<not> ip_out_of_range (lg_place_of v t g l)"
  shows "wrote (lg_ab_cell s t sy) (lg_ab_part s t (ip_a_packet (lg_place_of v t g l)) l) (lg_ab_val s t g k A B m) loc
     (lg_extract v s t g check_k k A B sy l m loc)"
proof -
  define p w wr wc where "p = lg_place_of v t g l" and "w = ip_a_packet p" and "wr = lg_wg_row t g" and "wc = lg_wg_col t g"
  note okD = lg_okD [OF ok] and pk = lg_packet [OF ok, of g l, folded p_def, folded w_def]
  let ?ta = "TransA (gm_cfg t)" and ?tb = "TransB (gm_cfg t)" and ?cl = "lg_cl_elems s t"
    and ?br = "gm_block_rows t" and ?bc = "gm_block_cols t"
  let ?ua = "if ?ta then ?cl else ?br" and ?ub = "if ?tb then ?bc else ?cl"
  let ?pa = "ptr_add A (int (wr * (if ?ta then gm_lda t else 1)))" and ?pb = "ptr_add B (int (wc * (if ?tb then 1 else gm_ldb t)))"
  let ?locA = "lg_extract_block (gm_wg_size t) (\<not> ip_check p) w (ip_check p) check_k ?ta ?br ?cl (lg_ldsa t) l m
      (ptr_add A (int (lg_ptr_A s t wr w l))) (gm_lda t) (nat (int (lg_s3 s t w l) + snd (snd sy)))
      (\<lambda>ir cr. cr < lg_m_left s t wr w l) (\<lambda>ic cc. cc < k - ic) loc"
  let ?locB = "lg_extract_block (gm_wg_size t) (\<not> ip_check p) w check_k (ip_check p) ?tb ?cl ?bc (lg_ldsb s t) l m
      (ptr_add B (int (lg_ptr_B s t wc w l))) (gm_ldb t) (nat (int (lg_s1 s t w l) + fst (snd sy)))
      (\<lambda>ir cr. cr < k - ir) (\<lambda>ic cc. cc < lg_n_left s t wc w l) ?locA"
  have sy': "0 \<le> fst (snd sy)" "0 \<le> snd (snd sy)" using sy by (auto simp: lg_sync_ok_def)
  have internal: "\<not> ip_check p \<Longrightarrow> ?br \<le> gm_m t - wr \<and> ?bc \<le> gm_n t - wc"
    by (simp add: p_def lg_place_of_simps(1) wr_def wc_def)
  have w1: "\<not> \<not> ip_check p \<Longrightarrow> w = 1" by (simp add: w_def p_def lg_place_of_simps(2))
  have ptrA: "ptr_add A (int (lg_ptr_A s t wr w l)) = ptr_add ?pa (int (l * w mod ?ua + l * w div ?ua * gm_lda t))"
    by (simp add: lg_ptr_A_def Let_def algebra_simps)
  have cellA: "nat (int (lg_s3 s t w l) + snd (snd sy)) = lg_cell ?ta ?ua (lg_ldsa t) (lg_base_A s t sy) (l * w)"
    using sy' by (auto simp: lg_s3_def lg_cell_def lg_base_A_def Let_def nat_add_distrib)
  have "wrote (lg_cell ?ta ?ua (lg_ldsa t) (lg_base_A s t sy)) (lg_part (gm_wg_size t) w (?br * ?cl) l)
      (lg_elem (if ?ta then (\<lambda>c. c < k) else (\<lambda>r. r < gm_m t - wr)) (if ?ta then (\<lambda>r. r < gm_m t - wr) else (\<lambda>c. c < k)) ?ua (gm_lda t) ?pa m)
      loc ?locA"
    unfolding ptrA cellA
  proof (rule lg_extract_block_wrote)
    show "w = 1 \<or> ?br * ?cl mod (gm_wg_size t * w) = 0" by (rule pk(6))
    show "r < gm_m t - wr" if "\<not> ip_check p" "r < ?br" for r using internal that by simp
    show "c < k" if "\<not> check_k" "c < ?cl" for c using k that by simp
    show "?ua mod w = 0" using pk by simp
    show "w = 1" if "\<not> \<not> ip_check p" using w1 [OF that] .
  qed (use okD pk l in \<open>auto simp: lg_ldsa_def lg_m_left_def\<close>)
  then have stepA: "wrote (lg_ab_cell s t sy) (Inl ` lg_part (gm_wg_size t) w (?br * ?cl) l) (lg_ab_val s t g k A B m) loc ?locA"
    by (intro wrote_Inl) (auto simp: lg_ab_cell_def lg_ab_val_def lg_elem_def lg_a_elem_def operand_cell_def batch_cell_def wr_def
        algebra_simps less_diff_conv elim!: wrote_cong)
  have ptrB: "ptr_add B (int (lg_ptr_B s t wc w l)) = ptr_add ?pb (int (l * w mod ?ub + l * w div ?ub * gm_ldb t))"
    by (simp add: lg_ptr_B_def Let_def algebra_simps)
  have cellB: "nat (int (lg_s1 s t w l) + fst (snd sy)) = lg_cell ?tb ?ub (lg_ldsb s t) (lg_base_B sy) (l * w)"
    using sy' by (auto simp: lg_s1_def lg_cell_def lg_base_B_def Let_def nat_add_distrib)
  have "wrote (lg_cell ?tb ?ub (lg_ldsb s t) (lg_base_B sy)) (lg_part (gm_wg_size t) w (?cl * ?bc) l)
      (lg_elem (if ?tb then (\<lambda>c. c < gm_n t - wc) else (\<lambda>r. r < k)) (if ?tb then (\<lambda>r. r < k) else (\<lambda>c. c < gm_n t - wc)) ?ub (gm_ldb t) ?pb m)
      ?locA ?locB"
    unfolding ptrB cellB
  proof (rule lg_extract_block_wrote)
    show "w = 1 \<or> ?cl * ?bc mod (gm_wg_size t * w) = 0" by (rule pk(7))
    show "r < k" if "\<not> check_k" "r < ?cl" for r using k that by simp
    show "c < gm_n t - wc" if "\<not> ip_check p" "c < ?bc" for c using internal that by simp
    show "?ub mod w = 0" using pk by simp
    show "w = 1" if "\<not> \<not> ip_check p" using w1 [OF that] .
  qed (use okD pk l in \<open>auto simp: lg_ldsb_def lg_n_left_def\<close>)
  then have stepB: "wrote (lg_ab_cell s t sy) (Inr ` lg_part (gm_wg_size t) w (?cl * ?bc) l) (lg_ab_val s t g k A B m) ?locA ?locB"
    by (intro wrote_Inr) (auto simp: lg_ab_cell_def lg_ab_val_def lg_elem_def lg_b_elem_def operand_cell_def batch_cell_def wc_def
        algebra_simps less_diff_conv elim!: wrote_cong)
  have "Inl ` lg_part (gm_wg_size t) w (?br * ?cl) l \<union> Inr ` lg_part (gm_wg_size t) w (?cl * ?bc) l \<subseteq> lg_ab_region s t"
    by (auto simp: lg_ab_region_def lg_part_def)
  then have "wrote (lg_ab_cell s t sy) (lg_ab_part s t w l) (lg_ab_val s t g k A B m) loc ?locB"
    unfolding lg_ab_part_def by (intro wrote_trans [OF stepA stepB] inj_on_subset [OF lg_ab_cell_inj [OF ok sy]])
  moreover have "lg_extract v s t g check_k k A B sy l m loc = ?locB"
    using range by (simp only: lg_extract_def Let_def p_def [symmetric] w_def [symmetric] wr_def [symmetric] wc_def [symmetric] if_False)
  ultimately show ?thesis by (simp only: p_def [symmetric] w_def [symmetric])
qed

text \<open>What all items copy. The order of the items does not matter.\<close>

lemma lg_parts:
  assumes "lg_ok v s t" and w: "w = ip_a_packet (lg_place_of v t g l')"
  shows "(\<Union>l < gm_wg_size t. lg_ab_part s t w l) = lg_ab_region s t"
proof -
  have "0 < w" "0 < gm_wg_size t" using lg_okD [OF assms(1)] lg_packet [OF assms(1)] by (simp_all add: w)
  then have "x mod (gm_wg_size t * w) div w < gm_wg_size t" for x by (simp add: less_mult_imp_div_less)
  then have "(\<Union>l < gm_wg_size t. lg_part (gm_wg_size t) w bs l) = {..<bs}" for bs by (auto simp: lg_part_def)
  then show ?thesis by (simp add: lg_ab_part_def lg_ab_region_def UN_Un_distrib flip: image_UN)
qed

lemma lg_extract_all:
  fixes m :: "'v::zero mem"
  assumes ok: "lg_ok v s t" and sy: "lg_sync_ok s t sy" and k: "\<not> check_k \<Longrightarrow> lg_cl_elems s t \<le> k"
    and range: "\<not> ip_out_of_range (lg_place_of v t g 0)" and xs: "set xs = {..<gm_wg_size t}"
  shows "wrote (lg_ab_cell s t sy) (lg_ab_region s t) (lg_ab_val s t g k A B m) loc
     (fold (\<lambda>l. lg_extract v s t g check_k k A B sy l m) xs loc)"
proof -
  let ?w = "ip_a_packet (lg_place_of v t g 0)"
  have "wrote (lg_ab_cell s t sy) (\<Union>l \<in> set xs. lg_ab_part s t ?w l) (lg_ab_val s t g k A B m) loc
     (fold (\<lambda>l. lg_extract v s t g check_k k A B sy l m) xs loc)"
  proof (rule fold_wrote [OF lg_ab_cell_inj [OF ok sy]])
    fix l loc assume l: "l \<in> set xs"
    then have "l < gm_wg_size t" using xs by simp
    then show "wrote (lg_ab_cell s t sy) (lg_ab_part s t ?w l) (lg_ab_val s t g k A B m) loc (lg_extract v s t g check_k k A B sy l m loc)"
      using lg_extract_wrote [OF ok sy \<open>l < gm_wg_size t\<close>, where check_k = check_k and k = k and g = g and A = A and B = B and m = m and loc = loc]
        k range lg_packet_group [of v t g l] by simp
    show "lg_ab_part s t ?w l \<subseteq> lg_ab_region s t" by (auto simp: lg_ab_part_def lg_ab_region_def lg_part_def)
  qed
  then show ?thesis using lg_parts [OF ok refl, of g 0] by (simp add: xs)
qed

text \<open>The element in row \<open>r\<close> and column \<open>c\<close> of the copies.\<close>

lemma lg_copied_A:
  assumes ok: "lg_ok v s t" and w: "wrote (lg_ab_cell s t sy) (lg_ab_region s t) (lg_ab_val s t g k A B m) loc loc'"
    and rc: "r < gm_block_rows t" "c < lg_cl_elems s t"
  shows "loc' (lg_base_A s t sy + r + c * lg_ldsa t) = lg_a_elem t g k A m r c"
proof -
  let ?x = "if TransA (gm_cfg t) then r * lg_cl_elems s t + c else c * gm_block_rows t + r"
  have x: "?x < gm_block_rows t * lg_cl_elems s t"
    using reg_index(1) [OF rc(2,1)] reg_index(1) [OF rc] by (simp add: mult.commute)
  then have "loc' (lg_ab_cell s t sy (Inl ?x)) = lg_ab_val s t g k A B m (Inl ?x)"
    using w unfolding wrote_def lg_ab_region_def by blast
  then show ?thesis using rc by (simp add: lg_ab_cell_def lg_ab_val_def lg_cell_def split: if_splits)
qed

lemma lg_copied_B:
  assumes ok: "lg_ok v s t" and w: "wrote (lg_ab_cell s t sy) (lg_ab_region s t) (lg_ab_val s t g k A B m) loc loc'"
    and rc: "r < lg_cl_elems s t" "c < gm_block_cols t"
  shows "loc' (lg_base_B sy + r + c * lg_ldsb s t) = lg_b_elem t g k B m r c"
proof -
  let ?x = "if TransB (gm_cfg t) then r * gm_block_cols t + c else c * lg_cl_elems s t + r"
  have x: "?x < lg_cl_elems s t * gm_block_cols t"
    using reg_index(1) [OF rc(2,1)] reg_index(1) [OF rc] by (simp add: mult.commute)
  then have "loc' (lg_ab_cell s t sy (Inr ?x)) = lg_ab_val s t g k A B m (Inr ?x)"
    using w unfolding wrote_def lg_ab_region_def by blast
  then show ?thesis using rc by (simp add: lg_ab_cell_def lg_ab_val_def lg_cell_def split: if_splits)
qed

end
