(* ===== verification/Gemm_Local_Group.thy ===== *)
theory Gemm_Local_Group
  imports Gemm_Local_Copy
begin

text \<open>
  What a group of the kernel with local memory computes, when its items finish every command before the next: the
  product of the blocks in local memory (\<open>lg_compute_block_eq\<close>), the loop over \<open>k\<close> that adds them up
  (\<open>lg_blocks_run\<close>), the scaled result and its store, where the groups' blocks lie (they form a
  \<open>block_layout\<close>), and all of it together, for one matrix of the batch (\<open>lg_pass_run\<close>).
\<close>

section \<open>Multiplying the blocks\<close>

lemma fold_reg_columns:
  "fold (\<lambda>j reg. fold (\<lambda>l reg. reg(j * n + l := f j l (reg (j * n + l)))) [0..<n] reg) [0..<k] reg x
   = (if x < k * n then f (x div n) (x mod n) (reg x) else reg x)"
  by (rule fold_reg_rows) (simp only: fold_reg_row)

lemma lg_compute_block_eq:
  fixes t :: "'v::{comm_monoid_add, times} Gemm"
  assumes w: "0 < w" "gm_item_rows t mod w = 0"
  shows "lg_compute_block t cl ldsb w loc B A reg_a reg_res y =
    (if y < gm_item_cols t * gm_item_rows t
     then reg_res y + (\<Sum>x<cl. loc (A + packet_off w (gm_wg_rows t) (y mod gm_item_rows t) + x * lg_ldsa t) *
                               loc (B + x + y div gm_item_rows t * ldsb))
     else reg_res y)"
proof -
  let ?ir = "gm_item_rows t" and ?ic = "gm_item_cols t"
  let ?a = "\<lambda>A reg_a. fold (\<lambda>j reg_a. fold (\<lambda>i reg_a. reg_a(i + j * w := loc (A + (i + j * gm_wg_rows t * w)))) [0..<w] reg_a)
                      [0..<?ir div w] reg_a"
  let ?c = "\<lambda>B reg_a reg_res. fold (\<lambda>j reg_res. fold (\<lambda>l reg_res. reg_res(j * ?ir + l := reg_a l * loc (B + j * ldsb) + reg_res (j * ?ir + l)))
                       [0..<?ir] reg_res) [0..<?ic] reg_res"
  have a: "?a A reg_a l = loc (A + packet_off w (gm_wg_rows t) l)" if "l < ?ir" for A reg_a l
  proof -
    let ?b = "fold (\<lambda>j reg_a. fold (\<lambda>i reg_a. reg_a(j * w + i := loc (A + (i + j * gm_wg_rows t * w)))) [0..<w] reg_a) [0..<?ir div w] reg_a"
    have "?a A reg_a = ?b" by (simp add: add.commute)
    moreover have "?b l = (if l < ?ir div w * w then loc (A + (l mod w + l div w * gm_wg_rows t * w)) else reg_a l)"
      by (rule fold_reg_columns [where f = "\<lambda>j i y. loc (A + (i + j * gm_wg_rows t * w))"])
    ultimately have "?a A reg_a l = (if l < ?ir div w * w then loc (A + (l mod w + l div w * gm_wg_rows t * w)) else reg_a l)"
      by (simp only:)
    also have "?ir div w * w = ?ir" using w(2) by (metis add.right_neutral div_mult_mod_eq)
    finally have e: "?a A reg_a l = (if l < ?ir then loc (A + (l mod w + l div w * gm_wg_rows t * w)) else reg_a l)" .
    show ?thesis unfolding e if_P [OF that] packet_off_def
      by (rule arg_cong [where f = "\<lambda>z. loc (A + z)"]) (rule add.commute)
  qed
  let ?step = "\<lambda>_ ((reg_a, reg_res), A, B). (let reg_a = ?a A reg_a; reg_res =
     fold (\<lambda>j reg_res. (let reg_b = loc (B + j * ldsb) in fold (\<lambda>l reg_res. reg_res(j * ?ir + l := reg_a l * reg_b + reg_res (j * ?ir + l)))
                       [0..<?ir] reg_res)) [0..<?ic] reg_res
     in ((reg_a, reg_res), A + lg_ldsa t, B + 1))"
  have main: "\<exists>ra rr. fold ?step [0..<n] ((reg_a, reg_res), A, B) = ((ra, rr), A + n * lg_ldsa t, B + n) \<and>
     (\<forall>y. rr y = (if y < ?ic * ?ir
       then reg_res y + (\<Sum>x<n. loc (A + packet_off w (gm_wg_rows t) (y mod ?ir) + x * lg_ldsa t) * loc (B + x + y div ?ir * ldsb))
       else reg_res y))" for n
  proof (induction n)
    case (Suc n)
    then obtain ra rr where IH: "fold ?step [0..<n] ((reg_a, reg_res), A, B) = ((ra, rr), A + n * lg_ldsa t, B + n)"
      "\<And>y. rr y = (if y < ?ic * ?ir
       then reg_res y + (\<Sum>x<n. loc (A + packet_off w (gm_wg_rows t) (y mod ?ir) + x * lg_ldsa t) * loc (B + x + y div ?ir * ldsb))
       else reg_res y)" by blast
    let ?ra = "?a (A + n * lg_ldsa t) ra"
    have "fold ?step [0..<Suc n] ((reg_a, reg_res), A, B) = ((?ra, ?c (B + n) ?ra rr), A + n * lg_ldsa t + lg_ldsa t, B + n + 1)"
      unfolding upt_Suc_append [OF le0] fold_append comp_def fold.simps id_def IH(1) by (simp only: prod.case Let_def)
    moreover have "A + n * lg_ldsa t + lg_ldsa t = A + Suc n * lg_ldsa t" "B + n + 1 = B + Suc n" by simp_all
    moreover have "?c (B + n) ?ra rr y = (if y < ?ic * ?ir
       then reg_res y + (\<Sum>x<Suc n. loc (A + packet_off w (gm_wg_rows t) (y mod ?ir) + x * lg_ldsa t) * loc (B + x + y div ?ir * ldsb))
       else reg_res y)" for y
    proof -
      have c: "?c (B + n) ?ra rr y = (if y < ?ic * ?ir then ?ra (y mod ?ir) * loc (B + n + y div ?ir * ldsb) + rr y else rr y)"
        by (rule fold_reg_columns [where f = "\<lambda>j l y. ?ra l * loc (B + n + j * ldsb) + y"])
      show ?thesis
      proof (cases "y < ?ic * ?ir")
        case True
        then have "y mod ?ir < ?ir" by (cases ?ir) auto
        then have ra: "?ra (y mod ?ir) = loc (A + n * lg_ldsa t + packet_off w (gm_wg_rows t) (y mod ?ir))" by (rule a)
        show ?thesis unfolding c if_P [OF True] ra IH(2) by (simp add: ac_simps)
      next
        case False
        then show ?thesis unfolding c IH(2) by (simp only: if_False)
      qed
    qed
    ultimately show ?case by (simp only:) blast
  qed simp
  obtain ra rr where r: "fold ?step [0..<cl] ((reg_a, reg_res), A, B) = ((ra, rr), A + cl * lg_ldsa t, B + cl)"
    "\<forall>y. rr y = (if y < ?ic * ?ir
       then reg_res y + (\<Sum>x<cl. loc (A + packet_off w (gm_wg_rows t) (y mod ?ir) + x * lg_ldsa t) * loc (B + x + y div ?ir * ldsb))
       else reg_res y)"
    using main [of cl] by blast
  show ?thesis unfolding lg_compute_block_def r(1) fst_conv snd_conv using r(2) by blast
qed

section \<open>The loop over \<open>k\<close>\<close>

text \<open>The products of row \<open>r\<close> and column \<open>c\<close>, of the first \<open>k\<close> columns of \<open>A\<close> and rows of \<open>B\<close>.\<close>

abbreviation "lg_product t k A B m r c \<equiv> product_at (TransA (gm_cfg t)) (TransB (gm_cfg t)) k A (gm_lda t) B (gm_ldb t) m r c"

lemma lg_product_split:
  fixes m :: "'v::{comm_monoid_add, times} mem"
  assumes "c \<le> k"
  shows "lg_product t k A B m i j = lg_product t c A B m i j +
     lg_product t (k - c) (ptr_add A (int (c * (if TransA (gm_cfg t) then 1 else gm_lda t))))
       (ptr_add B (int (c * (if TransB (gm_cfg t) then gm_ldb t else 1)))) m i j"
proof -
  have shift: "operand_cell (TransA (gm_cfg t)) (ptr_add A (int (c * (if TransA (gm_cfg t) then 1 else gm_lda t)))) 0 (gm_lda t) 0 i x
      = operand_cell (TransA (gm_cfg t)) A 0 (gm_lda t) 0 i (c + x)"
    "operand_cell (TransB (gm_cfg t)) (ptr_add B (int (c * (if TransB (gm_cfg t) then gm_ldb t else 1)))) 0 (gm_ldb t) 0 x j
      = operand_cell (TransB (gm_cfg t)) B 0 (gm_ldb t) 0 (c + x) j" for x
    by (simp_all add: operand_cell_def batch_cell_def algebra_simps)
  obtain d where d: "k = c + d" using assms by (auto simp: le_iff_add)
  have split: "(\<Sum>x<c + d. f x) = (\<Sum>x<c. f x) + (\<Sum>x<d. f (c + x))" for f :: "nat \<Rightarrow> 'v"
    by (induction d) (simp_all add: ac_simps)
  show ?thesis unfolding product_at_def d add_diff_cancel_left' shift split ..
qed

text \<open>One block. \<open>min cl_elems k\<close> columns of it exist.\<close>

lemma lg_offsets:
  assumes ok: "lg_ok v s t" and l: "l < gm_wg_size t"
  shows "j < gm_item_rows t \<Longrightarrow> l mod gm_wg_rows t * ip_a_packet (lg_place_of v t g l) + packet_off (ip_a_packet (lg_place_of v t g l)) (gm_wg_rows t) j
      < gm_block_rows t"
    and "i < gm_item_cols t \<Longrightarrow> l div gm_wg_rows t * gm_item_cols t + i < gm_block_cols t"
proof -
  note pk = lg_packet [OF ok, of g l]
  have pos: "0 < gm_wg_rows t" using ok by (simp add: lg_ok_def)
  then show "l mod gm_wg_rows t * ip_a_packet (lg_place_of v t g l) + packet_off (ip_a_packet (lg_place_of v t g l)) (gm_wg_rows t) j
      < gm_block_rows t" if "j < gm_item_rows t"
    unfolding gm_block_rows_def using that by (intro packet_off_radix(1) pk) simp_all
  show "l div gm_wg_rows t * gm_item_cols t + i < gm_block_cols t" if "i < gm_item_cols t"
    unfolding gm_block_cols_def using that l
    by (intro reg_index(1)) (simp_all add: gm_wg_size_def less_mult_imp_div_less mult.commute)
qed

lemma lg_compute_copied:
  fixes m :: "'v::semiring_0 mem"
  assumes ok: "lg_ok v s t" and sy: "lg_sync_ok s t sy" and l: "l < gm_wg_size t"
    and w: "wrote (lg_ab_cell s t sy) (lg_ab_region s t) (lg_ab_val s t g k A B m) loc loc'"
    and ij: "(i, j) \<in> ip_in t (lg_place_of v t g l)"
  shows "lg_compute v s u t g sy l loc' reg (i * gm_item_rows t + j) = reg (i * gm_item_rows t + j) +
     lg_product t (min (lg_cl_elems s t) k) A B m (ip_row t (lg_place_of v t g l) j) (ip_col t (lg_place_of v t g l) i)"
proof -
  define p where "p = lg_place_of v t g l"
  let ?w = "ip_a_packet p" and ?cl = "lg_cl_elems s t"
  note pk = lg_packet [OF ok, of g l, folded p_def]
  have ij': "i < gm_item_cols t" "j < gm_item_rows t" "ip_row t p j < gm_m t" "ip_col t p i < gm_n t"
    using ij by (simp_all add: ip_in_def p_def)
  define r c where "r = l mod gm_wg_rows t * ?w + packet_off ?w (gm_wg_rows t) j" and "c = l div gm_wg_rows t * gm_item_cols t + i"
  have rc: "r < gm_block_rows t" "c < gm_block_cols t"
    using lg_offsets(1) [OF ok l, of j g] lg_offsets(2) [OF ok l, of i] ij'(1,2) by (simp_all add: r_def c_def p_def)
  have place: "ip_row t p j = lg_wg_row t g + r" "ip_col t p i = lg_wg_col t g + c"
    using ij'(1) by (simp_all add: ip_row_def ip_col_def p_def lg_place_of_simps(3-5) r_def c_def)
  have base: "nat (int (lg_s4 s t ?w l) + snd (snd sy)) = lg_base_A s t sy + l mod gm_wg_rows t * ?w"
    "nat (int (lg_s2 s t l) + fst (snd sy)) = lg_base_B sy + l div gm_wg_rows t * gm_item_cols t * lg_ldsb s t"
    using sy by (auto simp: lg_sync_ok_def lg_s4_def lg_s2_def lg_base_A_def lg_base_B_def nat_add_distrib nat_mult_distrib)
  have pos: "i * gm_item_rows t + j < gm_item_cols t * gm_item_rows t" "(i * gm_item_rows t + j) div gm_item_rows t = i"
    "(i * gm_item_rows t + j) mod gm_item_rows t = j"
    using reg_index [OF ij'(2,1)] .
  have "lg_compute v s u t g sy l loc' reg (i * gm_item_rows t + j) = reg (i * gm_item_rows t + j) +
      (\<Sum>x<?cl. loc' (lg_base_A s t sy + r + x * lg_ldsa t) * loc' (lg_base_B sy + x + c * lg_ldsb s t))"
    unfolding lg_compute_def Let_def p_def [symmetric] base lg_compute_block_eq [OF pk(1,5)] if_P [OF pos(1)] pos(2,3)
    by (simp add: r_def c_def algebra_simps)
  also have "(\<Sum>x<?cl. loc' (lg_base_A s t sy + r + x * lg_ldsa t) * loc' (lg_base_B sy + x + c * lg_ldsb s t))
      = (\<Sum>x<?cl. if x < k then m (operand_cell (TransA (gm_cfg t)) A 0 (gm_lda t) 0 (ip_row t p j) x) *
           m (operand_cell (TransB (gm_cfg t)) B 0 (gm_ldb t) 0 x (ip_col t p i)) else 0)"
    using rc ij'(3,4) place
    by (intro sum.cong) (simp_all add: lg_copied_A [OF ok w] lg_copied_B [OF ok w] lg_a_elem_def lg_b_elem_def)
  also have "\<dots> = lg_product t (min ?cl k) A B m (ip_row t p j) (ip_col t p i)"
    unfolding product_at_def by (intro sum.mono_neutral_cong_right) auto
  finally show ?thesis by (simp only: p_def)
qed

text \<open>The registers of a group after \<open>gs'\<close> are those after \<open>gs\<close> plus the products of \<open>k\<close> columns and rows.\<close>

definition lg_added :: "bool \<Rightarrow> 'v::semiring_0 Gemm \<Rightarrow> nat \<Rightarrow> nat \<Rightarrow> addr \<Rightarrow> addr \<Rightarrow>
    ('v mem, 'v, nat \<Rightarrow> 'v) group_state \<Rightarrow> ('v mem, 'v, nat \<Rightarrow> 'v) group_state \<Rightarrow> bool" where
  "lg_added v t g k A B gs gs' \<longleftrightarrow> gs_mem gs' = gs_mem gs \<and>
     (\<forall>l < gm_wg_size t. \<forall>(i, j) \<in> ip_in t (lg_place_of v t g l).
        gs_priv gs' l (i * gm_item_rows t + j) = gs_priv gs l (i * gm_item_rows t + j) +
          lg_product t k A B (gs_mem gs) (ip_row t (lg_place_of v t g l) j) (ip_col t (lg_place_of v t g l) i))"

lemma lg_added_trans:
  assumes "c \<le> k" "lg_added v t g c A B gs gs1"
    and "lg_added v t g (k - c) (ptr_add A (int (c * (if TransA (gm_cfg t) then 1 else gm_lda t))))
       (ptr_add B (int (c * (if TransB (gm_cfg t) then gm_ldb t else 1)))) gs1 gs2"
  shows "lg_added v t g k A B gs gs2"
  unfolding lg_added_def
proof (intro conjI allI impI ballI, goal_cases)
  case 1
  then show ?case using assms by (simp add: lg_added_def)
next
  case (2 l c')
  obtain i j where ij: "c' = (i, j)" by (cases c')
  then show ?case
    using assms(2,3) 2 lg_product_split [OF assms(1), where t = t and A = A and B = B and m = "gs_mem gs"
      and i = "ip_row t (lg_place_of v t g l) j" and j = "ip_col t (lg_place_of v t g l) i"]
    unfolding lg_added_def by (fastforce simp: add.assoc)
qed

lemma lg_sync_smem_ok: "lg_sync_ok s t sy \<Longrightarrow> lg_sync_ok s t (lg_sync_smem s t sy)"
  by (auto simp: lg_sync_ok_def lg_sync_smem_def split: if_splits)

lemma lg_block_run:
  assumes ok: "lg_ok v s t" and sy: "lg_sync_ok s t sy" and k: "\<not> check_k \<Longrightarrow> lg_cl_elems s t \<le> k"
    and range: "\<not> ip_out_of_range (lg_place_of v t g 0)" and ord: "item_orders (gm_wg_size t) ord"
  shows "lg_added v t g (min (lg_cl_elems s t) k) A B gs (run_cmds ord n (lg_block v s u t g check_k k A B sy) gs)"
proof -
  define loc' where "loc' = fold (\<lambda>l. lg_extract v s t g check_k k A B sy l (gs_mem gs)) (ord n) (gs_local gs)"
  have copied: "wrote (lg_ab_cell s t sy) (lg_ab_region s t) (lg_ab_val s t g k A B (gs_mem gs)) (gs_local gs) loc'"
    unfolding loc'_def by (rule lg_extract_all [OF ok sy k range item_ordersD(2) [OF ord]])
  let ?gs = "gs\<lparr>gs_local := loc',
      gs_priv := (\<lambda>l. if l < gm_wg_size t then lg_compute v s u t g sy l loc' (gs_priv gs l) else gs_priv gs l)\<rparr>"
  have sync: "run_cmds ord x (lg_sync_cmds t) gs = gs" for x and gs :: "('a mem, 'a, nat \<Rightarrow> 'a) group_state"
    by (simp add: lg_sync_cmds_def)
  have run: "run_cmds ord n (lg_block v s u t g check_k k A B sy) gs = ?gs"
    by (simp add: lg_block_def sync fold_exec_Local fold_exec_Priv [OF item_ordersD [OF ord]] loc'_def cong: if_cong)
  show ?thesis
    unfolding run lg_added_def using lg_compute_copied [OF ok sy _ copied] by auto
qed

text \<open>The three cases of the loop.\<close>

lemma lg_blocks_step:
  fixes s k :: nat and t :: "'v::{zero, plus, times} Gemm" and A B :: addr
  assumes "0 < lg_cl_elems s t" "lg_cl_elems s t \<le> k"
  defines "rest \<equiv> \<lambda>v u g sy. lg_blocks v s u t g (k - lg_cl_elems s t)
     (ptr_add A (int (lg_cl_elems s t * (if TransA (gm_cfg t) then 1 else gm_lda t))))
     (ptr_add B (int (lg_cl_elems s t * (if TransB (gm_cfg t) then gm_ldb t else 1)))) (lg_sync_smem s t sy)"
  shows "lg_blocks v s u t g k A B sy = (lg_block v s u t g False k A B sy @ fst (rest v u g sy), snd (rest v u g sy))"
  using assms(1,2) by (subst lg_blocks.simps) (simp add: Let_def split_beta rest_def)

lemma lg_blocks_rest: "0 < k \<Longrightarrow> k < lg_cl_elems s t \<Longrightarrow>
    lg_blocks v s u t g k A B sy = (lg_block v s u t g True k A B sy, lg_sync_smem s t sy)"
  by (subst lg_blocks.simps) (simp only: Let_def not_le [symmetric] if_False if_True simp_thms)

lemma lg_blocks_0: "lg_blocks v s u t g 0 A B sy = ([], sy)"
  by (subst lg_blocks.simps) (auto simp: Let_def)

lemma lg_blocks_run:
  assumes ok: "lg_ok v s t" and range: "\<not> ip_out_of_range (lg_place_of v t g 0)" and ord: "item_orders (gm_wg_size t) ord"
    and sy: "lg_sync_ok s t sy"
  shows "lg_added v t g k A B gs (run_cmds ord n (fst (lg_blocks v s u t g k A B sy)) gs)"
  using ok range ord sy
proof (induction v s u t g k A B sy arbitrary: n gs rule: lg_blocks.induct)
  case (1 v s u t g k A B sy)
  let ?cl = "lg_cl_elems s t"
  note ok = "1.prems"(1) and range = "1.prems"(2) and ord = "1.prems"(3) and sy = "1.prems"(4)
  note block = lg_block_run [OF ok sy _ range ord]
  show ?case
  proof (cases "0 < ?cl \<and> ?cl \<le> k")
    case True
    have "lg_added v t g ?cl A B gs (run_cmds ord n (lg_block v s u t g False k A B sy) gs)"
      using block [of False k A B gs n u] True by (simp add: min_absorb1)
    then show ?thesis
      unfolding lg_blocks_step [OF conjunct1 [OF True] conjunct2 [OF True]] fst_conv run_cmds_append
      by (rule lg_added_trans [OF conjunct2 [OF True]])
        (rule "1.IH" [OF refl True ok range ord lg_sync_smem_ok [OF sy]])
  next
    case False
    then have kcl: "k < ?cl" using lg_okD(1) [OF ok] by simp
    show ?thesis
    proof (cases "0 < k")
      case True
      then show ?thesis using block [of True k A B gs n u] kcl by (simp add: lg_blocks_rest min_absorb2)
    next
      case False
      then show ?thesis by (auto simp: lg_blocks_0 lg_added_def product_at_def)
    qed
  qed
qed

lemma lg_blocks_sync:
  "lg_sync_ok s t sy \<Longrightarrow> lg_sync_ok s t (snd (lg_blocks v s u t g k A B sy))"
proof (induction v s u t g k A B sy rule: lg_blocks.induct)
  case (1 v s u t g k A B sy)
  then show ?case
    by (subst lg_blocks.simps) (auto simp: Let_def split_beta lg_sync_smem_ok)
qed

section \<open>Scaling and storing\<close>

lemma lg_check_c_iff:
  fixes v :: bool and g l :: nat and t :: "'v Gemm"
  defines "p \<equiv> lg_place_of v t g l"
  assumes "ip_sound t p" "i < gm_item_cols t" "q < gm_item_rows t div ip_a_packet p" "x < ip_a_packet p"
  shows "lg_check_c t p i q \<longleftrightarrow> (i, q * ip_a_packet p + x) \<in> ip_in t p"
proof -
  have "gm_item_rows t mod ip_a_packet p = 0" using assms(2) by (simp add: ip_sound_def)
  then have "gm_item_rows t div ip_a_packet p * ip_a_packet p = gm_item_rows t"
    by (metis add.right_neutral div_mult_mod_eq)
  then have lt: "q * ip_a_packet p + x < gm_item_rows t" using reg_index(1) [OF assms(5,4)] by simp
  show ?thesis
  proof (cases "ip_check p")
    case True
    then have "ip_a_packet p = 1" by (simp add: p_def lg_place_of_simps(2))
    then show ?thesis
      using True assms(3,5) lt
      by (auto simp: lg_check_c_def do_check_def ip_in_def ip_row_def ip_col_def p_def lg_place_of_simps(3) less_diff_conv ac_simps)
  next
    case False
    then show ?thesis using assms(2,3) lt by (simp add: lg_check_c_def do_check_def ip_sound_def)
  qed
qed

lemma fold_reg_store: "fold (\<lambda>l reg. reg(b + l := f l)) [0..<n] reg = reg_store n b f reg"
  by (rule ext) (simp add: fold_reg_row [where f = "\<lambda>l y. f l"] reg_store_def)

lemma lg_scaling_eq:
  fixes t :: "'v::{zero, times, divide} Gemm"
  assumes p: "ip_sound t (lg_place_of v t g l)" and range: "\<not> ip_out_of_range (lg_place_of v t g l)"
  defines "p \<equiv> lg_place_of v t g l"
  shows "lg_scaling_c t p m C reg = (\<lambda>x.
    if x < gm_item_cols t * gm_item_rows t then
      (if beta_zero (gm_cfg t) then 0
       else if (x div gm_item_rows t, x mod gm_item_rows t) \<in> ip_in t p
         then gm_stored_beta t * m (ip_cell t p C (x div gm_item_rows t, x mod gm_item_rows t)) else reg x)
    else reg x)"
proof (cases "beta_zero (gm_cfg t)")
  case True
  then show ?thesis
    using fold_reg_row_guard [where P = "\<lambda>_. True" and b = 0 and f = "\<lambda>_. 0" and n = "gm_item_cols t * gm_item_rows t" and reg = reg]
    by (simp add: lg_scaling_c_def fun_eq_iff)
next
  case False
  let ?w = "ip_a_packet p" and ?ir = "gm_item_rows t"
  have w: "0 < ?w" "?ir mod ?w = 0" "0 < ?ir" using p by (simp_all add: ip_sound_def p_def)
  then have rows: "?ir div ?w * ?w = ?ir" by (metis add.right_neutral div_mult_mod_eq)
  let ?D = "\<lambda>i. ptr_add C (int i * int (gm_ldc t))"
  define val where "val = (\<lambda>i j. gm_stored_beta t * m (ptr_add (?D i) (int (j div ?w * (gm_wg_rows t * ?w) + j mod ?w))))"
  let ?row = "\<lambda>i reg. fold (\<lambda>j reg. if lg_check_c t p i j
               then fold (\<lambda>l reg. reg(i * ?ir + j * ?w + l :=
                        gm_stored_beta t * m (ptr_add (?D i) (int (j * (gm_wg_rows t * ?w) + l)))))
                      [0..<?w] reg
               else reg) [0..<?ir div ?w] reg"
  have row: "?row i reg x = (if i * ?ir \<le> x \<and> x < i * ?ir + ?ir
      then (if lg_check_c t p i ((x - i * ?ir) div ?w) then val i (x - i * ?ir) else reg x) else reg x)" for i reg x
    unfolding fold_reg_store fold_reg_packets [OF w(1)] rows by (simp add: val_def)
  have all: "lg_scaling_c t p m C reg = fold ?row [0..<gm_item_cols t] reg"
    unfolding lg_scaling_c_def if_not_P [OF False] if_not_P [OF range [folded p_def]] by (subst fold_ptr) (rule refl)
  show ?thesis
  proof (rule ext)
    fix x
    let ?i = "x div ?ir" and ?j = "x mod ?ir"
    have "lg_scaling_c t p m C reg x = (if x < gm_item_cols t * ?ir
        then (if lg_check_c t p ?i (?j div ?w) then val ?i ?j else reg x) else reg x)"
      unfolding all
      by (rule trans [OF fold_reg_rows [where f = "\<lambda>i j y. if lg_check_c t p i (j div ?w) then val i j else y"]], rule row) simp
    moreover have "lg_check_c t p ?i (?j div ?w) \<longleftrightarrow> (?i, ?j) \<in> ip_in t p" "val ?i ?j = gm_stored_beta t * m (ip_cell t p C (?i, ?j))"
      if x: "x < gm_item_cols t * ?ir"
    proof -
      have i: "?i < gm_item_cols t" using x by (rule less_mult_imp_div_less)
      have "?j div ?w < ?ir div ?w" using w(3) rows by (intro less_mult_imp_div_less) simp
      then show "lg_check_c t p ?i (?j div ?w) \<longleftrightarrow> (?i, ?j) \<in> ip_in t p"
        using lg_check_c_iff [OF p i, of "?j div ?w" "?j mod ?w"] w(1) by (simp add: p_def)
      have po: "packet_off (ip_b_packet p) (gm_wg_cols t) ?i = ?i" using i by (simp add: p_def lg_place_of_simps(3))
      then show "val ?i ?j = gm_stored_beta t * m (ip_cell t p C (?i, ?j))"
        unfolding val_def ip_cell_def prod.case po by (simp add: packet_off_def ac_simps)
    qed
    ultimately show "lg_scaling_c t p m C reg x = (if x < gm_item_cols t * ?ir then
      (if beta_zero (gm_cfg t) then 0 else if (?i, ?j) \<in> ip_in t p then gm_stored_beta t * m (ip_cell t p C (?i, ?j)) else reg x)
      else reg x)"
      using False by simp
  qed
qed

text \<open>What an item stores.\<close>

lemma fold_pos:
  "fold (\<lambda>j (m, pos). (f j m pos, pos + d)) [0..<n] (m, pos) = (fold (\<lambda>j m. f j m (pos + j * d)) [0..<n] m, pos + n * d :: nat)"
  by (induction n) simp_all

lemma lg_store_wrote:
  fixes t :: "'v::comm_monoid_mult Gemm"
  assumes p: "ip_sound t (lg_place_of v t g l)" and range: "\<not> ip_out_of_range (lg_place_of v t g l)" and ld: "gm_m t \<le> gm_ldc t"
  defines "p \<equiv> lg_place_of v t g l"
  shows "wrote (ip_cell t p C) (ip_in t p) (\<lambda>(i, j). reg (i * gm_item_rows t + j) * gm_alpha t) m (lg_store_output t p reg C m)"
proof -
  let ?w = "ip_a_packet p" and ?ir = "gm_item_rows t"
  have w: "0 < ?w" "?ir mod ?w = 0" "0 < ?ir" using p by (simp_all add: ip_sound_def p_def)
  then have rows: "?ir div ?w * ?w = ?ir" by (metis add.right_neutral div_mult_mod_eq)
  have packet: "lg_store_packet t p reg pos q m = vec_store ?w q (\<lambda>x. reg (pos + x) * gm_alpha t) m" for pos q m
    by (simp add: lg_store_packet_def vec_store_def p_def lg_place_of_simps(2) mult.commute)
  let ?row = "\<lambda>i C m pos. fold (\<lambda>j m. if lg_check_c t p i j
       then vec_store ?w (ptr_add C (int (j * (gm_wg_rows t * ?w)))) (\<lambda>x. reg (pos + j * ?w + x) * gm_alpha t) m else m) [0..<?ir div ?w] m"
  have "fold (\<lambda>i (m_pos, C). (fold (\<lambda>j (m, pos).
               (if lg_check_c t p i j
                then vec_store ?w (ptr_add C (int (j * (gm_wg_rows t * ?w)))) (\<lambda>x. reg (pos + x) * gm_alpha t) m else m,
                pos + ?w)) [0..<?ir div ?w] m_pos, ptr_add C (int (gm_ldc t)))) [0..<n] ((m, 0), C)
      = ((fold (\<lambda>i m. ?row i (ptr_add C (int (i * gm_ldc t))) m (i * ?ir)) [0..<n] m, n * ?ir), ptr_add C (int (n * gm_ldc t)))" for n
  proof (induction n)
    case (Suc n)
    show ?case
      unfolding upt_Suc_append [OF le0] fold_append comp_def fold.simps id_def Suc.IH prod.case
        fold_pos [where f = "\<lambda>j m pos. if lg_check_c t p n j
          then vec_store ?w (ptr_add (ptr_add C (int (n * gm_ldc t))) (int (j * (gm_wg_rows t * ?w)))) (\<lambda>x. reg (pos + x) * gm_alpha t) m else m"]
        rows
      by (simp add: algebra_simps)
  qed simp
  then have "lg_store_output t p reg C m = fold (\<lambda>i m. ?row i (ptr_add C (int (i * gm_ldc t))) m (i * ?ir)) [0..<gm_item_cols t] m"
    unfolding lg_store_output_def if_not_P [OF range [folded p_def]] packet by (simp only: fst_conv)
  also have "\<dots> = fold (\<lambda>i. fold (\<lambda>q m. if lg_check_c t p i q then vec_store ?w
         (ptr_add (ptr_add C (int (packet_off (ip_b_packet p) (gm_wg_cols t) i * gm_ldc t))) (int (q * gm_wg_rows t * ?w)))
         (\<lambda>x. reg (i * ?ir + (q * ?w + x)) * gm_alpha t) m else m) [0..<?ir div ?w]) [0..<gm_item_cols t] m"
    by (intro fold_cong refl ext) (simp_all add: p_def lg_place_of_simps(3) ac_simps)
  finally show ?thesis
    using packet_stores_wrote [OF p ld lg_check_c_iff [OF p], folded p_def, where f = "\<lambda>i j. reg (i * ?ir + j) * gm_alpha t" and C = C and m = m]
    by simp
qed

section \<open>The blocks of the groups\<close>

definition lg_tiles_per_col :: "'v Gemm \<Rightarrow> nat" where
  "lg_tiles_per_col t = (gm_m t - 1) div lg_big_tile_rows t + 1"

definition lg_block_row :: "'v Gemm \<Rightarrow> nat \<Rightarrow> nat" where
  "lg_block_row t g = g div (tl_rows (gm_tile t) * tl_cols (gm_tile t)) mod lg_tiles_per_col t * tl_rows (gm_tile t)
     + g mod (tl_rows (gm_tile t) * tl_cols (gm_tile t)) mod tl_rows (gm_tile t)"

definition lg_block_col :: "'v Gemm \<Rightarrow> nat \<Rightarrow> nat" where
  "lg_block_col t g = g div (tl_rows (gm_tile t) * tl_cols (gm_tile t)) div lg_tiles_per_col t * tl_cols (gm_tile t)
     + g mod (tl_rows (gm_tile t) * tl_cols (gm_tile t)) div tl_rows (gm_tile t)"

lemma lg_wg_block:
  "lg_wg_row t g = lg_block_row t g * gm_block_rows t"
  "lg_wg_col t g = lg_block_col t g * gm_block_rows t"
  by (simp_all add: lg_wg_row_def lg_wg_col_def lg_block_row_def lg_block_col_def lg_tiles_per_col_def Let_def)

lemma lg_block_inj:
  assumes pos: "0 < tl_rows (gm_tile t)" "0 < tl_cols (gm_tile t)"
    and eq: "lg_block_row t g = lg_block_row t g'" "lg_block_col t g = lg_block_col t g'"
  shows "g = g'"
proof -
  let ?r = "tl_rows (gm_tile t)" and ?c = "tl_cols (gm_tile t)" and ?n = "lg_tiles_per_col t"
  have lt: "x mod (?r * ?c) div ?r < ?c" for x using pos by (simp add: less_mult_imp_div_less mult.commute)
  have r: "g div (?r * ?c) mod ?n = g' div (?r * ?c) mod ?n" "g mod (?r * ?c) mod ?r = g' mod (?r * ?c) mod ?r"
    using arg_cong [OF eq(1), of "\<lambda>x. x div ?r"] arg_cong [OF eq(1), of "\<lambda>x. x mod ?r"] pos(1)
    by (simp_all add: lg_block_row_def)
  have c: "g div (?r * ?c) div ?n = g' div (?r * ?c) div ?n" "g mod (?r * ?c) div ?r = g' mod (?r * ?c) div ?r"
    using arg_cong [OF eq(2), of "\<lambda>x. x div ?c"] arg_cong [OF eq(2), of "\<lambda>x. x mod ?c"] pos(2) lt [of g] lt [of g']
    by (simp_all add: lg_block_col_def)
  have "g div (?r * ?c) = g' div (?r * ?c)" using r(1) c(1) by (metis div_mult_mod_eq)
  moreover have "g mod (?r * ?c) = g' mod (?r * ?c)" using r(2) c(2) by (metis div_mult_mod_eq)
  ultimately show ?thesis by (metis div_mult_mod_eq)
qed

lemma lg_block_cover:
  assumes pos: "0 < tl_rows (gm_tile t)" "0 < tl_cols (gm_tile t)" "0 < gm_block_rows t" "0 < gm_block_cols t"
    and xy: "x * gm_block_rows t < gm_m t" "y * gm_block_cols t < gm_n t"
  shows "\<exists>g < lg_get_workgroup_cluster t. lg_block_row t g = x \<and> lg_block_col t g = y"
proof -
  let ?r = "tl_rows (gm_tile t)" and ?c = "tl_cols (gm_tile t)" and ?n = "lg_tiles_per_col t"
    and ?k = "(gm_n t - 1) div lg_big_tile_cols t + 1"
  have "x div ?r * lg_big_tile_rows t \<le> x * gm_block_rows t" "y div ?c * lg_big_tile_cols t \<le> y * gm_block_cols t"
    unfolding lg_big_tile_rows_def lg_big_tile_cols_def mult.assoc [symmetric] by (intro mult_le_mono1 div_times_less_eq_dividend)+
  then have "x div ?r * lg_big_tile_rows t < gm_m t" "y div ?c * lg_big_tile_cols t < gm_n t"
    using xy by (simp_all only: le_less_trans)
  moreover have "0 < lg_big_tile_rows t" "0 < lg_big_tile_cols t" using pos by (simp_all add: lg_big_tile_rows_def lg_big_tile_cols_def)
  ultimately have tile: "x div ?r < ?n" "y div ?c < ?k" unfolding lg_tiles_per_col_def by (blast intro: div_below_cdiv)+
  define id where "id = y div ?c * ?n + x div ?r"
  define loc where "loc = y mod ?c * ?r + x mod ?r"
  have id: "id < ?k * ?n" "id div ?n = y div ?c" "id mod ?n = x div ?r"
    using reg_index [OF tile] by (simp_all add: id_def)
  have "x mod ?r < ?r" "y mod ?c < ?c" using pos by simp_all
  note loc = reg_index [OF this, folded loc_def]
  have "loc < ?r * ?c" using loc(1) by (simp add: mult.commute)
  note g = reg_index [OF this id(1)]
  have "lg_get_workgroup_cluster t = ?k * ?n * (?r * ?c)"
    by (simp add: lg_get_workgroup_cluster_def lg_tiles_per_col_def algebra_simps)
  moreover have "lg_block_row t (id * (?r * ?c) + loc) = x" "lg_block_col t (id * (?r * ?c) + loc) = y"
    unfolding lg_block_row_def lg_block_col_def g(2,3) id(2,3) loc(2,3) by simp_all
  ultimately show ?thesis using g(1) by metis
qed

interpretation lgl: block_layout "\<lambda>t :: 'v::zero Gemm. lg_ok v s t" lg_get_workgroup_cluster lg_block_row lg_block_col "lg_place_of v"
  for v s
proof unfold_locales
  fix t :: "'v Gemm" and g g' l x y :: nat
  show "ip_a_packet (lg_place_of v t g l) = ip_a_packet (lg_place_of v t g 0) \<and>
      ip_b_packet (lg_place_of v t g l) = ip_b_packet (lg_place_of v t g 0)"
    by (simp add: lg_place_of_simps)
  assume ok: "lg_ok v s t"
  note okD = lg_okD [OF ok]
  have tl: "0 < tl_rows (gm_tile t)" "0 < tl_cols (gm_tile t)" using ok by (simp_all add: lg_ok_def)
  show "0 < gm_item_rows t \<and> 0 < gm_item_cols t \<and> 0 < gm_wg_rows t \<and> 0 < gm_wg_cols t" using ok by (simp add: lg_ok_def)
  then show "0 < ip_a_packet (lg_place_of v t g l) \<and> gm_item_rows t mod ip_a_packet (lg_place_of v t g l) = 0 \<and>
      0 < ip_b_packet (lg_place_of v t g l) \<and> gm_item_cols t mod ip_b_packet (lg_place_of v t g l) = 0"
    using lg_packet [OF ok, of g l] by (simp add: lg_place_of_simps(3))
  show "ip_dim_m (lg_place_of v t g l) = l mod gm_wg_rows t * ip_a_packet (lg_place_of v t g l) + lg_block_row t g * gm_block_rows t"
    "ip_dim_n (lg_place_of v t g l) = l div gm_wg_rows t * ip_b_packet (lg_place_of v t g l) + lg_block_col t g * gm_block_cols t"
    using okD(12) by (simp_all add: lg_place_of_simps(3-5) lg_wg_block)
  show "lg_block_row t g * gm_block_rows t + gm_block_rows t \<le> gm_m t \<and> lg_block_col t g * gm_block_cols t + gm_block_cols t \<le> gm_n t"
    if "\<not> ip_check (lg_place_of v t g l)"
    using that okD(2,3,12) by (simp add: lg_place_of_simps(1) lg_wg_block) linarith
  show "g = g'" if "lg_block_row t g = lg_block_row t g'" "lg_block_col t g = lg_block_col t g'"
    by (rule lg_block_inj [OF tl that])
  show "\<exists>g < lg_get_workgroup_cluster t. lg_block_row t g = x \<and> lg_block_col t g = y"
    if "x * gm_block_rows t < gm_m t" "y * gm_block_cols t < gm_n t"
    by (rule lg_block_cover [OF tl okD(2,3) that])
qed

section \<open>One matrix of the batch\<close>

text \<open>What a group computes: its tile of the product, as a whole.\<close>

definition lg_tile :: "bool \<Rightarrow> 'v Gemm \<Rightarrow> nat \<Rightarrow> (nat \<times> nat) set" where
  "lg_tile v t g = (\<Union>l < gm_wg_size t. place_tile (lg_place_of v) t (g * gm_wg_size t + l))"

definition lg_body ::
  "bool \<Rightarrow> 'v::{comm_monoid_add, times} Gemm \<Rightarrow> nat \<Rightarrow> addr \<Rightarrow> addr \<Rightarrow> addr \<Rightarrow> 'v mem \<Rightarrow> 'v mem" where
  "lg_body v t g A B C m = (\<lambda>d. if d \<in> tile_cells (gm_ldc t) (lg_tile v t g) C
     then gm_elem t A B C m (nat (snd d - snd C) mod gm_ldc t) (nat (snd d - snd C) div gm_ldc t) else m d)"

lemma lg_item:
  assumes "l < gm_wg_size t"
  shows "place_item place t (g * gm_wg_size t + l) = place t g l"
  using assms by (simp add: place_item_def)

lemma lg_tile_bounds: "(i, j) \<in> lg_tile v t g \<Longrightarrow> i < gm_m t \<and> j < gm_n t"
  by (auto simp: lg_tile_def place_tile_def ip_in_def Let_def)

lemma lg_elem_cells_inj:
  assumes "gm_m t \<le> gm_ldc t"
  shows "inj_on (\<lambda>(i, j). ptr_add C (int (i + j * gm_ldc t))) {(i, j). i < gm_m t \<and> j < gm_n t}"
proof (rule inj_onI, clarify)
  fix i j i' j' assume ij: "i < gm_m t" "j < gm_n t" "i' < gm_m t" "j' < gm_n t"
    "ptr_add C (int (i + j * gm_ldc t)) = ptr_add C (int (i' + j' * gm_ldc t))"
  then have "i + gm_ldc t * j = i' + gm_ldc t * j'" by (simp only: ptr_add_inject of_nat_eq_iff mult.commute)
  then show "i = i' \<and> j = j'" using ij(1,3) assms by (intro ld_index_inj) auto
qed

lemma lg_body_eq:
  assumes ld: "gm_m t \<le> gm_ldc t"
    and w: "wrote (\<lambda>(i, j). ptr_add C (int (i + j * gm_ldc t))) (lg_tile v t g) (\<lambda>(i, j). gm_elem t A B C m i j) m m'"
  shows "m' = lg_body v t g A B C m"
proof (rule ext)
  fix d
  show "m' d = lg_body v t g A B C m d"
  proof (cases "d \<in> tile_cells (gm_ldc t) (lg_tile v t g) C")
    case True
    then obtain i j where ij: "(i, j) \<in> lg_tile v t g" "d = ptr_add C (int (i + j * gm_ldc t))" by (auto simp: tile_cells_def)
    have i: "i < gm_ldc t" using lg_tile_bounds [OF ij(1)] ld by simp
    have "nat (snd d - snd C) = i + j * gm_ldc t" unfolding ij(2) by (cases C) (simp del: of_nat_add of_nat_mult)
    then have "nat (snd d - snd C) mod gm_ldc t = i" "nat (snd d - snd C) div gm_ldc t = j" using i by simp_all
    then show ?thesis using w ij True unfolding wrote_def lg_body_def by fastforce
  next
    case False
    then have "d \<notin> (\<lambda>(i, j). ptr_add C (int (i + j * gm_ldc t))) ` lg_tile v t g" by (auto simp: tile_cells_def)
    then have "m' d = m d" using w unfolding wrote_def by blast
    then show ?thesis using False by (simp add: lg_body_def)
  qed
qed

text \<open>The stores of all items.\<close>

lemma lg_ptr_C_base: "lg_ptr_C t p C = ip_base t p C"
  by (simp add: lg_ptr_C_def ip_base_def)

lemma lg_item_sound:
  assumes "lg_ok v s t" "gm_wf t" "g < lg_get_workgroup_cluster t" "l < gm_wg_size t"
  shows "ip_sound t (lg_place_of v t g l)"
proof -
  have "g * gm_wg_size t + l < gm_wg_size t * lg_get_workgroup_cluster t"
    using reg_index(1) [OF assms(4,3)] by (simp add: mult.commute)
  then show ?thesis using lgl.item_sound [OF assms(1,2)] assms(4) by (metis lg_item)
qed

lemma lg_store_tile:
  fixes t :: "'v::comm_monoid_mult Gemm"
  assumes p: "ip_sound t (lg_place_of v t g l)" and range: "\<not> ip_out_of_range (lg_place_of v t g l)" and ld: "gm_m t \<le> gm_ldc t"
    and l: "l < gm_wg_size t"
    and val: "\<And>i j. (i, j) \<in> ip_in t (lg_place_of v t g l) \<Longrightarrow> reg (i * gm_item_rows t + j) * gm_alpha t
      = f (ip_row t (lg_place_of v t g l) j) (ip_col t (lg_place_of v t g l) i)"
  shows "wrote (\<lambda>(i, j). ptr_add C (int (i + j * gm_ldc t))) (place_tile (lg_place_of v) t (g * gm_wg_size t + l)) (\<lambda>(i, j). f i j) m
     (lg_store_output t (lg_place_of v t g l) reg (lg_ptr_C t (lg_place_of v t g l) C) m)"
  unfolding place_tile_def lg_item [OF l] Let_def lg_ptr_C_base
  by (rule wrote_reindex, rule wrote_cong [OF lg_store_wrote [OF p range ld]]) (auto simp: ip_cell_base val)

lemma lg_blocks_quiet: "c \<in> set (fst (lg_blocks v s u t g k A B sy)) \<Longrightarrow> \<not> stores c"
proof (induction v s u t g k A B sy arbitrary: c rule: lg_blocks.induct)
  case (1 v s u t g k A B sy)
  have block: "c \<in> set (lg_block v s u t g chk k A B sy) \<Longrightarrow> \<not> stores c" for chk
    by (auto simp: lg_block_def lg_sync_cmds_def split: if_splits)
  consider "0 < lg_cl_elems s t \<and> lg_cl_elems s t \<le> k" | "lg_cl_elems s t = 0" "0 < k" | "0 < k" "k < lg_cl_elems s t" | "k = 0"
    by linarith
  then show ?case
  proof cases
    case 1
    then show ?thesis
      using "1.prems" block [of False] "1.IH" [OF refl 1, of c]
      by (auto simp: lg_blocks_step [OF conjunct1 [OF 1] conjunct2 [OF 1]])
  next
    case 2
    then show ?thesis using "1.prems" block [of True] by (subst (asm) lg_blocks.simps) (simp add: Let_def)
  qed (use "1.prems" block [of True] in \<open>simp_all add: lg_blocks_rest lg_blocks_0\<close>)
qed

text \<open>One pass of the loop over the batch.\<close>

definition lg_pass ::
  "bool \<Rightarrow> nat \<Rightarrow> (nat \<Rightarrow> 'v) \<Rightarrow> 'v::{zero, plus, times, divide} Gemm \<Rightarrow> nat \<Rightarrow> addr \<Rightarrow> addr \<Rightarrow> addr \<Rightarrow> lg_sync \<Rightarrow> 'v lg_cmd list" where
  "lg_pass v s u t g A B C sy =
     Priv (\<lambda>l m _ _. lg_scaling_c t (lg_place_of v t g l) m (lg_ptr_C t (lg_place_of v t g l) C) u) #
     fst (lg_blocks v s u t g (gm_k t) A B sy) @
     [Mem (\<lambda>l m _ reg_res. lg_store_output t (lg_place_of v t g l) reg_res (lg_ptr_C t (lg_place_of v t g l) C) m)]"

lemma lg_pass_idle:
  assumes "ip_out_of_range (lg_place_of v t g 0)"
  shows "gs_mem (run_cmds ord n (lg_pass v s u t g A B C sy) gs) = gs_mem gs"
proof -
  have "lg_store_output t (lg_place_of v t g l) reg c m = m" for l reg c and m :: "'a mem"
    using assms lg_packet_group(3) [of v t g l] by (simp add: lg_store_output_def)
  then have "fold (\<lambda>l m. lg_store_output t (lg_place_of v t g l) (p l) (lg_ptr_C t (lg_place_of v t g l) C) m) xs m = m" for xs p and m :: "'a mem"
    by (induction xs) simp_all
  then show ?thesis
    by (simp add: lg_pass_def run_cmds_append fold_exec_Mem run_cmds_quiet lg_blocks_quiet fold_exec_quiet del: fold.simps)
qed

lemma lg_pass_run:
  fixes t :: "'v::field Gemm"
  assumes ok: "lg_ok v s t" "gm_wf t" "g < lg_get_workgroup_cluster t" and ord: "item_orders (gm_wg_size t) ord" and sy: "lg_sync_ok s t sy"
  shows "gs_mem (run_cmds ord n (lg_pass v s u t g A B C sy) gs) = lg_body v t g A B C (gs_mem gs)"
proof (cases "ip_out_of_range (lg_place_of v t g 0)")
  case True
  then have "place_tile (lg_place_of v) t (g * gm_wg_size t + l) = {}" if "l < gm_wg_size t" for l
    using lg_packet_group(3) [of v t g l] that
    by (auto simp: place_tile_def lg_item ip_in_def ip_row_def ip_col_def lg_place_of_simps(4-6))
  then have "lg_tile v t g = {}" by (simp add: lg_tile_def)
  then show ?thesis using lg_pass_idle [OF True] by (simp add: lg_body_def tile_cells_def)
next
  case False
  then have range: "\<not> ip_out_of_range (lg_place_of v t g l)" for l using lg_packet_group(3) [of v t g l] by simp
  have ld: "gm_m t \<le> gm_ldc t" using ok(2) by (simp add: gm_wf_def)
  let ?p = "lg_place_of v t g" and ?m = "gs_mem gs"
  let ?gs1 = "gs\<lparr>gs_priv := (\<lambda>l. if l < gm_wg_size t then lg_scaling_c t (?p l) ?m (lg_ptr_C t (?p l) C) u else gs_priv gs l)\<rparr>"
  define gs2 where "gs2 = run_cmds ord n (fst (lg_blocks v s u t g (gm_k t) A B sy)) ?gs1"
  have gs2: "lg_added v t g (gm_k t) A B ?gs1 gs2"
    unfolding gs2_def by (rule lg_blocks_run [OF ok(1) False ord sy])
  have run: "gs_mem (run_cmds ord n (lg_pass v s u t g A B C sy) gs) =
      fold (\<lambda>l m. lg_store_output t (?p l) (gs_priv gs2 l) (lg_ptr_C t (?p l) C) m)
        (ord (n + barriers (fst (lg_blocks v s u t g (gm_k t) A B sy)))) ?m"
    using gs2
    by (simp add: lg_pass_def run_cmds_append fold_exec_Mem fold_exec_Priv [OF item_ordersD [OF ord]] gs2_def lg_added_def cong: if_cong)
  have reg: "gs_priv gs2 l (i * gm_item_rows t + j) * gm_alpha t = gm_elem t A B C ?m (ip_row t (?p l) j) (ip_col t (?p l) i)"
    if l: "l < gm_wg_size t" and ij: "(i, j) \<in> ip_in t (?p l)" for l i j
  proof -
    have x: "i * gm_item_rows t + j < gm_item_cols t * gm_item_rows t" "(i * gm_item_rows t + j) div gm_item_rows t = i"
      "(i * gm_item_rows t + j) mod gm_item_rows t = j"
      using reg_index [of j "gm_item_rows t" i "gm_item_cols t"] ij by (simp_all add: ip_in_def)
    have cell: "ip_cell t (?p l) (lg_ptr_C t (?p l) C) (i, j) = ptr_add C (int (ip_row t (?p l) j + ip_col t (?p l) i * gm_ldc t))"
      by (simp add: lg_ptr_C_base ip_cell_base)
    have "gs_priv gs2 l (i * gm_item_rows t + j) = lg_scaling_c t (?p l) ?m (lg_ptr_C t (?p l) C) u (i * gm_item_rows t + j) +
        lg_product t (gm_k t) A B ?m (ip_row t (?p l) j) (ip_col t (?p l) i)"
      using gs2 l ij unfolding lg_added_def by fastforce
    also have "lg_scaling_c t (?p l) ?m (lg_ptr_C t (?p l) C) u (i * gm_item_rows t + j) =
        (if beta_zero (gm_cfg t) then 0 else gm_stored_beta t * ?m (ptr_add C (int (ip_row t (?p l) j + ip_col t (?p l) i * gm_ldc t))))"
      unfolding lg_scaling_eq [OF lg_item_sound [OF ok l] range] x(2,3) cell using x(1) ij by simp
    finally show ?thesis
      using ok(1) by (simp add: gm_elem_def gm_stored_beta_def lg_ok_def field_simps)
  qed
  have "wrote (\<lambda>(i, j). ptr_add C (int (i + j * gm_ldc t)))
      (\<Union>l \<in> set (ord k). place_tile (lg_place_of v) t (g * gm_wg_size t + l)) (\<lambda>(i, j). gm_elem t A B C ?m i j) ?m
      (fold (\<lambda>l m. lg_store_output t (?p l) (gs_priv gs2 l) (lg_ptr_C t (?p l) C) m) (ord k) ?m)" for k
  proof (rule fold_wrote [OF lg_elem_cells_inj [OF ld]])
    fix l m assume "l \<in> set (ord k)"
    then have l: "l < gm_wg_size t" using item_ordersD(2) [OF ord] by simp
    show "wrote (\<lambda>(i, j). ptr_add C (int (i + j * gm_ldc t))) (place_tile (lg_place_of v) t (g * gm_wg_size t + l))
      (\<lambda>(i, j). gm_elem t A B C ?m i j) m (lg_store_output t (?p l) (gs_priv gs2 l) (lg_ptr_C t (?p l) C) m)"
      by (rule lg_store_tile [OF lg_item_sound [OF ok l] range ld l]) (rule reg [OF l])
  qed (auto simp: place_tile_def ip_in_def Let_def)
  then show ?thesis
    unfolding run by (intro lg_body_eq [OF ld]) (simp add: lg_tile_def item_ordersD(2) [OF ord])
qed

end
