(* ===== verification/Gemm_Local_Races.thy ===== *)
theory Gemm_Local_Races
  imports Gemm_Local_Group
begin

text \<open>
  The program of a group has no races. Commands that no barrier separates, and the same command run by two items, work on
  an item's own registers, on cells of \<open>C\<close> that no other item stores, on the part of local memory that the item copies, or on
  different halves of local memory. For the same reasons the commands commute between items.
\<close>

section \<open>What commutes\<close>

text \<open>The commands of the items, by what they touch. The matrices of the batch start at \<open>C0\<close>.\<close>

abbreviation lg_scale_cmd :: "bool \<Rightarrow> (nat \<Rightarrow> 'v) \<Rightarrow> 'v::{zero, times, divide} Gemm \<Rightarrow> nat \<Rightarrow> addr \<Rightarrow> 'v lg_cmd" where
  "lg_scale_cmd v u t g C \<equiv> Priv (\<lambda>l m _ _. lg_scaling_c t (lg_place_of v t g l) m (lg_ptr_C t (lg_place_of v t g l) C) u)"

abbreviation lg_store_cmd :: "bool \<Rightarrow> 'v::times Gemm \<Rightarrow> nat \<Rightarrow> addr \<Rightarrow> 'v lg_cmd" where
  "lg_store_cmd v t g C \<equiv> Mem (\<lambda>l m _ reg_res. lg_store_output t (lg_place_of v t g l) reg_res (lg_ptr_C t (lg_place_of v t g l) C) m)"

definition lg_registers_cmds :: "bool \<Rightarrow> (nat \<Rightarrow> 'v) \<Rightarrow> 'v::{zero, times, divide} Gemm \<Rightarrow> nat \<Rightarrow> addr \<Rightarrow> 'v lg_cmd set" where
  "lg_registers_cmds v u t g C0 =
     {lg_scale_cmd v u t g (ptr_add C0 (int q * gm_c_size t)) |q. True} \<union> {lg_store_cmd v t g (ptr_add C0 (int q * gm_c_size t)) |q. True}"

definition lg_copy_cmds :: "bool \<Rightarrow> nat \<Rightarrow> 'v::zero Gemm \<Rightarrow> nat \<Rightarrow> addr \<Rightarrow> lg_sync \<Rightarrow> 'v lg_cmd set" where
  "lg_copy_cmds v s t g C0 sy = {Local (\<lambda>l m loc _. lg_extract v s t g check_k k A B sy l m loc) |check_k k A B.
     (\<not> check_k \<longrightarrow> lg_cl_elems s t \<le> k) \<and> fst A \<noteq> fst C0 \<and> fst B \<noteq> fst C0}"

text \<open>Two items of a group never store the same element.\<close>

lemma lg_items_apart:
  assumes ok: "lg_ok v s t" "gm_wf t" "g < lg_get_workgroup_cluster t" and kl: "k < gm_wg_size t" "l < gm_wg_size t" "k \<noteq> l"
  shows "ip_cell t (lg_place_of v t g k) (lg_ptr_C t (lg_place_of v t g k) (ptr_add C0 (int q * gm_c_size t))) ` ip_in t (lg_place_of v t g k) \<inter>
     ip_cell t (lg_place_of v t g l) (lg_ptr_C t (lg_place_of v t g l) (ptr_add C0 (int q' * gm_c_size t))) ` ip_in t (lg_place_of v t g l) = {}"
proof (rule ccontr)
  let ?p = "lg_place_of v t g" and ?W = "gm_wg_size t"
  assume "\<not> ?thesis"
  then obtain x y where xy: "x \<in> ip_in t (?p k)" "y \<in> ip_in t (?p l)"
    "ip_cell t (?p k) (lg_ptr_C t (?p k) (ptr_add C0 (int q * gm_c_size t))) x
     = ip_cell t (?p l) (lg_ptr_C t (?p l) (ptr_add C0 (int q' * gm_c_size t))) y" by blast
  obtain i j where x: "x = (i, j)" by (cases x)
  obtain i' j' where y: "y = (i', j')" by (cases y)
  note ij = xy [unfolded x y]
  have cell: "ip_cell t (?p x) (lg_ptr_C t (?p x) (ptr_add C0 (int y * gm_c_size t))) (a, b)
      = batch_cell C0 (gm_ldc t * gm_n t) (gm_ldc t) y (ip_row t (?p x) b) (ip_col t (?p x) a)" for x y a b
    by (simp add: lg_ptr_C_base ip_cell_base batch_cell_def gm_c_size_def algebra_simps)
  have "ip_row t (?p k) j < gm_m t" "ip_row t (?p l) j' < gm_m t" "ip_col t (?p k) i < gm_n t" "ip_col t (?p l) i' < gm_n t"
    using ij(1,2) by (simp_all add: ip_in_def)
  then have "ip_row t (?p k) j = ip_row t (?p l) j'" "ip_col t (?p k) i = ip_col t (?p l) i'"
    using batch_cell_inj [OF _ _ _ _ ij(3) [unfolded cell]] ok(2) by (simp_all add: gm_wf_def)
  then have "(ip_row t (?p k) j, ip_col t (?p k) i) \<in> place_tile (lg_place_of v) t (g * ?W + k) \<inter> place_tile (lg_place_of v) t (g * ?W + l)"
    using ij(1,2) kl by (force simp: place_tile_def lg_item Let_def)
  moreover have "place_tile (lg_place_of v) t (g * ?W + k) \<inter> place_tile (lg_place_of v) t (g * ?W + l) = {}"
    using reg_index(1) [OF kl(1) ok(3)] reg_index(1) [OF kl(2) ok(3)] kl(3)
    by (intro lgl.tile_disjoint [OF ok(1,2)]) (simp_all add: mult.commute)
  ultimately show False by blast
qed

lemma lg_store_frame:
  fixes t :: "'v::field Gemm"
  assumes ok: "lg_ok v s t" "gm_wf t" "g < lg_get_workgroup_cluster t" "l < gm_wg_size t"
  shows "d \<notin> ip_cell t (lg_place_of v t g l) (lg_ptr_C t (lg_place_of v t g l) C) ` ip_in t (lg_place_of v t g l) \<Longrightarrow>
      lg_store_output t (lg_place_of v t g l) reg (lg_ptr_C t (lg_place_of v t g l) C) m d = m d"
    and "fst d \<noteq> fst C \<Longrightarrow> lg_store_output t (lg_place_of v t g l) reg (lg_ptr_C t (lg_place_of v t g l) C) m d = m d"
proof -
  show frame: "lg_store_output t (lg_place_of v t g l) reg (lg_ptr_C t (lg_place_of v t g l) C) m d = m d"
    if "d \<notin> ip_cell t (lg_place_of v t g l) (lg_ptr_C t (lg_place_of v t g l) C) ` ip_in t (lg_place_of v t g l)" for d
  proof (cases "ip_out_of_range (lg_place_of v t g l)")
    case False
    then show ?thesis
      using lg_store_wrote [OF lg_item_sound [OF ok] False, of "lg_ptr_C t (lg_place_of v t g l) C" reg m] ok(2) that
      unfolding wrote_def gm_wf_def by blast
  qed (simp add: lg_store_output_def)
  show "lg_store_output t (lg_place_of v t g l) reg (lg_ptr_C t (lg_place_of v t g l) C) m d = m d" if "fst d \<noteq> fst C"
    using that by (intro frame) (auto simp: ip_cell_def lg_ptr_C_def)
qed

lemma lg_registers_commute:
  fixes t :: "'v::field Gemm"
  assumes ok: "lg_ok v s t" "gm_wf t" "g < lg_get_workgroup_cluster t"
    and cd: "c \<in> lg_registers_cmds v u t g C0" "d \<in> lg_registers_cmds v u t g C0"
  shows "commute (gm_wg_size t) c d"
proof -
  let ?p = "lg_place_of v t g" and ?C = "\<lambda>q. ptr_add C0 (int q * gm_c_size t)"
  have scale_store: "lg_scaling_c t (?p l) (lg_store_output t (?p k) reg (lg_ptr_C t (?p k) (?C q')) m) (lg_ptr_C t (?p l) (?C q)) u
      = lg_scaling_c t (?p l) m (lg_ptr_C t (?p l) (?C q)) u"
    if kl: "k < gm_wg_size t" "l < gm_wg_size t" "k \<noteq> l" for k l q q' reg m
  proof (cases "ip_out_of_range (?p l)")
    case True
    then show ?thesis by (simp add: lg_scaling_c_def)
  next
    case False
    have "lg_store_output t (?p k) reg (lg_ptr_C t (?p k) (?C q')) m (ip_cell t (?p l) (lg_ptr_C t (?p l) (?C q)) x)
        = m (ip_cell t (?p l) (lg_ptr_C t (?p l) (?C q)) x)" if "x \<in> ip_in t (?p l)" for x
      by (rule lg_store_frame(1) [OF ok kl(1)]) (use lg_items_apart [OF ok kl, of C0 q' q] that in blast)
    then show ?thesis
      unfolding lg_scaling_eq [OF lg_item_sound [OF ok kl(2)] False] by (intro ext) simp
  qed
  have store_store: "lg_store_output t (?p k) reg (lg_ptr_C t (?p k) (?C q')) (lg_store_output t (?p l) reg' (lg_ptr_C t (?p l) (?C q)) m)
      = lg_store_output t (?p l) reg' (lg_ptr_C t (?p l) (?C q)) (lg_store_output t (?p k) reg (lg_ptr_C t (?p k) (?C q')) m)"
    if kl: "k < gm_wg_size t" "l < gm_wg_size t" "k \<noteq> l" for k l q q' reg reg' m
  proof (cases "ip_out_of_range (?p 0)")
    case True
    then show ?thesis using lg_packet_group(3) [of v t g k] lg_packet_group(3) [of v t g l] by (simp add: lg_store_output_def)
  next
    case False
    then have range: "\<not> ip_out_of_range (?p x)" for x using lg_packet_group(3) [of v t g x] by simp
    have ld: "gm_m t \<le> gm_ldc t" using ok(2) by (simp add: gm_wf_def)
    show ?thesis
      by (rule wrote_commute [OF lg_store_wrote [OF lg_item_sound [OF ok kl(2)] range ld]
            lg_store_wrote [OF lg_item_sound [OF ok kl(1)] range ld]])
        (use lg_items_apart [OF ok kl(2,1)] kl(3) in simp)
  qed
  have "commute (gm_wg_size t) (lg_scale_cmd v u t g (?C q)) (lg_store_cmd v t g (?C q'))"
    "commute (gm_wg_size t) (lg_store_cmd v t g (?C q')) (lg_scale_cmd v u t g (?C q))"
    "commute (gm_wg_size t) (lg_store_cmd v t g (?C q)) (lg_store_cmd v t g (?C q'))" for q q'
    by (rule commute_Priv_Mem, rule scale_store, assumption+) (rule commute_Priv_Mem commute_Mem_Mem, rule scale_store store_store, assumption+)+
  then show ?thesis
    using cd unfolding lg_registers_cmds_def by (elim UnE CollectE exE conjE; hypsubst) (rule commute_Priv_Priv | assumption | blast)+
qed

text \<open>What is copied does not lie in \<open>C\<close>.\<close>

lemma lg_extract_mem:
  assumes ok: "lg_ok v s t" and sy: "lg_sync_ok s t sy" and l: "l < gm_wg_size t" and k: "\<not> check_k \<longrightarrow> lg_cl_elems s t \<le> k"
    and AB: "fst A \<noteq> b" "fst B \<noteq> b" and m: "\<And>d. fst d \<noteq> b \<Longrightarrow> m' d = m d"
  shows "lg_extract v s t g check_k k A B sy l m' loc = lg_extract v s t g check_k k A B sy l m loc"
proof (cases "ip_out_of_range (lg_place_of v t g l)")
  case True
  then show ?thesis by (simp add: lg_extract_def Let_def)
next
  case False
  have "lg_a_elem t g k A m' = lg_a_elem t g k A m" "lg_b_elem t g k B m' = lg_b_elem t g k B m"
    using AB by (simp_all add: fun_eq_iff lg_a_elem_def lg_b_elem_def m operand_cell_def batch_cell_def)
  then have "lg_ab_val s t g k A B m' = lg_ab_val s t g k A B m" by (simp only: lg_ab_val_def)
  then show ?thesis
    using lg_extract_wrote [OF ok sy l _ False, of check_k k A B m' loc] lg_extract_wrote [OF ok sy l _ False, of check_k k A B m loc] k
    by (intro wrote_unique) simp_all
qed

lemma lg_copy_registers_commute:
  fixes t :: "'v::field Gemm"
  assumes ok: "lg_ok v s t" "gm_wf t" "g < lg_get_workgroup_cluster t" and sy: "lg_sync_ok s t sy"
    and cd: "c \<in> lg_registers_cmds v u t g C0" "d \<in> lg_copy_cmds v s t g C0 sy"
  shows "commute (gm_wg_size t) c d"
proof -
  obtain check_k k A B where d: "d = Local (\<lambda>l m loc _. lg_extract v s t g check_k k A B sy l m loc)" "\<not> check_k \<longrightarrow> lg_cl_elems s t \<le> k"
    "fst A \<noteq> fst C0" "fst B \<noteq> fst C0" using cd(2) unfolding lg_copy_cmds_def by blast
  have store: "lg_extract v s t g check_k k A B sy l (lg_store_output t (lg_place_of v t g x) reg (lg_ptr_C t (lg_place_of v t g x) (ptr_add C0 y)) m) f
      = lg_extract v s t g check_k k A B sy l m f"
    if "l < gm_wg_size t" "x < gm_wg_size t" for l x reg y m f
    by (rule lg_extract_mem [OF ok(1) sy that(1) d(2-4)]) (simp add: lg_store_frame(2) [OF ok that(2)])
  consider q where "c = lg_scale_cmd v u t g (ptr_add C0 (int q * gm_c_size t))" | q where "c = lg_store_cmd v t g (ptr_add C0 (int q * gm_c_size t))"
    using cd(1) unfolding lg_registers_cmds_def by blast
  then show ?thesis
  proof cases
    case 1
    show ?thesis unfolding 1 d(1) by (rule commute_Priv_Local) (rule refl)
  next
    case 2
    show ?thesis unfolding 2 d(1) by (rule commute_Local_Mem) (simp add: store)
  qed
qed

text \<open>An item multiplies in one half of the buffers while others copy to the other half.\<close>

lemma lg_compute_local:
  fixes t :: "'v::{comm_monoid_add, times} Gemm"
  assumes ok: "lg_ok v s t" and sy: "lg_sync_ok s t sy" and l: "l < gm_wg_size t"
    and loc: "\<And>d. lg_base_A s t sy \<le> d \<Longrightarrow> d < lg_base_A s t sy + lg_cl_elems s t * lg_ldsa t \<Longrightarrow> loc' d = loc d"
      "\<And>d. lg_base_B sy \<le> d \<Longrightarrow> d < lg_base_B sy + gm_block_cols t * lg_ldsb s t \<Longrightarrow> loc' d = loc d"
  shows "lg_compute v s u t g sy l loc' reg = lg_compute v s u t g sy l loc reg"
proof (rule ext)
  fix y
  let ?w = "ip_a_packet (lg_place_of v t g l)" and ?cl = "lg_cl_elems s t" and ?ir = "gm_item_rows t"
  note pk = lg_packet [OF ok, of g l]
  have base: "nat (int (lg_s4 s t ?w l) + snd (snd sy)) = lg_base_A s t sy + l mod gm_wg_rows t * ?w"
    "nat (int (lg_s2 s t l) + fst (snd sy)) = lg_base_B sy + l div gm_wg_rows t * gm_item_cols t * lg_ldsb s t"
    using sy by (auto simp: lg_sync_ok_def lg_s4_def lg_s2_def lg_base_A_def lg_base_B_def nat_add_distrib nat_mult_distrib)
  have cells: "loc' (lg_base_A s t sy + l mod gm_wg_rows t * ?w + packet_off ?w (gm_wg_rows t) (y mod ?ir) + x * lg_ldsa t) =
      loc (lg_base_A s t sy + l mod gm_wg_rows t * ?w + packet_off ?w (gm_wg_rows t) (y mod ?ir) + x * lg_ldsa t)"
    "loc' (lg_base_B sy + l div gm_wg_rows t * gm_item_cols t * lg_ldsb s t + x + y div ?ir * lg_ldsb s t) =
      loc (lg_base_B sy + l div gm_wg_rows t * gm_item_cols t * lg_ldsb s t + x + y div ?ir * lg_ldsb s t)"
    if y: "y < gm_item_cols t * ?ir" and x: "x < ?cl" for x
  proof -
    have "y mod ?ir < ?ir" "y div ?ir < gm_item_cols t" using y by (simp_all add: less_mult_imp_div_less lg_okD) (cases ?ir; simp)
    note rc = lg_offsets(1) [OF ok l this(1), of g] lg_offsets(2) [OF ok l this(2)]
    have "x * lg_ldsa t + (l mod gm_wg_rows t * ?w + packet_off ?w (gm_wg_rows t) (y mod ?ir)) < ?cl * lg_ldsa t"
      using rc(1) by (intro reg_index(1) [OF _ x]) (simp add: lg_ldsa_def)
    then show "loc' (lg_base_A s t sy + l mod gm_wg_rows t * ?w + packet_off ?w (gm_wg_rows t) (y mod ?ir) + x * lg_ldsa t) =
      loc (lg_base_A s t sy + l mod gm_wg_rows t * ?w + packet_off ?w (gm_wg_rows t) (y mod ?ir) + x * lg_ldsa t)"
      by (intro loc(1)) simp_all
    have "(l div gm_wg_rows t * gm_item_cols t + y div ?ir) * lg_ldsb s t + x < gm_block_cols t * lg_ldsb s t"
      using x by (intro reg_index(1) [OF _ rc(2)]) (simp add: lg_ldsb_def)
    then show "loc' (lg_base_B sy + l div gm_wg_rows t * gm_item_cols t * lg_ldsb s t + x + y div ?ir * lg_ldsb s t) =
      loc (lg_base_B sy + l div gm_wg_rows t * gm_item_cols t * lg_ldsb s t + x + y div ?ir * lg_ldsb s t)"
      by (intro loc(2)) (simp_all add: distrib_right)
  qed
  show "lg_compute v s u t g sy l loc' reg y = lg_compute v s u t g sy l loc reg y"
    unfolding lg_compute_def Let_def base lg_compute_block_eq [OF pk(1,5)]
    by (intro if_cong refl arg_cong2 [where f = plus] sum.cong) (simp_all only: cells lessThan_iff)
qed

lemma lg_halves_apart:
  assumes "lg_ok v s t" and sy: "lg_sync_ok s t sy" "lg_sync_ok s t sy'" "sy \<noteq> sy'" and x: "x \<in> lg_ab_region s t" and d: "d = lg_ab_cell s t sy' x"
  shows "\<not> (lg_base_A s t sy \<le> d \<and> d < lg_base_A s t sy + lg_cl_elems s t * lg_ldsa t)"
    "\<not> (lg_base_B sy \<le> d \<and> d < lg_base_B sy + gm_block_cols t * lg_ldsb s t)"
proof -
  note b = lg_bases [OF sy(1)] lg_bases [OF sy(2)]
    and c = lg_ab_cell_bounds(2,3) [OF assms(1) sy(2) x, folded d]
  have halves: "lg_base_A s t sy + lg_cl_elems s t * lg_ldsa t \<le> lg_base_A s t sy' \<or> lg_base_A s t sy' + lg_cl_elems s t * lg_ldsa t \<le> lg_base_A s t sy"
    "lg_base_B sy + gm_block_cols t * lg_ldsb s t \<le> lg_base_B sy' \<or> lg_base_B sy' + gm_block_cols t * lg_ldsb s t \<le> lg_base_B sy"
    using sy by (auto simp: lg_sync_ok_def lg_base_A_def lg_base_B_def nat_add_distrib nat_mult_distrib mult.commute)
  show "\<not> (lg_base_A s t sy \<le> d \<and> d < lg_base_A s t sy + lg_cl_elems s t * lg_ldsa t)"
    using b c halves by (cases "isl x") auto
  show "\<not> (lg_base_B sy \<le> d \<and> d < lg_base_B sy + gm_block_cols t * lg_ldsb s t)"
    using b c halves by (cases "isl x") auto
qed

lemma lg_compute_copy_commute:
  fixes t :: "'v::field Gemm"
  assumes ok: "lg_ok v s t" and sy: "lg_sync_ok s t sy" "lg_sync_ok s t sy'" "sy \<noteq> sy'" and d: "d \<in> lg_copy_cmds v s t g C0 sy'"
  shows "commute (gm_wg_size t) (Priv (\<lambda>l _. lg_compute v s u t g sy l)) d"
proof -
  obtain check_k k A B where d: "d = Local (\<lambda>l m loc _. lg_extract v s t g check_k k A B sy' l m loc)" "\<not> check_k \<longrightarrow> lg_cl_elems s t \<le> k"
    using d unfolding lg_copy_cmds_def by blast
  have frame: "lg_extract v s t g check_k k A B sy' x m f c = f c"
    if "x < gm_wg_size t" "c \<notin> lg_ab_cell s t sy' ` lg_ab_region s t" for x m f c
  proof (cases "ip_out_of_range (lg_place_of v t g x)")
    case True
    then show ?thesis by (simp add: lg_extract_def Let_def)
  next
    case False
    have "lg_ab_part s t w x \<subseteq> lg_ab_region s t" for w by (auto simp: lg_ab_part_def lg_ab_region_def lg_part_def)
    then show ?thesis
      using lg_extract_wrote [OF ok sy(2) that(1) _ False, of check_k k A B m f] d(2) that(2) unfolding wrote_def by blast
  qed
  show ?thesis
    unfolding d(1)
  proof (rule commute_Priv_Local(1))
    fix x l m f reg assume "x < gm_wg_size t" "l < gm_wg_size t"
    then show "lg_compute v s u t g sy l (lg_extract v s t g check_k k A B sy' x m f) reg = lg_compute v s u t g sy l f reg"
      by (intro lg_compute_local [OF ok sy(1)] frame) (use lg_halves_apart [OF ok sy] in blast)+
  qed
qed

section \<open>What the commands touch\<close>

text \<open>Item \<open>l\<close> reads and writes its own cells of \<open>C\<close>, copies its own part of the blocks from other buffers, and reads one half
  of local memory when it multiplies.\<close>

definition lg_item_cells :: "bool \<Rightarrow> 'v Gemm \<Rightarrow> nat \<Rightarrow> addr \<Rightarrow> nat \<Rightarrow> addr set" where
  "lg_item_cells v t g C0 l =
     (\<Union>q. ip_cell t (lg_place_of v t g l) (lg_ptr_C t (lg_place_of v t g l) (ptr_add C0 (int q * gm_c_size t))) ` ip_in t (lg_place_of v t g l))"

definition lg_half :: "nat \<Rightarrow> 'v Gemm \<Rightarrow> lg_sync \<Rightarrow> nat set" where
  "lg_half s t sy = {d. lg_base_A s t sy \<le> d \<and> d < lg_base_A s t sy + lg_cl_elems s t * lg_ldsa t} \<union>
     {d. lg_base_B sy \<le> d \<and> d < lg_base_B sy + gm_block_cols t * lg_ldsb s t}"

lemma wrote_at:
  assumes "wrote a S v m r" "wrote a S v m' r'" "m c = m' c"
  shows "r c = r' c"
  using assms unfolding wrote_def by (cases "c \<in> a ` S") (fastforce, metis)

lemma lg_item_cells_apart:
  assumes "lg_ok v s t" "gm_wf t" "g < lg_get_workgroup_cluster t" "k < gm_wg_size t" "l < gm_wg_size t" "k \<noteq> l"
  shows "lg_item_cells v t g C0 k \<inter> lg_item_cells v t g C0 l = {}"
  using lg_items_apart [OF assms, of C0] unfolding lg_item_cells_def by blast

lemma lg_item_cells_buffer: "lg_item_cells v t g C0 l \<subseteq> {a. fst a = fst C0}"
  by (auto simp: lg_item_cells_def ip_cell_def lg_ptr_C_def)

lemma lg_registers_touch:
  fixes t :: "'v::field Gemm"
  assumes ok: "lg_ok v s t" "gm_wf t" "g < lg_get_workgroup_cluster t" "l < gm_wg_size t" and c: "c \<in> lg_registers_cmds v u t g C0"
  shows "cmd_writes c l \<subseteq> Inr ` lg_item_cells v t g C0 l" "cmd_reads c l \<subseteq> Inr ` lg_item_cells v t g C0 l"
proof -
  let ?p = "lg_place_of v t g l" and ?C = "\<lambda>q. ptr_add C0 (int q * gm_c_size t)"
  have scale: "lg_scaling_c t ?p m (lg_ptr_C t ?p (?C q)) u reg = lg_scaling_c t ?p m' (lg_ptr_C t ?p (?C q)) u reg"
    if m: "\<forall>a \<in> lg_item_cells v t g C0 l. m a = m' a" for m m' q reg
  proof (cases "ip_out_of_range ?p")
    case False
    have "m (ip_cell t ?p (lg_ptr_C t ?p (?C q)) x) = m' (ip_cell t ?p (lg_ptr_C t ?p (?C q)) x)" if "x \<in> ip_in t ?p" for x
      using that by (intro m [rule_format]) (auto simp: lg_item_cells_def)
    then show ?thesis unfolding lg_scaling_eq [OF lg_item_sound [OF ok] False] by simp
  qed (simp add: lg_scaling_c_def)
  have store: "lg_store_output t ?p reg (lg_ptr_C t ?p (?C q)) m a = lg_store_output t ?p reg (lg_ptr_C t ?p (?C q)) m' a"
    if m: "m a = m' a" for m m' q reg a
  proof (cases "ip_out_of_range ?p")
    case False
    have ld: "gm_m t \<le> gm_ldc t" using ok(2) by (simp add: gm_wf_def)
    note w = lg_store_wrote [OF lg_item_sound [OF ok] False ld, of "lg_ptr_C t ?p (?C q)" reg]
    show ?thesis using wrote_at [OF w [of m] w [of m'], of a] m by simp
  qed (simp add: lg_store_output_def m)
  have kept: "lg_store_output t ?p reg (lg_ptr_C t ?p (?C q)) m a = m a" if "a \<notin> lg_item_cells v t g C0 l" for reg q m a
    using that by (intro lg_store_frame(1) [OF ok]) (auto simp: lg_item_cells_def)
  from c consider q where "c = lg_scale_cmd v u t g (?C q)" | q where "c = lg_store_cmd v t g (?C q)"
    unfolding lg_registers_cmds_def by blast
  then have "cmd_writes c l \<subseteq> Inr ` lg_item_cells v t g C0 l \<and> cmd_reads c l \<subseteq> Inr ` lg_item_cells v t g C0 l"
  proof cases
    case 1
    have "cmd_reads c l \<subseteq> Inl ` {} \<union> Inr ` lg_item_cells v t g C0 l"
      unfolding 1 by (rule cmd_reads_Priv) (rule ext, rule scale)
    then show ?thesis by (simp add: 1)
  next
    case 2
    have "cmd_writes c l \<subseteq> Inr ` lg_item_cells v t g C0 l"
      unfolding 2 by (rule cmd_writes_Mem) (rule kept)
    moreover have "cmd_reads c l \<subseteq> Inl ` {} \<union> Inr ` {}"
      unfolding 2 by (rule cmd_reads_Mem) (rule store)
    ultimately show ?thesis by simp
  qed
  then show "cmd_writes c l \<subseteq> Inr ` lg_item_cells v t g C0 l" "cmd_reads c l \<subseteq> Inr ` lg_item_cells v t g C0 l" by simp_all
qed

lemma lg_copy_touch:
  fixes t :: "'v::field Gemm"
  assumes ok: "lg_ok v s t" and sy: "lg_sync_ok s t sy" and l: "l < gm_wg_size t" and d: "d \<in> lg_copy_cmds v s t g C0 sy"
  shows "cmd_writes d l \<subseteq> Inl ` lg_ab_cell s t sy ` lg_ab_part s t (ip_a_packet (lg_place_of v t g 0)) l"
    "cmd_reads d l \<subseteq> Inr ` {a. fst a \<noteq> fst C0}"
proof -
  obtain check_k k A B where d: "d = Local (\<lambda>l m loc _. lg_extract v s t g check_k k A B sy l m loc)" "\<not> check_k \<longrightarrow> lg_cl_elems s t \<le> k"
    "fst A \<noteq> fst C0" "fst B \<noteq> fst C0" using d unfolding lg_copy_cmds_def by blast
  let ?part = "lg_ab_part s t (ip_a_packet (lg_place_of v t g 0)) l"
  have wrote: "wrote (lg_ab_cell s t sy) ?part (lg_ab_val s t g k A B m) f (lg_extract v s t g check_k k A B sy l m f)"
    if "\<not> ip_out_of_range (lg_place_of v t g l)" for m f
    using lg_extract_wrote [OF ok sy l _ that, of check_k k A B m f] d(2) by (simp add: lg_packet_group(1) [of v t g l])
  have "lg_extract v s t g check_k k A B sy l m f x = f x" if x: "x \<notin> lg_ab_cell s t sy ` ?part" for m f x
    using wrote [of m f] x by (cases "ip_out_of_range (lg_place_of v t g l)") (simp add: lg_extract_def Let_def, simp add: wrote_def)
  then show "cmd_writes d l \<subseteq> Inl ` lg_ab_cell s t sy ` ?part"
    unfolding d(1) by (intro cmd_writes_Local)
  have "cmd_reads d l \<subseteq> Inl ` {} \<union> Inr ` {a. fst a \<noteq> fst C0}"
    unfolding d(1)
  proof (rule cmd_reads_Local)
    fix m m' :: "'v mem" and f f' :: "nat \<Rightarrow> 'v" and y assume m: "\<forall>a \<in> {a. fst a \<noteq> fst C0}. m a = m' a" and f: "f y = f' y"
    have "lg_extract v s t g check_k k A B sy l m' f' = lg_extract v s t g check_k k A B sy l m f'"
      by (rule lg_extract_mem [OF ok sy l d(2-4)]) (use m in auto)
    moreover have "lg_extract v s t g check_k k A B sy l m f y = lg_extract v s t g check_k k A B sy l m f' y"
    proof (cases "ip_out_of_range (lg_place_of v t g l)")
      case False
      show ?thesis using wrote_at [OF wrote [OF False, of m f] wrote [OF False, of m f'], of y] f by simp
    qed (simp add: lg_extract_def Let_def f)
    ultimately show "lg_extract v s t g check_k k A B sy l m f y = lg_extract v s t g check_k k A B sy l m' f' y" by simp
  qed
  then show "cmd_reads d l \<subseteq> Inr ` {a. fst a \<noteq> fst C0}" by simp
qed

lemma lg_compute_touch:
  fixes t :: "'v::{comm_monoid_add, times} Gemm"
  assumes "lg_ok v s t" "lg_sync_ok s t sy" "l < gm_wg_size t"
  shows "cmd_reads (Priv (\<lambda>l (_ :: 'v mem). lg_compute v s u t g sy l)) l \<subseteq> Inl ` lg_half s t sy"
proof -
  have "cmd_reads (Priv (\<lambda>l (_ :: 'v mem). lg_compute v s u t g sy l)) l \<subseteq> Inl ` lg_half s t sy \<union> Inr ` {}"
    by (rule cmd_reads_Priv) (rule lg_compute_local [OF assms]; simp add: lg_half_def)
  then show ?thesis by simp
qed

lemma lg_parts_apart:
  assumes "k \<noteq> l"
  shows "lg_ab_part s t w k \<inter> lg_ab_part s t w l = {}" "lg_ab_part s t w k \<subseteq> lg_ab_region s t"
  using assms by (auto simp: lg_ab_part_def lg_ab_region_def lg_part_def)

text \<open>So no two of them race.\<close>

lemma lg_registers_no_conflict:
  fixes t :: "'v::field Gemm"
  assumes ok: "lg_ok v s t" "gm_wf t" "g < lg_get_workgroup_cluster t"
    and cd: "c \<in> lg_registers_cmds v u t g C0" "d \<in> lg_registers_cmds v u t g C0"
  shows "conflict_free (gm_wg_size t) c d"
  by (rule conflict_freeI, (rule lg_registers_touch [OF ok]; (assumption | rule cd))+)
    (use lg_item_cells_apart [OF ok] in blast)

lemma lg_registers_copy_no_conflict:
  fixes t :: "'v::field Gemm"
  assumes ok: "lg_ok v s t" "gm_wf t" "g < lg_get_workgroup_cluster t" and sy: "lg_sync_ok s t sy"
    and cd: "c \<in> lg_registers_cmds v u t g C0" "d \<in> lg_copy_cmds v s t g C0 sy"
  shows "conflict_free (gm_wg_size t) c d"
  by (rule conflict_freeI, (rule lg_registers_touch [OF ok]; (assumption | rule cd))+,
      (rule lg_copy_touch [OF ok(1) sy]; (assumption | rule cd))+)
    (use lg_item_cells_buffer [of v t g C0] in blast)

lemma lg_copy_no_conflict:
  fixes t :: "'v::field Gemm"
  assumes ok: "lg_ok v s t" and sy: "lg_sync_ok s t sy"
    and cd: "c \<in> lg_copy_cmds v s t g C0 sy" "d \<in> lg_copy_cmds v s t g C0 sy"
  shows "conflict_free (gm_wg_size t) c d"
proof (rule conflict_freeI, (rule lg_copy_touch [OF ok sy]; (assumption | rule cd))+)
  fix k l assume "k < gm_wg_size t" "l < gm_wg_size t" "k \<noteq> l"
  let ?w = "ip_a_packet (lg_place_of v t g 0)" and ?a = "lg_ab_cell s t sy"
  have "?a ` lg_ab_part s t ?w k \<inter> ?a ` lg_ab_part s t ?w l = ?a ` (lg_ab_part s t ?w k \<inter> lg_ab_part s t ?w l)"
    by (rule inj_on_image_Int [OF lg_ab_cell_inj [OF ok sy], symmetric]) (rule lg_parts_apart(2) [OF \<open>k \<noteq> l\<close>], rule lg_parts_apart(2) [OF \<open>k \<noteq> l\<close> [symmetric]])
  then have "?a ` lg_ab_part s t ?w k \<inter> ?a ` lg_ab_part s t ?w l = {}" using lg_parts_apart(1) [OF \<open>k \<noteq> l\<close>] by simp
  then show "Inl ` ?a ` lg_ab_part s t ?w k \<inter> (Inl ` ?a ` lg_ab_part s t ?w l \<union> Inr ` {a. fst a \<noteq> fst C0}) = {} \<and>
    Inr ` {a. fst a \<noteq> fst C0} \<inter> Inl ` ?a ` lg_ab_part s t ?w l = {}" by blast
qed

lemma lg_compute_no_conflict:
  fixes t :: "'v::field Gemm" and u :: "nat \<Rightarrow> 'v" and v :: bool and s g :: nat and sy :: lg_sync
  assumes ok: "lg_ok v s t" "gm_wf t" "g < lg_get_workgroup_cluster t" and sy: "lg_sync_ok s t sy"
  defines "c \<equiv> Priv (\<lambda>l (_ :: 'v mem). lg_compute v s u t g sy l)"
  shows "conflict_free (gm_wg_size t) c c"
    "d \<in> lg_registers_cmds v u t g C0 \<Longrightarrow> conflict_free (gm_wg_size t) c d"
    "lg_sync_ok s t sy' \<Longrightarrow> sy \<noteq> sy' \<Longrightarrow> d \<in> lg_copy_cmds v s t g C0 sy' \<Longrightarrow> conflict_free (gm_wg_size t) c d"
proof -
  note own = lg_compute_touch [OF ok(1) sy, where u = u and g = g, folded c_def]
  have none: "cmd_writes c l \<subseteq> {}" for l by (simp add: c_def)
  show "conflict_free (gm_wg_size t) c c"
    by (rule conflict_freeI [OF none own none own]) auto
  show "conflict_free (gm_wg_size t) c d" if d: "d \<in> lg_registers_cmds v u t g C0"
    by (rule conflict_freeI [OF none own lg_registers_touch [OF ok _ d]]) auto
  show "conflict_free (gm_wg_size t) c d"
    if sy': "lg_sync_ok s t sy'" "sy \<noteq> sy'" and d: "d \<in> lg_copy_cmds v s t g C0 sy'"
  proof (rule conflict_freeI [OF none own lg_copy_touch [OF ok(1) sy'(1) _ d]], assumption+)
    fix k l assume "k < gm_wg_size t" "l < gm_wg_size t" "k \<noteq> l"
    let ?part = "lg_ab_part s t (ip_a_packet (lg_place_of v t g 0)) l"
    have "lg_half s t sy \<inter> lg_ab_cell s t sy' ` ?part = {}"
      using lg_halves_apart [OF ok(1) sy sy'] lg_parts_apart(2) [OF \<open>k \<noteq> l\<close> [symmetric]] unfolding lg_half_def by blast
    then show "{} \<inter> (Inl ` lg_ab_cell s t sy' ` ?part \<union> Inr ` {a. fst a \<noteq> fst C0}) = {} \<and>
      Inl ` lg_half s t sy \<inter> Inl ` lg_ab_cell s t sy' ` ?part = {}" by blast
  qed
qed

text \<open>The whole program. \<open>lg_joins\<close>: what may stand where the buffers are in position \<open>sy\<close>.\<close>

definition lg_joins :: "bool \<Rightarrow> nat \<Rightarrow> (nat \<Rightarrow> 'v) \<Rightarrow> 'v::{zero, times, divide} Gemm \<Rightarrow> nat \<Rightarrow> addr \<Rightarrow> lg_sync \<Rightarrow> 'v lg_cmd list \<Rightarrow> bool" where
  "lg_joins v s u t g C0 sy cs \<longleftrightarrow> commuting (gm_wg_size t) cs \<and> race_free (gm_wg_size t) cs \<and>
     set (hd (split_barriers cs)) \<subseteq> lg_registers_cmds v u t g C0 \<union> lg_copy_cmds v s t g C0 sy"

lemma lg_joins_registers:
  fixes t :: "'v::field Gemm"
  assumes ok: "lg_ok v s t" "gm_wf t" "g < lg_get_workgroup_cluster t" and sy: "lg_sync_ok s t sy"
    and c: "c \<in> lg_registers_cmds v u t g C0" and cs: "lg_joins v s u t g C0 sy cs"
  shows "lg_joins v s u t g C0 sy (c # cs)"
proof -
  have "c \<noteq> Barrier" using c by (auto simp: lg_registers_cmds_def)
  then have "hd (split_barriers (c # cs)) = c # hd (split_barriers cs)" by (cases c) auto
  moreover have "commute (gm_wg_size t) c d" if "d \<in> set (hd (split_barriers cs))" for d
    using that cs lg_registers_commute [OF ok c] lg_copy_registers_commute [OF ok sy c] unfolding lg_joins_def by blast
  moreover have "conflict_free (gm_wg_size t) c d" if "d \<in> set (hd (split_barriers cs))" for d
    using that cs lg_registers_no_conflict [OF ok c] lg_registers_copy_no_conflict [OF ok sy c] unfolding lg_joins_def by blast
  moreover have "conflict_free (gm_wg_size t) c c" by (rule lg_registers_no_conflict [OF ok c c])
  ultimately show ?thesis using c cs by (simp add: lg_joins_def)
qed

lemma lg_joins_block:
  fixes t :: "'v::field Gemm"
  assumes ok: "lg_ok v s t" "gm_wf t" "g < lg_get_workgroup_cluster t" and sy: "lg_sync_ok s t sy"
    and k: "\<not> check_k \<longrightarrow> lg_cl_elems s t \<le> k" and AB: "fst A \<noteq> fst C0" "fst B \<noteq> fst C0"
    and cs: "lg_joins v s u t g C0 (lg_sync_smem s t sy) cs"
  shows "lg_joins v s u t g C0 sy (lg_block v s u t g check_k k A B sy @ cs)"
proof -
  let ?P = "Priv (\<lambda>l _. lg_compute v s u t g sy l) :: 'v lg_cmd"
  let ?E = "Local (\<lambda>l m loc _. lg_extract v s t g check_k k A B sy l m loc) :: 'v lg_cmd"
  note self = lg_compute_no_conflict(1) [OF ok sy, of u]
  have "commuting (gm_wg_size t) (?P # lg_sync_cmds t @ cs) \<and> race_free (gm_wg_size t) (?P # lg_sync_cmds t @ cs)"
  proof (cases "DoubleBuffer (gm_cfg t)")
    case True
    have ne: "sy \<noteq> lg_sync_smem s t sy" using sy True by (auto simp: lg_sync_ok_def lg_sync_smem_def)
    have "commute (gm_wg_size t) ?P d \<and> conflict_free (gm_wg_size t) ?P d" if d: "d \<in> set (hd (split_barriers cs))" for d
    proof -
      consider "d \<in> lg_registers_cmds v u t g C0" | "d \<in> lg_copy_cmds v s t g C0 (lg_sync_smem s t sy)"
        using d cs unfolding lg_joins_def by blast
      then show ?thesis
      proof cases
        case 1
        then consider f where "d = Priv f" | q where "d = lg_store_cmd v t g (ptr_add C0 (int q * gm_c_size t))"
          unfolding lg_registers_cmds_def by blast
        then have "commute (gm_wg_size t) ?P d"
        proof cases
          case 2
          show ?thesis unfolding 2 by (rule commute_Priv_Mem) (rule refl)
        qed simp
        then show ?thesis using lg_compute_no_conflict(2) [OF ok sy 1] by simp
      next
        case 2
        show ?thesis
          using lg_compute_copy_commute [OF ok(1) sy lg_sync_smem_ok [OF sy] ne 2, where u = u]
            lg_compute_no_conflict(3) [OF ok sy lg_sync_smem_ok [OF sy] ne 2, where u = u] by simp
      qed
    qed
    then show ?thesis using True cs self by (simp add: lg_sync_cmds_def lg_joins_def)
  next
    case False
    then show ?thesis using cs self by (simp add: lg_sync_cmds_def lg_joins_def)
  qed
  moreover have E: "?E \<in> lg_copy_cmds v s t g C0 sy"
    using k AB unfolding lg_copy_cmds_def by blast
  moreover have "conflict_free (gm_wg_size t) ?E ?E" by (rule lg_copy_no_conflict [OF ok(1) sy E E])
  ultimately show ?thesis by (simp add: lg_block_def lg_joins_def)
qed

lemma lg_joins_blocks:
  fixes t :: "'v::field Gemm"
  assumes "lg_ok v s t" "gm_wf t" "g < lg_get_workgroup_cluster t" "lg_sync_ok s t sy" "fst A \<noteq> fst C0" "fst B \<noteq> fst C0"
    and "lg_joins v s u t g C0 (snd (lg_blocks v s u t g k A B sy)) cs"
  shows "lg_joins v s u t g C0 sy (fst (lg_blocks v s u t g k A B sy) @ cs)"
  using assms
proof (induction v s u t g k A B sy rule: lg_blocks.induct)
  case (1 v s u t g k A B sy)
  note ok = "1.prems"(1-3) and sy = "1.prems"(4) and AB = "1.prems"(5,6) and cs = "1.prems"(7)
  let ?cl = "lg_cl_elems s t"
  show ?case
  proof (cases "0 < ?cl \<and> ?cl \<le> k")
    case True
    note blocks = lg_blocks_step [OF conjunct1 [OF True] conjunct2 [OF True], of v u g A B sy]
    show ?thesis
      unfolding blocks fst_conv append_assoc
      by (rule lg_joins_block [OF ok sy _ AB], use True in simp)
        (rule "1.IH" [OF refl True ok lg_sync_smem_ok [OF sy]], use AB cs blocks in simp_all)
  next
    case False
    then have kcl: "k < ?cl" using lg_okD(1) [OF ok(1)] by simp
    show ?thesis
    proof (cases "0 < k")
      case True
      then show ?thesis using lg_joins_block [OF ok sy _ AB, of True k u cs] cs kcl by (simp add: lg_blocks_rest)
    next
      case False
      then show ?thesis using cs by (simp add: lg_blocks_0)
    qed
  qed
qed

lemma lg_batches_pass:
  "lg_batches v s u t g w r n A B C sy = lg_pass v s u t g A B C sy @
     (if 0 < r \<and> int w < n - int r
      then lg_batches v s u t g w r (n - int r) (ptr_add A (gm_a_size t * int r)) (ptr_add B (gm_b_size t * int r))
             (ptr_add C (gm_c_size t * int r)) (snd (lg_blocks v s u t g (gm_k t) A B sy))
      else [])"
  by (subst lg_batches.simps) (simp add: lg_pass_def split_beta Let_def)

lemma lg_joins_batches:
  fixes t :: "'v::field Gemm"
  assumes "lg_ok v s t" "gm_wf t" "g < lg_get_workgroup_cluster t" "lg_sync_ok s t sy" "fst A \<noteq> fst C0" "fst B \<noteq> fst C0"
    and "C = ptr_add C0 (int q * gm_c_size t)"
  shows "lg_joins v s u t g C0 sy (lg_batches v s u t g w r n A B C sy)"
  using assms
proof (induction v s u t g w r n A B C sy arbitrary: q rule: lg_batches.induct)
  case (1 v s u t g w r n A B C sy)
  note ok = "1.prems"(1-3) and sy = "1.prems"(4) and AB = "1.prems"(5,6) and C = "1.prems"(7)
  let ?sy = "snd (lg_blocks v s u t g (gm_k t) A B sy)"
  let ?rest = "if 0 < r \<and> int w < n - int r
      then lg_batches v s u t g w r (n - int r) (ptr_add A (gm_a_size t * int r)) (ptr_add B (gm_b_size t * int r))
             (ptr_add C (gm_c_size t * int r)) ?sy
      else []"
  have reg: "lg_scale_cmd v u t g C \<in> lg_registers_cmds v u t g C0" "lg_store_cmd v t g C \<in> lg_registers_cmds v u t g C0"
    unfolding lg_registers_cmds_def C by blast+
  have rest: "lg_joins v s u t g C0 ?sy ?rest"
  proof (cases "0 < r \<and> int w < n - int r")
    case True
    have "ptr_add C (gm_c_size t * int r) = ptr_add C0 (int (q + r) * gm_c_size t)" by (simp add: C algebra_simps)
    then show ?thesis
      using "1.IH" [OF refl prod.collapse refl True ok lg_blocks_sync [OF sy], where q = "q + r"] AB True by simp
  qed (auto simp: lg_joins_def)
  show ?case
    unfolding lg_batches_pass [of v s u t g w r n] lg_pass_def append_Cons append_assoc append_Nil
    by (intro lg_joins_registers [OF ok sy reg(1)] lg_joins_blocks [OF ok sy AB]
        lg_joins_registers [OF ok lg_blocks_sync [OF sy] reg(2)] rest)
qed

section \<open>The batch\<close>

lemma lg_batches_run:
  fixes t :: "'v::field Gemm"
  assumes "lg_ok v s t" "gm_wf t" "g < lg_get_workgroup_cluster t" "item_orders (gm_wg_size t) ord" "lg_sync_ok s t sy"
  shows "gs_mem (run_cmds ord k (lg_batches v s u t g w r n A B C sy) gs)
    = gemm_batches (lg_body v t g) t w r n A B C (gs_mem gs)"
  using assms
proof (induction v s u t g w r n A B C sy arbitrary: k gs rule: lg_batches.induct)
  case (1 v s u t g w r n A B C sy)
  note ok = "1.prems"(1-3) and ord = "1.prems"(4) and sy = "1.prems"(5)
  note pass = lg_pass_run [OF ok ord sy, of k u A B C gs]
  show ?case
  proof (cases "0 < r \<and> int w < n - int r")
    case True
    show ?thesis
      unfolding lg_batches_pass [of v s u t g w r n] if_P [OF True] run_cmds_append
        "1.IH" [OF refl prod.collapse refl True ok ord lg_blocks_sync [OF sy]] pass
      using True by (subst (2) gemm_batches.simps) (simp add: Let_def)
  next
    case False
    show ?thesis
      unfolding lg_batches_pass [of v s u t g w r n] if_not_P [OF False] append_Nil2 pass
      using False by (subst gemm_batches.simps) (auto simp: Let_def)
  qed
qed

end
