(* ===== verification/Gemm_Local_Correct.thy ===== *)
theory Gemm_Local_Correct
  imports Gemm_Local_Races
begin

text \<open>
  The kernel with local memory is correct: its groups are an instance of \<open>gemm_kernel\<close>, with a group in the place
  of an item, so that a launch computes the product.
\<close>

text \<open>What group \<open>it\<close> does, under the orders of a run. The program of a group has no races.\<close>

definition lg_eval ::
  "'v device_run \<Rightarrow> bool \<Rightarrow> nat \<Rightarrow> (nat \<Rightarrow> 'v) \<Rightarrow> 'v::{zero, plus, times, divide} Gemm \<Rightarrow> nd_item \<Rightarrow> 'v mem \<Rightarrow> 'v mem" where
  "lg_eval r v s u t it = run_group r (nd_group it) (gm_wg_size t) u (program_phases (lg_program v s u t it))"

lemma lg_sync_start: "lg_sync_ok s t (1, 0, 0)"
  by (simp add: lg_sync_ok_def)

lemma lg_program_race_free:
  fixes t :: "'v::field Gemm"
  assumes ok: "lg_ok v s t" "gm_wf t"
  shows "commuting (gm_wg_size t) (lg_program v s u t it)" "race_free (gm_wg_size t) (lg_program v s u t it)"
proof -
  have g: "nd_group it mod lg_get_workgroup_cluster t < lg_get_workgroup_cluster t"
    using ok(1) by (simp add: lg_get_workgroup_cluster_def lg_ok_def)
  have bufs: "fst (ptr_add (gm_A t) x) \<noteq> fst (gm_C t)" "fst (ptr_add (gm_B t) x) \<noteq> fst (gm_C t)" for x
    using ok(2) by (simp_all add: gm_wf_def mv_get_pointer_eq)
  have "commuting (gm_wg_size t) (lg_program v s u t it) \<and> race_free (gm_wg_size t) (lg_program v s u t it)"
    using lg_joins_batches [OF ok g lg_sync_start bufs refl] by (simp add: lg_program_def Let_def lg_joins_def)
  then show "commuting (gm_wg_size t) (lg_program v s u t it)" "race_free (gm_wg_size t) (lg_program v s u t it)"
    by simp_all
qed

lemma lg_eval_item:
  fixes t :: "'v::field Gemm"
  assumes r: "is_run r" and ok: "lg_ok v s t" "gm_wf t"
  shows "lg_eval r v s u t (item_of 1 (lg_get_workgroup_cluster t * S) i) m
    = (if gm_batch_size t \<le> i div lg_get_workgroup_cluster t then m
       else at_batch t (gemm_batches (lg_body v t (i mod lg_get_workgroup_cluster t)) t
              (i div lg_get_workgroup_cluster t) S (int (gm_batch_size t)))
              (gm_A t) (gm_B t) (gm_C t) (i div lg_get_workgroup_cluster t) m)"
proof -
  let ?it = "item_of 1 (lg_get_workgroup_cluster t * S) i" and ?cl = "lg_get_workgroup_cluster t"
  have cl: "0 < ?cl" using ok(1) by (simp add: lg_get_workgroup_cluster_def lg_ok_def)
  have it: "nd_group ?it = i" "nd_group_range ?it div ?cl = S" using cl by (simp_all add: item_of_def)
  have ord: "item_orders (gm_wg_size t) (\<lambda>k. item_order r i k (gm_wg_size t))"
    using run_items [OF r] by (simp add: item_orders_def)
  have "lg_eval r v s u t ?it m = gs_mem (run_cmds (\<lambda>k. item_order r i k (gm_wg_size t)) 0 (lg_program v s u t ?it)
      \<lparr>gs_mem = m, gs_local = local_init r i, gs_priv = \<lambda>_. u\<rparr>)"
    unfolding lg_eval_def run_group_def it
    by (subst run_program_cmds [OF lg_program_race_free(1) [OF ok]]) (use run_items [OF r] in simp_all)
  also have "\<dots> = (if gm_batch_size t \<le> i div ?cl then m
       else at_batch t (gemm_batches (lg_body v t (i mod ?cl)) t (i div ?cl) S (int (gm_batch_size t)))
              (gm_A t) (gm_B t) (gm_C t) (i div ?cl) m)"
    unfolding lg_program_def Let_def it
    using lg_batches_run [OF ok _ ord lg_sync_start, of "i mod ?cl"] cl by (auto simp del: One_nat_def)
  finally show ?thesis .
qed

lemma lg_tile_split:
  assumes "lg_ok v s t"
  shows "(\<exists>g < lg_get_workgroup_cluster t. x \<in> lg_tile v t g) \<longleftrightarrow>
     (\<exists>e < gm_wg_size t * lg_get_workgroup_cluster t. x \<in> place_tile (lg_place_of v) t e)"
proof
  assume "\<exists>g < lg_get_workgroup_cluster t. x \<in> lg_tile v t g"
  then obtain g l where gl: "g < lg_get_workgroup_cluster t" "l < gm_wg_size t" "x \<in> place_tile (lg_place_of v) t (g * gm_wg_size t + l)"
    by (auto simp: lg_tile_def)
  then show "\<exists>e < gm_wg_size t * lg_get_workgroup_cluster t. x \<in> place_tile (lg_place_of v) t e"
    using reg_index(1) [OF gl(2,1)] by (auto simp: mult.commute)
next
  assume "\<exists>e < gm_wg_size t * lg_get_workgroup_cluster t. x \<in> place_tile (lg_place_of v) t e"
  then obtain e where e: "e < gm_wg_size t * lg_get_workgroup_cluster t" "x \<in> place_tile (lg_place_of v) t e" by blast
  have "e div gm_wg_size t < lg_get_workgroup_cluster t" using e(1) by (simp add: less_mult_imp_div_less mult.commute)
  moreover have "x \<in> lg_tile v t (e div gm_wg_size t)"
    unfolding lg_tile_def using e(2) lg_okD(4) [OF assms] by (intro UN_I [of "e mod gm_wg_size t"]) simp_all
  ultimately show "\<exists>g < lg_get_workgroup_cluster t. x \<in> lg_tile v t g" by blast
qed

lemma lg_tile_disjoint:
  assumes "lg_ok v s t" "gm_wf t" "g < lg_get_workgroup_cluster t" "g' < lg_get_workgroup_cluster t" "g \<noteq> g'"
  shows "lg_tile v t g \<inter> lg_tile v t g' = {}"
proof -
  have "place_tile (lg_place_of v) t (g * gm_wg_size t + l) \<inter> place_tile (lg_place_of v) t (g' * gm_wg_size t + l') = {}"
    if l: "l < gm_wg_size t" "l' < gm_wg_size t" for l l'
  proof (rule lgl.tile_disjoint [OF assms(1,2)])
    show "g * gm_wg_size t + l < gm_wg_size t * lg_get_workgroup_cluster t" "g' * gm_wg_size t + l' < gm_wg_size t * lg_get_workgroup_cluster t"
      using reg_index(1) [OF l(1) assms(3)] reg_index(1) [OF l(2) assms(4)] by (simp_all add: mult.commute)
    show "g * gm_wg_size t + l \<noteq> g' * gm_wg_size t + l'"
    proof
      assume "g * gm_wg_size t + l = g' * gm_wg_size t + l'"
      then have "(g * gm_wg_size t + l) div gm_wg_size t = (g' * gm_wg_size t + l') div gm_wg_size t" by (rule arg_cong)
      then show False using l assms(5) by simp
    qed
  qed
  then show ?thesis unfolding lg_tile_def by blast
qed

interpretation lg: gemm_kernel "\<lambda>t :: 'v::field Gemm. is_run r \<and> lg_ok v s t" "\<lambda>_. 1" lg_get_workgroup_cluster
  "lg_eval r v s u" "lg_body v" "lg_tile v" for r v s u
proof unfold_locales
  fix t :: "'v Gemm" and S i m
  assume "is_run r \<and> lg_ok v s t" "gm_wf t"
  then show "lg_eval r v s u t (item_of 1 (lg_get_workgroup_cluster t * S * 1) i) m
    = (if gm_batch_size t \<le> i div (1 * lg_get_workgroup_cluster t) then m
       else at_batch t (gemm_batches (lg_body v t (i mod (1 * lg_get_workgroup_cluster t))) t
              (i div (1 * lg_get_workgroup_cluster t)) S (int (gm_batch_size t)))
              (gm_A t) (gm_B t) (gm_C t) (i div (1 * lg_get_workgroup_cluster t)) m)"
    using lg_eval_item [of r v s t u S i m] by simp
next
  fix t :: "'v Gemm"
  assume "is_run r \<and> lg_ok v s t"
  then show "0 < (1::nat) \<and> 0 < lg_get_workgroup_cluster t" by (simp add: lg_get_workgroup_cluster_def lg_ok_def)
next
  fix t :: "'v Gemm" and e i j assume "(i, j) \<in> lg_tile v t e"
  then show "i < gm_m t \<and> j < gm_n t" by (rule lg_tile_bounds)
next
  fix t :: "'v Gemm" and e e'
  assume "is_run r \<and> lg_ok v s t" "gm_wf t" "e < 1 * lg_get_workgroup_cluster t" "e' < 1 * lg_get_workgroup_cluster t" "e \<noteq> e'"
  then show "lg_tile v t e \<inter> lg_tile v t e' = {}" using lg_tile_disjoint [of v s t e e'] by simp
next
  fix t :: "'v Gemm" and i j
  assume ok: "is_run r \<and> lg_ok v s t" "gm_wf t" "i < gm_m t" "j < gm_n t"
  then show "\<exists>e < 1 * lg_get_workgroup_cluster t. (i, j) \<in> lg_tile v t e"
    using lgl.tile_cover [of v s t i j] lg_tile_split [of v s t "(i, j)"] by simp
next
  fix t :: "'v Gemm" and e d A B C m
  assume "d \<notin> tile_cells (gm_ldc t) (lg_tile v t e) C"
  then show "lg_body v t e A B C m d = m d" by (simp add: lg_body_def)
next
  fix t :: "'v Gemm" and e i j A B C m
  assume "gm_wf t" and ij: "(i, j) \<in> lg_tile v t e"
  then have i: "i < gm_ldc t" using lg_tile_bounds [OF ij] by (simp add: gm_wf_def)
  have "ptr_add C (int (i + j * gm_ldc t)) \<in> tile_cells (gm_ldc t) (lg_tile v t e) C" using ij by (auto simp: tile_cells_def)
  moreover have "nat (snd (ptr_add C (int (i + j * gm_ldc t))) - snd C) = i + j * gm_ldc t"
    by (cases C) (simp del: of_nat_add of_nat_mult)
  ultimately show "lg_body v t e A B C m (ptr_add C (int (i + j * gm_ldc t))) = gm_elem t A B C m i j"
    using i unfolding lg_body_def by simp
qed

definition local_cfg_ok :: "bool \<Rightarrow> nat \<Rightarrow> Gemm_Launcher \<Rightarrow> bool" where
  "local_cfg_ok v s cfg \<longleftrightarrow>
     (let T = TileT cfg; rows = wg_rows T * item_rows T; cols = wg_cols T * item_cols T; cl = ClSize cfg div s
      in gemm_local_asserts v s cfg \<and> 0 < cl \<and> 0 < rows \<and> 0 < tl_rows T \<and> 0 < tl_cols T \<and> rows = cols \<and>
         rows * cl mod (wg_rows T * wg_cols T * packet_size v (VectorSize cfg)) = 0)"

lemma lg_ok_cfg: "lg_ok v s t \<longleftrightarrow> local_cfg_ok v s (gm_cfg t) \<and> gm_alpha t \<noteq> 0"
  by (auto simp: lg_ok_def local_cfg_ok_def Let_def lg_cl_elems_def gm_block_rows_def gm_block_cols_def gm_wg_size_def gemm_local_asserts_def)

text \<open>The launch: its groups take the place of the items.\<close>

lemma lg_execute_groups:
  assumes "0 < gm_wg_size t"
  shows "gemm_local_execute r ph v s u t m = execute_tree (r\<lparr>global_order := group_order r\<rparr>) (\<lambda>_. True) (lg_eval r v s u t) 1
    (lg_get_workgroup_cluster t * lg_get_num_workgroup_cluster t (ph_num_compute_units ph) * 1) m"
proof -
  let ?n = "lg_get_workgroup_cluster t * lg_get_num_workgroup_cluster t (ph_num_compute_units ph)" and ?W = "gm_wg_size t"
  have prog: "lg_program v s u t (item_of ?W (?n * ?W) (g * ?W)) = lg_program v s u t (item_of 1 ?n g)" for g
    using assms by (simp add: lg_program_def item_of_def Let_def cong: if_cong)
  have it: "nd_group (item_of (Suc 0) n g) = g" for n g by (simp add: item_of_def)
  show ?thesis
    using assms by (simp add: gemm_local_execute_def lg_get_nd_range_def execute_tree_local_def execute_tree_def nd_range_ok_def
        lg_eval_def prog it Let_def cong: if_cong)
qed

lemma lg_get_num_pos: "0 < lg_get_num_workgroup_cluster t compute_units"
  by (simp add: lg_get_num_workgroup_cluster_def)

lemma gemm_local_result:
  fixes alpha beta :: "'v::field"
  assumes r: "is_run r" and "0 < M" "M \<le> ldc" "it_buffer a \<noteq> it_buffer c" "it_buffer b \<noteq> it_buffer c"
    and "alpha \<noteq> 0" and cfg: "local_cfg_ok v s cfg"
  shows "gemm_result (beta_zero cfg) (TransA cfg) (TransB cfg) M N K alpha (it_buffer a, it_offset a) lda
     (it_buffer b, it_offset b) ldb beta (it_buffer c, it_offset c) ldc bs m
     (gemm_local_execute r ph v s u (select_gemm_tree cfg M N K alpha a lda b ldb beta c ldc bs) m)"
proof -
  let ?t = "select_gemm_tree cfg M N K alpha a lda b ldb beta c ldc bs"
  have ok: "lg_ok v s ?t" "gm_wf ?t"
    using assms by (simp_all add: gm_wf_def lg_ok_cfg select_gemm_simps)
  have groups: "is_run (r\<lparr>global_order := group_order r\<rparr>)" using r by (simp add: is_run_def)
  show ?thesis
    using lg.launch_correct [OF conjI [OF r ok(1)] ok(2) lg_get_num_pos groups, where u = u and m = m]
    by (simp add: lg_execute_groups [OF lg_okD(4) [OF ok(1)]] select_gemm_simps)
qed

section \<open>Properties\<close>

text \<open>C5: the kernel with local memory computes \<open>alpha * op(A) * op(B) + beta * C\<close> for every matrix of the batch and
  changes nothing else: for every size of the matrices, every configuration that passes its assertions (with square
  blocks that packets cover), with one or two buffers, any contents of local memory and of registers, and any order
  in which the groups, and between two barriers the items of a group, run.\<close>

theorem gemm_local_correct:
  fixes alpha beta :: "'v::field"
  assumes "is_run r" "0 < M" "M \<le> ldc" "it_buffer a \<noteq> it_buffer c" "it_buffer b \<noteq> it_buffer c"
    and "alpha \<noteq> 0" "local_cfg_ok v s cfg"
  shows "gemm_result (beta_zero cfg) (TransA cfg) (TransB cfg) M N K alpha (it_buffer a, it_offset a) lda
     (it_buffer b, it_offset b) ldb beta (it_buffer c, it_offset c) ldc bs m
     (gemm_local_execute r ph v s u (select_gemm_tree cfg M N K alpha a lda b ldb beta c ldc bs) m)"
  by (rule gemm_local_result [OF assms])

definition sample_local :: "bool \<Rightarrow> Gemm_Launcher" where
  "sample_local db = make_launcher 4 db False False 8 (Tile4 1 1 2 2) False False mem_local alg_standard vec_full False 1 strided_batch"

lemma sample_local_ok: "local_cfg_ok False 4 (sample_local db)"
  by (simp add: sample_local_def local_cfg_ok_def make_launcher_def Tile4_def gemm_local_asserts_def packet_size_def)

lemma gemm_local_correct_witness:
  "gemm_local_execute (seq_run 8) sample_ph False 4 (\<lambda>_. 9)
     (select_gemm_tree (sample_local True) 2 2 1 3 (sample_it 1) 2 (sample_it 2) 1 5 (sample_it 3) 2 1) real_mem (3, 3)
   = 3 * (2 * 3) + 5 * 6"
  using gemm_local_correct [OF is_run_seq, of 2 2 "sample_it 1" "sample_it 3" "sample_it 2" 3 False 4 "sample_local True"
      2 1 2 1 5 1 real_mem 8 sample_ph "\<lambda>_. 9"]
  by (simp add: sample_local_ok) (simp add: sample_local_def make_launcher_def gemm_result_def product_of_def
      operand_cell_def batch_cell_def a_stride_def b_stride_def real_mem_def less_cases)

text \<open>C6: the program of a group has no races: when two different items run the same command, or two commands
  without a barrier between, neither writes a cell of local memory or of the matrices that the other writes or reads.
  With two buffers one barrier in each step is enough.\<close>

theorem gemm_local_race_free:
  fixes alpha beta :: "'v::field"
  assumes "0 < M" "M \<le> ldc" "it_buffer a \<noteq> it_buffer c" "it_buffer b \<noteq> it_buffer c"
    and "alpha \<noteq> 0" "local_cfg_ok v s cfg"
  shows "race_free (wg_rows (TileT cfg) * wg_cols (TileT cfg))
     (lg_program v s u (select_gemm_tree cfg M N K alpha a lda b ldb beta c ldc bs) it)"
proof -
  let ?t = "select_gemm_tree cfg M N K alpha a lda b ldb beta c ldc bs"
  have "lg_ok v s ?t" "gm_wf ?t"
    using assms by (simp_all add: gm_wf_def lg_ok_cfg select_gemm_simps)
  then show ?thesis using lg_program_race_free(2) [of v s ?t u it] by (simp add: gm_wg_size_def select_gemm_simps)
qed

lemma gemm_local_race_free_witness:
  "race_free 4 (lg_program False 4 (\<lambda>_. 9)
     (select_gemm_tree (sample_local True) 2 2 7 (3 :: real) (sample_it 1) 2 (sample_it 2) 7 5 (sample_it 3) 2 1) (item_of 4 8 0))"
  using gemm_local_race_free [of 2 2 "sample_it 1" "sample_it 3" "sample_it 2" "3 :: real" False 4 "sample_local True"
      "\<lambda>_. 9" 2 7 2 7 5 1 "item_of 4 8 0"] sample_local_ok [of True]
  by (simp add: sample_local_def make_launcher_def Tile4_def)

text \<open>C7: after any number of blocks, an item writes and reads local memory only below \<open>local_memory_size\<close>: extraction
  leaves the cells above it alone, and the product of the blocks does not depend on them.\<close>

theorem gemm_local_memory_bounds:
  fixes t :: "'v::field Gemm" and n :: nat
  assumes "local_cfg_ok v s (gm_cfg t)" "gm_alpha t \<noteq> 0" "l < gm_wg_size t" "check_k \<or> lg_cl_elems s t \<le> k"
  defines "sy \<equiv> (lg_sync_smem s t ^^ n) (1, 0, 0)"
  shows "(\<forall>d \<ge> lg_local_memory_size s t. lg_extract v s t g check_k k A B sy l m loc d = loc d) \<and>
    ((\<forall>d < lg_local_memory_size s t. loc' d = loc d) \<longrightarrow> lg_compute v s u t g sy l loc' reg = lg_compute v s u t g sy l loc reg)"
proof -
  have ok: "lg_ok v s t" using assms by (simp add: lg_ok_cfg)
  have sy: "lg_sync_ok s t sy"
    unfolding sy_def by (induction n) (simp_all add: lg_sync_start lg_sync_smem_ok)
  have "lg_extract v s t g check_k k A B sy l m loc d = loc d" if d: "lg_local_memory_size s t \<le> d" for d
  proof (cases "ip_out_of_range (lg_place_of v t g l)")
    case False
    have "lg_ab_part s t (ip_a_packet (lg_place_of v t g l)) l \<subseteq> lg_ab_region s t"
      by (auto simp: lg_ab_part_def lg_ab_region_def lg_part_def)
    then have "d \<noteq> lg_ab_cell s t sy x" if "x \<in> lg_ab_part s t (ip_a_packet (lg_place_of v t g l)) l" for x
      using lg_ab_cell_bounds(1) [OF ok sy subsetD] that d by (metis leD)
    then show ?thesis using lg_extract_wrote [OF ok sy assms(3) _ False, of check_k k A B m loc] assms(4) unfolding wrote_def by blast
  qed (simp add: lg_extract_def)
  moreover have "lg_compute v s u t g sy l loc' reg = lg_compute v s u t g sy l loc reg"
    if "\<And>d. d < lg_local_memory_size s t \<Longrightarrow> loc' d = loc d"
    by (rule lg_compute_local [OF ok sy assms(3)]; rule that) (use lg_bases [OF sy] in linarith)+
  ultimately show ?thesis by blast
qed

lemma gemm_local_memory_bounds_witness:
  "lg_extract False 4 (select_gemm_tree (sample_local True) 2 2 7 (3 :: real) (sample_it 1) 2 (sample_it 2) 7 5 (sample_it 3) 2 1)
     0 False 7 (1, 0) (2, 0) ((lg_sync_smem 4 (select_gemm_tree (sample_local True) 2 2 7 (3 :: real) (sample_it 1) 2 (sample_it 2) 7 5
       (sample_it 3) 2 1) ^^ 3) (1, 0, 0)) 1 real_mem (\<lambda>_. 8) 16 = 8"
proof -
  let ?t = "select_gemm_tree (sample_local True) 2 2 7 (3 :: real) (sample_it 1) 2 (sample_it 2) 7 5 (sample_it 3) 2 1"
  have sizes: "gm_wg_size ?t = 4" "lg_cl_elems 4 ?t = 2" "lg_local_memory_size 4 ?t = 16"
    by (simp_all add: gm_wg_size_def lg_cl_elems_def lg_local_memory_size_def lg_ldsa_def lg_ldsb_def gm_block_rows_def
        gm_block_cols_def select_gemm_simps sample_local_def make_launcher_def Tile4_def)
  show ?thesis
    using gemm_local_memory_bounds [of False 4 ?t 1 False 7 0 "(1, 0)" "(2, 0)" 3 real_mem "\<lambda>_. 8"] sizes sample_local_ok
    by (simp add: select_gemm_simps)
qed

end
