(* ===== verification/Gemm_Interleaved.thy ===== *)
theory Gemm_Interleaved
  imports Gemm_Blocks
begin

text \<open>
  The kernel for interleaved batches, \<^verbatim>\<open>src/operations/blas3/gemm_interleaved.hpp\<close>. In such a batch
  the elements \<open>(i, j)\<close> of all matrices are neighbours, and packets run over the matrices of the batch. A work-group is
  tiled in three dimensions; an item keeps \<open>item_batchs / VectorSize\<close> packets for every element of its tile.

  \<open>u\<close> is what registers hold before anything is stored, \<open>il_check\<close> the template parameter
  \<open>need_check_boundary\<close>. The packet registers are read through a pointer that moves on after each packet, and by one
  packet only where a row or a column is out of range; the counter \<open>pos\<close> is that pointer.
\<close>

section \<open>The kernel\<close>

abbreviation "gm_item_batchs t \<equiv> item_batchs (gm_tile t)"
abbreviation "gm_wg_batchs t \<equiv> wg_batchs (gm_tile t)"
abbreviation "gm_vector t \<equiv> VectorSize (gm_cfg t)"

definition il_wg_size :: "'v Gemm \<Rightarrow> nat" where
  "il_wg_size t = gm_wg_rows t * gm_wg_cols t * gm_wg_batchs t"

definition il_blocks_per_row :: "'v Gemm \<Rightarrow> nat" where
  "il_blocks_per_row t = (gm_m t - 1) div gm_block_rows t + 1"

definition il_blocks_per_cols :: "'v Gemm \<Rightarrow> nat" where
  "il_blocks_per_cols t = (gm_n t - 1) div gm_block_cols t + 1"

definition il_blocks_per_batch :: "'v Gemm \<Rightarrow> nat" where
  "il_blocks_per_batch t = (gm_batch_size t - 1) div (gm_wg_batchs t * gm_item_batchs t) + 1"

definition il_get_nd_range :: "'v Gemm \<Rightarrow> nat \<Rightarrow> nat \<times> nat" where
  "il_get_nd_range t compute_units =
     (let nwg = il_blocks_per_row t * il_blocks_per_cols t * il_blocks_per_batch t; wgs = il_wg_size t
      in (wgs, nwg * wgs))"

definition il_valid_thread :: "'v Gemm \<Rightarrow> nd_item \<Rightarrow> bool" where
  "il_valid_thread t it \<longleftrightarrow> True"

text \<open>What the methods share: the first row, column and matrix of an item, and whether its block needs checks.\<close>

record il_place =
  il_m_start :: nat
  il_n_start :: nat
  il_mb_start :: nat
  il_check :: bool

text \<open>An array of packets is a function from the index of the packet and the lane; the loops over \<open>item_batchs\<close> take
  a packet at a time.\<close>

definition il_offsets :: "'v Gemm \<Rightarrow> nat list" where
  "il_offsets t = strided 0 (gm_item_batchs t) (gm_vector t)"

definition il_load_packet :: "'v::zero Gemm \<Rightarrow> il_place \<Rightarrow> 'v mem \<Rightarrow> addr \<Rightarrow> nat \<Rightarrow> nat \<Rightarrow> 'v" where
  "il_load_packet t p m input j =
     (if il_check p \<and> \<not> il_mb_start p + il_mb_start p + j * gm_wg_batchs t + (gm_vector t - 1) < gm_batch_size t
      then (\<lambda>l. if il_mb_start p + j * gm_wg_batchs t + l < gm_batch_size t
                then m (ptr_add input (int (j * gm_wg_batchs t + l))) else 0)
      else vec_load m (ptr_add input (int (j * gm_wg_batchs t))))"

text \<open>A row that is out of range clears one packet and moves on by one packet.\<close>

definition il_load ::
  "'v::zero Gemm \<Rightarrow> il_place \<Rightarrow> nat \<Rightarrow> nat \<Rightarrow> nat \<Rightarrow> 'v mem \<Rightarrow> (nat \<Rightarrow> nat \<Rightarrow> 'v) \<Rightarrow> addr \<Rightarrow> nat \<Rightarrow> nat \<Rightarrow> nat \<Rightarrow> 'v" where
  "il_load t p item_size index_start dim_size m reg input stride =
     fst (fst (fold (\<lambda>i ((reg, pos), input).
         ((if il_check p \<and> \<not> i + index_start < dim_size then (reg(pos := (\<lambda>_. 0)), pos + 1)
           else fold (\<lambda>j (reg, pos). (reg(pos := il_load_packet t p m input j), pos + 1)) (il_offsets t) (reg, pos)),
          ptr_add input (int stride)))
       [0..<item_size] ((reg, 0), input)))"

definition il_in_range :: "'v Gemm \<Rightarrow> il_place \<Rightarrow> nat \<Rightarrow> nat \<Rightarrow> bool" where
  "il_in_range t p i j \<longleftrightarrow> do_check (il_check p) (il_m_start p + j < gm_m t \<and> il_n_start p + i < gm_n t)"

definition il_scale_packet :: "'v::{zero, times, divide} Gemm \<Rightarrow> il_place \<Rightarrow> 'v mem \<Rightarrow> addr \<Rightarrow> nat \<Rightarrow> nat \<Rightarrow> 'v" where
  "il_scale_packet t p m output b =
     (if \<not> do_check (il_check p) (il_mb_start p + b * gm_wg_batchs t + (gm_vector t - 1) < gm_batch_size t)
      then (\<lambda>l. if do_check (il_check p) (il_mb_start p + b * gm_wg_batchs t + l < gm_batch_size t)
                then m (ptr_add output (int (b * gm_wg_batchs t + l))) * gm_stored_beta t else 0)
      else (\<lambda>l. vec_load m (ptr_add output (int (b * gm_wg_batchs t))) l * gm_stored_beta t))"

definition il_scaling_c ::
  "'v::{zero, times, divide} Gemm \<Rightarrow> il_place \<Rightarrow> 'v mem \<Rightarrow> addr \<Rightarrow> (nat \<Rightarrow> nat \<Rightarrow> 'v) \<Rightarrow> nat \<Rightarrow> nat \<Rightarrow> 'v" where
  "il_scaling_c t p m C reg =
     (if beta_zero (gm_cfg t) then
        fold (\<lambda>i reg. reg(i := (\<lambda>_. 0))) [0..<gm_item_rows t * gm_item_cols t * (gm_item_batchs t div gm_vector t)] reg
      else fst (fst (fold (\<lambda>i (reg_pos, C).
          (fst (fold (\<lambda>j ((reg, pos), output).
              if \<not> il_in_range t p i j then ((reg, pos + 1), output)
              else (fold (\<lambda>b (reg, pos). (reg(pos := il_scale_packet t p m output b), pos + 1)) (il_offsets t) (reg, pos),
                    ptr_add output (int (gm_batch_size t))))
            [0..<gm_item_rows t] (reg_pos, C)),
           ptr_add C (int (gm_ldc t * gm_batch_size t))))
        [0..<gm_item_cols t] ((reg, 0), C))))"

definition il_compute_block ::
  "'v::{plus, times} Gemm \<Rightarrow> (nat \<Rightarrow> nat \<Rightarrow> 'v) \<Rightarrow> (nat \<Rightarrow> nat \<Rightarrow> 'v) \<Rightarrow> (nat \<Rightarrow> nat \<Rightarrow> 'v) \<Rightarrow> nat \<Rightarrow> nat \<Rightarrow> 'v" where
  "il_compute_block t reg_a reg_b reg_res =
     (let packets = gm_item_batchs t div gm_vector t
      in fst (fold (\<lambda>i. fold (\<lambda>j. fold (\<lambda>b (reg, pos).
            (reg(pos := (\<lambda>l. reg_a (j * packets + b) l * reg_b (i * packets + b) l + reg pos l)), pos + 1))
          [0..<packets]) [0..<gm_item_rows t]) [0..<gm_item_cols t] (reg_res, 0)))"

text \<open>\<open>do ... while (k_ > 0)\<close>: the body runs once also when \<open>k_\<close> is 0. The registers of the operands keep what they held.\<close>

function il_rounds ::
  "'v::{zero, plus, times} Gemm \<Rightarrow> il_place \<Rightarrow> 'v mem \<Rightarrow> nat \<Rightarrow> nat \<Rightarrow> nat \<Rightarrow> addr \<Rightarrow> addr \<Rightarrow>
   (nat \<Rightarrow> nat \<Rightarrow> 'v) \<Rightarrow> (nat \<Rightarrow> nat \<Rightarrow> 'v) \<Rightarrow> (nat \<Rightarrow> nat \<Rightarrow> 'v) \<Rightarrow> nat \<Rightarrow> nat \<Rightarrow> 'v" where
  "il_rounds t p m m_stride n_stride k A B reg_a reg_b reg_res =
     (let stride_k_a = (if TransA (gm_cfg t) then 1 else gm_lda t) * gm_batch_size t;
          stride_k_b = (if TransB (gm_cfg t) then gm_ldb t else 1) * gm_batch_size t;
          reg_a = il_load t p (gm_item_rows t) (il_m_start p) (gm_m t) m reg_a A m_stride;
          reg_b = il_load t p (gm_item_cols t) (il_n_start p) (gm_n t) m reg_b B n_stride;
          reg_res = il_compute_block t reg_a reg_b reg_res;
          A = ptr_add A (int stride_k_a);
          B = ptr_add B (int stride_k_b);
          k = k - 1
      in if 0 < k then il_rounds t p m m_stride n_stride k A B reg_a reg_b reg_res else reg_res)"
  by pat_completeness auto
termination
  by (relation "measure (\<lambda>(t, p, m, ms, ns, k, A, B, ra, rb, rr). k)") auto

declare il_rounds.simps [simp del]

definition il_store_packet :: "'v::times Gemm \<Rightarrow> il_place \<Rightarrow> (nat \<Rightarrow> 'v) \<Rightarrow> addr \<Rightarrow> nat \<Rightarrow> 'v mem \<Rightarrow> 'v mem" where
  "il_store_packet t p packet output b m =
     (if il_check p \<and> \<not> il_mb_start p + b * gm_wg_batchs t + (gm_vector t - 1) < gm_batch_size t
      then fold (\<lambda>l m. if il_mb_start p + b * gm_wg_batchs t + l < gm_batch_size t
                  then m(ptr_add output (int (b * gm_wg_batchs t + l)) := packet l * gm_alpha t) else m) [0..<gm_vector t] m
      else vec_store (gm_vector t) (ptr_add output (int (b * gm_wg_batchs t))) (\<lambda>l. packet l * gm_alpha t) m)"

definition il_store ::
  "'v::times Gemm \<Rightarrow> il_place \<Rightarrow> (nat \<Rightarrow> nat \<Rightarrow> 'v) \<Rightarrow> addr \<Rightarrow> 'v mem \<Rightarrow> 'v mem" where
  "il_store t p reg C m =
     fst (fst (fold (\<lambda>i (m_pos, C).
        (fst (fold (\<lambda>j ((m, pos), output).
            if \<not> il_in_range t p i j then ((m, pos + 1), output)
            else (fold (\<lambda>b (m, pos). (il_store_packet t p (reg pos) output b m, pos + 1)) (il_offsets t) (m, pos),
                  ptr_add output (int (gm_batch_size t))))
          [0..<gm_item_rows t] (m_pos, C)),
         ptr_add C (int (gm_ldc t * gm_batch_size t))))
      [0..<gm_item_cols t] ((m, 0), C)))"

text \<open>\<open>u\<close> is what the registers hold at first.\<close>

definition il_compute_panel ::
  "'v::{zero, plus, times, divide} Gemm \<Rightarrow> (nat \<Rightarrow> nat \<Rightarrow> 'v) \<Rightarrow> il_place \<Rightarrow> nat \<Rightarrow> nat \<Rightarrow> addr \<Rightarrow> addr \<Rightarrow> addr \<Rightarrow> 'v mem \<Rightarrow> 'v mem" where
  "il_compute_panel t u p m_stride n_stride A B C m =
     (let reg_res = il_scaling_c t p m C u;
          reg_res = il_rounds t p m m_stride n_stride (gm_k t) A B u u reg_res
      in il_store t p reg_res C m)"

definition il_eval :: "'v::{zero, plus, times, divide} Gemm \<Rightarrow> (nat \<Rightarrow> nat \<Rightarrow> 'v) \<Rightarrow> nd_item \<Rightarrow> 'v mem \<Rightarrow> 'v mem" where
  "il_eval t u it m =
     (let A = mv_get_pointer (gm_a t); B = mv_get_pointer (gm_b t); C = mv_get_pointer (gm_c t);
          wg_id = nd_group it; item_id = nd_local it;
          tile_id_batch = wg_id mod il_blocks_per_batch t;
          tile_id_row = (wg_id div il_blocks_per_batch t) mod il_blocks_per_row t;
          tile_id_col = (wg_id div il_blocks_per_batch t) div il_blocks_per_row t;
          wg_batch = tile_id_batch * gm_wg_batchs t;
          wg_row = tile_id_row * gm_block_rows t;
          wg_col = tile_id_col * gm_block_cols t;
          is_internal_block = (gm_batch_size t div gm_item_batchs t - wg_batch \<ge> gm_wg_batchs t \<and>
            gm_m t - wg_row \<ge> gm_block_rows t \<and> gm_n t - wg_col \<ge> gm_block_cols t);
          local_item_id_batch = item_id mod gm_wg_batchs t;
          local_item_id_row = (item_id div gm_wg_batchs t) mod gm_wg_rows t;
          local_item_id_col = (item_id div gm_wg_batchs t) div gm_wg_rows t;
          mb_start = local_item_id_batch * gm_vector t + wg_batch * gm_item_batchs t;
          m_start = local_item_id_row * gm_item_rows t + wg_row;
          n_start = local_item_id_col * gm_item_cols t + wg_col;
          out_of_range = (mb_start \<ge> gm_batch_size t \<or> m_start \<ge> gm_m t \<or> n_start \<ge> gm_n t)
      in if out_of_range then m
         else
           let m_stride = (if TransA (gm_cfg t) then gm_lda t else 1) * gm_batch_size t;
               n_stride = (if TransB (gm_cfg t) then 1 else gm_ldb t) * gm_batch_size t;
               A = ptr_add A (int (m_start * m_stride + mb_start));
               B = ptr_add B (int (n_start * n_stride + mb_start));
               C = ptr_add C (int (mb_start + m_start * gm_batch_size t + n_start * gm_ldc t * gm_batch_size t))
           in il_compute_panel t u \<lparr>il_m_start = m_start, il_n_start = n_start, il_mb_start = mb_start, il_check = \<not> is_internal_block\<rparr>
                m_stride n_stride A B C m)"

definition gemm_interleaved_execute ::
  "'t device_run \<Rightarrow> policy_handler \<Rightarrow> (nat \<Rightarrow> nat \<Rightarrow> 'v) \<Rightarrow> 'v::{zero, plus, times, divide} Gemm \<Rightarrow> 'v mem \<Rightarrow> 'v mem" where
  "gemm_interleaved_execute r ph u t m =
     (let rng = il_get_nd_range t (ph_num_compute_units ph)
      in execute_tree r (il_valid_thread t) (il_eval t u) (fst rng) (snd rng) m)"

end
