(* ===== verification/Gemv.thy ===== *)
theory Gemv
  imports Blas1
begin

text \<open>
  The matrix-vector product: the kernel \<open>Gemv\<close> and the node \<open>SumMatrixColumns\<close> of
  \<^verbatim>\<open>src/operations/blas2/gemv.hpp\<close>, \<open>_gemv_impl\<close> and \<open>_gemv\<close> of
  \<^verbatim>\<open>src/interface/blas2_interface.hpp\<close>, and the choice of parameters in
  \<^verbatim>\<open>src/interface/blas2/backend\<close>.

  The kernel stores dot products of rows with the vector, or partial ones over blocks of
  \<open>local_range\<close> columns, in a temporary matrix; an assignment then sums the columns of that matrix
  and combines them with \<open>y\<close>. Dimensions are positive: with a dimension of 0 the code computes
  \<open>(0 - 1) / local_range\<close> in unsigned arithmetic.
\<close>

section \<open>SumMatrixColumns\<close>

definition SumMatrixColumns :: "MatrixView \<Rightarrow> ('v mem, 'v::{zero, plus}) expr" where
  "SumMatrixColumns rhs =
     \<lparr>ex_size = mv_sizeR rhs,
      ex_eval = (\<lambda>m i.
        let dimR = mv_sizeR rhs; dimC = mv_sizeC rhs;
            v = AdditionIdentity (m (maddr_lin rhs 0))
        in if i < dimR then foldl (\<lambda>v j. v + m (maddr rhs i j)) v [0..<dimC] else v),
      ex_bind = mv_bind rhs\<rparr>"

section \<open>The kernel\<close>

text \<open>\<open>cl::sycl::mad\<close>.\<close>

definition mad :: "'v::{plus, times} \<Rightarrow> 'v \<Rightarrow> 'v \<Rightarrow> 'v" where
  "mad a b c = a * b + c"

text \<open>The members of the class and its template parameters; \<open>gv_sizeof\<close> is
  \<open>sizeof(value_t)\<close>.\<close>

record Gemv =
  gv_lhs :: MatrixView
  gv_matrix_a :: MatrixView
  gv_vector_x :: VectorView
  gv_wgs_per_nc :: nat
  gv_wgs_per_c :: nat
  gv_local_range :: nat
  gv_is_transposed :: bool
  gv_cache_line_size :: nat
  gv_sizeof :: nat

definition make_Gemv ::
  "nat \<Rightarrow> bool \<Rightarrow> nat \<Rightarrow> nat \<Rightarrow> MatrixView \<Rightarrow> MatrixView \<Rightarrow> VectorView \<Rightarrow> nat \<Rightarrow> nat \<Rightarrow> Gemv" where
  "make_Gemv local_range is_transposed cache_line_size sizeof lhs matrix vector wgs_per_nc wgs_per_c =
     \<lparr>gv_lhs = lhs, gv_matrix_a = matrix, gv_vector_x = vector, gv_wgs_per_nc = wgs_per_nc,
      gv_wgs_per_c = wgs_per_c, gv_local_range = local_range, gv_is_transposed = is_transposed,
      gv_cache_line_size = cache_line_size, gv_sizeof = sizeof\<rparr>"

definition gv_valid_thread :: "Gemv \<Rightarrow> nd_item \<Rightarrow> bool" where
  "gv_valid_thread t it \<longleftrightarrow> True"

definition gv_cl_elems :: "Gemv \<Rightarrow> nat" where
  "gv_cl_elems t = gv_cache_line_size t div gv_sizeof t"

definition gv_nc_dim :: "Gemv \<Rightarrow> nat" where
  "gv_nc_dim t = (if gv_is_transposed t then mv_sizeC (gv_matrix_a t) else mv_sizeR (gv_matrix_a t))"

definition gv_c_dim :: "Gemv \<Rightarrow> nat" where
  "gv_c_dim t = (if gv_is_transposed t then mv_sizeR (gv_matrix_a t) else mv_sizeC (gv_matrix_a t))"

text \<open>\<open>matrix_a_.template eval<true>(k)\<close>: an offset from the start of the matrix.\<close>

definition gv_a :: "Gemv \<Rightarrow> 'v mem \<Rightarrow> nat \<Rightarrow> 'v" where
  "gv_a t m k = m (mv_eval_ptr_addr (mv_adjust (gv_matrix_a t)) k)"

definition gv_x :: "Gemv \<Rightarrow> 'v mem \<Rightarrow> nat \<Rightarrow> 'v" where
  "gv_x t m i = m (vaddr (gv_vector_x t) i)"

subsection \<open>Without local memory\<close>

text \<open>The loop over the contracting dimension, with the running offset into the matrix.\<close>

definition gv_columns :: "Gemv \<Rightarrow> 'v::{zero, plus, times} mem \<Rightarrow> nat \<Rightarrow> 'v \<times> nat" where
  "gv_columns t m index =
     (let contract_stride = (if gv_is_transposed t then 1 else mv_sizeL (gv_matrix_a t))
      in foldl (\<lambda>(s, index) col_id. (mad (gv_a t m index) (gv_x t m col_id) s, index + contract_stride))
           (0, index) [0..<gv_c_dim t])"

text \<open>The loop over the rows \<open>row_id\<close>; it returns at the first row outside the matrix.\<close>

fun gv_rows :: "Gemv \<Rightarrow> nat \<Rightarrow> nat \<Rightarrow> nat list \<Rightarrow> nat \<Rightarrow> 'v::{zero, plus, times} mem \<Rightarrow> 'v mem" where
  "gv_rows t thread_id index_stride [] index m = m"
| "gv_rows t thread_id index_stride (row_id # rows) index m =
     (if thread_id + row_id \<ge> gv_nc_dim t then m
      else let (s, index) = gv_columns t m index
           in gv_rows t thread_id index_stride rows (index + index_stride)
                (m(maddr_lin (gv_lhs t) (thread_id + row_id) := s)))"

definition gv_eval :: "Gemv \<Rightarrow> nd_item \<Rightarrow> 'v::{zero, plus, times} mem \<Rightarrow> 'v mem" where
  "gv_eval t it m =
     (let group_stride = nd_group_range it * gv_local_range t;
          lda = mv_sizeL (gv_matrix_a t);
          thread_id = nd_group it * gv_local_range t + nd_local it;
          thread_stride = (if gv_is_transposed t then lda else 1)
      in gv_rows t thread_id (group_stride * thread_stride) (strided 0 (gv_nc_dim t) group_stride)
           (thread_id * thread_stride) m)"

subsection \<open>With local memory\<close>

text \<open>The place of a group in the grid of groups.\<close>

definition gv_nc_group_id :: "Gemv \<Rightarrow> nd_item \<Rightarrow> nat" where
  "gv_nc_group_id t it = nd_group it div gv_wgs_per_c t"

definition gv_c_group_id :: "Gemv \<Rightarrow> nd_item \<Rightarrow> nat" where
  "gv_c_group_id t it = nd_group it - gv_nc_group_id t it * gv_wgs_per_c t"

text \<open>The private variables that live across barriers: the sum and how far \<open>vector_scratch\<close> has been
  advanced.\<close>

type_synonym 'v gv_state = "('v mem, 'v, 'v \<times> nat) group_state"

text \<open>Up to the first barrier: every item fetches one element of the group's part of \<open>x\<close>.\<close>

definition gv_load_x :: "Gemv \<Rightarrow> nd_item \<Rightarrow> nat \<Rightarrow> 'v::zero gv_state \<Rightarrow> 'v gv_state" where
  "gv_load_x t it local_id gs =
     (let x_vec_index = local_id + gv_c_group_id t it * gv_local_range t
      in gs\<lparr>gs_local := (gs_local gs)(local_id :=
             if x_vec_index < vv_size (gv_vector_x t) then gv_x t (gs_mem gs) x_vec_index else 0)\<rparr>)"

text \<open>The rest of the kernel for a matrix that is not transposed.\<close>

definition gv_row_sum :: "Gemv \<Rightarrow> nd_item \<Rightarrow> nat \<Rightarrow> 'v::{zero, plus, times} gv_state \<Rightarrow> 'v gv_state" where
  "gv_row_sum t it local_id gs =
     (let lda = mv_sizeL (gv_matrix_a t);
          c_group_id = gv_c_group_id t it;
          nc_dim_index = local_id + gv_nc_group_id t it * gv_local_range t
      in if nc_dim_index \<ge> gv_nc_dim t then gs
         else let mat_index = nc_dim_index + c_group_id * gv_local_range t * lda;
                  last_c_dim_id = min (gv_c_dim t - c_group_id * gv_local_range t) (gv_local_range t);
                  s = fst (foldl (\<lambda>(s, mat_index) c_dim_id.
                             (mad (gv_a t (gs_mem gs) mat_index) (gs_local gs c_dim_id) s, mat_index + lda))
                           (0, mat_index) [0..<last_c_dim_id]);
                  out_index = nc_dim_index + c_group_id * gv_nc_dim t
              in gs\<lparr>gs_mem := (gs_mem gs)(maddr_lin (gv_lhs t) out_index := s)\<rparr>)"

text \<open>\<open>extract_input_block\<close>: an item copies \<open>cl_elems\<close> elements of the tile \<open>c_tile_id\<close>, transposed,
  behind the first \<open>local_range\<close> cells of local memory, in lines of \<open>local_range + 1\<close> cells.\<close>

definition extract_input_block :: "Gemv \<Rightarrow> nd_item \<Rightarrow> nat \<Rightarrow> nat \<Rightarrow> 'v::zero mem \<Rightarrow> (nat \<Rightarrow> 'v) \<Rightarrow> nat \<Rightarrow> 'v" where
  "extract_input_block t it c_tile_id local_id m f =
     (let local_range = gv_local_range t; cl_elems = gv_cl_elems t; lda = mv_sizeL (gv_matrix_a t);
          tile_dim_nc = local_range div cl_elems; tile_dim_c = cl_elems;
          tile_nc_index = local_id div tile_dim_c; tile_c_index = local_id mod tile_dim_c;
          local_nc_index = tile_nc_index;
          local_c_index = tile_c_index + c_tile_id * tile_dim_c;
          grid_nc_index = local_nc_index + gv_nc_group_id t it * local_range;
          grid_c_index = local_c_index + gv_c_group_id t it * local_range;
          mat_index = grid_c_index + grid_nc_index * lda;
          scratch_index = (local_range + 1) * tile_c_index;
          in_c_range = grid_c_index < gv_c_dim t
      in fst (foldl (\<lambda>(f, mat_index, local_nc_index, grid_nc_index) nc_tile_id.
           (f(local_range + (scratch_index + local_nc_index) :=
                (if in_c_range \<and> grid_nc_index < gv_nc_dim t then gv_a t m mat_index else 0)),
            mat_index + tile_dim_nc * lda, local_nc_index + tile_dim_nc, grid_nc_index + tile_dim_nc))
           (f, mat_index, local_nc_index, grid_nc_index) [0..<cl_elems]))"

definition gv_extract :: "Gemv \<Rightarrow> nd_item \<Rightarrow> nat \<Rightarrow> nat \<Rightarrow> 'v::zero gv_state \<Rightarrow> 'v gv_state" where
  "gv_extract t it c_tile_id local_id gs =
     gs\<lparr>gs_local := extract_input_block t it c_tile_id local_id (gs_mem gs) (gs_local gs)\<rparr>"

text \<open>The loop over a tile, between its two barriers.\<close>

definition gv_tile_sum :: "Gemv \<Rightarrow> nat \<Rightarrow> 'v::{plus, times} gv_state \<Rightarrow> 'v gv_state" where
  "gv_tile_sum t local_id gs =
     (let local_range = gv_local_range t;
          (s, vector_scratch) = gs_priv gs local_id;
          (s, vector_scratch, mat_index) =
            foldl (\<lambda>(s, vector_scratch, mat_index) c_dim_id.
                (mad (gs_local gs (local_range + mat_index)) (gs_local gs vector_scratch) s,
                 vector_scratch + 1, mat_index + (local_range + 1)))
              (s, vector_scratch, local_id) [0..<gv_cl_elems t]
      in gs\<lparr>gs_priv := (gs_priv gs)(local_id := (s, vector_scratch))\<rparr>)"

definition gv_write :: "Gemv \<Rightarrow> nd_item \<Rightarrow> nat \<Rightarrow> 'v gv_state \<Rightarrow> 'v gv_state" where
  "gv_write t it local_id gs =
     (let nc_dim_index = local_id + gv_nc_group_id t it * gv_local_range t;
          out_index = nc_dim_index + gv_c_group_id t it * gv_nc_dim t
      in if nc_dim_index < gv_nc_dim t
         then gs\<lparr>gs_mem := (gs_mem gs)(maddr_lin (gv_lhs t) out_index := fst (gs_priv gs local_id))\<rparr>
         else gs)"

definition gv_phases :: "Gemv \<Rightarrow> nd_item \<Rightarrow> (nat \<Rightarrow> 'v::{zero, plus, times} gv_state \<Rightarrow> 'v gv_state) list" where
  "gv_phases t it =
     gv_load_x t it #
     (if \<not> gv_is_transposed t then [gv_row_sum t it]
      else concat (map (\<lambda>c_tile_id. [gv_extract t it c_tile_id, gv_tile_sum t])
             [0..<gv_local_range t div gv_cl_elems t]) @ [gv_write t it])"

section \<open>The interface\<close>

datatype gemv_memory_t = gemv_local | gemv_no_local

text \<open>The number of elements of local memory the kernel is given.\<close>

definition kernel_scratch_size :: "nat \<Rightarrow> nat \<Rightarrow> nat \<Rightarrow> bool \<Rightarrow> nat" where
  "kernel_scratch_size sizeof local_range cache_line_size is_transposed =
     (let cl_elems = cache_line_size div sizeof
      in local_range + (if is_transposed then (cl_elems + 1) * local_range else 0))"

text \<open>\<open>tmp\<close> is the identity of \<open>dot_products_buffer\<close>; \<open>r1\<close> and \<open>r2\<close> are the runs of the kernel and
  of the final assignment.\<close>

definition gemv_impl ::
  "'v device_run \<Rightarrow> 't device_run \<Rightarrow> nat \<Rightarrow> nat \<Rightarrow> nat \<Rightarrow> nat \<Rightarrow> gemv_memory_t \<Rightarrow> transpose_type \<Rightarrow>
   nat \<Rightarrow> nat \<Rightarrow> 'v::{zero, plus, times} \<Rightarrow> BufferIterator \<Rightarrow> nat \<Rightarrow> BufferIterator \<Rightarrow> int \<Rightarrow> 'v \<Rightarrow>
   BufferIterator \<Rightarrow> int \<Rightarrow> 'v mem \<Rightarrow> 'v mem" where
  "gemv_impl r1 r2 sizeof tmp local_range cache_line_size memory_type trn M N alpha mA lda vx incx beta vy incy m =
     (let is_transposed = (trn \<noteq> Normal);
          x_vector_size = (if is_transposed then M else N);
          y_vector_size = (if is_transposed then N else M);
          mA = make_matrix_view col_major mA M N lda;
          vx = make_vector_view vx incx x_vector_size;
          vy = make_vector_view vy incy y_vector_size;
          ld = (if is_transposed then N else M)
      in if memory_type \<noteq> gemv_local then
           (let dot_products_buffer = make_sycl_iterator_buffer tmp ld;
                dot_products_matrix = make_matrix_view col_major dot_products_buffer ld 1 ld;
                global_size = roundUp ld local_range;
                gemv = make_Gemv local_range is_transposed cache_line_size sizeof dot_products_matrix mA vx 1 1;
                m = execute_tree r1 (gv_valid_thread gemv) (gv_eval gemv) local_range global_size m;
                alphaMulDotsOp = ScalarOp ProductOperator (Literal alpha) (mat_expr dot_products_matrix)
            in if beta \<noteq> 0 then
                 (let betaMulYOp = ScalarOp ProductOperator (Literal beta) (vec_expr vy);
                      addOp = BinaryOp AddOperator betaMulYOp alphaMulDotsOp;
                      assignOp = Assign (vec_lval vy) addOp
                  in execute_sized r2 assignOp local_range m)
               else
                 (let assignOp = Assign (vec_lval vy) alphaMulDotsOp
                  in execute_sized r2 assignOp local_range m))
         else
           (let WGs_per_NC = (if is_transposed then (N - 1) div local_range + 1 else (M - 1) div local_range + 1);
                WGs_per_C = (if is_transposed then (M - 1) div local_range + 1 else (N - 1) div local_range + 1);
                dot_products_buffer_size = ld * WGs_per_C;
                dot_products_buffer = make_sycl_iterator_buffer tmp dot_products_buffer_size;
                dot_products_matrix = make_matrix_view col_major dot_products_buffer ld WGs_per_C ld;
                global_size = local_range * WGs_per_C * WGs_per_NC;
                gemv = make_Gemv local_range is_transposed cache_line_size sizeof dot_products_matrix mA vx
                         WGs_per_NC WGs_per_C;
                m = execute_tree_local r1 (0, 0) (gv_phases gemv) local_range global_size m;
                sumColsOp = SumMatrixColumns dot_products_matrix;
                alphaMulDotsOp = ScalarOp ProductOperator (Literal alpha) sumColsOp
            in if beta \<noteq> 0 then
                 (let betaMulYOp = ScalarOp ProductOperator (Literal beta) (vec_expr vy);
                      addOp = BinaryOp AddOperator betaMulYOp alphaMulDotsOp;
                      assignOp = Assign (vec_lval vy) addOp
                  in execute_sized r2 assignOp local_range m)
               else
                 (let assignOp = Assign (vec_lval vy) alphaMulDotsOp
                  in execute_sized r2 assignOp local_range m)))"

text \<open>The parameters each backend passes to \<open>_gemv_impl\<close>: \<open>local_range\<close>, \<open>cache_line_size\<close> and the kind
  of kernel.\<close>

datatype gemv_backend = RCAR | INTEL_GPU | AMD_GPU | ARM_GPU | POWER_VR | DEFAULT_CPU

definition rcar_params :: "transpose_type \<Rightarrow> nat \<Rightarrow> nat \<times> nat \<times> gemv_memory_t" where
  "rcar_params trn M =
     (if M \<ge> 512 \<and> trn \<noteq> Normal
      then (if M \<ge> 1024 then (8, 64, gemv_local) else (16, 64, gemv_local))
      else (32, 64, gemv_local))"

definition intel_gpu_params :: "transpose_type \<Rightarrow> nat \<times> nat \<times> gemv_memory_t" where
  "intel_gpu_params trn = (if trn = Normal then (256, 32, gemv_local) else (128, 32, gemv_local))"

definition amd_gpu_params :: "transpose_type \<Rightarrow> nat \<times> nat \<times> gemv_memory_t" where
  "amd_gpu_params trn =
     (let cache_line_size = 64
      in if trn = Normal then (256, cache_line_size, gemv_local) else (128, cache_line_size, gemv_local))"

definition arm_gpu_params :: "transpose_type \<Rightarrow> nat \<times> nat \<times> gemv_memory_t" where
  "arm_gpu_params trn = (if trn = Normal then (32, 32, gemv_local) else (32, 32, gemv_local))"

definition power_vr_params :: "transpose_type \<Rightarrow> nat \<times> nat \<times> gemv_memory_t" where
  "power_vr_params trn = (if trn = Normal then (256, 32, gemv_local) else (64, 32, gemv_local))"

definition default_cpu_params :: "transpose_type \<Rightarrow> nat \<times> nat \<times> gemv_memory_t" where
  "default_cpu_params trn = (if trn = Normal then (256, 32, gemv_local) else (128, 32, gemv_local))"

fun gemv_params :: "gemv_backend \<Rightarrow> transpose_type \<Rightarrow> nat \<Rightarrow> nat \<times> nat \<times> gemv_memory_t" where
  "gemv_params RCAR trn M = rcar_params trn M"
| "gemv_params INTEL_GPU trn M = intel_gpu_params trn"
| "gemv_params AMD_GPU trn M = amd_gpu_params trn"
| "gemv_params ARM_GPU trn M = arm_gpu_params trn"
| "gemv_params POWER_VR trn M = power_vr_params trn"
| "gemv_params DEFAULT_CPU trn M = default_cpu_params trn"

definition tolower :: "char \<Rightarrow> char" where
  "tolower c = (if 65 \<le> (of_char c :: nat) \<and> (of_char c :: nat) \<le> 90 then char_of ((of_char c :: nat) + 32) else c)"

definition gemv ::
  "gemv_backend \<Rightarrow> 'v device_run \<Rightarrow> 't device_run \<Rightarrow> nat \<Rightarrow> nat \<Rightarrow> char \<Rightarrow>
   nat \<Rightarrow> nat \<Rightarrow> 'v::{zero, plus, times} \<Rightarrow> BufferIterator \<Rightarrow> nat \<Rightarrow> BufferIterator \<Rightarrow> int \<Rightarrow> 'v \<Rightarrow>
   BufferIterator \<Rightarrow> int \<Rightarrow> 'v mem \<Rightarrow> 'v mem" where
  "gemv b r1 r2 sizeof tmp transA M N alpha mA lda vx incx beta vy incy m =
     (let trn = (if tolower transA = CHR ''n'' then Normal else Transposed);
          (local_range, cache_line_size, memory_type) = gemv_params b trn M
      in gemv_impl r1 r2 sizeof tmp local_range cache_line_size memory_type trn M N alpha mA lda
           vx incx beta vy incy m)"

section \<open>What a kernel computes\<close>

text \<open>The product of row \<open>i\<close> with the elements of \<open>x\<close> in block \<open>g\<close> of \<open>local_range\<close> columns.\<close>

definition gv_mat :: "Gemv \<Rightarrow> 'v mem \<Rightarrow> nat \<Rightarrow> nat \<Rightarrow> 'v" where
  "gv_mat t m i j = gv_a t m (if gv_is_transposed t then j + i * mv_sizeL (gv_matrix_a t)
                              else i + j * mv_sizeL (gv_matrix_a t))"

definition gv_partial :: "Gemv \<Rightarrow> 'v::semiring_0 mem \<Rightarrow> nat \<Rightarrow> nat \<Rightarrow> 'v" where
  "gv_partial t m i g =
     (let l = gv_local_range t
      in \<Sum>c<l. if c + g * l < gv_c_dim t then gv_mat t m i (c + g * l) * gv_x t m (c + g * l) else 0)"

lemma foldl_pair:
  "foldl (\<lambda>(s, k) c. (f s k c, k + d)) (s, k) [0..<n] = (foldl (\<lambda>s c. f s (k + c * d) c) s [0..<n], k + n * d)"
  for d :: nat
  by (induction n) (simp_all add: algebra_simps)

lemma foldl_mad:
  fixes a b :: "nat \<Rightarrow> 'v::semiring_0"
  shows "foldl (\<lambda>s c. mad (a c) (b c) s) s0 [0..<n] = s0 + (\<Sum>c<n. a c * b c)"
  by (induction n) (simp_all add: mad_def add.assoc add.commute add.left_commute)

lemma gv_columns_eq:
  "gv_columns t m (i * (if gv_is_transposed t then mv_sizeL (gv_matrix_a t) else 1))
     = (\<Sum>j<gv_c_dim t. gv_mat t m i j * gv_x t m j,
        i * (if gv_is_transposed t then mv_sizeL (gv_matrix_a t) else 1)
          + gv_c_dim t * (if gv_is_transposed t then 1 else mv_sizeL (gv_matrix_a t)))"
  for m :: "'v::semiring_0 mem"
  by (simp add: gv_columns_def Let_def foldl_pair foldl_mad gv_mat_def add.commute)

text \<open>The buffers of a launch: the result has its own buffer \<open>b\<close>, and its cells are distinct.\<close>

definition gv_apart :: "nat \<Rightarrow> Gemv \<Rightarrow> bool" where
  "gv_apart b t \<longleftrightarrow> acc_buffer (mv_data (gv_lhs t)) = b \<and> acc_buffer (mv_data (gv_matrix_a t)) \<noteq> b \<and>
     acc_buffer (vv_data (gv_vector_x t)) \<noteq> b"

lemma fst_vaddr [simp]: "fst (vaddr v i) = acc_buffer (vv_data v)"
  by (simp add: vaddr_eq)

lemma fst_maddr_lin [simp]: "fst (maddr_lin v k) = acc_buffer (mv_data v)"
  by (simp add: maddr_lin_eq maddr_eq)

lemma gv_reads:
  assumes "gv_apart b t" "\<And>d. d \<notin> {b} \<times> UNIV \<Longrightarrow> s d = s' d"
  shows "gv_a t s = gv_a t s'" "gv_x t s = gv_x t s'"
proof -
  have eq: "s d = s' d" if "fst d \<noteq> b" for d
    using assms(2) that by (auto simp: mem_Times_iff)
  have "fst (mv_eval_ptr_addr (mv_adjust (gv_matrix_a t)) k) \<noteq> b" for k
    using assms(1) by (simp add: gv_apart_def mv_eval_ptr_addr_def mv_adjust_def)
  then show "gv_a t s = gv_a t s'" using eq by (simp add: fun_eq_iff gv_a_def)
  have "fst (vaddr (gv_vector_x t) i) \<noteq> b" for i
    using assms(1) by (simp add: gv_apart_def)
  then show "gv_x t s = gv_x t s'" using eq by (simp add: fun_eq_iff gv_x_def)
qed

lemma gv_partial_reads:
  assumes "gv_apart b t" "\<And>d. d \<notin> {b} \<times> UNIV \<Longrightarrow> s d = s' d"
  shows "gv_partial t s i g = gv_partial t s' i g" "gv_mat t s = gv_mat t s'"
  using gv_reads [OF assms(1), of s s', OF assms(2)]
  by (simp_all add: gv_partial_def gv_mat_def fun_eq_iff cong: if_cong)

section \<open>The kernel without local memory\<close>

lemma gv_eval_item:
  fixes m :: "'v::semiring_0 mem"
  assumes "gv_local_range t = l" "0 < l" "l dvd n" "gv_nc_dim t \<le> n" "0 < gv_nc_dim t"
  shows "gv_eval t (item_of l n i) m =
    (if i < gv_nc_dim t
     then m(maddr_lin (gv_lhs t) i := \<Sum>j<gv_c_dim t. gv_mat t m i j * gv_x t m j) else m)"
proof -
  have n: "n div l * l = n" "0 < n" using assms by auto
  have rows: "strided 0 (gv_nc_dim t) n = [0]" using n assms by (simp add: strided_step)
  show ?thesis
    using gv_columns_eq [of t m i]
    by (simp add: gv_eval_def Let_def item_of_def assms(1) n rows del: strided_step)
qed

lemma gv_global_correct:
  fixes m :: "'v::semiring_0 mem"
  assumes r: "is_run r" and l: "gv_local_range t = l" "0 < l" and nc: "0 < gv_nc_dim t"
    and b: "gv_apart b t" and wf: "wf_matrix_view (gv_lhs t)" "mv_get_size (gv_lhs t) = gv_nc_dim t"
  defines "m' \<equiv> execute_tree r (gv_valid_thread t) (gv_eval t) l (roundUp (gv_nc_dim t) l) m"
  shows "i < gv_nc_dim t \<Longrightarrow> m' (maddr_lin (gv_lhs t) i) = (\<Sum>j<gv_c_dim t. gv_mat t m i j * gv_x t m j)"
    and "fst c \<noteq> b \<Longrightarrow> m' c = m c"
proof -
  define n where "n = roundUp (gv_nc_dim t) l"
  have n: "l dvd n" "gv_nc_dim t \<le> n" using l by (simp_all add: n_def roundUp_dvd roundUp_ge)
  then have ok: "nd_range_ok n l" using l nc by (auto simp: nd_range_ok_def)
  let ?W = "\<lambda>i. if i < gv_nc_dim t then {maddr_lin (gv_lhs t) i} else {}"
  let ?v = "\<lambda>i c. \<Sum>j<gv_c_dim t. gv_mat t m i j * gv_x t m j"
  note item = gv_eval_item [OF l n nc]
  have vals: "gv_eval t (item_of l n i) s c = ?v i c"
    if "i < n" "c \<in> ?W i" "\<And>d. d \<notin> {b} \<times> UNIV \<Longrightarrow> s d = m d" for i s c
    using that gv_reads [OF b that(3)] gv_partial_reads [OF b that(3)] by (simp add: item split: if_splits)
  have sub: "?W i \<subseteq> {b} \<times> UNIV" for i
    using b by (auto simp: gv_apart_def mem_Times_iff)
  have disj: "?W i \<inter> ?W j = {}" if "i \<noteq> j" for i j
    using that mat.addr_inj [OF wf(1), of i j] wf(2) by auto
  have frame: "gv_eval t (item_of l n i) s c = s c" if "c \<notin> ?W i" for i and s :: "'v mem" and c
    using that by (auto simp: item)
  have m': "m' = execute_tree r (\<lambda>_. True) (gv_eval t) l n m"
    by (simp add: m'_def n_def gv_valid_thread_def [abs_def])
  note run = execute_tree_blind [OF ok r, where W = ?W and eval = "gv_eval t" and U = "{b} \<times> UNIV" and s = m
      and stored = ?v, folded m']
  show "m' (maddr_lin (gv_lhs t) i) = (\<Sum>j<gv_c_dim t. gv_mat t m i j * gv_x t m j)" if "i < gv_nc_dim t" for i
    by (rule run(1), (rule frame, assumption)[], (rule vals, assumption+)[], (rule disj, assumption)[], rule sub)
      (use that n in simp_all)
  show "m' c = m c" if "fst c \<noteq> b"
    by (rule run(2), (rule frame, assumption)[], (rule vals, assumption+)[], (rule disj, assumption)[], rule sub)
      (use that b in \<open>auto simp: gv_apart_def split: if_splits\<close>)
qed

section \<open>A group of the kernel with local memory\<close>

text \<open>The element of \<open>x\<close> in cell \<open>c\<close> of local memory, and the element of the matrix an item uses with it:
  zero outside the matrix.\<close>

definition gv_x_block :: "Gemv \<Rightarrow> 'v::zero mem \<Rightarrow> nat \<Rightarrow> nat \<Rightarrow> 'v" where
  "gv_x_block t m g c = (if c + g * gv_local_range t < vv_size (gv_vector_x t)
     then gv_x t m (c + g * gv_local_range t) else 0)"

definition gv_mat_block :: "Gemv \<Rightarrow> 'v::zero mem \<Rightarrow> nat \<Rightarrow> nat \<Rightarrow> nat \<Rightarrow> nat \<Rightarrow> 'v" where
  "gv_mat_block t m h g i c =
     (if c + g * gv_local_range t < gv_c_dim t \<and> i + h * gv_local_range t < gv_nc_dim t
      then gv_mat t m (i + h * gv_local_range t) (c + g * gv_local_range t) else 0)"

lemma gv_group_ids:
  "gv_nc_group_id t it = nd_group it div gv_wgs_per_c t" "gv_c_group_id t it = nd_group it mod gv_wgs_per_c t"
  by (simp_all add: gv_nc_group_id_def gv_c_group_id_def minus_div_mult_eq_mod)

lemma gv_partial_block:
  fixes m :: "'v::semiring_0 mem"
  assumes "vv_size (gv_vector_x t) = gv_c_dim t" "i + h * gv_local_range t < gv_nc_dim t"
  shows "(\<Sum>c<gv_local_range t. gv_mat_block t m h g i c * gv_x_block t m g c)
       = gv_partial t m (i + h * gv_local_range t) g"
  using assms by (simp add: gv_partial_def gv_mat_block_def gv_x_block_def Let_def)
    (intro sum.cong, auto)

lemma phase_load_x:
  fixes gs :: "'v::semiring_0 gv_state"
  assumes "distinct xs" "set xs = {..<gv_local_range t}"
  shows "fold (gv_load_x t it) xs gs
       = gs\<lparr>gs_local := \<lambda>c. if c < gv_local_range t then gv_x_block t (gs_mem gs) (gv_c_group_id t it) c
            else gs_local gs c\<rparr>"
  using phase_local [where upd = "gv_load_x t it" and P = "\<lambda>_. True" and xs = xs and n = "gv_local_range t" and
      v = "\<lambda>l s f. gv_x_block t s (gv_c_group_id t it) l" and gs = gs] assms
  by (simp add: gv_load_x_def gv_x_block_def Let_def)

lemma phase_load_x_start:
  fixes s :: "'v::semiring_0 mem"
  assumes "distinct xs" "set xs = {..<gv_local_range t}"
  shows "fold (gv_load_x t it) xs \<lparr>gs_mem = s, gs_local = f, gs_priv = p\<rparr>
       = \<lparr>gs_mem = s, gs_local = \<lambda>c. if c < gv_local_range t then gv_x_block t s (gv_c_group_id t it) c else f c,
          gs_priv = p\<rparr>"
  unfolding phase_load_x [OF assms] by (simp cong: if_cong)

definition gv_out :: "Gemv \<Rightarrow> nat \<Rightarrow> nat \<Rightarrow> addr" where
  "gv_out t i g = maddr_lin (gv_lhs t) (i + g * gv_nc_dim t)"

text \<open>The result has one column for every block of \<open>local_range\<close> columns of the matrix.\<close>

definition gv_wf :: "nat \<Rightarrow> Gemv \<Rightarrow> bool" where
  "gv_wf b t \<longleftrightarrow> gv_apart b t \<and> 0 < gv_local_range t \<and> 0 < gv_wgs_per_c t \<and>
     wf_matrix_view (gv_lhs t) \<and> mv_get_size (gv_lhs t) = gv_nc_dim t * gv_wgs_per_c t \<and>
     vv_size (gv_vector_x t) = gv_c_dim t"

lemma gv_out_inj:
  assumes "gv_wf b t" "i < gv_nc_dim t" "i' < gv_nc_dim t" "g < gv_wgs_per_c t" "g' < gv_wgs_per_c t"
    and "gv_out t i g = gv_out t i' g'"
  shows "i = i' \<and> g = g'"
proof -
  have sz: "i + g * gv_nc_dim t < mv_get_size (gv_lhs t)"
    if "i < gv_nc_dim t" "g < gv_wgs_per_c t" for i g
  proof -
    have "i + g * gv_nc_dim t < Suc g * gv_nc_dim t" using that by simp
    also have "\<dots> \<le> gv_wgs_per_c t * gv_nc_dim t" using that by (intro mult_le_mono1) simp
    finally show ?thesis using assms(1) by (simp add: gv_wf_def mult.commute)
  qed
  have "i + g * gv_nc_dim t = i' + g' * gv_nc_dim t"
    using mat.addr_inj [of "gv_lhs t" "i + g * gv_nc_dim t" "i' + g' * gv_nc_dim t"] assms sz
    by (simp add: gv_out_def gv_wf_def)
  then show ?thesis
    using ld_index_inj [of i "gv_nc_dim t" i' "gv_nc_dim t" g g'] assms by (simp add: mult.commute)
qed

lemma gv_out_apart: "gv_wf b t \<Longrightarrow> fst (gv_out t i g) = b"
  by (simp add: gv_out_def gv_wf_def gv_apart_def)

lemma row_sum_value:
  fixes m :: "'v::semiring_0 mem"
  assumes "\<not> gv_is_transposed t" "i + h * gv_local_range t < gv_nc_dim t"
    and f: "\<And>c. c < gv_local_range t \<Longrightarrow> f c = gv_x_block t m g c"
    and "vv_size (gv_vector_x t) = gv_c_dim t"
  shows "fst (foldl (\<lambda>(s, k) c. (mad (gv_a t m k) (f c) s, k + mv_sizeL (gv_matrix_a t)))
           (0, i + h * gv_local_range t + g * gv_local_range t * mv_sizeL (gv_matrix_a t))
           [0..<min (gv_c_dim t - g * gv_local_range t) (gv_local_range t)])
       = gv_partial t m (i + h * gv_local_range t) g"
proof -
  let ?l = "gv_local_range t" and ?n = "min (gv_c_dim t - g * gv_local_range t) (gv_local_range t)"
  have "(\<Sum>c<?n. gv_a t m (i + h * ?l + g * ?l * mv_sizeL (gv_matrix_a t) + c * mv_sizeL (gv_matrix_a t)) * f c)
      = (\<Sum>c<?n. gv_mat_block t m h g i c * gv_x_block t m g c)"
    using assms by (intro sum.cong) (auto simp: gv_mat_block_def gv_mat_def algebra_simps)
  also have "\<dots> = (\<Sum>c<?l. gv_mat_block t m h g i c * gv_x_block t m g c)"
    by (intro sum.mono_neutral_left) (auto simp: gv_mat_block_def)
  finally show ?thesis using assms(2,4) by (simp add: foldl_pair foldl_mad gv_partial_block)
qed

text \<open>Both forms of the kernel end with a phase in which the items inside the matrix store \<open>v\<close>.\<close>

lemma phase_out:
  fixes gs :: "'v::semiring_0 gv_state"
  assumes wf: "gv_wf b t" and h: "h = gv_nc_group_id t it" and g: "g = gv_c_group_id t it"
    and upd: "\<And>l gs. upd l gs = (if l + h * gv_local_range t < gv_nc_dim t
        then gs\<lparr>gs_mem := (gs_mem gs)(gv_out t (l + h * gv_local_range t) g := v l (gs_mem gs) (gs_local gs) (gs_priv gs))\<rparr>
        else gs)"
    and reads: "\<And>l s s' f p. (\<And>d. d \<notin> {b} \<times> UNIV \<Longrightarrow> s d = s' d) \<Longrightarrow> v l s f p = v l s' f p"
    and xs: "distinct xs" "set xs = {..<gv_local_range t}"
  shows "l < gv_local_range t \<Longrightarrow> l + h * gv_local_range t < gv_nc_dim t \<Longrightarrow>
      gs_mem (fold upd xs gs) (gv_out t (l + h * gv_local_range t) g) = v l (gs_mem gs) (gs_local gs) (gs_priv gs)"
    and "(\<And>l. l < gv_local_range t \<Longrightarrow> l + h * gv_local_range t < gv_nc_dim t \<Longrightarrow> c \<noteq> gv_out t (l + h * gv_local_range t) g) \<Longrightarrow>
      gs_mem (fold upd xs gs) c = gs_mem gs c"
proof -
  let ?P = "\<lambda>l. l + h * gv_local_range t < gv_nc_dim t" and ?a = "\<lambda>l. gv_out t (l + h * gv_local_range t) g"
  have gw: "g < gv_wgs_per_c t" using wf by (simp add: g gv_group_ids gv_wf_def)
  have inj: "inj_on ?a {l. l < gv_local_range t \<and> ?P l}"
  proof (rule inj_onI)
    fix x y assume "x \<in> {l. l < gv_local_range t \<and> ?P l}" "y \<in> {l. l < gv_local_range t \<and> ?P l}" "?a x = ?a y"
    then show "x = y" using gv_out_inj [OF wf _ _ gw gw, of "x + h * gv_local_range t" "y + h * gv_local_range t"] by simp
  qed
  have U: "?a l \<in> {b} \<times> UNIV" for l using gv_out_apart [OF wf] by (simp add: mem_Times_iff)
  note phase = phase_mem [where upd = upd and P = ?P and a = ?a and v = v and n = "gv_local_range t" and
      U = "{b} \<times> UNIV" and xs = xs and gs = gs, OF upd inj U reads xs]
  show "l < gv_local_range t \<Longrightarrow> ?P l \<Longrightarrow> gs_mem (fold upd xs gs) (?a l) = v l (gs_mem gs) (gs_local gs) (gs_priv gs)"
    by (rule phase(1))
  show "(\<And>l. l < gv_local_range t \<Longrightarrow> ?P l \<Longrightarrow> c \<noteq> ?a l) \<Longrightarrow> gs_mem (fold upd xs gs) c = gs_mem gs c"
    by (rule phase(2))
qed

text \<open>The cells of a group, and what it leaves there.\<close>

definition gv_group_cells :: "Gemv \<Rightarrow> nat \<Rightarrow> nat \<Rightarrow> addr set" where
  "gv_group_cells t h g =
     {gv_out t (l + h * gv_local_range t) g | l. l < gv_local_range t \<and> l + h * gv_local_range t < gv_nc_dim t}"

definition gv_group_ok :: "Gemv \<Rightarrow> nd_item \<Rightarrow> ('v::semiring_0 mem \<Rightarrow> 'v mem) \<Rightarrow> (nat \<Rightarrow> nat \<Rightarrow> 'v mem \<Rightarrow> 'v) \<Rightarrow> bool" where
  "gv_group_ok t it run v \<longleftrightarrow>
     (let h = gv_nc_group_id t it; g = gv_c_group_id t it; l = gv_local_range t
      in \<forall>s. (\<forall>i < l. i + h * l < gv_nc_dim t \<longrightarrow> run s (gv_out t (i + h * l) g) = v (i + h * l) g s) \<and>
             (\<forall>c. c \<notin> gv_group_cells t h g \<longrightarrow> run s c = s c))"

lemma run_group_rows:
  fixes t :: Gemv and r :: "'v::semiring_0 device_run"
  assumes r: "is_run r" and wf: "gv_wf b t" and tr: "\<not> gv_is_transposed t"
  shows "gv_group_ok t it (run_group r k (gv_local_range t) (0, 0) (gv_phases t it)) (\<lambda>i g s. gv_partial t s i g)"
  unfolding gv_group_ok_def Let_def
proof (intro allI conjI impI)
  fix s :: "'v mem" and i c
  define h g l where "h = gv_nc_group_id t it" and "g = gv_c_group_id t it" and "l = gv_local_range t"
  note ap = wf [unfolded gv_wf_def, THEN conjunct1]
  define xs ys where "xs = item_order r k 0 l" and "ys = item_order r k 1 l"
  have xs: "distinct xs" "set xs = {..<gv_local_range t}" and ys: "distinct ys" "set ys = {..<gv_local_range t}"
    using run_items [OF r] by (simp_all add: xs_def ys_def l_def)
  define gs where "gs = \<lparr>gs_mem = s, gs_local = \<lambda>c. if c < l then gv_x_block t s g c else local_init r k c,
      gs_priv = \<lambda>_. (0 :: 'v, 0 :: nat)\<rparr>"
  have run: "run_group r k (gv_local_range t) (0, 0) (gv_phases t it) s = gs_mem (fold (gv_row_sum t it) ys gs)"
    by (simp add: run_group_def gv_phases_def tr xs_def [symmetric] l_def [symmetric] gs_def
        ys_def [unfolded One_nat_def, symmetric] phase_load_x_start [OF xs, folded l_def] g_def cong: if_cong)
  let ?v = "\<lambda>i s (f :: nat \<Rightarrow> 'v) (p :: nat \<Rightarrow> 'v \<times> nat).
     fst (foldl (\<lambda>(s', k) c. (mad (gv_a t s k) (f c) s', k + mv_sizeL (gv_matrix_a t)))
           (0, i + h * l + g * l * mv_sizeL (gv_matrix_a t)) [0..<min (gv_c_dim t - g * l) l])"
  have upd: "gv_row_sum t it i gs = (if i + h * gv_local_range t < gv_nc_dim t
        then gs\<lparr>gs_mem := (gs_mem gs)(gv_out t (i + h * gv_local_range t) g := ?v i (gs_mem gs) (gs_local gs) (gs_priv gs))\<rparr>
        else gs)" for i gs
    by (simp add: gv_row_sum_def Let_def gv_out_def h_def g_def l_def)
  have reads: "?v i s f p = ?v i s' f p" if "\<And>d. d \<notin> {b} \<times> UNIV \<Longrightarrow> s d = s' d" for i s s' f p
    using gv_reads(1) [OF ap, of s s', OF that] by simp
  note out = phase_out [OF wf h_def g_def upd reads ys, where gs = gs]
  show "run_group r k (gv_local_range t) (0, 0) (gv_phases t it) s (gv_out t (i + gv_nc_group_id t it * gv_local_range t) (gv_c_group_id t it))
      = gv_partial t s (i + gv_nc_group_id t it * gv_local_range t) (gv_c_group_id t it)"
    if i: "i < gv_local_range t" "i + gv_nc_group_id t it * gv_local_range t < gv_nc_dim t"
  proof -
    have "?v i s (gs_local gs) (gs_priv gs) = gv_partial t s (i + h * l) g"
      unfolding l_def
      by (rule row_sum_value [OF tr]) (use i wf in \<open>simp_all add: h_def gs_def l_def gv_wf_def\<close>)
    then show ?thesis
      using out(1) [of i, folded l_def] i by (simp add: run gs_def h_def g_def l_def)
  qed
  show "run_group r k (gv_local_range t) (0, 0) (gv_phases t it) s c = s c"
    if "c \<notin> gv_group_cells t (gv_nc_group_id t it) (gv_c_group_id t it)"
    unfolding run using that by (subst out(2)) (auto simp: gv_group_cells_def h_def g_def gs_def)
qed

subsection \<open>Tiles\<close>

text \<open>The geometry of a tile: cell \<open>c\<close> of line \<open>i\<close>, and the condition under which the items cover it.\<close>

definition tile_cell :: "nat \<Rightarrow> nat \<Rightarrow> nat \<Rightarrow> nat" where
  "tile_cell l c i = l + ((l + 1) * c + i)"

lemma tile_cell_inj:
  "i < l \<Longrightarrow> i' < l \<Longrightarrow> tile_cell l c i = tile_cell l c' i' \<Longrightarrow> c = c' \<and> i = i'"
  using ld_index_inj [of i "l + 1" i' "l + 1" c c'] by (simp add: tile_cell_def)

lemma foldl_writes_miss:
  "c \<notin> a ` {..<n} \<Longrightarrow> foldl (\<lambda>f j. f(a j := v j)) f [0..<n] c = f c"
  by (induction n) (simp_all add: lessThan_Suc)

lemma foldl_writes_hit:
  assumes "inj_on a {..<n}" "j < n"
  shows "foldl (\<lambda>f j. f(a j := v j)) f [0..<n] (a j) = v j"
  using assms
proof (induction n)
  case (Suc n)
  have "inj_on a {..<n}" using Suc.prems(1) by (simp add: lessThan_Suc)
  moreover have "a j \<noteq> a n" if "j \<noteq> n"
    using inj_onD [OF Suc.prems(1), of j n] that Suc.prems(2) by auto
  ultimately show ?case using Suc.IH Suc.prems(2) by (cases "j = n") auto
qed simp

text \<open>Item \<open>i\<close> of a group copies the elements \<open>i div cl + j * (l div cl)\<close> of line \<open>i mod cl\<close>.\<close>

definition tile_owner :: "nat \<Rightarrow> nat \<Rightarrow> nat \<Rightarrow> nat set" where
  "tile_owner l cl i = (\<lambda>j. tile_cell l (i mod cl) (i div cl + j * (l div cl))) ` {..<cl}"

lemma tile_row_less:
  fixes cl l i j :: nat
  assumes "0 < cl" "cl dvd l" "i < l" "j < cl"
  shows "i div cl + j * (l div cl) < l" "i div cl < l div cl"
proof -
  obtain d where d: "l = cl * d" using assms(2) by (auto simp: dvd_def)
  have "i div cl < d" using less_mult_imp_div_less [of i d cl] assms(3) d by (simp add: mult.commute)
  then show 1: "i div cl < l div cl" using assms(1) d by simp
  have "i div cl + j * (l div cl) < (l div cl) * Suc j" using 1 by simp
  also have "\<dots> \<le> (l div cl) * cl" using assms by (intro mult_le_mono2) simp
  finally show "i div cl + j * (l div cl) < l" using assms by simp
qed

lemma tile_owner_disjoint:
  assumes "0 < cl" "cl dvd l" "i < l" "i' < l" "i \<noteq> i'"
  shows "tile_owner l cl i \<inter> tile_owner l cl i' = {}"
proof (rule ccontr)
  assume "tile_owner l cl i \<inter> tile_owner l cl i' \<noteq> {}"
  then obtain j j' where j: "j < cl" "j' < cl"
    and "tile_cell l (i mod cl) (i div cl + j * (l div cl)) = tile_cell l (i' mod cl) (i' div cl + j' * (l div cl))"
    unfolding tile_owner_def disjoint_iff image_iff by (metis lessThan_iff)
  then have eq: "i mod cl = i' mod cl" "i div cl + j * (l div cl) = i' div cl + j' * (l div cl)"
    using tile_cell_inj [OF tile_row_less(1) [OF assms(1-3) j(1)] tile_row_less(1) [OF assms(1,2,4) j(2)]] by auto
  have "i div cl = i' div cl"
    using ld_index_inj [of "i div cl" "l div cl" "i' div cl" "l div cl" j j'] eq(2)
      tile_row_less(2) [OF assms(1-3) j(1)] tile_row_less(2) [OF assms(1,2,4) j(2)] by (simp add: mult.commute)
  then show False using eq(1) assms(5) by (metis div_mult_mod_eq)
qed

lemma tile_owner_exists:
  assumes "0 < cl" "cl dvd l" "c < cl" "i < l"
  obtains k where "k < l" "tile_cell l c i \<in> tile_owner l cl k"
proof
  let ?d = "l div cl"
  let ?k = "(i mod ?d) * cl + c"
  have l: "?d * cl = l" using assms by simp
  have d: "0 < ?d" using assms l by (cases "?d = 0") auto
  have "?k < (i mod ?d) * cl + cl" using assms by simp
  also have "\<dots> = Suc (i mod ?d) * cl" by simp
  also have "\<dots> \<le> ?d * cl" using d by (intro mult_le_mono1) (simp add: Suc_leI)
  finally show "?k < l" using l by simp
  have "i div ?d < cl" using assms d l by (simp add: div_less_iff_less_mult mult.commute)
  moreover have "tile_cell l c i = tile_cell l (?k mod cl) (?k div cl + i div ?d * ?d)"
    using assms(3) by (simp add: mod_div_mult_eq)
  ultimately show "tile_cell l c i \<in> tile_owner l cl ?k"
    unfolding tile_owner_def by blast
qed

lemma tile_owner_cells:
  assumes "0 < cl" "cl dvd l" "k < l" "x \<in> tile_owner l cl k"
  obtains c i where "c < cl" "i < l" "x = tile_cell l c i"
proof -
  obtain j where "j < cl" "x = tile_cell l (k mod cl) (k div cl + j * (l div cl))"
    using assms(4) unfolding tile_owner_def by blast
  then show thesis
    using that tile_row_less(1) [OF assms(1-3)] assms(1) by (metis mod_less_divisor)
qed

lemma tile_cell_coords:
  "i < l \<Longrightarrow> (tile_cell l c i - l) mod (l + 1) = i" "i < l \<Longrightarrow> (tile_cell l c i - l) div (l + 1) = c"
proof -
  assume i: "i < l"
  have eq: "tile_cell l c i - l = i + c * (l + 1)" by (simp add: tile_cell_def algebra_simps)
  show "(tile_cell l c i - l) mod (l + 1) = i" unfolding eq using i by (subst mod_mult_self1) simp
  show "(tile_cell l c i - l) div (l + 1) = c" unfolding eq using i by (subst div_mult_self1) simp_all
qed

lemma foldl_quad:
  "foldl (\<lambda>(f, p, q, r) j. (F f p q r j, p + dp, q + dq, r + dr)) (f, p, q, r) [0..<n]
     = (foldl (\<lambda>f j. F f (p + j * dp) (q + j * dq) (r + j * dr) j) f [0..<n], p + n * dp, q + n * dq, r + n * dr)"
  for dp dq dr :: nat
  by (induction n) (simp_all add: algebra_simps)

lemma foldl_triple:
  "foldl (\<lambda>(s, p, q) j. (F s p q j, p + dp, q + dq)) (s, p, q) [0..<n]
     = (foldl (\<lambda>s j. F s (p + j * dp) (q + j * dq) j) s [0..<n], p + n * dp, q + n * dq)"
  for dp dq :: nat
  by (induction n) (simp_all add: algebra_simps)

lemma extract_input_block_eq:
  assumes "gv_is_transposed t" "l = gv_local_range t" "cl = gv_cl_elems t" "g = gv_c_group_id t it"
    "h = gv_nc_group_id t it"
  shows "extract_input_block t it n k m f =
     foldl (\<lambda>f j. f(tile_cell l (k mod cl) (k div cl + j * (l div cl)) :=
              gv_mat_block t m h g (k div cl + j * (l div cl)) (k mod cl + n * cl))) f [0..<cl]"
proof -
  have eq: "f(l + ((l + 1) * (k mod cl) + (k div cl + j * (l div cl))) :=
        (if k mod cl + n * cl + g * l < gv_c_dim t \<and> k div cl + h * l + j * (l div cl) < gv_nc_dim t
         then gv_a t m (k mod cl + n * cl + g * l + (k div cl + h * l) * mv_sizeL (gv_matrix_a t)
                        + j * (l div cl * mv_sizeL (gv_matrix_a t))) else 0))
      = f(tile_cell l (k mod cl) (k div cl + j * (l div cl)) :=
            gv_mat_block t m h g (k div cl + j * (l div cl)) (k mod cl + n * cl))" for f j
    using assms(1,2) by (simp add: tile_cell_def gv_mat_block_def gv_mat_def algebra_simps)
  show ?thesis
    unfolding extract_input_block_def Let_def assms(2-5) [symmetric] foldl_quad fst_conv eq ..
qed

lemma phase_extract:
  fixes gs :: "'v::semiring_0 gv_state"
  assumes "gv_is_transposed t" and l: "l = gv_local_range t" and cl: "cl = gv_cl_elems t"
    and g: "g = gv_c_group_id t it" and h: "h = gv_nc_group_id t it"
    and d: "0 < cl" "cl dvd l"
    and xs: "distinct xs" "set xs = {..<l}"
  obtains f where "fold (gv_extract t it n) xs gs = gs\<lparr>gs_local := f\<rparr>"
    and "\<And>c. c < l \<Longrightarrow> f c = gs_local gs c"
    and "\<And>c i. c < cl \<Longrightarrow> i < l \<Longrightarrow> f (tile_cell l c i) = gv_mat_block t (gs_mem gs) h g i (c + n * cl)"
proof -
  let ?step = "extract_input_block t it n :: nat \<Rightarrow> 'v mem \<Rightarrow> (nat \<Rightarrow> 'v) \<Rightarrow> nat \<Rightarrow> 'v"
  let ?v = "\<lambda>(k :: nat) s x. gv_mat_block t s h g ((x - l) mod (l + 1)) ((x - l) div (l + 1) + n * cl) :: 'v"
  note step = extract_input_block_eq [OF assms(1) l cl g h]
  have inj: "inj_on (\<lambda>j. tile_cell l (k mod cl) (k div cl + j * (l div cl))) {..<cl}" if "k < l" for k
  proof (rule inj_onI)
    fix j j' assume j: "j \<in> {..<cl}" "j' \<in> {..<cl}"
      "tile_cell l (k mod cl) (k div cl + j * (l div cl)) = tile_cell l (k mod cl) (k div cl + j' * (l div cl))"
    have "0 < l div cl" using tile_row_less(2) [OF d that, of j] j by simp
    then show "j = j'"
      using tile_cell_inj [OF tile_row_less(1) [OF d that, of j] tile_row_less(1) [OF d that, of j']] j by auto
  qed
  have frame: "?step k s f c = f c" if "c \<notin> tile_owner l cl k" for k s f c
    unfolding step using that by (intro foldl_writes_miss) (auto simp: tile_owner_def)
  have vals: "?step k s f c = ?v k s c" if k: "k < l" and c: "c \<in> tile_owner l cl k" for k s f c
  proof -
    obtain j where j: "j < cl" "c = tile_cell l (k mod cl) (k div cl + j * (l div cl))"
      using c by (auto simp: tile_owner_def)
    show ?thesis
      unfolding step j(2) foldl_writes_hit [OF inj [OF k] j(1)] tile_cell_coords [OF tile_row_less(1) [OF d k j(1)]] ..
  qed
  obtain f where f: "fold (gv_extract t it n) xs gs = gs\<lparr>gs_local := f\<rparr>"
    and hit: "\<And>k c. k < l \<Longrightarrow> c \<in> tile_owner l cl k \<Longrightarrow> f c = ?v k (gs_mem gs) c"
    and miss: "\<And>c. (\<And>k. k < l \<Longrightarrow> c \<notin> tile_owner l cl k) \<Longrightarrow> f c = gs_local gs c"
    by (rule phase_local_cells [where upd = "gv_extract t it n" and W = "tile_owner l cl" and n = l and
        step = ?step and v = ?v and gs = gs, OF gv_extract_def frame vals tile_owner_disjoint [OF d] xs]) (assumption+, rule that, assumption, blast+)
  show thesis
  proof
    show "fold (gv_extract t it n) xs gs = gs\<lparr>gs_local := f\<rparr>" by (rule f)
    show "f c = gs_local gs c" if "c < l" for c
      by (rule miss) (use that in \<open>auto simp: tile_owner_def tile_cell_def\<close>)
    show "f (tile_cell l c i) = gv_mat_block t (gs_mem gs) h g i (c + n * cl)" if ci: "c < cl" "i < l" for c i
    proof -
      obtain k where "k < l" "tile_cell l c i \<in> tile_owner l cl k"
        using tile_owner_exists [OF d ci] by blast
      from hit [OF this] show ?thesis by (simp only: tile_cell_coords [OF ci(2)])
    qed
  qed
qed

lemma gv_tile_sum_eq:
  fixes gs :: "'v::semiring_0 gv_state"
  assumes "l = gv_local_range t" "cl = gv_cl_elems t"
  shows "gv_tile_sum t i gs = gs\<lparr>gs_priv := (gs_priv gs)(i :=
     (fst (gs_priv gs i) + (\<Sum>c<cl. gs_local gs (tile_cell l c i) * gs_local gs (snd (gs_priv gs i) + c)),
      snd (gs_priv gs i) + cl))\<rparr>"
proof (cases "gs_priv gs i")
  case (Pair s p)
  have "l + (i + c * (l + 1)) = tile_cell l c i" for c
    by (simp add: tile_cell_def algebra_simps)
  then show ?thesis
    using foldl_mad [of "\<lambda>c. gs_local gs (tile_cell l c i)" "\<lambda>c. gs_local gs (p + c)" s cl]
    unfolding gv_tile_sum_def Let_def assms [symmetric] Pair prod.case foldl_triple by simp
qed

lemma sum_append:
  fixes f :: "nat \<Rightarrow> 'a::comm_monoid_add"
  shows "(\<Sum>c<a. f c) + (\<Sum>c<b. f (a + c)) = (\<Sum>c<a + b. f c)"
  by (induction b) (simp_all add: add.assoc [symmetric])

text \<open>What holds after \<open>n\<close> tiles.\<close>

definition tiles_done ::
  "Gemv \<Rightarrow> 'v::semiring_0 mem \<Rightarrow> nat \<Rightarrow> nat \<Rightarrow> nat \<Rightarrow> 'v gv_state \<Rightarrow> bool" where
  "tiles_done t s h g n gs \<longleftrightarrow>
     (let l = gv_local_range t; cl = gv_cl_elems t
      in gs_mem gs = s \<and> (\<forall>c < l. gs_local gs c = gv_x_block t s g c) \<and>
         (\<forall>i < l. gs_priv gs i = (\<Sum>c<n * cl. gv_mat_block t s h g i c * gv_x_block t s g c, n * cl)))"

lemma tile_step:
  fixes gs :: "'v::semiring_0 gv_state"
  assumes tr: "gv_is_transposed t" and d: "0 < gv_cl_elems t" "gv_cl_elems t dvd gv_local_range t"
    and n: "n < gv_local_range t div gv_cl_elems t"
    and xs: "distinct xs" "set xs = {..<gv_local_range t}" and ys: "distinct ys" "set ys = {..<gv_local_range t}"
    and inv: "tiles_done t s (gv_nc_group_id t it) (gv_c_group_id t it) n gs"
  shows "tiles_done t s (gv_nc_group_id t it) (gv_c_group_id t it) (Suc n)
           (fold (gv_tile_sum t) ys (fold (gv_extract t it n) xs gs))"
proof -
  define h g l cl where "h = gv_nc_group_id t it" and "g = gv_c_group_id t it" and l: "l = gv_local_range t"
    and cl: "cl = gv_cl_elems t"
  have inv: "gs_mem gs = s" "\<And>c. c < l \<Longrightarrow> gs_local gs c = gv_x_block t s g c"
    "\<And>i. i < l \<Longrightarrow> gs_priv gs i = (\<Sum>c<n * cl. gv_mat_block t s h g i c * gv_x_block t s g c, n * cl)"
    using inv by (simp_all add: tiles_done_def Let_def l cl h_def g_def)
  obtain f where f: "fold (gv_extract t it n) xs gs = gs\<lparr>gs_local := f\<rparr>"
    and x: "\<And>c. c < l \<Longrightarrow> f c = gs_local gs c"
    and a: "\<And>c i. c < cl \<Longrightarrow> i < l \<Longrightarrow> f (tile_cell l c i) = gv_mat_block t (gs_mem gs) h g i (c + n * cl)"
    by (rule phase_extract [OF tr l cl g_def h_def d [folded l cl] xs [folded l]]) blast
  have "n * cl + cl \<le> l"
  proof -
    have "Suc n * cl \<le> (l div cl) * cl" using n by (intro mult_le_mono1) (simp add: l cl Suc_leI)
    then show ?thesis using d by (simp add: l cl)
  qed
  then have "(\<Sum>c<cl. f (tile_cell l c i) * f (n * cl + c))
      = (\<Sum>c<cl. gv_mat_block t s h g i (n * cl + c) * gv_x_block t s g (n * cl + c))" if "i < l" for i
    using that by (intro sum.cong) (simp_all add: a x inv add.commute)
  then have sum: "(\<Sum>c<n * cl. gv_mat_block t s h g i c * gv_x_block t s g c) + (\<Sum>c<cl. f (tile_cell l c i) * f (n * cl + c))
      = (\<Sum>c<Suc n * cl. gv_mat_block t s h g i c * gv_x_block t s g c)" if "i < l" for i
    using that sum_append [of "\<lambda>c. gv_mat_block t s h g i c * gv_x_block t s g c" "n * cl" cl]
    by (simp add: add.commute)
  have "fold (gv_tile_sum t) ys (gs\<lparr>gs_local := f\<rparr>)
      = gs\<lparr>gs_local := f, gs_priv := \<lambda>i. if i < l then (fst (gs_priv gs i) + (\<Sum>c<cl. f (tile_cell l c i) * f (snd (gs_priv gs i) + c)),
            snd (gs_priv gs i) + cl) else gs_priv gs i\<rparr>"
    using phase_private [where upd = "gv_tile_sum t" and xs = ys and n = l and gs = "gs\<lparr>gs_local := f\<rparr>" and
        v = "\<lambda>i s f p. (fst p + (\<Sum>c<cl. f (tile_cell l c i) * f (snd p + c)), snd p + cl)",
        OF gv_tile_sum_eq [OF l cl] ys [folded l]] by (simp cong: if_cong)
  then show ?thesis
    by (simp add: f tiles_done_def Let_def l [symmetric] cl [symmetric] h_def [symmetric] g_def [symmetric]
        inv x sum)
qed

lemma run_tiles:
  fixes gs :: "'v::semiring_0 gv_state"
  assumes tr: "gv_is_transposed t" and d: "0 < gv_cl_elems t" "gv_cl_elems t dvd gv_local_range t"
    and ord: "\<And>k. distinct (ord k)" "\<And>k. set (ord k) = {..<gv_local_range t}"
    and inv: "tiles_done t s (gv_nc_group_id t it) (gv_c_group_id t it) 0 gs"
    and n: "n \<le> gv_local_range t div gv_cl_elems t"
  shows "tiles_done t s (gv_nc_group_id t it) (gv_c_group_id t it) n
           (run_phases ord k (concat (map (\<lambda>i. [gv_extract t it i, gv_tile_sum t]) [0..<n])) gs)"
  using n
proof (induction n)
  case 0
  then show ?case using inv by simp
next
  case (Suc n)
  then have n: "n < gv_local_range t div gv_cl_elems t" "n \<le> gv_local_range t div gv_cl_elems t" by auto
  show ?case
    using tile_step [OF tr d n(1) ord ord Suc.IH [OF n(2)]] by (simp add: run_phases_append)
qed

text \<open>When \<open>cl_elems\<close> does not exceed \<open>local_range\<close>, it must divide it; when it does, there is no tile at
  all, and every item stores 0.\<close>

lemma run_group_tiles:
  fixes t :: Gemv and r :: "'v::semiring_0 device_run"
  assumes r: "is_run r" and wf: "gv_wf b t" and tr: "gv_is_transposed t"
    and d: "0 < gv_cl_elems t" "gv_cl_elems t dvd gv_local_range t \<or> gv_local_range t < gv_cl_elems t"
  shows "gv_group_ok t it (run_group r k (gv_local_range t) (0, 0) (gv_phases t it))
    (\<lambda>i g s. if gv_local_range t < gv_cl_elems t then 0 else gv_partial t s i g)"
  unfolding gv_group_ok_def Let_def
proof (intro allI conjI impI)
  fix s :: "'v mem" and i c
  define h g l cl where "h = gv_nc_group_id t it" and "g = gv_c_group_id t it" and "l = gv_local_range t"
    and "cl = gv_cl_elems t"
  let ?ord = "\<lambda>k'. item_order r k k' l"
  have ord: "distinct (?ord j)" "set (?ord j) = {..<gv_local_range t}" for j
    using run_items [OF r] by (simp_all add: l_def)
  define gs where "gs = \<lparr>gs_mem = s, gs_local = \<lambda>c. if c < l then gv_x_block t s g c else local_init r k c,
      gs_priv = \<lambda>_. (0 :: 'v, 0 :: nat)\<rparr>"
  define gs' where "gs' = run_phases ?ord 1 (concat (map (\<lambda>i. [gv_extract t it i, gv_tile_sum t]) [0..<l div cl])) gs"
  have start: "tiles_done t s h g 0 gs" by (simp add: tiles_done_def gs_def l_def)
  have priv: "fst (gs_priv gs' i) = (if l < cl then 0 else gv_partial t s (i + h * l) g)" "gs_mem gs' = s"
    if "i < l" "i + h * l < gv_nc_dim t" for i
  proof -
    have "tiles_done t s h g (l div cl) gs'"
    proof (cases "l < cl")
      case True
      then show ?thesis using start by (simp add: gs'_def)
    next
      case False
      then have "gv_cl_elems t dvd gv_local_range t" using d by (simp add: l_def cl_def)
      then show ?thesis
        using run_tiles [OF tr d(1) _ ord start [unfolded h_def g_def]] by (simp add: gs'_def h_def g_def l_def cl_def)
    qed
    moreover have "l div cl * cl = l" if "\<not> l < cl" using d that by (auto simp: l_def cl_def)
    ultimately show "fst (gs_priv gs' i) = (if l < cl then 0 else gv_partial t s (i + h * l) g)"
      "gs_mem gs' = s"
      using that gv_partial_block [of t i h s g] wf by (auto simp: tiles_done_def Let_def l_def cl_def gv_wf_def)
  qed
  have mem: "gs_mem gs' = s"
  proof (cases "l < cl")
    case True
    then show ?thesis by (simp add: gs'_def gs_def)
  next
    case False
    then have "gv_cl_elems t dvd gv_local_range t" using d by (simp add: l_def cl_def)
    then show ?thesis
      using run_tiles [OF tr d(1) _ ord start [unfolded h_def g_def], where n = "l div cl" and k = 1]
      by (simp add: gs'_def tiles_done_def Let_def l_def cl_def)
  qed
  define zs where "zs = ?ord (1 + length (concat (map (\<lambda>i. [gv_extract t it i, gv_tile_sum t :: nat \<Rightarrow> 'v gv_state \<Rightarrow> 'v gv_state]) [0..<l div cl])))"
  have run: "run_group r k (gv_local_range t) (0, 0) (gv_phases t it) s = gs_mem (fold (gv_write t it) zs gs')"
    by (simp add: run_group_def gv_phases_def tr run_phases_append gs'_def zs_def gs_def l_def cl_def g_def
        phase_load_x_start [OF ord [unfolded l_def]] cong: if_cong)
  let ?v = "\<lambda>i (s :: 'v mem) (f :: nat \<Rightarrow> 'v) (p :: nat \<Rightarrow> 'v \<times> nat). fst (p i)"
  have upd: "gv_write t it i gs = (if i + h * gv_local_range t < gv_nc_dim t
        then gs\<lparr>gs_mem := (gs_mem gs)(gv_out t (i + h * gv_local_range t) g := ?v i (gs_mem gs) (gs_local gs) (gs_priv gs))\<rparr>
        else gs)" for i and gs :: "'v gv_state"
    by (simp add: gv_write_def Let_def gv_out_def h_def g_def)
  have zs: "distinct zs" "set zs = {..<gv_local_range t}" unfolding zs_def by (rule ord)+
  note out = phase_out [OF wf h_def g_def upd refl zs, where gs = gs']
  show "run_group r k (gv_local_range t) (0, 0) (gv_phases t it) s (gv_out t (i + gv_nc_group_id t it * gv_local_range t) (gv_c_group_id t it))
      = (if gv_local_range t < gv_cl_elems t then 0 else gv_partial t s (i + gv_nc_group_id t it * gv_local_range t) (gv_c_group_id t it))"
    if "i < gv_local_range t" "i + gv_nc_group_id t it * gv_local_range t < gv_nc_dim t"
    using out(1) [of i] priv(1) [of i] that by (simp add: run h_def g_def l_def cl_def)
  show "run_group r k (gv_local_range t) (0, 0) (gv_phases t it) s c = s c"
    if "c \<notin> gv_group_cells t (gv_nc_group_id t it) (gv_c_group_id t it)"
    unfolding run using that by (subst out(2)) (auto simp: gv_group_cells_def h_def g_def mem)
qed

section \<open>All groups\<close>

lemma gv_groups_disjoint:
  assumes wf: "gv_wf b t" and "k \<noteq> k'"
  shows "gv_group_cells t (k div gv_wgs_per_c t) (k mod gv_wgs_per_c t) \<inter>
         gv_group_cells t (k' div gv_wgs_per_c t) (k' mod gv_wgs_per_c t) = {}"
proof (rule ccontr)
  let ?l = "gv_local_range t" and ?w = "gv_wgs_per_c t"
  assume "\<not> ?thesis"
  then obtain i j where ij: "i < ?l" "i + (k div ?w) * ?l < gv_nc_dim t" "j < ?l" "j + (k' div ?w) * ?l < gv_nc_dim t"
    "gv_out t (i + (k div ?w) * ?l) (k mod ?w) = gv_out t (j + (k' div ?w) * ?l) (k' mod ?w)"
    unfolding gv_group_cells_def disjoint_iff mem_Collect_eq by metis
  have w: "0 < ?w" using wf by (simp add: gv_wf_def)
  have eq: "i + (k div ?w) * ?l = j + (k' div ?w) * ?l" "k mod ?w = k' mod ?w"
    using gv_out_inj [OF wf ij(2,4) _ _ ij(5)] w by auto
  then have "k div ?w = k' div ?w"
    using ld_index_inj [of i ?l j ?l "k div ?w" "k' div ?w"] ij by (simp add: mult.commute)
  then show False using eq(2) assms(2) by (metis div_mult_mod_eq)
qed

lemma gv_local_correct:
  fixes m :: "'v::semiring_0 mem"
  assumes r: "is_run r" and wf: "gv_wf b t" and nc: "gv_nc_dim t \<le> gv_wgs_per_nc t * gv_local_range t"
    "0 < gv_wgs_per_nc t"
    and ok: "\<And>k it. gv_group_ok t it (run_group r k (gv_local_range t) (0, 0) (gv_phases t it)) v"
    and reads: "\<And>i g s. (\<And>d. d \<notin> {b} \<times> UNIV \<Longrightarrow> s d = m d) \<Longrightarrow> v i g s = v i g m"
  defines "m' \<equiv> execute_tree_local r (0, 0) (gv_phases t) (gv_local_range t)
      (gv_local_range t * gv_wgs_per_c t * gv_wgs_per_nc t) m"
  shows "i < gv_nc_dim t \<Longrightarrow> g < gv_wgs_per_c t \<Longrightarrow> m' (gv_out t i g) = v i g m"
    and "fst c \<noteq> b \<Longrightarrow> m' c = m c"
proof -
  define l w G where "l = gv_local_range t" and "w = gv_wgs_per_c t" and "G = l * w * gv_wgs_per_nc t"
  have pos: "0 < l" "0 < w" using wf by (simp_all add: gv_wf_def l_def w_def)
  have rng: "nd_range_ok G l" using pos nc by (simp add: nd_range_ok_def G_def)
  have G: "G div l = w * gv_wgs_per_nc t" using pos by (simp add: G_def mult.assoc)
  let ?W = "\<lambda>k. gv_group_cells t (k div w) (k mod w)"
  let ?run = "\<lambda>k. run_group r k l (0, 0) (gv_phases t (item_of l G (k * l)))"
  have grp: "i < l \<Longrightarrow> i + (k div w) * l < gv_nc_dim t \<Longrightarrow> ?run k s (gv_out t (i + (k div w) * l) (k mod w)) = v (i + (k div w) * l) (k mod w) s"
    "c \<notin> ?W k \<Longrightarrow> ?run k s c = s c" for k s i c
    using ok [of "item_of l G (k * l)" k, folded l_def] pos
    by (cases c, auto simp: gv_group_ok_def Let_def gv_group_ids w_def [symmetric] l_def [symmetric])+
  have vals: "?run k s c = ?run k m c" if c: "c \<in> ?W k" and s: "\<And>d. d \<notin> {b} \<times> UNIV \<Longrightarrow> s d = m d" for k s c
  proof -
    obtain i where i: "i < l" "i + (k div w) * l < gv_nc_dim t" "c = gv_out t (i + (k div w) * l) (k mod w)"
      using c by (auto simp: gv_group_cells_def l_def)
    show ?thesis unfolding i(3) using grp(1) [OF i(1,2)] reads [of s, OF s] by simp
  qed
  have sub: "?W k \<subseteq> {b} \<times> UNIV" for k
  proof
    fix c assume "c \<in> ?W k"
    then have "fst c = b" using gv_out_apart [OF wf] by (auto simp: gv_group_cells_def simp del: split_paired_Ex)
    then show "c \<in> {b} \<times> UNIV" by (simp add: mem_Times_iff)
  qed
  note disj = gv_groups_disjoint [OF wf, folded w_def]
  note run = execute_tree_local_blind [OF rng r, where W = ?W and ?p0.0 = "(0, 0)" and phases = "gv_phases t" and
      U = "{b} \<times> UNIV" and s = m and stored = "\<lambda>k. ?run k m"]
  have m': "m' = execute_tree_local r (0, 0) (gv_phases t) l G m" by (simp add: m'_def l_def w_def G_def)
  show "m' (gv_out t i g) = v i g m" if i: "i < gv_nc_dim t" and g: "g < gv_wgs_per_c t" for i g
  proof -
    let ?k = "(i div l) * w + g"
    have k: "?k div w = i div l" "?k mod w = g" using g pos by (simp_all add: w_def)
    have "i < gv_wgs_per_nc t * l" using i nc by (simp add: l_def)
    then have "i div l < gv_wgs_per_nc t" using less_mult_imp_div_less by blast
    then have "?k < (i div l) * w + w" "Suc (i div l) * w \<le> gv_wgs_per_nc t * w"
      using g by (simp add: w_def, intro mult_le_mono1) simp
    then have "?k < G div l" unfolding G by (simp add: mult.commute)
    moreover have "gv_out t i g \<in> ?W ?k"
      using i pos unfolding k gv_group_cells_def l_def [symmetric]
      by (intro CollectI exI [of _ "i mod l"]) simp
    ultimately have "m' (gv_out t i g) = ?run ?k m (gv_out t i g)"
      unfolding m'
      by - (rule run(1), (rule grp(2), assumption)[], (rule vals, assumption+)[], (rule disj, assumption)[], rule sub)
    also have "\<dots> = v i g m" using grp(1) [of "i mod l" ?k m] i pos unfolding k by simp
    finally show ?thesis .
  qed
  show "m' c = m c" if "fst c \<noteq> b"
    unfolding m'
    by (rule run(2), (rule grp(2), assumption)[], (rule vals, assumption+)[], (rule disj, assumption)[], rule sub)
      (use that sub in \<open>fastforce simp: mem_Times_iff\<close>)
qed

section \<open>The operation\<close>

definition mat_cell :: "BufferIterator \<Rightarrow> nat \<Rightarrow> nat \<Rightarrow> nat \<Rightarrow> addr" where
  "mat_cell it lda i j = (it_buffer it, it_offset it + int (i + j * lda))"

text \<open>Element \<open>(i, j)\<close> of \<open>op(A)\<close>, and the number of its rows and columns.\<close>

definition op_cell :: "transpose_type \<Rightarrow> BufferIterator \<Rightarrow> nat \<Rightarrow> nat \<Rightarrow> nat \<Rightarrow> addr" where
  "op_cell trn it lda i j = (if trn = Normal then mat_cell it lda i j else mat_cell it lda j i)"

definition op_rows :: "transpose_type \<Rightarrow> nat \<Rightarrow> nat \<Rightarrow> nat" where
  "op_rows trn M N = (if trn = Normal then M else N)"

definition op_cols :: "transpose_type \<Rightarrow> nat \<Rightarrow> nat \<Rightarrow> nat" where
  "op_cols trn M N = (if trn = Normal then N else M)"

lemmas matrix_view_defs = make_matrix_view_def MatrixView_of_iter_def make_MatrixView_def
  get_range_accessor_def get_range_accessor_sized_def it_get_size_def make_sycl_iterator_buffer_def

lemma matrix_view_simps [simp]:
  "mv_sizeR (make_matrix_view lay it M N lda) = M" "mv_sizeC (make_matrix_view lay it M N lda) = N"
  "mv_sizeL (make_matrix_view lay it M N lda) = lda" "mv_layout (make_matrix_view lay it M N lda) = lay"
  "mv_disp (make_matrix_view lay it M N lda) = it_offset it"
  "acc_buffer (mv_data (make_matrix_view lay it M N lda)) = it_buffer it"
  by (simp_all add: matrix_view_defs)

lemma buffer_simps [simp]:
  "it_buffer (make_sycl_iterator_buffer b n) = b" "it_offset (make_sycl_iterator_buffer b n) = 0"
  "it_count (make_sycl_iterator_buffer b n) = n"
  by (simp_all add: make_sycl_iterator_buffer_def)

lemma acc_buffer_vector_view [simp]: "acc_buffer (get_range_accessor it) = it_buffer it"
  by (simp add: get_range_accessor_def get_range_accessor_sized_def)

lemma temporary_matrix_wf:
  "0 < M \<Longrightarrow> 0 < N \<Longrightarrow> wf_matrix_view (make_matrix_view col_major (make_sycl_iterator_buffer b (M * N)) M N M)"
proof -
  assume pos: "0 < M" "0 < N"
  then obtain a c where "M = Suc a" "N = Suc c" by (metis gr0_implies_Suc)
  moreover have "0 < 1 + (int a + (int c + int a * int c))"
    by (intro add_pos_nonneg add_nonneg_nonneg mult_nonneg_nonneg) simp_all
  ultimately show ?thesis
    by (simp add: wf_matrix_view_def maddr_eq region_def is_col_major_def matrix_view_defs algebra_simps)
qed

lemma make_Gemv_simps [simp]:
  "gv_lhs (make_Gemv l tr c z d a x wn wc) = d" "gv_matrix_a (make_Gemv l tr c z d a x wn wc) = a"
  "gv_vector_x (make_Gemv l tr c z d a x wn wc) = x" "gv_wgs_per_nc (make_Gemv l tr c z d a x wn wc) = wn"
  "gv_wgs_per_c (make_Gemv l tr c z d a x wn wc) = wc" "gv_local_range (make_Gemv l tr c z d a x wn wc) = l"
  "gv_is_transposed (make_Gemv l tr c z d a x wn wc) = tr" "gv_cl_elems (make_Gemv l tr c z d a x wn wc) = c div z"
  "gv_sizeof (make_Gemv l tr c z d a x wn wc) = z" "gv_cache_line_size (make_Gemv l tr c z d a x wn wc) = c"
  by (simp_all add: make_Gemv_def gv_cl_elems_def)

text \<open>The elements the kernel multiplies are those of \<open>op(A)\<close> and \<open>x\<close>.\<close>

lemma gv_mat_op_cell:
  assumes "gv_is_transposed t = (trn \<noteq> Normal)" "gv_matrix_a t = make_matrix_view col_major mA M N lda"
  shows "gv_mat t m i j = m (op_cell trn mA lda i j)"
  using assms by (simp add: gv_mat_def gv_a_def mv_eval_ptr_addr_def mv_adjust_def op_cell_def mat_cell_def
      matrix_view_defs)

lemma gv_x_cell:
  assumes "gv_vector_x t = make_vector_view x incx n" "vector_fits x incx n"
  shows "gv_x t m j = m (cell x incx n j)"
  using assms by (simp add: gv_x_def fits_simps)

lemma footprint_SumMatrixColumns:
  "footprint (SumMatrixColumns v) (\<lambda>_. {acc_buffer (mv_data v)} \<times> UNIV)"
  unfolding footprint_def
proof (intro allI impI)
  fix i and m m' :: "'v::{zero, plus} mem"
  assume eq: "\<forall>a \<in> {acc_buffer (mv_data v)} \<times> UNIV. m a = m' a"
  have "m (maddr v i j) = m' (maddr v i j)" "m (maddr_lin v k) = m' (maddr_lin v k)" for j k
    using eq by (auto simp: maddr_lin_eq maddr_eq)
  then show "ex_eval (SumMatrixColumns v) m i = ex_eval (SumMatrixColumns v) m' i"
    by (simp add: SumMatrixColumns_def cong: if_cong)
qed

lemma SumMatrixColumns_simps:
  fixes m :: "'v::semiring_0 mem"
  shows "ex_size (SumMatrixColumns v :: ('v mem, 'v) expr) = mv_sizeR v"
    "i < mv_sizeR v \<Longrightarrow> ex_eval (SumMatrixColumns v) m i = (\<Sum>j<mv_sizeC v. m (maddr v i j))"
  by (simp_all add: SumMatrixColumns_def AdditionIdentity_def foldl_plus_sum_list sum_list_upt)

text \<open>The last launch, for a vector \<open>e\<close> of dot products that reads only the temporary.\<close>

lemma gemv_finish:
  fixes e :: "('v::semiring_0 mem, 'v) expr" and m :: "'v mem" and alpha beta :: 'v
  assumes "is_run r" "0 < l" "vector_fits y incy n" "ex_size e = n"
    and "footprint e (\<lambda>_. {b} \<times> UNIV)" "it_buffer y \<noteq> b"
  defines "vy \<equiv> make_vector_view y incy n"
  defines "m' \<equiv> (if beta \<noteq> 0
      then execute_sized r (Assign (vec_lval vy) (BinaryOp AddOperator
             (ScalarOp ProductOperator (Literal beta) (vec_expr vy)) (ScalarOp ProductOperator (Literal alpha) e))) l m
      else execute_sized r (Assign (vec_lval vy) (ScalarOp ProductOperator (Literal alpha) e)) l m)"
  shows "\<forall>i < n. m' (cell y incy n i) = beta * m (cell y incy n i) + alpha * ex_eval e m i"
    and "\<forall>c. c \<notin> cell y incy n ` {..<n} \<longrightarrow> m' c = m c"
proof -
  let ?a = "ScalarOp ProductOperator (Literal alpha) e"
  let ?b = "BinaryOp AddOperator (ScalarOp ProductOperator (Literal beta) (vec_expr vy)) ?a"
  have fpa: "footprint ?a (\<lambda>_. {b} \<times> UNIV)" by (intro footprint_ScalarOp assms)
  have fpb: "footprint ?b (\<lambda>i. {cell y incy n i} \<union> {b} \<times> UNIV)"
    unfolding vy_def by (intro footprint_BinaryOp footprint_ScalarOp footprint_cell assms)
  have y: "cell y incy n j \<notin> {b} \<times> UNIV" for j using assms(6) by (simp add: cell_def)
  have own: "cell y incy n j \<notin> {cell y incy n i} \<union> {b} \<times> UNIV" if "i < n" "j < n" "i \<noteq> j" for i j
    using own_cellsD [OF own_cells_self [OF assms(3)] that] y by auto
  have sz: "ex_size ?a = n" "ex_size ?b = n" using assms(4) by simp_all
  note a = assign_to_vector [OF assms(1-3) sz(1) fpa, where m = m, folded vy_def]
    and b = assign_to_vector [OF assms(1-3) sz(2) fpb, where m = m, folded vy_def]
  have cell: "vaddr vy i = cell y incy n i" for i using assms(3) by (simp add: vy_def fits_simps)
  have "(\<forall>i < n. m' (cell y incy n i) = beta * m (cell y incy n i) + alpha * ex_eval e m i) \<and>
    (\<forall>c. c \<notin> cell y incy n ` {..<n} \<longrightarrow> m' c = m c)"
  proof (cases "beta = 0")
    case True
    then show ?thesis using a [OF y] by (simp add: m'_def execute_def ProductOperator_def)
  next
    case False
    then show ?thesis using b [OF own] by (simp add: m'_def execute_def cell AddOperator_def ProductOperator_def)
  qed
  then show "\<forall>i < n. m' (cell y incy n i) = beta * m (cell y incy n i) + alpha * ex_eval e m i"
    "\<forall>c. c \<notin> cell y incy n ` {..<n} \<longrightarrow> m' c = m c" by blast+
qed

lemma gemv_impl_correct:
  fixes m :: "'v::semiring_0 mem" and alpha beta :: 'v and v :: "nat \<Rightarrow> 'v mem \<Rightarrow> 'v"
  assumes runs: "is_run r1" "is_run r2" and l: "0 < local_range" and pos: "0 < M" "0 < N"
    and x: "vector_fits x incx (op_cols trn M N)" and y: "vector_fits y incy (op_rows trn M N)"
    and tmp: "it_buffer A \<noteq> tmp" "it_buffer x \<noteq> tmp" "it_buffer y \<noteq> tmp"
    and v: "\<And>i m. v i m = (if mt = gemv_local \<and> trn \<noteq> Normal \<and> local_range < cache_line div sizeof then 0
        else \<Sum>j<op_cols trn M N. m (op_cell trn A lda i j) * m (cell x incx (op_cols trn M N) j))"
    and cl: "mt = gemv_local \<Longrightarrow> trn \<noteq> Normal \<Longrightarrow>
        0 < cache_line div sizeof \<and> (cache_line div sizeof dvd local_range \<or> local_range < cache_line div sizeof)"
  defines "m' \<equiv> gemv_impl r1 r2 sizeof tmp local_range cache_line mt trn M N alpha A lda x incx beta y incy m"
  shows "\<forall>i < op_rows trn M N. m' (cell y incy (op_rows trn M N) i)
           = beta * m (cell y incy (op_rows trn M N) i) + alpha * v i m"
    and "\<forall>c. c \<notin> cell y incy (op_rows trn M N) ` {..<op_rows trn M N} \<longrightarrow> fst c \<noteq> tmp \<longrightarrow> m' c = m c"
proof -
  let ?nr = "op_rows trn M N" and ?nc = "op_cols trn M N"
  have nr: "0 < ?nr" "0 < ?nc" using pos by (simp_all add: op_rows_def op_cols_def)
  define vx vA where "vx = make_vector_view x incx ?nc" and "vA = make_matrix_view col_major A M N lda"
  define wc wn where "wc = (if mt = gemv_local then cdiv ?nc local_range else 1)"
    and "wn = (if mt = gemv_local then cdiv ?nr local_range else 1)"
  define dots where "dots = make_matrix_view col_major (make_sycl_iterator_buffer tmp (?nr * wc)) ?nr wc ?nr"
  define t where "t = make_Gemv local_range (trn \<noteq> Normal) cache_line sizeof dots vA vx wn wc"
  define m1 where "m1 = (if mt = gemv_local
      then execute_tree_local r1 (0, 0) (gv_phases t) local_range (local_range * wc * wn) m
      else execute_tree r1 (gv_valid_thread t) (gv_eval t) local_range (roundUp ?nr local_range) m)"
  define e :: "('v mem, 'v) expr" where "e = (if mt = gemv_local then SumMatrixColumns dots else mat_expr dots)"
  have w: "0 < wc" "0 < wn" using nr l by (simp_all add: wc_def wn_def cdiv_pos)
  have dims: "gv_nc_dim t = ?nr" "gv_c_dim t = ?nc" "gv_local_range t = local_range" "gv_wgs_per_c t = wc"
    "gv_wgs_per_nc t = wn" "gv_is_transposed t = (trn \<noteq> Normal)" "gv_lhs t = dots" "gv_matrix_a t = vA"
    "gv_vector_x t = vx" "gv_cl_elems t = cache_line div sizeof"
    by (simp_all add: gv_nc_dim_def gv_c_dim_def t_def vA_def op_rows_def op_cols_def)
  have wf: "gv_wf tmp t"
    using nr w l tmp(1,2) x by (simp add: gv_wf_def gv_apart_def dims dots_def vA_def vx_def mv_get_size_def
        temporary_matrix_wf fits_simps)
  have entry: "gv_mat t m i j * gv_x t m j = m (op_cell trn A lda i j) * m (cell x incx ?nc j)" for i j
    by (simp add: gv_mat_op_cell [OF dims(6) dims(8) [unfolded vA_def]] gv_x_cell [OF dims(9) [unfolded vx_def] x])
  have out: "gv_out t i g = maddr dots i g" if "i < ?nr" for i g
    using that by (simp add: gv_out_def dims maddr_lin_eq) (simp add: dots_def)
  note ap = wf [unfolded gv_wf_def, THEN conjunct1]
  have e: "ex_size e = ?nr" "footprint e (\<lambda>_. {tmp} \<times> UNIV)" "(\<forall>i < ?nr. ex_eval e m1 i = v i m) \<and> (\<forall>c. fst c \<noteq> tmp \<longrightarrow> m1 c = m c)"
  proof -
    show "ex_size e = ?nr" by (simp add: e_def dots_def SumMatrixColumns_simps mv_get_size_def wc_def)
    show "footprint e (\<lambda>_. {tmp} \<times> UNIV)"
    proof -
      have "{maddr_lin dots i} \<subseteq> {tmp} \<times> UNIV" for i by (simp add: maddr_lin_eq maddr_eq dots_def)
      then have "footprint (mat_expr dots :: ('v mem, 'v) expr) (\<lambda>_. {tmp} \<times> UNIV)"
        by (rule footprint_mono [OF footprint_mat])
      moreover have "footprint (SumMatrixColumns dots :: ('v mem, 'v) expr) (\<lambda>_. {tmp} \<times> UNIV)"
        using footprint_SumMatrixColumns [of dots] by (simp add: dots_def)
      ultimately show ?thesis by (simp add: e_def)
    qed
    show "(\<forall>i < ?nr. ex_eval e m1 i = v i m) \<and> (\<forall>c. fst c \<noteq> tmp \<longrightarrow> m1 c = m c)"
    proof (cases "mt = gemv_local")
      case False
      then have one: "wc = 1" by (simp add: wc_def)
      have sz: "wf_matrix_view (gv_lhs t)" "mv_get_size (gv_lhs t) = gv_nc_dim t"
        using wf by (simp_all add: gv_wf_def dims one)
      note run = gv_global_correct [OF runs(1) dims(3) l _ ap sz, unfolded dims(1), OF nr(1), where m = m]
      show ?thesis
        using run False by (auto simp: m1_def e_def v dims entry)
    next
      case True
      let ?v = "\<lambda>i g s. if trn \<noteq> Normal \<and> local_range < cache_line div sizeof then 0 else gv_partial t s i g"
      have ok: "gv_group_ok t it (run_group r1 k (gv_local_range t) (0, 0) (gv_phases t it)) ?v" for k it
        using run_group_rows [OF runs(1) wf, of it k] run_group_tiles [OF runs(1) wf, of it k] cl [OF True]
        by (cases "trn = Normal") (simp_all add: dims)
      have cover: "gv_nc_dim t \<le> gv_wgs_per_nc t * gv_local_range t" "0 < gv_wgs_per_nc t"
        using w l True by (simp_all add: dims wn_def cdiv_covers)
      have reads: "?v i g s = ?v i g m" if "\<And>d. d \<notin> {tmp} \<times> UNIV \<Longrightarrow> s d = m d" for i g s
        using gv_partial_reads(1) [OF ap, of s m, OF that] by simp
      have sum: "(\<Sum>g<wc. gv_partial t m i g) = (\<Sum>j<?nc. m (op_cell trn A lda i j) * m (cell x incx ?nc j))" for i
        using sum_blocks [OF l, of ?nc "\<lambda>j. gv_mat t m i j * gv_x t m j"] True
        by (simp add: gv_partial_def Let_def dims wc_def entry)
      have m1: "m1 = execute_tree_local r1 (0, 0) (gv_phases t) local_range (local_range * wc * wn) m"
        using True by (simp add: m1_def)
      note launch = gv_local_correct [OF runs(1) wf cover ok, unfolded dims]
      have run: "m1 (gv_out t i g) = ?v i g m" if "i < ?nr" "g < wc" for i g
        unfolding m1 by (rule launch(1), (rule reads, assumption)[]) (use that in simp_all)
      have frame: "m1 c = m c" if "fst c \<noteq> tmp" for c
        unfolding m1 by (rule launch(2), (rule reads, assumption)[]) (use that in simp_all)
      have "ex_eval e m1 i = v i m" if i: "i < ?nr" for i
      proof -
        have "ex_eval e m1 i = (\<Sum>g<wc. m1 (maddr dots i g))"
          using True i SumMatrixColumns_simps(2) [of i dots m1] by (simp add: e_def) (simp add: dots_def)
        also have "\<dots> = (\<Sum>g<wc. ?v i g m)"
          using run [OF i] out [OF i] by (intro sum.cong) auto
        finally show ?thesis using True by (simp add: v sum)
      qed
      then show ?thesis using frame by blast
    qed
  qed
  define vy where "vy = make_vector_view y incy ?nr"
  have impl: "m' = (if beta \<noteq> 0
      then execute_sized r2 (Assign (vec_lval vy) (BinaryOp AddOperator
             (ScalarOp ProductOperator (Literal beta) (vec_expr vy)) (ScalarOp ProductOperator (Literal alpha) e))) local_range m1
      else execute_sized r2 (Assign (vec_lval vy) (ScalarOp ProductOperator (Literal alpha) e)) local_range m1)"
    unfolding m'_def gemv_impl_def Let_def cdiv_pred [OF l pos(1)] cdiv_pred [OF l pos(2)]
    by (cases "trn = Normal"; cases "mt = gemv_local")
      (simp_all add: e_def m1_def t_def dots_def vA_def vx_def vy_def wc_def wn_def op_rows_def op_cols_def)
  note fin = gemv_finish [OF runs(2) l y e(1,2) tmp(3), where m = m1 and alpha = alpha and beta = beta,
      folded vy_def, folded impl]
  have "fst (cell y incy ?nr i) \<noteq> tmp" for i using tmp(3) by (simp add: cell_def)
  then show "\<forall>i < ?nr. m' (cell y incy ?nr i) = beta * m (cell y incy ?nr i) + alpha * v i m"
    "\<forall>c. c \<notin> cell y incy ?nr ` {..<?nr} \<longrightarrow> fst c \<noteq> tmp \<longrightarrow> m' c = m c"
    using fin e(3) by auto
qed

section \<open>Properties\<close>

definition gemv_trans :: "char \<Rightarrow> transpose_type" where
  "gemv_trans c = (if tolower c = CHR ''n'' then Normal else Transposed)"

lemma gemv_params_cases:
  assumes "gemv_params b trn M = (l, cache, mt)" "sizeof = 4 \<or> sizeof = 8"
  shows "0 < l" "mt = gemv_local" "0 < cache div sizeof"
    and "trn = Normal \<or> b \<noteq> RCAR \<or> sizeof = 8 \<or> M < 1024 \<Longrightarrow> trn = Normal \<or> cache div sizeof dvd l"
    and "b = RCAR \<Longrightarrow> sizeof = 4 \<Longrightarrow> 1024 \<le> M \<Longrightarrow> trn \<noteq> Normal \<Longrightarrow> l < cache div sizeof"
  using assms by (cases b; auto simp: rcar_params_def intel_gpu_params_def amd_gpu_params_def arm_gpu_params_def
      power_vr_params_def default_cpu_params_def split: if_splits)+

text \<open>C22: \<open>_gemv\<close> computes \<open>y = alpha * op(A) * x + beta * y\<close> for single and double precision
  elements, with the parameters of every backend, except for a transposed single precision
  matrix of at least 1024 rows on R-Car. It writes nothing else but its own temporary, and
  \<open>y\<close> may overlap \<open>A\<close> and \<open>x\<close>.\<close>

theorem gemv_correct:
  fixes m :: "'v::semiring_0 mem" and alpha beta :: 'v
  assumes "is_run r1" "is_run r2" "0 < M" "0 < N" "sizeof = 4 \<or> sizeof = 8" "trn = gemv_trans transA"
    and "vector_fits x incx (op_cols trn M N)" "vector_fits y incy (op_rows trn M N)"
    and "it_buffer A \<noteq> tmp" "it_buffer x \<noteq> tmp" "it_buffer y \<noteq> tmp"
    and "trn = Normal \<or> b \<noteq> RCAR \<or> sizeof = 8 \<or> M < 1024"
  shows "(\<forall>i < op_rows trn M N.
            gemv b r1 r2 sizeof tmp transA M N alpha A lda x incx beta y incy m (cell y incy (op_rows trn M N) i)
              = beta * m (cell y incy (op_rows trn M N) i)
                + alpha * (\<Sum>j<op_cols trn M N. m (op_cell trn A lda i j) * m (cell x incx (op_cols trn M N) j))) \<and>
         (\<forall>c. c \<notin> cell y incy (op_rows trn M N) ` {..<op_rows trn M N} \<longrightarrow> fst c \<noteq> tmp \<longrightarrow>
            gemv b r1 r2 sizeof tmp transA M N alpha A lda x incx beta y incy m c = m c)"
proof -
  obtain l cache mt where par: "gemv_params b trn M = (l, cache, mt)" by (metis prod_cases3)
  note cs = gemv_params_cases [OF par assms(5)]
  have cl: "0 < cache div sizeof \<and> (cache div sizeof dvd l \<or> l < cache div sizeof)" if "trn \<noteq> Normal"
    using cs(3) cs(4) [OF assms(12)] that by simp
  have v: "(\<Sum>j<op_cols trn M N. m (op_cell trn A lda i j) * m (cell x incx (op_cols trn M N) j))
     = (if mt = gemv_local \<and> trn \<noteq> Normal \<and> l < cache div sizeof then 0
        else \<Sum>j<op_cols trn M N. m (op_cell trn A lda i j) * m (cell x incx (op_cols trn M N) j))" for i m
    using cs(1) cs(4) [OF assms(12)] by (auto dest: dvd_imp_le)
  have eq: "gemv b r1 r2 sizeof tmp transA M N alpha A lda x incx beta y incy m
      = gemv_impl r1 r2 sizeof tmp l cache mt trn M N alpha A lda x incx beta y incy m"
    by (simp add: gemv_def Let_def assms(6) [unfolded gemv_trans_def, symmetric] par)
  show ?thesis
    using gemv_impl_correct [OF assms(1,2) cs(1) assms(3,4,7-11) v cl, where m = m and alpha = alpha and beta = beta]
    unfolding eq by simp
qed

lemma gemv_correct_witness:
  "gemv ARM_GPU (seq_run 0) (seq_run ()) 4 9 (CHR ''T'') 2 2 2 (sample_it 1) 2 (sample_it 2) 1 3 (sample_it 3) 1
     sample_mem (3, 1) = 70 \<and>
   gemv ARM_GPU (seq_run 0) (seq_run ()) 4 9 (CHR ''T'') 2 2 2 (sample_it 1) 2 (sample_it 2) 1 3 (sample_it 3) 1
     sample_mem (3, 2) = 20"
proof -
  have t: "gemv_trans (CHR ''T'') = Transposed" by code_simp
  note * = gemv_correct [of "seq_run 0" "seq_run ()" 2 2 4 Transposed "CHR ''T''" "sample_it 2" 1 "sample_it 3" 1
      "sample_it 1" 9 ARM_GPU 2 2 3 sample_mem]
  have "cell (sample_it 3) 1 2 1 = (3, 1)" "(3, 2) \<notin> cell (sample_it 3) 1 2 ` {..<2}"
    by (auto simp: blas_index_def)
  then show ?thesis
    using * t by (auto simp: op_rows_def op_cols_def op_cell_def mat_cell_def sample_mem_def blas_index_def
        numeral_2_eq_2 All_less_Suc)
qed

text \<open>C32: on R-Car, a transposed single precision product with at least 1024 rows never reads the
  matrix: \<open>local_range\<close> is 8, \<open>cl_elems\<close> is 16, the loop over \<open>local_range / cl_elems = 0\<close> tiles does
  nothing, and the call computes \<open>y = beta * y\<close>.\<close>

theorem rcar_gemv_ignores_matrix:
  fixes m :: "'v::semiring_0 mem" and alpha beta :: 'v
  assumes "is_run r1" "is_run r2" "1024 \<le> M" "0 < N" "gemv_trans transA = Transposed"
    and "vector_fits x incx M" "vector_fits y incy N"
    and "it_buffer A \<noteq> tmp" "it_buffer x \<noteq> tmp" "it_buffer y \<noteq> tmp"
  shows "\<forall>i < N. gemv RCAR r1 r2 4 tmp transA M N alpha A lda x incx beta y incy m (cell y incy N i)
           = beta * m (cell y incy N i)"
proof -
  have dims: "op_rows Transposed M N = N" "op_cols Transposed M N = M" by (simp_all add: op_rows_def op_cols_def)
  have eq: "gemv RCAR r1 r2 4 tmp transA M N alpha A lda x incx beta y incy m
      = gemv_impl r1 r2 4 tmp 8 64 gemv_local Transposed M N alpha A lda x incx beta y incy m"
    using assms(3,5) by (auto simp: gemv_def Let_def rcar_params_def gemv_trans_def split: if_splits)
  have "\<forall>i < N. gemv_impl r1 r2 4 tmp 8 64 gemv_local Transposed M N alpha A lda x incx beta y incy m (cell y incy N i)
      = beta * m (cell y incy N i) + alpha * 0"
    by (rule gemv_impl_correct(1) [where trn = Transposed and M = M and N = N and v = "\<lambda>_ _. 0", unfolded dims])
      (use assms in simp_all)
  then show ?thesis unfolding eq by simp
qed

lemma rcar_gemv_ignores_matrix_witness:
  "\<exists>A x y. A (0 :: nat) (0 :: nat) * x 0 = (1 :: int) \<and>
     gemv RCAR (seq_run 0) (seq_run ()) 4 9 (CHR ''t'') 1024 1 1 \<lparr>it_buffer = 1, it_count = 1024, it_offset = 0\<rparr> 1024
       \<lparr>it_buffer = 2, it_count = 1024, it_offset = 0\<rparr> 1 0 \<lparr>it_buffer = 3, it_count = 1, it_offset = 0\<rparr> 1
       (\<lambda>(b, k). if b = 1 then A (nat k) 0 else if b = 2 then x (nat k) else y) (3, 0) = 0"
proof (intro exI conjI)
  have t: "gemv_trans (CHR ''t'') = Transposed" by code_simp
  show "(\<lambda>_ _. 1) (0 :: nat) (0 :: nat) * (\<lambda>_. 1) (0 :: nat) = (1 :: int)" by simp
  show "gemv RCAR (seq_run 0) (seq_run ()) 4 9 (CHR ''t'') 1024 1 1 \<lparr>it_buffer = 1, it_count = 1024, it_offset = 0\<rparr> 1024
       \<lparr>it_buffer = 2, it_count = 1024, it_offset = 0\<rparr> 1 0 \<lparr>it_buffer = 3, it_count = 1, it_offset = 0\<rparr> 1
       (\<lambda>(b, k). if b = 1 then (\<lambda>_ _. 1) (nat k) 0 else if b = 2 then (\<lambda>_. 1) (nat k) else (1 :: int)) (3, 0) = 0"
    using rcar_gemv_ignores_matrix [of "seq_run 0" "seq_run ()" 1024 1 "CHR ''t''"
        "\<lparr>it_buffer = 2, it_count = 1024, it_offset = 0\<rparr>" 1 "\<lparr>it_buffer = 3, it_count = 1, it_offset = 0\<rparr>" 1
        "\<lparr>it_buffer = 1, it_count = 1024, it_offset = 0\<rparr>" 9 1 1024 0] t
    by (simp add: vector_fits_def cell_def blas_index_def)
qed

text \<open>C29: the kernel without local memory and the one with it leave the same result, in any
  order of items and groups, with any \<open>local_range\<close>; for a transposed matrix, \<open>cl_elems\<close> must divide
  it.\<close>

theorem gemv_memory_kinds_agree:
  fixes m :: "'v::semiring_0 mem" and alpha beta :: 'v
  assumes "is_run r1" "is_run r2" "is_run r1'" "is_run r2'" "0 < l" "0 < l'" "0 < M" "0 < N"
    and "vector_fits x incx (op_cols trn M N)" "vector_fits y incy (op_rows trn M N)"
    and "it_buffer A \<noteq> tmp" "it_buffer x \<noteq> tmp" "it_buffer y \<noteq> tmp"
    and "trn = Normal \<or> 0 < cache div sizeof \<and> cache div sizeof dvd l"
    and "fst c \<noteq> tmp"
  shows "gemv_impl r1 r2 sizeof tmp l cache gemv_local trn M N alpha A lda x incx beta y incy m c
       = gemv_impl r1' r2' sizeof tmp l' cache gemv_no_local trn M N alpha A lda x incx beta y incy m c"
proof -
  define v where "v = (\<lambda>i (m :: 'v mem). \<Sum>j<op_cols trn M N. m (op_cell trn A lda i j) * m (cell x incx (op_cols trn M N) j))"
  have 1: "v i m = (if gemv_local = gemv_local \<and> trn \<noteq> Normal \<and> l < cache div sizeof then 0
        else \<Sum>j<op_cols trn M N. m (op_cell trn A lda i j) * m (cell x incx (op_cols trn M N) j))" for i m
    using assms(5,14) by (auto simp: v_def dest: dvd_imp_le)
  have 2: "v i m = (if gemv_no_local = gemv_local \<and> trn \<noteq> Normal \<and> l' < cache div sizeof then 0
        else \<Sum>j<op_cols trn M N. m (op_cell trn A lda i j) * m (cell x incx (op_cols trn M N) j))" for i m
    by (simp add: v_def)
  have cl: "0 < cache div sizeof \<and> (cache div sizeof dvd l \<or> l < cache div sizeof)" if "trn \<noteq> Normal"
    using assms(14) that by blast
  show ?thesis
  proof (cases "c \<in> cell y incy (op_rows trn M N) ` {..<op_rows trn M N}")
    case True
    then obtain i where "i < op_rows trn M N" "c = cell y incy (op_rows trn M N) i" by blast
    then show ?thesis
      using gemv_impl_correct(1) [OF assms(1,2,5,7-13) 1 cl, where m = m and alpha = alpha and beta = beta]
        gemv_impl_correct(1) [OF assms(3,4,6,7-13) 2, where m = m and alpha = alpha and beta = beta] by simp
  next
    case False
    then show ?thesis
      using gemv_impl_correct(2) [OF assms(1,2,5,7-13) 1 cl, where m = m and alpha = alpha and beta = beta]
        gemv_impl_correct(2) [OF assms(3,4,6,7-13) 2, where m = m and alpha = alpha and beta = beta] assms(15)
      by (cases c) simp
  qed
qed

lemma gemv_memory_kinds_agree_witness:
  "gemv_impl (seq_run 0) (seq_run ()) 4 9 4 16 gemv_local Transposed 3 2 2 (sample_it 1) 3 (sample_it 2) 1 3
     (sample_it 3) 1 sample_mem (3, 1)
   = gemv_impl (seq_run 5) (seq_run ()) 4 9 2 16 gemv_no_local Transposed 3 2 2 (sample_it 1) 3 (sample_it 2) 1 3
     (sample_it 3) 1 sample_mem (3, 1)"
  by (rule gemv_memory_kinds_agree) (simp_all add: op_rows_def op_cols_def)

subsection \<open>The local memory a group touches\<close>

text \<open>Two runs of a group from states that differ only in cells of local memory from \<open>S\<close> on: they still agree below, and the
  first has left those cells as \<open>f\<close> says.\<close>

definition gv_inside :: "nat \<Rightarrow> (nat \<Rightarrow> 'v) \<Rightarrow> 'v gv_state \<Rightarrow> 'v gv_state \<Rightarrow> bool" where
  "gv_inside S f gs gs' \<longleftrightarrow> (\<forall>c \<ge> S. gs_local gs c = f c) \<and> (\<forall>c < S. gs_local gs c = gs_local gs' c) \<and>
     gs_mem gs = gs_mem gs' \<and> gs_priv gs = gs_priv gs'"

lemma fold_inside:
  assumes "\<And>k gs gs'. k \<in> set xs \<Longrightarrow> gv_inside S f gs gs' \<Longrightarrow>
      gv_inside S f (upd k gs) (upd k gs') \<and> gs_priv (upd k gs) = gs_priv gs"
    and "gv_inside S f gs gs'"
  shows "gv_inside S f (fold upd xs gs) (fold upd xs gs') \<and> gs_priv (fold upd xs gs) = gs_priv gs"
  using assms
proof (induction xs arbitrary: gs gs')
  case (Cons x xs)
  then have "gv_inside S f (upd x gs) (upd x gs') \<and> gs_priv (upd x gs) = gs_priv gs" by simp
  then show ?case using Cons.IH [of "upd x gs" "upd x gs'"] Cons.prems(1) by simp
qed simp

lemma load_x_inside:
  assumes "gv_inside S f gs gs'" "k < S"
  shows "gv_inside S f (gv_load_x t it k gs) (gv_load_x t it k gs') \<and> gs_priv (gv_load_x t it k gs) = gs_priv gs"
  using assms by (auto simp: gv_inside_def gv_load_x_def Let_def)

lemma row_sum_inside:
  fixes gs gs' :: "'v::semiring_0 gv_state"
  assumes "gv_inside S f gs gs'" "gv_local_range t \<le> S"
  shows "gv_inside S f (gv_row_sum t it k gs) (gv_row_sum t it k gs')"
proof -
  let ?last = "min (gv_c_dim t - gv_c_group_id t it * gv_local_range t) (gv_local_range t)"
  have "gs_local gs c = gs_local gs' c" if "c < ?last" for c
    using assms that by (simp add: gv_inside_def)
  then have "foldl (\<lambda>(s, i) c. (mad (a i) (gs_local gs c) s, i + lda)) z [0..<?last]
      = foldl (\<lambda>(s, i) c. (mad (a i) (gs_local gs' c) s, i + lda)) z [0..<?last]" for a :: "nat \<Rightarrow> 'v" and lda z
    by (intro foldl_cong) auto
  then show ?thesis using assms(1) by (simp add: gv_inside_def gv_row_sum_def Let_def)
qed

lemma write_inside:
  "gv_inside S f gs gs' \<Longrightarrow> gv_inside S f (gv_write t it k gs) (gv_write t it k gs')"
  by (simp add: gv_inside_def gv_write_def Let_def)

lemma tile_cell_inside:
  assumes "c < cl" "cl \<le> l" "i \<le> l"
  shows "tile_cell l c i < l + (cl + 1) * l"
proof -
  have "(l + 1) * c + i < (l + 1) * Suc c" using assms(3) by simp
  also have "\<dots> \<le> (l + 1) * cl" using assms(1) by (intro mult_le_mono2) simp
  also have "\<dots> \<le> (cl + 1) * l" using assms(2) by (simp add: algebra_simps)
  finally show ?thesis by (simp add: tile_cell_def)
qed

lemma tile_line_le:
  fixes k l j cl :: nat
  assumes "k < l" "j < cl"
  shows "k div cl + j * (l div cl) \<le> l"
proof -
  have "k div cl + j * (l div cl) \<le> Suc j * (l div cl)" using assms(1) by (simp add: div_le_mono)
  also have "\<dots> \<le> cl * (l div cl)" using assms(2) by (intro mult_le_mono1) simp
  also have "\<dots> \<le> l" by simp
  finally show ?thesis .
qed

lemma extract_inside:
  fixes gs gs' :: "'v::semiring_0 gv_state"
  assumes "gv_inside S f gs gs'" "gv_is_transposed t" "k < gv_local_range t" "0 < gv_cl_elems t" "gv_cl_elems t \<le> gv_local_range t"
    and S: "gv_local_range t + (gv_cl_elems t + 1) * gv_local_range t \<le> S"
  shows "gv_inside S f (gv_extract t it n k gs) (gv_extract t it n k gs') \<and> gs_priv (gv_extract t it n k gs) = gs_priv gs"
proof -
  note step = extract_input_block_eq [OF assms(2) refl refl refl refl]
  let ?l = "gv_local_range t" and ?cl = "gv_cl_elems t"
  have cell: "tile_cell ?l (k mod ?cl) (k div ?cl + j * (?l div ?cl)) < S" if "j < ?cl" for j
    using tile_cell_inside [of "k mod ?cl" ?cl ?l, OF _ assms(5) tile_line_le [OF assms(3) that]] assms(4) S by simp
  have outside: "foldl (\<lambda>h j. h(tile_cell ?l (k mod ?cl) (k div ?cl + j * (?l div ?cl)) := v j)) h [0..<?cl] c = h c"
    if "S \<le> c" for h c and v :: "nat \<Rightarrow> 'v"
    using cell that by (intro foldl_writes_miss) fastforce
  have inside: "foldl (\<lambda>h j. h(a j := v j)) h [0..<q] c = foldl (\<lambda>h j. h(a j := v j)) h' [0..<q] c"
    if "h c = h' c" for h h' :: "nat \<Rightarrow> 'v" and a v q c
    using that by (induction q) simp_all
  show ?thesis
    using assms(1) unfolding gv_inside_def gv_extract_def step by (auto simp: outside intro!: inside)
qed

lemma tile_sum_inside:
  fixes gs gs' :: "'v::semiring_0 gv_state"
  assumes "gv_inside S f gs gs'" "k < gv_local_range t" "gv_cl_elems t \<le> gv_local_range t"
    and "snd (gs_priv gs k) + gv_cl_elems t \<le> gv_local_range t"
    and S: "gv_local_range t + (gv_cl_elems t + 1) * gv_local_range t \<le> S"
  shows "gv_inside S f (gv_tile_sum t k gs) (gv_tile_sum t k gs')"
proof -
  let ?l = "gv_local_range t" and ?cl = "gv_cl_elems t"
  have "gs_local gs (tile_cell ?l c k) = gs_local gs' (tile_cell ?l c k)" if "c < ?cl" for c
    using tile_cell_inside [OF that assms(3), of k] assms(1,2) S by (simp add: gv_inside_def)
  moreover have "gs_local gs (snd (gs_priv gs k) + c) = gs_local gs' (snd (gs_priv gs k) + c)" if "c < ?cl" for c
    using assms(1,4) that S by (simp add: gv_inside_def)
  ultimately have "(\<Sum>c<?cl. gs_local gs (tile_cell ?l c k) * gs_local gs (snd (gs_priv gs k) + c))
      = (\<Sum>c<?cl. gs_local gs' (tile_cell ?l c k) * gs_local gs' (snd (gs_priv gs k) + c))"
    by (intro sum.cong) simp_all
  then show ?thesis using assms(1) by (simp add: gv_inside_def gv_tile_sum_eq [OF refl refl])
qed

text \<open>The items advance \<open>vector_scratch\<close> by one tile at a time.\<close>

lemma tile_sums_inside:
  fixes gs gs' :: "'v::semiring_0 gv_state"
  assumes "gv_inside S f gs gs'" "gv_cl_elems t \<le> gv_local_range t" "p + gv_cl_elems t \<le> gv_local_range t"
    and "gv_local_range t + (gv_cl_elems t + 1) * gv_local_range t \<le> S"
    and "distinct xs" "set xs \<subseteq> {..<gv_local_range t}" "\<forall>k. snd (gs_priv gs k) \<le> (if k \<in> set xs then p else p + gv_cl_elems t)"
  shows "gv_inside S f (fold (gv_tile_sum t) xs gs) (fold (gv_tile_sum t) xs gs') \<and>
    (\<forall>k. snd (gs_priv (fold (gv_tile_sum t) xs gs) k) \<le> p + gv_cl_elems t)"
  using assms(1,5-7)
proof (induction xs arbitrary: gs gs')
  case (Cons x xs)
  have "snd (gs_priv gs x) \<le> p" using Cons.prems(4) by (metis list.set_intros(1))
  then have "gv_inside S f (gv_tile_sum t x gs) (gv_tile_sum t x gs')"
    using Cons.prems(3) assms(2-4) by (intro tile_sum_inside [OF Cons.prems(1)]) simp_all
  moreover have "snd (gs_priv (gv_tile_sum t x gs) k) \<le> (if k \<in> set xs then p else p + gv_cl_elems t)" for k
    using Cons.prems(2) Cons.prems(4) [rule_format, of k] \<open>snd (gs_priv gs x) \<le> p\<close>
    by (auto simp: gv_tile_sum_eq [OF refl refl] split: if_splits)
  ultimately show ?case using Cons.IH [of "gv_tile_sum t x gs" "gv_tile_sum t x gs'"] Cons.prems(2,3) by simp
qed simp

lemma tiles_inside:
  fixes gs gs' :: "'v::semiring_0 gv_state"
  assumes ord: "\<And>k. distinct (ord k)" "\<And>k. set (ord k) \<subseteq> {..<gv_local_range t}"
    and t: "gv_is_transposed t" "0 < gv_cl_elems t" and S: "gv_local_range t + (gv_cl_elems t + 1) * gv_local_range t \<le> S"
  shows "gv_inside S f gs gs' \<Longrightarrow> \<forall>k. snd (gs_priv gs k) \<le> a * gv_cl_elems t \<Longrightarrow> a + length js \<le> gv_local_range t div gv_cl_elems t \<Longrightarrow>
    gv_inside S f (run_phases ord q (take n (concat (map (\<lambda>j. [gv_extract t it j, gv_tile_sum t]) js) @ [gv_write t it])) gs)
      (run_phases ord q (take n (concat (map (\<lambda>j. [gv_extract t it j, gv_tile_sum t]) js) @ [gv_write t it])) gs')"
proof (induction js arbitrary: a n q gs gs')
  case Nil
  have "gv_inside S f (fold (gv_write t it) xs gs) (fold (gv_write t it) xs gs')" for xs
    using Nil(1) by (induction xs arbitrary: gs gs') (simp_all add: write_inside)
  then show ?case using Nil(1) by (cases n) simp_all
next
  case (Cons j js)
  let ?l = "gv_local_range t" and ?cl = "gv_cl_elems t"
  have cl: "?cl \<le> ?l" "a * ?cl + ?cl \<le> ?l"
  proof -
    have "Suc a \<le> ?l div ?cl" using Cons.prems(3) by simp
    then have "Suc a * ?cl \<le> ?l div ?cl * ?cl" by (rule mult_le_mono1)
    also have "\<dots> \<le> ?l" by simp
    finally show "?cl \<le> ?l" "a * ?cl + ?cl \<le> ?l" by simp_all
  qed
  define e e' where "e = fold (gv_extract t it j) (ord q) gs" and "e' = fold (gv_extract t it j) (ord q) gs'"
  have e: "gv_inside S f e e' \<and> gs_priv e = gs_priv gs"
    unfolding e_def e'_def by (rule fold_inside [OF extract_inside [OF _ t(1) _ t(2) cl(1) S] Cons.prems(1)]) (use ord(2) in blast)+
  define u u' where "u = fold (gv_tile_sum t) (ord (Suc q)) e" and "u' = fold (gv_tile_sum t) (ord (Suc q)) e'"
  have "gv_inside S f u u' \<and> (\<forall>k. snd (gs_priv u k) \<le> a * ?cl + ?cl)"
    unfolding u_def u'_def
    by (rule tile_sums_inside [OF conjunct1 [OF e] cl S ord]) (use e Cons.prems(2) in \<open>auto intro: trans_le_add1\<close>)
  then have u: "gv_inside S f u u'" "\<forall>k. snd (gs_priv u k) \<le> Suc a * ?cl" by (simp_all add: add.commute)
  consider "n = 0" | "n = 1" | n' where "n = Suc (Suc n')" by (metis One_nat_def not0_implies_Suc)
  then show ?case
  proof cases
    case 3
    then show ?thesis using Cons.IH [OF u, where n = n' and q = "Suc (Suc q)"] Cons.prems(3) by (simp add: e_def e'_def u_def u'_def del: take_append)
  qed (use Cons.prems(1) e in \<open>simp_all add: e_def e'_def\<close>)
qed

text \<open>C31: the kernel with local memory stays inside the \<open>kernel_scratch_size\<close> cells it is given, transposed or not, for any
  \<open>local_range\<close> and \<open>cl_elems\<close> (positive, when transposed). After any number of its phases, with any of the items having run in any order, the cells
  from there on are as they were, and nothing that the kernel has computed depends on what they held.\<close>

theorem gemv_scratch_in_bounds:
  fixes gs gs' :: "'v::semiring_0 gv_state" and n :: nat and it :: nd_item
  assumes "gv_is_transposed t \<Longrightarrow> 0 < gv_cl_elems t"
    and S: "S = kernel_scratch_size (gv_sizeof t) (gv_local_range t) (gv_cache_line_size t) (gv_is_transposed t)"
    and ord: "\<And>k. distinct (ord k)" "\<And>k. set (ord k) \<subseteq> {..<gv_local_range t}"
    and start: "gs_priv gs = (\<lambda>_. (0, 0))" "gs_priv gs' = (\<lambda>_. (0, 0))" "gs_mem gs = gs_mem gs'"
      "\<And>c. c < S \<Longrightarrow> gs_local gs c = gs_local gs' c"
  defines "g \<equiv> run_phases ord 0 (take n (gv_phases t it)) gs" and "g' \<equiv> run_phases ord 0 (take n (gv_phases t it)) gs'"
  shows "(\<forall>c \<ge> S. gs_local g c = gs_local gs c) \<and> (\<forall>c < S. gs_local g c = gs_local g' c) \<and>
    gs_mem g = gs_mem g' \<and> gs_priv g = gs_priv g'"
proof -
  let ?l = "gv_local_range t" and ?f = "gs_local gs"
  have l: "?l \<le> S" by (simp add: S kernel_scratch_size_def Let_def)
  have 0: "gv_inside S ?f gs gs'" using start by (simp add: gv_inside_def)
  define h h' where "h = fold (gv_load_x t it) (ord 0) gs" and "h' = fold (gv_load_x t it) (ord 0) gs'"
  have 1: "gv_inside S ?f h h' \<and> gs_priv h = gs_priv gs"
    unfolding h_def h'_def by (rule fold_inside [OF load_x_inside 0]) (use ord(2) [of 0] l in auto)
  have "gv_inside S ?f g g'"
  proof (cases n)
    case 0
    then show ?thesis using \<open>gv_inside S ?f gs gs'\<close> by (simp add: g_def g'_def)
  next
    case (Suc n')
    show ?thesis
    proof (cases "gv_is_transposed t")
      case True
      have "?l + (gv_cl_elems t + 1) * ?l \<le> S" using True by (simp add: S kernel_scratch_size_def gv_cl_elems_def)
      from tiles_inside [OF ord True assms(1) [OF True] this conjunct1 [OF 1], where a = 0 and js = "[0..<?l div gv_cl_elems t]" and q = "Suc 0" and n = n' and it = it]
      show ?thesis using True Suc 1 start(1) by (simp add: g_def g'_def gv_phases_def h_def h'_def)
    next
      case False
      have "gv_inside S ?f (fold (gv_row_sum t it) xs h) (fold (gv_row_sum t it) xs h')" for xs
        using conjunct1 [OF 1] l by (induction xs arbitrary: h h') (simp_all add: row_sum_inside)
      then show ?thesis using False Suc 1 by (cases n') (simp_all add: g_def g'_def gv_phases_def h_def h'_def)
    qed
  qed
  then show ?thesis by (simp add: gv_inside_def)
qed

lemma gemv_scratch_in_bounds_witness:
  "gs_local (run_phases (\<lambda>_. [3, 1, 0, 2]) 0 (take 4 (gv_phases (make_Gemv 4 True 8 4 (make_matrix_view col_major (sample_it 3) 2 1 2)
      (make_matrix_view col_major (sample_it 1) 3 2 3) (make_vector_view (sample_it 2) 1 3) 1 1) (item_of 4 4 0)))
      \<lparr>gs_mem = sample_mem, gs_local = \<lambda>_. 7, gs_priv = \<lambda>_. (0, 0)\<rparr>) 16 = 7"
  using gemv_scratch_in_bounds [where t = "make_Gemv 4 True 8 4 (make_matrix_view col_major (sample_it 3) 2 1 2)
      (make_matrix_view col_major (sample_it 1) 3 2 3) (make_vector_view (sample_it 2) 1 3) 1 1" and S = 16
      and ord = "\<lambda>_. [3, 1, 0, 2]" and n = 4 and it = "item_of 4 4 0"
      and gs = "\<lparr>gs_mem = sample_mem, gs_local = \<lambda>_. 7, gs_priv = \<lambda>_. (0, 0)\<rparr>"
      and gs' = "\<lparr>gs_mem = sample_mem, gs_local = \<lambda>_. 7, gs_priv = \<lambda>_. (0, 0)\<rparr>"]
  by (simp add: kernel_scratch_size_def gv_cl_elems_def make_Gemv_def del: take.simps gv_phases_def)

end
