(* ===== verification/Ger.thy ===== *)
theory Ger
  imports Gemv
begin

text \<open>
  Rank one and rank two updates: the kernels \<open>GerCol\<close> and \<open>GerRow\<close> of
  \<^verbatim>\<open>src/operations/blas2/ger.hpp\<close> and the operations \<open>_ger\<close>, \<open>_syr\<close> and \<open>_syr2\<close> of
  \<^verbatim>\<open>src/interface/blas2_interface.hpp\<close>. The boolean template parameters of the kernels are fields of
  the record: \<open>Single\<close> selects a rank one update, \<open>Lower\<close>, \<open>Diag\<close> and \<open>Upper\<close> the part of the
  matrix that is updated.

  The interface runs \<open>GerCol\<close> with local memory only.
\<close>

section \<open>The trees\<close>

record 'v Ger =
  gr_lhs :: MatrixView
  gr_rhs_1 :: VectorView
  gr_rhs_2 :: VectorView
  gr_nWG_row :: nat
  gr_nWG_col :: nat
  gr_local_memory_size :: nat
  gr_scalar :: 'v
  gr_Single :: bool
  gr_Lower :: bool
  gr_Diag :: bool
  gr_Upper :: bool

definition make_Ger ::
  "bool \<Rightarrow> bool \<Rightarrow> bool \<Rightarrow> bool \<Rightarrow> MatrixView \<Rightarrow> 'v \<Rightarrow> VectorView \<Rightarrow> VectorView \<Rightarrow> nat \<Rightarrow> nat \<Rightarrow> nat \<Rightarrow> 'v Ger" where
  "make_Ger Single Lower Diag Upper lhs scalar rhs_1 rhs_2 nWG_row nWG_col local_memory_size =
     \<lparr>gr_lhs = lhs, gr_rhs_1 = rhs_1, gr_rhs_2 = rhs_2, gr_nWG_row = nWG_row, gr_nWG_col = nWG_col,
      gr_local_memory_size = local_memory_size, gr_scalar = scalar, gr_Single = Single,
      gr_Lower = Lower, gr_Diag = Diag, gr_Upper = Upper\<rparr>"

definition gr_valid_thread :: "'v Ger \<Rightarrow> nd_item \<Rightarrow> bool" where
  "gr_valid_thread t it \<longleftrightarrow> True"

text \<open>\<open>(!Diag) ? 1 : 0\<close>, and the test on an element in the inner loops.\<close>

definition gr_nd :: "'v Ger \<Rightarrow> nat" where
  "gr_nd t = (if \<not> gr_Diag t then 1 else 0)"

definition gr_selects :: "'v Ger \<Rightarrow> nat \<Rightarrow> nat \<Rightarrow> bool" where
  "gr_selects t id_row id_col \<longleftrightarrow>
     (if gr_Lower t \<and> gr_Upper t \<and> gr_Diag t then True
      else (gr_Lower t \<and> id_col + gr_nd t \<le> id_row) \<or> (gr_Upper t \<and> id_row + gr_nd t \<le> id_col))"

definition gr_x1 :: "'v Ger \<Rightarrow> 'v mem \<Rightarrow> nat \<Rightarrow> 'v" where
  "gr_x1 t m i = m (vaddr (gr_rhs_1 t) i)"

definition gr_x2 :: "'v Ger \<Rightarrow> 'v mem \<Rightarrow> nat \<Rightarrow> 'v" where
  "gr_x2 t m i = m (vaddr (gr_rhs_2 t) i)"

text \<open>\<open>lhs_.eval(i, j) += v\<close>.\<close>

definition gr_add :: "'v::plus Ger \<Rightarrow> nat \<Rightarrow> nat \<Rightarrow> 'v \<Rightarrow> 'v mem \<Rightarrow> 'v mem" where
  "gr_add t i j v m = m(maddr (gr_lhs t) i j := m (maddr (gr_lhs t) i j) + v)"

section \<open>GerCol\<close>

subsection \<open>The block of a group\<close>

definition gc_colSz :: "'v Ger \<Rightarrow> nd_item \<Rightarrow> nat" where
  "gc_colSz t it =
     (let dimR = mv_sizeR (gr_lhs t); dimC = mv_sizeC (gr_lhs t); localSz = nd_local_range it
      in if dimR < localSz then localSz else (dimC + gr_nWG_col t - 1) div gr_nWG_col t)"

definition gc_idWFR :: "'v Ger \<Rightarrow> nd_item \<Rightarrow> nat" where
  "gc_idWFR t it = nd_group it mod gr_nWG_row t"

definition gc_idWFC :: "'v Ger \<Rightarrow> nd_item \<Rightarrow> nat" where
  "gc_idWFC t it = nd_group it div gr_nWG_row t"

definition gc_dimWFR :: "'v Ger \<Rightarrow> nd_item \<Rightarrow> nat" where
  "gc_dimWFR t it =
     (let dimR = mv_sizeR (gr_lhs t); localSz = nd_local_range it
      in (dimR + localSz * gr_nWG_row t - 1) div (localSz * gr_nWG_row t) * localSz)"

definition gc_frs_row :: "'v Ger \<Rightarrow> nd_item \<Rightarrow> nat \<Rightarrow> nat" where
  "gc_frs_row t it localid = gc_idWFR t it * gc_dimWFR t it + localid"

definition gc_lst_row :: "'v Ger \<Rightarrow> nd_item \<Rightarrow> nat \<Rightarrow> nat" where
  "gc_lst_row t it localid = min (mv_sizeR (gr_lhs t)) (gc_frs_row t it localid + gc_dimWFR t it)"

definition gc_frs_col :: "'v Ger \<Rightarrow> nd_item \<Rightarrow> nat" where
  "gc_frs_col t it = gc_idWFC t it * gc_colSz t it"

definition gc_lst_col :: "'v Ger \<Rightarrow> nd_item \<Rightarrow> nat" where
  "gc_lst_col t it = min (mv_sizeC (gr_lhs t)) (gc_frs_col t it + gc_colSz t it)"

text \<open>The group does nothing when its block lies outside the selected triangle.\<close>

definition gc_skip :: "'v Ger \<Rightarrow> nd_item \<Rightarrow> bool" where
  "gc_skip t it \<longleftrightarrow>
     (\<not> gr_Upper t \<and> gc_frs_col t it + gr_nd t > gc_idWFR t it * gc_dimWFR t it + gc_dimWFR t it - 1) \<or>
     (\<not> gr_Lower t \<and> gc_idWFR t it * gc_dimWFR t it + gr_nd t > gc_lst_col t it - 1)"

subsection \<open>Without local memory\<close>

definition gc_eval :: "'v::{plus, times} Ger \<Rightarrow> nd_item \<Rightarrow> 'v mem \<Rightarrow> 'v mem" where
  "gc_eval t it m =
     (let localSz = nd_local_range it;
          frs_row = gc_frs_row t it (nd_local it); lst_row = gc_lst_row t it (nd_local it);
          cols = (\<lambda>id_row.
            [(if gr_Lower t then gc_frs_col t it else max (id_row + gr_nd t) (gc_frs_col t it))
              ..<(if gr_Upper t then gc_lst_col t it
                  else min (id_row + (if \<not> gr_Diag t then 0 else 1)) (gc_lst_col t it))])
      in if gc_skip t it then m
         else if gr_Single t then
           fold (\<lambda>id_row m.
               let v = gr_scalar t * gr_x1 t m id_row
               in fold (\<lambda>id_col m. gr_add t id_row id_col (v * gr_x2 t m id_col) m) (cols id_row) m)
             (strided frs_row lst_row localSz) m
         else
           fold (\<lambda>id_row m.
               let val1 = gr_scalar t * gr_x1 t m id_row; val2 = gr_scalar t * gr_x2 t m id_row
               in fold (\<lambda>id_col m. gr_add t id_row id_col (val1 * gr_x2 t m id_col + val2 * gr_x1 t m id_col) m)
                    (cols id_row) m)
             (strided frs_row lst_row localSz) m)"

subsection \<open>With local memory\<close>

type_synonym 'v gr_state = "('v mem, 'v, unit) group_state"

text \<open>How many columns one round of the loop over \<open>colid\<close> handles: a rank two update keeps two vectors
  in local memory.\<close>

definition gc_step :: "'v Ger \<Rightarrow> nat" where
  "gc_step t = (if gr_Single t then gr_local_memory_size t else gr_local_memory_size t div 2)"

definition gc_blqSz :: "'v Ger \<Rightarrow> nd_item \<Rightarrow> nat \<Rightarrow> nat" where
  "gc_blqSz t it colid = min (gc_step t) (gc_lst_col t it - colid)"

text \<open>Up to the barrier, the items fill local memory; after it, they update their rows.\<close>

definition gc_load :: "'v::times Ger \<Rightarrow> nd_item \<Rightarrow> nat \<Rightarrow> nat \<Rightarrow> 'v gr_state \<Rightarrow> 'v gr_state" where
  "gc_load t it colid localid gs =
     (let cols = strided localid (gc_blqSz t it colid) (nd_local_range it); shrSz1 = gr_local_memory_size t div 2
      in gs\<lparr>gs_local :=
           (if gr_Single t then
              fold (\<lambda>col f. f(col := gr_scalar t * gr_x2 t (gs_mem gs) (colid + col))) cols (gs_local gs)
            else
              fold (\<lambda>col f. f(col := gr_scalar t * gr_x1 t (gs_mem gs) (colid + col),
                              shrSz1 + col := gr_scalar t * gr_x2 t (gs_mem gs) (colid + col))) cols (gs_local gs))\<rparr>)"

definition gc_rows :: "'v::{plus, times} Ger \<Rightarrow> nd_item \<Rightarrow> nat \<Rightarrow> (nat \<Rightarrow> 'v) \<Rightarrow> nat \<Rightarrow> 'v mem \<Rightarrow> 'v mem" where
  "gc_rows t it colid shrMem localid m =
     (let rows = strided (gc_frs_row t it localid) (gc_lst_row t it localid) (nd_local_range it);
          shrSz1 = gr_local_memory_size t div 2
      in if gr_Single t then
           fold (\<lambda>id_row m.
               let v = gr_x1 t m id_row
               in fold (\<lambda>col m. if gr_selects t id_row (colid + col)
                                 then gr_add t id_row (colid + col) (v * shrMem col) m else m)
                    [0..<gc_blqSz t it colid] m)
             rows m
         else
           fold (\<lambda>id_row m.
               let val1 = gr_x1 t m id_row; val2 = gr_x2 t m id_row
               in fold (\<lambda>col m. if gr_selects t id_row (colid + col)
                                 then gr_add t id_row (colid + col)
                                        (val1 * shrMem (shrSz1 + col) + val2 * shrMem col) m else m)
                    [0..<gc_blqSz t it colid] m)
             rows m)"

definition gc_update :: "'v::{plus, times} Ger \<Rightarrow> nd_item \<Rightarrow> nat \<Rightarrow> nat \<Rightarrow> 'v gr_state \<Rightarrow> 'v gr_state" where
  "gc_update t it colid localid gs =
     gs\<lparr>gs_mem := gc_rows t it colid (gs_local gs) localid (gs_mem gs)\<rparr>"

definition gc_phases :: "'v::{plus, times} Ger \<Rightarrow> nd_item \<Rightarrow> (nat \<Rightarrow> 'v gr_state \<Rightarrow> 'v gr_state) list" where
  "gc_phases t it =
     (if gc_skip t it then []
      else concat (map (\<lambda>colid. [gc_load t it colid, gc_update t it colid])
             (strided (gc_frs_col t it) (gc_lst_col t it) (gc_step t))))"

section \<open>GerRow\<close>

text \<open>The mirror image: the items of a group share its columns, local memory holds rows. No operation of the
  interface builds this tree.\<close>

definition gw_rowSz :: "'v Ger \<Rightarrow> nat" where
  "gw_rowSz t = (mv_sizeR (gr_lhs t) + gr_nWG_row t - 1) div gr_nWG_row t"

definition gw_dimWFC :: "'v Ger \<Rightarrow> nd_item \<Rightarrow> nat" where
  "gw_dimWFC t it =
     (let dimC = mv_sizeC (gr_lhs t); localSz = nd_local_range it
      in (dimC + localSz * gr_nWG_col t - 1) div (localSz * gr_nWG_col t) * localSz)"

definition gw_frs_row :: "'v Ger \<Rightarrow> nd_item \<Rightarrow> nat" where
  "gw_frs_row t it = gc_idWFR t it * gw_rowSz t"

definition gw_lst_row :: "'v Ger \<Rightarrow> nd_item \<Rightarrow> nat" where
  "gw_lst_row t it = min (mv_sizeR (gr_lhs t)) (gw_frs_row t it + gw_rowSz t)"

definition gw_frs_col :: "'v Ger \<Rightarrow> nd_item \<Rightarrow> nat \<Rightarrow> nat" where
  "gw_frs_col t it localid = gc_idWFC t it * gw_dimWFC t it + localid"

definition gw_lst_col :: "'v Ger \<Rightarrow> nd_item \<Rightarrow> nat \<Rightarrow> nat" where
  "gw_lst_col t it localid = min (mv_sizeC (gr_lhs t)) (gw_frs_col t it localid + gw_dimWFC t it)"

definition gw_skip :: "'v Ger \<Rightarrow> nd_item \<Rightarrow> bool" where
  "gw_skip t it \<longleftrightarrow>
     (\<not> gr_Upper t \<and> gc_idWFC t it * gw_dimWFC t it + gr_nd t > gw_lst_row t it - 1) \<or>
     (\<not> gr_Lower t \<and> gw_frs_row t it + gr_nd t > gc_idWFC t it * gw_dimWFC t it + gw_dimWFC t it - 1)"

definition gw_eval :: "'v::{plus, times} Ger \<Rightarrow> nd_item \<Rightarrow> 'v mem \<Rightarrow> 'v mem" where
  "gw_eval t it m =
     (let cols = strided (gw_frs_col t it (nd_local it)) (gw_lst_col t it (nd_local it)) (nd_local_range it);
          rows = [gw_frs_row t it..<gw_lst_row t it]
      in if gw_skip t it then m
         else if gr_Single t then
           fold (\<lambda>colid m.
               let v = gr_scalar t * gr_x2 t m colid
               in fold (\<lambda>id_row m. if gr_selects t id_row colid
                                    then gr_add t id_row colid (gr_x1 t m id_row * v) m else m) rows m)
             cols m
         else
           fold (\<lambda>colid m.
               let val1 = gr_scalar t * gr_x1 t m colid; val2 = gr_scalar t * gr_x2 t m colid
               in fold (\<lambda>id_row m. if gr_selects t id_row colid
                                    then gr_add t id_row colid
                                           (if gr_Lower t \<and> gr_Upper t \<and> gr_Diag t
                                            then gr_x1 t m id_row * val2 + val1 * gr_x2 t m id_row
                                            else gr_x1 t m id_row * val2 + gr_x2 t m id_row * val1) m
                                    else m) rows m)
             cols m)"

text \<open>Both kinds of update move on by \<open>shrSz\<close> rows per round; the rank two update handles only
  \<open>shrSz / 2\<close> of them.\<close>

definition gw_blqSz :: "'v Ger \<Rightarrow> nd_item \<Rightarrow> nat \<Rightarrow> nat" where
  "gw_blqSz t it rowid =
     min (if gr_Single t then gr_local_memory_size t else gr_local_memory_size t div 2) (gw_lst_row t it - rowid)"

definition gw_load :: "'v::times Ger \<Rightarrow> nd_item \<Rightarrow> nat \<Rightarrow> nat \<Rightarrow> 'v gr_state \<Rightarrow> 'v gr_state" where
  "gw_load t it rowid localid gs =
     (let rows = strided localid (gw_blqSz t it rowid) (nd_local_range it); shrSz1 = gr_local_memory_size t div 2
      in gs\<lparr>gs_local :=
           (if gr_Single t then
              fold (\<lambda>row f. f(row := gr_scalar t * gr_x1 t (gs_mem gs) (rowid + row))) rows (gs_local gs)
            else
              fold (\<lambda>row f. f(row := gr_scalar t * gr_x1 t (gs_mem gs) (rowid + row),
                              shrSz1 + row := gr_scalar t * gr_x2 t (gs_mem gs) (rowid + row))) rows (gs_local gs))\<rparr>)"

definition gw_update :: "'v::{plus, times} Ger \<Rightarrow> nd_item \<Rightarrow> nat \<Rightarrow> nat \<Rightarrow> 'v gr_state \<Rightarrow> 'v gr_state" where
  "gw_update t it rowid localid gs =
     (let cols = strided (gw_frs_col t it localid) (gw_lst_col t it localid) (nd_local_range it);
          shrMem = gs_local gs; shrSz1 = gr_local_memory_size t div 2
      in gs\<lparr>gs_mem :=
           (if gr_Single t then
              fold (\<lambda>colid m.
                  let v = gr_x2 t m colid
                  in fold (\<lambda>row m. if gr_selects t (rowid + row) colid
                                    then gr_add t (rowid + row) colid (shrMem row * v) m else m)
                       [0..<gw_blqSz t it rowid] m)
                cols (gs_mem gs)
            else
              fold (\<lambda>colid m.
                  let val1 = gr_x1 t m colid; val2 = gr_x2 t m colid
                  in fold (\<lambda>row m. if gr_selects t (rowid + row) colid
                                    then gr_add t (rowid + row) colid
                                           (shrMem row * val2 + shrMem (shrSz1 + row) * val1) m else m)
                       [0..<gw_blqSz t it rowid] m)
                cols (gs_mem gs))\<rparr>)"

definition gw_phases :: "'v::{plus, times} Ger \<Rightarrow> nd_item \<Rightarrow> (nat \<Rightarrow> 'v gr_state \<Rightarrow> 'v gr_state) list" where
  "gw_phases t it =
     (if gw_skip t it then []
      else concat (map (\<lambda>rowid. [gw_load t it rowid, gw_update t it rowid])
             (strided (gw_frs_row t it) (gw_lst_row t it) (gr_local_memory_size t))))"

section \<open>The interface\<close>

text \<open>The defaults the three operations share: a parameter of 0 is replaced.\<close>

definition ger_impl ::
  "'v device_run \<Rightarrow> policy_handler \<Rightarrow> nat \<Rightarrow> nat \<Rightarrow> 'v::{plus, times} \<Rightarrow> BufferIterator \<Rightarrow> int \<Rightarrow>
   BufferIterator \<Rightarrow> int \<Rightarrow> BufferIterator \<Rightarrow> nat \<Rightarrow> nat \<Rightarrow> nat \<Rightarrow> nat \<Rightarrow> nat \<Rightarrow> 'v mem \<Rightarrow> 'v mem" where
  "ger_impl r ph M N alpha vx incx vy incy mA lda localSize0 scratchPadSize0 nRowsWG0 nColsWG0 m =
     (let mA = make_matrix_view col_major mA M N lda;
          vx = make_vector_view vx incx M;
          vy = make_vector_view vy incy N;
          localSize = (if localSize0 = 0 then ph_work_group_size ph else localSize0);
          nRowsWG = (if nRowsWG0 = 0 then localSize else min M nRowsWG0);
          nColsWG = (if nColsWG0 = 0 then localSize else min N nColsWG0);
          scratchPadSize = (if localSize0 = 0 then localSize else scratchPadSize0);
          nWGPerCol = (N - 1) div nColsWG + 1;
          nWGPerRow = (M - 1) div nRowsWG + 1;
          globalSize = localSize * nWGPerRow * nWGPerCol;
          assignOp = make_Ger True True True True mA alpha vx vy nWGPerRow nWGPerCol scratchPadSize
      in execute_tree_local r () (gc_phases assignOp) localSize globalSize m)"

definition syr_impl ::
  "'v device_run \<Rightarrow> policy_handler \<Rightarrow> char \<Rightarrow> nat \<Rightarrow> 'v::{plus, times} \<Rightarrow> BufferIterator \<Rightarrow> int \<Rightarrow>
   BufferIterator \<Rightarrow> nat \<Rightarrow> nat \<Rightarrow> nat \<Rightarrow> nat \<Rightarrow> nat \<Rightarrow> 'v mem \<Rightarrow> 'v mem" where
  "syr_impl r ph Uplo N alpha vx incx mA lda localSize0 scratchPadSize0 nRowsWG0 nColsWG0 m =
     (let triangOpr = (tolower Uplo = CHR ''u'');
          mA = make_matrix_view col_major mA N N lda;
          vx = make_vector_view vx incx N;
          localSize = (if localSize0 = 0 then ph_work_group_size ph else localSize0);
          nRowsWG = (if nRowsWG0 = 0 then localSize else min N nRowsWG0);
          nColsWG = (if nColsWG0 = 0 then localSize else min N nColsWG0);
          scratchPadSize = (if localSize0 = 0 then localSize else scratchPadSize0);
          nWGPerRow = (N - 1) div nRowsWG + 1;
          nWGPerCol = (N - 1) div nColsWG + 1;
          globalSize = localSize * nWGPerRow * nWGPerCol
      in if triangOpr then
           (let assignOp = make_Ger True False True True mA alpha vx vx nWGPerRow nWGPerCol scratchPadSize
            in execute_tree_local r () (gc_phases assignOp) localSize globalSize m)
         else
           (let assignOp = make_Ger True True True False mA alpha vx vx nWGPerRow nWGPerCol scratchPadSize
            in execute_tree_local r () (gc_phases assignOp) localSize globalSize m))"

definition syr2_impl ::
  "'v device_run \<Rightarrow> policy_handler \<Rightarrow> char \<Rightarrow> nat \<Rightarrow> 'v::{plus, times} \<Rightarrow> BufferIterator \<Rightarrow> int \<Rightarrow>
   BufferIterator \<Rightarrow> int \<Rightarrow> BufferIterator \<Rightarrow> nat \<Rightarrow> nat \<Rightarrow> nat \<Rightarrow> nat \<Rightarrow> nat \<Rightarrow> 'v mem \<Rightarrow> 'v mem" where
  "syr2_impl r ph Uplo N alpha vx incx vy incy mA lda localSize0 scratchPadSize0 nRowsWG0 nColsWG0 m =
     (let triangOpr = (tolower Uplo = CHR ''u'');
          mA = make_matrix_view col_major mA N N lda;
          vx = make_vector_view vx incx N;
          vy = make_vector_view vy incy N;
          localSize = (if localSize0 = 0 then ph_work_group_size ph else localSize0);
          nRowsWG = (if nRowsWG0 = 0 then localSize else min N nRowsWG0);
          nColsWG = (if nColsWG0 = 0 then localSize else min N nColsWG0);
          scratchPadSize = (if localSize0 = 0 then 2 * localSize else scratchPadSize0);
          nWGPerRow = (N - 1) div nRowsWG + 1;
          nWGPerCol = (N - 1) div nColsWG + 1;
          globalSize = localSize * nWGPerRow * nWGPerCol
      in if triangOpr then
           (let assignOp = make_Ger False False True True mA alpha vx vy nWGPerRow nWGPerCol scratchPadSize
            in execute_tree_local r () (gc_phases assignOp) localSize globalSize m)
         else
           (let assignOp = make_Ger False True True False mA alpha vx vy nWGPerRow nWGPerCol scratchPadSize
            in execute_tree_local r () (gc_phases assignOp) localSize globalSize m))"

definition ger where
  "ger r ph M N alpha vx incx vy incy mA lda m =
     ger_impl r ph M N alpha vx incx vy incy mA lda 0 0 0 0 m"

definition syr where
  "syr r ph Uplo N alpha vx incx mA lda m = syr_impl r ph Uplo N alpha vx incx mA lda 0 0 0 0 m"

definition syr2 where
  "syr2 r ph Uplo N alpha vx incx vy incy mA lda m =
     syr2_impl r ph Uplo N alpha vx incx vy incy mA lda 0 0 0 0 m"

section \<open>What a kernel adds\<close>

definition gr_cells :: "'v Ger \<Rightarrow> nat \<times> nat \<Rightarrow> addr" where
  "gr_cells t = (\<lambda>(i, j). maddr (gr_lhs t) i j)"

definition gr_all :: "'v Ger \<Rightarrow> (nat \<times> nat) set" where
  "gr_all t = {..<mv_sizeR (gr_lhs t)} \<times> {..<mv_sizeC (gr_lhs t)}"

definition gr_value :: "'v::{plus, times} Ger \<Rightarrow> 'v mem \<Rightarrow> nat \<times> nat \<Rightarrow> 'v" where
  "gr_value t m = (\<lambda>(i, j).
     if gr_Single t then gr_x1 t m i * (gr_scalar t * gr_x2 t m j)
     else gr_x1 t m i * (gr_scalar t * gr_x2 t m j) + gr_x2 t m i * (gr_scalar t * gr_x1 t m j))"

text \<open>The matrix has distinct cells, apart from those of the vectors.\<close>

definition gr_wf :: "'v Ger \<Rightarrow> bool" where
  "gr_wf t \<longleftrightarrow> wf_matrix_view (gr_lhs t) \<and> 0 < mv_sizeR (gr_lhs t) \<and> 0 < mv_sizeC (gr_lhs t) \<and>
     acc_buffer (vv_data (gr_rhs_1 t)) \<noteq> acc_buffer (mv_data (gr_lhs t)) \<and>
     acc_buffer (vv_data (gr_rhs_2 t)) \<noteq> acc_buffer (mv_data (gr_lhs t)) \<and> 0 < gc_step t"

lemma gr_cells_inj: "gr_wf t \<Longrightarrow> inj_on (gr_cells t) (gr_all t)"
  unfolding gr_wf_def gr_cells_def gr_all_def inj_on_def by (auto dest: maddr_inj)

lemma gr_reads:
  assumes "gr_wf t" "\<And>c. c \<notin> gr_cells t ` gr_all t \<Longrightarrow> m c = m0 c"
  shows "gr_x1 t m = gr_x1 t m0" "gr_x2 t m = gr_x2 t m0"
proof -
  have "vaddr (gr_rhs_1 t) i \<notin> gr_cells t ` gr_all t" "vaddr (gr_rhs_2 t) i \<notin> gr_cells t ` gr_all t" for i
    using assms(1) by (auto simp: gr_wf_def gr_cells_def maddr_eq vaddr_eq)
  then have "gr_x1 t m i = gr_x1 t m0 i" "gr_x2 t m i = gr_x2 t m0 i" for i
    unfolding gr_x1_def gr_x2_def by (simp_all add: assms(2))
  then show "gr_x1 t m = gr_x1 t m0" "gr_x2 t m = gr_x2 t m0" by auto
qed

text \<open>Local memory holds the scaled elements of block \<open>colid\<close>.\<close>

definition shr_ok :: "'v::times Ger \<Rightarrow> nd_item \<Rightarrow> nat \<Rightarrow> 'v mem \<Rightarrow> (nat \<Rightarrow> 'v) \<Rightarrow> bool" where
  "shr_ok t it colid m f \<longleftrightarrow> (\<forall>col < gc_blqSz t it colid.
     if gr_Single t then f col = gr_scalar t * gr_x2 t m (colid + col)
     else f col = gr_scalar t * gr_x1 t m (colid + col) \<and>
          f (gr_local_memory_size t div 2 + col) = gr_scalar t * gr_x2 t m (colid + col))"

text \<open>One row of a block.\<close>

lemma fold_row_added:
  fixes w :: "nat \<Rightarrow> 'v::plus"
  assumes wf: "gr_wf t" and i: "i < mv_sizeR (gr_lhs t)" and n: "n = 0 \<or> c + n \<le> mv_sizeC (gr_lhs t)"
    and v: "\<And>k. k < n \<Longrightarrow> w k = v (i, c + k)"
  shows "added (gr_cells t) {(i, j) |j. c \<le> j \<and> j < c + n \<and> gr_selects t i j} v m
    (fold (\<lambda>k m. if gr_selects t i (c + k) then gr_add t i (c + k) (w k) m else m) [0..<n] m)"
proof -
  let ?S = "\<lambda>k. if gr_selects t i (c + k) then {(i, c + k)} else {}"
  have "added (gr_cells t) (\<Union>k \<in> set [0..<n]. ?S k) v m
    (fold (\<lambda>k m. if gr_selects t i (c + k) then gr_add t i (c + k) (w k) m else m) [0..<n] m)"
    by (rule fold_added [OF gr_cells_inj [OF wf], where X = "{..<n}" and ?m0.0 = m])
      (use i n v in \<open>auto simp: added_def gr_add_def gr_cells_def gr_all_def\<close>)
  moreover have "(\<Union>k \<in> set [0..<n]. ?S k) = {(i, j) |j. c \<le> j \<and> j < c + n \<and> gr_selects t i j}"
  proof (intro subset_antisym subsetI)
    fix p assume "p \<in> {(i, j) |j. c \<le> j \<and> j < c + n \<and> gr_selects t i j}"
    then obtain j where j: "p = (i, j)" "c \<le> j" "j < c + n" "gr_selects t i j" by blast
    then have "p = (i, c + (j - c))" "j - c < n" "gr_selects t i (c + (j - c))" by auto
    then show "p \<in> (\<Union>k \<in> set [0..<n]. ?S k)" by auto
  qed (auto split: if_splits)
  ultimately show ?thesis by simp
qed

text \<open>One item in a block.\<close>

definition gc_item_part :: "'v Ger \<Rightarrow> nd_item \<Rightarrow> nat \<Rightarrow> nat \<Rightarrow> (nat \<times> nat) set" where
  "gc_item_part t it colid l =
     {(i, j). i \<in> set (strided (gc_frs_row t it l) (gc_lst_row t it l) (nd_local_range it)) \<and>
              colid \<le> j \<and> j < colid + gc_blqSz t it colid \<and> gr_selects t i j}"

lemma gc_rows_added:
  fixes t :: "'v::{plus, times} Ger"
  assumes wf: "gr_wf t" and shr: "shr_ok t it colid m0 f" and L: "0 < nd_local_range it"
    and m: "\<And>c. c \<notin> gr_cells t ` gr_all t \<Longrightarrow> m c = m0 c"
  shows "added (gr_cells t) (gc_item_part t it colid l) (gr_value t m0) m (gc_rows t it colid f l m)"
proof -
  let ?rows = "strided (gc_frs_row t it l) (gc_lst_row t it l) (nd_local_range it)"
  let ?n = "gc_blqSz t it colid"
  let ?S = "\<lambda>i. {(i, j) |j. colid \<le> j \<and> j < colid + ?n \<and> gr_selects t i j}"
  have n: "?n = 0 \<or> colid + ?n \<le> mv_sizeC (gr_lhs t)"
    by (auto simp: gc_blqSz_def gc_lst_col_def)
  have row: "i < mv_sizeR (gr_lhs t)" if "i \<in> set ?rows" for i
    using that L by (simp add: set_strided gc_lst_row_def)
  have sub: "?S i \<subseteq> gr_all t" if "i \<in> set ?rows" for i
    using row [OF that] n by (auto simp: gr_all_def)
  have disj: "?S i \<inter> ?S k = {}" if "i \<noteq> k" for i k using that by auto
  have part: "(\<Union>i \<in> set ?rows. ?S i) = gc_item_part t it colid l" by (auto simp: gc_item_part_def)
  note go = fold_added [OF gr_cells_inj [OF wf], where X = "set ?rows" and ?m0.0 = m0 and S = ?S, OF _ sub disj
      distinct_strided subset_refl m, unfolded part]
  show ?thesis
  proof (cases "gr_Single t")
    case True
    have w: "gr_x1 t m' i * f k = gr_value t m0 (i, colid + k)"
      if "k < ?n" "\<And>c. c \<notin> gr_cells t ` gr_all t \<Longrightarrow> m' c = m0 c" for i k m'
      using shr True gr_reads [OF wf, of m' m0, OF that(2)] that(1) by (simp add: gr_value_def shr_ok_def)
    show ?thesis
      unfolding gc_rows_def Let_def if_P [OF True]
      by (rule go, (rule fold_row_added [OF wf row n], assumption, rule w, assumption+)[]) assumption+
  next
    case False
    have w: "gr_x1 t m' i * f (gr_local_memory_size t div 2 + k) + gr_x2 t m' i * f k = gr_value t m0 (i, colid + k)"
      if "k < ?n" "\<And>c. c \<notin> gr_cells t ` gr_all t \<Longrightarrow> m' c = m0 c" for i k m'
      using shr False gr_reads [OF wf, of m' m0, OF that(2)] that(1) by (simp add: gr_value_def shr_ok_def)
    show ?thesis
      unfolding gc_rows_def Let_def if_not_P [OF False]
      by (rule go, (rule fold_row_added [OF wf row n], assumption, rule w, assumption+)[]) assumption+
  qed
qed

section \<open>Filling local memory\<close>

lemma fold_store:
  "fold (\<lambda>x f. f(x := g x)) xs f = (\<lambda>c. if c \<in> set xs then g c else f c)"
  by (induction xs arbitrary: f) (auto simp: fun_eq_iff)

lemma fold_store_two:
  fixes s :: nat
  assumes "\<forall>x \<in> set xs. x < s"
  shows "fold (\<lambda>x f. f(x := g x, s + x := h x)) xs f =
    (\<lambda>c. if c \<in> set xs then g c else if s \<le> c \<and> c - s \<in> set xs then h (c - s) else f c)"
  using assms
proof (induction xs arbitrary: f)
  case (Cons x xs)
  then show ?case by (auto simp: fun_eq_iff)
qed simp

lemma gc_load_ok:
  fixes gs :: "'v::times gr_state"
  assumes L: "0 < nd_local_range it" and xs: "distinct xs" "set xs = {..<nd_local_range it}"
  obtains f where "fold (gc_load t it colid) xs gs = gs\<lparr>gs_local := f\<rparr>" "shr_ok t it colid (gs_mem gs) f"
proof -
  let ?L = "nd_local_range it" and ?n = "gc_blqSz t it colid" and ?s = "gr_local_memory_size t div 2"
  let ?cols = "\<lambda>l. strided l ?n ?L"
  have cols: "set (?cols l) = {c. c < ?n \<and> c mod ?L = l}" if "l < ?L" for l
    using that L by (auto simp: set_strided intro: mod_less_eq_dividend)
  have n: "?n \<le> ?s" if "\<not> gr_Single t" using that by (simp add: gc_blqSz_def gc_step_def)
  let ?W = "\<lambda>l. {c. c < ?n \<and> c mod ?L = l} \<union>
    (if gr_Single t then {} else {c. ?s \<le> c \<and> c - ?s < ?n \<and> (c - ?s) mod ?L = l})"
  let ?v = "\<lambda>(l :: nat) m c. if c < ?n then gr_scalar t * (if gr_Single t then gr_x2 t m (colid + c) else gr_x1 t m (colid + c))
    else gr_scalar t * gr_x2 t m (colid + (c - ?s))"
  let ?step = "\<lambda>l m f. if gr_Single t then
        fold (\<lambda>col f. f(col := gr_scalar t * gr_x2 t m (colid + col))) (?cols l) f
      else fold (\<lambda>col f. f(col := gr_scalar t * gr_x1 t m (colid + col),
                            ?s + col := gr_scalar t * gr_x2 t m (colid + col))) (?cols l) f"
  have step: "?step l m f c = (if c \<in> ?W l then ?v l m c else f c)" if l: "l < ?L" for l m f c
  proof (cases "gr_Single t")
    case True
    then show ?thesis using cols [OF l] by (simp add: fold_store)
  next
    case False
    have "\<forall>x \<in> set (?cols l). x < ?s" using cols [OF l] n [OF False] by auto
    then show ?thesis using False cols [OF l] n [OF False] by (auto simp: fold_store_two)
  qed
  have disj: "?W k \<inter> ?W l = {}" if "k \<noteq> l" for k l using that n by auto
  obtain f where f: "fold (gc_load t it colid) xs gs = gs\<lparr>gs_local := f\<rparr>"
    and hit: "\<And>l c. l < ?L \<Longrightarrow> c \<in> ?W l \<Longrightarrow> f c = ?v l (gs_mem gs) c"
    by (rule phase_local_cells [where upd = "gc_load t it colid" and W = ?W and n = ?L and step = ?step and v = ?v
          and gs = gs, OF _ _ _ disj xs])
      (auto simp: gc_load_def Let_def step simp del: Un_iff)
  have lt: "c mod ?L < ?L" for c using L by simp
  have "shr_ok t it colid (gs_mem gs) f"
    unfolding shr_ok_def
  proof (intro allI impI)
    fix c assume c: "c < ?n"
    have 1: "c \<in> ?W (c mod ?L)" using c by simp
    have 2: "?s + c \<in> ?W (c mod ?L)" "\<not> ?s + c < ?n" if "\<not> gr_Single t" using that c n by auto
    show "if gr_Single t then f c = gr_scalar t * gr_x2 t (gs_mem gs) (colid + c)
      else f c = gr_scalar t * gr_x1 t (gs_mem gs) (colid + c) \<and>
           f (?s + c) = gr_scalar t * gr_x2 t (gs_mem gs) (colid + c)"
      using hit [OF lt 1] hit [OF lt 2(1)] 2(2) c by simp
  qed
  then show thesis using that f by blast
qed

section \<open>The blocks of a group\<close>

definition gc_block_part :: "'v Ger \<Rightarrow> nd_item \<Rightarrow> nat \<Rightarrow> (nat \<times> nat) set" where
  "gc_block_part t it colid = (\<Union>l < nd_local_range it. gc_item_part t it colid l)"

lemma shr_ok_reads:
  assumes "gr_wf t" "\<And>c. c \<notin> gr_cells t ` gr_all t \<Longrightarrow> m c = m0 c" "shr_ok t it colid m f"
  shows "shr_ok t it colid m0 f"
  using assms(3) gr_reads [OF assms(1), of m m0, OF assms(2)] by (simp add: shr_ok_def)

lemma gc_item_part_sub: "0 < nd_local_range it \<Longrightarrow> gc_item_part t it colid l \<subseteq> gr_all t"
  by (auto simp: gc_item_part_def gr_all_def set_strided gc_lst_row_def gc_blqSz_def gc_lst_col_def)

lemma gc_block_added:
  fixes t :: "'v::{plus, times} Ger"
  assumes wf: "gr_wf t" and L: "0 < nd_local_range it"
    and xs: "distinct xs" "set xs = {..<nd_local_range it}" and ys: "distinct ys" "set ys = {..<nd_local_range it}"
    and disj: "\<And>k l. k < nd_local_range it \<Longrightarrow> l < nd_local_range it \<Longrightarrow> k \<noteq> l \<Longrightarrow>
        gc_item_part t it colid k \<inter> gc_item_part t it colid l = {}"
    and m: "\<And>c. c \<notin> gr_cells t ` gr_all t \<Longrightarrow> gs_mem gs c = m0 c"
  shows "added (gr_cells t) (gc_block_part t it colid) (gr_value t m0) (gs_mem gs)
    (gs_mem (fold (gc_update t it colid) ys (fold (gc_load t it colid) xs gs)))"
proof -
  obtain f where f: "fold (gc_load t it colid) xs gs = gs\<lparr>gs_local := f\<rparr>" "shr_ok t it colid (gs_mem gs) f"
    by (rule gc_load_ok [OF L xs])
  have shr: "shr_ok t it colid m0 f" by (rule shr_ok_reads [OF wf _ f(2)]) (rule m)
  have up: "fold (gc_update t it colid) zs gs' = gs'\<lparr>gs_mem := fold (gc_rows t it colid (gs_local gs')) zs (gs_mem gs')\<rparr>"
    for zs gs' by (induction zs arbitrary: gs') (simp_all add: gc_update_def)
  have "added (gr_cells t) (\<Union>l \<in> set ys. gc_item_part t it colid l) (gr_value t m0) (gs_mem gs)
      (fold (gc_rows t it colid f) ys (gs_mem gs))"
    by (rule fold_added [OF gr_cells_inj [OF wf], where X = "{..<nd_local_range it}" and ?m0.0 = m0 and
          S = "gc_item_part t it colid" and step = "gc_rows t it colid f"],
        (rule gc_rows_added [OF wf shr L], simp)[], rule gc_item_part_sub [OF L])
      (use disj ys m in simp_all)
  then show ?thesis by (simp add: f(1) up gc_block_part_def ys lessThan_def)
qed

lemma gc_blocks_added:
  fixes t :: "'v::{plus, times} Ger"
  assumes wf: "gr_wf t" and L: "0 < nd_local_range it"
    and ord: "\<And>k. distinct (ord k)" "\<And>k. set (ord k) = {..<nd_local_range it}"
    and items: "\<And>c k l. k < nd_local_range it \<Longrightarrow> l < nd_local_range it \<Longrightarrow> k \<noteq> l \<Longrightarrow>
        gc_item_part t it c k \<inter> gc_item_part t it c l = {}"
    and blocks: "\<And>c d. c \<in> set cs \<Longrightarrow> d \<in> set cs \<Longrightarrow> c \<noteq> d \<Longrightarrow> gc_block_part t it c \<inter> gc_block_part t it d = {}"
    and cs: "distinct cs"
    and m: "\<And>c. c \<notin> gr_cells t ` gr_all t \<Longrightarrow> gs_mem gs c = m0 c"
  shows "added (gr_cells t) (\<Union>c \<in> set cs. gc_block_part t it c) (gr_value t m0) (gs_mem gs)
    (gs_mem (run_phases ord k (concat (map (\<lambda>c. [gc_load t it c, gc_update t it c]) cs)) gs))"
  using blocks cs m
proof (induction cs arbitrary: gs k)
  case Nil
  then show ?case by simp
next
  case (Cons c cs)
  have sub: "gc_block_part t it d \<subseteq> gr_all t" for d
    using gc_item_part_sub [OF L] by (auto simp: gc_block_part_def)
  define gs' where "gs' = fold (gc_update t it c) (ord (Suc k)) (fold (gc_load t it c) (ord k) gs)"
  have one: "added (gr_cells t) (gc_block_part t it c) (gr_value t m0) (gs_mem gs) (gs_mem gs')"
    unfolding gs'_def by (rule gc_block_added [OF wf L ord ord items Cons.prems(3)])
  have out: "gs_mem gs' d = m0 d" if "d \<notin> gr_cells t ` gr_all t" for d
    using added_frame [OF one sub that] Cons.prems(3) [OF that] by simp
  have rest: "added (gr_cells t) (\<Union>d \<in> set cs. gc_block_part t it d) (gr_value t m0) (gs_mem gs')
    (gs_mem (run_phases ord (Suc (Suc k)) (concat (map (\<lambda>c. [gc_load t it c, gc_update t it c]) cs)) gs'))"
    by (rule Cons.IH [OF _ _ out]) (use Cons.prems(1,2) in auto)
  have "gc_block_part t it c \<inter> (\<Union>d \<in> set cs. gc_block_part t it d) = {}"
    using Cons.prems(1,2) by fastforce
  moreover have "inj_on (gr_cells t) (gc_block_part t it c \<union> (\<Union>d \<in> set cs. gc_block_part t it d))"
    by (rule inj_on_subset [OF gr_cells_inj [OF wf]]) (use sub in blast)
  ultimately show ?case using added_trans [OF one rest] by (simp add: gs'_def)
qed

section \<open>The geometry of the groups\<close>

definition gc_group_part :: "'v Ger \<Rightarrow> nd_item \<Rightarrow> (nat \<times> nat) set" where
  "gc_group_part t it =
     {(i, j). i < mv_sizeR (gr_lhs t) \<and> j < mv_sizeC (gr_lhs t) \<and> gr_selects t i j \<and>
              i div gc_dimWFR t it = gc_idWFR t it \<and> j div gc_colSz t it = gc_idWFC t it}"

lemma gc_dimWFR_props:
  assumes "0 < nd_local_range it" "0 < gr_nWG_row t" "0 < mv_sizeR (gr_lhs t)"
  shows "nd_local_range it dvd gc_dimWFR t it" "0 < gc_dimWFR t it"
    and "mv_sizeR (gr_lhs t) \<le> gr_nWG_row t * gc_dimWFR t it"
  using padded_blocks [OF assms] by (simp_all add: gc_dimWFR_def cdiv_def Let_def)

lemma gc_item_part_eq:
  assumes "gr_wf t" "0 < nd_local_range it" "0 < gr_nWG_row t" "l < nd_local_range it"
  shows "gc_item_part t it colid l =
    {(i, j). i < mv_sizeR (gr_lhs t) \<and> i div gc_dimWFR t it = gc_idWFR t it \<and> i mod nd_local_range it = l \<and>
             colid \<le> j \<and> j < colid + gc_blqSz t it colid \<and> gr_selects t i j}"
proof -
  have "0 < mv_sizeR (gr_lhs t)" using assms(1) by (simp add: gr_wf_def)
  note D = gc_dimWFR_props [OF assms(2,3) this]
  show ?thesis
    unfolding gc_item_part_def gc_lst_row_def gc_frs_row_def cyclic_rows [OF assms(2) D(1,2) assms(4)] by auto
qed

lemma gc_block_part_eq:
  assumes "gr_wf t" "0 < nd_local_range it" "0 < gr_nWG_row t"
  shows "gc_block_part t it colid =
    {(i, j). i < mv_sizeR (gr_lhs t) \<and> i div gc_dimWFR t it = gc_idWFR t it \<and>
             colid \<le> j \<and> j < colid + gc_blqSz t it colid \<and> gr_selects t i j}"
  unfolding gc_block_part_def using assms(2) gc_item_part_eq [OF assms] by auto

lemma gc_cols_eq:
  assumes "0 < gc_colSz t it"
  shows "gc_frs_col t it \<le> j \<and> j < gc_lst_col t it \<longleftrightarrow> j < mv_sizeC (gr_lhs t) \<and> j div gc_colSz t it = gc_idWFC t it"
proof -
  have "j div gc_colSz t it = b \<longleftrightarrow> b * gc_colSz t it \<le> j \<and> j < b * gc_colSz t it + gc_colSz t it" for b
    using div_nat_eqI [of "gc_colSz t it" b j] dividend_less_div_times [OF assms, of j]
    by (auto simp: mult.commute)
  then show ?thesis by (auto simp: gc_frs_col_def gc_lst_col_def)
qed

lemma gc_blocks_cover:
  assumes wf: "gr_wf t" and L: "0 < nd_local_range it" and nr: "0 < gr_nWG_row t" and cs: "0 < gc_colSz t it"
  shows "(\<Union>c \<in> set (strided (gc_frs_col t it) (gc_lst_col t it) (gc_step t)). gc_block_part t it c)
       = gc_group_part t it"
proof -
  let ?cs = "strided (gc_frs_col t it) (gc_lst_col t it) (gc_step t)"
  have st: "0 < gc_step t" using wf by (simp add: gr_wf_def)
  note col = gc_cols_eq [OF cs]
  have "(\<exists>c \<in> set ?cs. c \<le> j \<and> j < c + gc_blqSz t it c) \<longleftrightarrow> gc_frs_col t it \<le> j \<and> j < gc_lst_col t it" for j
  proof
    assume "\<exists>c \<in> set ?cs. c \<le> j \<and> j < c + gc_blqSz t it c"
    then show "gc_frs_col t it \<le> j \<and> j < gc_lst_col t it"
      using st by (auto simp: set_strided gc_blqSz_def)
  next
    assume "gc_frs_col t it \<le> j \<and> j < gc_lst_col t it"
    then show "\<exists>c \<in> set ?cs. c \<le> j \<and> j < c + gc_blqSz t it c"
      using strided_block_ex [OF st, of "gc_frs_col t it" j "gc_lst_col t it"] by (fastforce simp: gc_blqSz_def)
  qed
  then show ?thesis
    unfolding gc_block_part_eq [OF wf L nr] gc_group_part_def col by auto
qed

lemma gc_blocks_disjoint:
  assumes wf: "gr_wf t" and L: "0 < nd_local_range it" and nr: "0 < gr_nWG_row t"
    and "c \<in> set (strided a n (gc_step t))" "d \<in> set (strided a n (gc_step t))" "c \<noteq> d"
  shows "gc_block_part t it c \<inter> gc_block_part t it d = {}"
proof -
  have st: "0 < gc_step t" using wf by (simp add: gr_wf_def)
  have "\<not> (c \<le> j \<and> j < c + gc_step t \<and> d \<le> j \<and> j < d + gc_step t)" for j
    using strided_block_unique [OF st assms(4,5)] assms(6) by blast
  then show ?thesis unfolding gc_block_part_eq [OF wf L nr] by (fastforce simp: gc_blqSz_def)
qed

text \<open>A group that skips has no selected element.\<close>

lemma gc_skip_empty:
  assumes "gr_wf t" "0 < nd_local_range it" "0 < gr_nWG_row t" "0 < gc_colSz t it" "gc_skip t it"
  shows "gc_group_part t it = {}"
proof (rule ccontr)
  assume "gc_group_part t it \<noteq> {}"
  then obtain i j where ij: "i < mv_sizeR (gr_lhs t)" "j < mv_sizeC (gr_lhs t)" "gr_selects t i j"
    "i div gc_dimWFR t it = gc_idWFR t it" "j div gc_colSz t it = gc_idWFC t it"
    by (auto simp: gc_group_part_def)
  let ?D = "gc_dimWFR t it" and ?c = "gc_colSz t it"
  have D: "0 < ?D" using gc_dimWFR_props(2) [OF assms(2,3)] assms(1) by (simp add: gr_wf_def)
  have "i = gc_idWFR t it * ?D + i mod ?D" "i mod ?D < ?D" "j = gc_idWFC t it * ?c + j mod ?c" "j mod ?c < ?c"
    using ij(4,5) D assms(4) by (metis div_mult_mod_eq, simp, metis div_mult_mod_eq, simp)
  then have i: "gc_idWFR t it * ?D \<le> i" "i < gc_idWFR t it * ?D + ?D" and j: "gc_frs_col t it \<le> j" "j < gc_lst_col t it"
    using ij(2) by (simp_all add: gc_frs_col_def gc_lst_col_def)
  show False
    using assms(5) ij(3) i j unfolding gc_skip_def gr_selects_def by (auto split: if_splits)
qed

section \<open>A launch\<close>

lemma gc_group_added:
  fixes t :: "'v::{plus, times} Ger"
  assumes r: "is_run r" and wf: "gr_wf t" and L: "nd_local_range it = L" "0 < L" and nr: "0 < gr_nWG_row t"
    and cs: "0 < gc_colSz t it" and m: "\<And>c. c \<notin> gr_cells t ` gr_all t \<Longrightarrow> m c = m0 c"
  shows "added (gr_cells t) (gc_group_part t it) (gr_value t m0) m (run_group r g L () (gc_phases t it) m)"
proof (cases "gc_skip t it")
  case True
  then show ?thesis
    using gc_skip_empty [OF wf _ nr cs True] L by (simp add: run_group_def gc_phases_def)
next
  case False
  have L': "0 < nd_local_range it" using L by simp
  let ?cs = "strided (gc_frs_col t it) (gc_lst_col t it) (gc_step t)"
  let ?gs = "\<lparr>gs_mem = m, gs_local = local_init r g, gs_priv = \<lambda>_. ()\<rparr>"
  have items: "gc_item_part t it c k \<inter> gc_item_part t it c l = {}"
    if "k < nd_local_range it" "l < nd_local_range it" "k \<noteq> l" for c k l
    using that unfolding gc_item_part_eq [OF wf L' nr that(1)] gc_item_part_eq [OF wf L' nr that(2)] by auto
  have ord: "distinct (item_order r g k L)" "set (item_order r g k L) = {..<nd_local_range it}" for k
    using run_items [OF r] L by simp_all
  have "added (gr_cells t) (\<Union>c \<in> set ?cs. gc_block_part t it c) (gr_value t m0) (gs_mem ?gs)
    (gs_mem (run_phases (\<lambda>k. item_order r g k L) 0 (concat (map (\<lambda>c. [gc_load t it c, gc_update t it c]) ?cs)) ?gs))"
    by (rule gc_blocks_added [OF wf L' ord items gc_blocks_disjoint [OF wf L' nr] distinct_strided])
      (use m in simp_all)
  then show ?thesis
    using False unfolding gc_blocks_cover [OF wf L' nr cs] by (simp add: run_group_def gc_phases_def)
qed

text \<open>The groups cover the matrix when \<open>nWG_col\<close> of them do in the columns.\<close>

definition gr_selected :: "'v Ger \<Rightarrow> (nat \<times> nat) set" where
  "gr_selected t = {(i, j). i < mv_sizeR (gr_lhs t) \<and> j < mv_sizeC (gr_lhs t) \<and> gr_selects t i j}"

lemma gc_groups:
  assumes wf: "gr_wf t" and L: "0 < L" and nr: "0 < gr_nWG_row t" and nc: "0 < gr_nWG_col t"
    and cover: "L \<le> mv_sizeR (gr_lhs t) \<or> mv_sizeC (gr_lhs t) \<le> L * gr_nWG_col t"
    and it: "\<And>g. nd_local_range (it g) = L" "\<And>g. nd_group (it g) = g"
  shows gc_groups_all: "(\<Union>g < gr_nWG_row t * gr_nWG_col t. gc_group_part t (it g)) = gr_selected t"
    and gc_groups_disjoint: "g \<noteq> h \<Longrightarrow> gc_group_part t (it g) \<inter> gc_group_part t (it h) = {}"
    and gc_groups_colSz: "0 < gc_colSz t (it g)"
proof -
  define nR nC where "nR = gr_nWG_row t" and "nC = gr_nWG_col t"
  define D where "D = gc_dimWFR t (it 0)"
  define C where "C = gc_colSz t (it 0)"
  have DC: "gc_dimWFR t (it g) = D" "gc_colSz t (it g) = C" for g
    by (simp_all add: D_def C_def gc_dimWFR_def gc_colSz_def it)
  have ids: "gc_idWFR t (it g) = g mod nR" "gc_idWFC t (it g) = g div nR" for g
    by (simp_all add: gc_idWFR_def gc_idWFC_def it nR_def)
  have pos: "0 < mv_sizeR (gr_lhs t)" "0 < mv_sizeC (gr_lhs t)" using wf by (simp_all add: gr_wf_def)
  note D = gc_dimWFR_props [where it = "it 0" and t = t, unfolded it, OF L nr pos(1), folded D_def nR_def]
  have C: "0 < C" "mv_sizeC (gr_lhs t) \<le> nC * C"
  proof -
    have eq: "C = (if mv_sizeR (gr_lhs t) < L then L else cdiv (mv_sizeC (gr_lhs t)) nC)"
      by (simp add: C_def gc_colSz_def it Let_def cdiv_def nC_def)
    show "0 < C" using L nc pos by (simp add: eq cdiv_pos nC_def)
    show "mv_sizeC (gr_lhs t) \<le> nC * C"
      using cover cdiv_covers [of nC "mv_sizeC (gr_lhs t)"] nc by (auto simp: eq nC_def mult.commute)
  qed
  then show "0 < gc_colSz t (it g)" by (simp add: DC)
  have part: "gc_group_part t (it g) = {(i, j). (i, j) \<in> gr_selected t \<and> i div D = g mod nR \<and> j div C = g div nR}" for g
    by (auto simp: gc_group_part_def gr_selected_def DC ids)
  have "(\<Union>g < nR * nC. gc_group_part t (it g)) = gr_selected t"
  proof (intro subset_antisym subsetI)
    fix p assume p: "p \<in> gr_selected t"
    obtain i j where ij: "p = (i, j)" by (cases p)
    have i: "i div D < nR" and j: "j div C < nC"
      using p D(2,3) C by (auto simp: ij gr_selected_def div_less_iff_less_mult intro: less_le_trans)
    let ?g = "j div C * nR + i div D"
    have g: "?g mod nR = i div D" "?g div nR = j div C" using i by simp_all
    have "?g < Suc (j div C) * nR" using i by simp
    also have "\<dots> \<le> nC * nR" using j by (intro mult_le_mono1) simp
    finally have "?g < nR * nC" by (simp add: mult.commute)
    moreover have "p \<in> gc_group_part t (it ?g)" unfolding part g ij using p ij by simp
    ultimately show "p \<in> (\<Union>g < nR * nC. gc_group_part t (it g))" by blast
  qed (auto simp: part)
  then show "(\<Union>g < gr_nWG_row t * gr_nWG_col t. gc_group_part t (it g)) = gr_selected t"
    by (simp add: nR_def nC_def)
  show "gc_group_part t (it g) \<inter> gc_group_part t (it h) = {}" if "g \<noteq> h"
    using that unfolding part by (auto, metis div_mult_mod_eq)
qed

lemma gc_group_part_sub: "gc_group_part t it \<subseteq> gr_all t"
  by (auto simp: gc_group_part_def gr_all_def)

lemma gc_launch_added:
  fixes t :: "'v::{plus, times} Ger"
  assumes r: "is_run r" and wf: "gr_wf t" and L: "0 < L" and nr: "0 < gr_nWG_row t" and nc: "0 < gr_nWG_col t"
    and cover: "L \<le> mv_sizeR (gr_lhs t) \<or> mv_sizeC (gr_lhs t) \<le> L * gr_nWG_col t"
  shows "added (gr_cells t) (gr_selected t) (gr_value t m) m
    (execute_tree_local r () (gc_phases t) L (L * gr_nWG_row t * gr_nWG_col t) m)"
proof -
  define G where "G = L * gr_nWG_row t * gr_nWG_col t"
  have G: "G div L = gr_nWG_row t * gr_nWG_col t" using L by (simp add: G_def mult.assoc)
  have ok: "nd_range_ok G L" using L nr nc by (simp add: nd_range_ok_def G_def)
  define it where "it = (\<lambda>g. item_of L G (g * L))"
  have it: "nd_local_range (it g) = L" "nd_group (it g) = g" for g using L by (simp_all add: it_def)
  note geo = gc_groups [OF wf L nr nc cover, of it, OF it]
  have "added (gr_cells t) (\<Union>g \<in> set (group_order r (G div L)). gc_group_part t (it g)) (gr_value t m) m
    (fold (\<lambda>g. run_group r g L () (gc_phases t (it g))) (group_order r (G div L)) m)"
    by (rule fold_added [OF gr_cells_inj [OF wf], where X = "{..<G div L}" and ?m0.0 = m],
        (rule gc_group_added [OF r wf it(1) L nr], rule geo(3), simp)[], rule gc_group_part_sub)
      (use geo(2) run_groups [OF r] in simp_all)
  then show ?thesis
    using ok geo(1) by (simp add: execute_tree_local_def G_def [symmetric] run_groups [OF r] G) (simp add: it_def)
qed

section \<open>Properties\<close>

text \<open>A column-major matrix argument fits when its leading dimension covers its rows and the buffer
  holds its last element.\<close>

definition matrix_fits :: "BufferIterator \<Rightarrow> nat \<Rightarrow> nat \<Rightarrow> nat \<Rightarrow> bool" where
  "matrix_fits A M N lda \<longleftrightarrow> M \<le> lda \<and> 0 \<le> it_offset A \<and>
     it_offset A + int (M - 1 + (N - 1) * lda) < int (it_count A)"

lemma maddr_mat_cell:
  "maddr (make_matrix_view col_major A M N lda) i j = mat_cell A lda i j"
  by (simp add: maddr_eq mat_cell_def is_col_major_def mult.commute)

lemma matrix_fits_wf:
  assumes "matrix_fits A M N lda"
  shows "wf_matrix_view (make_matrix_view col_major A M N lda)"
proof -
  have "0 \<le> int (M - 1 + (N - 1) * lda)" by simp
  then have "it_offset A < int (it_count A)" using assms unfolding matrix_fits_def by linarith
  then have "mat_cell A lda 0 0 \<in> region (mv_data (make_matrix_view col_major A M N lda))"
    "mat_cell A lda (M - 1) (N - 1) \<in> region (mv_data (make_matrix_view col_major A M N lda))"
    using assms by (auto simp: matrix_fits_def region_def mat_cell_def matrix_view_defs)
  then show ?thesis
    using assms by (simp add: wf_matrix_view_def maddr_mat_cell matrix_fits_def is_col_major_def)
qed

lemma make_Ger_simps [simp]:
  "gr_lhs (make_Ger S Lo D U A s x y nr nc k) = A" "gr_rhs_1 (make_Ger S Lo D U A s x y nr nc k) = x"
  "gr_rhs_2 (make_Ger S Lo D U A s x y nr nc k) = y" "gr_nWG_row (make_Ger S Lo D U A s x y nr nc k) = nr"
  "gr_nWG_col (make_Ger S Lo D U A s x y nr nc k) = nc" "gr_scalar (make_Ger S Lo D U A s x y nr nc k) = s"
  "gr_local_memory_size (make_Ger S Lo D U A s x y nr nc k) = k" "gr_Single (make_Ger S Lo D U A s x y nr nc k) = S"
  "gr_Lower (make_Ger S Lo D U A s x y nr nc k) = Lo" "gr_Diag (make_Ger S Lo D U A s x y nr nc k) = D"
  "gr_Upper (make_Ger S Lo D U A s x y nr nc k) = U"
  by (simp_all add: make_Ger_def)

text \<open>The launch the three operations share.\<close>

lemma update_launch:
  fixes alpha :: "'v::{plus, times}" and Lo U :: bool and m :: "'v mem"
  assumes "is_run r" "0 < L" "0 < M" "0 < N" "matrix_fits A M N lda"
    and x: "vector_fits x incx M" and y: "vector_fits y incy N"
    and "it_buffer x \<noteq> it_buffer A" "it_buffer y \<noteq> it_buffer A"
    and sq: "S \<or> M = N" and k: "0 < (if S then k else k div 2)"
  defines "t \<equiv> make_Ger S Lo True U (make_matrix_view col_major A M N lda) alpha (make_vector_view x incx M)
      (make_vector_view y incy N) (cdiv M L) (cdiv N L) k"
  defines "m' \<equiv> execute_tree_local r () (gc_phases t) L (L * cdiv M L * cdiv N L) m"
  defines "sel \<equiv> (\<lambda>i j. (Lo \<and> j \<le> i) \<or> (U \<and> i \<le> j))"
  shows "i < M \<Longrightarrow> j < N \<Longrightarrow> sel i j \<Longrightarrow> m' (mat_cell A lda i j) = m (mat_cell A lda i j)
      + (if S then m (cell x incx M i) * (alpha * m (cell y incy N j))
         else m (cell x incx M i) * (alpha * m (cell y incy N j)) + m (cell y incy N i) * (alpha * m (cell x incx M j)))"
    and "(\<And>i j. i < M \<Longrightarrow> j < N \<Longrightarrow> sel i j \<Longrightarrow> c \<noteq> mat_cell A lda i j) \<Longrightarrow> m' c = m c"
proof -
  have wf: "gr_wf t"
    using assms(3-9) k by (cases S) (simp_all add: gr_wf_def t_def matrix_fits_wf gc_step_def)
  have pos: "0 < cdiv M L" "0 < cdiv N L" using assms(2-4) by (simp_all add: cdiv_pos)
  have "added (gr_cells t) (gr_selected t) (gr_value t m) m
    (execute_tree_local r () (gc_phases t) L (L * gr_nWG_row t * gr_nWG_col t) m)"
    by (rule gc_launch_added [OF assms(1) wf assms(2)])
      (use pos cdiv_covers [OF assms(2), of N] in \<open>simp_all add: t_def mult.commute\<close>)
  then have add: "added (gr_cells t) (gr_selected t) (gr_value t m) m m'" by (simp add: m'_def t_def)
  have sel: "(i, j) \<in> gr_selected t \<longleftrightarrow> i < M \<and> j < N \<and> sel i j" for i j
    by (auto simp: gr_selected_def t_def sel_def gr_selects_def gr_nd_def)
  have cell: "gr_cells t (i, j) = mat_cell A lda i j" for i j
    by (simp add: gr_cells_def t_def maddr_mat_cell)
  have xy: "gr_x1 t m i = m (cell x incx M i)" "gr_x2 t m j = m (cell y incy N j)" for i j
    using x y by (simp_all add: gr_x1_def gr_x2_def t_def fits_simps)
  show "m' (mat_cell A lda i j) = m (mat_cell A lda i j)
      + (if S then m (cell x incx M i) * (alpha * m (cell y incy N j))
         else m (cell x incx M i) * (alpha * m (cell y incy N j)) + m (cell y incy N i) * (alpha * m (cell x incx M j)))"
    if "i < M" "j < N" "sel i j" for i j
  proof -
    have "gr_Single t = S" "gr_scalar t = alpha" by (simp_all add: t_def)
    then show ?thesis
      using that add sel [of i j] unfolding added_def cell [symmetric] by (auto simp: gr_value_def xy)
  qed
  show "(\<And>i j. i < M \<Longrightarrow> j < N \<Longrightarrow> sel i j \<Longrightarrow> c \<noteq> mat_cell A lda i j) \<Longrightarrow> m' c = m c"
    using add sel cell unfolding added_def by (metis imageE surj_pair)
qed

lemma sample_matrix [simp]:
  "matrix_fits (sample_it b) M N lda \<longleftrightarrow> M \<le> lda \<and> M - 1 + (N - 1) * lda < 8"
  "mat_cell (sample_it b) lda i j = (b, int (i + j * lda))"
proof -
  have "int (M - 1 + (N - 1) * lda) < 8 \<longleftrightarrow> M - 1 + (N - 1) * lda < 8" by linarith
  then show "matrix_fits (sample_it b) M N lda \<longleftrightarrow> M \<le> lda \<and> M - 1 + (N - 1) * lda < 8"
    by (simp add: matrix_fits_def sample_it_def)
qed (simp add: mat_cell_def)

text \<open>C23: \<open>_ger\<close> adds \<open>alpha * x * y^T\<close> to every element of the matrix, whatever the increments and the
  order of items and groups, and changes nothing else.\<close>

theorem ger_correct:
  fixes alpha :: "'v::comm_semiring"
  assumes "is_run r" "0 < ph_work_group_size ph" "0 < M" "0 < N" "matrix_fits A M N lda"
    and "vector_fits x incx M" "vector_fits y incy N"
    and "it_buffer x \<noteq> it_buffer A" "it_buffer y \<noteq> it_buffer A"
  shows "(\<forall>i < M. \<forall>j < N. ger r ph M N alpha x incx y incy A lda m (mat_cell A lda i j)
            = m (mat_cell A lda i j) + alpha * m (cell x incx M i) * m (cell y incy N j)) \<and>
         (\<forall>c. (\<forall>i < M. \<forall>j < N. c \<noteq> mat_cell A lda i j) \<longrightarrow> ger r ph M N alpha x incx y incy A lda m c = m c)"
proof -
  note run = update_launch [OF assms, where S = True and Lo = True and U = True and k = "ph_work_group_size ph" and
      alpha = alpha and m = m, unfolded if_True, OF disjI1 [OF TrueI] assms(2)]
  have eq: "ger r ph M N alpha x incx y incy A lda m
      = execute_tree_local r () (gc_phases (make_Ger True True True True (make_matrix_view col_major A M N lda) alpha
          (make_vector_view x incx M) (make_vector_view y incy N) (cdiv M (ph_work_group_size ph))
          (cdiv N (ph_work_group_size ph)) (ph_work_group_size ph))) (ph_work_group_size ph)
          (ph_work_group_size ph * cdiv M (ph_work_group_size ph) * cdiv N (ph_work_group_size ph)) m"
    by (simp only: ger_def ger_impl_def Let_def if_True simp_thms cdiv_pred [OF assms(2,3)] cdiv_pred [OF assms(2,4)])
  have hit: "ger r ph M N alpha x incx y incy A lda m (mat_cell A lda i j)
      = m (mat_cell A lda i j) + m (cell x incx M i) * (alpha * m (cell y incy N j))" if "i < M" "j < N" for i j
    unfolding eq by (rule run(1) [OF that]) auto
  have miss: "ger r ph M N alpha x incx y incy A lda m c = m c"
    if "\<forall>i < M. \<forall>j < N. c \<noteq> mat_cell A lda i j" for c
    unfolding eq by (rule run(2)) (use that in blast)
  show ?thesis using hit miss by (simp add: ac_simps)
qed

lemma ger_correct_witness:
  "ger (seq_run 0) sample_ph 2 3 2 (sample_it 1) 1 (sample_it 2) (- 1) (sample_it 3) 2 sample_mem (3, 3) = 30 \<and>
   ger (seq_run 0) sample_ph 2 3 2 (sample_it 1) 1 (sample_it 2) (- 1) (sample_it 3) 2 sample_mem (3, 4) = 40 \<and>
   ger (seq_run 0) sample_ph 2 3 2 (sample_it 1) 1 (sample_it 2) (- 1) (sample_it 3) 2 sample_mem (3, 2) = 0 \<and>
   ger (seq_run 0) sample_ph 2 3 2 (sample_it 1) 1 (sample_it 2) (- 1) (sample_it 3) 2 sample_mem (3, 7) = 70"
proof -
  note * = ger_correct [of "seq_run 0" sample_ph 2 3 "sample_it 3" 2 "sample_it 1" 1 "sample_it 2" "- 1" 2 sample_mem]
  show ?thesis
    using * by (auto simp: matrix_fits_def sample_mem_def blas_index_def mat_cell_def sample_it_def
        make_sycl_iterator_buffer_def cell_def vector_fits_def eval_nat_numeral All_less_Suc)
qed

text \<open>C24: \<open>_syr\<close> adds \<open>alpha * x * x^T\<close> to the upper triangle when \<open>Uplo\<close> is \<open>u\<close> or \<open>U\<close>, to the lower one
  for any other character, and leaves the other triangle alone.\<close>

theorem syr_correct:
  fixes alpha :: "'v::comm_semiring"
  assumes "is_run r" "0 < ph_work_group_size ph" "0 < N" "matrix_fits A N N lda"
    and "vector_fits x incx N" "it_buffer x \<noteq> it_buffer A"
    and "tri = (\<lambda>i j. if tolower Uplo = CHR ''u'' then i \<le> j else j \<le> i)"
  shows "(\<forall>i < N. \<forall>j < N. tri i j \<longrightarrow> syr r ph Uplo N alpha x incx A lda m (mat_cell A lda i j)
            = m (mat_cell A lda i j) + alpha * m (cell x incx N i) * m (cell x incx N j)) \<and>
         (\<forall>c. (\<forall>i < N. \<forall>j < N. tri i j \<longrightarrow> c \<noteq> mat_cell A lda i j) \<longrightarrow>
            syr r ph Uplo N alpha x incx A lda m c = m c)"
proof -
  let ?up = "tolower Uplo = CHR ''u''" and ?L = "ph_work_group_size ph"
  note run = update_launch [OF assms(1-3,3,4,5,5,6,6), where S = True and Lo = "\<not> ?up" and U = ?up and
      k = ?L and alpha = alpha and m = m, unfolded if_True, OF disjI1 [OF TrueI] assms(2)]
  have eq: "syr r ph Uplo N alpha x incx A lda m
      = execute_tree_local r () (gc_phases (make_Ger True (\<not> ?up) True ?up (make_matrix_view col_major A N N lda) alpha
          (make_vector_view x incx N) (make_vector_view x incx N) (cdiv N ?L) (cdiv N ?L) ?L)) ?L
          (?L * cdiv N ?L * cdiv N ?L) m"
    by (cases ?up) (simp_all only: syr_def syr_impl_def Let_def if_True if_False simp_thms cdiv_pred [OF assms(2,3)])
  have hit: "syr r ph Uplo N alpha x incx A lda m (mat_cell A lda i j)
      = m (mat_cell A lda i j) + m (cell x incx N i) * (alpha * m (cell x incx N j))"
    if "i < N" "j < N" "tri i j" for i j
    unfolding eq by (rule run(1) [OF that(1,2)]) (use that(3) assms(7) in \<open>auto split: if_splits\<close>)
  have miss: "syr r ph Uplo N alpha x incx A lda m c = m c"
    if "\<forall>i < N. \<forall>j < N. tri i j \<longrightarrow> c \<noteq> mat_cell A lda i j" for c
    unfolding eq by (rule run(2)) (use that assms(7) in \<open>auto split: if_splits\<close>)
  show ?thesis using hit miss by (simp add: ac_simps)
qed

lemma syr_correct_witness:
  "syr (seq_run 0) sample_ph (CHR ''L'') 2 2 (sample_it 1) 2 (sample_it 3) 3 sample_mem (3, 1) = 8 \<and>
   syr (seq_run 0) sample_ph (CHR ''L'') 2 2 (sample_it 1) 2 (sample_it 3) 3 sample_mem (3, 3) = 30"
proof -
  have t: "tolower (CHR ''L'') \<noteq> CHR ''u''" by code_simp
  have "(\<forall>i < 2. \<forall>j < 2. j \<le> i \<longrightarrow> syr (seq_run 0) sample_ph (CHR ''L'') 2 2 (sample_it 1) 2 (sample_it 3) 3 sample_mem
            (mat_cell (sample_it 3) 3 i j)
          = sample_mem (mat_cell (sample_it 3) 3 i j) + 2 * sample_mem (cell (sample_it 1) 2 2 i) * sample_mem (cell (sample_it 1) 2 2 j)) \<and>
        (\<forall>c. (\<forall>i < 2. \<forall>j < 2. j \<le> i \<longrightarrow> c \<noteq> mat_cell (sample_it 3) 3 i j) \<longrightarrow>
            syr (seq_run 0) sample_ph (CHR ''L'') 2 2 (sample_it 1) 2 (sample_it 3) 3 sample_mem c = sample_mem c)"
    by (rule syr_correct) (simp_all add: t)
  note * = this
  have "\<forall>i < 2. \<forall>j < 2. j \<le> i \<longrightarrow> (3, 3 :: int) \<noteq> mat_cell (sample_it 3) 3 i j" by (auto simp: less_cases)
  with * have "syr (seq_run 0) sample_ph (CHR ''L'') 2 2 (sample_it 1) 2 (sample_it 3) 3 sample_mem (3, 3) = sample_mem (3, 3)"
    by blast
  moreover note * [THEN conjunct1, rule_format, of 1 0]
  ultimately show ?thesis by (simp add: sample_mem_def blas_index_def)
qed

text \<open>C25: \<open>_syr2\<close> adds \<open>alpha * x * y^T + alpha * y * x^T\<close> to the selected triangle.\<close>

theorem syr2_correct:
  fixes alpha :: "'v::comm_semiring"
  assumes "is_run r" "0 < ph_work_group_size ph" "0 < N" "matrix_fits A N N lda"
    and "vector_fits x incx N" "vector_fits y incy N" "it_buffer x \<noteq> it_buffer A" "it_buffer y \<noteq> it_buffer A"
    and "tri = (\<lambda>i j. if tolower Uplo = CHR ''u'' then i \<le> j else j \<le> i)"
  shows "(\<forall>i < N. \<forall>j < N. tri i j \<longrightarrow> syr2 r ph Uplo N alpha x incx y incy A lda m (mat_cell A lda i j)
            = m (mat_cell A lda i j) + alpha * m (cell x incx N i) * m (cell y incy N j)
              + alpha * m (cell y incy N i) * m (cell x incx N j)) \<and>
         (\<forall>c. (\<forall>i < N. \<forall>j < N. tri i j \<longrightarrow> c \<noteq> mat_cell A lda i j) \<longrightarrow>
            syr2 r ph Uplo N alpha x incx y incy A lda m c = m c)"
proof -
  let ?up = "tolower Uplo = CHR ''u''" and ?L = "ph_work_group_size ph"
  have k: "0 < 2 * ?L div 2" using assms(2) by simp
  note run = update_launch [OF assms(1-3,3,4-8), where S = False and Lo = "\<not> ?up" and U = ?up and
      k = "2 * ?L" and alpha = alpha and m = m, unfolded if_False, OF disjI2 [OF refl] k]
  have eq: "syr2 r ph Uplo N alpha x incx y incy A lda m
      = execute_tree_local r () (gc_phases (make_Ger False (\<not> ?up) True ?up (make_matrix_view col_major A N N lda) alpha
          (make_vector_view x incx N) (make_vector_view y incy N) (cdiv N ?L) (cdiv N ?L) (2 * ?L))) ?L
          (?L * cdiv N ?L * cdiv N ?L) m"
    by (cases ?up) (simp_all only: syr2_def syr2_impl_def Let_def if_True if_False simp_thms cdiv_pred [OF assms(2,3)])
  have hit: "syr2 r ph Uplo N alpha x incx y incy A lda m (mat_cell A lda i j)
      = m (mat_cell A lda i j) + (m (cell x incx N i) * (alpha * m (cell y incy N j))
        + m (cell y incy N i) * (alpha * m (cell x incx N j)))"
    if "i < N" "j < N" "tri i j" for i j
    unfolding eq by (rule run(1) [OF that(1,2)]) (use that(3) assms(9) in \<open>auto split: if_splits\<close>)
  have miss: "syr2 r ph Uplo N alpha x incx y incy A lda m c = m c"
    if "\<forall>i < N. \<forall>j < N. tri i j \<longrightarrow> c \<noteq> mat_cell A lda i j" for c
    unfolding eq by (rule run(2)) (use that assms(9) in \<open>auto split: if_splits\<close>)
  show ?thesis using hit miss by (simp add: ac_simps)
qed

lemma syr2_correct_witness:
  "syr2 (seq_run 0) sample_ph (CHR ''U'') 2 2 (sample_it 1) 1 (sample_it 2) 2 (sample_it 3) 3 sample_mem (3, 3) = - 10"
proof -
  have t: "tolower (CHR ''U'') = CHR ''u''" by code_simp
  have "(\<forall>i < 2. \<forall>j < 2. i \<le> j \<longrightarrow>
      syr2 (seq_run 0) sample_ph (CHR ''U'') 2 2 (sample_it 1) 1 (sample_it 2) 2 (sample_it 3) 3 sample_mem (mat_cell (sample_it 3) 3 i j)
      = sample_mem (mat_cell (sample_it 3) 3 i j) + 2 * sample_mem (cell (sample_it 1) 1 2 i) * sample_mem (cell (sample_it 2) 2 2 j)
        + 2 * sample_mem (cell (sample_it 2) 2 2 i) * sample_mem (cell (sample_it 1) 1 2 j)) \<and>
    (\<forall>c. (\<forall>i < 2. \<forall>j < 2. i \<le> j \<longrightarrow> c \<noteq> mat_cell (sample_it 3) 3 i j) \<longrightarrow>
      syr2 (seq_run 0) sample_ph (CHR ''U'') 2 2 (sample_it 1) 1 (sample_it 2) 2 (sample_it 3) 3 sample_mem c = sample_mem c)"
    by (rule syr2_correct) (simp_all add: t)
  note this [THEN conjunct1, rule_format, of 0 1]
  then show ?thesis by (simp add: sample_mem_def blas_index_def)
qed

section \<open>The other kernels\<close>

lemma fold_cols_added:
  fixes w :: "nat \<Rightarrow> 'v mem \<Rightarrow> 'v::plus"
  assumes wf: "gr_wf t" and i: "i < mv_sizeR (gr_lhs t)" and b: "b \<le> mv_sizeC (gr_lhs t)"
    and w: "\<And>j m. j < b \<Longrightarrow> (\<And>c. c \<notin> gr_cells t ` gr_all t \<Longrightarrow> m c = m0 c) \<Longrightarrow> w j m = v (i, j)"
    and m: "\<And>c. c \<notin> gr_cells t ` gr_all t \<Longrightarrow> m c = m0 c"
  shows "added (gr_cells t) ({i} \<times> {a..<b}) v m (fold (\<lambda>j m. gr_add t i j (w j m) m) [a..<b] m)"
proof -
  have "added (gr_cells t) (\<Union>j \<in> set [a..<b]. {(i, j)}) v m (fold (\<lambda>j m. gr_add t i j (w j m) m) [a..<b] m)"
  proof (rule fold_added [OF gr_cells_inj [OF wf], where X = "{a..<b}" and ?m0.0 = m0])
    show "added (gr_cells t) {(i, j)} v m (gr_add t i j (w j m) m)"
      if "j \<in> {a..<b}" "\<And>c. c \<notin> gr_cells t ` gr_all t \<Longrightarrow> m c = m0 c" for j m
      using w [of j m, OF _ that(2)] that(1) by (simp add: added_def gr_add_def gr_cells_def)
  qed (use i b m in \<open>auto simp: gr_all_def\<close>)
  moreover have "(\<Union>j \<in> set [a..<b]. {(i, j)}) = {i} \<times> {a..<b}" by auto
  ultimately show ?thesis by simp
qed

lemma gc_eval_added:
  fixes t :: "'v::comm_semiring Ger"
  assumes wf: "gr_wf t" and L: "nd_local_range it = L" "0 < L" "nd_local it < L" and nr: "0 < gr_nWG_row t"
    and cs: "0 < gc_colSz t it" and tri: "if gr_Lower t \<and> gr_Upper t then gr_Diag t else gr_Lower t \<or> gr_Upper t"
    and m: "\<And>c. c \<notin> gr_cells t ` gr_all t \<Longrightarrow> m c = m0 c"
  shows "added (gr_cells t) {p \<in> gc_group_part t it. fst p mod L = nd_local it} (gr_value t m0) m (gc_eval t it m)"
proof (cases "gc_skip t it")
  case True
  then show ?thesis using gc_skip_empty [OF wf _ nr cs True] L by (simp add: gc_eval_def)
next
  case False
  let ?rows = "strided (gc_frs_row t it (nd_local it)) (gc_lst_row t it (nd_local it)) L"
  let ?a = "\<lambda>i. if gr_Lower t then gc_frs_col t it else max (i + gr_nd t) (gc_frs_col t it)"
  let ?b = "\<lambda>i. if gr_Upper t then gc_lst_col t it else min (i + (if \<not> gr_Diag t then 0 else 1)) (gc_lst_col t it)"
  let ?S = "\<lambda>i. {i} \<times> {?a i..<?b i}"
  have pos: "0 < mv_sizeR (gr_lhs t)" using wf by (simp add: gr_wf_def)
  have D: "L dvd gc_dimWFR t it" "0 < gc_dimWFR t it" using gc_dimWFR_props [of it t] L nr pos by simp_all
  have rows: "set ?rows = {i. i < mv_sizeR (gr_lhs t) \<and> i div gc_dimWFR t it = gc_idWFR t it \<and> i mod L = nd_local it}"
    unfolding gc_lst_row_def gc_frs_row_def by (rule cyclic_rows [OF L(2) D L(3)])
  have b: "?b i \<le> mv_sizeC (gr_lhs t)" for i by (auto simp: gc_lst_col_def min_def)
  have cols: "j \<in> {?a i..<?b i} \<longleftrightarrow> gc_frs_col t it \<le> j \<and> j < gc_lst_col t it \<and> gr_selects t i j" for i j
    using tri by (auto simp: gr_selects_def gr_nd_def)
  have col: "gc_frs_col t it \<le> j \<and> j < gc_lst_col t it \<longleftrightarrow> j < mv_sizeC (gr_lhs t) \<and> j div gc_colSz t it = gc_idWFC t it" for j
    by (rule gc_cols_eq [OF cs])
  have inS: "p \<in> ?S i \<longleftrightarrow> fst p = i \<and> gc_frs_col t it \<le> snd p \<and> snd p < gc_lst_col t it \<and> gr_selects t i (snd p)" for p i
    unfolding cols [symmetric] by (cases p) auto
  have part: "(\<Union>i \<in> set ?rows. ?S i) = {p \<in> gc_group_part t it. fst p mod L = nd_local it}"
  proof (rule set_eqI)
    fix p
    show "p \<in> (\<Union>i \<in> set ?rows. ?S i) \<longleftrightarrow> p \<in> {p \<in> gc_group_part t it. fst p mod L = nd_local it}"
      unfolding UN_iff inS rows using col [of "snd p"] by (cases p) (auto simp: gc_group_part_def)
  qed
  have sub: "?S i \<subseteq> gr_all t" if "i \<in> set ?rows" for i
    using that unfolding subset_iff inS rows by (auto simp: gr_all_def gc_lst_col_def)
  have disj: "?S i \<inter> ?S k = {}" if "i \<noteq> k" for i k using that by auto
  note go = fold_added [OF gr_cells_inj [OF wf], where X = "set ?rows" and S = ?S and ?m0.0 = m0 and v = "gr_value t m0",
      OF _ sub disj distinct_strided subset_refl, unfolded part]
  have row: "i < mv_sizeR (gr_lhs t)" if "i \<in> set ?rows" for i using that rows by simp
  show ?thesis
  proof (cases "gr_Single t")
    case True
    have w: "gr_scalar t * gr_x1 t m1 i * gr_x2 t m2 j = gr_value t m0 (i, j)"
      if "\<And>c. c \<notin> gr_cells t ` gr_all t \<Longrightarrow> m1 c = m0 c" "\<And>c. c \<notin> gr_cells t ` gr_all t \<Longrightarrow> m2 c = m0 c" for i j m1 m2
      using True gr_reads [OF wf, of m1 m0, OF that(1)] gr_reads [OF wf, of m2 m0, OF that(2)]
      by (simp add: gr_value_def ac_simps)
    show ?thesis
      unfolding gc_eval_def Let_def if_not_P [OF False] if_P [OF True] L(1)
      by (rule go, (rule fold_cols_added [OF wf row b], assumption, rule w, assumption+)[]) (use m in simp_all)
  next
    case False2: False
    have w: "gr_scalar t * gr_x1 t m1 i * gr_x2 t m2 j + gr_scalar t * gr_x2 t m1 i * gr_x1 t m2 j = gr_value t m0 (i, j)"
      if "\<And>c. c \<notin> gr_cells t ` gr_all t \<Longrightarrow> m1 c = m0 c" "\<And>c. c \<notin> gr_cells t ` gr_all t \<Longrightarrow> m2 c = m0 c" for i j m1 m2
      using False2 gr_reads [OF wf, of m1 m0, OF that(1)] gr_reads [OF wf, of m2 m0, OF that(2)]
      by (simp add: gr_value_def ac_simps)
    show ?thesis
      unfolding gc_eval_def Let_def if_not_P [OF False] if_not_P [OF False2] L(1)
      by (rule go, (rule fold_cols_added [OF wf row b], assumption, rule w, assumption+)[]) (use m in simp_all)
  qed
qed

lemma added_unique: "added a S v m m1 \<Longrightarrow> added a S v m m2 \<Longrightarrow> m1 = m2"
  unfolding added_def by (rule ext) (metis imageE)

text \<open>C30: \<open>GerCol\<close> leaves the same memory with and without local memory, for every size of local memory that
  holds a row block, every grid of groups that covers the matrix, and all orders of the items.\<close>

theorem ger_col_kernels_agree:
  fixes t :: "'v::comm_semiring Ger"
  assumes "is_run r" "is_run r'" "gr_wf t" "0 < L" "0 < gr_nWG_row t" "0 < gr_nWG_col t"
    and "L \<le> mv_sizeR (gr_lhs t) \<or> mv_sizeC (gr_lhs t) \<le> L * gr_nWG_col t"
    and "if gr_Lower t \<and> gr_Upper t then gr_Diag t else gr_Lower t \<or> gr_Upper t"
  shows "execute_tree r' (gr_valid_thread t) (gc_eval t) L (L * gr_nWG_row t * gr_nWG_col t) m
       = execute_tree_local r () (gc_phases t) L (L * gr_nWG_row t * gr_nWG_col t) m"
proof (rule added_unique)
  define G where "G = L * gr_nWG_row t * gr_nWG_col t"
  have G: "G div L = gr_nWG_row t * gr_nWG_col t" "G = L * (gr_nWG_row t * gr_nWG_col t)"
    using assms(4) by (simp_all add: G_def mult.assoc)
  have ok: "nd_range_ok G L" using assms(4-6) by (simp add: nd_range_ok_def G_def)
  define it where "it = (\<lambda>g. item_of L G (g * L))"
  have it: "nd_local_range (it g) = L" "nd_group (it g) = g" for g using assms(4) by (simp_all add: it_def)
  note geo = gc_groups [OF assms(3-7), of it, OF it]
  let ?it = "item_of L G"
  have item: "nd_local_range (?it k) = L" "nd_local (?it k) = k mod L" "nd_group (?it k) = k div L" for k
    by (simp_all add: item_of_def)
  have grp: "gc_group_part t (?it k) = gc_group_part t (it (k div L))" for k
    by (simp add: gc_group_part_def gc_dimWFR_def gc_colSz_def gc_idWFR_def gc_idWFC_def it item)
  have cs: "0 < gc_colSz t (?it k)" for k
    using geo(3) [of "k div L"] by (simp add: gc_colSz_def it item)
  let ?S = "\<lambda>k. {p \<in> gc_group_part t (it (k div L)). fst p mod L = k mod L}"
  have disj: "?S k \<inter> ?S l = {}" if "k \<noteq> l" for k l
  proof (cases "k div L = l div L")
    case True
    then have "k mod L \<noteq> l mod L" using that by (metis div_mult_mod_eq)
    then show ?thesis by auto
  next
    case False
    then show ?thesis using geo(2) [OF False] by auto
  qed
  have all: "(\<Union>k < G. ?S k) = gr_selected t"
  proof (intro subset_antisym subsetI)
    fix p assume "p \<in> gr_selected t"
    then obtain g where g: "g < gr_nWG_row t * gr_nWG_col t" "p \<in> gc_group_part t (it g)" using geo(1) by blast
    let ?k = "g * L + fst p mod L"
    have "?k < Suc g * L" using assms(4) by simp
    also have "\<dots> \<le> G" using g(1) unfolding G(2) by (subst mult.commute [of L]) (intro mult_le_mono1, simp)
    finally have "?k < G" .
    moreover have "p \<in> ?S ?k" using g(2) assms(4) by simp
    ultimately show "p \<in> (\<Union>k < G. ?S k)" by blast
  next
    fix p assume "p \<in> (\<Union>k < G. ?S k)"
    then obtain k where k: "k < G" "p \<in> gc_group_part t (it (k div L))" by blast
    have "k div L < gr_nWG_row t * gr_nWG_col t"
      using k(1) less_mult_imp_div_less [of k "gr_nWG_row t * gr_nWG_col t" L] by (simp add: G(2) mult.commute)
    then show "p \<in> gr_selected t" using k(2) geo(1) by blast
  qed
  have "added (gr_cells t) (\<Union>k \<in> set (global_order r' G). ?S k) (gr_value t m) m
    (fold (\<lambda>k. gc_eval t (?it k)) (global_order r' G) m)"
  proof (rule fold_added [OF gr_cells_inj [OF assms(3)], where X = "{..<G}" and ?m0.0 = m])
    show "added (gr_cells t) (?S k) (gr_value t m) m1 (gc_eval t (?it k) m1)"
      if "\<And>c. c \<notin> gr_cells t ` gr_all t \<Longrightarrow> m1 c = m c" for k m1
      using gc_eval_added [OF assms(3) item(1) assms(4) _ assms(5) cs assms(8), of k m1 m, OF _ that] assms(4)
      by (simp add: item grp)
  qed (use gc_group_part_sub disj run_global [OF assms(2)] in auto)
  then show "added (gr_cells t) (gr_selected t) (gr_value t m) m
      (execute_tree r' (gr_valid_thread t) (gc_eval t) L (L * gr_nWG_row t * gr_nWG_col t) m)"
    using ok by (simp add: execute_tree_def gr_valid_thread_def Let_def G_def [symmetric] run_global [OF assms(2)] all)
  show "added (gr_cells t) (gr_selected t) (gr_value t m) m
      (execute_tree_local r () (gc_phases t) L (L * gr_nWG_row t * gr_nWG_col t) m)"
    by (rule gc_launch_added [OF assms(1,3-7)])
qed

lemma ger_col_kernels_agree_witness:
  "execute_tree (seq_run ()) (gr_valid_thread (make_Ger False False True True (make_matrix_view col_major (sample_it 3) 2 2 3) (2 :: int)
       (make_vector_view (sample_it 1) 1 2) (make_vector_view (sample_it 2) 1 2) 1 2 5))
     (gc_eval (make_Ger False False True True (make_matrix_view col_major (sample_it 3) 2 2 3) 2
       (make_vector_view (sample_it 1) 1 2) (make_vector_view (sample_it 2) 1 2) 1 2 5)) 2 4 sample_mem
   = execute_tree_local (seq_run 0) () (gc_phases (make_Ger False False True True
       (make_matrix_view col_major (sample_it 3) 2 2 3) 2
       (make_vector_view (sample_it 1) 1 2) (make_vector_view (sample_it 2) 1 2) 1 2 5)) 2 4 sample_mem"
  using ger_col_kernels_agree [of "seq_run 0" "seq_run ()" "make_Ger False False True True
      (make_matrix_view col_major (sample_it 3) 2 2 3) 2
      (make_vector_view (sample_it 1) 1 2) (make_vector_view (sample_it 2) 1 2) 1 2 5" 2 sample_mem]
  by (simp add: gr_wf_def gc_step_def matrix_fits_wf del: One_nat_def)

end
