(* ===== verification/Trmv_Symv.thy ===== *)
theory Trmv_Symv
  imports Ger
begin

text \<open>
  Triangular and symmetric matrix-vector products: the kernels \<open>GemvCol\<close> and \<open>GemvRow\<close> of
  \<^verbatim>\<open>src/operations/blas2/gemv.hpp\<close> and the operations \<open>_trmv\<close> and \<open>_symv\<close> of
  \<^verbatim>\<open>src/interface/blas2_interface.hpp\<close>. The template parameters of the kernels are fields of the
  record. \<open>AddOperator::init\<close> of an element type is 0.

  In \<open>GemvCol\<close> an item owns rows and a group one column of partial results; in \<open>GemvRow\<close> the items of a
  group share a row and reduce it in local memory.
\<close>

section \<open>The trees\<close>

record GemvCol =
  tv_lhs :: MatrixView
  tv_matrix :: MatrixView
  tv_vector :: VectorView
  tv_nWG_row :: nat
  tv_nWG_col :: nat
  tv_local_memory_size :: nat
  tv_Lower :: bool
  tv_Diag :: bool
  tv_Upper :: bool
  tv_Unit :: bool

record GemvRow = GemvCol +
  tv_interLoop :: nat

definition make_Gemv_Col ::
  "bool \<Rightarrow> bool \<Rightarrow> bool \<Rightarrow> bool \<Rightarrow> MatrixView \<Rightarrow> MatrixView \<Rightarrow> VectorView \<Rightarrow> nat \<Rightarrow> nat \<Rightarrow> nat \<Rightarrow> GemvCol" where
  "make_Gemv_Col Lower Diag Upper Unit lhs matrix vector nWG_row nWG_col local_memory_size =
     \<lparr>tv_lhs = lhs, tv_matrix = matrix, tv_vector = vector, tv_nWG_row = nWG_row, tv_nWG_col = nWG_col,
      tv_local_memory_size = local_memory_size, tv_Lower = Lower, tv_Diag = Diag, tv_Upper = Upper, tv_Unit = Unit\<rparr>"

definition make_Gemv_Row ::
  "nat \<Rightarrow> bool \<Rightarrow> bool \<Rightarrow> bool \<Rightarrow> bool \<Rightarrow> MatrixView \<Rightarrow> MatrixView \<Rightarrow> VectorView \<Rightarrow> nat \<Rightarrow> nat \<Rightarrow> nat \<Rightarrow> GemvRow" where
  "make_Gemv_Row interLoop Lower Diag Upper Unit lhs matrix vector nWG_row nWG_col local_memory_size =
     \<lparr>tv_lhs = lhs, tv_matrix = matrix, tv_vector = vector, tv_nWG_row = nWG_row, tv_nWG_col = nWG_col,
      tv_local_memory_size = local_memory_size, tv_Lower = Lower, tv_Diag = Diag, tv_Upper = Upper, tv_Unit = Unit,
      tv_interLoop = interLoop\<rparr>"

text \<open>\<open>matrix_.eval(i, j)\<close>, \<open>vector_.eval(i)\<close>, \<open>lhs_.eval(i, j) = v\<close>.\<close>

definition tv_a :: "'a GemvCol_scheme \<Rightarrow> 'v mem \<Rightarrow> nat \<Rightarrow> nat \<Rightarrow> 'v" where
  "tv_a t m i j = m (maddr (tv_matrix t) i j)"

definition tv_x :: "'a GemvCol_scheme \<Rightarrow> 'v mem \<Rightarrow> nat \<Rightarrow> 'v" where
  "tv_x t m i = m (vaddr (tv_vector t) i)"

definition tv_store :: "'a GemvCol_scheme \<Rightarrow> nat \<Rightarrow> nat \<Rightarrow> 'v \<Rightarrow> 'v mem \<Rightarrow> 'v mem" where
  "tv_store t i j v m = m(maddr (tv_lhs t) i j := v)"

text \<open>The tests on \<open>Diag\<close> and \<open>Unit\<close>, and on an element in the inner loops.\<close>

definition tv_nd :: "'a GemvCol_scheme \<Rightarrow> nat" where
  "tv_nd t = (if \<not> tv_Diag t \<or> tv_Unit t then 1 else 0)"

definition tv_full :: "'a GemvCol_scheme \<Rightarrow> bool" where
  "tv_full t \<longleftrightarrow> tv_Lower t \<and> tv_Upper t \<and> tv_Diag t \<and> \<not> tv_Unit t"

definition tv_selects :: "'a GemvCol_scheme \<Rightarrow> nat \<Rightarrow> nat \<Rightarrow> bool" where
  "tv_selects t id_row id_col \<longleftrightarrow>
     (tv_Lower t \<and> id_col + tv_nd t \<le> id_row) \<or> (tv_Upper t \<and> id_row + tv_nd t \<le> id_col)"

text \<open>\<open>eval(index_t i)\<close>, the same in both kernels: the full product, without a look at the template
  parameters.\<close>

definition tv_eval_index :: "'a GemvCol_scheme \<Rightarrow> nat \<Rightarrow> 'v::{zero, plus, times} mem \<Rightarrow> 'v \<times> 'v mem" where
  "tv_eval_index t i m =
     (let v = foldl (\<lambda>v j. AddOperator v (ProductOperator (tv_a t m i j) (tv_x t m j)))
                (AdditionIdentity (tv_x t m 0)) [0..<vv_size (tv_vector t)]
      in (v, m(maddr_lin (tv_lhs t) i := v)))"

section \<open>GemvCol\<close>

subsection \<open>The block of a group\<close>

definition tc_colSz :: "'a GemvCol_scheme \<Rightarrow> nat" where
  "tc_colSz t = (mv_sizeC (tv_matrix t) + tv_nWG_col t - 1) div tv_nWG_col t"

definition tc_idWFR :: "'a GemvCol_scheme \<Rightarrow> nd_item \<Rightarrow> nat" where
  "tc_idWFR t it = nd_group it mod tv_nWG_row t"

definition tc_idWFC :: "'a GemvCol_scheme \<Rightarrow> nd_item \<Rightarrow> nat" where
  "tc_idWFC t it = nd_group it div tv_nWG_row t"

definition tc_dimWFR :: "'a GemvCol_scheme \<Rightarrow> nd_item \<Rightarrow> nat" where
  "tc_dimWFR t it =
     (let dimR = mv_sizeR (tv_matrix t); localSz = nd_local_range it
      in (dimR + localSz * tv_nWG_row t - 1) div (localSz * tv_nWG_row t) * localSz)"

definition tc_frs_row :: "'a GemvCol_scheme \<Rightarrow> nd_item \<Rightarrow> nat \<Rightarrow> nat" where
  "tc_frs_row t it localid = tc_idWFR t it * tc_dimWFR t it + localid"

definition tc_lst_row :: "'a GemvCol_scheme \<Rightarrow> nd_item \<Rightarrow> nat \<Rightarrow> nat" where
  "tc_lst_row t it localid = min (mv_sizeR (tv_matrix t)) (tc_frs_row t it localid + tc_dimWFR t it)"

definition tc_frs_col :: "'a GemvCol_scheme \<Rightarrow> nd_item \<Rightarrow> nat" where
  "tc_frs_col t it = tc_idWFC t it * tc_colSz t"

definition tc_lst_col :: "'a GemvCol_scheme \<Rightarrow> nd_item \<Rightarrow> nat" where
  "tc_lst_col t it = min (mv_sizeC (tv_matrix t)) (tc_frs_col t it + tc_colSz t)"

definition tc_skip :: "'a GemvCol_scheme \<Rightarrow> nd_item \<Rightarrow> bool" where
  "tc_skip t it \<longleftrightarrow>
     (let nd = (if \<not> tv_Diag t then 1 else 0); b = tc_idWFR t it * tc_dimWFR t it
      in (\<not> tv_Upper t \<and> tc_frs_col t it + nd > b + tc_dimWFR t it - 1) \<or>
         (\<not> tv_Lower t \<and> b + nd > tc_lst_col t it - 1))"

definition tc_rows :: "'a GemvCol_scheme \<Rightarrow> nd_item \<Rightarrow> nat \<Rightarrow> nat list" where
  "tc_rows t it localid = strided (tc_frs_row t it localid) (tc_lst_row t it localid) (nd_local_range it)"

text \<open>A group whose block has no selected element stores zeros.\<close>

definition tc_zeros :: "'a GemvCol_scheme \<Rightarrow> nd_item \<Rightarrow> nat \<Rightarrow> 'v::zero mem \<Rightarrow> 'v mem" where
  "tc_zeros t it localid m =
     (let v = AdditionIdentity (tv_x t m 0)
      in fold (\<lambda>rowid m. tv_store t rowid (tc_idWFC t it) v m) (tc_rows t it localid) m)"

subsection \<open>Without local memory\<close>

definition tc_eval :: "'a GemvCol_scheme \<Rightarrow> nd_item \<Rightarrow> 'v::{zero, plus, times} mem \<Rightarrow> 'v mem" where
  "tc_eval t it m =
     (let frs_col = tc_frs_col t it; lst_col = tc_lst_col t it
      in if tc_skip t it then tc_zeros t it (nd_local it) m
         else fold (\<lambda>rowid m.
             let v = (if tv_Diag t \<and> tv_Unit t \<and> frs_col \<le> rowid \<and> rowid < lst_col
                      then tv_a t m rowid rowid else AdditionIdentity (tv_x t m 0));
                 v = foldl (\<lambda>v id_col. AddOperator v (ProductOperator (tv_a t m rowid id_col) (tv_x t m id_col))) v
                       [(if tv_Lower t then frs_col else max (rowid + tv_nd t) frs_col)
                         ..<(if tv_Upper t then lst_col
                             else min (rowid + (if \<not> tv_Diag t \<or> tv_Unit t then 0 else 1)) lst_col)]
             in tv_store t rowid (tc_idWFC t it) v m)
           (tc_rows t it (nd_local it)) m)"

subsection \<open>With local memory\<close>

type_synonym 'v tv_state = "('v mem, 'v, unit) group_state"

definition tc_blqSz :: "'a GemvCol_scheme \<Rightarrow> nd_item \<Rightarrow> nat \<Rightarrow> nat" where
  "tc_blqSz t it colid = min (tv_local_memory_size t) (tc_lst_col t it - colid)"

definition tc_load :: "'a GemvCol_scheme \<Rightarrow> nd_item \<Rightarrow> nat \<Rightarrow> nat \<Rightarrow> 'v tv_state \<Rightarrow> 'v tv_state" where
  "tc_load t it colid localid gs =
     gs\<lparr>gs_local := fold (\<lambda>col f. f(col := tv_x t (gs_mem gs) (colid + col)))
          (strided localid (tc_blqSz t it colid) (nd_local_range it)) (gs_local gs)\<rparr>"

definition tc_value ::
  "'a GemvCol_scheme \<Rightarrow> nd_item \<Rightarrow> nat \<Rightarrow> (nat \<Rightarrow> 'v) \<Rightarrow> nat \<Rightarrow> 'v::{zero, plus, times} mem \<Rightarrow> 'v" where
  "tc_value t it colid shrMem rowid m =
     (let v = (if colid = tc_frs_col t it then AdditionIdentity (tv_x t m 0)
               else m (maddr (tv_lhs t) rowid (tc_idWFC t it)))
            + (if tv_Diag t \<and> tv_Unit t \<and> colid \<le> rowid \<and> rowid < colid + tc_blqSz t it colid
               then tv_x t m rowid else AdditionIdentity (tv_x t m 0))
      in foldl (\<lambda>v col. if tv_full t \<or> tv_selects t rowid (colid + col)
                         then AddOperator v (ProductOperator (tv_a t m rowid (colid + col)) (shrMem col)) else v) v
           [0..<tc_blqSz t it colid])"

definition tc_product ::
  "'a GemvCol_scheme \<Rightarrow> nd_item \<Rightarrow> nat \<Rightarrow> nat \<Rightarrow> 'v::{zero, plus, times} tv_state \<Rightarrow> 'v tv_state" where
  "tc_product t it colid localid gs =
     gs\<lparr>gs_mem := fold (\<lambda>rowid m. tv_store t rowid (tc_idWFC t it) (tc_value t it colid (gs_local gs) rowid m) m)
          (tc_rows t it localid) (gs_mem gs)\<rparr>"

definition tc_phases ::
  "'a GemvCol_scheme \<Rightarrow> nd_item \<Rightarrow> (nat \<Rightarrow> 'v::{zero, plus, times} tv_state \<Rightarrow> 'v tv_state) list" where
  "tc_phases t it =
     (if tc_skip t it then [\<lambda>localid gs. gs\<lparr>gs_mem := tc_zeros t it localid (gs_mem gs)\<rparr>]
      else concat (map (\<lambda>colid. [tc_load t it colid, tc_product t it colid])
             (strided (tc_frs_col t it) (tc_lst_col t it) (tv_local_memory_size t))))"

section \<open>GemvRow\<close>

subsection \<open>The block of a group\<close>

definition tr_rowSz :: "GemvRow \<Rightarrow> nat" where
  "tr_rowSz t = (mv_sizeR (tv_matrix t) + tv_nWG_row t - 1) div tv_nWG_row t"

definition tr_idWFR :: "GemvRow \<Rightarrow> nd_item \<Rightarrow> nat" where
  "tr_idWFR t it = nd_group it div tv_nWG_col t"

definition tr_idWFC :: "GemvRow \<Rightarrow> nd_item \<Rightarrow> nat" where
  "tr_idWFC t it = nd_group it mod tv_nWG_col t"

definition tr_dimWFC :: "GemvRow \<Rightarrow> nd_item \<Rightarrow> nat" where
  "tr_dimWFC t it =
     (let dimC = mv_sizeC (tv_matrix t); localSz = nd_local_range it
      in (dimC + localSz * tv_nWG_col t - 1) div (localSz * tv_nWG_col t) * localSz)"

definition tr_frs_row :: "GemvRow \<Rightarrow> nd_item \<Rightarrow> nat" where
  "tr_frs_row t it = tr_idWFR t it * tr_rowSz t"

definition tr_lst_row :: "GemvRow \<Rightarrow> nd_item \<Rightarrow> nat" where
  "tr_lst_row t it = min (mv_sizeR (tv_matrix t)) (tr_frs_row t it + tr_rowSz t)"

definition tr_frs_col :: "GemvRow \<Rightarrow> nd_item \<Rightarrow> nat \<Rightarrow> nat" where
  "tr_frs_col t it localid = tr_idWFC t it * tr_dimWFC t it + tv_interLoop t * localid"

definition tr_lst_col :: "GemvRow \<Rightarrow> nd_item \<Rightarrow> nat \<Rightarrow> nat" where
  "tr_lst_col t it localid = min (mv_sizeC (tv_matrix t)) (tr_frs_col t it localid + tr_dimWFC t it)"

definition tr_skip :: "GemvRow \<Rightarrow> nd_item \<Rightarrow> bool" where
  "tr_skip t it \<longleftrightarrow>
     (let nd = (if \<not> tv_Diag t then 1 else 0); b = tr_idWFC t it * tr_dimWFC t it
      in (\<not> tv_Upper t \<and> b + nd > tr_lst_row t it - 1) \<or>
         (\<not> tv_Lower t \<and> tr_frs_row t it + nd > b + tr_dimWFC t it - 1))"

subsection \<open>Without local memory\<close>

text \<open>Every item stores its own partial result, in column \<open>id_col_thr\<close>. With \<open>interLoop\<close> different from 1
  an item takes \<open>interLoop\<close> neighbouring columns at a time; the bounds of that loop use \<open>row\<close>, which
  counts from the first row of the group.\<close>

definition tr_row_product :: "GemvRow \<Rightarrow> nd_item \<Rightarrow> nat \<Rightarrow> 'v::{zero, plus, times} mem \<Rightarrow> 'v" where
  "tr_row_product t it id_row m =
     foldl (\<lambda>v id_col.
         if tv_full t then AddOperator v (ProductOperator (tv_a t m id_row id_col) (tv_x t m id_col))
         else (let v = (if tv_selects t id_row id_col
                        then AddOperator v (ProductOperator (tv_a t m id_row id_col) (tv_x t m id_col)) else v)
               in if tv_Diag t \<and> tv_Unit t \<and> id_row = id_col then AddOperator v (tv_a t m id_row id_col) else v))
       0 (strided (tr_frs_col t it (nd_local it)) (tr_lst_col t it (nd_local it)) (nd_local_range it))"

definition tr_row_product_inter :: "GemvRow \<Rightarrow> nd_item \<Rightarrow> nat \<Rightarrow> nat \<Rightarrow> 'v::{zero, plus, times} mem \<Rightarrow> 'v" where
  "tr_row_product_inter t it row id_row m =
     foldl (\<lambda>v id_col.
         let lst_k_int = min (id_col + tv_interLoop t) (tr_lst_col t it (nd_local it))
         in foldl (\<lambda>v k_int. AddOperator v (ProductOperator (tv_a t m id_row k_int) (tv_x t m k_int))) v
              [(if tv_Lower t then id_col else max (row + tv_nd t) id_col)
                ..<(if tv_Upper t then lst_k_int
                    else min (row + (if \<not> tv_Diag t \<or> tv_Unit t then 0 else 1)) lst_k_int)])
       0 (strided (tr_frs_col t it (nd_local it)) (tr_lst_col t it (nd_local it)) (nd_local_range it * tv_interLoop t))"

definition tr_eval :: "GemvRow \<Rightarrow> nd_item \<Rightarrow> 'v::{zero, plus, times} mem \<Rightarrow> 'v mem" where
  "tr_eval t it m =
     (let localSz = nd_local_range it; id_col_thr = tr_idWFC t it * localSz + nd_local it;
          frs_row = tr_frs_row t it; lst_row = tr_lst_row t it
      in if tr_skip t it then fold (\<lambda>rowid m. tv_store t rowid id_col_thr 0 m) (strided frs_row lst_row localSz) m
         else if tv_interLoop t = 1 then
           (if id_col_thr < mv_sizeC (tv_matrix t)
            then fold (\<lambda>id_row m. tv_store t id_row id_col_thr (tr_row_product t it id_row m) m) [frs_row..<lst_row] m
            else m)
         else fold (\<lambda>id_row m. tv_store t id_row id_col_thr
                      (tr_row_product_inter t it (id_row - frs_row) id_row m) m) [frs_row..<lst_row] m)"

subsection \<open>With local memory\<close>

text \<open>A round handles \<open>shrSz\<close> rows. What item 0 writes at the end of a round shares a phase with the
  first part of the next round, for there is no barrier between them.\<close>

definition tr_shrSz :: "GemvRow \<Rightarrow> nd_item \<Rightarrow> nat" where
  "tr_shrSz t it = tv_local_memory_size t div nd_local_range it"

definition tr_blqSz :: "GemvRow \<Rightarrow> nd_item \<Rightarrow> nat \<Rightarrow> nat" where
  "tr_blqSz t it rowid = min (tr_shrSz t it) (tr_lst_row t it - rowid)"

definition tr_partial :: "GemvRow \<Rightarrow> nd_item \<Rightarrow> nat \<Rightarrow> nat \<Rightarrow> 'v::{zero, plus, times} mem \<Rightarrow> 'v" where
  "tr_partial t it localid id_row m =
     (let frs_col = tr_frs_col t it localid; lst_col = tr_lst_col t it localid; localSz = nd_local_range it
      in if tv_interLoop t = 1 then
           foldl (\<lambda>v id_col. if tv_full t \<or> tv_selects t id_row id_col
                              then AddOperator v (ProductOperator (tv_a t m id_row id_col) (tv_x t m id_col)) else v)
             (if tv_Diag t \<and> tv_Unit t \<and> frs_col \<le> id_row \<and> id_row < lst_col \<and> (id_row - frs_col) mod localSz = 0
              then tv_x t m id_row else 0)
             (strided frs_col lst_col localSz)
         else
           foldl (\<lambda>v id_col.
               foldl (\<lambda>v k_int.
                   if tv_full t then AddOperator v (ProductOperator (tv_a t m id_row k_int) (tv_x t m k_int))
                   else (let v = (if tv_selects t id_row id_col
                                  then AddOperator v (ProductOperator (tv_a t m id_row k_int) (tv_x t m k_int)) else v)
                         in if tv_Diag t \<and> tv_Unit t \<and> id_row = id_col then AddOperator v (tv_a t m id_row k_int) else v))
                 v [id_col..<min (id_col + tv_interLoop t) lst_col])
             0 (strided frs_col lst_col (localSz * tv_interLoop t)))"

definition tr_load :: "GemvRow \<Rightarrow> nd_item \<Rightarrow> nat \<Rightarrow> nat \<Rightarrow> 'v::{zero, plus, times} tv_state \<Rightarrow> 'v tv_state" where
  "tr_load t it rowid localid gs =
     gs\<lparr>gs_local := fold (\<lambda>row f. f(row * nd_local_range it + localid := tr_partial t it localid (rowid + row) (gs_mem gs)))
          [0..<tr_blqSz t it rowid] (gs_local gs)\<rparr>"

definition tr_tree_step :: "GemvRow \<Rightarrow> nd_item \<Rightarrow> nat \<Rightarrow> nat \<Rightarrow> nat \<Rightarrow> 'v::plus tv_state \<Rightarrow> 'v tv_state" where
  "tr_tree_step t it rowid offset localid gs =
     (if localid < offset
      then gs\<lparr>gs_local := fold (\<lambda>row f. f(row * nd_local_range it + localid :=
               AddOperator (f (row * nd_local_range it + localid)) (f (row * nd_local_range it + localid + offset))))
             [0..<tr_blqSz t it rowid] (gs_local gs)\<rparr>
      else gs)"

definition tr_write :: "GemvRow \<Rightarrow> nd_item \<Rightarrow> nat \<Rightarrow> nat \<Rightarrow> 'v tv_state \<Rightarrow> 'v tv_state" where
  "tr_write t it rowid localid gs =
     (if localid = 0
      then gs\<lparr>gs_mem := fold (\<lambda>row m. tv_store t (rowid + row) (tr_idWFC t it) (gs_local gs (row * nd_local_range it)) m)
             [0..<tr_blqSz t it rowid] (gs_mem gs)\<rparr>
      else gs)"

fun tr_rounds ::
  "GemvRow \<Rightarrow> nd_item \<Rightarrow> (nat \<Rightarrow> 'v::{zero, plus, times} tv_state \<Rightarrow> 'v tv_state) \<Rightarrow> nat list \<Rightarrow>
   (nat \<Rightarrow> 'v tv_state \<Rightarrow> 'v tv_state) list" where
  "tr_rounds t it pending [] = [pending]"
| "tr_rounds t it pending (rowid # rows) =
     (\<lambda>localid gs. tr_load t it rowid localid (pending localid gs))
     # map (tr_tree_step t it rowid) (halvings (nd_local_range it div 2))
     @ tr_rounds t it (tr_write t it rowid) rows"

definition tr_phases :: "GemvRow \<Rightarrow> nd_item \<Rightarrow> (nat \<Rightarrow> 'v::{zero, plus, times} tv_state \<Rightarrow> 'v tv_state) list" where
  "tr_phases t it =
     (if tr_skip t it
      then [\<lambda>localid gs. if localid = 0
              then gs\<lparr>gs_mem := fold (\<lambda>rowid m. tv_store t rowid (tr_idWFC t it) (AdditionIdentity (tv_x t (gs_mem gs) 0)) m)
                     [tr_frs_row t it..<tr_lst_row t it] (gs_mem gs)\<rparr>
              else gs]
      else tr_rounds t it (\<lambda>localid gs. gs) (strided (tr_frs_row t it) (tr_lst_row t it) (tr_shrSz t it)))"

section \<open>The interface\<close>

datatype blas_error = erroneous_parameter

definition trmv_impl ::
  "'v device_run \<Rightarrow> 'v device_run \<Rightarrow> policy_handler \<Rightarrow> nat \<Rightarrow> transpose_type \<Rightarrow> char \<Rightarrow> char \<Rightarrow> nat \<Rightarrow>
   BufferIterator \<Rightarrow> nat \<Rightarrow> BufferIterator \<Rightarrow> int \<Rightarrow> nat \<Rightarrow> nat \<Rightarrow> nat \<Rightarrow> nat \<Rightarrow> 'v::{zero, plus, times} mem \<Rightarrow>
   blas_error + 'v mem" where
  "trmv_impl r1 r2 ph tmp trn Uplo0 Diag0 N mA lda vx incx localSize0 scratchPadSize0 nRowsWG0 nColsWG0 m =
     (let Uplo = tolower Uplo0; Diag = tolower Diag0
      in if Uplo \<noteq> CHR ''u'' \<and> Uplo \<noteq> CHR ''l'' \<and> Diag \<noteq> CHR ''u'' \<and> Diag \<noteq> CHR ''n'' then Inl erroneous_parameter
         else
           (let data_layout = (if trn = Normal then col_major else row_major);
                is_col = (data_layout = col_major);
                triangOpr = (if is_col then Uplo = CHR ''u'' else Uplo = CHR ''l'');
                unitDiag = (Diag = CHR ''u'');
                mA = make_matrix_view data_layout mA N N lda;
                vx = make_vector_view vx incx N;
                interLoop = 1;
                localSize = (if localSize0 = 0 then ph_work_group_size ph else localSize0);
                nRowsWG = (if nRowsWG0 = 0 then (if is_col then localSize else 1) else min N nRowsWG0);
                nColsWG = (if nColsWG0 = 0 then (if is_col then localSize else N) else min N nColsWG0);
                scratchPadSize = (if localSize0 = 0 then localSize else scratchPadSize0);
                nWGPerCol = (N - 1) div nColsWG + 1;
                nWGPerRow = (N - 1) div nRowsWG + 1;
                scratchSize = (if is_col then nWGPerCol
                               else (if scratchPadSize = 0 then min N localSize else 1) * nWGPerCol);
                globalSize = localSize * nWGPerRow * nWGPerCol;
                valT1 = make_sycl_iterator_buffer tmp (N * scratchSize);
                mat1 = make_matrix_view row_major valT1 N scratchSize scratchSize;
                m = (if is_col then
                       (if triangOpr then
                          (if unitDiag then
                             execute_tree_local r1 () (tc_phases (make_Gemv_Col False True True True mat1 mA vx
                               nWGPerRow nWGPerCol scratchPadSize)) localSize globalSize m
                           else
                             execute_tree_local r1 () (tc_phases (make_Gemv_Col False True True False mat1 mA vx
                               nWGPerRow nWGPerCol scratchPadSize)) localSize globalSize m)
                        else
                          (if unitDiag then
                             execute_tree_local r1 () (tc_phases (make_Gemv_Col True True False True mat1 mA vx
                               nWGPerRow nWGPerCol scratchPadSize)) localSize globalSize m
                           else
                             execute_tree_local r1 () (tc_phases (make_Gemv_Col True True False False mat1 mA vx
                               nWGPerRow nWGPerCol scratchPadSize)) localSize globalSize m))
                     else
                       (if triangOpr then
                          (if unitDiag then
                             execute_tree_local r1 () (tr_phases (make_Gemv_Row interLoop False True True True mat1 mA vx
                               nWGPerRow nWGPerCol scratchPadSize)) localSize globalSize m
                           else
                             execute_tree_local r1 () (tr_phases (make_Gemv_Row interLoop False True True False mat1 mA vx
                               nWGPerRow nWGPerCol scratchPadSize)) localSize globalSize m)
                        else
                          (if unitDiag then
                             execute_tree_local r1 () (tr_phases (make_Gemv_Row interLoop True True False True mat1 mA vx
                               nWGPerRow nWGPerCol scratchPadSize)) localSize globalSize m
                           else
                             execute_tree_local r1 () (tr_phases (make_Gemv_Row interLoop True True False False mat1 mA vx
                               nWGPerRow nWGPerCol scratchPadSize)) localSize globalSize m)));
                addMOp = SumMatrixColumns mat1;
                assignOp = Assign (vec_lval vx) addMOp
            in Inr (execute_sized r2 assignOp localSize m)))"

definition symv_impl ::
  "'v device_run \<Rightarrow> 'v device_run \<Rightarrow> 'v device_run \<Rightarrow> policy_handler \<Rightarrow> nat \<Rightarrow> nat \<Rightarrow> char \<Rightarrow> nat \<Rightarrow>
   'v::{zero, plus, times} \<Rightarrow> BufferIterator \<Rightarrow> nat \<Rightarrow> BufferIterator \<Rightarrow> int \<Rightarrow> 'v \<Rightarrow> BufferIterator \<Rightarrow> int \<Rightarrow>
   nat \<Rightarrow> nat \<Rightarrow> nat \<Rightarrow> nat \<Rightarrow> 'v mem \<Rightarrow> blas_error + 'v mem" where
  "symv_impl r1 r2 r3 ph tmpR tmpC Uplo0 N alpha mA0 lda vx incx beta vy incy localSize0 scratchPadSize0
     nRowsWG0 nColsWG0 m =
     (let Uplo = tolower Uplo0
      in if Uplo \<noteq> CHR ''u'' \<and> Uplo \<noteq> CHR ''l'' then Inl erroneous_parameter
         else
           (let triangOpr = (Uplo = CHR ''u'');
                mA = make_matrix_view col_major mA0 N N lda;
                vx = make_vector_view vx incx N;
                vy = make_vector_view vy incy N;
                mAT = make_matrix_view row_major mA0 N N lda;
                interLoop = 1;
                localSize = (if localSize0 = 0 then ph_work_group_size ph else localSize0);
                scratchPadSize = (if localSize0 = 0 then localSize else scratchPadSize0);
                nRowsWG_R = (if nRowsWG0 = 0 then 1 else min N nRowsWG0);
                nColsWG_R = (if nColsWG0 = 0 then N else min N nColsWG0);
                nWGPerRow_R = (N - 1) div nRowsWG_R + 1;
                nWGPerCol_R = (N - 1) div nColsWG_R + 1;
                globalSize_R = localSize * nWGPerRow_R * nWGPerCol_R;
                nRowsWG_C = (if nRowsWG0 = 0 then localSize else nRowsWG0);
                nColsWG_C = (if nColsWG0 = 0 then localSize else nColsWG0);
                nWGPerRow_C = (N - 1) div nRowsWG_C + 1;
                nWGPerCol_C = (N - 1) div nColsWG_C + 1;
                globalSize_C = localSize * nWGPerRow_C * nWGPerCol_C;
                scratchSize_R = (if scratchPadSize = 0 then min N localSize else 1) * nWGPerCol_R;
                valTR = make_sycl_iterator_buffer tmpR (N * scratchSize_R);
                matR = make_matrix_view row_major valTR N scratchSize_R scratchSize_R;
                scratchSize_C = nWGPerCol_C;
                valTC = make_sycl_iterator_buffer tmpC (N * scratchSize_C);
                matC = make_matrix_view row_major valTC N scratchSize_C scratchSize_C;
                m = (if triangOpr then
                       (let gemvC = make_Gemv_Col False True True False matC mA vx nWGPerRow_C nWGPerCol_C scratchPadSize;
                            gemvR = make_Gemv_Row interLoop True False False False matR mAT vx nWGPerRow_R nWGPerCol_R
                                      scratchPadSize;
                            m = execute_tree_local r1 () (tc_phases gemvC) localSize globalSize_C m
                        in execute_tree_local r2 () (tr_phases gemvR) localSize globalSize_R m)
                     else
                       (let gemvC = make_Gemv_Col True True False False matC mA vx nWGPerRow_C nWGPerCol_C scratchPadSize;
                            gemvR = make_Gemv_Row interLoop False False True False matR mAT vx nWGPerRow_R nWGPerCol_R
                                      scratchPadSize;
                            m = execute_tree_local r1 () (tc_phases gemvC) localSize globalSize_C m
                        in execute_tree_local r2 () (tr_phases gemvR) localSize globalSize_R m));
                scalOp1 = ScalarOp ProductOperator (Literal beta) (vec_expr vy);
                addMOpR = SumMatrixColumns matR;
                addMOpC = SumMatrixColumns matC;
                addMOp = BinaryOp AddOperator addMOpR addMOpC;
                scalOp2 = ScalarOp ProductOperator (Literal alpha) addMOp;
                addOp = BinaryOp AddOperator scalOp1 scalOp2;
                assignOp = Assign (vec_lval vy) addOp
            in Inr (execute_sized r3 assignOp localSize m)))"

definition trmv ::
  "'v device_run \<Rightarrow> 'v device_run \<Rightarrow> policy_handler \<Rightarrow> nat \<Rightarrow> char \<Rightarrow> char \<Rightarrow> char \<Rightarrow> nat \<Rightarrow>
   BufferIterator \<Rightarrow> nat \<Rightarrow> BufferIterator \<Rightarrow> int \<Rightarrow> 'v::{zero, plus, times} mem \<Rightarrow> blas_error + 'v mem" where
  "trmv r1 r2 ph tmp Uplo transA Diag N mA lda vx incx m =
     (if tolower transA = CHR ''n''
      then trmv_impl r1 r2 ph tmp Normal Uplo Diag N mA lda vx incx 0 0 0 0 m
      else trmv_impl r1 r2 ph tmp Transposed Uplo Diag N mA lda vx incx 0 0 0 0 m)"

definition symv ::
  "'v device_run \<Rightarrow> 'v device_run \<Rightarrow> 'v device_run \<Rightarrow> policy_handler \<Rightarrow> nat \<Rightarrow> nat \<Rightarrow> char \<Rightarrow> nat \<Rightarrow>
   'v::{zero, plus, times} \<Rightarrow> BufferIterator \<Rightarrow> nat \<Rightarrow> BufferIterator \<Rightarrow> int \<Rightarrow> 'v \<Rightarrow> BufferIterator \<Rightarrow> int \<Rightarrow>
   'v mem \<Rightarrow> blas_error + 'v mem" where
  "symv r1 r2 r3 ph tmpR tmpC Uplo N alpha mA lda vx incx beta vy incy m =
     symv_impl r1 r2 r3 ph tmpR tmpC Uplo N alpha mA lda vx incx beta vy incy 0 0 0 0 m"

section \<open>What a kernel computes\<close>

definition tv_term :: "'a GemvCol_scheme \<Rightarrow> 'v::semiring_0 mem \<Rightarrow> nat \<Rightarrow> nat \<Rightarrow> 'v" where
  "tv_term t m i j = (if tv_full t \<or> tv_selects t i j then tv_a t m i j * tv_x t m j else 0)
     + (if tv_Diag t \<and> tv_Unit t \<and> i = j then tv_x t m j else 0)"

text \<open>The kernel writes buffer \<open>b\<close> and reads the matrix and the vector from others.\<close>

definition tv_wf :: "nat \<Rightarrow> 'a GemvCol_scheme \<Rightarrow> bool" where
  "tv_wf b t \<longleftrightarrow> wf_matrix_view (tv_lhs t) \<and> acc_buffer (mv_data (tv_lhs t)) = b \<and>
     acc_buffer (mv_data (tv_matrix t)) \<noteq> b \<and> acc_buffer (vv_data (tv_vector t)) \<noteq> b \<and>
     mv_sizeR (tv_lhs t) = mv_sizeR (tv_matrix t) \<and> tv_nWG_col t \<le> mv_sizeC (tv_lhs t) \<and>
     0 < mv_sizeR (tv_matrix t) \<and> 0 < mv_sizeC (tv_matrix t) \<and> 0 < tv_nWG_row t \<and> 0 < tv_nWG_col t"

lemma tv_reads:
  assumes "tv_wf b t" "\<And>c. fst c \<noteq> b \<Longrightarrow> m c = m0 c"
  shows "tv_a t m = tv_a t m0" "tv_x t m = tv_x t m0" "tv_term t m = tv_term t m0"
proof -
  show "tv_a t m = tv_a t m0" "tv_x t m = tv_x t m0"
    using assms by (auto simp: tv_wf_def tv_a_def tv_x_def maddr_eq vaddr_eq fun_eq_iff)
  then show "tv_term t m = tv_term t m0" by (simp add: tv_term_def fun_eq_iff)
qed

lemma tv_out_inj:
  assumes "tv_wf b t" "g < tv_nWG_col t" "h < tv_nWG_col t" "i < mv_sizeR (tv_matrix t)" "k < mv_sizeR (tv_matrix t)"
    and "maddr (tv_lhs t) i g = maddr (tv_lhs t) k h"
  shows "i = k \<and> g = h"
  using maddr_inj [of "tv_lhs t" i k g h] assms by (auto simp: tv_wf_def)

lemma fst_maddr [simp]: "fst (maddr v i j) = acc_buffer (mv_data v)"
  by (simp add: maddr_eq)

lemma foldl_terms:
  fixes f :: "nat \<Rightarrow> 'v::semiring_0"
  shows "foldl (\<lambda>v k. if P k then AddOperator v (f k) else v) a ks = a + sum_list (map (\<lambda>k. if P k then f k else 0) ks)"
  by (induction ks arbitrary: a) (auto simp: AddOperator_def add.assoc)

section \<open>GemvCol: a group\<close>

definition tc_part :: "'a GemvCol_scheme \<Rightarrow> nd_item \<Rightarrow> nat set" where
  "tc_part t it = {i. i < mv_sizeR (tv_matrix t) \<and> i div tc_dimWFR t it = tc_idWFR t it}"

lemma tc_dims:
  assumes "tv_wf b t" "0 < nd_local_range it"
  shows "nd_local_range it dvd tc_dimWFR t it" "0 < tc_dimWFR t it" "mv_sizeR (tv_matrix t) \<le> tv_nWG_row t * tc_dimWFR t it"
    and "0 < tc_colSz t" "mv_sizeC (tv_matrix t) \<le> tv_nWG_col t * tc_colSz t"
proof -
  have pos: "0 < tv_nWG_row t" "0 < mv_sizeR (tv_matrix t)" "0 < tv_nWG_col t" "0 < mv_sizeC (tv_matrix t)"
    using assms(1) by (simp_all add: tv_wf_def)
  show "nd_local_range it dvd tc_dimWFR t it" "0 < tc_dimWFR t it" "mv_sizeR (tv_matrix t) \<le> tv_nWG_row t * tc_dimWFR t it"
    using padded_blocks [OF assms(2) pos(1,2)] by (simp_all add: tc_dimWFR_def cdiv_def Let_def)
  have "tc_colSz t = cdiv (mv_sizeC (tv_matrix t)) (tv_nWG_col t)" by (simp add: tc_colSz_def cdiv_def)
  then show "0 < tc_colSz t" "mv_sizeC (tv_matrix t) \<le> tv_nWG_col t * tc_colSz t"
    using pos cdiv_covers [OF pos(3), of "mv_sizeC (tv_matrix t)"] by (simp_all add: cdiv_pos mult.commute)
qed

lemma set_tc_rows:
  assumes "tv_wf b t" "0 < nd_local_range it" "l < nd_local_range it"
  shows "set (tc_rows t it l) = {i. i \<in> tc_part t it \<and> i mod nd_local_range it = l}"
proof -
  note D = tc_dims [OF assms(1,2)]
  show ?thesis
    unfolding tc_rows_def tc_lst_row_def tc_frs_row_def cyclic_rows [OF assms(2) D(1,2) assms(3)]
    by (auto simp: tc_part_def)
qed

text \<open>A phase in which every item stores one element in each of its rows.\<close>

lemma tc_row_phase:
  fixes v :: "nat \<Rightarrow> 'v mem \<Rightarrow> 'v" and m :: "'v mem"
  assumes wf: "tv_wf b t" and L: "0 < nd_local_range it" and g: "tc_idWFC t it < tv_nWG_col t"
    and ys: "distinct ys" "set ys = {..<nd_local_range it}"
    and v: "\<And>i m m'. i \<in> tc_part t it \<Longrightarrow> (\<And>c. fst c \<noteq> b \<or> c = maddr (tv_lhs t) i (tc_idWFC t it) \<Longrightarrow> m c = m' c) \<Longrightarrow>
        v i m = v i m'"
  defines "m' \<equiv> fold (\<lambda>l. fold (\<lambda>i m. tv_store t i (tc_idWFC t it) (v i m) m) (tc_rows t it l)) ys m"
  shows "i \<in> tc_part t it \<Longrightarrow> m' (maddr (tv_lhs t) i (tc_idWFC t it)) = v i m"
    and "c \<notin> (\<lambda>i. maddr (tv_lhs t) i (tc_idWFC t it)) ` tc_part t it \<Longrightarrow> m' c = m c"
proof -
  let ?a = "\<lambda>i. maddr (tv_lhs t) i (tc_idWFC t it)" and ?X = "tc_part t it" and ?L = "nd_local_range it"
  let ?xs = "concat (map (tc_rows t it) ys)"
  have m': "m' = fold (\<lambda>i m. m(?a i := v i m)) ?xs m"
    unfolding m'_def by (induction ys arbitrary: m) (simp_all add: tv_store_def)
  have rows: "set (tc_rows t it l) = {i. i \<in> ?X \<and> i mod ?L = l}" if "l \<in> set ys" for l
    using set_tc_rows [OF wf L] that ys(2) by simp
  have "set (tc_rows t it k) \<inter> set (tc_rows t it l) = {}" if "k \<in> set ys" "l \<in> set ys" "k \<noteq> l" for k l
    using rows that by auto
  then have d: "distinct (concat (map (tc_rows t it) zs))" if "distinct zs" "set zs \<subseteq> set ys" for zs
    using that by (induction zs) (auto simp: tc_rows_def)
  note d = d [OF ys(1) subset_refl]
  have s: "set ?xs = ?X" using rows ys(2) L by auto
  have inj: "inj_on ?a ?X"
    using tv_out_inj [OF wf g g] by (auto simp: inj_on_def tc_part_def)
  have rd: "v x f = v x f'" if "x \<in> ?X" "\<And>d. (\<And>y. y \<in> ?X \<Longrightarrow> y \<noteq> x \<Longrightarrow> d \<noteq> ?a y) \<Longrightarrow> f d = f' d" for x f f'
  proof (rule v [OF that(1)])
    fix c :: addr
    assume c: "fst c \<noteq> b \<or> c = ?a x"
    show "f c = f' c"
    proof (rule that(2))
      fix y assume "y \<in> ?X" "y \<noteq> x"
      then have "?a y \<noteq> ?a x" "fst (?a y) = b" using inj that(1) wf by (auto simp: inj_on_def tv_wf_def)
      then show "c \<noteq> ?a y" using c by auto
    qed
  qed
  show "i \<in> ?X \<Longrightarrow> m' (?a i) = v i m" unfolding m' by (rule fold_cell_writers_hit [OF inj _ d s]) (use rd in blast)+
  show "c \<notin> ?a ` ?X \<Longrightarrow> m' c = m c" unfolding m' by (rule fold_cell_writers_miss [OF inj _ d s]) (use rd in blast)+
qed


text \<open>One round of the loop over \<open>colid\<close>.\<close>

lemma tc_load_ok:
  fixes gs :: "'v tv_state"
  assumes L: "0 < nd_local_range it" and xs: "distinct xs" "set xs = {..<nd_local_range it}"
  shows "\<exists>f. fold (tc_load t it colid) xs gs = gs\<lparr>gs_local := f\<rparr> \<and>
    (\<forall>c < tc_blqSz t it colid. f c = tv_x t (gs_mem gs) (colid + c))"
proof -
  let ?L = "nd_local_range it" and ?n = "tc_blqSz t it colid"
  have cols: "set (strided l ?n ?L) = {c. c < ?n \<and> c mod ?L = l}" if "l < ?L" for l
    using that L by (auto simp: set_strided intro: mod_less_eq_dividend)
  obtain f where f: "fold (tc_load t it colid) xs gs = gs\<lparr>gs_local := f\<rparr>"
    and hit: "\<And>l c. l < ?L \<Longrightarrow> c \<in> {c. c < ?n \<and> c mod ?L = l} \<Longrightarrow> f c = tv_x t (gs_mem gs) (colid + c)"
    by (rule phase_local_cells [where upd = "tc_load t it colid" and W = "\<lambda>l. {c. c < ?n \<and> c mod ?L = l}" and n = ?L and
          step = "\<lambda>l m f. fold (\<lambda>col f. f(col := tv_x t m (colid + col))) (strided l ?n ?L) f" and
          v = "\<lambda>l m c. tv_x t m (colid + c)" and gs = gs, OF _ _ _ _ xs])
      (auto simp: tc_load_def fold_store cols)
  show ?thesis using f hit L by auto
qed

lemma tc_round:
  fixes gs :: "'v::semiring_0 tv_state" and colid :: nat
  assumes wf: "tv_wf b t" and L: "0 < nd_local_range it" and g: "tc_idWFC t it < tv_nWG_col t"
    and xs: "distinct xs" "set xs = {..<nd_local_range it}" and ys: "distinct ys" "set ys = {..<nd_local_range it}"
    and m: "\<And>c. fst c \<noteq> b \<Longrightarrow> gs_mem gs c = m0 c"
  defines "m' \<equiv> gs_mem (fold (tc_product t it colid) ys (fold (tc_load t it colid) xs gs))"
  shows "i \<in> tc_part t it \<Longrightarrow> m' (maddr (tv_lhs t) i (tc_idWFC t it)) =
      (if colid = tc_frs_col t it then 0 else gs_mem gs (maddr (tv_lhs t) i (tc_idWFC t it)))
      + sum (tv_term t m0 i) {colid..<colid + tc_blqSz t it colid}"
    and "c \<notin> (\<lambda>i. maddr (tv_lhs t) i (tc_idWFC t it)) ` tc_part t it \<Longrightarrow> m' c = gs_mem gs c"
proof -
  let ?a = "\<lambda>i. maddr (tv_lhs t) i (tc_idWFC t it)" and ?n = "tc_blqSz t it colid"
  obtain f where f: "fold (tc_load t it colid) xs gs = gs\<lparr>gs_local := f\<rparr>"
    and sh: "\<And>c. c < ?n \<Longrightarrow> f c = tv_x t (gs_mem gs) (colid + c)"
    using tc_load_ok [OF L xs] by blast
  have x: "tv_x t (gs_mem gs) = tv_x t m0" by (rule tv_reads [OF wf m])
  have prod: "gs_mem (fold (tc_product t it colid) zs s)
      = fold (\<lambda>l. fold (\<lambda>i m. tv_store t i (tc_idWFC t it) (tc_value t it colid (gs_local s) i m) m) (tc_rows t it l)) zs (gs_mem s)"
    and "gs_local (fold (tc_product t it colid) zs s) = gs_local s" for zs s
    by (induction zs arbitrary: s) (simp_all add: tc_product_def)
  have val: "tc_value t it colid f i m1 = (if colid = tc_frs_col t it then 0 else m1 (?a i))
      + sum (tv_term t m0 i) {colid..<colid + ?n}" if "\<And>c. fst c \<noteq> b \<Longrightarrow> m1 c = m0 c" for i m1
  proof -
    have rd: "tv_a t m1 = tv_a t m0" "tv_x t m1 = tv_x t m0" using tv_reads(1,2) [OF wf, of m1 m0] that by blast+
    have diag: "(if tv_Diag t \<and> tv_Unit t \<and> colid \<le> i \<and> i < colid + ?n then tv_x t m0 i else 0)
        = (\<Sum>j\<in>{colid..<colid + ?n}. if tv_Diag t \<and> tv_Unit t \<and> i = j then tv_x t m0 j else 0)"
      by (cases "tv_Diag t"; cases "tv_Unit t") (simp_all add: sum.delta)
    have "sum_list (map (\<lambda>k. if tv_full t \<or> tv_selects t i (colid + k)
          then ProductOperator (tv_a t m0 i (colid + k)) (f k) else 0) [0..<?n])
        = (\<Sum>k<?n. if tv_full t \<or> tv_selects t i (colid + k) then tv_a t m0 i (colid + k) * tv_x t m0 (colid + k) else 0)"
      using sh x by (simp add: sum_list_upt ProductOperator_def atLeast0LessThan cong: if_cong)
    also have "\<dots> = (\<Sum>j\<in>{colid..<colid + ?n}. if tv_full t \<or> tv_selects t i j then tv_a t m0 i j * tv_x t m0 j else 0)"
      using sum.shift_bounds_nat_ivl [of "\<lambda>j. if tv_full t \<or> tv_selects t i j then tv_a t m0 i j * tv_x t m0 j else 0" 0 colid ?n]
      by (simp add: atLeast0LessThan add.commute cong: if_cong)
    finally have list: "sum_list (map (\<lambda>k. if tv_full t \<or> tv_selects t i (colid + k)
          then ProductOperator (tv_a t m0 i (colid + k)) (f k) else 0) [0..<?n])
        = (\<Sum>j\<in>{colid..<colid + ?n}. if tv_full t \<or> tv_selects t i j then tv_a t m0 i j * tv_x t m0 j else 0)" .
    have "tc_value t it colid f i m1 = (if colid = tc_frs_col t it then 0 else m1 (?a i))
        + (if tv_Diag t \<and> tv_Unit t \<and> colid \<le> i \<and> i < colid + ?n then tv_x t m0 i else 0)
        + sum_list (map (\<lambda>k. if tv_full t \<or> tv_selects t i (colid + k)
            then ProductOperator (tv_a t m0 i (colid + k)) (f k) else 0) [0..<?n])"
      unfolding tc_value_def Let_def foldl_terms AdditionIdentity_def by (simp only: rd)
    then show ?thesis unfolding diag list by (simp add: tv_term_def sum.distrib add_ac)
  qed
  have rd: "tc_value t it colid f i m1 = tc_value t it colid f i m2"
    if "\<And>c. fst c \<noteq> b \<or> c = ?a i \<Longrightarrow> m1 c = m2 c" for i m1 m2
    using tv_reads [OF wf, of m1 m2] that by (simp add: tc_value_def cong: if_cong)
  note phase = tc_row_phase [OF wf L g ys, where v = "tc_value t it colid f" and m = "gs_mem gs"]
  have m': "m' = fold (\<lambda>l. fold (\<lambda>i m. tv_store t i (tc_idWFC t it) (tc_value t it colid f i m) m) (tc_rows t it l)) ys (gs_mem gs)"
    by (simp add: m'_def f prod)
  show "i \<in> tc_part t it \<Longrightarrow> m' (?a i) = (if colid = tc_frs_col t it then 0 else gs_mem gs (?a i))
      + sum (tv_term t m0 i) {colid..<colid + ?n}"
    unfolding m' by (subst phase(1)) (use rd val [of "gs_mem gs"] m in blast)+
  show "c \<notin> ?a ` tc_part t it \<Longrightarrow> m' c = gs_mem gs c"
    unfolding m' by (rule phase(2)) (use rd in blast)+
qed


lemma tc_rounds:
  fixes gs :: "'v::semiring_0 tv_state"
  assumes wf: "tv_wf b t" and L: "0 < nd_local_range it" and g: "tc_idWFC t it < tv_nWG_col t"
    and ord: "\<And>k. distinct (ord k)" "\<And>k. set (ord k) = {..<nd_local_range it}"
    and "0 < s" "s = tv_local_memory_size t" "lst = tc_lst_col t it"
    and "\<forall>d. d \<notin> (\<lambda>i. maddr (tv_lhs t) i (tc_idWFC t it)) ` tc_part t it \<longrightarrow> gs_mem gs d = m0 d"
    and "\<forall>i \<in> tc_part t it. c \<noteq> tc_frs_col t it \<longrightarrow>
      gs_mem gs (maddr (tv_lhs t) i (tc_idWFC t it)) = sum (tv_term t m0 i) {tc_frs_col t it..<c}"
    and "tc_frs_col t it \<le> c" "c < lst"
  shows "(\<forall>i \<in> tc_part t it. gs_mem (run_phases ord k (concat (map (\<lambda>c. [tc_load t it c, tc_product t it c]) (strided c lst s))) gs)
      (maddr (tv_lhs t) i (tc_idWFC t it)) = sum (tv_term t m0 i) {tc_frs_col t it..<lst}) \<and>
    (\<forall>d. d \<notin> (\<lambda>i. maddr (tv_lhs t) i (tc_idWFC t it)) ` tc_part t it \<longrightarrow>
      gs_mem (run_phases ord k (concat (map (\<lambda>c. [tc_load t it c, tc_product t it c]) (strided c lst s))) gs) d = m0 d)"
  using assms(6-)
proof (induction c lst s arbitrary: gs k rule: strided.induct)
  case (1 c lst s)
  let ?a = "\<lambda>i. maddr (tv_lhs t) i (tc_idWFC t it)"
  define gs' where "gs' = fold (tc_product t it c) (ord (Suc k)) (fold (tc_load t it c) (ord k) gs)"
  have out: "gs_mem gs d = m0 d" if "fst d \<noteq> b" for d
  proof -
    have "d \<notin> ?a ` tc_part t it" using that wf by (auto simp: tv_wf_def)
    then show ?thesis using "1.prems"(4) by blast
  qed
  note round = tc_round [OF wf L g ord(1) [of k] ord(2) [of k] ord(1) [of "Suc k"] ord(2) [of "Suc k"],
      where gs = gs and colid = c and ?m0.0 = m0, folded gs'_def]
  have frame: "\<forall>d. d \<notin> ?a ` tc_part t it \<longrightarrow> gs_mem gs' d = m0 d"
    using round(2) out "1.prems"(4) by auto
  have blk: "tc_blqSz t it c = min s (lst - c)" using "1.prems" by (simp add: tc_blqSz_def)
  have hit: "gs_mem gs' (?a i) = sum (tv_term t m0 i) {tc_frs_col t it..<c + min s (lst - c)}" if i: "i \<in> tc_part t it" for i
  proof -
    have "gs_mem gs' (?a i) = (if c = tc_frs_col t it then 0 else gs_mem gs (?a i)) + sum (tv_term t m0 i) {c..<c + min s (lst - c)}"
      using round(1) [OF out i] by (simp add: blk)
    also have "\<dots> = sum (tv_term t m0 i) {tc_frs_col t it..<c} + sum (tv_term t m0 i) {c..<c + min s (lst - c)}"
      using "1.prems"(5) i by auto
    also have "\<dots> = sum (tv_term t m0 i) {tc_frs_col t it..<c + min s (lst - c)}"
      using "1.prems"(6) by (intro sum.atLeastLessThan_concat) simp_all
    finally show ?thesis .
  qed
  have run: "run_phases ord k (concat (map (\<lambda>c. [tc_load t it c, tc_product t it c]) (strided c lst s))) gs
      = run_phases ord (Suc (Suc k)) (concat (map (\<lambda>c. [tc_load t it c, tc_product t it c]) (strided (c + s) lst s))) gs'"
    using "1.prems" by (simp add: strided_step gs'_def)
  show ?case
  proof (cases "c + s < lst")
    case True
    have h: "\<forall>i \<in> tc_part t it. c + s \<noteq> tc_frs_col t it \<longrightarrow> gs_mem gs' (?a i) = sum (tv_term t m0 i) {tc_frs_col t it..<c + s}"
      using hit True by auto
    show ?thesis unfolding run
      by (rule "1.IH" [OF _ _ _ _ frame h]) (use "1.prems" True in auto)
  next
    case False
    then have "c + min s (lst - c) = lst" using "1.prems"(7) by auto
    then show ?thesis unfolding run using False hit frame by auto
  qed
qed

lemma tc_group:
  fixes m :: "'v::semiring_0 mem" and k :: nat
  assumes wf: "tv_wf b t" and L: "nd_local_range it = L" "0 < L" and g: "tc_idWFC t it < tv_nWG_col t"
    and r: "is_run r" and s: "0 < tv_local_memory_size t" and ne: "tc_frs_col t it < mv_sizeC (tv_matrix t)"
  defines "m' \<equiv> run_group r k L () (tc_phases t it) m"
  shows "i \<in> tc_part t it \<Longrightarrow> m' (maddr (tv_lhs t) i (tc_idWFC t it)) = sum (tv_term t m i) {tc_frs_col t it..<tc_lst_col t it}"
    and "d \<notin> (\<lambda>i. maddr (tv_lhs t) i (tc_idWFC t it)) ` tc_part t it \<Longrightarrow> m' d = m d"
proof -
  let ?a = "\<lambda>i. maddr (tv_lhs t) i (tc_idWFC t it)"
  let ?ord = "\<lambda>n. item_order r k n L"
  have L': "0 < nd_local_range it" using L by simp
  have ord: "distinct (?ord n)" "set (?ord n) = {..<nd_local_range it}" for n
    using run_items [OF r] L by simp_all
  have lt: "tc_frs_col t it < tc_lst_col t it" using ne tc_dims(4) [OF wf L'] by (simp add: tc_lst_col_def)
  have "(\<forall>i \<in> tc_part t it. m' (?a i) = sum (tv_term t m i) {tc_frs_col t it..<tc_lst_col t it}) \<and>
    (\<forall>d. d \<notin> ?a ` tc_part t it \<longrightarrow> m' d = m d)"
  proof (cases "tc_skip t it")
    case True
    have zero: "tv_term t m i j = 0" if "i \<in> tc_part t it" "tc_frs_col t it \<le> j" "j < tc_lst_col t it" for i j
    proof -
      have i: "tc_idWFR t it * tc_dimWFR t it \<le> i" "i < tc_idWFR t it * tc_dimWFR t it + tc_dimWFR t it"
        using that(1) block_iff [OF tc_dims(2) [OF wf L']] by (auto simp: tc_part_def)
      show ?thesis
        using True that(2,3) i unfolding tc_skip_def Let_def tv_term_def tv_full_def tv_selects_def tv_nd_def
        by (auto split: if_splits)
    qed
    have zeros: "tc_zeros t it = (\<lambda>l. fold (\<lambda>i m. tv_store t i (tc_idWFC t it) (0 :: 'v) m) (tc_rows t it l))"
      by (simp add: fun_eq_iff tc_zeros_def AdditionIdentity_def)
    have "fold (\<lambda>l gs. gs\<lparr>gs_mem := tc_zeros t it l (gs_mem gs)\<rparr>) ys gs = gs\<lparr>gs_mem := fold (tc_zeros t it) ys (gs_mem gs)\<rparr>"
      for ys and gs :: "'v tv_state" by (induction ys arbitrary: gs) simp_all
    then have m': "m' = fold (\<lambda>l. fold (\<lambda>i m. tv_store t i (tc_idWFC t it) 0 m) (tc_rows t it l)) (?ord 0) m"
      using True by (simp add: m'_def run_group_def tc_phases_def zeros)
    show ?thesis
      unfolding m' using tc_row_phase [OF wf L' g ord, where v = "\<lambda>_ _. 0" and m = m] zero by simp
  next
    case False
    have "(\<forall>i \<in> tc_part t it. gs_mem (run_phases ?ord 0 (concat (map (\<lambda>c. [tc_load t it c, tc_product t it c])
        (strided (tc_frs_col t it) (tc_lst_col t it) (tv_local_memory_size t))))
        \<lparr>gs_mem = m, gs_local = local_init r k, gs_priv = \<lambda>_. ()\<rparr>) (?a i) = sum (tv_term t m i) {tc_frs_col t it..<tc_lst_col t it}) \<and>
      (\<forall>d. d \<notin> ?a ` tc_part t it \<longrightarrow> gs_mem (run_phases ?ord 0 (concat (map (\<lambda>c. [tc_load t it c, tc_product t it c])
        (strided (tc_frs_col t it) (tc_lst_col t it) (tv_local_memory_size t))))
        \<lparr>gs_mem = m, gs_local = local_init r k, gs_priv = \<lambda>_. ()\<rparr>) d = m d)"
      by (rule tc_rounds [OF wf L' g ord s refl refl]) (use lt in simp_all)
    then show ?thesis using False by (simp add: m'_def run_group_def tc_phases_def)
  qed
  then show "i \<in> tc_part t it \<Longrightarrow> m' (?a i) = sum (tv_term t m i) {tc_frs_col t it..<tc_lst_col t it}"
    "d \<notin> ?a ` tc_part t it \<Longrightarrow> m' d = m d" by blast+
qed


lemma tc_launch:
  fixes m :: "'v::semiring_0 mem"
  assumes wf: "tv_wf b t" and L: "0 < L" and r: "is_run r" and s: "0 < tv_local_memory_size t"
    and ne: "(tv_nWG_col t - 1) * tc_colSz t < mv_sizeC (tv_matrix t)"
  defines "m' \<equiv> execute_tree_local r () (tc_phases t) L (L * tv_nWG_row t * tv_nWG_col t) m"
  shows "i < mv_sizeR (tv_matrix t) \<Longrightarrow>
      (\<Sum>g<tv_nWG_col t. m' (maddr (tv_lhs t) i g)) = (\<Sum>j<mv_sizeC (tv_matrix t). tv_term t m i j)"
    and "fst d \<noteq> b \<Longrightarrow> m' d = m d"
proof -
  define G where "G = L * tv_nWG_row t * tv_nWG_col t"
  have pos: "0 < tv_nWG_row t" "0 < tv_nWG_col t" using wf by (simp_all add: tv_wf_def)
  have G: "G div L = tv_nWG_row t * tv_nWG_col t" using L by (simp add: G_def mult.assoc)
  have ok: "nd_range_ok G L" using L pos by (simp add: nd_range_ok_def G_def)
  define it where "it = (\<lambda>k. item_of L G (k * L))"
  have it: "nd_local_range (it k) = L" "nd_group (it k) = k" for k using L by (simp_all add: it_def)
  define D where "D = tc_dimWFR t (it 0)"
  have D: "tc_dimWFR t (it k) = D" for k by (simp add: D_def tc_dimWFR_def it)
  have ids: "tc_idWFR t (it k) = k mod tv_nWG_row t" "tc_idWFC t (it k) = k div tv_nWG_row t" for k
    by (simp_all add: tc_idWFR_def tc_idWFC_def it)
  note dims = tc_dims [OF wf, of "it 0", unfolded it, OF L, folded D_def]
  have g: "tc_idWFC t (it k) < tv_nWG_col t" if "k < G div L" for k
    using that pos by (simp add: ids G div_less_iff_less_mult mult.commute)
  have ne': "tc_frs_col t (it k) < mv_sizeC (tv_matrix t)" if "k < G div L" for k
  proof -
    have "tc_idWFC t (it k) * tc_colSz t \<le> (tv_nWG_col t - 1) * tc_colSz t"
      using g [OF that] by (intro mult_le_mono1) simp
    then show ?thesis unfolding tc_frs_col_def by (rule le_less_trans [OF _ ne])
  qed
  let ?a = "\<lambda>k i. maddr (tv_lhs t) i (tc_idWFC t (it k))"
  let ?W = "\<lambda>k. ?a k ` tc_part t (it k)"
  have row: "i < mv_sizeR (tv_matrix t)" if "i \<in> tc_part t (it k)" for i k using that by (simp add: tc_part_def)
  have disj: "?W k \<inter> ?W l = {}" if "k < G div L" "l < G div L" "k \<noteq> l" for k l
  proof (rule ccontr)
    assume "?W k \<inter> ?W l \<noteq> {}"
    then obtain i j where ij: "i \<in> tc_part t (it k)" "j \<in> tc_part t (it l)" "?a k i = ?a l j" by blast
    have "i = j \<and> tc_idWFC t (it k) = tc_idWFC t (it l)"
      by (rule tv_out_inj [OF wf g g _ _ ij(3)]) (use that row ij in auto)
    then have "k div tv_nWG_row t = l div tv_nWG_row t" "k mod tv_nWG_row t = l mod tv_nWG_row t"
      using ij(1,2) by (auto simp: ids tc_part_def D)
    then show False using that(3) by (metis div_mult_mod_eq)
  qed
  define val where "val = (\<lambda>k c. sum (tv_term t m (SOME i. i \<in> tc_part t (it k) \<and> c = ?a k i))
      {tc_frs_col t (it k)..<tc_lst_col t (it k)})"
  have pick: "(SOME j. j \<in> tc_part t (it k) \<and> ?a k i = ?a k j) = i" if "k < G div L" "i \<in> tc_part t (it k)" for k i
    by (rule some_equality) (use that row tv_out_inj [OF wf g g] in auto)
  have frame: "run_group r k L () (tc_phases t (it k)) s c = s c" if "k < G div L" "c \<notin> ?W k" for k s c
    by (rule tc_group(2) [OF wf it(1) L g r assms(4) ne' that(2)]) (use that in auto)
  have vals: "run_group r k L () (tc_phases t (it k)) s' c = val k c"
    if "k < G div L" "c \<in> ?W k" "\<And>d. d \<notin> {b} \<times> UNIV \<Longrightarrow> s' d = m d" for k s' c
  proof -
    from that(2) obtain i where i: "i \<in> tc_part t (it k)" "c = ?a k i" by blast
    have eq: "tv_term t s' = tv_term t m" by (rule tv_reads(3) [OF wf]) (use that(3) in auto)
    have "run_group r k L () (tc_phases t (it k)) s' (?a k i)
        = sum (tv_term t s' i) {tc_frs_col t (it k)..<tc_lst_col t (it k)}"
      by (rule tc_group(1) [OF wf it(1) L g r assms(4) ne' i(1)]) (use that in auto)
    then show ?thesis using pick [OF that(1) i(1)] by (simp add: val_def i eq)
  qed
  have sub: "?W k \<subseteq> {b} \<times> UNIV" for k using wf by (auto simp: tv_wf_def maddr_eq)
  have ik: "item_of L G (k * L) = it k" for k by (simp add: it_def)
  note blind = execute_tree_local_blind [OF ok r, where W = ?W and U = "{b} \<times> UNIV" and phases = "tc_phases t"
      and ?p0.0 = "()" and s = m and stored = val, unfolded ik]
  have run_hit: "m' c = val k c" if "k < G div L" "c \<in> ?W k" for k c
    unfolding m'_def G_def [symmetric]
    by (rule blind(1) [OF _ _ _ _ that])
      ((rule frame, assumption+)[], (rule vals, assumption+)[], (rule disj, assumption+)[], rule sub)
  have run_miss: "m' c = m c" if c: "\<And>k. k < G div L \<Longrightarrow> c \<notin> ?W k" for c
    unfolding m'_def G_def [symmetric]
  proof (rule blind(2))
    show "run_group r g L () (tc_phases t (it g)) s c = s c" if "g < G div L" "c \<notin> ?W g" for g s c
      by (rule frame [OF that])
    show "run_group r g L () (tc_phases t (it g)) s' c = val g c"
      if "g < G div L" "c \<in> ?W g" "\<And>d. d \<notin> {b} \<times> UNIV \<Longrightarrow> s' d = m d" for g s' c
      by (rule vals [OF that(1,2)]) (rule that(3))
    show "?W g \<inter> ?W h = {}" if "g < G div L" "h < G div L" "g \<noteq> h" for g h by (rule disj [OF that])
  qed (rule sub, rule c)
  show "m' d = m d" if "fst d \<noteq> b"
  proof (rule run_miss)
    show "d \<notin> ?W k" if "k < G div L" for k using sub [of k] \<open>fst d \<noteq> b\<close> by auto
  qed
  show "(\<Sum>g<tv_nWG_col t. m' (maddr (tv_lhs t) i g)) = (\<Sum>j<mv_sizeC (tv_matrix t). tv_term t m i j)"
    if i: "i < mv_sizeR (tv_matrix t)" for i
  proof -
    have "m' (maddr (tv_lhs t) i g) = sum (tv_term t m i) {g * tc_colSz t..<min (mv_sizeC (tv_matrix t)) (g * tc_colSz t + tc_colSz t)}"
      if gc: "g < tv_nWG_col t" for g
    proof -
      define k where "k = g * tv_nWG_row t + i div D"
      have iD: "i div D < tv_nWG_row t"
        using i dims(2,3) by (simp add: div_less_iff_less_mult less_le_trans)
      then have k: "k div tv_nWG_row t = g" "k mod tv_nWG_row t = i div D" by (simp_all add: k_def)
      have "k < Suc g * tv_nWG_row t" using iD by (simp add: k_def)
      also have "\<dots> \<le> tv_nWG_col t * tv_nWG_row t" using gc by (intro mult_le_mono1) simp
      finally have kG: "k < G div L" by (simp add: G mult.commute)
      have part: "i \<in> tc_part t (it k)" using i by (simp add: tc_part_def D ids k)
      have "m' (?a k i) = val k (?a k i)" by (rule run_hit [OF kG]) (use part in blast)
      also have "\<dots> = sum (tv_term t m i) {tc_frs_col t (it k)..<tc_lst_col t (it k)}"
        by (simp add: val_def pick [OF kG part])
      finally show ?thesis by (simp add: ids k tc_frs_col_def tc_lst_col_def)
    qed
    then have "(\<Sum>g<tv_nWG_col t. m' (maddr (tv_lhs t) i g))
        = (\<Sum>g<tv_nWG_col t. sum (tv_term t m i) {g * tc_colSz t..<min (mv_sizeC (tv_matrix t)) (g * tc_colSz t + tc_colSz t)})"
      by simp
    also have "\<dots> = (\<Sum>j<mv_sizeC (tv_matrix t). tv_term t m i j)"
      by (rule sum_consecutive_blocks [OF dims(5)])
    finally show ?thesis .
  qed
qed


section \<open>GemvRow: one row per group\<close>

text \<open>The launches of the interface: one column of groups, one row per group, and local memory for one
  partial result per item.\<close>

definition tr_single :: "nat \<Rightarrow> GemvRow \<Rightarrow> bool" where
  "tr_single L t \<longleftrightarrow> tv_interLoop t = 1 \<and> tv_nWG_col t = 1 \<and> tv_nWG_row t = mv_sizeR (tv_matrix t) \<and>
     tv_local_memory_size t = L \<and> (\<exists>p. L = 2 ^ p)"

lemma tr_dims:
  assumes "tv_wf b t" "tr_single L t" "nd_local_range it = L" "nd_group it = g" "g < mv_sizeR (tv_matrix t)"
  shows "tr_idWFC t it = 0" "tr_frs_row t it = g" "tr_lst_row t it = Suc g" "tr_shrSz t it = 1" "tr_blqSz t it g = 1"
    and "mv_sizeC (tv_matrix t) \<le> tr_dimWFC t it" "0 < L"
    and "l < L \<Longrightarrow> set (strided (tr_frs_col t it l) (tr_lst_col t it l) L) = {j. j < mv_sizeC (tv_matrix t) \<and> j mod L = l}"
    and "tr_frs_col t it l = l"
proof -
  show L: "0 < L" using assms(2) by (auto simp: tr_single_def)
  have pos: "0 < mv_sizeR (tv_matrix t)" using assms(1) by (simp add: tv_wf_def)
  show "tr_idWFC t it = 0" using assms by (simp add: tr_idWFC_def tr_single_def)
  have "(mv_sizeR (tv_matrix t) + mv_sizeR (tv_matrix t) - 1) div mv_sizeR (tv_matrix t) = 1"
    by (rule div_nat_eqI) (use pos in auto)
  then have "tr_rowSz t = 1" using assms(2) by (simp add: tr_rowSz_def tr_single_def)
  then show frs: "tr_frs_row t it = g" "tr_lst_row t it = Suc g"
    using assms pos by (simp_all add: tr_frs_row_def tr_lst_row_def tr_idWFR_def tr_single_def)
  show "tr_shrSz t it = 1" using assms L by (simp add: tr_shrSz_def tr_single_def)
  then show "tr_blqSz t it g = 1" by (simp add: tr_blqSz_def frs)
  show C: "mv_sizeC (tv_matrix t) \<le> tr_dimWFC t it"
    using cdiv_covers [OF L, of "mv_sizeC (tv_matrix t)"] assms
    by (simp add: tr_dimWFC_def cdiv_def Let_def tr_single_def)
  show f: "tr_frs_col t it l = l" for l
    using assms by (simp add: tr_frs_col_def tr_idWFC_def tr_single_def)
  show "set (strided (tr_frs_col t it l) (tr_lst_col t it l) L) = {j. j < mv_sizeC (tv_matrix t) \<and> j mod L = l}" if "l < L"
    using that L C by (auto simp: f tr_lst_col_def set_strided intro: mod_less_eq_dividend)
qed

lemma tr_partial_sum:
  fixes m :: "'v::semiring_0 mem"
  assumes "tv_wf b t" "tr_single L t" "nd_local_range it = L" "nd_group it = g" "g < mv_sizeR (tv_matrix t)" "l < L"
  shows "tr_partial t it l i m = sum (tv_term t m i) {j. j < mv_sizeC (tv_matrix t) \<and> j mod L = l}"
proof -
  note dims = tr_dims [OF assms(1-5)]
  let ?J = "{j. j < mv_sizeC (tv_matrix t) \<and> j mod L = l}"
  let ?js = "strided (tr_frs_col t it l) (tr_lst_col t it l) L"
  have fin: "finite ?J" by simp
  have J: "set ?js = ?J" by (rule dims(8) [OF assms(6)])
  have "i \<in> set ?js \<longleftrightarrow> l \<le> i \<and> i < tr_lst_col t it l \<and> (i - l) mod L = 0"
    using dims(7) assms(6) mod_eq_dvd_iff_nat [of l i L] by (auto simp: set_strided dims(9) mod_eq_0_iff_dvd)
  then have diag: "(if tv_Diag t \<and> tv_Unit t \<and> tr_frs_col t it l \<le> i \<and> i < tr_lst_col t it l \<and>
          (i - tr_frs_col t it l) mod L = 0 then tv_x t m i else 0)
      = (\<Sum>j\<in>?J. if tv_Diag t \<and> tv_Unit t \<and> i = j then tv_x t m j else 0)"
    unfolding J [symmetric] dims(9) by (cases "tv_Diag t"; cases "tv_Unit t") (simp_all add: sum.delta)
  have list: "sum_list (map (\<lambda>k. if tv_full t \<or> tv_selects t i k then ProductOperator (tv_a t m i k) (tv_x t m k) else 0) ?js)
      = (\<Sum>j\<in>?J. if tv_full t \<or> tv_selects t i j then tv_a t m i j * tv_x t m j else 0)"
    unfolding J [symmetric] by (simp add: sum_list_distinct_conv_sum_set ProductOperator_def cong: if_cong)
  have one: "tv_interLoop t = 1" using assms(2) by (simp add: tr_single_def)
  show ?thesis
    unfolding tr_partial_def Let_def if_P [OF one] foldl_terms assms(3) diag list
    by (simp add: tv_term_def sum.distrib add_ac)
qed

lemma tr_group:
  fixes m :: "'v::semiring_0 mem" and g :: nat
  assumes wf: "tv_wf b t" and t: "tr_single L t" and it: "nd_local_range it = L" "nd_group it = g"
    and g: "g < mv_sizeR (tv_matrix t)" and r: "is_run r"
  shows "run_group r g L () (tr_phases t it) m = m(maddr (tv_lhs t) g 0 := sum (tv_term t m g) {..<mv_sizeC (tv_matrix t)})"
proof -
  note dims = tr_dims [OF wf t it g]
  let ?C = "mv_sizeC (tv_matrix t)"
  let ?ord = "\<lambda>n. item_order r g n L"
  have ord: "distinct (?ord n)" "set (?ord n) = {..<L}" for n using run_items [OF r] by simp_all
  have first: "filter (\<lambda>l. l = 0) (?ord n) = [0]" for n
    using ord [of n] dims(7) by (intro filter_single) auto
  have once: "fold (\<lambda>l gs. if l = 0 then f gs else gs) (?ord n) gs = f gs" for f and gs :: "'v tv_state" and n
    using fold_guarded [of "\<lambda>l. l = 0" "\<lambda>_. f" "?ord n" gs] first by simp
  show ?thesis
  proof (cases "tr_skip t it")
    case True
    have "tv_term t m g j = 0" if "j < ?C" for j
      using True that dims(6) unfolding tr_skip_def Let_def dims tv_term_def tv_full_def tv_selects_def tv_nd_def
      by (auto split: if_splits)
    then show ?thesis
      using True by (simp add: run_group_def tr_phases_def once dims AdditionIdentity_def tv_store_def)
  next
    case False
    obtain p where p: "L = 2 ^ p" using t by (auto simp: tr_single_def)
    let ?T = "undefined\<lparr>ar_operator := AddOperator\<rparr> :: ('v mem, 'v) AssignReduction"
    define gs where "gs = \<lparr>gs_mem = m, gs_local = local_init r g, gs_priv = \<lambda>_. ()\<rparr>"
    define scr where "scr = (\<lambda>l. if l < L then tr_partial t it l g m else local_init r g l)"
    have step: "tr_tree_step t it g off = ar_tree_step ?T off" for off
      by (simp add: tr_tree_step_def ar_tree_step_def dims fun_eq_iff)
    have fill: "fold (tr_load t it g) (?ord 0) gs = gs\<lparr>gs_local := scr\<rparr>"
    proof -
      have "fold (tr_load t it g) (?ord 0) gs
          = gs\<lparr>gs_local := (\<lambda>l. if l < L \<and> True then tr_partial t it l g (gs_mem gs) else gs_local gs l)\<rparr>"
        by (rule phase_local [OF _ _ ord]) (auto simp: tr_load_def dims)
      then show ?thesis by (simp add: scr_def gs_def cong: if_cong)
    qed
    have phases: "tr_phases t it = tr_load t it g # map (ar_tree_step ?T) (halvings (L div 2)) @ [tr_write t it g]"
    proof -
      have "strided (tr_frs_row t it) (tr_lst_row t it) (tr_shrSz t it) = [g]" by (simp add: dims)
      then show ?thesis using False by (simp add: tr_phases_def it step)
    qed
    have "\<forall>k \<in> set (halvings (L div 2)). k \<le> L" using halvings_le by fastforce
    from run_tree_phases [OF r this, where t = ?T]
    have tree: "run_phases ?ord n (map (ar_tree_step ?T) (halvings (L div 2))) s
        = s\<lparr>gs_local := fold (tree_step AddOperator) (halvings (L div 2)) (gs_local s)\<rparr>" for n s
      by simp
    have put: "fold (tr_write t it g) (?ord n) s = s\<lparr>gs_mem := (gs_mem s)(maddr (tv_lhs t) g 0 := gs_local s 0)\<rparr>" for n and s :: "'v tv_state"
      unfolding tr_write_def once by (simp add: dims tv_store_def)
    have "fold (tree_step AddOperator) (halvings (L div 2)) scr 0 = red AddOperator 0 (map scr [0..<L])"
      unfolding p by (rule add_red.tree_red) (simp add: folded_in_def AddOperator_def)
    also have "\<dots> = (\<Sum>l<L. scr l)"
      using foldl_plus_sum_list [of scr 0 "[0..<L]"]
      by (simp add: red_def foldl_map AddOperator_def sum_list_upt atLeast0LessThan)
    also have "\<dots> = (\<Sum>l<L. sum (tv_term t m g) {j. j < ?C \<and> j mod L = l})"
      by (intro sum.cong) (simp_all add: scr_def tr_partial_sum [OF wf t it g])
    also have "\<dots> = sum (tv_term t m g) {..<?C}"
      using sum.group [of "{..<?C}" "{..<L}" "\<lambda>j. j mod L" "tv_term t m g"] dims(7)
      by (auto simp: image_subset_iff)
    finally have val: "fold (tree_step AddOperator) (halvings (L div 2)) scr 0 = sum (tv_term t m g) {..<?C}" .
    show ?thesis
      by (simp add: run_group_def phases run_phases_append gs_def [symmetric] fill tree put val) (simp add: gs_def)
  qed
qed

lemma tr_launch:
  fixes m :: "'v::semiring_0 mem"
  assumes wf: "tv_wf b t" and t: "tr_single L t" and r: "is_run r"
  defines "m' \<equiv> execute_tree_local r () (tr_phases t) L (L * tv_nWG_row t * tv_nWG_col t) m"
  shows "i < mv_sizeR (tv_matrix t) \<Longrightarrow> m' (maddr (tv_lhs t) i 0) = (\<Sum>j<mv_sizeC (tv_matrix t). tv_term t m i j)"
    and "fst d \<noteq> b \<Longrightarrow> m' d = m d"
proof -
  let ?R = "mv_sizeR (tv_matrix t)" and ?a = "\<lambda>i. maddr (tv_lhs t) i 0"
  have n: "tv_nWG_row t = ?R" "tv_nWG_col t = 1" using t by (simp_all add: tr_single_def)
  have pos: "0 < ?R" using wf by (simp add: tv_wf_def)
  have L: "0 < L" using t by (auto simp: tr_single_def)
  define it where "it = (\<lambda>k. item_of L (L * ?R) (k * L))"
  have it: "nd_local_range (it k) = L" "nd_group (it k) = k" for k using L by (simp_all add: it_def)
  note group = tr_group [OF wf t it _ r]
  have ok: "nd_range_ok (L * ?R) L" using L pos by (simp add: nd_range_ok_def)
  have div: "L * ?R div L = ?R" using L by simp
  have b: "fst (?a i) = b" for i using wf by (simp add: tv_wf_def)
  have inj: "i = k" if "?a i = ?a k" "i < ?R" "k < ?R" for i k
    using tv_out_inj [OF wf, of 0 0 i k] that n by simp
  have m': "m' = execute_tree_local r () (tr_phases t) L (L * ?R) m" by (simp add: m'_def n)
  have frame: "run_group r g L () (tr_phases t (item_of L (L * ?R) (g * L))) s c = s c" if "g < ?R" "c \<notin> {?a g}" for g s c
    using group [of g s] that by (simp add: it_def)
  have vals: "run_group r g L () (tr_phases t (item_of L (L * ?R) (g * L))) s' c = sum (tv_term t m g) {..<mv_sizeC (tv_matrix t)}"
    if "g < ?R" "c \<in> {?a g}" "\<And>d. d \<notin> {b} \<times> UNIV \<Longrightarrow> s' d = m d" for g s' c
  proof -
    have "tv_term t s' = tv_term t m" by (rule tv_reads(3) [OF wf]) (use that(3) in auto)
    then show ?thesis using group [of g s'] that(1,2) by (simp add: it_def)
  qed
  have disj: "{?a g} \<inter> {?a h} = {}" if "g < ?R" "h < ?R" "g \<noteq> h" for g h using inj [of g h] that by auto
  have sub: "{?a g} \<subseteq> {b} \<times> UNIV" for g using b [of g] by (cases "?a g") auto
  note blind = execute_tree_local_blind [OF ok r, where W = "\<lambda>k. {?a k}" and U = "{b} \<times> UNIV" and phases = "tr_phases t"
      and ?p0.0 = "()" and s = m and stored = "\<lambda>k c. sum (tv_term t m k) {..<mv_sizeC (tv_matrix t)}", unfolded div]
  show "m' (?a i) = (\<Sum>j<mv_sizeC (tv_matrix t). tv_term t m i j)" if i: "i < ?R"
    unfolding m' by (rule blind(1) [OF _ _ _ _ i])
      ((rule frame, assumption+)[], (rule vals, assumption+)[], (rule disj, assumption+)[], rule sub, simp)
  show "m' d = m d" if d: "fst d \<noteq> b"
    unfolding m'
  proof (rule blind(2))
    show "run_group r g L () (tr_phases t (item_of L (L * ?R) (g * L))) s c = s c" if "g < ?R" "c \<notin> {?a g}" for g s c
      by (rule frame [OF that])
    show "run_group r g L () (tr_phases t (item_of L (L * ?R) (g * L))) s' c = sum (tv_term t m g) {..<mv_sizeC (tv_matrix t)}"
      if "g < ?R" "c \<in> {?a g}" "\<And>d. d \<notin> {b} \<times> UNIV \<Longrightarrow> s' d = m d" for g s' c
      by (rule vals [OF that(1,2)]) (rule that(3))
    show "{?a g} \<inter> {?a h} = {}" if "g < ?R" "h < ?R" "g \<noteq> h" for g h by (rule disj [OF that])
    show "d \<notin> {?a k}" for k using b [of k] d by auto
  qed (rule sub)
qed


section \<open>The launches of the interface\<close>

lemma temporary_row_matrix_wf:
  "0 < M \<Longrightarrow> 0 < N \<Longrightarrow> wf_matrix_view (make_matrix_view row_major (make_sycl_iterator_buffer b (M * N)) M N N)"
proof -
  assume pos: "0 < M" "0 < N"
  then obtain a c where "M = Suc a" "N = Suc c" by (metis gr0_implies_Suc)
  moreover have "0 < 1 + (int a + (int c + int a * int c))"
    by (intro add_pos_nonneg add_nonneg_nonneg mult_nonneg_nonneg) simp_all
  ultimately show ?thesis
    by (simp add: wf_matrix_view_def maddr_eq region_def is_col_major_def matrix_view_defs algebra_simps)
qed

lemma make_Gemv_Col_simps [simp]:
  "tv_lhs (make_Gemv_Col Lo D U un d A x nr nc k) = d" "tv_matrix (make_Gemv_Col Lo D U un d A x nr nc k) = A"
  "tv_vector (make_Gemv_Col Lo D U un d A x nr nc k) = x" "tv_nWG_row (make_Gemv_Col Lo D U un d A x nr nc k) = nr"
  "tv_nWG_col (make_Gemv_Col Lo D U un d A x nr nc k) = nc"
  "tv_local_memory_size (make_Gemv_Col Lo D U un d A x nr nc k) = k"
  "tv_Lower (make_Gemv_Col Lo D U un d A x nr nc k) = Lo" "tv_Diag (make_Gemv_Col Lo D U un d A x nr nc k) = D"
  "tv_Upper (make_Gemv_Col Lo D U un d A x nr nc k) = U" "tv_Unit (make_Gemv_Col Lo D U un d A x nr nc k) = un"
  by (simp_all add: make_Gemv_Col_def)

lemma make_Gemv_Row_simps [simp]:
  "tv_lhs (make_Gemv_Row il Lo D U un d A x nr nc k) = d" "tv_matrix (make_Gemv_Row il Lo D U un d A x nr nc k) = A"
  "tv_vector (make_Gemv_Row il Lo D U un d A x nr nc k) = x" "tv_nWG_row (make_Gemv_Row il Lo D U un d A x nr nc k) = nr"
  "tv_nWG_col (make_Gemv_Row il Lo D U un d A x nr nc k) = nc"
  "tv_local_memory_size (make_Gemv_Row il Lo D U un d A x nr nc k) = k"
  "tv_Lower (make_Gemv_Row il Lo D U un d A x nr nc k) = Lo" "tv_Diag (make_Gemv_Row il Lo D U un d A x nr nc k) = D"
  "tv_Upper (make_Gemv_Row il Lo D U un d A x nr nc k) = U" "tv_Unit (make_Gemv_Row il Lo D U un d A x nr nc k) = un"
  "tv_interLoop (make_Gemv_Row il Lo D U un d A x nr nc k) = il"
  by (simp_all add: make_Gemv_Row_def)

text \<open>The element of the triangular matrix that a kernel with these parameters multiplies by.\<close>

definition tri_elem :: "bool \<Rightarrow> bool \<Rightarrow> bool \<Rightarrow> bool \<Rightarrow> (nat \<Rightarrow> nat \<Rightarrow> 'v) \<Rightarrow> nat \<Rightarrow> nat \<Rightarrow> 'v::{zero, one}" where
  "tri_elem lower diag upper un a i j =
     (if i = j then (if diag then (if un then 1 else a i j) else 0)
      else if (lower \<and> j < i) \<or> (upper \<and> i < j) then a i j else 0)"

lemma tv_term_tri:
  fixes m :: "'v::semiring_1 mem"
  assumes "\<not> (tv_Lower t \<and> tv_Upper t)" "tv_Lower t \<or> tv_Upper t"
  shows "tv_term t m i j = tri_elem (tv_Lower t) (tv_Diag t) (tv_Upper t) (tv_Unit t) (tv_a t m) i j * tv_x t m j"
  using assms
  by (cases "tv_Lower t"; cases "tv_Upper t"; cases "tv_Diag t"; cases "tv_Unit t")
    (auto simp: tv_term_def tri_elem_def tv_full_def tv_selects_def tv_nd_def)

text \<open>Both kinds of launch leave partial results whose sum is a row of the product.\<close>

definition partial_products ::
  "nat \<Rightarrow> MatrixView \<Rightarrow> nat \<Rightarrow> (nat \<Rightarrow> 'v::semiring_1) \<Rightarrow> 'v mem \<Rightarrow> 'v mem \<Rightarrow> bool" where
  "partial_products b mat N v m m' \<longleftrightarrow>
     (\<forall>i < N. (\<Sum>g<mv_sizeC mat. m' (maddr mat i g)) = v i) \<and> (\<forall>c. fst c \<noteq> b \<longrightarrow> m' c = m c)"

lemma col_launch:
  fixes m :: "'v::semiring_1 mem" and lda N L b :: nat and Lo D U un :: bool
  assumes "is_run r" "0 < L" "0 < N" "vector_fits x incx N" "it_buffer A \<noteq> b" "it_buffer x \<noteq> b" "\<not> (Lo \<and> U)" "Lo \<or> U"
  defines "mat \<equiv> make_matrix_view row_major (make_sycl_iterator_buffer b (N * cdiv N L)) N (cdiv N L) (cdiv N L)"
  defines "t \<equiv> make_Gemv_Col Lo D U un mat (make_matrix_view col_major A N N lda) (make_vector_view x incx N)
      (cdiv N L) (cdiv N L) L"
  shows "partial_products b mat N
    (\<lambda>i. \<Sum>j<N. tri_elem Lo D U un (\<lambda>i j. m (mat_cell A lda i j)) i j * m (cell x incx N j)) m
    (execute_tree_local r () (tc_phases t) L (L * cdiv N L * cdiv N L) m)"
proof -
  let ?w = "cdiv N L"
  have w: "0 < ?w" using assms(2,3) by (simp add: cdiv_pos)
  have "tc_colSz t = cdiv N ?w" by (simp add: tc_colSz_def t_def cdiv_def)
  also have "\<dots> \<le> L" using cdiv_covers [OF assms(2), of N] w by (simp add: cdiv_le_iff mult.commute)
  finally have "(?w - 1) * tc_colSz t \<le> (?w - 1) * L" by (rule mult_le_mono2)
  also have "\<dots> < N" using cdiv_less_iff [OF assms(2), of "?w - 1" N] w by simp
  finally have ne: "(?w - 1) * tc_colSz t < N" .
  have wf: "tv_wf b t"
    using assms(3-6) w by (simp add: tv_wf_def t_def mat_def temporary_row_matrix_wf)
  note launch = tc_launch [OF wf assms(2,1), where m = m]
  have ent: "tv_a t m i j = m (mat_cell A lda i j)" "tv_x t m j = m (cell x incx N j)" for i j
    using assms(4) by (simp_all add: tv_a_def tv_x_def t_def maddr_mat_cell fits_simps)
  have flags: "tv_Lower t = Lo" "tv_Diag t = D" "tv_Upper t = U" "tv_Unit t = un" by (simp_all add: t_def)
  have entry: "tv_term t m i j = tri_elem Lo D U un (\<lambda>i j. m (mat_cell A lda i j)) i j * m (cell x incx N j)" for i j
    using tv_term_tri [of t m i j, unfolded flags, OF assms(7,8)] by (simp add: ent tri_elem_def cong: if_cong)
  show ?thesis
    using launch ne assms(2) by (simp add: partial_products_def entry) (simp add: t_def mat_def)
qed

lemma row_launch:
  fixes m :: "'v::semiring_1 mem" and lda N L b :: nat and Lo D U un :: bool
  assumes "is_run r" "L = 2 ^ p" "0 < N" "vector_fits x incx N" "it_buffer A \<noteq> b" "it_buffer x \<noteq> b" "\<not> (Lo \<and> U)" "Lo \<or> U"
  defines "mat \<equiv> make_matrix_view row_major (make_sycl_iterator_buffer b (N * 1)) N 1 1"
  defines "t \<equiv> make_Gemv_Row 1 Lo D U un mat (make_matrix_view row_major A N N lda) (make_vector_view x incx N) N 1 L"
  shows "partial_products b mat N
    (\<lambda>i. \<Sum>j<N. tri_elem Lo D U un (\<lambda>i j. m (mat_cell A lda j i)) i j * m (cell x incx N j)) m
    (execute_tree_local r () (tr_phases t) L (L * N * 1) m)"
proof -
  have wf: "tv_wf b t"
    using assms(3-6) temporary_row_matrix_wf [of N 1 b] by (simp add: tv_wf_def t_def mat_def)
  have single: "tr_single L t" using assms(2) by (auto simp: tr_single_def t_def)
  note launch = tr_launch [OF wf single assms(1), where m = m]
  have ent: "tv_a t m i j = m (mat_cell A lda j i)" "tv_x t m j = m (cell x incx N j)" for i j
    using assms(4) by (simp_all add: tv_a_def tv_x_def t_def maddr_eq mat_cell_def is_col_major_def fits_simps mult.commute add.commute)
  have flags: "tv_Lower t = Lo" "tv_Diag t = D" "tv_Upper t = U" "tv_Unit t = un" by (simp_all add: t_def)
  have entry: "tv_term t m i j = tri_elem Lo D U un (\<lambda>i j. m (mat_cell A lda j i)) i j * m (cell x incx N j)" for i j
    using tv_term_tri [of t m i j, unfolded flags, OF assms(7,8)] by (simp add: ent tri_elem_def cong: if_cong)
  show ?thesis
    using launch by (simp add: partial_products_def entry) (simp add: t_def mat_def)
qed


lemma sum_columns_assign:
  fixes m :: "'v::semiring_1 mem"
  assumes "is_run r" "0 < L" "vector_fits x incx N" "it_buffer x \<noteq> b" "acc_buffer (mv_data mat) = b" "mv_sizeR mat = N"
    and "partial_products b mat N v m m1"
  defines "m2 \<equiv> execute_sized r (Assign (vec_lval (make_vector_view x incx N)) (SumMatrixColumns mat)) L m1"
  shows "\<forall>i < N. m2 (cell x incx N i) = v i"
    and "\<forall>c. c \<notin> cell x incx N ` {..<N} \<longrightarrow> fst c \<noteq> b \<longrightarrow> m2 c = m c"
proof -
  have fp: "footprint (SumMatrixColumns mat :: ('v mem, 'v) expr) (\<lambda>_. {b} \<times> UNIV)"
    using footprint_SumMatrixColumns [of mat] assms(5) by simp
  have own: "cell x incx N j \<notin> {b} \<times> UNIV" for j using assms(4) by (simp add: cell_def)
  have sz: "ex_size (SumMatrixColumns mat :: ('v mem, 'v) expr) = N" by (simp add: SumMatrixColumns_simps assms(6))
  note store = assign_to_vector [OF assms(1-3) sz fp own, where m = m1]
  have "ex_eval (SumMatrixColumns mat) m1 i = v i" if "i < N" for i
    using that assms(7) SumMatrixColumns_simps(2) [of i mat m1] by (simp add: assms(6) partial_products_def)
  then show "\<forall>i < N. m2 (cell x incx N i) = v i" "\<forall>c. c \<notin> cell x incx N ` {..<N} \<longrightarrow> fst c \<noteq> b \<longrightarrow> m2 c = m c"
    using store assms(7) by (simp_all add: m2_def execute_def partial_products_def)
qed

section \<open>Properties\<close>

lemma trmv_impl_eq:
  fixes m :: "'v::semiring_1 mem" and tmp N :: nat and x :: BufferIterator and incx :: int and ph :: policy_handler
  assumes "0 < N" "0 < ph_work_group_size ph"
    and "tolower Uplo = CHR ''u'' \<or> tolower Uplo = CHR ''l''" "up \<longleftrightarrow> tolower Uplo = CHR ''u''" "un \<longleftrightarrow> tolower Diag = CHR ''u''"
  defines "L \<equiv> ph_work_group_size ph"
  defines "mc \<equiv> make_matrix_view row_major (make_sycl_iterator_buffer tmp (N * cdiv N L)) N (cdiv N L) (cdiv N L)"
    and "mr \<equiv> make_matrix_view row_major (make_sycl_iterator_buffer tmp (N * 1)) N 1 1"
    and "vx \<equiv> make_vector_view x incx N"
  shows "trmv_impl r1 r2 ph tmp Normal Uplo Diag N A lda x incx 0 0 0 0 m
      = Inr (execute_sized r2 (Assign (vec_lval vx) (SumMatrixColumns mc)) L
          (execute_tree_local r1 () (tc_phases (make_Gemv_Col (\<not> up) True up un mc (make_matrix_view col_major A N N lda) vx
             (cdiv N L) (cdiv N L) L)) L (L * cdiv N L * cdiv N L) m))"
    and "trmv_impl r1 r2 ph tmp Transposed Uplo Diag N A lda x incx 0 0 0 0 m
      = Inr (execute_sized r2 (Assign (vec_lval vx) (SumMatrixColumns mr)) L
          (execute_tree_local r1 () (tr_phases (make_Gemv_Row 1 up True (\<not> up) un mr (make_matrix_view row_major A N N lda) vx
             N 1 L)) L (L * N * 1) m))"
proof -
  have 1: "(N - 1) div L + 1 = cdiv N L" using cdiv_pred [OF _ assms(1)] assms(2) by (simp add: L_def)
  have 2: "(N - 1) div 1 + 1 = N" "(N - 1) div N + 1 = 1" using assms(1) by simp_all
  have 3: "L \<noteq> 0" using assms(2) by (simp add: L_def)
  have 4: "tolower Uplo = CHR ''u'' \<longleftrightarrow> up" "tolower Uplo = CHR ''l'' \<longleftrightarrow> \<not> up" "tolower Diag = CHR ''u'' \<longleftrightarrow> un"
    using assms(3-5) by auto
  show "trmv_impl r1 r2 ph tmp Normal Uplo Diag N A lda x incx 0 0 0 0 m
      = Inr (execute_sized r2 (Assign (vec_lval vx) (SumMatrixColumns mc)) L
          (execute_tree_local r1 () (tc_phases (make_Gemv_Col (\<not> up) True up un mc (make_matrix_view col_major A N N lda) vx
             (cdiv N L) (cdiv N L) L)) L (L * cdiv N L * cdiv N L) m))"
    unfolding trmv_impl_def Let_def L_def [symmetric]
    by (cases up; cases un) (simp_all only: 1 4 if_True if_False simp_thms mc_def vx_def)
  show "trmv_impl r1 r2 ph tmp Transposed Uplo Diag N A lda x incx 0 0 0 0 m
      = Inr (execute_sized r2 (Assign (vec_lval vx) (SumMatrixColumns mr)) L
          (execute_tree_local r1 () (tr_phases (make_Gemv_Row 1 up True (\<not> up) un mr (make_matrix_view row_major A N N lda) vx
             N 1 L)) L (L * N * 1) m))"
    unfolding trmv_impl_def Let_def L_def [symmetric]
    by (cases up; cases un) (simp_all only: 2 3 4 if_True if_False simp_thms mr_def vx_def mult_1 transpose_type.distinct access_layout.distinct)
qed


text \<open>The triangular matrix of \<open>_trmv\<close>.\<close>

definition trmv_elem :: "bool \<Rightarrow> bool \<Rightarrow> BufferIterator \<Rightarrow> nat \<Rightarrow> 'v mem \<Rightarrow> nat \<Rightarrow> nat \<Rightarrow> 'v::{zero, one}" where
  "trmv_elem upper unit A lda m i j =
     (if i = j then (if unit then 1 else m (mat_cell A lda i i))
      else if (if upper then i < j else j < i) then m (mat_cell A lda i j) else 0)"

text \<open>C26: \<open>_trmv\<close> replaces \<open>x\<close> by \<open>op(A) * x\<close>, where \<open>A\<close> is the upper or lower triangle of the matrix, with
  ones on the diagonal when \<open>Diag\<close> says so; nothing else but the temporary changes, and \<open>x\<close> may overlap the
  matrix. The transposed product reduces in local memory, so the work-group size is a power of two.\<close>

theorem trmv_correct:
  fixes m :: "'v::semiring_1 mem"
  assumes "is_run r1" "is_run r2" "ph_work_group_size ph = 2 ^ p" "0 < N" "vector_fits x incx N"
    and "it_buffer A \<noteq> tmp" "it_buffer x \<noteq> tmp"
    and "tolower Uplo = CHR ''u'' \<or> tolower Uplo = CHR ''l''"
  shows "\<exists>m'. trmv r1 r2 ph tmp Uplo transA Diag N A lda x incx m = Inr m' \<and>
    (\<forall>i < N. m' (cell x incx N i) = (\<Sum>j<N.
        (if tolower transA = CHR ''n''
         then trmv_elem (tolower Uplo = CHR ''u'') (tolower Diag = CHR ''u'') A lda m i j
         else trmv_elem (tolower Uplo = CHR ''u'') (tolower Diag = CHR ''u'') A lda m j i) * m (cell x incx N j))) \<and>
    (\<forall>c. c \<notin> cell x incx N ` {..<N} \<longrightarrow> fst c \<noteq> tmp \<longrightarrow> m' c = m c)"
proof -
  define up un where "up \<longleftrightarrow> tolower Uplo = CHR ''u''" and "un \<longleftrightarrow> tolower Diag = CHR ''u''"
  have L: "0 < ph_work_group_size ph" using assms(3) by simp
  note eqs = trmv_impl_eq [OF assms(4) L assms(8) up_def un_def, where tmp = tmp and A = A and lda = lda and x = x
      and incx = incx and m = m and ?r1.0 = r1 and ?r2.0 = r2]
  have tri: "\<not> (\<not> up \<and> up)" "\<not> up \<or> up" "\<not> (up \<and> \<not> up)" "up \<or> \<not> up" by blast+
  note pc = col_launch [OF assms(1) L assms(4-7) tri(1,2), where lda = lda and D = True and un = un and m = m]
  note pr = row_launch [OF assms(1,3,4-7) tri(3,4), where lda = lda and D = True and un = un and m = m]
  have mat: "acc_buffer (mv_data (make_matrix_view row_major (make_sycl_iterator_buffer tmp n) N k k)) = tmp"
    "mv_sizeR (make_matrix_view row_major (make_sycl_iterator_buffer tmp n) N k k) = N" for n k by simp_all
  note fc = sum_columns_assign [OF assms(2) L assms(5,7) mat pc]
  note fr = sum_columns_assign [OF assms(2) L assms(5,7) mat pr]
  have ec: "tri_elem (\<not> up) True up un (\<lambda>i j. m (mat_cell A lda i j)) i j = trmv_elem up un A lda m i j" for i j
    by (simp add: tri_elem_def trmv_elem_def)
  have er: "tri_elem up True (\<not> up) un (\<lambda>i j. m (mat_cell A lda j i)) i j = trmv_elem up un A lda m j i" for i j
    by (auto simp: tri_elem_def trmv_elem_def)
  show ?thesis
  proof (cases "tolower transA = CHR ''n''")
    case True
    then show ?thesis
      unfolding trmv_def if_P [OF True] eqs(1) up_def [symmetric] un_def [symmetric]
      by (intro exI conjI) (rule refl, (rule fc [unfolded ec])+)
  next
    case False
    then show ?thesis
      unfolding trmv_def if_not_P [OF False] eqs(2) up_def [symmetric] un_def [symmetric]
      by (intro exI conjI) (rule refl, (rule fr [unfolded er])+)
  qed
qed

lemma trmv_correct_witness:
  "\<exists>m'. trmv (seq_run 0) (seq_run 0) sample_ph 9 (CHR ''L'') (CHR ''T'') (CHR ''U'') 2 (sample_it 1) 3 (sample_it 2) 1
     sample_mem = Inr m' \<and>
   m' (2, 0) = sample_mem (2, 0) + sample_mem (1, 1) * sample_mem (2, 1) \<and> m' (2, 1) = sample_mem (2, 1)"
proof -
  have t: "tolower (CHR ''T'') \<noteq> CHR ''n''" "tolower (CHR ''L'') = CHR ''l''" "tolower (CHR ''U'') = CHR ''u''" by code_simp+
  have "\<exists>m'. trmv (seq_run 0) (seq_run 0) sample_ph 9 (CHR ''L'') (CHR ''T'') (CHR ''U'') 2 (sample_it 1) 3 (sample_it 2) 1
      sample_mem = Inr m' \<and>
    (\<forall>i < 2. m' (cell (sample_it 2) 1 2 i) = (\<Sum>j<2.
        (if tolower (CHR ''T'') = CHR ''n''
         then trmv_elem (tolower (CHR ''L'') = CHR ''u'') (tolower (CHR ''U'') = CHR ''u'') (sample_it 1) 3 sample_mem i j
         else trmv_elem (tolower (CHR ''L'') = CHR ''u'') (tolower (CHR ''U'') = CHR ''u'') (sample_it 1) 3 sample_mem j i)
        * sample_mem (cell (sample_it 2) 1 2 j))) \<and>
    (\<forall>c. c \<notin> cell (sample_it 2) 1 2 ` {..<2} \<longrightarrow> fst c \<noteq> 9 \<longrightarrow> m' c = sample_mem c)"
    by (rule trmv_correct [where p = 1]) (simp_all add: t)
  then obtain m' where m': "trmv (seq_run 0) (seq_run 0) sample_ph 9 (CHR ''L'') (CHR ''T'') (CHR ''U'') 2 (sample_it 1) 3
      (sample_it 2) 1 sample_mem = Inr m'" and
    v: "\<forall>i < 2. m' (cell (sample_it 2) 1 2 i) = (\<Sum>j<2. trmv_elem False True (sample_it 1) 3 sample_mem j i
        * sample_mem (cell (sample_it 2) 1 2 j))"
    by (auto simp: t)
  show ?thesis
    using m' v [rule_format, of 0] v [rule_format, of 1]
    by (simp add: trmv_elem_def numeral_2_eq_2 blas_index_def)
qed

text \<open>C34: \<open>_trmv\<close> refuses its parameters only when \<open>Uplo\<close> and \<open>Diag\<close> are both wrong; one wrong parameter is
  taken for the other value.\<close>

theorem trmv_refuses:
  "trmv r1 r2 ph tmp Uplo transA Diag N A lda x incx m = Inl erroneous_parameter \<longleftrightarrow>
     tolower Uplo \<notin> {CHR ''u'', CHR ''l''} \<and> tolower Diag \<notin> {CHR ''u'', CHR ''n''}"
  unfolding trmv_def trmv_impl_def Let_def by auto


definition symv_elem :: "bool \<Rightarrow> BufferIterator \<Rightarrow> nat \<Rightarrow> 'v mem \<Rightarrow> nat \<Rightarrow> nat \<Rightarrow> 'v" where
  "symv_elem upper A lda m i j =
     (if (if upper then i \<le> j else j \<le> i) then m (mat_cell A lda i j) else m (mat_cell A lda j i))"

lemma symv_finish:
  fixes m1 m2 :: "'v::semiring_1 mem" and alpha beta :: 'v
  assumes "is_run r" "0 < L" "vector_fits y incy N" "it_buffer y \<noteq> bR" "it_buffer y \<noteq> bC"
    and mat: "acc_buffer (mv_data matR) = bR" "mv_sizeR matR = N" "acc_buffer (mv_data matC) = bC" "mv_sizeR matC = N"
  defines "vy \<equiv> make_vector_view y incy N"
  defines "m3 \<equiv> execute_sized r (Assign (vec_lval vy) (BinaryOp AddOperator (ScalarOp ProductOperator (Literal beta) (vec_expr vy))
      (ScalarOp ProductOperator (Literal alpha) (BinaryOp AddOperator (SumMatrixColumns matR) (SumMatrixColumns matC))))) L m2"
  shows "\<forall>i < N. m3 (cell y incy N i) = beta * m2 (cell y incy N i)
      + alpha * ((\<Sum>g<mv_sizeC matR. m2 (maddr matR i g)) + (\<Sum>g<mv_sizeC matC. m2 (maddr matC i g)))"
    and "\<forall>c. c \<notin> cell y incy N ` {..<N} \<longrightarrow> m3 c = m2 c"
proof -
  let ?sum = "BinaryOp AddOperator (SumMatrixColumns matR) (SumMatrixColumns matC) :: ('v mem, 'v) expr"
  let ?e = "BinaryOp AddOperator (ScalarOp ProductOperator (Literal beta) (vec_expr vy)) (ScalarOp ProductOperator (Literal alpha) ?sum)"
  have fp: "footprint ?e (\<lambda>i. {cell y incy N i} \<union> ({bR} \<times> UNIV \<union> {bC} \<times> UNIV))"
    unfolding vy_def mat(1) [symmetric] mat(3) [symmetric]
    by (intro footprint_BinaryOp footprint_ScalarOp footprint_cell footprint_SumMatrixColumns assms(3))
  have tmp: "cell y incy N j \<notin> {bR} \<times> UNIV \<union> {bC} \<times> UNIV" for j using assms(4,5) by (simp add: cell_def)
  have own: "cell y incy N j \<notin> {cell y incy N i} \<union> ({bR} \<times> UNIV \<union> {bC} \<times> UNIV)" if "i < N" "j < N" "i \<noteq> j" for i j
    using own_cellsD [OF own_cells_self [OF assms(3)] that] tmp by auto
  have sz: "ex_size ?e = N" using assms(3) by (simp add: SumMatrixColumns_simps mat vy_def fits_simps)
  note store = assign_to_vector [OF assms(1-3) sz fp own, where m = m2, folded vy_def]
  have "ex_eval ?e m2 i = beta * m2 (cell y incy N i)
      + alpha * ((\<Sum>g<mv_sizeC matR. m2 (maddr matR i g)) + (\<Sum>g<mv_sizeC matC. m2 (maddr matC i g)))" if "i < N" for i
    using that assms(3) by (simp add: vy_def fits_simps AddOperator_def ProductOperator_def SumMatrixColumns_simps mat)
  then show "\<forall>i < N. m3 (cell y incy N i) = beta * m2 (cell y incy N i)
      + alpha * ((\<Sum>g<mv_sizeC matR. m2 (maddr matR i g)) + (\<Sum>g<mv_sizeC matC. m2 (maddr matC i g)))"
    "\<forall>c. c \<notin> cell y incy N ` {..<N} \<longrightarrow> m3 c = m2 c"
    using store by (simp_all add: m3_def execute_def)
qed

lemma symv_impl_eq:
  fixes m :: "'v::semiring_1 mem" and tmpR tmpC N :: nat and A x y :: BufferIterator and incx incy :: int
    and ph :: policy_handler and lda :: nat and up :: bool
  assumes "0 < N" "0 < ph_work_group_size ph" "tolower Uplo = CHR ''u'' \<or> tolower Uplo = CHR ''l''"
    and "up \<longleftrightarrow> tolower Uplo = CHR ''u''"
  defines "L \<equiv> ph_work_group_size ph"
  defines "matC \<equiv> make_matrix_view row_major (make_sycl_iterator_buffer tmpC (N * cdiv N L)) N (cdiv N L) (cdiv N L)"
    and "matR \<equiv> make_matrix_view row_major (make_sycl_iterator_buffer tmpR (N * 1)) N 1 1"
    and "vx \<equiv> make_vector_view x incx N" and "vy \<equiv> make_vector_view y incy N"
  shows "symv r1 r2 r3 ph tmpR tmpC Uplo N alpha A lda x incx beta y incy m
      = Inr (execute_sized r3 (Assign (vec_lval vy) (BinaryOp AddOperator (ScalarOp ProductOperator (Literal beta) (vec_expr vy))
          (ScalarOp ProductOperator (Literal alpha) (BinaryOp AddOperator (SumMatrixColumns matR) (SumMatrixColumns matC))))) L
          (execute_tree_local r2 () (tr_phases (make_Gemv_Row 1 up False (\<not> up) False matR (make_matrix_view row_major A N N lda) vx N 1 L))
             L (L * N * 1)
             (execute_tree_local r1 () (tc_phases (make_Gemv_Col (\<not> up) True up False matC (make_matrix_view col_major A N N lda) vx
               (cdiv N L) (cdiv N L) L)) L (L * cdiv N L * cdiv N L) m)))"
proof -
  have 1: "(N - 1) div L + 1 = cdiv N L" using cdiv_pred [OF _ assms(1)] assms(2) by (simp add: L_def)
  have 2: "(N - 1) div 1 + 1 = N" "(N - 1) div N + 1 = 1" using assms(1) by simp_all
  have 3: "L \<noteq> 0" using assms(2) by (simp add: L_def)
  have 4: "tolower Uplo = CHR ''u'' \<longleftrightarrow> up" "tolower Uplo = CHR ''l'' \<longleftrightarrow> \<not> up" using assms(3,4) by auto
  show ?thesis
    unfolding symv_def symv_impl_def Let_def L_def [symmetric]
    by (cases up) (simp_all only: 1 2 3 4 if_True if_False simp_thms matR_def matC_def vx_def vy_def mult_1)
qed

text \<open>C27: \<open>_symv\<close> computes \<open>y = alpha * S * x + beta * y\<close>, where \<open>S\<close> is the symmetric matrix whose upper or lower
  triangle is stored; nothing else but the temporaries changes.\<close>

theorem symv_correct:
  fixes m :: "'v::semiring_1 mem" and alpha beta :: 'v
  assumes "is_run r1" "is_run r2" "is_run r3" "ph_work_group_size ph = 2 ^ p" "0 < N"
    and "vector_fits x incx N" "vector_fits y incy N"
    and "it_buffer A \<notin> {tmpR, tmpC}" "it_buffer x \<notin> {tmpR, tmpC}" "it_buffer y \<notin> {tmpR, tmpC}" "tmpR \<noteq> tmpC"
    and "tolower Uplo = CHR ''u'' \<or> tolower Uplo = CHR ''l''"
  shows "\<exists>m'. symv r1 r2 r3 ph tmpR tmpC Uplo N alpha A lda x incx beta y incy m = Inr m' \<and>
    (\<forall>i < N. m' (cell y incy N i) = beta * m (cell y incy N i)
       + alpha * (\<Sum>j<N. symv_elem (tolower Uplo = CHR ''u'') A lda m i j * m (cell x incx N j))) \<and>
    (\<forall>c. c \<notin> cell y incy N ` {..<N} \<longrightarrow> fst c \<notin> {tmpR, tmpC} \<longrightarrow> m' c = m c)"
proof -
  define up where "up \<longleftrightarrow> tolower Uplo = CHR ''u''"
  define L where "L = ph_work_group_size ph"
  have L: "0 < L" "0 < ph_work_group_size ph" "L = 2 ^ p" using assms(4) by (simp_all add: L_def)
  have bufs: "it_buffer A \<noteq> tmpC" "it_buffer x \<noteq> tmpC" "it_buffer A \<noteq> tmpR" "it_buffer x \<noteq> tmpR" "it_buffer y \<noteq> tmpR" "it_buffer y \<noteq> tmpC"
    using assms(8-10) by auto
  have tri: "\<not> (\<not> up \<and> up)" "\<not> up \<or> up" "\<not> (up \<and> \<not> up)" "up \<or> \<not> up" by blast+
  define matC where "matC = make_matrix_view row_major (make_sycl_iterator_buffer tmpC (N * cdiv N L)) N (cdiv N L) (cdiv N L)"
  define matR where "matR = make_matrix_view row_major (make_sycl_iterator_buffer tmpR (N * 1)) N 1 1"
  define m1 where "m1 = execute_tree_local r1 () (tc_phases (make_Gemv_Col (\<not> up) True up False matC (make_matrix_view col_major A N N lda)
      (make_vector_view x incx N) (cdiv N L) (cdiv N L) L)) L (L * cdiv N L * cdiv N L) m"
  define m2 where "m2 = execute_tree_local r2 () (tr_phases (make_Gemv_Row 1 up False (\<not> up) False matR (make_matrix_view row_major A N N lda)
      (make_vector_view x incx N) N 1 L)) L (L * N * 1) m1"
  note pc = col_launch [OF assms(1) L(1) assms(5,6) bufs(1,2) tri(1,2), where lda = lda and D = True and un = False and m = m,
      folded matC_def, folded m1_def]
  note pr = row_launch [OF assms(2) L(3) assms(5,6) bufs(3,4) tri(3,4), where lda = lda and D = False and un = False and m = m1,
      folded matR_def, folded m2_def]
  have mat: "acc_buffer (mv_data matR) = tmpR" "mv_sizeR matR = N" "acc_buffer (mv_data matC) = tmpC" "mv_sizeR matC = N"
    by (simp_all add: matR_def matC_def)
  have m1: "m1 c = m c" if "fst c \<noteq> tmpC" for c using pc that unfolding partial_products_def by blast
  have m2: "m2 c = m1 c" if "fst c \<noteq> tmpR" for c using pr that unfolding partial_products_def by blast
  have cells: "m1 (cell x incx N j) = m (cell x incx N j)" "m1 (mat_cell A lda i j) = m (mat_cell A lda i j)" for i j
    using bufs by (auto intro: m1 simp: cell_def mat_cell_def)
  have rowR: "(\<Sum>g<mv_sizeC matR. m2 (maddr matR i g))
      = (\<Sum>j<N. tri_elem up False (\<not> up) False (\<lambda>i j. m (mat_cell A lda j i)) i j * m (cell x incx N j))" if "i < N" for i
    using pr that by (simp add: partial_products_def cells)
  have rowC: "(\<Sum>g<mv_sizeC matC. m2 (maddr matC i g))
      = (\<Sum>j<N. tri_elem (\<not> up) True up False (\<lambda>i j. m (mat_cell A lda i j)) i j * m (cell x incx N j))" if "i < N" for i
    using pc that assms(11) by (simp add: partial_products_def m2 mat)
  have sym: "tri_elem up False (\<not> up) False (\<lambda>i j. m (mat_cell A lda j i)) i j * v
      + tri_elem (\<not> up) True up False (\<lambda>i j. m (mat_cell A lda i j)) i j * v = symv_elem up A lda m i j * v" for i j v
    by (auto simp: tri_elem_def symv_elem_def)
  have row: "(\<Sum>g<mv_sizeC matR. m2 (maddr matR i g)) + (\<Sum>g<mv_sizeC matC. m2 (maddr matC i g))
      = (\<Sum>j<N. symv_elem up A lda m i j * m (cell x incx N j))" if "i < N" for i
    unfolding rowR [OF that] rowC [OF that] sum.distrib [symmetric] by (simp only: sym)
  have y: "m2 (cell y incy N i) = m (cell y incy N i)" for i using bufs by (simp add: m1 m2 cell_def)
  note fin = symv_finish [OF assms(3) L(1) assms(7) bufs(5,6) mat, where alpha = alpha and beta = beta and ?m2.0 = m2]
  note eq = symv_impl_eq [OF assms(5) L(2) assms(12) up_def, where tmpR = tmpR and tmpC = tmpC and A = A and lda = lda and x = x
      and incx = incx and y = y and incy = incy and m = m and ?r1.0 = r1 and ?r2.0 = r2 and ?r3.0 = r3 and alpha = alpha and beta = beta,
      folded L_def, folded matC_def matR_def, folded m1_def, folded m2_def]
  show ?thesis
    unfolding eq up_def [symmetric]
    by (intro exI conjI, rule refl) (use fin row y m1 m2 in auto)
qed


lemma symv_correct_witness:
  "\<exists>m'. symv (seq_run 0) (seq_run 0) (seq_run 0) sample_ph 8 9 (CHR ''U'') 2 2 (sample_it 1) 3 (sample_it 2) 1 3 (sample_it 3) 1
     sample_mem = Inr m' \<and>
   m' (3, 1) = 3 * sample_mem (3, 1) + 2 * (sample_mem (1, 3) * sample_mem (2, 0) + sample_mem (1, 4) * sample_mem (2, 1))"
proof -
  have t: "tolower (CHR ''U'') = CHR ''u''" by code_simp
  have "\<exists>m'. symv (seq_run 0) (seq_run 0) (seq_run 0) sample_ph 8 9 (CHR ''U'') 2 2 (sample_it 1) 3 (sample_it 2) 1 3 (sample_it 3) 1
      sample_mem = Inr m' \<and>
    (\<forall>i < 2. m' (cell (sample_it 3) 1 2 i) = 3 * sample_mem (cell (sample_it 3) 1 2 i)
       + 2 * (\<Sum>j<2. symv_elem (tolower (CHR ''U'') = CHR ''u'') (sample_it 1) 3 sample_mem i j * sample_mem (cell (sample_it 2) 1 2 j))) \<and>
    (\<forall>c. c \<notin> cell (sample_it 3) 1 2 ` {..<2} \<longrightarrow> fst c \<notin> {8, 9} \<longrightarrow> m' c = sample_mem c)"
    by (rule symv_correct [where p = 1]) (simp_all add: t)
  then obtain m' where m': "symv (seq_run 0) (seq_run 0) (seq_run 0) sample_ph 8 9 (CHR ''U'') 2 2 (sample_it 1) 3 (sample_it 2) 1 3
      (sample_it 3) 1 sample_mem = Inr m'" and
    v: "\<forall>i < 2. m' (cell (sample_it 3) 1 2 i) = 3 * sample_mem (cell (sample_it 3) 1 2 i)
       + 2 * (\<Sum>j<2. symv_elem True (sample_it 1) 3 sample_mem i j * sample_mem (cell (sample_it 2) 1 2 j))"
    by (auto simp: t)
  show ?thesis
    using m' v [rule_format, of 1] by (simp add: symv_elem_def numeral_2_eq_2 blas_index_def)
qed

text \<open>The two evaluations of \<open>GemvCol\<close> differ for a unit triangle: without local memory the diagonal
  contributes the element of the matrix where it should contribute the element of the vector.\<close>

theorem gemv_col_unit_diagonal:
  "let t = make_Gemv_Col False True True True (make_matrix_view row_major (sample_it 3) 1 1 1)
             (make_matrix_view col_major (sample_it 1) 1 1 1) (make_vector_view (sample_it 2) 1 1) 1 1 1;
       m = (\<lambda>c. if c = (1, 0) then 7 else if c = (2, 0) then 5 else (0 :: int))
   in execute_tree (seq_run 0) (\<lambda>_. True) (tc_eval t) 1 1 m (3, 0) = 7 \<and>
      execute_tree_local (seq_run 0) () (tc_phases t) 1 1 m (3, 0) = 5"
  by code_simp

end
