(* ===== verification/Gemm_Interface.thy ===== *)
theory Gemm_Interface
  imports Gemm_Ref Gemm_No_Local Gemm_No_Local_Full Gemm_Local_Correct Gemm_Interleaved Trmv_Symv
begin

text \<open>
  The operations \<open>_gemm\<close> and \<open>_gemm_batched\<close> of \<^verbatim>\<open>src/interface/gemm_interface.hpp\<close>: the
  case \<open>alpha = 0\<close>, the check of the transposition letters, the split on \<open>beta = 0\<close>, the target's choice of a
  configuration and its launch.

  The locale \<open>gemm_launcher\<close> states what the interface needs of a launch; \<open>select_gemm\<close>, which runs the kernels of
  \<open>Gemm_Ref\<close>, \<open>Gemm_No_Local\<close>, \<open>Gemm_No_Local_Full\<close> and \<open>Gemm_Local\<close>, provides it. The kernel of \<open>Gemm_Interleaved\<close> has
  a contract of its own, in \<open>Gemm_Interleaved_Interface\<close>. The remaining kernel is
  the parameter \<open>other\<close>.
\<close>

section \<open>The launch\<close>

type_synonym 'v gemm_launch =
  "Gemm_Launcher \<Rightarrow> nat \<Rightarrow> nat \<Rightarrow> nat \<Rightarrow> 'v \<Rightarrow> BufferIterator \<Rightarrow> nat \<Rightarrow> BufferIterator \<Rightarrow> nat \<Rightarrow> 'v \<Rightarrow>
   BufferIterator \<Rightarrow> nat \<Rightarrow> nat \<Rightarrow> 'v mem \<Rightarrow> 'v mem"

definition select_gemm ::
  "'v device_run \<Rightarrow> policy_handler \<Rightarrow> bool \<Rightarrow> nat \<Rightarrow> (nat \<Rightarrow> 'v) \<Rightarrow> ('v Gemm \<Rightarrow> 'v mem \<Rightarrow> 'v mem) \<Rightarrow>
   'v::{zero, plus, times, divide} gemm_launch" where
  "select_gemm r ph v sz u other cfg M N K alpha a lda b ldb beta c ldc batch_size m =
     (let gemm = select_gemm_tree cfg M N K alpha a lda b ldb beta c ldc batch_size
      in case kernel_of cfg of
           Some GemmRef \<Rightarrow> gemm_ref_execute r ph gemm m
         | Some GemmLocal \<Rightarrow> gemm_local_execute r ph v sz u gemm m
         | Some GemmNoLocalPartial \<Rightarrow> gemm_no_local_partial_execute r ph v u gemm m
         | Some GemmNoLocalFull \<Rightarrow> gemm_no_local_full_execute r ph v u gemm m
         | Some GemmInterleaved \<Rightarrow> gemm_interleaved_execute r ph (\<lambda>x l. u (x * VectorSize cfg + l)) gemm m
         | _ \<Rightarrow> other gemm m)"

section \<open>The interface\<close>

datatype gemm_error = invalid_TransA | invalid_TransB

definition gemm_platform_specific ::
  "'v gemm_launch \<Rightarrow> gemm_build \<Rightarrow> nat \<Rightarrow> bool \<Rightarrow> bool \<Rightarrow> bool \<Rightarrow> nat \<Rightarrow> nat \<Rightarrow> nat \<Rightarrow> 'v \<Rightarrow> BufferIterator \<Rightarrow> nat \<Rightarrow>
   BufferIterator \<Rightarrow> nat \<Rightarrow> 'v \<Rightarrow> BufferIterator \<Rightarrow> nat \<Rightarrow> nat \<Rightarrow> gemm_batch_type_t \<Rightarrow> 'v mem \<Rightarrow> 'v mem" where
  "gemm_platform_specific launch bd sz t_a t_b is_beta_zero M N K alpha a lda b ldb beta c ldc batch_size batch_type m =
     launch (backend_gemm bd sz t_a t_b is_beta_zero M N K batch_size batch_type)
       M N K alpha a lda b ldb beta c ldc batch_size m"

definition gemm_is_beta_zero ::
  "'v::zero gemm_launch \<Rightarrow> gemm_build \<Rightarrow> nat \<Rightarrow> bool \<Rightarrow> bool \<Rightarrow> nat \<Rightarrow> nat \<Rightarrow> nat \<Rightarrow> 'v \<Rightarrow> BufferIterator \<Rightarrow> nat \<Rightarrow>
   BufferIterator \<Rightarrow> nat \<Rightarrow> 'v \<Rightarrow> BufferIterator \<Rightarrow> nat \<Rightarrow> nat \<Rightarrow> gemm_batch_type_t \<Rightarrow> 'v mem \<Rightarrow> 'v mem" where
  "gemm_is_beta_zero launch bd sz t_a t_b M N K alpha a lda b ldb beta c ldc batch_size batch_type m =
     (if beta = 0
      then gemm_platform_specific launch bd sz t_a t_b True M N K alpha a lda b ldb beta c ldc batch_size batch_type m
      else gemm_platform_specific launch bd sz t_a t_b False M N K alpha a lda b ldb beta c ldc batch_size batch_type m)"

text \<open>Launch \<open>i\<close> of the loop over the columns has its own device run \<open>r i\<close>.\<close>

definition gemm_backend ::
  "'v::{zero, times} gemm_launch \<Rightarrow> (nat \<Rightarrow> 't device_run) \<Rightarrow> policy_handler \<Rightarrow> gemm_build \<Rightarrow> nat \<Rightarrow> char \<Rightarrow> char \<Rightarrow>
   nat \<Rightarrow> nat \<Rightarrow> nat \<Rightarrow> 'v \<Rightarrow> BufferIterator \<Rightarrow> nat \<Rightarrow> BufferIterator \<Rightarrow> nat \<Rightarrow> 'v \<Rightarrow> BufferIterator \<Rightarrow> nat \<Rightarrow> nat \<Rightarrow>
   gemm_batch_type_t \<Rightarrow> 'v mem \<Rightarrow> gemm_error + 'v mem" where
  "gemm_backend launch r ph bd sz transA transB M N K alpha a lda b ldb beta c ldc batch_size batch_type m =
     (if alpha = 0 then
        (if ldc = M then
           (let matrix_size = N * M * batch_size in Inr (scal (r 0) ph matrix_size beta c 1 m))
         else
           (let num_columns = batch_size * N
            in Inr (fold (\<lambda>i. scal (r i) ph M beta (it_plus c (int (i * ldc))) 1) [0..<num_columns] m)))
      else
        (let transA = tolower transA; transB = tolower transB
         in if transA \<noteq> CHR ''n'' \<and> transA \<noteq> CHR ''t'' \<and> transA \<noteq> CHR ''c'' then Inl invalid_TransA
            else if transB \<noteq> CHR ''n'' \<and> transB \<noteq> CHR ''t'' \<and> transB \<noteq> CHR ''c'' then Inl invalid_TransB
            else
              let TrA = (transA \<noteq> CHR ''n''); TrB = (transB \<noteq> CHR ''n'')
              in Inr (gemm_is_beta_zero launch bd sz TrA TrB M N K alpha a lda b ldb beta c ldc batch_size batch_type m)))"

definition gemm ::
  "'v::{zero, times} gemm_launch \<Rightarrow> (nat \<Rightarrow> 't device_run) \<Rightarrow> policy_handler \<Rightarrow> gemm_build \<Rightarrow> nat \<Rightarrow> char \<Rightarrow> char \<Rightarrow>
   nat \<Rightarrow> nat \<Rightarrow> nat \<Rightarrow> 'v \<Rightarrow> BufferIterator \<Rightarrow> nat \<Rightarrow> BufferIterator \<Rightarrow> nat \<Rightarrow> 'v \<Rightarrow> BufferIterator \<Rightarrow> nat \<Rightarrow>
   'v mem \<Rightarrow> gemm_error + 'v mem" where
  "gemm launch r ph bd sz transA transB M N K alpha a lda b ldb beta c ldc m =
     gemm_backend launch r ph bd sz transA transB M N K alpha a lda b ldb beta c ldc 1 strided_batch m"

definition gemm_batched ::
  "'v::{zero, times} gemm_launch \<Rightarrow> (nat \<Rightarrow> 't device_run) \<Rightarrow> policy_handler \<Rightarrow> gemm_build \<Rightarrow> nat \<Rightarrow> char \<Rightarrow> char \<Rightarrow>
   nat \<Rightarrow> nat \<Rightarrow> nat \<Rightarrow> 'v \<Rightarrow> BufferIterator \<Rightarrow> nat \<Rightarrow> BufferIterator \<Rightarrow> nat \<Rightarrow> 'v \<Rightarrow> BufferIterator \<Rightarrow> nat \<Rightarrow> nat \<Rightarrow>
   gemm_batch_type_t \<Rightarrow> 'v mem \<Rightarrow> gemm_error + 'v mem" where
  "gemm_batched launch r ph bd sz transA transB M N K alpha a lda b ldb beta c ldc batch_size batch_type m =
     gemm_backend launch r ph bd sz transA transB M N K alpha a lda b ldb beta c ldc batch_size batch_type m"

section \<open>The case \<open>alpha = 0\<close>\<close>

text \<open>The elements of all matrices of the batch, by columns.\<close>

lemma c_cells_columns:
  "c_cells M N p ldc bs = {ptr_add p (int (x * ldc + i)) |x i. x < bs * N \<and> i < M}"
proof (intro set_eqI iffI)
  fix d assume "d \<in> c_cells M N p ldc bs"
  then obtain q i j where q: "d = batch_cell p (ldc * N) ldc q i j" "q < bs" "i < M" "j < N"
    unfolding c_cells_def by blast
  have "d = ptr_add p (int ((q * N + j) * ldc + i))" by (simp add: q(1) batch_cell_def algebra_simps)
  then show "d \<in> {ptr_add p (int (x * ldc + i)) |x i. x < bs * N \<and> i < M}"
    using reg_index(1) [OF q(4,2)] q(3) by blast
next
  fix d assume "d \<in> {ptr_add p (int (x * ldc + i)) |x i. x < bs * N \<and> i < M}"
  then obtain x i where x: "d = ptr_add p (int (x * ldc + i))" "x < bs * N" "i < M" by blast
  have "x * ldc + i = x div N * (ldc * N) + i + x mod N * ldc"
  proof -
    have "x * ldc = x div N * N * ldc + x mod N * ldc" by (metis div_mult_mod_eq distrib_right)
    then show ?thesis by (simp add: ac_simps)
  qed
  then have "d = batch_cell p (ldc * N) ldc (x div N) i (x mod N)" by (simp only: x(1) batch_cell_def)
  moreover have "x div N < bs" "x mod N < N" using x(2) by (auto simp: less_mult_imp_div_less intro!: mod_less_divisor gr0I)
  ultimately show "d \<in> c_cells M N p ldc bs" unfolding c_cells_def using x(3) by blast
qed

text \<open>When every cell of \<open>C\<close> is scaled, the product is complete.\<close>

lemma gemm_result_scaled:
  fixes beta :: "'v::semiring_0"
  assumes "\<And>d. d \<in> c_cells M N c ldc bs \<Longrightarrow> m' d = beta * m d" "\<And>d. d \<notin> c_cells M N c ldc bs \<Longrightarrow> m' d = m d"
  shows "gemm_result (beta = 0) ta tb M N K 0 a lda b ldb beta c ldc bs m m'"
proof (rule gemm_resultI)
  fix q i j assume "q < bs" "i < M" "j < N"
  then have "batch_cell c (ldc * N) ldc q i j \<in> c_cells M N c ldc bs" unfolding c_cells_def by blast
  then show "m' (batch_cell c (ldc * N) ldc q i j) = 0 * product_of ta tb M N K a lda b ldb m q i j
      + (if beta = 0 then 0 else beta * m (batch_cell c (ldc * N) ldc q i j))"
    using assms(1) by simp
qed (rule assms(2))

text \<open>The buffer of \<open>C\<close> holds all columns.\<close>

definition columns_fit :: "BufferIterator \<Rightarrow> nat \<Rightarrow> nat \<Rightarrow> nat \<Rightarrow> bool" where
  "columns_fit c M ldc n \<longleftrightarrow> 0 \<le> it_offset c \<and>
     (0 < n \<longrightarrow> it_offset c + int ((n - 1) * ldc + M) \<le> int (it_count c))"

lemma scal_block:
  fixes beta :: "'v::mult_zero"
  assumes "is_run r" "0 < ph_work_group_size ph" "0 \<le> it_offset c" "0 \<le> k" "it_offset c + k + int M \<le> int (it_count c)"
  shows "d \<in> {ptr_add (it_buffer c, it_offset c) (k + int i) |i. i < M} \<Longrightarrow>
      scal r ph M beta (it_plus c k) 1 m d = beta * m d"
    and "d \<notin> {ptr_add (it_buffer c, it_offset c) (k + int i) |i. i < M} \<Longrightarrow>
      scal r ph M beta (it_plus c k) 1 m d = m d"
proof -
  have "vector_fits (it_plus c k) 1 M" using assms(3-5) by (simp add: vector_fits_def it_plus_def)
  note scal = scal_correct [OF assms(1,2) this, of beta m]
  have cell: "cell (it_plus c k) 1 M i = ptr_add (it_buffer c, it_offset c) (k + int i)" for i
    by (simp add: cell_def blas_index_def it_plus_def)
  show "scal r ph M beta (it_plus c k) 1 m d = beta * m d"
    if "d \<in> {ptr_add (it_buffer c, it_offset c) (k + int i) |i. i < M}"
    using scal that unfolding cell by blast
  show "scal r ph M beta (it_plus c k) 1 m d = m d"
    if "d \<notin> {ptr_add (it_buffer c, it_offset c) (k + int i) |i. i < M}"
    using scal that unfolding cell by blast
qed


text \<open>Column by column, and all at once when the columns are adjacent.\<close>

lemma scaled_columns:
  fixes beta :: "'v::mult_zero"
  assumes r: "\<And>i. is_run (r i)" and L: "0 < ph_work_group_size ph" and ld: "M \<le> ldc" and fit: "columns_fit c M ldc n"
  defines "W \<equiv> \<lambda>x. {ptr_add (it_buffer c, it_offset c) (int (x * ldc) + int i) |i. i < M}"
    and "go \<equiv> fold (\<lambda>i. scal (r i) ph M beta (it_plus c (int (i * ldc))) 1) [0..<n]"
  shows "x < n \<Longrightarrow> d \<in> W x \<Longrightarrow> go m d = beta * m d"
    and "(\<And>x. x < n \<Longrightarrow> d \<notin> W x) \<Longrightarrow> go m d = m d"
proof -
  let ?step = "\<lambda>x. scal (r x) ph M beta (it_plus c (int (x * ldc))) 1"
  have fits: "0 \<le> it_offset c" "it_offset c + int (x * ldc) + int M \<le> int (it_count c)" if "x < n" for x
  proof -
    have "x * ldc \<le> (n - 1) * ldc" using that by (intro mult_le_mono1) simp
    then have "int (x * ldc + M) \<le> int ((n - 1) * ldc + M)" by (simp only: of_nat_le_iff add_le_mono1)
    then show "0 \<le> it_offset c" "it_offset c + int (x * ldc) + int M \<le> int (it_count c)"
      using fit that by (auto simp: columns_fit_def)
  qed
  have block: "d \<in> W x \<Longrightarrow> ?step x f d = beta * f d" "d \<notin> W x \<Longrightarrow> ?step x f d = f d" if "x < n" for x f d
  proof -
    have z: "0 \<le> int (x * ldc)" by simp
    note b = scal_block [OF r [of x] L fits(1) [OF that] z fits(2) [OF that], of d beta f]
    show "d \<in> W x \<Longrightarrow> ?step x f d = beta * f d" "d \<notin> W x \<Longrightarrow> ?step x f d = f d"
      unfolding W_def by (fact b)+
  qed
  have disj: "W x \<inter> W y = {}" if "x \<noteq> y" for x y
  proof (rule ccontr)
    assume "W x \<inter> W y \<noteq> {}"
    then obtain i j where ij: "i < M" "j < M" "int (x * ldc) + int i = int (y * ldc) + int j" by (auto simp: W_def)
    then have "int (i + ldc * x) = int (j + ldc * y)" by (simp add: ac_simps)
    then have "i + ldc * x = j + ldc * y" by (simp only: of_nat_eq_iff)
    then show False using ld_index_inj [of i ldc j ldc x y] ij(1,2) ld that by simp
  qed
  have key: "(x \<in> set [0..<n] \<longrightarrow> d \<in> W x \<longrightarrow> fold ?step [0..<n] m d = ?step x m d) \<and>
      ((\<forall>x \<in> set [0..<n]. d \<notin> W x) \<longrightarrow> fold ?step [0..<n] m d = m d)" for x d
  proof (rule fold_disjoint_writers [where X = "{..<n}"])
    show "?step x f d = ?step x f' d"
      if "x \<in> {..<n}" "d \<in> W x" "\<And>d. (\<And>y. y \<in> {..<n} \<Longrightarrow> y \<noteq> x \<Longrightarrow> d \<notin> W y) \<Longrightarrow> f d = f' d" for x f f' d
    proof -
      have "f d = f' d" using disj that(2) by (intro that(3)) blast
      then show ?thesis using block(1) that by simp
    qed
  qed (use block disj in auto)
  show "x < n \<Longrightarrow> d \<in> W x \<Longrightarrow> go m d = beta * m d" using key [of x d] block(1) by (simp add: go_def)
  show "(\<And>x. x < n \<Longrightarrow> d \<notin> W x) \<Longrightarrow> go m d = m d" using key [of _ d] by (simp add: go_def)
qed

lemma adjacent_columns:
  assumes "0 < M"
  shows "c_cells M N p M bs = {ptr_add p (0 + int k) |k. k < N * M * bs}"
  unfolding c_cells_columns
proof (intro set_eqI iffI)
  fix d assume "d \<in> {ptr_add p (int (x * M + i)) |x i. x < bs * N \<and> i < M}"
  then obtain x i where "d = ptr_add p (0 + int (x * M + i))" "x < bs * N" "i < M" by auto
  then show "d \<in> {ptr_add p (0 + int k) |k. k < N * M * bs}"
    using reg_index(1) [of i M x "bs * N"] by (auto simp: ac_simps)
next
  fix d assume "d \<in> {ptr_add p (0 + int k) |k. k < N * M * bs}"
  then obtain k where k: "d = ptr_add p (int k)" "k < bs * N * M" by (auto simp: ac_simps)
  then have "d = ptr_add p (int (k div M * M + k mod M))" "k div M < bs * N" "k mod M < M"
    using assms by (simp_all add: less_mult_imp_div_less)
  then show "d \<in> {ptr_add p (int (x * M + i)) |x i. x < bs * N \<and> i < M}" by blast
qed

lemma gemm_backend_alpha_0:
  fixes beta :: "'v::semiring_0"
  assumes r: "\<And>i. is_run (r i)" and L: "0 < ph_work_group_size ph" and ld: "M \<le> ldc" and M: "0 < M"
    and fit: "columns_fit c M ldc (bs * N)" and n: "0 < bs * N"
  obtains m' where
    "gemm_backend launch r ph bd sz transA transB M N K 0 a lda b ldb beta c ldc bs bt m = Inr m'"
    "\<And>ta tb pa pb. gemm_result (beta = 0) ta tb M N K 0 pa lda pb ldb beta (it_buffer c, it_offset c) ldc bs m m'"
proof (cases "ldc = M")
  case True
  obtain k where k: "bs * N = Suc k" using n by (cases "bs * N") auto
  have "N * M * bs = (bs * N - 1) * ldc + M" unfolding k using True k by (simp add: ac_simps flip: mult.assoc)
  then have fits: "0 \<le> it_offset c" "it_offset c + 0 + int (N * M * bs) \<le> int (it_count c)"
    using fit n by (auto simp: columns_fit_def)
  have plus: "it_plus c 0 = c" by (simp add: it_plus_def)
  note scal = scal_block [OF r [of 0] L fits(1) order_refl fits(2), unfolded plus]
  show ?thesis
  proof (rule that)
    show "gemm_backend launch r ph bd sz transA transB M N K 0 a lda b ldb beta c ldc bs bt m
        = Inr (scal (r 0) ph (N * M * bs) beta c 1 m)"
      using True by (simp add: gemm_backend_def)
    show "gemm_result (beta = 0) ta tb M N K 0 pa lda pb ldb beta (it_buffer c, it_offset c) ldc bs m
        (scal (r 0) ph (N * M * bs) beta c 1 m)" for ta tb pa pb
      unfolding True by (rule gemm_result_scaled) (use scal in \<open>simp_all only: adjacent_columns [OF M]\<close>)
  qed
next
  case False
  let ?go = "fold (\<lambda>i. scal (r i) ph M beta (it_plus c (int (i * ldc))) 1) [0..<bs * N]"
  have cells: "c_cells M N (it_buffer c, it_offset c) ldc bs
      = (\<Union>x \<in> {..<bs * N}. {ptr_add (it_buffer c, it_offset c) (int (x * ldc) + int i) |i. i < M})"
    unfolding c_cells_columns of_nat_add by blast
  note cols = scaled_columns [where r = r, OF r L ld fit, where beta = beta and m = m]
  show ?thesis
  proof (rule that)
    show "gemm_backend launch r ph bd sz transA transB M N K 0 a lda b ldb beta c ldc bs bt m = Inr (?go m)"
      using False by (simp add: gemm_backend_def)
    show "gemm_result (beta = 0) ta tb M N K 0 pa lda pb ldb beta (it_buffer c, it_offset c) ldc bs m (?go m)" for ta tb pa pb
    proof (rule gemm_result_scaled)
      show "?go m d = beta * m d" if "d \<in> c_cells M N (it_buffer c, it_offset c) ldc bs" for d
        using that unfolding cells by (elim UN_E) (rule cols(1), simp_all)
      show "?go m d = m d" if "d \<notin> c_cells M N (it_buffer c, it_offset c) ldc bs" for d
        using that unfolding cells by (intro cols(2)) blast
    qed
  qed
qed

section \<open>The contract between the interface and a launch\<close>

locale gemm_launcher =
  fixes supported :: "Gemm_Launcher \<Rightarrow> bool"
    and launch :: "'v::semiring_0 gemm_launch"
  assumes launch_result: "supported cfg \<Longrightarrow> 0 < M \<Longrightarrow> M \<le> ldc \<Longrightarrow> it_buffer a \<noteq> it_buffer c \<Longrightarrow>
      it_buffer b \<noteq> it_buffer c \<Longrightarrow> alpha \<noteq> 0 \<Longrightarrow>
      gemm_result (beta_zero cfg) (TransA cfg) (TransB cfg) M N K alpha (it_buffer a, it_offset a) lda
        (it_buffer b, it_offset b) ldb beta (it_buffer c, it_offset c) ldc bs m
        (launch cfg M N K alpha a lda b ldb beta c ldc bs m)"
begin

text \<open>On a supported configuration the interface computes the product.\<close>

lemma backend_result:
  assumes r: "\<And>i. is_run (r i)" and L: "0 < ph_work_group_size ph" and dims: "0 < M" "0 < N \<or> alpha \<noteq> 0" "0 < bs" "M \<le> ldc"
    and bufs: "it_buffer a \<noteq> it_buffer c" "it_buffer b \<noteq> it_buffer c" and fit: "columns_fit c M ldc (bs * N)"
    and legal: "tolower transA \<in> {CHR ''n'', CHR ''t'', CHR ''c''}" "tolower transB \<in> {CHR ''n'', CHR ''t'', CHR ''c''}"
    and cfg: "supported (backend_gemm bd sz (tolower transA \<noteq> CHR ''n'') (tolower transB \<noteq> CHR ''n'') (beta = 0) M N K bs bt)"
  shows "\<exists>m'. gemm_backend launch r ph bd sz transA transB M N K alpha a lda b ldb beta c ldc bs bt m = Inr m' \<and>
     gemm_result (beta = 0) (tolower transA \<noteq> CHR ''n'') (tolower transB \<noteq> CHR ''n'') M N K alpha
       (it_buffer a, it_offset a) lda (it_buffer b, it_offset b) ldb beta (it_buffer c, it_offset c) ldc bs m m'"
proof (cases "alpha = 0")
  case True
  have n: "0 < bs * N" using dims True by simp
  show ?thesis unfolding True 
    by (rule gemm_backend_alpha_0 [where r = r and launch = launch and bd = bd and sz = sz and transA = transA and
        transB = transB and K = K and a = a and lda = lda and b = b and ldb = ldb and beta = beta and bt = bt and m = m,
        OF r L dims(4,1) fit n]) blast
next
  case False
  let ?ta = "tolower transA \<noteq> CHR ''n''" and ?tb = "tolower transB \<noteq> CHR ''n''"
  let ?cfg = "backend_gemm bd sz ?ta ?tb (beta = 0) M N K bs bt"
  let ?m' = "launch ?cfg M N K alpha a lda b ldb beta c ldc bs m"
  have "gemm_backend launch r ph bd sz transA transB M N K alpha a lda b ldb beta c ldc bs bt m = Inr ?m'"
    using False legal by (auto simp: gemm_backend_def gemm_is_beta_zero_def gemm_platform_specific_def Let_def)
  moreover have "serves_request ?ta ?tb (beta = 0) bs bt ?cfg" by (rule backend_serves)
  then have "beta_zero ?cfg = (beta = 0)" "TransA ?cfg = ?ta" "TransB ?cfg = ?tb" by (simp_all add: serves_request_def)
  ultimately show ?thesis
    using launch_result [OF cfg dims(1,4) bufs False, of N K lda ldb beta bs m] by simp
qed

end

section \<open>The kernels that are modelled\<close>

definition kernel_supported :: "bool \<Rightarrow> nat \<Rightarrow> Gemm_Launcher \<Rightarrow> bool" where
  "kernel_supported v sz cfg \<longleftrightarrow>
     0 < wg_rows (TileT cfg) \<and> 0 < wg_cols (TileT cfg) \<and> 0 < item_rows (TileT cfg) \<and> 0 < item_cols (TileT cfg) \<and>
     (kernel_of cfg = Some GemmRef \<or> kernel_of cfg = Some GemmLocal \<and> local_cfg_ok v sz cfg \<or>
      kernel_of cfg = Some GemmNoLocalPartial \<and> no_local_partial_asserts v cfg \<or>
      kernel_of cfg = Some GemmNoLocalFull \<and> no_local_full_asserts v cfg)"

interpretation sg: gemm_launcher "\<lambda>cfg. is_run r \<and> kernel_supported v sz cfg"
  "select_gemm r ph v sz u other :: 'v::field gemm_launch" for r ph v sz u other
proof
  fix cfg :: Gemm_Launcher and M N K ldc lda ldb bs :: nat and a c b :: BufferIterator and alpha beta :: 'v and m
  assume cfg: "is_run r \<and> kernel_supported v sz cfg" and dims: "0 < M" "M \<le> ldc"
    and bufs: "it_buffer a \<noteq> it_buffer c" "it_buffer b \<noteq> it_buffer c" and alpha: "alpha \<noteq> 0"
  have tile: "0 < wg_rows (TileT cfg)" "0 < wg_cols (TileT cfg)" "0 < item_rows (TileT cfg)" "0 < item_cols (TileT cfg)"
    and r: "is_run r" using cfg by (simp_all add: kernel_supported_def)
  note ref = gemm_ref_result [OF r dims bufs tile(1,2)]
    and lg = gemm_local_result [OF r dims bufs alpha, of v sz]
    and np = gemm_no_local_partial_result [OF r dims bufs alpha _ tile(3,4,1,2), of v]
    and nf = gemm_no_local_full_result [OF r dims bufs alpha _ tile(3,4,1,2), of v]
  consider "kernel_of cfg = Some GemmRef" | "kernel_of cfg = Some GemmLocal" "local_cfg_ok v sz cfg" | "kernel_of cfg = Some GemmNoLocalPartial" "no_local_partial_asserts v cfg"
    | "kernel_of cfg = Some GemmNoLocalFull" "no_local_full_asserts v cfg"
    using cfg by (auto simp: kernel_supported_def)
  then show "gemm_result (beta_zero cfg) (TransA cfg) (TransB cfg) M N K alpha (it_buffer a, it_offset a) lda
        (it_buffer b, it_offset b) ldb beta (it_buffer c, it_offset c) ldc bs m
        (select_gemm r ph v sz u other cfg M N K alpha a lda b ldb beta c ldc bs m)"
    by cases (simp_all add: select_gemm_def ref lg np nf)
qed

text \<open>Builds that run these kernels: every target, for elements of the size of \<open>float\<close> or \<open>double\<close>, when the
  tall and skinny algorithm is off on the two targets that have it.\<close>

definition modelled_build :: "gemm_build \<Rightarrow> nat \<Rightarrow> bool" where
  "modelled_build bd sz \<longleftrightarrow> (sz = 4 \<or> sz = 8) \<and>
     (target bd \<in> {target_intel_gpu, target_amd_gpu} \<longrightarrow> \<not> GEMM_TALL_SKINNY_SUPPORT bd)"

lemma kernel_supported_if: "kernel_supported v sz a \<Longrightarrow> kernel_supported v sz b \<Longrightarrow> kernel_supported v sz (if c then a else b)"
  by simp

lemma kernel_supported_strided:
  "kernel_supported v sz b \<Longrightarrow> kernel_supported v sz (if strided_batch = interleaved_batch then a else b)"
  by simp

lemmas supported_defs = kernel_supported_def make_launcher_def local_cfg_ok_def gemm_local_asserts_def no_local_partial_asserts_def
  no_local_full_asserts_def check_size_def packet_size_def Tile4_def Let_def

lemma arm_supported:
  "kernel_supported v sz (arm_vgg_16 t_a t_b z M N K bs)" "kernel_supported v sz (arm_default t_a t_b z M N K bs)"
  "kernel_supported v sz (arm_resnet_50 t_a t_b z M N K bs)"
  unfolding backend_defs by (rule kernel_supported_if | simp add: supported_defs; fail)+

lemma targets_supported:
  assumes "sz = 4 \<or> sz = 8"
  shows "kernel_supported v sz (rcar_gemm t_a t_b z M N K bs strided_batch)"
    and "kernel_supported v sz (power_vr_gemm t_a t_b z M N K bs strided_batch)"
    and "kernel_supported v sz (nvidia_gpu_gemm t_a t_b z M N K bs strided_batch)"
    and "kernel_supported v sz (default_cpu_gemm nv t_a t_b z M N K bs strided_batch)"
    and "kernel_supported v sz (intel_gpu_gemm False sz t_a t_b z M N K bs strided_batch)"
    and "kernel_supported v sz (amd_gpu_gemm False sz t_a t_b z M N K bs strided_batch)"
  using assms unfolding backend_defs Let_def simp_thms if_False
  by - (elim disjE; hypsubst; (rule kernel_supported_strided kernel_supported_if | simp add: supported_defs; fail)+)+

lemma modelled_build_supported:
  assumes "modelled_build bd sz"
  shows "kernel_supported v sz (backend_gemm bd sz t_a t_b z M N K bs strided_batch)"
  using assms targets_supported [of sz] arm_supported
  by (auto simp: modelled_build_def backend_gemm_def arm_gpu_gemm_def split: gemm_target.split arm_model.split)

section \<open>Properties\<close>

text \<open>The letters for a transposition.\<close>

definition legal_trans :: "char \<Rightarrow> bool" where
  "legal_trans c \<longleftrightarrow> tolower c \<in> {CHR ''n'', CHR ''t'', CHR ''c''}"

definition transposed :: "char \<Rightarrow> bool" where
  "transposed c \<longleftrightarrow> tolower c \<noteq> CHR ''n''"

lemma gemm_batched_result:
  assumes "is_run rl" "\<And>i. is_run (r i)" "0 < ph_work_group_size ph" "0 < M" "0 < N \<or> alpha \<noteq> 0" "0 < bs" "M \<le> ldc"
    and "it_buffer a \<noteq> it_buffer c" "it_buffer b \<noteq> it_buffer c" "columns_fit c M ldc (bs * N)"
    and "legal_trans transA" "legal_trans transB" "modelled_build bd sz"
  shows "\<exists>m'. gemm_batched (select_gemm rl ph v sz u other) r ph bd sz transA transB M N K (alpha :: 'v::field)
       a lda b ldb beta c ldc bs strided_batch m = Inr m' \<and>
     gemm_result (beta = 0) (transposed transA) (transposed transB) M N K alpha (it_buffer a, it_offset a) lda
       (it_buffer b, it_offset b) ldb beta (it_buffer c, it_offset c) ldc bs m m'"
  unfolding gemm_batched_def transposed_def
  by (rule sg.backend_result)
    (use assms modelled_build_supported in \<open>simp_all add: legal_trans_def\<close>)

definition arm_build :: gemm_build where
  "arm_build = \<lparr>target = target_arm_gpu, GEMM_TALL_SKINNY_SUPPORT = False, GEMM_VECTORIZATION_SUPPORT = False,
     NAIVE_GEMM = False, model = MODEL_OTHER\<rparr>"

lemma tolower_samples: "tolower (CHR ''N'') = CHR ''n''" "tolower (CHR ''t'') = CHR ''t''" "tolower (CHR ''n'') = CHR ''n''"
  by code_simp+

text \<open>C3: \<open>_gemm_batched\<close> on the modelled builds computes \<open>alpha * op(A) * op(B) + beta * C\<close> for every matrix of
  a strided batch, for all scalars, zero included, and changes nothing else.\<close>

theorem gemm_batched_correct:
  assumes "is_run rl" "\<And>i. is_run (r i)" "0 < ph_work_group_size ph" "0 < M" "0 < N \<or> alpha \<noteq> 0" "0 < bs" "M \<le> ldc"
    and "it_buffer a \<noteq> it_buffer c" "it_buffer b \<noteq> it_buffer c" "columns_fit c M ldc (bs * N)"
    and "legal_trans transA" "legal_trans transB" "modelled_build bd sz"
  shows "\<exists>m'. gemm_batched (select_gemm rl ph v sz u other) r ph bd sz transA transB M N K (alpha :: 'v::field)
       a lda b ldb beta c ldc bs strided_batch m = Inr m' \<and>
     gemm_result (beta = 0) (transposed transA) (transposed transB) M N K alpha (it_buffer a, it_offset a) lda
       (it_buffer b, it_offset b) ldb beta (it_buffer c, it_offset c) ldc bs m m'"
  by (rule gemm_batched_result [OF assms])

lemma gemm_batched_correct_witness:
  "\<exists>m'. gemm_batched (select_gemm (seq_run 8) sample_ph False 4 (\<lambda>_. 7) (\<lambda>_ m. m)) (\<lambda>_. seq_run ()) sample_ph
       arm_build 4 (CHR ''N'') (CHR ''t'') 2 2 1 (3 :: real) (sample_it 1) 2 (sample_it 2) 2 2 (sample_it 3) 2 1
       strided_batch real_mem = Inr m' \<and> m' (3, 3) = 3 * (real_mem (1, 1) * real_mem (2, 1)) + 2 * real_mem (3, 3) \<and>
     m' (3, 4) = real_mem (3, 4)"
proof -
  have letters: "legal_trans (CHR ''N'')" "legal_trans (CHR ''t'')" "\<not> transposed (CHR ''N'')" "transposed (CHR ''t'')"
    by (simp_all add: legal_trans_def transposed_def tolower_samples)
  have fit: "columns_fit (sample_it 3) 2 2 (1 * 2)"
    by (simp add: columns_fit_def sample_it_def make_sycl_iterator_buffer_def)
  obtain m' where m': "gemm_batched (select_gemm (seq_run 8) sample_ph False 4 (\<lambda>_. 7) (\<lambda>_ m. m)) (\<lambda>_. seq_run ()) sample_ph
       arm_build 4 (CHR ''N'') (CHR ''t'') 2 2 1 (3 :: real) (sample_it 1) 2 (sample_it 2) 2 2 (sample_it 3) 2 1
       strided_batch real_mem = Inr m'"
    "gemm_result ((2::real) = 0) (transposed (CHR ''N'')) (transposed (CHR ''t'')) 2 2 1 3 (1, 0) 2 (2, 0) 2 2 (3, 0) 2 1 real_mem m'"
    using gemm_batched_correct [where rl = "seq_run 8" and ph = sample_ph and r = "\<lambda>_. seq_run ()" and bd = arm_build and M = 2 and N = 2 and K = 1 and bs = 1
        and a = "sample_it 1" and b = "sample_it 2" and v = False and u = "\<lambda>_. 7" and other = "\<lambda>_ m. m" and sz = 4 and alpha = 3
        and lda = 2 and ldb = 2 and beta = 2 and m = real_mem, OF is_run_seq is_run_seq _ _ _ _ _ _ _ fit letters(1,2)]
    by (auto simp: arm_build_def modelled_build_def)
  have "m' (batch_cell (3, 0) (2 * 2) 2 0 1 1) = 3 * (real_mem (1, 1) * real_mem (2, 1)) + 2 * real_mem (3, 3)"
    using m'(2) letters(3,4) by (simp add: gemm_result_def product_of_def operand_cell_def batch_cell_def less_cases)
  moreover have "m' (3, 4) = real_mem (3, 4)"
    using m'(2) by (auto simp: gemm_result_def c_cells_def batch_cell_def)
  ultimately show ?thesis using m'(1) by (simp add: batch_cell_def)
qed

text \<open>The matrices of mathematics.\<close>

type_synonym 'v matrix = "nat \<Rightarrow> nat \<Rightarrow> 'v"

definition read_matrix :: "'v::zero mem \<Rightarrow> BufferIterator \<Rightarrow> nat \<Rightarrow> nat \<Rightarrow> nat \<Rightarrow> 'v matrix" where
  "read_matrix m it rows cols ld =
     (\<lambda>i j. if i < rows \<and> j < cols then m (it_buffer it, it_offset it + int (i + j * ld)) else 0)"

definition mat_op :: "bool \<Rightarrow> 'v matrix \<Rightarrow> 'v matrix" where
  "mat_op tr A = (if tr then (\<lambda>i j. A j i) else A)"

definition mat_gemm :: "nat \<Rightarrow> 'v::semiring_0 \<Rightarrow> 'v matrix \<Rightarrow> 'v matrix \<Rightarrow> 'v \<Rightarrow> 'v matrix \<Rightarrow> 'v matrix" where
  "mat_gemm K alpha A B beta C = (\<lambda>i j. alpha * (\<Sum>l<K. A i l * B l j) + beta * C i j)"

lemma gemm_read_result:
  assumes "is_run rl" "\<And>i. is_run (r i)" "0 < ph_work_group_size ph" "0 < M" "0 < N \<or> alpha \<noteq> 0" "M \<le> ldc"
    and "it_buffer a \<noteq> it_buffer c" "it_buffer b \<noteq> it_buffer c" "columns_fit c M ldc N"
    and "legal_trans transA" "legal_trans transB" "modelled_build bd sz"
  shows "\<exists>m'. gemm (select_gemm rl ph v sz u other) r ph bd sz transA transB M N K (alpha :: 'v::field)
       a lda b ldb beta c ldc m = Inr m' \<and>
     read_matrix m' c M N ldc = mat_gemm K alpha
       (mat_op (transposed transA) (if transposed transA then read_matrix m a K M lda else read_matrix m a M K lda))
       (mat_op (transposed transB) (if transposed transB then read_matrix m b N K ldb else read_matrix m b K N ldb))
       beta (read_matrix m c M N ldc)"
proof -
  obtain m' where m': "gemm (select_gemm rl ph v sz u other) r ph bd sz transA transB M N K alpha a lda b ldb beta c ldc m = Inr m'"
    "gemm_result (beta = 0) (transposed transA) (transposed transB) M N K alpha (it_buffer a, it_offset a) lda
       (it_buffer b, it_offset b) ldb beta (it_buffer c, it_offset c) ldc 1 m m'"
    using gemm_batched_result [where r = r, OF assms(1-5) _ assms(6-8) _ assms(10-12), where bs = 1 and v = v and u = u and other = other
      and lda = lda and ldb = ldb and beta = beta and m = m] assms(9)
    by (auto simp: gemm_batched_def gemm_def)
  show ?thesis
  proof (intro exI conjI, rule m'(1), intro ext)
    fix i j
    have "m' (batch_cell (it_buffer c, it_offset c) (ldc * N) ldc 0 i j)
        = alpha * product_of (transposed transA) (transposed transB) M N K (it_buffer a, it_offset a) lda (it_buffer b, it_offset b) ldb m 0 i j
          + (if beta = 0 then 0 else beta * m (batch_cell (it_buffer c, it_offset c) (ldc * N) ldc 0 i j))"
      if "i < M" "j < N"
      using m'(2) that by (simp add: gemm_result_def)
    then show "read_matrix m' c M N ldc i j = mat_gemm K alpha
       (mat_op (transposed transA) (if transposed transA then read_matrix m a K M lda else read_matrix m a M K lda))
       (mat_op (transposed transB) (if transposed transB then read_matrix m b N K ldb else read_matrix m b K N ldb))
       beta (read_matrix m c M N ldc) i j"
      by (auto simp: read_matrix_def mat_gemm_def mat_op_def product_of_def operand_cell_def batch_cell_def ac_simps
          intro!: sum.cong)
  qed
qed

text \<open>C1: \<open>_gemm\<close> refines the product of mathematics: reading \<open>C\<close> back after the call gives
  \<open>alpha * op(A) * op(B) + beta * C\<close> of the matrices read before it.\<close>

theorem gemm_refines_product:
  assumes "is_run rl" "\<And>i. is_run (r i)" "0 < ph_work_group_size ph" "0 < M" "0 < N \<or> alpha \<noteq> 0" "M \<le> ldc"
    and "it_buffer a \<noteq> it_buffer c" "it_buffer b \<noteq> it_buffer c" "columns_fit c M ldc N"
    and "legal_trans transA" "legal_trans transB" "modelled_build bd sz"
  shows "\<exists>m'. gemm (select_gemm rl ph v sz u other) r ph bd sz transA transB M N K (alpha :: 'v::field)
       a lda b ldb beta c ldc m = Inr m' \<and>
     read_matrix m' c M N ldc = mat_gemm K alpha
       (mat_op (transposed transA) (if transposed transA then read_matrix m a K M lda else read_matrix m a M K lda))
       (mat_op (transposed transB) (if transposed transB then read_matrix m b N K ldb else read_matrix m b K N ldb))
       beta (read_matrix m c M N ldc)"
  by (rule gemm_read_result [OF assms])

lemma gemm_refines_product_witness:
  "\<exists>m'. gemm (select_gemm (seq_run 8) sample_ph False 4 (\<lambda>_. 7) (\<lambda>_ m. m)) (\<lambda>_. seq_run ()) sample_ph
       arm_build 4 (CHR ''N'') (CHR ''n'') 1 1 2 (3 :: real) (sample_it 1) 1 (sample_it 2) 2 0 (sample_it 3) 1 real_mem = Inr m' \<and>
     m' (3, 0) = 3 * (1 * 2 + 2 * 3)"
proof -
  have letters: "legal_trans (CHR ''N'')" "legal_trans (CHR ''n'')" "\<not> transposed (CHR ''N'')" "\<not> transposed (CHR ''n'')"
    by (simp_all add: legal_trans_def transposed_def tolower_samples)
  have fit: "columns_fit (sample_it 3) 1 1 1"
    by (simp add: columns_fit_def sample_it_def make_sycl_iterator_buffer_def)
  obtain m' where m': "gemm (select_gemm (seq_run 8) sample_ph False 4 (\<lambda>_. 7) (\<lambda>_ m. m)) (\<lambda>_. seq_run ()) sample_ph
       arm_build 4 (CHR ''N'') (CHR ''n'') 1 1 2 (3 :: real) (sample_it 1) 1 (sample_it 2) 2 0 (sample_it 3) 1 real_mem = Inr m'"
    "read_matrix m' (sample_it 3) 1 1 1 = mat_gemm 2 3 (read_matrix real_mem (sample_it 1) 1 2 1)
       (read_matrix real_mem (sample_it 2) 2 1 2) 0 (read_matrix real_mem (sample_it 3) 1 1 1)"
    using gemm_refines_product [where rl = "seq_run 8" and ph = sample_ph and r = "\<lambda>_. seq_run ()" and bd = arm_build and M = 1 and N = 1 and K = 2
        and a = "sample_it 1" and b = "sample_it 2" and v = False and u = "\<lambda>_. 7" and other = "\<lambda>_ m. m" and sz = 4 and alpha = 3
        and lda = 1 and ldb = 2 and beta = 0 and m = real_mem, OF is_run_seq is_run_seq _ _ _ _ _ _ fit letters(1,2)] letters(3,4)
    by (auto simp: arm_build_def modelled_build_def mat_op_def)
  have "m' (3, 0) = 3 * (1 * 2 + 2 * 3)"
    using fun_cong [OF fun_cong [OF m'(2), of 0], of 0]
    by (simp add: read_matrix_def mat_gemm_def real_mem_def numeral_2_eq_2)
  then show ?thesis using m'(1) by blast
qed

text \<open>C14: \<open>_gemm\<close> refuses letters other than n, t and c, that of \<open>A\<close> first, and nothing else; with \<open>alpha = 0\<close>
  it does not look at them.\<close>

theorem gemm_refuses:
  "gemm launch r ph bd sz transA transB M N K alpha a lda b ldb beta c ldc m = Inl e \<longleftrightarrow>
     alpha \<noteq> 0 \<and> (if legal_trans transA then \<not> legal_trans transB \<and> e = invalid_TransB else e = invalid_TransA)"
  by (auto simp: gemm_def gemm_backend_def legal_trans_def Let_def)

end
