(* ===== verification/Gemm_Interleaved_Correct.thy ===== *)
theory Gemm_Interleaved_Correct
  imports Gemm_Interleaved
begin

text \<open>
  What the kernel for interleaved batches computes. The counters of its loops name the right registers when an
  element is one packet or no item reaches over the edge (\<open>il_place_ok\<close>); then a launch computes every product
  (\<open>il_launch\<close>).
\<close>

section \<open>Loops that count registers along\<close>

text \<open>Nested loops as one loop over tuples, and registers that are each updated once.\<close>

lemma fold_nested: "fold (\<lambda>i. fold (g i) ys) xs s = fold (\<lambda>(i, j). g i j) (List.product xs ys) s"
  by (induction xs arbitrary: s) (simp_all add: fold_map comp_def)

lemma fold_nested3:
  "fold (\<lambda>i. fold (\<lambda>j. fold (g i j) zs) ys) xs s = fold (\<lambda>(i, j, q). g i j q) (List.product xs (List.product ys zs)) s"
proof -
  have inner: "fold (\<lambda>j. fold (g i j) zs) ys = fold (\<lambda>(j, q). g i j q) (List.product ys zs)" for i
    by (rule ext) (rule fold_nested)
  show ?thesis unfolding inner fold_nested ..
qed

lemma fold_nested4:
  "fold (\<lambda>i. fold (\<lambda>j. fold (\<lambda>q. fold (g i j q) ws) zs) ys) xs s
   = fold (\<lambda>(i, j, q, l). g i j q l) (List.product xs (List.product ys (List.product zs ws))) s"
proof -
  have inner: "fold (\<lambda>q. fold (g i j q) ws) zs = fold (\<lambda>(q, l). g i j q l) (List.product zs ws)" for i j
    by (rule ext) (rule fold_nested)
  show ?thesis unfolding inner fold_nested3 ..
qed

lemma fold_upd_keys:
  assumes "distinct xs" "inj_on k (set xs)" "x \<in> set xs"
  shows "fold (\<lambda>x reg. reg(k x := f x (reg (k x)))) xs reg (k x) = f x (reg (k x))"
proof -
  have miss: "fold (\<lambda>x reg. reg(k x := f x (reg (k x)))) ys reg y = reg y" if "y \<notin> k ` set ys" for ys reg y
    using that by (induction ys arbitrary: reg) auto
  show ?thesis
    using assms
  proof (induction xs arbitrary: reg)
    case (Cons z xs)
    show ?case
    proof (cases "x = z")
      case True
      then have "k x \<notin> k ` set xs" using Cons.prems by (auto simp: inj_on_def)
      have "fold (\<lambda>x reg. reg(k x := f x (reg (k x)))) (z # xs) reg (k x)
          = fold (\<lambda>x reg. reg(k x := f x (reg (k x)))) xs (reg(k z := f z (reg (k z)))) (k x)" by simp
      also have "\<dots> = (reg(k z := f z (reg (k z)))) (k x)" by (rule miss) fact
      finally show ?thesis unfolding True fun_upd_same .
    next
      case False
      then have "k z \<noteq> k x" using Cons.prems by (auto simp: inj_on_def)
      then show ?thesis using False Cons by (auto simp: inj_on_def)
    qed
  qed simp
qed

lemma fold_reg_nest:
  fixes i j q :: nat
  assumes "i < cols" "j < rows" "q < packets"
  shows "fold (\<lambda>i. fold (\<lambda>j. fold (\<lambda>q reg. reg((i * rows + j) * packets + q := f i j q (reg ((i * rows + j) * packets + q))))
      [0..<packets]) [0..<rows]) [0..<cols] reg ((i * rows + j) * packets + q)
    = f i j q (reg ((i * rows + j) * packets + q))"
proof -
  let ?k = "\<lambda>(i, j, q). (i * rows + j) * packets + q"
  let ?xs = "List.product [0..<cols] (List.product [0..<rows] [0..<packets])"
  have "inj_on ?k (set ?xs)"
  proof (rule inj_onI, clarsimp)
    fix i j q i' j' q'
    assume b: "j < rows" "j' < rows" "q < packets" "q' < packets"
      and e: "(i * rows + j) * packets + q = (i' * rows + j') * packets + q'"
    have "q = q'" "i * rows + j = i' * rows + j'" using arg_cong [OF e, of "\<lambda>x. x mod packets"] arg_cong [OF e, of "\<lambda>x. x div packets"] b by simp_all
    then show "i = i' \<and> j = j' \<and> q = q'"
      using arg_cong [of _ _ "\<lambda>x. x mod rows"] arg_cong [of _ _ "\<lambda>x. x div rows"] b by (metis reg_index(2,3) lessI)
  qed
  moreover have "distinct ?xs" by (simp add: distinct_product)
  ultimately show ?thesis
    unfolding fold_nested3
    using fold_upd_keys [of ?xs ?k "(i, j, q)" "\<lambda>(i, j, q). f i j q" reg] assms
    by (simp add: case_prod_unfold)
qed

lemma fold_reg_guard:
  "(if c then fold (\<lambda>q reg. reg(k q := f q)) xs reg else reg)
   = fold (\<lambda>q reg. reg(k q := (if c then f q else reg (k q)))) xs reg"
proof (cases c)
  case False
  then show ?thesis by (induction xs arbitrary: reg) simp_all
qed simp

text \<open>A counter beside the state: over the packets of an element, the rows of a column, the columns.\<close>

lemma fold_count:
  "fold (\<lambda>b (s, pos). (f b pos s, pos + 1)) [0..<n] (s, a) = (fold (\<lambda>b. f b (a + b)) [0..<n] s, a + n)"
  by (induction n) simp_all

lemma fold_count_nest:
  "fold (\<lambda>i. fold (\<lambda>j. fold (\<lambda>b (s, pos). (f i j b pos s, pos + 1)) [0..<p]) [0..<n]) [0..<k] (s, 0)
   = (fold (\<lambda>i. fold (\<lambda>j. fold (\<lambda>b. f i j b ((i * n + j) * p + b)) [0..<p]) [0..<n]) [0..<k] s, k * n * p)"
proof -
  have row: "fold (\<lambda>j. fold (\<lambda>b (s, pos). (g j b pos s, pos + 1)) [0..<p]) [0..<n] (s, a)
      = (fold (\<lambda>j. fold (\<lambda>b. g j b (a + j * p + b)) [0..<p]) [0..<n] s, a + n * p)"
    for g :: "nat \<Rightarrow> nat \<Rightarrow> nat \<Rightarrow> 'a \<Rightarrow> 'a" and s a
    by (induction n) (simp_all add: fold_count [simplified] algebra_simps)
  show ?thesis
    by (induction k) (simp_all add: row [simplified] algebra_simps)
qed

lemma fold_count_rows:
  fixes n packets :: nat
  assumes inner: "\<And>j out s pos. g j out (s, pos) = (h j pos out s, pos + packets)"
    and skip: "\<And>j. j < n \<Longrightarrow> \<not> ok j \<Longrightarrow> packets = 1"
    and down: "\<And>i j. i < j \<Longrightarrow> ok j \<Longrightarrow> ok i"
  shows "fst (fold (\<lambda>j ((s, pos), out). if \<not> ok j then ((s, pos + 1), out) else (g j out (s, pos), ptr_add out d)) [0..<n] ((s, a), p))
    = (fold (\<lambda>j s. if ok j then h j (a + j * packets) (ptr_add p (int j * d)) s else s) [0..<n] s, a + n * packets)"
proof -
  have "fst (fold (\<lambda>j ((s, pos), out). if \<not> ok j then ((s, pos + 1), out) else (g j out (s, pos), ptr_add out d)) [0..<n] ((s, a), p))
      = (fold (\<lambda>j s. if ok j then h j (a + j * packets) (ptr_add p (int j * d)) s else s) [0..<n] s, a + n * packets) \<and>
    ((\<forall>j < n. ok j) \<longrightarrow> snd (fold (\<lambda>j ((s, pos), out). if \<not> ok j then ((s, pos + 1), out) else (g j out (s, pos), ptr_add out d)) [0..<n] ((s, a), p))
      = ptr_add p (int n * d))"
    (is "fst (?F n) = ?G n \<and> (_ \<longrightarrow> snd (?F n) = _)")
    using skip
  proof (induction n)
    case (Suc n)
    obtain s' out where F: "?F n = ((s', a + n * packets), out)" and s': "s' = fst (?G n)"
      and out: "(\<forall>j < n. ok j) \<longrightarrow> out = ptr_add p (int n * d)"
      using Suc by (metis (no_types, lifting) fst_conv less_SucI prod.collapse snd_conv)
    show ?case
    proof (cases "ok n")
      case True
      then have "out = ptr_add p (int n * d)" using out down by blast
      then show ?thesis using F s' True by (simp add: inner algebra_simps)
    next
      case False
      then have "packets = 1" using Suc.prems [of n] by simp
      then show ?thesis using F s' False by auto
    qed
  qed simp
  then show ?thesis ..
qed

lemma fold_count_cols:
  fixes n w :: nat
  assumes "\<And>i C s a. i < n \<Longrightarrow> row i C (s, a) = (h i a C s, a + w)"
  shows "fold (\<lambda>i (sp, C). (row i C sp, ptr_add C e)) [0..<n] ((s, 0), C)
    = ((fold (\<lambda>i. h i (i * w) (ptr_add C (int i * e))) [0..<n] s, n * w), ptr_add C (int n * e))"
  using assms by (induction n) (simp_all add: algebra_simps)

section \<open>The registers of an item\<close>

definition il_packets :: "'v Gemm \<Rightarrow> nat" where
  "il_packets t = gm_item_batchs t div gm_vector t"

text \<open>The counters follow the registers: an element is one packet, or no row and no column of the item is outside.\<close>

definition il_place_ok :: "'v Gemm \<Rightarrow> il_place \<Rightarrow> bool" where
  "il_place_ok t p \<longleftrightarrow> 0 < gm_vector t \<and> gm_item_batchs t mod gm_vector t = 0 \<and>
     (\<not> il_check p \<longrightarrow> il_m_start p + gm_item_rows t \<le> gm_m t \<and> il_n_start p + gm_item_cols t \<le> gm_n t \<and>
        il_mb_start p + gm_wg_batchs t * (gm_item_batchs t - gm_vector t) + gm_vector t \<le> gm_batch_size t) \<and>
     (il_packets t = 1 \<or> il_m_start p + gm_item_rows t \<le> gm_m t \<and> il_n_start p + gm_item_cols t \<le> gm_n t)"

lemma il_offsets_eq:
  assumes "il_place_ok t p"
  shows "il_offsets t = map (\<lambda>q. q * gm_vector t) [0..<il_packets t]"
proof -
  have "strided a (a + n * s) s = map (\<lambda>q. a + q * s) [0..<n]" if "0 < s" for a n s
  proof (induction n arbitrary: a)
    case (Suc n)
    show ?case
      using Suc [of "a + s"] that by (subst strided.simps) (simp add: upt_conv_Cons add.assoc map_Suc_upt [symmetric] del: upt_Suc)
  qed simp
  from this [of "gm_vector t" 0 "il_packets t"] show ?thesis
    using assms by (auto simp: il_offsets_def il_place_ok_def il_packets_def)
qed

text \<open>Loops over the packets of an element.\<close>

lemma fold_offsets_count:
  assumes "il_place_ok t p"
  shows "fold (\<lambda>b (s, pos). (f b pos s, pos + 1)) (il_offsets t) (s, a)
    = (fold (\<lambda>q. f (q * gm_vector t) (a + q)) [0..<il_packets t] s, a + il_packets t)"
  unfolding il_offsets_eq [OF assms] fold_map comp_def by (rule fold_count)


lemma il_down: "i < j \<Longrightarrow> il_in_range t p c j \<Longrightarrow> il_in_range t p c i"
  by (auto simp: il_in_range_def do_check_def split: if_splits)

lemma il_skip:
  assumes "il_place_ok t p" "j < gm_item_rows t" "i < gm_item_cols t" "\<not> il_in_range t p i j"
  shows "il_packets t = 1"
  using assms by (auto simp: il_place_ok_def il_in_range_def do_check_def split: if_splits)

text \<open>What loops over the elements of an item do: \<open>h\<close> is the step for a packet.\<close>

lemma il_element_loop:
  fixes t :: "'v Gemm"
  assumes ok: "il_place_ok t p"
  shows "fst (fst (fold (\<lambda>i (sp, C).
      (fst (fold (\<lambda>j ((s, pos), out). if \<not> il_in_range t p i j then ((s, pos + 1), out)
          else (fold (\<lambda>b (s, pos). (h out b pos s, pos + 1)) (il_offsets t) (s, pos), ptr_add out d))
        [0..<gm_item_rows t] (sp, C)), ptr_add C e)) [0..<gm_item_cols t] ((s, 0), C)))
    = fold (\<lambda>i. fold (\<lambda>j s. if il_in_range t p i j
          then fold (\<lambda>q. h (ptr_add C (int i * e + int j * d)) (q * gm_vector t) ((i * gm_item_rows t + j) * il_packets t + q)) [0..<il_packets t] s
          else s) [0..<gm_item_rows t]) [0..<gm_item_cols t] s"
proof -
  have inner: "fold (\<lambda>b (s, pos). (h out b pos s, pos + 1)) (il_offsets t) (s, pos)
      = (fold (\<lambda>q. h out (q * gm_vector t) (pos + q)) [0..<il_packets t] s, pos + il_packets t)" for out s pos
    by (rule fold_offsets_count [OF ok])
  let ?row = "\<lambda>i C sp. fst (fold (\<lambda>j ((s, pos), out). if \<not> il_in_range t p i j then ((s, pos + 1), out)
          else (fold (\<lambda>b (s, pos). (h out b pos s, pos + 1)) (il_offsets t) (s, pos), ptr_add out d))
        [0..<gm_item_rows t] (sp, C))"
  let ?h = "\<lambda>i a C. fold (\<lambda>j s. if il_in_range t p i j
      then fold (\<lambda>q. h (ptr_add C (int j * d)) (q * gm_vector t) (a + j * il_packets t + q)) [0..<il_packets t] s else s)
      [0..<gm_item_rows t]"
  have row: "?row i C (s, a) = (?h i a C s, a + gm_item_rows t * il_packets t)" if i: "i < gm_item_cols t" for i C s a
    by (rule fold_count_rows [where packets = "il_packets t" and g = "\<lambda>j out. fold (\<lambda>b (s, pos). (h out b pos s, pos + 1)) (il_offsets t)",
          OF inner il_skip [OF ok _ i] il_down])
  have "fold (\<lambda>i (sp, C). (?row i C sp, ptr_add C e)) [0..<gm_item_cols t] ((s, 0), C)
      = ((fold (\<lambda>i. ?h i (i * (gm_item_rows t * il_packets t)) (ptr_add C (int i * e))) [0..<gm_item_cols t] s,
          gm_item_cols t * (gm_item_rows t * il_packets t)), ptr_add C (int (gm_item_cols t) * e))"
    by (rule fold_count_cols) (rule row)
  then show ?thesis by (simp add: algebra_simps cong del: if_weak_cong)
qed


text \<open>Register \<open>q\<close> of row \<open>j\<close> and column \<open>i\<close>; the element of \<open>C\<close> behind lane \<open>l\<close> of it, as matrix, row and column.\<close>

abbreviation il_reg :: "'v Gemm \<Rightarrow> nat \<Rightarrow> nat \<Rightarrow> nat \<Rightarrow> nat" where
  "il_reg t i j q \<equiv> (i * gm_item_rows t + j) * il_packets t + q"

definition il_batch :: "'v Gemm \<Rightarrow> il_place \<Rightarrow> nat \<Rightarrow> nat \<Rightarrow> nat" where
  "il_batch t p q l = il_mb_start p + q * gm_vector t * gm_wg_batchs t + l"

definition il_mine :: "'v Gemm \<Rightarrow> il_place \<Rightarrow> (nat \<times> nat \<times> nat \<times> nat) set" where
  "il_mine t p = {(i, j, q, l). i < gm_item_cols t \<and> j < gm_item_rows t \<and> q < il_packets t \<and> l < gm_vector t \<and>
     il_m_start p + j < gm_m t \<and> il_n_start p + i < gm_n t \<and> il_batch t p q l < gm_batch_size t}"

lemma il_scaling_elem:
  assumes ok: "il_place_ok t p" and mine: "(i, j, q, l) \<in> il_mine t p"
  shows "il_scaling_c t p m C reg (il_reg t i j q) l
    = (if beta_zero (gm_cfg t) then 0
       else m (ptr_add C (int (q * gm_vector t * gm_wg_batchs t + l + j * gm_batch_size t + i * (gm_ldc t * gm_batch_size t))))
         * gm_stored_beta t)"
proof (cases "beta_zero (gm_cfg t)")
  case True
  have "fold (\<lambda>i reg. reg(i := (\<lambda>_. 0))) [0..<n] reg x = (if x < n then (\<lambda>_. 0) else reg x)" for n x
    using fold_reg_row [of 0 "\<lambda>_ _. (\<lambda>_. 0)" n reg x] by simp
  moreover have "il_reg t i j q < gm_item_rows t * gm_item_cols t * il_packets t"
    using mine unfolding mult.commute [of "gm_item_rows t"] by (intro reg_index(1)) (auto simp: il_mine_def)
  ultimately show ?thesis using True by (simp add: il_scaling_c_def flip: il_packets_def)
next
  case False
  have ij: "i < gm_item_cols t" "j < gm_item_rows t" "q < il_packets t" using mine by (auto simp: il_mine_def)
  let ?v = "\<lambda>i j q. il_scale_packet t p m (ptr_add C (int i * int (gm_ldc t * gm_batch_size t) + int j * int (gm_batch_size t))) (q * gm_vector t)"
  have "il_scaling_c t p m C reg = fold (\<lambda>i. fold (\<lambda>j. fold (\<lambda>q reg.
      reg(il_reg t i j q := (if il_in_range t p i j then ?v i j q else reg (il_reg t i j q)))) [0..<il_packets t]) [0..<gm_item_rows t])
      [0..<gm_item_cols t] reg"
    using False unfolding il_scaling_c_def il_element_loop [OF ok] fold_reg_guard by simp
  then have "il_scaling_c t p m C reg (il_reg t i j q) = (if il_in_range t p i j then ?v i j q else reg (il_reg t i j q))"
    by (simp only: fold_reg_nest [OF ij, where f = "\<lambda>i j q old. if il_in_range t p i j then ?v i j q else old"])
  moreover have "il_in_range t p i j" using mine by (auto simp: il_in_range_def do_check_def il_mine_def)
  moreover have "?v i j q l = m (ptr_add C (int (q * gm_vector t * gm_wg_batchs t + l + j * gm_batch_size t + i * (gm_ldc t * gm_batch_size t))))
      * gm_stored_beta t"
    using mine by (simp add: il_scale_packet_def do_check_def vec_load_def il_mine_def il_batch_def algebra_simps)
  ultimately show ?thesis using False by simp
qed

lemma il_compute_elem:
  assumes "i < gm_item_cols t" "j < gm_item_rows t" "q < il_packets t"
  shows "il_compute_block t reg_a reg_b reg (il_reg t i j q) l
    = reg_a (j * il_packets t + q) l * reg_b (i * il_packets t + q) l + reg (il_reg t i j q) l"
proof -
  let ?f = "\<lambda>i j q old l. reg_a (j * il_packets t + q) l * reg_b (i * il_packets t + q) l + old l"
  let ?step = "\<lambda>i j b pos reg. reg(pos := ?f i j b (reg pos))"
  have "fold (\<lambda>i. fold (\<lambda>j. fold (\<lambda>b (reg, pos). (?step i j b pos reg, pos + 1)) [0..<il_packets t]) [0..<gm_item_rows t]) [0..<gm_item_cols t] (reg, 0)
      = (fold (\<lambda>i. fold (\<lambda>j. fold (\<lambda>b. ?step i j b (il_reg t i j b)) [0..<il_packets t]) [0..<gm_item_rows t]) [0..<gm_item_cols t] reg,
         gm_item_cols t * gm_item_rows t * il_packets t)"
    by (rule fold_count_nest)
  then have "il_compute_block t reg_a reg_b reg = fold (\<lambda>i. fold (\<lambda>j. fold (\<lambda>b. ?step i j b (il_reg t i j b)) [0..<il_packets t]) [0..<gm_item_rows t]) [0..<gm_item_cols t] reg"
    by (simp add: il_compute_block_def Let_def flip: il_packets_def)
  then show ?thesis by (simp only: fold_reg_nest [OF assms, where f = ?f])
qed

lemma il_load_elem:
  assumes ok: "il_place_ok t p" and r: "r < item_size" "index_start + r < dim_size"
    and exact: "il_packets t = 1 \<or> index_start + item_size \<le> dim_size"
    and l: "q < il_packets t" "l < gm_vector t" "il_batch t p q l < gm_batch_size t"
  shows "il_load t p item_size index_start dim_size m reg input stride (r * il_packets t + q) l
    = m (ptr_add input (int (r * stride + q * gm_vector t * gm_wg_batchs t + l)))"
proof -
  let ?in = "\<lambda>i. \<not> (il_check p \<and> \<not> i + index_start < dim_size)"
  let ?row = "\<lambda>i input (reg, pos). (if \<not> ?in i then (reg(pos := (\<lambda>_. 0)), pos + 1)
      else fold (\<lambda>j (reg, pos). (reg(pos := il_load_packet t p m input j), pos + 1)) (il_offsets t) (reg, pos))"
  let ?v = "\<lambda>i q input. if ?in i then il_load_packet t p m input (q * gm_vector t) else (\<lambda>_. 0)"
  have row: "?row i input (reg, a) = (fold (\<lambda>q reg. reg(a + q := ?v i q input)) [0..<il_packets t] reg, a + il_packets t)"
    if "i < item_size" for i input and reg :: "nat \<Rightarrow> nat \<Rightarrow> 'a" and a
    using that exact by (auto simp: fold_offsets_count [OF ok, simplified])
  have body: "(\<lambda>i ((reg, pos), input). ((if il_check p \<and> \<not> i + index_start < dim_size then (reg(pos := (\<lambda>_. 0)), pos + 1)
        else fold (\<lambda>j (reg, pos). (reg(pos := il_load_packet t p m input j), pos + 1)) (il_offsets t) (reg, pos)), ptr_add input (int stride)))
      = (\<lambda>i (sp, input). (?row i input sp, ptr_add input (int stride)))"
    by (intro ext) (simp split: prod.split)
  have "fold (\<lambda>i (sp, input). (?row i input sp, ptr_add input (int stride))) [0..<item_size] ((reg, 0), input)
      = ((fold (\<lambda>i. fold (\<lambda>q reg. reg(i * il_packets t + q := ?v i q (ptr_add input (int i * int stride)))) [0..<il_packets t]) [0..<item_size] reg,
          item_size * il_packets t), ptr_add input (int item_size * int stride))"
    by (rule fold_count_cols) (rule row)
  then have "il_load t p item_size index_start dim_size m reg input stride
      = fold (\<lambda>i. fold (\<lambda>q reg. reg(i * il_packets t + q := ?v i q (ptr_add input (int i * int stride)))) [0..<il_packets t]) [0..<item_size] reg"
    unfolding il_load_def body by simp
  then have "il_load t p item_size index_start dim_size m reg input stride (r * il_packets t + q) = ?v r q (ptr_add input (int r * int stride))"
    using fold_reg_nest [of 0 1 r item_size q "il_packets t" "\<lambda>_ i q _. ?v i q (ptr_add input (int i * int stride))" reg] r l by simp
  then show ?thesis
    using r l by (simp add: il_load_packet_def vec_load_def il_batch_def algebra_simps)
qed


section \<open>An item\<close>

text \<open>The loop over \<open>k\<close> runs at least once.\<close>

lemma il_rounds_elem:
  fixes t :: "'v::{comm_monoid_add, times} Gemm"
  assumes ok: "il_place_ok t p" and mine: "(i, j, q, l) \<in> il_mine t p"
  defines "f x \<equiv> int (q * gm_vector t * gm_wg_batchs t + l + x)"
  defines "ska \<equiv> (if TransA (gm_cfg t) then 1 else gm_lda t) * gm_batch_size t"
  defines "skb \<equiv> (if TransB (gm_cfg t) then gm_ldb t else 1) * gm_batch_size t"
  shows "il_rounds t p m ms ns k A B ra rb rr (il_reg t i j q) l
    = rr (il_reg t i j q) l + (\<Sum>x < max 1 k. m (ptr_add A (f (j * ms + x * ska))) * m (ptr_add B (f (i * ns + x * skb))))"
proof (induction k arbitrary: A B ra rb rr rule: less_induct)
  case (less k)
  have b: "i < gm_item_cols t" "j < gm_item_rows t" "q < il_packets t" "l < gm_vector t" "il_m_start p + j < gm_m t"
      "il_n_start p + i < gm_n t" "il_batch t p q l < gm_batch_size t"
    using mine by (auto simp: il_mine_def)
  have exact: "il_packets t = 1 \<or> il_m_start p + gm_item_rows t \<le> gm_m t" "il_packets t = 1 \<or> il_n_start p + gm_item_cols t \<le> gm_n t"
    using ok by (auto simp: il_place_ok_def)
  let ?la = "il_load t p (gm_item_rows t) (il_m_start p) (gm_m t) m ra A ms"
  let ?lb = "il_load t p (gm_item_cols t) (il_n_start p) (gm_n t) m rb B ns"
  let ?rr = "il_compute_block t ?la ?lb rr"
  have step: "?rr (il_reg t i j q) l = rr (il_reg t i j q) l + m (ptr_add A (f (j * ms))) * m (ptr_add B (f (i * ns)))"
    unfolding il_compute_elem [OF b(1-3)] il_load_elem [OF ok b(2,5) exact(1) b(3,4,7)] il_load_elem [OF ok b(1,6) exact(2) b(3,4,7)] f_def
    by (simp add: ac_simps)
  show ?case
  proof (cases "0 < k - 1")
    case True
    then obtain k' where k: "k = Suc (Suc k')" by (cases k) (auto simp: gr0_conv_Suc)
    have "il_rounds t p m ms ns k A B ra rb rr = il_rounds t p m ms ns (k - 1) (ptr_add A (int ska)) (ptr_add B (int skb)) ?la ?lb ?rr"
      using True by (subst il_rounds.simps) (simp add: Let_def ska_def skb_def)
    then have "il_rounds t p m ms ns k A B ra rb rr (il_reg t i j q) l = ?rr (il_reg t i j q) l + (\<Sum>x < Suc k'.
        m (ptr_add (ptr_add A (int ska)) (f (j * ms + x * ska))) * m (ptr_add (ptr_add B (int skb)) (f (i * ns + x * skb))))"
      using less [of "k - 1" "ptr_add A (int ska)" "ptr_add B (int skb)" ?la ?lb ?rr] k by simp
    also have "\<dots> = rr (il_reg t i j q) l + (m (ptr_add A (f (j * ms))) * m (ptr_add B (f (i * ns))) + (\<Sum>x < Suc k'.
        m (ptr_add A (f (j * ms + Suc x * ska))) * m (ptr_add B (f (i * ns + Suc x * skb)))))"
      unfolding step f_def ptr_add_add by (simp add: ac_simps)
    also have "\<dots> = rr (il_reg t i j q) l + (\<Sum>x < Suc (Suc k'). m (ptr_add A (f (j * ms + x * ska))) * m (ptr_add B (f (i * ns + x * skb))))"
      unfolding sum.lessThan_Suc_shift [of _ "Suc k'"] by simp
    finally show ?thesis using k by simp
  next
    case False
    then have "il_rounds t p m ms ns k A B ra rb rr = ?rr" by (subst il_rounds.simps) (simp add: Let_def)
    moreover have "max 1 k = 1" using False by simp
    ultimately show ?thesis using step by simp
  qed
qed

text \<open>The stores.\<close>

definition il_elem :: "'v Gemm \<Rightarrow> il_place \<Rightarrow> nat \<times> nat \<times> nat \<times> nat \<Rightarrow> nat \<times> nat \<times> nat" where
  "il_elem t p = (\<lambda>(i, j, q, l). (il_batch t p q l, il_m_start p + j, il_n_start p + i))"

text \<open>In an interleaved batch the elements \<open>(i, j)\<close> of all the matrices are neighbours.\<close>

definition interleaved_cell :: "addr \<Rightarrow> nat \<Rightarrow> nat \<Rightarrow> nat \<Rightarrow> nat \<Rightarrow> nat \<Rightarrow> addr" where
  "interleaved_cell p batch_size ld b i j = ptr_add p (int (b + (i + j * ld) * batch_size))"

lemma interleaved_cell_inj:
  assumes "interleaved_cell p bs ld b i j = interleaved_cell p bs ld b' i' j'" "b < bs" "b' < bs" "i < ld" "i' < ld"
  shows "b = b' \<and> i = i' \<and> j = j'"
proof -
  have e: "(i + j * ld) * bs + b = (i' + j' * ld) * bs + b'" using assms(1) by (simp only: interleaved_cell_def ptr_add_inject of_nat_eq_iff add.commute)
  have b: "b = b'" and ij: "i + j * ld = i' + j' * ld"
    using arg_cong [OF e, of "\<lambda>x. x mod bs"] arg_cong [OF e, of "\<lambda>x. x div bs"] assms(2,3) by simp_all
  have "i = i'" "j = j'"
    using arg_cong [OF ij, of "\<lambda>x. x mod ld"] arg_cong [OF ij, of "\<lambda>x. x div ld"] assms(4,5) by simp_all
  then show ?thesis using b by simp
qed

lemma fold_if: "(if c then fold f xs s else s) = fold (\<lambda>x s. if c then f x s else s) xs s"
proof (cases c)
  case False
  then show ?thesis by (induction xs arbitrary: s) simp_all
qed simp

lemma il_store_packet_eq:
  assumes ok: "il_place_ok t p" and q: "q < il_packets t"
  shows "il_store_packet t p packet output (q * gm_vector t) m
    = fold (\<lambda>l m. if il_batch t p q l < gm_batch_size t
        then m(ptr_add output (int (q * gm_vector t * gm_wg_batchs t + l)) := packet l * gm_alpha t) else m) [0..<gm_vector t] m"
proof (cases "il_check p \<and> \<not> il_mb_start p + q * gm_vector t * gm_wg_batchs t + (gm_vector t - 1) < gm_batch_size t")
  case True
  then show ?thesis by (simp add: il_store_packet_def il_batch_def)
next
  case False
  have whole: "il_batch t p q l < gm_batch_size t" if l: "l < gm_vector t" for l
  proof (cases "il_check p")
    case True
    then show ?thesis using False l by (simp add: il_batch_def)
  next
    case False
    have "q * gm_vector t \<le> (il_packets t - 1) * gm_vector t" using q by (intro mult_le_mono1) simp
    also have "\<dots> = gm_item_batchs t - gm_vector t"
      using ok by (auto simp: il_packets_def il_place_ok_def diff_mult_distrib elim!: dvdE simp flip: dvd_eq_mod_eq_0)
    finally have "q * gm_vector t * gm_wg_batchs t \<le> gm_wg_batchs t * (gm_item_batchs t - gm_vector t)"
      unfolding mult.commute [of "gm_wg_batchs t"] by (rule mult_le_mono1)
    moreover have "il_mb_start p + gm_wg_batchs t * (gm_item_batchs t - gm_vector t) + gm_vector t \<le> gm_batch_size t"
      using ok False by (simp add: il_place_ok_def)
    ultimately show ?thesis using l unfolding il_batch_def by linarith
  qed
  then have "fold (\<lambda>l m. if il_batch t p q l < gm_batch_size t
        then m(ptr_add output (int (q * gm_vector t * gm_wg_batchs t + l)) := packet l * gm_alpha t) else m) [0..<gm_vector t] m
      = fold (\<lambda>l m. m(ptr_add output (int (q * gm_vector t * gm_wg_batchs t + l)) := packet l * gm_alpha t)) [0..<gm_vector t] m"
    by (intro fold_cong) auto
  then show ?thesis unfolding il_store_packet_def if_not_P [OF False] vec_store_def ptr_add_add of_nat_add [symmetric] by simp
qed

lemma if_if_conj: "(if a then if b then x else y else y) = (if a \<and> b then x else y)"
  by simp

abbreviation il_cell :: "'v Gemm \<Rightarrow> nat \<times> nat \<times> nat \<Rightarrow> addr" where
  "il_cell t \<equiv> \<lambda>(q, i, j). interleaved_cell (gm_C t) (gm_batch_size t) (gm_ldc t) q i j"

lemma il_cell_inj: "inj_on (il_cell t) {(q, i, j). q < gm_batch_size t \<and> i < gm_ldc t}"
  by (rule inj_onI) (auto dest: interleaved_cell_inj)

lemma il_store_wrote:
  assumes ok: "il_place_ok t p" and ld: "gm_m t \<le> gm_ldc t"
    and v: "\<And>i j q l. (i, j, q, l) \<in> il_mine t p \<Longrightarrow> reg (il_reg t i j q) l * gm_alpha t = v (il_elem t p (i, j, q, l))"
  defines "C \<equiv> ptr_add (gm_C t) (int (il_mb_start p + il_m_start p * gm_batch_size t + il_n_start p * gm_ldc t * gm_batch_size t))"
  shows "wrote (il_cell t) (il_elem t p ` il_mine t p) v m (il_store t p reg C m)"
proof -
  let ?xs = "List.product [0..<gm_item_cols t] (List.product [0..<gm_item_rows t] (List.product [0..<il_packets t] [0..<gm_vector t]))"
  let ?in = "\<lambda>i j q l. il_in_range t p i j \<and> il_batch t p q l < gm_batch_size t"
  let ?at = "\<lambda>i j q l. ptr_add C (int (i * (gm_ldc t * gm_batch_size t) + j * gm_batch_size t + (q * gm_vector t * gm_wg_batchs t + l)))"
  let ?step = "\<lambda>i j q l m. if ?in i j q l then m(?at i j q l := reg (il_reg t i j q) l * gm_alpha t) else m"
  have "il_store t p reg C m = fold (\<lambda>i. fold (\<lambda>j m. if il_in_range t p i j
      then fold (\<lambda>q. il_store_packet t p (reg (il_reg t i j q))
          (ptr_add C (int i * int (gm_ldc t * gm_batch_size t) + int j * int (gm_batch_size t))) (q * gm_vector t)) [0..<il_packets t] m
      else m) [0..<gm_item_rows t]) [0..<gm_item_cols t] m"
    unfolding il_store_def il_element_loop [OF ok] ..
  also have "\<dots> = fold (\<lambda>i. fold (\<lambda>j m. if il_in_range t p i j
      then fold (\<lambda>q. fold (\<lambda>l m. if il_batch t p q l < gm_batch_size t
          then m(?at i j q l := reg (il_reg t i j q) l * gm_alpha t) else m) [0..<gm_vector t]) [0..<il_packets t] m
      else m) [0..<gm_item_rows t]) [0..<gm_item_cols t] m"
    by (intro fold_cong refl ext if_cong il_store_packet_eq [OF ok, THEN trans]) (simp_all add: ac_simps)
  also have "\<dots> = fold (\<lambda>i. fold (\<lambda>j. fold (\<lambda>q. fold (?step i j q) [0..<gm_vector t]) [0..<il_packets t]) [0..<gm_item_rows t]) [0..<gm_item_cols t] m"
    unfolding fold_if if_if_conj ..
  finally have flat: "il_store t p reg C m = fold (\<lambda>(i, j, q, l). ?step i j q l) ?xs m"
    unfolding fold_nested4 .
  let ?S = "\<lambda>x. il_elem t p ` ({x} \<inter> il_mine t p)"
  have "wrote (il_cell t) (\<Union>x \<in> set ?xs. ?S x) v m (fold (\<lambda>(i, j, q, l). ?step i j q l) ?xs m)"
  proof (rule fold_wrote [OF il_cell_inj])
    fix x m assume "x \<in> set ?xs"
    then obtain i j q l where x: "x = (i, j, q, l)" "i < gm_item_cols t" "j < gm_item_rows t" "q < il_packets t" "l < gm_vector t" by auto
    have "?in i j q l \<longleftrightarrow> (i, j, q, l) \<in> il_mine t p"
      using x ok by (auto simp: il_mine_def il_in_range_def do_check_def il_place_ok_def)
    moreover have "il_cell t (il_elem t p (i, j, q, l)) = ?at i j q l"
      by (simp add: il_elem_def interleaved_cell_def C_def il_batch_def algebra_simps)
    ultimately show "wrote (il_cell t) (?S x) v m ((\<lambda>(i, j, q, l). ?step i j q l) x m)"
      using v [of i j q l] x(1) by (auto simp: wrote_def)
  next
    show "?S x \<subseteq> {(q, i, j). q < gm_batch_size t \<and> i < gm_ldc t}" for x
      using ld by (auto simp: il_elem_def il_mine_def)
  qed
  moreover have "(\<Union>x \<in> set ?xs. ?S x) = il_elem t p ` il_mine t p"
  proof -
    have "il_mine t p \<subseteq> set ?xs" by (auto simp: il_mine_def)
    then show ?thesis by blast
  qed
  ultimately show ?thesis unfolding flat by simp
qed


section \<open>A launch\<close>

text \<open>The registers after the loop over \<open>k\<close> hold what \<open>store\<close> multiplies by \<open>alpha\<close>.\<close>

definition interleaved_operand :: "bool \<Rightarrow> addr \<Rightarrow> nat \<Rightarrow> nat \<Rightarrow> nat \<Rightarrow> nat \<Rightarrow> nat \<Rightarrow> addr" where
  "interleaved_operand tr p batch_size ld q i j =
     (if tr then interleaved_cell p batch_size ld q j i else interleaved_cell p batch_size ld q i j)"

definition interleaved_product ::
  "bool \<Rightarrow> bool \<Rightarrow> nat \<Rightarrow> addr \<Rightarrow> nat \<Rightarrow> addr \<Rightarrow> nat \<Rightarrow> nat \<Rightarrow> 'v::{comm_monoid_add, times} mem \<Rightarrow> nat \<Rightarrow> nat \<Rightarrow> nat \<Rightarrow> 'v" where
  "interleaved_product ta tb K a lda b ldb batch_size m q i j =
     (\<Sum>l<K. m (interleaved_operand ta a batch_size lda q i l) * m (interleaved_operand tb b batch_size ldb q l j))"

definition il_value :: "'v::{comm_monoid_add, times} Gemm \<Rightarrow> 'v mem \<Rightarrow> nat \<times> nat \<times> nat \<Rightarrow> 'v" where
  "il_value t m = (\<lambda>(q, i, j).
     gm_alpha t * interleaved_product (TransA (gm_cfg t)) (TransB (gm_cfg t)) (max 1 (gm_k t)) (gm_A t) (gm_lda t) (gm_B t) (gm_ldb t)
       (gm_batch_size t) m q i j
     + (if beta_zero (gm_cfg t) then 0 else gm_beta t * m (il_cell t (q, i, j))))"

definition il_a_at :: "'v Gemm \<Rightarrow> il_place \<Rightarrow> addr" where
  "il_a_at t p = ptr_add (gm_A t) (int (il_m_start p * ((if TransA (gm_cfg t) then gm_lda t else 1) * gm_batch_size t) + il_mb_start p))"

definition il_b_at :: "'v Gemm \<Rightarrow> il_place \<Rightarrow> addr" where
  "il_b_at t p = ptr_add (gm_B t) (int (il_n_start p * ((if TransB (gm_cfg t) then 1 else gm_ldb t) * gm_batch_size t) + il_mb_start p))"

definition il_c_at :: "'v Gemm \<Rightarrow> il_place \<Rightarrow> addr" where
  "il_c_at t p = ptr_add (gm_C t) (int (il_mb_start p + il_m_start p * gm_batch_size t + il_n_start p * gm_ldc t * gm_batch_size t))"

lemma il_panel_wrote:
  fixes t :: "'v::field Gemm"
  assumes ok: "il_place_ok t p" and ld: "gm_m t \<le> gm_ldc t" and alpha: "gm_alpha t \<noteq> 0"
  defines "ms \<equiv> (if TransA (gm_cfg t) then gm_lda t else 1) * gm_batch_size t"
  defines "ns \<equiv> (if TransB (gm_cfg t) then 1 else gm_ldb t) * gm_batch_size t"
  shows "wrote (il_cell t) (il_elem t p ` il_mine t p) (il_value t m) m (il_compute_panel t u p ms ns (il_a_at t p) (il_b_at t p) (il_c_at t p) m)"
  unfolding il_compute_panel_def Let_def
proof (subst (2) il_c_at_def, rule il_store_wrote [OF ok ld])
  fix i j q l assume mine: "(i, j, q, l) \<in> il_mine t p"
  let ?rr = "il_scaling_c t p m (il_c_at t p) u"
  let ?e = "(il_batch t p q l, il_m_start p + j, il_n_start p + i)"
  have c: "ptr_add (il_c_at t p) (int (q * gm_vector t * gm_wg_batchs t + l + j * gm_batch_size t + i * (gm_ldc t * gm_batch_size t))) = il_cell t ?e"
    by (simp add: il_c_at_def interleaved_cell_def il_batch_def algebra_simps)
  have a: "ptr_add (il_a_at t p) (int (q * gm_vector t * gm_wg_batchs t + l + (j * ms + x * ((if TransA (gm_cfg t) then 1 else gm_lda t) * gm_batch_size t))))
      = interleaved_operand (TransA (gm_cfg t)) (gm_A t) (gm_batch_size t) (gm_lda t) (il_batch t p q l) (il_m_start p + j) x" for x
    by (simp add: il_a_at_def ms_def interleaved_operand_def interleaved_cell_def il_batch_def algebra_simps)
  have b: "ptr_add (il_b_at t p) (int (q * gm_vector t * gm_wg_batchs t + l + (i * ns + x * ((if TransB (gm_cfg t) then gm_ldb t else 1) * gm_batch_size t))))
      = interleaved_operand (TransB (gm_cfg t)) (gm_B t) (gm_batch_size t) (gm_ldb t) (il_batch t p q l) x (il_n_start p + i)" for x
    by (simp add: il_b_at_def ns_def interleaved_operand_def interleaved_cell_def il_batch_def algebra_simps)
  show "il_rounds t p m ms ns (gm_k t) (il_a_at t p) (il_b_at t p) u u ?rr (il_reg t i j q) l * gm_alpha t = il_value t m (il_elem t p (i, j, q, l))"
    unfolding il_rounds_elem [OF ok mine] il_scaling_elem [OF ok mine] a b c
    using alpha by (simp add: il_value_def il_elem_def interleaved_product_def gm_stored_beta_def algebra_simps)
qed

text \<open>Where an item stands, and what the kernel asks of its configuration and the sizes.\<close>

definition il_place_of :: "'v Gemm \<Rightarrow> nat \<Rightarrow> nat \<Rightarrow> il_place" where
  "il_place_of t wg_id item_id =
     (let wg_batch = wg_id mod il_blocks_per_batch t * gm_wg_batchs t;
          wg_row = wg_id div il_blocks_per_batch t mod il_blocks_per_row t * gm_block_rows t;
          wg_col = wg_id div il_blocks_per_batch t div il_blocks_per_row t * gm_block_cols t
      in \<lparr>il_m_start = item_id div gm_wg_batchs t mod gm_wg_rows t * gm_item_rows t + wg_row,
          il_n_start = item_id div gm_wg_batchs t div gm_wg_rows t * gm_item_cols t + wg_col,
          il_mb_start = item_id mod gm_wg_batchs t * gm_vector t + wg_batch * gm_item_batchs t,
          il_check = \<not> (gm_batch_size t div gm_item_batchs t - wg_batch \<ge> gm_wg_batchs t \<and>
            gm_m t - wg_row \<ge> gm_block_rows t \<and> gm_n t - wg_col \<ge> gm_block_cols t)\<rparr>)"

abbreviation il_at :: "'v Gemm \<Rightarrow> nat \<Rightarrow> il_place" where
  "il_at t x \<equiv> il_place_of t (x div il_wg_size t) (x mod il_wg_size t)"

lemma il_eval_eq:
  fixes t :: "'v::{zero, plus, times, divide} Gemm"
  shows "il_eval t u (item_of (il_wg_size t) G x) m
    = (if gm_batch_size t \<le> il_mb_start (il_at t x) \<or> gm_m t \<le> il_m_start (il_at t x) \<or> gm_n t \<le> il_n_start (il_at t x) then m
       else il_compute_panel t u (il_at t x) ((if TransA (gm_cfg t) then gm_lda t else 1) * gm_batch_size t)
              ((if TransB (gm_cfg t) then 1 else gm_ldb t) * gm_batch_size t)
              (il_a_at t (il_at t x)) (il_b_at t (il_at t x)) (il_c_at t (il_at t x)) m)"
  by (simp add: il_eval_def il_place_of_def item_of_def Let_def il_a_at_def il_b_at_def il_c_at_def)

definition il_ok :: "'v Gemm \<Rightarrow> bool" where
  "il_ok t \<longleftrightarrow> 0 < gm_item_rows t \<and> 0 < gm_item_cols t \<and> 0 < gm_item_batchs t \<and> 0 < gm_wg_rows t \<and> 0 < gm_wg_cols t \<and>
     0 < gm_wg_batchs t \<and> 0 < gm_vector t \<and> gm_item_batchs t mod gm_vector t = 0 \<and>
     (il_packets t = 1 \<or> gm_m t mod gm_item_rows t = 0 \<and> gm_n t mod gm_item_cols t = 0)"

lemma il_item_batchs: "il_ok t \<Longrightarrow> gm_item_batchs t = il_packets t * gm_vector t"
  by (auto simp: il_ok_def il_packets_def)

text \<open>The digits of a row, a column and a matrix, as lane, register, item and group.\<close>

lemma radix2:
  fixes s v w :: nat
  assumes "s < v" "l < w"
  shows "((x * w + l) * v + s) mod v = s" "((x * w + l) * v + s) div v mod w = l" "((x * w + l) * v + s) div v div w = x"
  using assms by (simp_all add: reg_index(2,3))

lemma digits2: "(x :: nat) div v div w * w * v + x div v mod w * v + x mod v = x"
  by (metis add_mult_distrib div_mult_mod_eq)

lemma il_elem_at:
  assumes ok: "il_ok t"
  shows "il_elem t (il_at t x) (i, j, q, l) =
    (((x div il_wg_size t mod il_blocks_per_batch t * il_packets t + q) * gm_wg_batchs t + x mod il_wg_size t mod gm_wg_batchs t) * gm_vector t + l,
     (x div il_wg_size t div il_blocks_per_batch t mod il_blocks_per_row t * gm_wg_rows t
       + x mod il_wg_size t div gm_wg_batchs t mod gm_wg_rows t) * gm_item_rows t + j,
     (x div il_wg_size t div il_blocks_per_batch t div il_blocks_per_row t * gm_wg_cols t
       + x mod il_wg_size t div gm_wg_batchs t div gm_wg_rows t) * gm_item_cols t + i)"
  by (simp add: il_elem_def il_batch_def il_place_of_def Let_def il_item_batchs [OF ok] gm_block_rows_def gm_block_cols_def algebra_simps)

text \<open>The item that computes an element.\<close>

definition il_owner :: "'v Gemm \<Rightarrow> nat \<times> nat \<times> nat \<Rightarrow> nat" where
  "il_owner t = (\<lambda>(b, r, c).
     ((c div gm_item_cols t div gm_wg_cols t * il_blocks_per_row t + r div gm_item_rows t div gm_wg_rows t) * il_blocks_per_batch t
       + b div gm_vector t div gm_wg_batchs t div il_packets t) * il_wg_size t
     + ((c div gm_item_cols t mod gm_wg_cols t * gm_wg_rows t + r div gm_item_rows t mod gm_wg_rows t) * gm_wg_batchs t
       + b div gm_vector t mod gm_wg_batchs t))"

lemma il_positive:
  assumes "il_ok t"
  shows "0 < il_wg_size t" "0 < il_packets t" "0 < gm_block_rows t" "0 < gm_block_cols t" "0 < il_blocks_per_batch t" "0 < il_blocks_per_row t"
  using assms il_item_batchs [OF assms]
  by (auto simp: il_ok_def il_wg_size_def gm_block_rows_def gm_block_cols_def il_blocks_per_batch_def il_blocks_per_row_def)

lemma il_owner_unique:
  assumes ok: "il_ok t" and y: "y \<in> il_mine t (il_at t x)"
  shows "il_owner t (il_elem t (il_at t x) y) = x"
proof -
  obtain i j q l where ijql: "y = (i, j, q, l)" by (cases y)
  let ?L = "il_wg_size t"
  have b: "i < gm_item_cols t" "j < gm_item_rows t" "q < il_packets t" "l < gm_vector t" using y by (auto simp: ijql il_mine_def)
  have "x mod ?L < gm_wg_cols t * gm_wg_rows t * gm_wg_batchs t"
    using mod_less_divisor [OF il_positive(1) [OF ok], of x] by (simp add: il_wg_size_def ac_simps)
  then have l: "x mod ?L mod gm_wg_batchs t < gm_wg_batchs t" "x mod ?L div gm_wg_batchs t mod gm_wg_rows t < gm_wg_rows t"
      "x mod ?L div gm_wg_batchs t div gm_wg_rows t < gm_wg_cols t"
    using ok by (simp_all add: il_ok_def less_mult_imp_div_less)
  show ?thesis
    unfolding ijql il_elem_at [OF ok] il_owner_def prod.case radix2 [OF b(1) l(3)] radix2 [OF b(2) l(2)] radix2 [OF b(4) l(1)]
      reg_index(2) [OF b(3) lessI]
    by simp
qed

lemma il_owner_covers:
  assumes ok: "il_ok t" and e: "b < gm_batch_size t" "r < gm_m t" "c < gm_n t"
  shows "il_owner t (b, r, c) < il_blocks_per_row t * il_blocks_per_cols t * il_blocks_per_batch t * il_wg_size t"
    and "(b, r, c) \<in> il_elem t (il_at t (il_owner t (b, r, c))) ` il_mine t (il_at t (il_owner t (b, r, c)))"
proof -
  let ?L = "il_wg_size t"
  have pos: "0 < gm_item_rows t" "0 < gm_item_cols t" "0 < gm_wg_rows t" "0 < gm_wg_cols t" "0 < gm_wg_batchs t" "0 < gm_vector t"
    using ok by (auto simp: il_ok_def)
  have tr: "r div gm_item_rows t div gm_wg_rows t < il_blocks_per_row t"
    unfolding il_blocks_per_row_def
    by (rule div_below_cdiv [OF le_less_trans [OF _ e(2)] il_positive(3) [OF ok]])
      (simp add: gm_block_rows_def div_mult2_eq [symmetric] mult.commute [of "gm_wg_rows t"])
  have tc: "c div gm_item_cols t div gm_wg_cols t < il_blocks_per_cols t"
    unfolding il_blocks_per_cols_def
    by (rule div_below_cdiv [OF le_less_trans [OF _ e(3)] il_positive(4) [OF ok]])
      (simp add: gm_block_cols_def div_mult2_eq [symmetric] mult.commute [of "gm_wg_cols t"])
  have tb: "b div gm_vector t div gm_wg_batchs t div il_packets t < il_blocks_per_batch t"
  proof -
    have "b div gm_vector t div gm_wg_batchs t div il_packets t = b div (gm_wg_batchs t * gm_item_batchs t)"
      by (simp add: il_item_batchs [OF ok] div_mult2_eq [symmetric] ac_simps)
    moreover have "b div (gm_wg_batchs t * gm_item_batchs t) < il_blocks_per_batch t"
      unfolding il_blocks_per_batch_def
      by (rule div_below_cdiv [OF le_less_trans [OF _ e(1)]]) (use ok in \<open>auto simp: il_ok_def\<close>)
    ultimately show ?thesis by simp
  qed
  let ?g = "(c div gm_item_cols t div gm_wg_cols t * il_blocks_per_row t + r div gm_item_rows t div gm_wg_rows t) * il_blocks_per_batch t
       + b div gm_vector t div gm_wg_batchs t div il_packets t"
  let ?l = "(c div gm_item_cols t mod gm_wg_cols t * gm_wg_rows t + r div gm_item_rows t mod gm_wg_rows t) * gm_wg_batchs t
       + b div gm_vector t mod gm_wg_batchs t"
  have lr: "r div gm_item_rows t mod gm_wg_rows t < gm_wg_rows t" and lc: "c div gm_item_cols t mod gm_wg_cols t < gm_wg_cols t"
    and lb: "b div gm_vector t mod gm_wg_batchs t < gm_wg_batchs t" using pos by simp_all
  have "?l < gm_wg_cols t * gm_wg_rows t * gm_wg_batchs t"
    by (rule reg_index(1) [OF lb reg_index(1) [OF lr lc]])
  then have l: "?l < ?L" by (simp add: il_wg_size_def ac_simps)
  have g: "?g < il_blocks_per_cols t * il_blocks_per_row t * il_blocks_per_batch t"
    by (rule reg_index(1) [OF tb reg_index(1) [OF tr tc]])
  have own: "il_owner t (b, r, c) = ?g * ?L + ?l" by (simp add: il_owner_def)
  show "il_owner t (b, r, c) < il_blocks_per_row t * il_blocks_per_cols t * il_blocks_per_batch t * ?L"
    unfolding own using reg_index(1) [OF l g] by (simp add: ac_simps)
  let ?y = "(c mod gm_item_cols t, r mod gm_item_rows t, b div gm_vector t div gm_wg_batchs t mod il_packets t, b mod gm_vector t)"
  have el: "il_elem t (il_at t (il_owner t (b, r, c))) ?y = (b, r, c)"
    unfolding own il_elem_at [OF ok] unfolding reg_index(2,3) [OF l lessI] radix2 [OF tb tr] radix2 [OF lb lr]
    by (simp add: digits2 flip: add_mult_distrib)
  then have "?y \<in> il_mine t (il_at t (il_owner t (b, r, c)))"
    using e pos il_positive(2) [OF ok] by (simp add: il_mine_def il_elem_def)
  with el show "(b, r, c) \<in> il_elem t (il_at t (il_owner t (b, r, c))) ` il_mine t (il_at t (il_owner t (b, r, c)))"
    by (metis imageI)
qed

lemma mod_0_whole:
  assumes "m mod n = 0" "k * n < (m::nat)"
  shows "k * n + n \<le> m"
proof -
  have "k < m div n" using assms by (metis div_mult_mod_eq add_0_right mult_less_cancel2)
  then have "Suc k * n \<le> m div n * n" by (intro mult_le_mono1) simp
  then show ?thesis using assms(1) by (metis add.commute div_mult_mod_eq add_0_right mult_Suc)
qed

lemma item_in_block:
  assumes "l < w" "x * (w * n) + w * n \<le> (m::nat)"
  shows "(x * w + l) * n + n \<le> m"
proof -
  have "Suc (x * w + l) * n \<le> (x * w + w) * n" using assms(1) by (intro mult_le_mono1) simp
  then show ?thesis using assms(2) by (simp add: algebra_simps)
qed

lemma il_item_ok:
  assumes ok: "il_ok t" and inside: "il_m_start (il_at t x) < gm_m t" "il_n_start (il_at t x) < gm_n t"
  shows "il_place_ok t (il_at t x)"
proof -
  let ?p = "il_at t x" and ?g = "x div il_wg_size t" and ?l = "x mod il_wg_size t"
  have "?l < gm_wg_cols t * gm_wg_rows t * gm_wg_batchs t"
    using mod_less_divisor [OF il_positive(1) [OF ok], of x] by (simp add: il_wg_size_def ac_simps)
  then have l: "?l mod gm_wg_batchs t < gm_wg_batchs t" "?l div gm_wg_batchs t mod gm_wg_rows t < gm_wg_rows t"
      "?l div gm_wg_batchs t div gm_wg_rows t < gm_wg_cols t"
    using ok by (simp_all add: il_ok_def less_mult_imp_div_less)
  let ?tb = "?g mod il_blocks_per_batch t" and ?tr = "?g div il_blocks_per_batch t mod il_blocks_per_row t"
    and ?tc = "?g div il_blocks_per_batch t div il_blocks_per_row t"
  have start: "il_mb_start ?p = (?tb * il_packets t * gm_wg_batchs t + ?l mod gm_wg_batchs t) * gm_vector t"
    "il_m_start ?p = (?tr * gm_wg_rows t + ?l div gm_wg_batchs t mod gm_wg_rows t) * gm_item_rows t"
    "il_n_start ?p = (?tc * gm_wg_cols t + ?l div gm_wg_batchs t div gm_wg_rows t) * gm_item_cols t"
    using il_elem_at [OF ok, of x 0 0 0 0] by (simp_all add: il_elem_def il_batch_def)
  have pos: "0 < gm_item_batchs t" "0 < gm_wg_batchs t" "0 < gm_block_rows t" "0 < gm_block_cols t" using ok il_positive [OF ok] by (auto simp: il_ok_def)
  have whole: "il_m_start ?p + gm_item_rows t \<le> gm_m t \<and> il_n_start ?p + gm_item_cols t \<le> gm_n t \<and>
      il_mb_start ?p + gm_wg_batchs t * (gm_item_batchs t - gm_vector t) + gm_vector t \<le> gm_batch_size t" if "\<not> il_check ?p"
  proof -
    have c: "gm_wg_batchs t \<le> gm_batch_size t div gm_item_batchs t - ?tb * gm_wg_batchs t"
      "gm_block_rows t \<le> gm_m t - ?tr * gm_block_rows t" "gm_block_cols t \<le> gm_n t - ?tc * gm_block_cols t"
      using that by (simp_all add: il_place_of_def Let_def)
    have "?tr * gm_block_rows t + gm_block_rows t \<le> gm_m t" "?tc * gm_block_cols t + gm_block_cols t \<le> gm_n t" using c pos by simp_all
    then have rc: "il_m_start ?p + gm_item_rows t \<le> gm_m t" "il_n_start ?p + gm_item_cols t \<le> gm_n t"
      unfolding start(2,3) gm_block_rows_def gm_block_cols_def by (intro item_in_block l; simp add: ac_simps)+
    have "?tb * gm_wg_batchs t + gm_wg_batchs t \<le> gm_batch_size t div gm_item_batchs t" using c(1) pos(2) by simp
    then have "(?tb * gm_wg_batchs t + gm_wg_batchs t) * gm_item_batchs t \<le> gm_batch_size t div gm_item_batchs t * gm_item_batchs t"
      by (rule mult_le_mono1)
    also have "\<dots> \<le> gm_batch_size t" by simp
    finally have bs: "(?tb * gm_wg_batchs t + gm_wg_batchs t) * gm_item_batchs t \<le> gm_batch_size t" .
    have "?l mod gm_wg_batchs t * gm_vector t + gm_vector t \<le> gm_wg_batchs t * gm_vector t"
      using mult_le_mono1 [of "Suc (?l mod gm_wg_batchs t)" "gm_wg_batchs t" "gm_vector t"] l(1) by simp
    moreover have "gm_wg_batchs t * (gm_item_batchs t - gm_vector t) + gm_wg_batchs t * gm_vector t = gm_wg_batchs t * gm_item_batchs t"
      using il_item_batchs [OF ok] il_positive(2) [OF ok] by (simp flip: distrib_left)
    ultimately have "il_mb_start ?p + gm_wg_batchs t * (gm_item_batchs t - gm_vector t) + gm_vector t
        \<le> (?tb * gm_wg_batchs t + gm_wg_batchs t) * gm_item_batchs t"
      unfolding start(1) by (simp add: il_item_batchs [OF ok] algebra_simps)
    then show ?thesis using rc bs by linarith
  qed
  have "il_m_start ?p + gm_item_rows t \<le> gm_m t \<and> il_n_start ?p + gm_item_cols t \<le> gm_n t" if "il_packets t \<noteq> 1"
  proof -
    have "gm_m t mod gm_item_rows t = 0" "gm_n t mod gm_item_cols t = 0" using ok that by (auto simp: il_ok_def)
    then show ?thesis using inside unfolding start(2,3) by (auto intro: mod_0_whole)
  qed
  then show ?thesis using whole ok by (auto simp: il_place_ok_def il_ok_def)
qed

lemma il_item_wrote:
  fixes t :: "'v::field Gemm"
  assumes ok: "il_ok t" and ld: "gm_m t \<le> gm_ldc t" and alpha: "gm_alpha t \<noteq> 0"
  shows "wrote (il_cell t) (il_elem t (il_at t x) ` il_mine t (il_at t x)) (il_value t m) m
     (il_eval t u (item_of (il_wg_size t) G x) m)"
proof (cases "gm_batch_size t \<le> il_mb_start (il_at t x) \<or> gm_m t \<le> il_m_start (il_at t x) \<or> gm_n t \<le> il_n_start (il_at t x)")
  case True
  then have "il_mine t (il_at t x) = {}" by (auto simp: il_mine_def il_batch_def)
  then show ?thesis using True by (simp add: il_eval_eq wrote_def)
next
  case False
  then have "il_place_ok t (il_at t x)" by (intro il_item_ok [OF ok]) simp_all
  then show ?thesis using il_panel_wrote [OF _ ld alpha] False by (simp add: il_eval_eq)
qed

text \<open>The matrices of an interleaved batch after the call.\<close>

definition interleaved_result ::
  "bool \<Rightarrow> bool \<Rightarrow> bool \<Rightarrow> nat \<Rightarrow> nat \<Rightarrow> nat \<Rightarrow> 'v::{comm_monoid_add, times} \<Rightarrow> addr \<Rightarrow> nat \<Rightarrow> addr \<Rightarrow> nat \<Rightarrow>
   'v \<Rightarrow> addr \<Rightarrow> nat \<Rightarrow> nat \<Rightarrow> 'v mem \<Rightarrow> 'v mem \<Rightarrow> bool" where
  "interleaved_result z ta tb M N K alpha a lda b ldb beta c ldc batch_size m m' \<longleftrightarrow>
     (\<forall>q < batch_size. \<forall>i < M. \<forall>j < N.
        m' (interleaved_cell c batch_size ldc q i j) =
          alpha * interleaved_product ta tb K a lda b ldb batch_size m q i j
          + (if z then 0 else beta * m (interleaved_cell c batch_size ldc q i j))) \<and>
     (\<forall>d. (\<nexists>q i j. q < batch_size \<and> i < M \<and> j < N \<and> d = interleaved_cell c batch_size ldc q i j) \<longrightarrow> m' d = m d)"

lemma il_value_cong:
  assumes "fst (gm_A t) \<noteq> fst (gm_C t)" "fst (gm_B t) \<noteq> fst (gm_C t)"
    and "\<And>d. fst d \<noteq> fst (gm_C t) \<Longrightarrow> f d = f' d" "f (il_cell t y) = f' (il_cell t y)"
  shows "il_value t f y = il_value t f' y"
proof -
  have "f (interleaved_operand tr (gm_A t) bs ld q i j) = f' (interleaved_operand tr (gm_A t) bs ld q i j)"
    "f (interleaved_operand tr (gm_B t) bs ld q i j) = f' (interleaved_operand tr (gm_B t) bs ld q i j)" for tr bs ld q i j
    using assms by (simp_all add: interleaved_operand_def interleaved_cell_def)
  then show ?thesis using assms(4) by (cases y) (simp add: il_value_def interleaved_product_def)
qed

lemma il_launch:
  fixes t :: "'v::field Gemm"
  assumes ok: "il_ok t" "gm_m t \<le> gm_ldc t" "gm_alpha t \<noteq> 0" and r: "is_run r"
    and apart: "fst (gm_A t) \<noteq> fst (gm_C t)" "fst (gm_B t) \<noteq> fst (gm_C t)"
  shows "wrote (il_cell t) {(q, i, j). q < gm_batch_size t \<and> i < gm_m t \<and> j < gm_n t} (il_value t m) m
     (gemm_interleaved_execute r ph u t m)"
proof -
  let ?L = "il_wg_size t"
  let ?G = "il_blocks_per_row t * il_blocks_per_cols t * il_blocks_per_batch t * ?L"
  let ?T = "\<lambda>x. il_elem t (il_at t x) ` il_mine t (il_at t x)"
  let ?W = "\<lambda>x. il_cell t ` ?T x"
  let ?R = "{(q, i, j). q < gm_batch_size t \<and> i < gm_m t \<and> j < gm_n t}"
  note item = il_item_wrote [OF ok]
  have T: "?T x \<subseteq> ?R" for x by (auto simp: il_elem_def il_mine_def)
  have R: "?R \<subseteq> {(q, i, j). q < gm_batch_size t \<and> i < gm_ldc t}" using ok(2) by auto
  have inj: "y = z" if "y \<in> ?R" "z \<in> ?R" "il_cell t y = il_cell t z" for y z
    using inj_onD [OF il_cell_inj that(3)] that(1,2) R by blast
  have owned: "il_owner t e = x" if "e \<in> ?T x" for e x using that il_owner_unique [OF ok(1)] by blast
  have disj: "?W x \<inter> ?W y = {}" if "x \<noteq> y" for x y
  proof (rule ccontr)
    assume "?W x \<inter> ?W y \<noteq> {}"
    then obtain c where c: "c \<in> ?W x" "c \<in> ?W y" by blast
    obtain e where e: "e \<in> ?T x" "c = il_cell t e" using c(1) by (rule imageE) (rule that)
    obtain f where f: "f \<in> ?T y" "c = il_cell t f" using c(2) by (rule imageE) (rule that)
    have "e = f" using inj [OF subsetD [OF T e(1)] subsetD [OF T f(1)]] e(2) f(2) by simp
    then show False using owned [OF e(1)] owned [OF f(1)] that by simp
  qed
  have nd: "nd_range_ok ?G ?L" using il_positive [OF ok(1)] by (simp add: nd_range_ok_def il_blocks_per_cols_def)
  have frame: "il_eval t u (item_of ?L ?G x) s c = s c" if "x < ?G" "c \<notin> ?W x" for x s c
    using item [of x s u ?G] that unfolding wrote_def by blast
  have reads: "il_eval t u (item_of ?L ?G x) f c = il_eval t u (item_of ?L ?G x) f' c"
    if x: "x < ?G" "c \<in> ?W x" and off: "\<And>d. (\<And>j. j < ?G \<Longrightarrow> j \<noteq> x \<Longrightarrow> d \<notin> ?W j) \<Longrightarrow> f d = f' d" for x f f' c
  proof -
    obtain y where y: "y \<in> ?T x" "c = il_cell t y" using x(2) by blast
    have other: "d \<notin> ?W j" if "fst d \<noteq> fst (gm_C t)" for d j using that by (auto simp: interleaved_cell_def)
    have "il_value t f y = il_value t f' y"
    proof (rule il_value_cong [OF apart])
      show "f d = f' d" if "fst d \<noteq> fst (gm_C t)" for d by (rule off) (rule other [OF that])
      show "f (il_cell t y) = f' (il_cell t y)" using disj x(2) unfolding y(2) [symmetric] by (intro off) blast
    qed
    then show ?thesis using item [of x f u ?G] item [of x f' u ?G] y unfolding wrote_def by (metis (no_types, lifting))
  qed
  note own = execute_tree_own [OF nd r, where W = ?W and eval = "il_eval t u" and s = m]
  have run: "gemm_interleaved_execute r ph u t m = execute_tree r (\<lambda>_. True) (il_eval t u) ?L ?G m"
    by (simp add: gemm_interleaved_execute_def il_get_nd_range_def Let_def il_valid_thread_def [abs_def])
  show ?thesis
    unfolding wrote_def run
  proof (intro conjI ballI allI impI)
    fix e assume e: "e \<in> ?R"
    let ?x = "il_owner t e"
    have x: "?x < ?G" "e \<in> ?T ?x" using il_owner_covers [OF ok(1)] e by (auto split: prod.splits)
    have "execute_tree r (\<lambda>_. True) (il_eval t u) ?L ?G m (il_cell t e) = il_eval t u (item_of ?L ?G ?x) m (il_cell t e)"
      by (rule own(1) [OF _ _ _ x(1) imageI [OF x(2)]]) (fact frame reads | rule frame reads disj, assumption+)+
    also have "\<dots> = il_value t m e" using item [of ?x m u ?G] x(2) unfolding wrote_def by blast
    finally show "execute_tree r (\<lambda>_. True) (il_eval t u) ?L ?G m (il_cell t e) = il_value t m e" .
  next
    fix c assume c: "c \<notin> il_cell t ` ?R"
    have none: "c \<notin> ?W x" for x by (rule contra_subsetD [OF image_mono [OF T] c])
    show "execute_tree r (\<lambda>_. True) (il_eval t u) ?L ?G m c = m c"
      by (rule own(2)) (fact frame reads | rule none | rule frame reads disj, assumption+)+
  qed
qed

end
