(* ===== verification/Gemm_Interleaved_Interface.thy ===== *)
theory Gemm_Interleaved_Interface
  imports Gemm_Interface Gemm_Interleaved_Correct
begin

text \<open>
  \<open>_gemm_batched\<close> on interleaved batches: the contract \<open>interleaved_launcher\<close> between the interface and the
  kernel, its interpretation on \<open>select_gemm\<close>, and the properties. Two cases of the interface go wrong and are
  shown beside the theorem that says when it is right: the packets of the ARM configuration at an edge, and
  \<open>alpha = 0\<close> with a leading dimension larger than \<open>M\<close>.
\<close>

section \<open>The launch\<close>

text \<open>The tiles and packets of a configuration, and the sizes for which its register counters are right.\<close>

definition interleaved_cfg_ok :: "Gemm_Launcher \<Rightarrow> nat \<Rightarrow> nat \<Rightarrow> bool" where
  "interleaved_cfg_ok cfg M N \<longleftrightarrow>
     kernel_of cfg = Some GemmInterleaved \<and> interleaved_asserts cfg \<and> 0 < VectorSize cfg \<and>
     0 < item_rows (TileT cfg) \<and> 0 < item_cols (TileT cfg) \<and> 0 < item_batchs (TileT cfg) \<and>
     0 < wg_rows (TileT cfg) \<and> 0 < wg_cols (TileT cfg) \<and> 0 < wg_batchs (TileT cfg) \<and>
     (item_batchs (TileT cfg) = VectorSize cfg \<or> M mod item_rows (TileT cfg) = 0 \<and> N mod item_cols (TileT cfg) = 0)"

lemma gemm_interleaved_result:
  fixes alpha beta :: "'v::field"
  assumes "is_run r" "0 < K" "M \<le> ldc" "it_buffer a \<noteq> it_buffer c" "it_buffer b \<noteq> it_buffer c" "alpha \<noteq> 0"
    and "interleaved_cfg_ok cfg M N"
  shows "interleaved_result (beta_zero cfg) (TransA cfg) (TransB cfg) M N K alpha (it_buffer a, it_offset a) lda
     (it_buffer b, it_offset b) ldb beta (it_buffer c, it_offset c) ldc bs m
     (gemm_interleaved_execute r ph u (select_gemm_tree cfg M N K alpha a lda b ldb beta c ldc bs) m)"
proof -
  let ?t = "select_gemm_tree cfg M N K alpha a lda b ldb beta c ldc bs"
  have "il_ok ?t"
    using assms(7) by (auto simp: interleaved_cfg_ok_def interleaved_asserts_def il_ok_def il_packets_def select_gemm_simps)
  then have "wrote (il_cell ?t) {(q, i, j). q < bs \<and> i < M \<and> j < N} (il_value ?t m) m (gemm_interleaved_execute r ph u ?t m)"
    using il_launch [where t = ?t and r = r and u = u and m = m and ph = ph] assms by (simp add: select_gemm_simps)
  then show ?thesis
    using assms(2) unfolding interleaved_result_def wrote_def
    by (auto simp: il_value_def select_gemm_simps max_def image_iff)
qed

section \<open>The contract between the interface and a launch\<close>

locale interleaved_launcher =
  fixes supported :: "Gemm_Launcher \<Rightarrow> nat \<Rightarrow> nat \<Rightarrow> bool"
    and launch :: "'v::semiring_0 gemm_launch"
  assumes launch_result: "supported cfg M N \<Longrightarrow> 0 < K \<Longrightarrow> M \<le> ldc \<Longrightarrow> it_buffer a \<noteq> it_buffer c \<Longrightarrow>
      it_buffer b \<noteq> it_buffer c \<Longrightarrow> alpha \<noteq> 0 \<Longrightarrow>
      interleaved_result (beta_zero cfg) (TransA cfg) (TransB cfg) M N K alpha (it_buffer a, it_offset a) lda
        (it_buffer b, it_offset b) ldb beta (it_buffer c, it_offset c) ldc bs m
        (launch cfg M N K alpha a lda b ldb beta c ldc bs m)"
begin

lemma product_result:
  assumes dims: "0 < K" "M \<le> ldc" and bufs: "it_buffer a \<noteq> it_buffer c" "it_buffer b \<noteq> it_buffer c" and alpha: "alpha \<noteq> 0"
    and legal: "legal_trans transA" "legal_trans transB"
    and cfg: "supported (backend_gemm bd sz (transposed transA) (transposed transB) (beta = 0) M N K bs bt) M N"
  shows "\<exists>m'. gemm_batched launch r ph bd sz transA transB M N K alpha a lda b ldb beta c ldc bs bt m = Inr m' \<and>
     interleaved_result (beta = 0) (transposed transA) (transposed transB) M N K alpha
       (it_buffer a, it_offset a) lda (it_buffer b, it_offset b) ldb beta (it_buffer c, it_offset c) ldc bs m m'"
proof -
  let ?ta = "transposed transA" and ?tb = "transposed transB"
  let ?cfg = "backend_gemm bd sz ?ta ?tb (beta = 0) M N K bs bt"
  let ?m' = "launch ?cfg M N K alpha a lda b ldb beta c ldc bs m"
  have "gemm_batched launch r ph bd sz transA transB M N K alpha a lda b ldb beta c ldc bs bt m = Inr ?m'"
    using alpha legal
    by (auto simp: gemm_batched_def gemm_backend_def gemm_is_beta_zero_def gemm_platform_specific_def Let_def legal_trans_def transposed_def)
  moreover have "serves_request ?ta ?tb (beta = 0) bs bt ?cfg" by (rule backend_serves)
  then have "beta_zero ?cfg = (beta = 0)" "TransA ?cfg = ?ta" "TransB ?cfg = ?tb" by (simp_all add: serves_request_def)
  ultimately show ?thesis
    using launch_result [OF cfg dims bufs alpha, of lda ldb beta bs m] by simp
qed

end

interpretation il: interleaved_launcher "\<lambda>cfg M N. is_run r \<and> interleaved_cfg_ok cfg M N"
  "select_gemm r ph v sz u other :: 'v::field gemm_launch" for r ph v sz u other
proof unfold_locales
  fix cfg :: Gemm_Launcher and M N K ldc lda ldb bs :: nat and a c b :: BufferIterator and alpha beta :: 'v and m
  assume cfg: "is_run r \<and> interleaved_cfg_ok cfg M N" and rest: "0 < K" "M \<le> ldc" "it_buffer a \<noteq> it_buffer c"
    "it_buffer b \<noteq> it_buffer c" "alpha \<noteq> 0"
  have "kernel_of cfg = Some GemmInterleaved" using cfg by (simp only: interleaved_cfg_ok_def)
  then show "interleaved_result (beta_zero cfg) (TransA cfg) (TransB cfg) M N K alpha (it_buffer a, it_offset a) lda
        (it_buffer b, it_offset b) ldb beta (it_buffer c, it_offset c) ldc bs m
        (select_gemm r ph v sz u other cfg M N K alpha a lda b ldb beta c ldc bs m)"
    using gemm_interleaved_result [OF conjunct1 [OF cfg] rest conjunct2 [OF cfg]] by (simp only: select_gemm_def Let_def option.case gemm_kernel.case)
qed

text \<open>What the backends choose for an interleaved batch; on ARM an element takes two packets.\<close>

definition interleaved_sizes :: "gemm_build \<Rightarrow> nat \<Rightarrow> nat \<Rightarrow> bool" where
  "interleaved_sizes bd M N \<longleftrightarrow> (target bd = target_arm_gpu \<longrightarrow> even M \<and> even N)"

lemma backend_interleaved:
  assumes "interleaved_sizes bd M N"
  shows "interleaved_cfg_ok (backend_gemm bd sz t_a t_b z M N K bs interleaved_batch) M N"
  using assms
  by (auto simp: backend_gemm_def backend_defs interleaved_cfg_ok_def interleaved_asserts_def interleaved_sizes_def
      make_launcher_def Tile4_def even_iff_mod_2_eq_zero split: gemm_target.split)

text \<open>With \<open>alpha = 0\<close> the interface scales the columns of a strided batch. They are the cells of an interleaved
  one when the columns are adjacent.\<close>

lemma interleaved_cells:
  assumes "0 < M" "0 < bs"
  shows "{interleaved_cell p bs M q i j |q i j. q < bs \<and> i < M \<and> j < N} = c_cells M N p M bs"
  unfolding adjacent_columns [OF assms(1)] add_0
proof (intro set_eqI iffI)
  fix d assume "d \<in> {interleaved_cell p bs M q i j |q i j. q < bs \<and> i < M \<and> j < N}"
  then obtain q i j where d: "d = interleaved_cell p bs M q i j" "q < bs" "i < M" "j < N" by blast
  have "(j * M + i) * bs + q < N * M * bs" by (rule reg_index(1) [OF d(2) reg_index(1) [OF d(3,4)]])
  then show "d \<in> {ptr_add p (int k) |k. k < N * M * bs}" by (auto simp: d(1) interleaved_cell_def ac_simps)
next
  fix d assume "d \<in> {ptr_add p (int k) |k. k < N * M * bs}"
  then obtain k where k: "d = ptr_add p (int k)" "k < N * M * bs" by blast
  have "d = interleaved_cell p bs M (k mod bs) (k div bs mod M) (k div bs div M)"
    unfolding k(1) interleaved_cell_def by (simp add: add.commute [of "k div bs mod M"])
  moreover have "k div bs div M < N" using k(2) by (simp add: less_mult_imp_div_less)
  ultimately show "d \<in> {interleaved_cell p bs M q i j |q i j. q < bs \<and> i < M \<and> j < N}" using assms by force
qed


lemma interleaved_scaled:
  fixes beta :: "'v::semiring_0"
  assumes pos: "0 < M" "0 < bs" and res: "gemm_result z ta tb M N K 0 a lda b ldb beta c M bs m m'"
  shows "interleaved_result z ta tb M N K 0 a lda b ldb beta c M bs m m'"
proof -
  have cells: "m' d = (if z then 0 else beta * m d)" if "d \<in> c_cells M N c M bs" for d
    using that res unfolding c_cells_def gemm_result_def by auto
  have frame: "m' d = m d" if "d \<notin> c_cells M N c M bs" for d using that res unfolding gemm_result_def by blast
  show ?thesis
    unfolding interleaved_result_def mult_zero_left add_0
  proof (intro conjI allI impI)
    fix q i j assume "q < bs" "i < M" "j < N"
    then have "interleaved_cell c bs M q i j \<in> c_cells M N c M bs" unfolding interleaved_cells [OF pos, symmetric] by blast
    then show "m' (interleaved_cell c bs M q i j) = (if z then 0 else beta * m (interleaved_cell c bs M q i j))" by (rule cells)
  next
    fix d assume "\<nexists>q i j. q < bs \<and> i < M \<and> j < N \<and> d = interleaved_cell c bs M q i j"
    then have "d \<notin> c_cells M N c M bs" unfolding interleaved_cells [OF pos, symmetric] by blast
    then show "m' d = m d" by (rule frame)
  qed
qed

section \<open>An element that is lost at an edge\<close>

text \<open>One row and two columns with the ARM configuration: the store of column 1 reads the register behind row 1 of
  column 0, whose second packet belongs to matrices that do not exist.\<close>

definition edge_tree :: "Gemm_Launcher \<Rightarrow> 'v \<Rightarrow> BufferIterator \<Rightarrow> BufferIterator \<Rightarrow> 'v \<Rightarrow> BufferIterator \<Rightarrow> 'v Gemm" where
  "edge_tree cfg alpha a b beta c = select_gemm_tree cfg 1 2 1 alpha a 1 b 1 beta c 1 1"

definition edge_cfg :: "bool \<Rightarrow> Gemm_Launcher" where
  "edge_cfg z = arm_gpu_gemm MODEL_OTHER False False z 1 2 1 1 interleaved_batch"

definition edge_place :: il_place where
  "edge_place = \<lparr>il_m_start = 0, il_n_start = 0, il_mb_start = 0, il_check = True\<rparr>"

lemma edge_simps:
  "item_rows (TileT (edge_cfg z)) = 2" "item_cols (TileT (edge_cfg z)) = 2" "item_batchs (TileT (edge_cfg z)) = 4"
  "wg_rows (TileT (edge_cfg z)) = 4" "wg_cols (TileT (edge_cfg z)) = 4" "wg_batchs (TileT (edge_cfg z)) = 4"
  "VectorSize (edge_cfg z) = 2" "beta_zero (edge_cfg z) = z"
  by (simp_all add: edge_cfg_def backend_defs make_launcher_def Tile4_def)

lemma edge_tree_simps:
  "gm_m (edge_tree cfg al a b be c) = 1" "gm_n (edge_tree cfg al a b be c) = 2" "gm_k (edge_tree cfg al a b be c) = 1"
  "gm_batch_size (edge_tree cfg al a b be c) = 1" "gm_ldc (edge_tree cfg al a b be c) = 1" "gm_cfg (edge_tree cfg al a b be c) = cfg"
  "gm_alpha (edge_tree cfg al a b be c) = al" "gm_C (edge_tree cfg al a b be c) = (it_buffer c, it_offset c)"
  by (simp_all add: edge_tree_def select_gemm_simps)

lemma edge_offsets: "il_offsets (edge_tree (edge_cfg z) al a b be c) = [0, 2]"
  by (simp add: il_offsets_def edge_simps edge_tree_simps strided_step)

lemma edge_load:
  "il_load (edge_tree (edge_cfg z) al a b be c) edge_place 2 0 2 m reg input stride 1 0 = 0"
  by (simp add: il_load_def edge_offsets edge_place_def il_load_packet_def edge_simps edge_tree_simps upt_conv_Cons)

lemma edge_store:
  "il_store (edge_tree (edge_cfg z) al a b be c) edge_place reg (it_buffer c, it_offset c) m (it_buffer c, it_offset c + 1) = reg 3 0 * al"
  by (simp add: il_store_def edge_offsets edge_place_def il_in_range_def do_check_def il_store_packet_def edge_simps edge_tree_simps upt_conv_Cons eval_nat_numeral)


lemma edge_scaling:
  "il_scaling_c (edge_tree (edge_cfg z) al a b be c) edge_place m (it_buffer c, it_offset c) reg 3 0
   = (if z then 0 else m (it_buffer c, it_offset c + 1) * gm_stored_beta (edge_tree (edge_cfg z) al a b be c))"
proof (cases z)
  case True
  then show ?thesis
    using fold_reg_row [of 0 "\<lambda>_ _ _. 0" 8 reg 3] by (simp add: il_scaling_c_def edge_simps edge_tree_simps)
next
  case False
  then show ?thesis
    by (simp add: il_scaling_c_def edge_offsets edge_place_def il_in_range_def do_check_def il_scale_packet_def edge_simps edge_tree_simps
        upt_conv_Cons eval_nat_numeral)
qed

lemma edge_panel:
  fixes al be :: "'v::field"
  assumes "al \<noteq> 0"
  shows "il_compute_panel (edge_tree (edge_cfg z) al a b be c) u edge_place ms ns A B (it_buffer c, it_offset c) m (it_buffer c, it_offset c + 1)
    = (if z then 0 else be * m (it_buffer c, it_offset c + 1))"
proof -
  let ?t = "edge_tree (edge_cfg z) al a b be c"
  have packets: "il_packets ?t = 2" by (simp add: il_packets_def edge_simps edge_tree_simps)
  have comp: "il_compute_block ?t ra rb rr 3 0 = ra 3 0 * rb 1 0 + rr 3 0" for ra rb rr :: "nat \<Rightarrow> nat \<Rightarrow> 'v"
    using il_compute_elem [of 0 ?t 1 1 ra rb rr 0] packets by (simp add: edge_simps edge_tree_simps)
  have load: "il_load ?t edge_place 2 (il_n_start edge_place) 2 m u B ns 1 0 = 0" for B
    using edge_load by (simp add: edge_place_def)
  have "il_rounds ?t edge_place m ms ns 1 A B u u rr 3 0 = rr 3 0" for rr
    by (subst il_rounds.simps) (simp add: Let_def comp load [simplified] edge_simps edge_tree_simps)
  then show ?thesis
    using assms by (simp add: il_compute_panel_def Let_def edge_store edge_scaling edge_tree_simps gm_stored_beta_def) (simp add: edge_tree_def select_gemm_tree_def make_gemm_def)
qed

lemma edge_launch:
  fixes al be :: "'v::field"
  assumes r: "is_run r" and al: "al \<noteq> 0"
  shows "gemm_interleaved_execute r ph u (edge_tree (edge_cfg z) al a b be c) m (it_buffer c, it_offset c + 1)
    = (if z then 0 else be * m (it_buffer c, it_offset c + 1))"
proof -
  let ?t = "edge_tree (edge_cfg z) al a b be c" and ?W = "\<lambda>x. if x = 0 then UNIV else {}"
  have L: "il_wg_size ?t = 64" by (simp add: il_wg_size_def edge_simps edge_tree_simps)
  have rng: "il_get_nd_range ?t (ph_num_compute_units ph) = (64, 64)"
    by (simp add: il_get_nd_range_def il_blocks_per_row_def il_blocks_per_cols_def il_blocks_per_batch_def L edge_simps edge_tree_simps
        gm_block_rows_def gm_block_cols_def)
  have place: "il_mb_start (il_place_of ?t 0 x) = x mod 4 * 2" "il_m_start (il_place_of ?t 0 x) = x div 4 mod 4 * 2"
    "il_n_start (il_place_of ?t 0 x) = x div 4 div 4 * 2" for x
    by (simp_all add: il_place_of_def Let_def edge_simps edge_tree_simps)
  have idle: "il_eval ?t u (item_of 64 64 x) f = f" if "0 < x" "x < 64" for x and f :: "'v mem"
  proof -
    have "0 < x mod 4 \<or> 0 < x div 4 mod 4 \<or> 0 < x div 4 div 4"
      using that by presburger
    then show ?thesis using il_eval_eq [of ?t u 64 x f] that unfolding L by (auto simp: place edge_tree_simps)
  qed
  have "il_place_of ?t 0 0 = edge_place"
    by (simp add: il_place_of_def Let_def edge_place_def edge_simps edge_tree_simps gm_block_rows_def gm_block_cols_def)
  then have first: "il_eval ?t u (item_of 64 64 0) m (it_buffer c, it_offset c + 1) = (if z then 0 else be * m (it_buffer c, it_offset c + 1))"
    using il_eval_eq [of ?t u 64 0 m] edge_panel [OF al] unfolding L by (simp add: edge_place_def edge_tree_simps il_c_at_def)
  have "execute_tree r (\<lambda>_. True) (il_eval ?t u) 64 64 m (it_buffer c, it_offset c + 1) = il_eval ?t u (item_of 64 64 0) m (it_buffer c, it_offset c + 1)"
  proof (rule execute_tree_own(1) [OF _ r, where W = ?W])
    show "il_eval ?t u (item_of 64 64 i) f d = il_eval ?t u (item_of 64 64 i) f' d"
      if "i < 64" "d \<in> ?W i" "\<And>d. (\<And>j. j < 64 \<Longrightarrow> j \<noteq> i \<Longrightarrow> d \<notin> ?W j) \<Longrightarrow> f d = f' d" for i f f' d
    proof -
      have "f = f'" using that by (intro ext) (auto split: if_splits)
      then show ?thesis by simp
    qed
  qed (auto simp: nd_range_ok_def idle split: if_splits)
  then show ?thesis
    using first by (simp add: gemm_interleaved_execute_def rng Let_def il_valid_thread_def [abs_def])
qed

section \<open>Properties\<close>

text \<open>C11: \<open>_gemm_batched\<close> computes \<open>alpha * op(A) * op(B) + beta * C\<close> for every matrix of an interleaved batch and
  changes nothing else, on every target, for every order of the work-items. \<open>K\<close> has to be positive, because the loop over
  \<open>k\<close> is a do-while that adds one product when there is none; with \<open>alpha = 0\<close> the leading dimension of \<open>C\<close> has to be \<open>M\<close>;
  and on ARM \<open>M\<close> and \<open>N\<close> have to be even.\<close>

theorem gemm_interleaved_correct:
  assumes "is_run rl" "\<And>i. is_run (r i)" "0 < ph_work_group_size ph" "0 < M" "0 < N" "0 < K" "0 < bs" "M \<le> ldc"
    and "it_buffer a \<noteq> it_buffer c" "it_buffer b \<noteq> it_buffer c" "columns_fit c M ldc (bs * N)"
    and "legal_trans transA" "legal_trans transB" "interleaved_sizes bd M N" "alpha = 0 \<Longrightarrow> ldc = M"
  shows "\<exists>m'. gemm_batched (select_gemm rl ph v sz u other) r ph bd sz transA transB M N K (alpha :: 'v::field)
       a lda b ldb beta c ldc bs interleaved_batch m = Inr m' \<and>
     interleaved_result (beta = 0) (transposed transA) (transposed transB) M N K alpha (it_buffer a, it_offset a) lda
       (it_buffer b, it_offset b) ldb beta (it_buffer c, it_offset c) ldc bs m m'"
proof (cases "alpha = 0")
  case False
  show ?thesis
    by (rule il.product_result) (use assms False backend_interleaved in simp_all)
next
  case True
  then have ld: "ldc = M" by (rule assms(15))
  have n: "0 < bs * N" using assms by simp
  obtain m' where "gemm_backend (select_gemm rl ph v sz u other) r ph bd sz transA transB M N K 0 a lda b ldb beta c ldc bs interleaved_batch m = Inr m'"
    and "\<And>ta tb pa pb. gemm_result (beta = 0) ta tb M N K 0 pa lda pb ldb beta (it_buffer c, it_offset c) ldc bs m m'"
    by (rule gemm_backend_alpha_0 [where r = r, OF assms(2,3,8,4,11) n]) blast
  then show ?thesis
    using interleaved_scaled [OF assms(4,7)] unfolding True gemm_batched_def ld by blast
qed

lemma gemm_interleaved_correct_witness:
  "\<exists>m'. gemm_batched (select_gemm (seq_run 8) sample_ph False 4 (\<lambda>_. 7) (\<lambda>_ m. m)) (\<lambda>_. seq_run ()) sample_ph
       arm_build 4 (CHR ''N'') (CHR ''t'') 2 2 1 (3 :: real) (sample_it 1) 2 (sample_it 2) 2 2 (sample_it 3) 2 2
       interleaved_batch real_mem = Inr m' \<and> m' (3, 7) = 3 * (real_mem (1, 3) * real_mem (2, 3)) + 2 * real_mem (3, 7)"
proof -
  have letters: "legal_trans (CHR ''N'')" "legal_trans (CHR ''t'')" "\<not> transposed (CHR ''N'')" "transposed (CHR ''t'')"
    by (simp_all add: legal_trans_def transposed_def tolower_samples)
  have fit: "columns_fit (sample_it 3) 2 2 (2 * 2)"
    by (simp add: columns_fit_def sample_it_def make_sycl_iterator_buffer_def)
  obtain m' where m': "gemm_batched (select_gemm (seq_run 8) sample_ph False 4 (\<lambda>_. 7) (\<lambda>_ m. m)) (\<lambda>_. seq_run ()) sample_ph
       arm_build 4 (CHR ''N'') (CHR ''t'') 2 2 1 (3 :: real) (sample_it 1) 2 (sample_it 2) 2 2 (sample_it 3) 2 2
       interleaved_batch real_mem = Inr m'"
    "interleaved_result ((2::real) = 0) (transposed (CHR ''N'')) (transposed (CHR ''t'')) 2 2 1 3 (1, 0) 2 (2, 0) 2 2 (3, 0) 2 2 real_mem m'"
    using gemm_interleaved_correct [where rl = "seq_run 8" and ph = sample_ph and r = "\<lambda>_. seq_run ()" and bd = arm_build and M = 2 and N = 2 and K = 1 and bs = 2
        and a = "sample_it 1" and b = "sample_it 2" and v = False and u = "\<lambda>_. 7" and other = "\<lambda>_ m. m" and sz = 4 and alpha = 3
        and lda = 2 and ldb = 2 and beta = 2 and m = real_mem, OF is_run_seq is_run_seq _ _ _ _ _ _ _ _ fit letters(1,2)]
    by (auto simp: interleaved_sizes_def)
  have "m' (interleaved_cell (3, 0) 2 2 1 1 1) = 3 * (real_mem (1, 3) * real_mem (2, 3)) + 2 * real_mem (3, 7)"
    using m'(2) letters(3,4) by (simp add: interleaved_result_def interleaved_product_def interleaved_operand_def interleaved_cell_def less_cases)
  then show ?thesis using m'(1) by (simp add: interleaved_cell_def)
qed

text \<open>C17: on ARM the product of a 1 by 1 and a 1 by 2 matrix, in a batch of one, is missing from the second column: an
  element takes two packets there, and the kernel steps over one packet for the row that is out of range.\<close>

theorem arm_interleaved_loses_product:
  assumes "is_run rl" "target bd = target_arm_gpu" "alpha \<noteq> 0"
  shows "\<exists>m'. gemm_batched (select_gemm rl ph v sz u other) r ph bd sz (CHR ''n'') (CHR ''n'') 1 2 1 (alpha :: 'v::field)
       a 1 b 1 beta c 1 1 interleaved_batch m = Inr m' \<and>
     m' (interleaved_cell (it_buffer c, it_offset c) 1 1 0 0 1) = beta * m (interleaved_cell (it_buffer c, it_offset c) 1 1 0 0 1)"
proof -
  have cfg: "backend_gemm bd sz False False z 1 2 1 1 interleaved_batch = edge_cfg z" for z
    using assms(2) by (simp add: backend_gemm_def edge_cfg_def backend_defs)
  have "kernel_of (edge_cfg z) = Some GemmInterleaved" for z
    by (simp add: edge_cfg_def backend_defs make_launcher_def)
  then have sel: "select_gemm rl ph v sz u other (edge_cfg z) 1 2 1 alpha a 1 b 1 beta c 1 1 m
      = gemm_interleaved_execute rl ph (\<lambda>x l. u (x * VectorSize (edge_cfg z) + l)) (edge_tree (edge_cfg z) alpha a b beta c) m" for z
    by (simp only: select_gemm_def edge_tree_def Let_def option.case gemm_kernel.case)
  have "gemm_batched (select_gemm rl ph v sz u other) r ph bd sz (CHR ''n'') (CHR ''n'') 1 2 1 alpha a 1 b 1 beta c 1 1 interleaved_batch m
      = Inr (select_gemm rl ph v sz u other (edge_cfg (beta = 0)) 1 2 1 alpha a 1 b 1 beta c 1 1 m)"
    using assms(3) by (simp add: gemm_batched_def gemm_backend_def tolower_samples gemm_is_beta_zero_def gemm_platform_specific_def cfg [simplified])
  then show ?thesis
    using edge_launch [OF assms(1,3), of ph "\<lambda>x l. u (x * VectorSize (edge_cfg (beta = 0)) + l)" "beta = 0" a b beta c m]
    unfolding sel by (simp add: interleaved_cell_def)
qed

lemma arm_interleaved_loses_product_witness:
  "\<exists>m'. gemm_batched (select_gemm (seq_run 8) sample_ph False 4 (\<lambda>_. 7) (\<lambda>_ m. m)) (\<lambda>_. seq_run ()) sample_ph
       arm_build 4 (CHR ''n'') (CHR ''n'') 1 2 1 (1 :: real) (sample_it 1) 1 (sample_it 2) 1 0 (sample_it 3) 1 1
       interleaved_batch real_mem = Inr m' \<and> m' (3, 1) = 0"
  using arm_interleaved_loses_product [OF is_run_seq, of arm_build "1 :: real" 8 sample_ph False 4 "\<lambda>_. 7" "\<lambda>_ m. m" "\<lambda>_. seq_run ()"
      "sample_it 1" "sample_it 2" 0 "sample_it 3" real_mem]
  by (auto simp: arm_build_def interleaved_cell_def)

text \<open>C18: with \<open>alpha = 0\<close> and \<open>M < ldc\<close> the interface scales the columns of a strided batch; an element of an
  interleaved batch, which lies in the gap after the first of them, keeps its value whatever \<open>beta\<close> is.\<close>

theorem interleaved_alpha_zero_skips:
  fixes beta :: "'v::field"
  assumes "\<And>i. is_run (r i)" "0 < ph_work_group_size ph" "0 < M" "0 < N" "1 < bs" "M < ldc" "columns_fit c M ldc (bs * N)"
  shows "M mod bs < bs \<and> M div bs < M \<and>
    (\<exists>m'. gemm_batched launch r ph bd sz transA transB M N K 0 a lda b ldb beta c ldc bs interleaved_batch m = Inr m' \<and>
      m' (interleaved_cell (it_buffer c, it_offset c) bs ldc (M mod bs) (M div bs) 0)
        = m (interleaved_cell (it_buffer c, it_offset c) bs ldc (M mod bs) (M div bs) 0))"
proof -
  have n: "0 < bs * N" and ld: "M \<le> ldc" using assms by simp_all
  let ?p = "(it_buffer c, it_offset c)"
  obtain m' where m': "gemm_backend launch r ph bd sz transA transB M N K 0 a lda b ldb beta c ldc bs interleaved_batch m = Inr m'"
    and res: "\<And>ta tb pa pb. gemm_result (beta = 0) ta tb M N K 0 pa lda pb ldb beta ?p ldc bs m m'"
    by (rule gemm_backend_alpha_0 [where r = r, OF assms(1,2) ld assms(3,7) n]) blast
  have cell: "interleaved_cell ?p bs ldc (M mod bs) (M div bs) 0 = ptr_add ?p (int M)"
    by (simp only: interleaved_cell_def mult_0 add_0_right mod_div_mult_eq)
  have "ptr_add ?p (int M) \<notin> c_cells M N ?p ldc bs"
  proof
    assume "ptr_add ?p (int M) \<in> c_cells M N ?p ldc bs"
    then obtain x i where "ptr_add ?p (int M) = ptr_add ?p (int (x * ldc + i))" "i < M" unfolding c_cells_columns by blast
    then have "M = x * ldc + i" "i < M" by (simp_all only: ptr_add_inject of_nat_eq_iff)
    then show False using assms(6) by (cases x) auto
  qed
  then have "m' (ptr_add ?p (int M)) = m (ptr_add ?p (int M))" using res unfolding gemm_result_def by blast
  then show ?thesis using m' assms(3,5) unfolding gemm_batched_def cell by simp
qed

lemma interleaved_alpha_zero_skips_witness:
  "\<exists>m'. gemm_batched (\<lambda>_ _ _ _ _ _ _ _ _ _ _ _ _ m. m) (\<lambda>_. seq_run ()) sample_ph arm_build 4 (CHR ''n'') (CHR ''n'') 1 1 1 (0 :: real)
     (sample_it 1) 1 (sample_it 2) 1 5 (sample_it 3) 2 2 interleaved_batch real_mem = Inr m' \<and> m' (3, 1) = real_mem (3, 1)"
  using interleaved_alpha_zero_skips [where r = "\<lambda>_. seq_run ()" and ph = sample_ph and M = 1 and N = 1 and bs = 2 and ldc = 2 and c = "sample_it 3"
      and launch = "\<lambda>_ _ _ _ _ _ _ _ _ _ _ _ _ m. m" and bd = arm_build and sz = 4 and transA = "CHR ''n''" and transB = "CHR ''n''" and K = 1
      and a = "sample_it 1" and b = "sample_it 2" and lda = 1 and ldb = 1 and beta = "5 :: real" and m = real_mem, OF is_run_seq]
  by (simp add: interleaved_cell_def columns_fit_def sample_it_def make_sycl_iterator_buffer_def)

end
