(* ===== verification/Trsm_Inverter.thy ===== *)
theory Trsm_Inverter
  imports Gemm_Blocks Barriers
begin

text \<open>
  \<open>DiagonalBlocksInverter\<close> of \<^verbatim>\<open>src/operations/blas3/trsm.hpp\<close>: a group inverts one diagonal block of a triangular
  matrix in local memory, a column at a time. Between two barriers a group runs one command; the sums go to private
  variables. The rounds solve the equations of \<open>db_solution\<close>, whose solution is unique and a left inverse of the
  part of the block that lies inside the matrix (\<open>db_solution_inverse\<close>).
\<close>

section \<open>The kernel\<close>

record DiagonalBlocksInverter =
  db_UnitDiag :: bool
  db_Upper :: bool
  db_BlockSize :: nat
  db_A :: MatrixView
  db_invA :: MatrixView
  db_N :: nat
  db_lda :: nat

definition make_diag_blocks_inverter :: "bool \<Rightarrow> bool \<Rightarrow> nat \<Rightarrow> MatrixView \<Rightarrow> MatrixView \<Rightarrow> DiagonalBlocksInverter" where
  "make_diag_blocks_inverter UnitDiag Upper BlockSize A invA =
     \<lparr>db_UnitDiag = UnitDiag, db_Upper = Upper, db_BlockSize = BlockSize, db_A = A, db_invA = invA,
      db_N = mv_sizeC A, db_lda = mv_sizeL A\<rparr>"

text \<open>\<open>internalBlockSize\<close> and \<open>outterBlockSize\<close> are both the block size.\<close>

definition db_srcBlockOffset :: "DiagonalBlocksInverter \<Rightarrow> nat \<Rightarrow> nat" where
  "db_srcBlockOffset t blockIndex =
     (let internalBlockSize = db_BlockSize t in blockIndex * (internalBlockSize + db_lda t * internalBlockSize))"

definition db_destBlockOffset :: "DiagonalBlocksInverter \<Rightarrow> nat \<Rightarrow> nat" where
  "db_destBlockOffset t blockIndex =
     (let internalBlockSize = db_BlockSize t; outterBlockSize = db_BlockSize t;
          numInnerBlocks = outterBlockSize div internalBlockSize;
          blockIndexDiv = blockIndex div numInnerBlocks;
          blockIndexMod = blockIndex mod numInnerBlocks;
          offsetPart1 = blockIndexDiv * outterBlockSize * outterBlockSize;
          offsetPart2 = blockIndexMod * (outterBlockSize * internalBlockSize + internalBlockSize)
      in offsetPart1 + offsetPart2)"

definition db_in_range :: "DiagonalBlocksInverter \<Rightarrow> nat \<Rightarrow> nat \<Rightarrow> nat \<Rightarrow> bool" where
  "db_in_range t blockIndex i j \<longleftrightarrow>
     (let blockIndexPerBlock = blockIndex * db_BlockSize t
      in if db_Upper t then i \<le> j \<and> blockIndexPerBlock + j < db_N t else i \<ge> j \<and> blockIndexPerBlock + i < db_N t)"

definition db_load ::
  "DiagonalBlocksInverter \<Rightarrow> nat \<Rightarrow> nat \<Rightarrow> 'v::zero mem \<Rightarrow> (nat \<Rightarrow> 'v) \<Rightarrow> nat \<Rightarrow> 'v" where
  "db_load t blockIndex i m loc =
     fold (\<lambda>j loc. loc(j + i * db_BlockSize t :=
         (if db_in_range t blockIndex i j
          then m (ptr_add (mv_get_pointer (db_A t)) (int (j * db_lda t + i + db_srcBlockOffset t blockIndex))) else 0)))
       [0..<db_BlockSize t] loc"

definition db_invert_diagonal :: "DiagonalBlocksInverter \<Rightarrow> nat \<Rightarrow> (nat \<Rightarrow> 'v::{one, inverse}) \<Rightarrow> nat \<Rightarrow> 'v" where
  "db_invert_diagonal t i loc =
     loc(i + i * db_BlockSize t := 1 / loc (i + i * db_BlockSize t))"

text \<open>One round of the loop over the columns: the sum, and after the barrier the element.\<close>

definition db_sum :: "DiagonalBlocksInverter \<Rightarrow> nat \<Rightarrow> nat \<Rightarrow> (nat \<Rightarrow> 'v::{zero, plus, times}) \<Rightarrow> 'v" where
  "db_sum t j i loc =
     (if db_Upper t then
        (if i < j then fold (\<lambda>k sum. loc (k + i * db_BlockSize t) * loc (j + k * db_BlockSize t) + sum) [0..<j] 0 else 0)
      else
        (if i > j then fold (\<lambda>k sum. loc (k + i * db_BlockSize t) * loc (j + k * db_BlockSize t) + sum)
           [j + 1..<db_BlockSize t] 0 else 0))"

definition db_update ::
  "DiagonalBlocksInverter \<Rightarrow> nat \<Rightarrow> nat \<Rightarrow> (nat \<Rightarrow> 'v::{times, uminus}) \<Rightarrow> 'v \<Rightarrow> nat \<Rightarrow> 'v" where
  "db_update t j i loc s =
     (if (if db_Upper t then i < j else i > j)
      then loc(j + i * db_BlockSize t := s * - loc (j + j * db_BlockSize t)) else loc)"

definition db_columns :: "DiagonalBlocksInverter \<Rightarrow> nat list" where
  "db_columns t = (if db_Upper t then [1..<db_BlockSize t] else rev [0..<db_BlockSize t - 1])"

definition db_store ::
  "DiagonalBlocksInverter \<Rightarrow> nat \<Rightarrow> nat \<Rightarrow> (nat \<Rightarrow> 'v) \<Rightarrow> 'v mem \<Rightarrow> 'v mem" where
  "db_store t blockIndex i loc m =
     fold (\<lambda>j m. m(ptr_add (mv_get_pointer (db_invA t))
           (int (j * db_BlockSize t + i + db_destBlockOffset t blockIndex)) := loc (j + i * db_BlockSize t)))
       [0..<db_BlockSize t] m"

definition db_column :: "DiagonalBlocksInverter \<Rightarrow> nat \<Rightarrow> ('v::ring mem, 'v, 'v) cmd list" where
  "db_column t j =
     [Priv (\<lambda>i _ loc _. db_sum t j i loc), Barrier, Local (\<lambda>i _ loc s. db_update t j i loc s), Barrier]"

definition db_program :: "DiagonalBlocksInverter \<Rightarrow> nat \<Rightarrow> ('v::field mem, 'v, 'v) cmd list" where
  "db_program t blockIndex =
     [Local (\<lambda>i m loc _. db_load t blockIndex i m loc), Barrier] @
     (if db_UnitDiag t then [] else [Local (\<lambda>i _ loc _. db_invert_diagonal t i loc), Barrier]) @
     concat (map (db_column t) (db_columns t)) @
     [Mem (\<lambda>i m loc _. db_store t blockIndex i loc m)]"

text \<open>\<open>Executor::execute(t, localSize, globalSize, localMemSize)\<close>; \<open>u\<close> is what \<open>sum\<close> holds at first.\<close>

definition db_execute ::
  "'v device_run \<Rightarrow> 'v \<Rightarrow> DiagonalBlocksInverter \<Rightarrow> nat \<Rightarrow> nat \<Rightarrow> 'v::field mem \<Rightarrow> 'v mem" where
  "db_execute r u t localSize globalSize m =
     execute_tree_local r u (\<lambda>it. program_phases (db_program t (nd_group it))) localSize globalSize m"

section \<open>What a group computes\<close>

text \<open>The strict part of the triangle.\<close>

abbreviation db_strict :: "DiagonalBlocksInverter \<Rightarrow> nat \<Rightarrow> nat \<Rightarrow> bool" where
  "db_strict t i j \<equiv> (if db_Upper t then i < j else i > j)"

text \<open>Element \<open>(i, j)\<close> of the block in memory.\<close>

definition db_elem :: "DiagonalBlocksInverter \<Rightarrow> nat \<Rightarrow> 'v::zero mem \<Rightarrow> nat \<Rightarrow> nat \<Rightarrow> 'v" where
  "db_elem t blockIndex m i j =
     (if db_in_range t blockIndex i j
      then m (ptr_add (mv_get_pointer (db_A t)) (int (j * db_lda t + i + db_srcBlockOffset t blockIndex))) else 0)"

lemma fold_mad: "fold (\<lambda>k sum. f k + sum) [a..<b] (0 :: 'v::comm_monoid_add) = (\<Sum>k = a..<b. f k)"
proof -
  have "fold (\<lambda>k sum. f k + sum) xs (c :: 'v) = sum_list (map f xs) + c" for xs c
    by (induction xs arbitrary: c) (simp_all add: ac_simps)
  then show ?thesis by (simp add: interv_sum_list_conv_sum_set_nat)
qed

lemma db_sum_eq:
  fixes loc :: "nat \<Rightarrow> 'v::{comm_monoid_add, times}"
  assumes "i < db_BlockSize t" "j < db_BlockSize t" "db_strict t i j"
  shows "db_sum t j i loc = (\<Sum>k | k < db_BlockSize t \<and> db_strict t k j. loc (k + i * db_BlockSize t) * loc (j + k * db_BlockSize t))"
proof -
  have "{0..<j} = {k. k < db_BlockSize t \<and> k < j}" "{j + 1..<db_BlockSize t} = {k. k < db_BlockSize t \<and> k > j}"
    using assms(2) by auto
  then show ?thesis using assms(3) by (simp add: db_sum_def fold_mad)
qed

lemma db_cell_inj:
  assumes "j < b" "j' < b" "j + i * b = j' + i' * (b::nat)"
  shows "i = i'" "j = j'"
proof -
  have "(j + i * b) div b = i" "(j + i * b) mod b = j" "(j' + i' * b) div b = i'" "(j' + i' * b) mod b = j'"
    using assms(1,2) by simp_all
  then show "i = i'" "j = j'" using assms(3) by simp_all
qed

lemma db_loaded:
  assumes "distinct xs" "set xs = {..<db_BlockSize t}" "i < db_BlockSize t" "j < db_BlockSize t"
  shows "fold (\<lambda>i loc. db_load t blk i m loc) xs loc (j + i * db_BlockSize t) = db_elem t blk m i j"
proof -
  let ?b = "db_BlockSize t" and ?a = "\<lambda>(i, j). j + i * db_BlockSize t"
  have inj: "inj_on ?a ({..<?b} \<times> {..<?b})"
    by (intro inj_onI) (auto dest: db_cell_inj)
  have row: "wrote ?a ({i} \<times> {..<?b}) (\<lambda>(i, j). db_elem t blk m i j) loc (db_load t blk i m loc)" if "i < ?b" for i loc
  proof -
    have "wrote ?a (\<Union>j \<in> set [0..<?b]. {(i, j)}) (\<lambda>(i, j). db_elem t blk m i j) loc
        (fold (\<lambda>j loc. loc(?a (i, j) := db_elem t blk m i j)) [0..<?b] loc)"
      by (rule fold_wrote [OF inj]) (use that in \<open>auto simp: wrote_def\<close>)
    moreover have "(\<Union>j \<in> set [0..<?b]. {(i, j)}) = {i} \<times> {..<?b}" by auto
    ultimately show ?thesis by (simp add: db_load_def db_elem_def)
  qed
  have "wrote ?a (\<Union>i \<in> set xs. {i} \<times> {..<?b}) (\<lambda>(i, j). db_elem t blk m i j) loc (fold (\<lambda>i loc. db_load t blk i m loc) xs loc)"
    by (rule fold_wrote [OF inj]) (use row assms(2) in auto)
  then show ?thesis using assms(2-4) by (auto simp: wrote_def)
qed

lemma db_diagonal_inverted:
  assumes "distinct xs" "set xs = {..<db_BlockSize t}" "i < db_BlockSize t" "j < db_BlockSize t"
  shows "fold (\<lambda>i loc. db_invert_diagonal t i loc) xs loc (j + i * db_BlockSize t) =
    (if i = j then 1 / loc (i + i * db_BlockSize t) else loc (j + i * db_BlockSize t))"
proof -
  let ?b = "db_BlockSize t" and ?a = "\<lambda>i. i + i * db_BlockSize t"
  have inj: "inj_on ?a {..<?b}" by (intro inj_onI) (auto dest: db_cell_inj)
  have reads: "1 / f (?a x) = 1 / f' (?a x)"
    if "x \<in> {..<?b}" "\<And>d. (\<And>y. y \<in> {..<?b} \<Longrightarrow> y \<noteq> x \<Longrightarrow> d \<noteq> ?a y) \<Longrightarrow> f d = f' d" for x and f f' :: "nat \<Rightarrow> 'a"
  proof -
    have "f (?a x) = f' (?a x)" by (rule that(2)) (use that(1) inj in \<open>auto dest: inj_onD\<close>)
    then show ?thesis by simp
  qed
  let ?go = "\<lambda>loc. fold (\<lambda>i loc. loc(?a i := 1 / loc (?a i))) xs loc"
  have hit: "?go loc (?a x) = 1 / loc (?a x)" if "x < ?b" for x and loc :: "nat \<Rightarrow> 'a"
    by (rule fold_cell_writers_hit [where v = "\<lambda>i loc. 1 / loc (?a i)" and a = ?a, OF inj _ assms(1,2)], rule reads, assumption, blast, simp add: that)
  have miss: "?go loc d = loc d" if "d \<notin> ?a ` {..<?b}" for d and loc :: "nat \<Rightarrow> 'a"
    by (rule fold_cell_writers_miss [where v = "\<lambda>i loc. 1 / loc (?a i)" and a = ?a, OF inj _ assms(1,2) that], rule reads, assumption, blast)
  show ?thesis
  proof (cases "i = j")
    case True
    then show ?thesis using hit [of i loc] assms(3) by (simp add: db_invert_diagonal_def)
  next
    case False
    then have "j + i * ?b \<notin> ?a ` {..<?b}" using assms(3,4) by (auto dest: db_cell_inj)
    then show ?thesis using miss [of "j + i * ?b" loc] False by (simp add: db_invert_diagonal_def)
  qed
qed

lemma db_updated:
  assumes "distinct xs" "set xs = {..<db_BlockSize t}" "i < db_BlockSize t" "j < db_BlockSize t" "c < db_BlockSize t"
  shows "fold (\<lambda>i loc. db_update t c i loc (s i)) xs loc (j + i * db_BlockSize t) =
    (if j = c \<and> db_strict t i c then s i * - loc (c + c * db_BlockSize t) else loc (j + i * db_BlockSize t))"
proof -
  let ?b = "db_BlockSize t" and ?a = "\<lambda>i. c + i * db_BlockSize t" and ?P = "\<lambda>i. db_strict t i c"
  let ?X = "{i. i < ?b \<and> ?P i}" and ?v = "\<lambda>i loc. s i * - loc (c + c * db_BlockSize t)"
  have upd: "fold (\<lambda>i loc. db_update t c i loc (s i)) ys loc = fold (\<lambda>i loc. loc(?a i := ?v i loc)) (filter ?P ys) loc" for ys loc
    by (induction ys arbitrary: loc) (simp_all add: db_update_def)
  have inj: "inj_on ?a ?X" by (intro inj_onI) (use assms(5) in \<open>auto dest: db_cell_inj\<close>)
  have reads: "?v x f = ?v x f'"
    if "x \<in> ?X" "\<And>d. (\<And>y. y \<in> ?X \<Longrightarrow> y \<noteq> x \<Longrightarrow> d \<noteq> ?a y) \<Longrightarrow> f d = f' d" for x f f'
  proof -
    have "f (?a c) = f' (?a c)"
    proof (rule that(2))
      fix y assume "y \<in> ?X" "y \<noteq> x"
      then have "y \<noteq> c" by (auto split: if_splits)
      then show "?a c \<noteq> ?a y" using assms(5) by auto
    qed
    then show ?thesis by simp
  qed
  have xs: "distinct (filter ?P xs)" "set (filter ?P xs) = ?X" using assms(1,2) by auto
  let ?go = "\<lambda>loc. fold (\<lambda>i loc. loc(?a i := ?v i loc)) (filter ?P xs) loc"
  have hit: "?go loc (?a x) = ?v x loc" if "x \<in> ?X" for x loc
    by (rule fold_cell_writers_hit [where v = ?v and a = ?a, OF inj _ xs that], rule reads, assumption, blast)
  have miss: "?go loc d = loc d" if "d \<notin> ?a ` ?X" for d loc
    by (rule fold_cell_writers_miss [where v = ?v and a = ?a, OF inj _ xs that], rule reads, assumption, blast)
  show ?thesis
  proof (cases "j = c \<and> ?P i")
    case True
    then have "i \<in> ?X" using assms(3) by simp
    from hit [OF this, of loc] show ?thesis unfolding upd if_P [OF True] using True by simp
  next
    case False
    have "j + i * ?b \<notin> ?a ` ?X"
    proof
      assume "j + i * ?b \<in> ?a ` ?X"
      then obtain x where x: "x \<in> ?X" "j + i * ?b = c + x * ?b" by blast
      then show False using db_cell_inj [OF assms(4,5) x(2)] False by (simp split: if_splits)
    qed
    from miss [OF this, of loc] show ?thesis unfolding upd if_not_P [OF False] .
  qed
qed

text \<open>One round of the loop over the columns.\<close>

lemma db_column_run:
  fixes gs :: "('v::ring mem, 'v, 'v) group_state" and n p :: nat
  assumes ord: "item_orders (db_BlockSize t) ord" and c: "c < db_BlockSize t"
  defines "gs' \<equiv> run_cmds ord n (db_column t c) gs"
  shows "gs_mem gs' = gs_mem gs"
    and "i < db_BlockSize t \<Longrightarrow> j < db_BlockSize t \<Longrightarrow> gs_local gs' (j + i * db_BlockSize t) =
      (if j = c \<and> db_strict t i c
       then (\<Sum>k | k < db_BlockSize t \<and> db_strict t k c.
               gs_local gs (k + i * db_BlockSize t) * gs_local gs (c + k * db_BlockSize t)) * - gs_local gs (c + c * db_BlockSize t)
       else gs_local gs (j + i * db_BlockSize t))"
proof -
  let ?s = "\<lambda>l. if l < db_BlockSize t then db_sum t c l (gs_local gs) else gs_priv gs l"
  have gs': "gs' = gs\<lparr>gs_priv := ?s, gs_local := fold (\<lambda>l loc. db_update t c l loc (?s l)) (ord (Suc n)) (gs_local gs)\<rparr>"
    by (simp add: gs'_def db_column_def fold_exec_Local fold_exec_Priv [OF item_ordersD [OF ord]] cong: if_cong)
  show "gs_mem gs' = gs_mem gs" by (simp add: gs')
  assume ij: "i < db_BlockSize t" "j < db_BlockSize t"
  show "gs_local gs' (j + i * db_BlockSize t) =
      (if j = c \<and> db_strict t i c
       then (\<Sum>k | k < db_BlockSize t \<and> db_strict t k c.
               gs_local gs (k + i * db_BlockSize t) * gs_local gs (c + k * db_BlockSize t)) * - gs_local gs (c + c * db_BlockSize t)
       else gs_local gs (j + i * db_BlockSize t))"
    using db_updated [OF item_ordersD [OF ord, of "Suc n"] ij c, where s = ?s and loc = "gs_local gs"] ij
    by (simp add: gs' db_sum_eq c cong: if_cong)
qed

definition db_col :: "DiagonalBlocksInverter \<Rightarrow> nat \<Rightarrow> nat" where
  "db_col t x = (if db_Upper t then x else db_BlockSize t - 1 - x)"

lemma db_columns_eq: "db_columns t = map (db_col t) [1..<db_BlockSize t]"
proof -
  have "rev [0..<b - 1] = map (\<lambda>x. b - 1 - x) [1..<b]" for b :: nat
  proof (cases b)
    case (Suc n)
    have "rev [0..<n] = map (\<lambda>x. n - Suc x) [0..<n]"
      by (rule nth_equalityI) (simp_all add: rev_nth)
    also have "\<dots> = map (\<lambda>x. n - x) [1..<Suc n]" by (simp add: comp_def flip: map_Suc_upt del: upt_Suc)
    finally show ?thesis by (simp add: Suc del: upt_Suc)
  qed simp
  then show ?thesis by (auto simp: db_columns_def db_col_def [abs_def])
qed

lemma db_col_strict:
  assumes "x < db_BlockSize t" "y < db_BlockSize t"
  shows "db_col t x < db_BlockSize t" "db_strict t (db_col t x) (db_col t y) \<longleftrightarrow> x < y" "db_col t x = db_col t y \<longleftrightarrow> x = y"
  using assms by (auto simp: db_col_def)

lemma db_columns_run:
  fixes gs :: "('v::ring mem, 'v, 'v) group_state" and n p :: nat
  assumes ord: "item_orders (db_BlockSize t) ord" and n: "n \<le> db_BlockSize t"
  defines "gs' \<equiv> run_cmds ord p (concat (map (db_column t) (map (db_col t) [1..<n]))) gs"
  shows "gs_mem gs' = gs_mem gs"
    and "i < db_BlockSize t \<Longrightarrow> j < db_BlockSize t \<Longrightarrow> gs_local gs' (j + i * db_BlockSize t) =
      (if j \<in> db_col t ` {1..<n} \<and> db_strict t i j
       then (\<Sum>k | k < db_BlockSize t \<and> db_strict t k j.
               gs_local gs' (k + i * db_BlockSize t) * gs_local gs (j + k * db_BlockSize t)) * - gs_local gs (j + j * db_BlockSize t)
       else gs_local gs (j + i * db_BlockSize t))"
proof -
  let ?b = "db_BlockSize t"
  define G where "G n = run_cmds ord p (concat (map (db_column t) (map (db_col t) [1..<n]))) gs" for n
  define I where "I i j = gs_local gs (j + i * ?b)" for i j
  define L where "L n i j = gs_local (G n) (j + i * ?b)" for n i j
  have main: "gs_mem (G n) = gs_mem gs \<and> (\<forall>i < ?b. \<forall>j < ?b. L n i j =
      (if j \<in> db_col t ` {1..<n} \<and> db_strict t i j
       then (\<Sum>k | k < ?b \<and> db_strict t k j. L n i k * I k j) * - I j j else I i j))"
    if "n \<le> ?b" for n
    using that
  proof (induction n)
    case 0
    show ?case by (simp add: G_def L_def I_def)
  next
    case (Suc n)
    show ?case
    proof (cases "n = 0")
      case True
      then show ?thesis by (simp add: G_def L_def I_def)
    next
      case False
      let ?c = "db_col t n"
      have c: "?c < ?b" using db_col_strict(1) [of n t n] Suc.prems by simp
      obtain q where q: "G (Suc n) = run_cmds ord q (db_column t ?c) (G n)"
        using False by (simp add: G_def run_cmds_append)
      note step = db_column_run [OF ord c, where n = q and gs = "G n", folded q]
      have IH: "gs_mem (G n) = gs_mem gs" "\<And>i j. i < ?b \<Longrightarrow> j < ?b \<Longrightarrow> L n i j =
          (if j \<in> db_col t ` {1..<n} \<and> db_strict t i j
           then (\<Sum>k | k < ?b \<and> db_strict t k j. L n i k * I k j) * - I j j else I i j)"
        using Suc by auto
      have "?c \<noteq> db_col t x" if "x < n" for x using db_col_strict(3) [of n t x] that Suc.prems by simp
      then have "?c \<notin> db_col t ` {1..<n}" by (metis atLeastLessThan_iff imageE)
      then have old: "L n i ?c = I i ?c" if "i < ?b" for i using IH(2) [OF that c] by simp
      have keep: "L (Suc n) i j = L n i j" if "i < ?b" "j < ?b" "j \<noteq> ?c" for i j
        using step(2) [OF that(1,2)] that(3) by (simp add: L_def)
      have new: "L (Suc n) i ?c = (if db_strict t i ?c then (\<Sum>k | k < ?b \<and> db_strict t k ?c. L n i k * L n k ?c) * - L n ?c ?c else L n i ?c)"
        if "i < ?b" for i
        using step(2) [OF that c] by (simp add: L_def)
      have "L (Suc n) i j = (if j \<in> db_col t ` {1..<Suc n} \<and> db_strict t i j
           then (\<Sum>k | k < ?b \<and> db_strict t k j. L (Suc n) i k * I k j) * - I j j else I i j)"
        if ij: "i < ?b" "j < ?b" for i j
      proof (cases "j = ?c")
        case True
        have S: "(\<Sum>k | k < ?b \<and> db_strict t k ?c. L n i k * L n k ?c) = (\<Sum>k | k < ?b \<and> db_strict t k ?c. L (Suc n) i k * I k ?c)"
          by (rule sum.cong) (auto simp: old keep ij(1) split: if_splits)
        have "?c \<in> db_col t ` {1..<Suc n}" using False by simp
        then show ?thesis unfolding True new [OF ij(1)] S old [OF c] old [OF ij(1)] by simp
      next
        case other: False
        have in_eq: "j \<in> db_col t ` {1..<Suc n} \<longleftrightarrow> j \<in> db_col t ` {1..<n}"
          using other False by (auto simp: less_Suc_eq)
        have "(\<Sum>k | k < ?b \<and> db_strict t k j. L n i k * I k j) = (\<Sum>k | k < ?b \<and> db_strict t k j. L (Suc n) i k * I k j)"
          if j: "j \<in> db_col t ` {1..<n}"
        proof (rule sum.cong)
          fix k assume k: "k \<in> {k. k < ?b \<and> db_strict t k j}"
          obtain x where x: "x < n" "j = db_col t x" using j by auto
          have "k \<noteq> ?c" using k db_col_strict(2) [of n t x] x Suc.prems by auto
          then show "L n i k * I k j = L (Suc n) i k * I k j" using k ij(1) by (simp add: keep)
        qed simp
        then show ?thesis using IH(2) [OF ij] keep [OF ij other] unfolding in_eq by auto
      qed
      moreover have "gs_mem (G (Suc n)) = gs_mem gs" using step(1) IH(1) by simp
      ultimately show ?thesis by blast
    qed
  qed
  have eq: "gs' = G n" by (simp only: gs'_def G_def)
  show "gs_mem gs' = gs_mem gs" using main [OF n] by (simp add: eq)
  assume "i < ?b" "j < ?b"
  then show "gs_local gs' (j + i * ?b) =
      (if j \<in> db_col t ` {1..<n} \<and> db_strict t i j
       then (\<Sum>k | k < ?b \<and> db_strict t k j. gs_local gs' (k + i * ?b) * gs_local gs (j + k * ?b)) * - gs_local gs (j + j * ?b)
       else gs_local gs (j + i * ?b))"
    using main [OF n] unfolding eq L_def I_def by blast
qed

text \<open>What the rounds compute: the unique solution of these equations.\<close>

definition db_solution :: "DiagonalBlocksInverter \<Rightarrow> (nat \<Rightarrow> nat \<Rightarrow> 'v::ring) \<Rightarrow> (nat \<Rightarrow> nat \<Rightarrow> 'v) \<Rightarrow> bool" where
  "db_solution t I L \<longleftrightarrow> (\<forall>i < db_BlockSize t. \<forall>j < db_BlockSize t. L i j =
     (if db_strict t i j then (\<Sum>k | k < db_BlockSize t \<and> db_strict t k j. L i k * I k j) * - I j j else I i j))"

lemma db_col_surj:
  assumes "j < db_BlockSize t"
  obtains x where "x < db_BlockSize t" "j = db_col t x"
  using assms that [of "if db_Upper t then j else db_BlockSize t - 1 - j"] by (auto simp: db_col_def split: if_splits)

lemma db_solution_unique:
  assumes L: "db_solution t I L" "db_solution t I L'" and ij: "i < db_BlockSize t" "j < db_BlockSize t"
  shows "L i j = L' i j"
proof -
  have "L i (db_col t x) = L' i (db_col t x)" if "x < db_BlockSize t" for x
    using that
  proof (induction x rule: less_induct)
    case (less x)
    let ?c = "db_col t x"
    have c: "?c < db_BlockSize t" using db_col_strict(1) less.prems by simp
    have S: "(\<Sum>k | k < db_BlockSize t \<and> db_strict t k ?c. L i k * I k ?c) = (\<Sum>k | k < db_BlockSize t \<and> db_strict t k ?c. L' i k * I k ?c)"
    proof (rule sum.cong)
      fix k assume k: "k \<in> {k. k < db_BlockSize t \<and> db_strict t k ?c}"
      then obtain y where y: "y < db_BlockSize t" "k = db_col t y" using db_col_surj [of k t] by auto
      then have "y < x" using k db_col_strict(2) [OF y(1) less.prems] by auto
      then show "L i k * I k ?c = L' i k * I k ?c" using less.IH [OF _ y(1)] y(2) by simp
    qed simp
    have eq: "M i ?c = (if db_strict t i ?c then (\<Sum>k | k < db_BlockSize t \<and> db_strict t k ?c. M i k * I k ?c) * - I ?c ?c else I i ?c)"
      if "db_solution t I M" for M
      using that ij(1) c unfolding db_solution_def by blast
    show ?case unfolding eq [OF L(1)] eq [OF L(2)] S ..
  qed
  moreover obtain x where "x < db_BlockSize t" "j = db_col t x" by (rule db_col_surj [OF ij(2)])
  ultimately show ?thesis by simp
qed

definition db_diag :: "DiagonalBlocksInverter \<Rightarrow> nat \<Rightarrow> 'v::field mem \<Rightarrow> nat \<Rightarrow> nat \<Rightarrow> 'v" where
  "db_diag t blk m i j =
     (if i = j \<and> \<not> db_UnitDiag t then 1 / db_elem t blk m i i else db_elem t blk m i j)"

lemma db_dest_inj: "inj_on (\<lambda>(i, j). ptr_add p (int (j * b + i + d))) ({..<b} \<times> {..<b})"
proof (rule inj_onI)
  fix x y assume xy: "x \<in> {..<b} \<times> {..<b}" "y \<in> {..<b} \<times> {..<b}"
    and eq: "(\<lambda>(i, j). ptr_add p (int (j * b + i + d))) x = (\<lambda>(i, j). ptr_add p (int (j * b + i + d))) y"
  obtain i j i' j' where p: "x = (i, j)" "y = (i', j')" by (cases x, cases y)
  have "i + j * b = i' + j' * b" using eq unfolding p prod.case ptr_add_inject of_nat_eq_iff by simp
  then show "x = y" using xy db_cell_inj [of i b i' j j'] by (simp add: p)
qed

lemma db_program_run:
  fixes gs :: "('v::field mem, 'v, 'v) group_state"
  assumes ord: "item_orders (db_BlockSize t) ord"
  obtains loc where "db_solution t (db_diag t blk (gs_mem gs)) (\<lambda>i j. loc (j + i * db_BlockSize t))"
    and "wrote (\<lambda>(i, j). ptr_add (mv_get_pointer (db_invA t)) (int (j * db_BlockSize t + i + db_destBlockOffset t blk)))
       ({..<db_BlockSize t} \<times> {..<db_BlockSize t}) (\<lambda>(i, j). loc (j + i * db_BlockSize t)) (gs_mem gs)
       (gs_mem (run_cmds ord 0 (db_program t blk) gs))"
proof -
  let ?b = "db_BlockSize t" and ?a = "\<lambda>(i, j). ptr_add (mv_get_pointer (db_invA t)) (int (j * db_BlockSize t + i + db_destBlockOffset t blk))"
  define gs1 where "gs1 = gs\<lparr>gs_local := fold (\<lambda>i loc. db_load t blk i (gs_mem gs) loc) (ord 0) (gs_local gs)\<rparr>"
  define gs2 where "gs2 = (if db_UnitDiag t then gs1 else gs1\<lparr>gs_local := fold (\<lambda>i loc. db_invert_diagonal t i loc) (ord 1) (gs_local gs1)\<rparr>)"
  let ?n = "if db_UnitDiag t then Suc 0 else Suc (Suc 0)" and ?cols = "concat (map (db_column t) (map (db_col t) [1..<?b])) :: ('v mem, 'v, 'v) cmd list"
  define gs3 where "gs3 = run_cmds ord ?n ?cols gs2"
  have mem: "gs_mem gs1 = gs_mem gs" "gs_mem gs2 = gs_mem gs" "gs_mem gs3 = gs_mem gs"
    using db_columns_run(1) [OF ord order_refl, where p = ?n and gs = gs2] by (simp_all add: gs1_def gs2_def gs3_def)
  have "run_cmds ord 0 (db_program t blk) gs = run_cmds ord ?n (?cols @ [Mem (\<lambda>i m loc _. db_store t blk i loc m)]) gs2"
    by (simp add: db_program_def db_columns_eq fold_exec_Local gs1_def gs2_def del: map_map)
  then have run: "gs_mem (run_cmds ord 0 (db_program t blk) gs) = fold (\<lambda>i m. db_store t blk i (gs_local gs3) m) (ord (?n + barriers ?cols)) (gs_mem gs)"
    by (simp only: run_cmds_append gs3_def [symmetric] run_cmds.simps fold_exec_Mem mem) simp
  show ?thesis
  proof (rule that)
    have loaded: "gs_local gs1 (j + i * ?b) = db_elem t blk (gs_mem gs) i j" if "i < ?b" "j < ?b" for i j
      using db_loaded [OF item_ordersD [OF ord] that] by (simp add: gs1_def)
    have diag: "gs_local gs2 (j + i * ?b) = db_diag t blk (gs_mem gs) i j" if "i < ?b" "j < ?b" for i j
      using loaded that db_diagonal_inverted [OF item_ordersD [OF ord, of 1] that, of "gs_local gs1"] by (auto simp: gs2_def db_diag_def)
    have cols: "j \<in> db_col t ` {1..<?b}" if a: "i < ?b" "j < ?b" "db_strict t i j" for i j
    proof -
      obtain x y where "x < ?b" "i = db_col t x" "y < ?b" "j = db_col t y" using a(1,2) by (meson db_col_surj)
      then show ?thesis using a(3) db_col_strict(2) [of x t y] by auto
    qed
    have sum_eq: "(\<Sum>k | k < ?b \<and> db_strict t k j. gs_local gs3 (k + i * ?b) * gs_local gs2 (j + k * ?b))
        = (\<Sum>k | k < ?b \<and> db_strict t k j. gs_local gs3 (k + i * ?b) * db_diag t blk (gs_mem gs) k j)" if "j < ?b" for i j
      by (rule sum.cong) (simp_all add: diag that)
    show "db_solution t (db_diag t blk (gs_mem gs)) (\<lambda>i j. gs_local gs3 (j + i * ?b))"
      unfolding db_solution_def
    proof (intro allI impI)
      fix i j assume ij: "i < ?b" "j < ?b"
      show "gs_local gs3 (j + i * ?b) = (if db_strict t i j
          then (\<Sum>k | k < ?b \<and> db_strict t k j. gs_local gs3 (k + i * ?b) * db_diag t blk (gs_mem gs) k j) * - db_diag t blk (gs_mem gs) j j
          else db_diag t blk (gs_mem gs) i j)"
      proof -
        have c: "(j \<in> db_col t ` {1..<?b} \<and> db_strict t i j) = db_strict t i j" using cols [OF ij] by blast
        show ?thesis
          using db_columns_run(2) [OF ord order_refl ij, where p = ?n and gs = gs2, folded gs3_def]
          unfolding c sum_eq [OF ij(2)] diag [OF ij] diag [OF ij(2) ij(2)] .
      qed
    qed
    have inj: "inj_on ?a ({..<?b} \<times> {..<?b})"
      by (rule db_dest_inj)
    have row: "wrote ?a ({i} \<times> {..<?b}) (\<lambda>(i, j). gs_local gs3 (j + i * ?b)) m (db_store t blk i (gs_local gs3) m)" if "i < ?b" for i m
    proof -
      have "wrote ?a (\<Union>j \<in> set [0..<?b]. {(i, j)}) (\<lambda>(i, j). gs_local gs3 (j + i * ?b)) m
          (fold (\<lambda>j m. m(?a (i, j) := gs_local gs3 (j + i * ?b))) [0..<?b] m)"
        by (rule fold_wrote [OF inj]) (use that in \<open>auto simp: wrote_def\<close>)
      moreover have "(\<Union>j \<in> set [0..<?b]. {(i, j)}) = {i} \<times> {..<?b}" by auto
      ultimately show ?thesis by (simp add: db_store_def)
    qed
    have "wrote ?a (\<Union>i \<in> set (ord (?n + barriers ?cols)). {i} \<times> {..<?b}) (\<lambda>(i, j). gs_local gs3 (j + i * ?b)) (gs_mem gs)
       (fold (\<lambda>i m. db_store t blk i (gs_local gs3) m) (ord (?n + barriers ?cols)) (gs_mem gs))"
      by (rule fold_wrote [OF inj]) (use row item_ordersD(2) [OF ord] in auto)
    moreover have "(\<Union>i \<in> set (ord (?n + barriers ?cols)). {i} \<times> {..<?b}) = {..<?b} \<times> {..<?b}"
      using item_ordersD(2) [OF ord] by auto
    ultimately show "wrote ?a ({..<?b} \<times> {..<?b}) (\<lambda>(i, j). gs_local gs3 (j + i * ?b)) (gs_mem gs) (gs_mem (run_cmds ord 0 (db_program t blk) gs))"
      unfolding run by simp
  qed
qed

section \<open>The inverse\<close>

text \<open>How many rows and columns of a block lie inside the matrix.\<close>

definition db_rows :: "DiagonalBlocksInverter \<Rightarrow> nat \<Rightarrow> nat" where
  "db_rows t blk = min (db_BlockSize t) (db_N t - blk * db_BlockSize t)"

lemma db_in_range_iff:
  assumes "i < db_BlockSize t" "j < db_BlockSize t"
  shows "db_in_range t blk i j \<longleftrightarrow> (i = j \<or> db_strict t i j) \<and> i < db_rows t blk \<and> j < db_rows t blk"
  using assms by (auto simp: db_in_range_def db_rows_def Let_def)

lemma db_elem_zero:
  assumes "i < db_BlockSize t" "j < db_BlockSize t" "\<not> ((i = j \<or> db_strict t i j) \<and> i < db_rows t blk \<and> j < db_rows t blk)"
  shows "db_elem t blk m i j = 0"
  unfolding db_elem_def by (rule if_not_P) (use assms db_in_range_iff in blast)

lemma db_solution_inverse:
  fixes m :: "'v::field mem"
  assumes sol: "db_solution t (db_diag t blk m) L"
    and diag: "\<And>j. j < db_rows t blk \<Longrightarrow> if db_UnitDiag t then db_elem t blk m j j = 1 else db_elem t blk m j j \<noteq> 0"
    and ic: "i < db_rows t blk" "c < db_rows t blk"
  shows "(\<Sum>k < db_rows t blk. L i k * db_elem t blk m k c) = of_bool (i = c)"
proof -
  let ?b = "db_BlockSize t" and ?n = "db_rows t blk" and ?E = "db_elem t blk m" and ?I = "db_diag t blk m"
  have nb: "?n \<le> ?b" by (simp add: db_rows_def)
  then have b: "i < ?b" "c < ?b" using ic by simp_all
  have L: "L i j = (if db_strict t i j then (\<Sum>k | k < ?b \<and> db_strict t k j. L i k * ?I k j) * - ?I j j else ?I i j)" if "j < ?b" for j
    using sol b(1) that unfolding db_solution_def by blast
  have zero: "L i k = 0" if "k < ?b" "i \<noteq> k" "\<not> db_strict t i k" for k
    using L [OF that(1)] db_elem_zero [OF b(1) that(1)] that(2,3) by (simp add: db_diag_def)
  have S: "(\<Sum>k < ?n. L i k * ?E k c) = L i c * ?E c c + (\<Sum>k | k < ?b \<and> db_strict t k c. L i k * ?I k c)"
  proof -
    have "(\<Sum>k < ?n. L i k * ?E k c) = (\<Sum>k < ?b. L i k * ?E k c)"
      by (rule sum.mono_neutral_left) (use nb b(2) ic(2) in \<open>auto simp: db_elem_zero\<close>)
    also have "\<dots> = L i c * ?E c c + (\<Sum>k \<in> {..<?b} - {c}. L i k * ?E k c)"
      by (rule sum.remove) (use b in simp_all)
    also have "(\<Sum>k \<in> {..<?b} - {c}. L i k * ?E k c) = (\<Sum>k | k < ?b \<and> db_strict t k c. L i k * ?E k c)"
      by (rule sum.mono_neutral_right) (use b(2) in \<open>auto simp: db_elem_zero split: if_splits\<close>)
    also have "\<dots> = (\<Sum>k | k < ?b \<and> db_strict t k c. L i k * ?I k c)"
      by (rule sum.cong) (auto simp: db_diag_def split: if_splits)
    finally show ?thesis .
  qed
  have unit: "?I c c * ?E c c = 1"
    using diag [OF ic(2)] by (simp add: db_diag_def split: if_splits)
  consider "i = c" | "i \<noteq> c" "db_strict t i c" | "i \<noteq> c" "db_strict t c i"
    by (cases i c rule: linorder_cases; cases "db_Upper t") auto
  then show ?thesis
  proof cases
    case 1
    have "(\<Sum>k | k < ?b \<and> db_strict t k c. L i k * ?I k c) = 0"
      by (rule sum.neutral) (use zero 1 in \<open>auto split: if_splits\<close>)
    then show ?thesis unfolding S using L [OF b(2)] unit 1 by simp
  next
    case 2
    let ?S = "\<Sum>k | k < ?b \<and> db_strict t k c. L i k * ?I k c"
    have "L i c * ?E c c = ?S * - (?I c c * ?E c c)" using L [OF b(2)] 2(2) by simp
    then show ?thesis unfolding S unit using 2(1) by simp
  next
    case 3
    have "(\<Sum>k | k < ?b \<and> db_strict t k c. L i k * ?I k c) = 0"
      by (rule sum.neutral) (use zero 3 in \<open>auto split: if_splits\<close>)
    moreover have "L i c = 0" using zero [OF b(2)] 3 by (auto split: if_splits)
    ultimately show ?thesis unfolding S using 3(1) by simp
  qed
qed

text \<open>The launch.\<close>

definition db_inv_cell :: "DiagonalBlocksInverter \<Rightarrow> nat \<Rightarrow> nat \<Rightarrow> nat \<Rightarrow> addr" where
  "db_inv_cell t blk i j = ptr_add (mv_get_pointer (db_invA t)) (int (j * db_BlockSize t + i + db_destBlockOffset t blk))"

lemma db_destBlockOffset_eq:
  "0 < db_BlockSize t \<Longrightarrow> db_destBlockOffset t blk = blk * (db_BlockSize t * db_BlockSize t)"
  by (simp add: db_destBlockOffset_def Let_def)

lemma db_execute_result:
  fixes m :: "'v::field mem" and u :: 'v
  assumes r: "is_run r" and b: "0 < db_BlockSize t" and n: "0 < n"
    and bufs: "fst (mv_get_pointer (db_A t)) \<noteq> fst (mv_get_pointer (db_invA t))"
  defines "m' \<equiv> db_execute r u t (db_BlockSize t) (n * db_BlockSize t) m"
  shows "blk < n \<Longrightarrow> db_solution t (db_diag t blk m) (\<lambda>i j. m' (db_inv_cell t blk i j))"
    and "d \<notin> {ptr_add (mv_get_pointer (db_invA t)) (int x) |x. x < n * (db_BlockSize t * db_BlockSize t)} \<Longrightarrow> m' d = m d"
proof -
  let ?b = "db_BlockSize t" and ?p = "mv_get_pointer (db_invA t)"
  let ?a = "\<lambda>blk (i, j). db_inv_cell t blk i j" and ?Q = "{..<?b} \<times> {..<?b}"
  let ?U = "{ptr_add ?p (int x) |x. x < n * (?b * ?b)}"
  let ?run = "\<lambda>g m. run_group r g ?b u (program_phases (db_program t (nd_group (item_of ?b (n * ?b) (g * ?b))))) m"
  have nd: "nd_range_ok (n * ?b) ?b" using b n by (simp add: nd_range_ok_def)
  have run: "?run g m = gs_mem (run_cmds (\<lambda>k. item_order r g k ?b) 0 (db_program t g) \<lparr>gs_mem = m, gs_local = local_init r g, gs_priv = (\<lambda>_. u)\<rparr>)" for g m
  proof -
    have column: "commuting ?b (concat (map (db_column t) cs) @ [Mem f])" for cs and f :: "nat \<Rightarrow> 'v mem \<Rightarrow> (nat \<Rightarrow> 'v) \<Rightarrow> 'v \<Rightarrow> 'v mem"
      by (induction cs) (simp_all add: db_column_def)
    have free: "commuting ?b (db_program t g :: ('v mem, 'v, 'v) cmd list)"
      using column [of "db_columns t" "\<lambda>i m loc _. db_store t g i loc m"] by (simp add: db_program_def)
    show ?thesis
      unfolding run_group_def item_of_group(1) [OF b]
      by (subst run_program_cmds [OF free]) (use run_items [OF r] in simp_all)
  qed
  have ord: "item_orders ?b (\<lambda>k. item_order r g k ?b)" for g
    using run_items [OF r] by (simp add: item_orders_def)
  have group: "\<exists>loc. db_solution t (db_diag t g m) (\<lambda>i j. loc (j + i * ?b)) \<and> wrote (?a g) ?Q (\<lambda>(i, j). loc (j + i * ?b)) m (?run g m)" for g m
    unfolding run db_inv_cell_def
    by (rule db_program_run [OF ord, where blk = g and gs = "\<lparr>gs_mem = m, gs_local = local_init r g, gs_priv = (\<lambda>_. u)\<rparr>"]) auto
  have sol: "db_solution t (db_diag t g m) (\<lambda>i j. ?run g m (db_inv_cell t g i j))" for g m
  proof -
    obtain loc where loc: "db_solution t (db_diag t g m) (\<lambda>i j. loc (j + i * ?b))" "wrote (?a g) ?Q (\<lambda>(i, j). loc (j + i * ?b)) m (?run g m)"
      using group by blast
    have "?run g m (db_inv_cell t g i j) = loc (j + i * ?b)" if "i < ?b" "j < ?b" for i j
      using loc(2) that unfolding wrote_def by auto
    then show ?thesis using loc(1) unfolding db_solution_def by simp
  qed
  have frame: "?run g m d = m d" if "d \<notin> ?a g ` ?Q" for g m d
    using group [of g m] that unfolding wrote_def by blast
  have index: "j * ?b + i + db_destBlockOffset t g = (i + j * ?b) + g * (?b * ?b)" "i + j * ?b < ?b * ?b" if "i < ?b" "j < ?b" for i j g
    using that reg_index(1) [OF that] by (simp_all add: db_destBlockOffset_eq [OF b])
  have W: "?a g ` ?Q = {ptr_add ?p (int (x + g * (?b * ?b))) |x. x < ?b * ?b}" for g
  proof (intro set_eqI iffI)
    fix d assume "d \<in> ?a g ` ?Q"
    then obtain i j where "i < ?b" "j < ?b" "d = db_inv_cell t g i j" by auto
    then show "d \<in> {ptr_add ?p (int (x + g * (?b * ?b))) |x. x < ?b * ?b}"
      using index(1) [of i j g] index(2) [of i j] unfolding db_inv_cell_def by (metis (mono_tags, lifting) mem_Collect_eq)
  next
    fix d assume "d \<in> {ptr_add ?p (int (x + g * (?b * ?b))) |x. x < ?b * ?b}"
    then obtain x where x: "x < ?b * ?b" "d = ptr_add ?p (int (x + g * (?b * ?b)))" by blast
    then have "x mod ?b < ?b" "x div ?b < ?b" using b by (simp_all add: less_mult_imp_div_less)
    moreover from this have "d = db_inv_cell t g (x mod ?b) (x div ?b)" using x(2) index by (simp add: db_inv_cell_def del: of_nat_add of_nat_mult)
    ultimately show "d \<in> ?a g ` ?Q" by auto
  qed
  have in_U: "?a g ` ?Q \<subseteq> ?U" if "g < n" for g
  proof -
    have "x + g * (?b * ?b) < n * (?b * ?b)" if "x < ?b * ?b" for x
      using reg_index(1) [OF that \<open>g < n\<close>] by (simp add: add.commute)
    then show ?thesis unfolding W by blast
  qed
  have diag: "db_diag t g m1 = db_diag t g m2" if "\<And>d. d \<notin> ?U \<Longrightarrow> m1 d = m2 d" for g and m1 m2 :: "'v mem"
  proof -
    have "m1 (ptr_add (mv_get_pointer (db_A t)) x) = m2 (ptr_add (mv_get_pointer (db_A t)) x)" for x
      by (rule that) (use bufs in \<open>auto dest: arg_cong [where f = fst]\<close>)
    then show ?thesis by (simp add: db_diag_def db_elem_def fun_eq_iff)
  qed
  have disj: "?a g ` ?Q \<inter> ?a h ` ?Q = {}" if "g \<noteq> h" for g h
  proof (rule ccontr)
    assume "?a g ` ?Q \<inter> ?a h ` ?Q \<noteq> {}"
    then obtain x y where "x < ?b * ?b" "y < ?b * ?b" "ptr_add ?p (int (x + g * (?b * ?b))) = ptr_add ?p (int (y + h * (?b * ?b)))"
      unfolding W by blast
    then have "g = h" using db_cell_inj(1) [of x "?b * ?b" y g h] by (simp only: ptr_add_inject of_nat_eq_iff simp_thms)
    then show False using that by simp
  qed
  have vals: "?run g s d = ?run g m d" if v: "g < n" "d \<in> ?a g ` ?Q" "\<And>d. d \<notin> ?U \<Longrightarrow> s d = m d" for g s d
  proof -
    obtain i j where d: "d = db_inv_cell t g i j" "i < ?b" "j < ?b" using v(2) by auto
    have "db_diag t g s = db_diag t g m" by (rule diag) (rule v(3))
    then show ?thesis unfolding d(1) using db_solution_unique [OF _ sol [of g m] d(2,3)] sol [of g s] by simp
  qed
  have div: "n * ?b div ?b = n" using b by simp
  note launch = execute_tree_local_blind [OF nd r, where W = "\<lambda>g. ?a g ` ?Q" and U = ?U and stored = "\<lambda>g. ?run g m" and s = m
      and phases = "\<lambda>it. program_phases (db_program t (nd_group it))" and ?p0.0 = u, unfolded div, folded db_execute_def m'_def]
  show "m' d = m d" if "d \<notin> ?U"
    by (rule launch(2), rule frame, assumption, rule vals, assumption+, rule disj, assumption, rule in_U, assumption)
      (use in_U that in blast)
  assume g: "blk < n"
  have "m' (db_inv_cell t blk i j) = ?run blk m (db_inv_cell t blk i j)" if "i < ?b" "j < ?b" for i j
  proof -
    have cell: "db_inv_cell t blk i j \<in> ?a blk ` ?Q" using that by force
    show ?thesis
      by (rule launch(1), rule frame, assumption, rule vals, assumption+, rule disj, assumption, rule in_U, assumption, rule g, rule cell)
  qed
  then show "db_solution t (db_diag t blk m) (\<lambda>i j. m' (db_inv_cell t blk i j))"
    using sol [of blk m] unfolding db_solution_def by simp
qed

end
