(* ===== verification/Trsm.thy ===== *)
theory Trsm
  imports Gemm_Interface Trsm_Inverter
begin

text \<open>
  \<open>_trsm\<close> of \<^verbatim>\<open>src/interface/trsm_interface.hpp\<close>: it inverts the diagonal blocks of the triangular matrix into a
  temporary, copies \<open>B\<close>, solves one block of rows (or columns) after the other with two calls of \<open>_gemm\<close> per block, and
  copies the solution back. \<open>_gemm\<close> is an argument of the definitions here; \<open>Trsm_Correct\<close> puts the model's in.
\<close>

section \<open>The routine\<close>

datatype trsm_error = invalid_matrix_size | invalid_Side | invalid_Triangle | invalid_Transpose | invalid_Diagonal
  | gemm_failed gemm_error

text \<open>\<open>_gemm\<close> as \<open>_trsm\<close> sees it. The first argument counts the calls: each has its own device run.\<close>

type_synonym 'v gemm_call =
  "nat \<Rightarrow> char \<Rightarrow> char \<Rightarrow> nat \<Rightarrow> nat \<Rightarrow> nat \<Rightarrow> 'v \<Rightarrow> BufferIterator \<Rightarrow> nat \<Rightarrow> BufferIterator \<Rightarrow> nat \<Rightarrow> 'v \<Rightarrow>
   BufferIterator \<Rightarrow> nat \<Rightarrow> 'v mem \<Rightarrow> gemm_error + 'v mem"

definition after_gemm :: "gemm_error + 'v mem \<Rightarrow> ('v mem \<Rightarrow> trsm_error + 'v mem) \<Rightarrow> trsm_error + 'v mem" where
  "after_gemm r f = (case r of Inl e \<Rightarrow> Inl (gemm_failed e) | Inr m \<Rightarrow> f m)"

definition trsm_blockSize :: nat where
  "trsm_blockSize = 16"

definition trans_char :: "bool \<Rightarrow> char" where
  "trans_char isTranspose = (if isTranspose then CHR ''t'' else CHR ''n'')"

text \<open>The four loops.\<close>

function trsm_left_down ::
  "'v gemm_call \<Rightarrow> bool \<Rightarrow> nat \<Rightarrow> nat \<Rightarrow> 'v::{zero, one, uminus} \<Rightarrow> BufferIterator \<Rightarrow> nat \<Rightarrow> BufferIterator \<Rightarrow> nat \<Rightarrow>
   BufferIterator \<Rightarrow> BufferIterator \<Rightarrow> nat \<Rightarrow> nat \<Rightarrow> 'v mem \<Rightarrow> trsm_error + 'v mem" where
  "trsm_left_down call isTranspose M N alpha A lda B ldb invA X ldx i m =
     (if M \<le> i then Inr m
      else
        let currentBlockSize = min (M - i) trsm_blockSize
        in after_gemm (call (2 * i) (trans_char isTranspose) (CHR ''n'') currentBlockSize N currentBlockSize
               (if i = 0 then alpha else 1) (it_plus invA (int (i * trsm_blockSize))) trsm_blockSize
               (it_plus B (int i)) ldb 0 (it_plus X (int i)) ldx m)
           (\<lambda>m. if M \<le> i + trsm_blockSize then Inr m
                else
                  let offsetA = (if \<not> isTranspose then (i + trsm_blockSize) + i * lda else i + (trsm_blockSize + i) * lda)
                  in after_gemm (call (2 * i + 1) (trans_char isTranspose) (CHR ''n'') (M - i - trsm_blockSize) N
                         trsm_blockSize (- 1) (it_plus A (int offsetA)) lda (it_plus X (int i)) ldx
                         (if i = 0 then alpha else 1) (it_plus B (int (i + trsm_blockSize))) ldb m)
                     (\<lambda>m. trsm_left_down call isTranspose M N alpha A lda B ldb invA X ldx (i + trsm_blockSize) m)))"
  by pat_completeness auto
termination
  by (relation "measure (\<lambda>(call, tr, M, N, alpha, A, lda, B, ldb, invA, X, ldx, i, m). M - i)")
    (auto simp: trsm_blockSize_def)

function trsm_left_up ::
  "'v gemm_call \<Rightarrow> bool \<Rightarrow> nat \<Rightarrow> nat \<Rightarrow> 'v::{zero, one, uminus} \<Rightarrow> BufferIterator \<Rightarrow> nat \<Rightarrow> BufferIterator \<Rightarrow> nat \<Rightarrow>
   BufferIterator \<Rightarrow> BufferIterator \<Rightarrow> nat \<Rightarrow> nat \<Rightarrow> 'v mem \<Rightarrow> trsm_error + 'v mem" where
  "trsm_left_up call isTranspose M N alpha A lda B ldb invA X ldx i m =
     (let specialBlockSize = (if M mod trsm_blockSize = 0 then trsm_blockSize else M mod trsm_blockSize);
          iStart = M - specialBlockSize;
          currentBlockSize = (if i = iStart then specialBlockSize else trsm_blockSize)
      in after_gemm (call (2 * i) (trans_char isTranspose) (CHR ''n'') currentBlockSize N currentBlockSize
             (if i = iStart then alpha else 1) (it_plus invA (int (i * trsm_blockSize))) trsm_blockSize
             (it_plus B (int i)) ldb 0 (it_plus X (int i)) ldx m)
         (\<lambda>m. if i < trsm_blockSize then Inr m
              else
                after_gemm (call (2 * i + 1) (trans_char isTranspose) (CHR ''n'') i N currentBlockSize (- 1)
                    (it_plus A (int (if \<not> isTranspose then i * lda else i))) lda (it_plus X (int i)) ldx
                    (if i = iStart then alpha else 1) B ldb m)
                  (\<lambda>m. trsm_left_up call isTranspose M N alpha A lda B ldb invA X ldx (i - trsm_blockSize) m)))"
  by pat_completeness auto
termination
  by (relation "measure (\<lambda>(call, tr, M, N, alpha, A, lda, B, ldb, invA, X, ldx, i, m). i)")
    (auto simp: trsm_blockSize_def)

function trsm_right_up ::
  "'v gemm_call \<Rightarrow> bool \<Rightarrow> nat \<Rightarrow> nat \<Rightarrow> 'v::{zero, one, uminus} \<Rightarrow> BufferIterator \<Rightarrow> nat \<Rightarrow> BufferIterator \<Rightarrow> nat \<Rightarrow>
   BufferIterator \<Rightarrow> BufferIterator \<Rightarrow> nat \<Rightarrow> nat \<Rightarrow> 'v mem \<Rightarrow> trsm_error + 'v mem" where
  "trsm_right_up call isTranspose M N alpha A lda B ldb invA X ldx i m =
     (let specialBlockSize = (if N mod trsm_blockSize = 0 then trsm_blockSize else N mod trsm_blockSize);
          iStart = N - specialBlockSize;
          currentBlockSize = (if i = iStart then specialBlockSize else trsm_blockSize)
      in after_gemm (call (2 * i) (CHR ''n'') (trans_char isTranspose) M currentBlockSize currentBlockSize
             (if i = iStart then alpha else 1) (it_plus B (int (i * ldb))) ldb
             (it_plus invA (int (i * trsm_blockSize))) trsm_blockSize 0 (it_plus X (int (i * ldx))) ldx m)
         (\<lambda>m. if i < trsm_blockSize then Inr m
              else
                after_gemm (call (2 * i + 1) (CHR ''n'') (trans_char isTranspose) M i currentBlockSize (- 1)
                    (it_plus X (int (i * ldx))) ldx (it_plus A (int (if \<not> isTranspose then i else i * lda))) lda
                    (if i = iStart then alpha else 1) B ldb m)
                  (\<lambda>m. trsm_right_up call isTranspose M N alpha A lda B ldb invA X ldx (i - trsm_blockSize) m)))"
  by pat_completeness auto
termination
  by (relation "measure (\<lambda>(call, tr, M, N, alpha, A, lda, B, ldb, invA, X, ldx, i, m). i)")
    (auto simp: trsm_blockSize_def)

text \<open>The last loop breaks a round later than the first: when the blocks fit, its last call of \<open>_gemm\<close> has no columns.\<close>

function trsm_right_down ::
  "'v gemm_call \<Rightarrow> bool \<Rightarrow> nat \<Rightarrow> nat \<Rightarrow> 'v::{zero, one, uminus} \<Rightarrow> BufferIterator \<Rightarrow> nat \<Rightarrow> BufferIterator \<Rightarrow> nat \<Rightarrow>
   BufferIterator \<Rightarrow> BufferIterator \<Rightarrow> nat \<Rightarrow> nat \<Rightarrow> 'v mem \<Rightarrow> trsm_error + 'v mem" where
  "trsm_right_down call isTranspose M N alpha A lda B ldb invA X ldx i m =
     (if N \<le> i then Inr m
      else
        let currentBlockSize = min (N - i) trsm_blockSize
        in after_gemm (call (2 * i) (CHR ''n'') (trans_char isTranspose) M currentBlockSize currentBlockSize
               (if i = 0 then alpha else 1) (it_plus B (int (i * ldb))) ldb
               (it_plus invA (int (i * trsm_blockSize))) trsm_blockSize 0 (it_plus X (int (i * ldx))) ldx m)
           (\<lambda>m. if N < i + trsm_blockSize then Inr m
                else
                  let offset = (if \<not> isTranspose then i + (trsm_blockSize + i) * lda else (i + trsm_blockSize) + i * lda)
                  in after_gemm (call (2 * i + 1) (CHR ''n'') (trans_char isTranspose) M (N - i - trsm_blockSize)
                         trsm_blockSize (- 1) (it_plus X (int (i * ldx))) ldx (it_plus A (int offset)) lda
                         (if i = 0 then alpha else 1) (it_plus B (int ((i + trsm_blockSize) * ldb))) ldb m)
                     (\<lambda>m. trsm_right_down call isTranspose M N alpha A lda B ldb invA X ldx (i + trsm_blockSize) m)))"
  by pat_completeness auto
termination
  by (relation "measure (\<lambda>(call, tr, M, N, alpha, A, lda, B, ldb, invA, X, ldx, i, m). N - i)")
    (auto simp: trsm_blockSize_def)

declare trsm_left_down.simps [simp del] trsm_left_up.simps [simp del] trsm_right_up.simps [simp del] trsm_right_down.simps [simp del]

text \<open>\<open>tmp1\<close> and \<open>tmp2\<close> are the buffers that the routine allocates; \<open>r1\<close>, \<open>r2\<close> and \<open>r3\<close> are the device runs of the
  inversion and of the two copies.\<close>

definition trsm ::
  "'v gemm_call \<Rightarrow> 'v device_run \<Rightarrow> 't device_run \<Rightarrow> 't device_run \<Rightarrow> policy_handler \<Rightarrow> 'v \<Rightarrow> nat \<Rightarrow> nat \<Rightarrow> char \<Rightarrow> char \<Rightarrow> char \<Rightarrow> char \<Rightarrow>
   nat \<Rightarrow> nat \<Rightarrow> 'v::field \<Rightarrow> BufferIterator \<Rightarrow> nat \<Rightarrow> BufferIterator \<Rightarrow> nat \<Rightarrow> 'v mem \<Rightarrow> trsm_error + 'v mem" where
  "trsm call r1 r2 r3 ph u tmp1 tmp2 side0 uplo0 trans0 diag0 M N alpha A lda B ldb m =
     (if M = 0 \<or> N = 0 \<or> lda = 0 \<or> ldb = 0 then Inl invalid_matrix_size
      else
        let side = tolower side0; uplo = tolower uplo0; tr = tolower trans0; diag = tolower diag0
        in if side \<noteq> CHR ''l'' \<and> side \<noteq> CHR ''r'' then Inl invalid_Side
           else if uplo \<noteq> CHR ''u'' \<and> uplo \<noteq> CHR ''l'' then Inl invalid_Triangle
           else if tr \<noteq> CHR ''n'' \<and> tr \<noteq> CHR ''t'' then Inl invalid_Transpose
           else if diag \<noteq> CHR ''u'' \<and> diag \<noteq> CHR ''n'' then Inl invalid_Diagonal
           else
             let K = (if side = CHR ''l'' then M else N);
                 isUnitDiag = (diag = CHR ''u'');
                 isUpper = (uplo = CHR ''u'');
                 isLeft = (side = CHR ''l'');
                 isTranspose = (tr = CHR ''t'');
                 invASize = roundUp K trsm_blockSize * trsm_blockSize;
                 invA = make_sycl_iterator_buffer tmp1 invASize;
                 m = device_fill invA 0 invASize m;
                 bufferA = make_matrix_view col_major A K K lda;
                 bufferInvA = make_matrix_view col_major invA trsm_blockSize trsm_blockSize lda;
                 numInternalBlocks = roundUp K trsm_blockSize div trsm_blockSize;
                 globalSize = numInternalBlocks * trsm_blockSize;
                 localSize = trsm_blockSize;
                 m = (if isUnitDiag \<and> isUpper then
                        db_execute r1 u (make_diag_blocks_inverter True True trsm_blockSize bufferA bufferInvA) localSize globalSize m
                      else if \<not> isUnitDiag \<and> isUpper then
                        db_execute r1 u (make_diag_blocks_inverter False True trsm_blockSize bufferA bufferInvA) localSize globalSize m
                      else if isUnitDiag \<and> \<not> isUpper then
                        db_execute r1 u (make_diag_blocks_inverter True False trsm_blockSize bufferA bufferInvA) localSize globalSize m
                      else
                        db_execute r1 u (make_diag_blocks_inverter False False trsm_blockSize bufferA bufferInvA) localSize globalSize m);
                 BSize = ldb * (N - 1) + M;
                 ldx = ldb;
                 X = make_sycl_iterator_buffer tmp2 BSize;
                 m = copy r2 ph BSize B 1 X 1 m;
                 res = (if isLeft then
                          (if isUpper \<and> isTranspose \<or> \<not> isUpper \<and> \<not> isTranspose then
                             trsm_left_down call isTranspose M N alpha A lda B ldb invA X ldx 0 m
                           else
                             trsm_left_up call isTranspose M N alpha A lda B ldb invA X ldx
                               (M - (if M mod trsm_blockSize = 0 then trsm_blockSize else M mod trsm_blockSize)) m)
                        else
                          (if isUpper \<and> isTranspose \<or> \<not> isUpper \<and> \<not> isTranspose then
                             trsm_right_up call isTranspose M N alpha A lda B ldb invA X ldx
                               (N - (if N mod trsm_blockSize = 0 then trsm_blockSize else N mod trsm_blockSize)) m
                           else
                             trsm_right_down call isTranspose M N alpha A lda B ldb invA X ldx 0 m))
             in map_sum id (copy r3 ph BSize X 1 B 1) res)"

text \<open>The upward loops start at the last block.\<close>

abbreviation last_block :: "nat \<Rightarrow> nat" where
  "last_block K \<equiv> K - (if K mod 16 = 0 then 16 else K mod 16)"

text \<open>On legal arguments.\<close>

lemma trsm_unfold:
  fixes call :: "'v::field gemm_call" and M N lda ldb tmp1 tmp2 :: nat and m :: "'v mem" and r1 :: "'v device_run" and r2 :: "'t device_run" and A B :: BufferIterator
    and ph :: policy_handler and u :: 'v
  assumes "0 < M" "0 < N" "0 < lda" "0 < ldb"
    and "tolower side \<in> {CHR ''l'', CHR ''r''}" "tolower uplo \<in> {CHR ''u'', CHR ''l''}"
    and "tolower trans0 \<in> {CHR ''n'', CHR ''t''}" "tolower diag \<in> {CHR ''u'', CHR ''n''}"
  defines "left \<equiv> tolower side = CHR ''l''" and "upper \<equiv> tolower uplo = CHR ''u''" and "tr \<equiv> tolower trans0 = CHR ''t''"
    and "unit \<equiv> tolower diag = CHR ''u''"
  defines "K \<equiv> if left then M else N"
  defines "invA \<equiv> make_sycl_iterator_buffer tmp1 (roundUp K 16 * 16)" and "BSize \<equiv> ldb * (N - 1) + M"
  defines "X \<equiv> make_sycl_iterator_buffer tmp2 BSize"
  defines "m1 \<equiv> device_fill invA 0 (roundUp K 16 * 16) m"
  defines "m2 \<equiv> db_execute r1 u (make_diag_blocks_inverter unit upper 16 (make_matrix_view col_major A K K lda)
      (make_matrix_view col_major invA 16 16 lda)) 16 (roundUp K 16 div 16 * 16) m1"
  defines "m3 \<equiv> copy r2 ph BSize B 1 X 1 m2"
  shows "trsm call r1 r2 r3 ph u tmp1 tmp2 side uplo trans0 diag M N alpha A lda B ldb m =
    map_sum id (copy r3 ph BSize X 1 B 1) (if left then
       (if upper \<and> tr \<or> \<not> upper \<and> \<not> tr then trsm_left_down call tr M N alpha A lda B ldb invA X ldb 0 m3
        else trsm_left_up call tr M N alpha A lda B ldb invA X ldb (last_block M) m3)
     else
       (if upper \<and> tr \<or> \<not> upper \<and> \<not> tr then trsm_right_up call tr M N alpha A lda B ldb invA X ldb (last_block N) m3
        else trsm_right_down call tr M N alpha A lda B ldb invA X ldb 0 m3))"
proof -
  have if4: "(if un \<and> up then f True True else if \<not> un \<and> up then f False True else if un \<and> \<not> up then f True False else f False False) = f un up"
    for un up and f :: "bool \<Rightarrow> bool \<Rightarrow> 'v mem"
    by simp
  have ok: "\<not> (M = 0 \<or> N = 0 \<or> lda = 0 \<or> ldb = 0)" "\<not> (tolower side \<noteq> CHR ''l'' \<and> tolower side \<noteq> CHR ''r'')"
    "\<not> (tolower uplo \<noteq> CHR ''u'' \<and> tolower uplo \<noteq> CHR ''l'')" "\<not> (tolower trans0 \<noteq> CHR ''n'' \<and> tolower trans0 \<noteq> CHR ''t'')"
    "\<not> (tolower diag \<noteq> CHR ''u'' \<and> tolower diag \<noteq> CHR ''n'')"
    using assms(1-8) by auto
  show ?thesis
    unfolding trsm_def Let_def trsm_blockSize_def if_not_P [OF ok(1)] if_not_P [OF ok(2)] if_not_P [OF ok(3)] if_not_P [OF ok(4)] if_not_P [OF ok(5)]
      if4 m3_def m2_def m1_def X_def BSize_def invA_def K_def unit_def tr_def upper_def left_def
    by (cases "tolower diag = CHR ''u''"; cases "tolower uplo = CHR ''u''"; simp only: simp_thms if_True if_False)
qed

section \<open>Properties\<close>

lemma map_sum_Inl: "map_sum id f x = Inl e \<longleftrightarrow> x = Inl e"
  by (cases x) simp_all

lemma after_gemm_Inl:
  "after_gemm r f = Inl e \<longleftrightarrow> (\<exists>x. r = Inl x \<and> e = gemm_failed x) \<or> (\<exists>m. r = Inr m \<and> f m = Inl e)"
  by (cases r) (auto simp: after_gemm_def)

text \<open>The loops fail only where \<open>_gemm\<close> does.\<close>

lemma trsm_loops_fail:
  "trsm_left_down call tr M N alpha A lda B ldb invA X ldx i m = Inl e \<Longrightarrow> e \<in> range gemm_failed"
  "trsm_left_up call tr M N alpha A lda B ldb invA X ldx i m = Inl e \<Longrightarrow> e \<in> range gemm_failed"
  "trsm_right_up call tr M N alpha A lda B ldb invA X ldx i m = Inl e \<Longrightarrow> e \<in> range gemm_failed"
  "trsm_right_down call tr M N alpha A lda B ldb invA X ldx i m = Inl e \<Longrightarrow> e \<in> range gemm_failed"
proof -
  show "trsm_left_down call tr M N alpha A lda B ldb invA X ldx i m = Inl e \<Longrightarrow> e \<in> range gemm_failed"
  proof (induction "M - i" arbitrary: i m rule: less_induct)
    case less
    show ?case
      using less.prems unfolding trsm_left_down.simps [of call tr M N alpha A lda B ldb invA X ldx i m]
      by (cases "M \<le> i"; cases "M \<le> i + 16") (auto simp: after_gemm_Inl trsm_blockSize_def Let_def dest: less.hyps [rotated])
  qed
  show "trsm_right_down call tr M N alpha A lda B ldb invA X ldx i m = Inl e \<Longrightarrow> e \<in> range gemm_failed"
  proof (induction "N - i" arbitrary: i m rule: less_induct)
    case less
    show ?case
      using less.prems unfolding trsm_right_down.simps [of call tr M N alpha A lda B ldb invA X ldx i m]
      by (cases "N \<le> i"; cases "N < i + 16") (auto simp: after_gemm_Inl trsm_blockSize_def Let_def dest: less.hyps [rotated])
  qed
  show "trsm_left_up call tr M N alpha A lda B ldb invA X ldx i m = Inl e \<Longrightarrow> e \<in> range gemm_failed"
  proof (induction i arbitrary: m rule: less_induct)
    case (less i)
    show ?case
      using less.prems unfolding trsm_left_up.simps [of call tr M N alpha A lda B ldb invA X ldx i m]
      by (cases "i < 16") (auto simp: after_gemm_Inl trsm_blockSize_def Let_def dest: less.IH [rotated])
  qed
  show "trsm_right_up call tr M N alpha A lda B ldb invA X ldx i m = Inl e \<Longrightarrow> e \<in> range gemm_failed"
  proof (induction i arbitrary: m rule: less_induct)
    case (less i)
    show ?case
      using less.prems unfolding trsm_right_up.simps [of call tr M N alpha A lda B ldb invA X ldx i m]
      by (cases "i < 16") (auto simp: after_gemm_Inl trsm_blockSize_def Let_def dest: less.IH [rotated])
  qed
qed

text \<open>C15: \<open>_trsm\<close> refuses, in this order, a dimension or leading dimension of zero, a side other than l and r, a triangle
  other than u and l, a transposition other than n and t (the letter c, which \<open>_gemm\<close> takes, included), a diagonal other
  than u and n, and reports each with an error of its own. Nothing else comes from \<open>_trsm\<close> itself: any other error is
  one of \<open>_gemm\<close>.\<close>

theorem trsm_refuses:
  "trsm call r1 r2 r3 ph u tmp1 tmp2 side uplo trans0 diag M N alpha A lda B ldb m = Inl e \<and> e \<notin> range gemm_failed \<longleftrightarrow>
     (if M = 0 \<or> N = 0 \<or> lda = 0 \<or> ldb = 0 then e = invalid_matrix_size
      else if tolower side \<notin> {CHR ''l'', CHR ''r''} then e = invalid_Side
      else if tolower uplo \<notin> {CHR ''u'', CHR ''l''} then e = invalid_Triangle
      else if tolower trans0 \<notin> {CHR ''n'', CHR ''t''} then e = invalid_Transpose
      else tolower diag \<notin> {CHR ''u'', CHR ''n''} \<and> e = invalid_Diagonal)"
proof -
  consider "M = 0 \<or> N = 0 \<or> lda = 0 \<or> ldb = 0" | "0 < M" "0 < N" "0 < lda" "0 < ldb" "tolower side \<notin> {CHR ''l'', CHR ''r''}"
    | "0 < M" "0 < N" "0 < lda" "0 < ldb" "tolower side \<in> {CHR ''l'', CHR ''r''}" "tolower uplo \<notin> {CHR ''u'', CHR ''l''}"
    | "0 < M" "0 < N" "0 < lda" "0 < ldb" "tolower side \<in> {CHR ''l'', CHR ''r''}" "tolower uplo \<in> {CHR ''u'', CHR ''l''}"
      "tolower trans0 \<notin> {CHR ''n'', CHR ''t''}"
    | "0 < M" "0 < N" "0 < lda" "0 < ldb" "tolower side \<in> {CHR ''l'', CHR ''r''}" "tolower uplo \<in> {CHR ''u'', CHR ''l''}"
      "tolower trans0 \<in> {CHR ''n'', CHR ''t''}" "tolower diag \<notin> {CHR ''u'', CHR ''n''}"
    | "0 < M" "0 < N" "0 < lda" "0 < ldb" "tolower side \<in> {CHR ''l'', CHR ''r''}" "tolower uplo \<in> {CHR ''u'', CHR ''l''}"
      "tolower trans0 \<in> {CHR ''n'', CHR ''t''}" "tolower diag \<in> {CHR ''u'', CHR ''n''}"
    by blast
  then show ?thesis
  proof cases
    case 6
    have "e \<in> range gemm_failed" if "trsm call r1 r2 r3 ph u tmp1 tmp2 side uplo trans0 diag M N alpha A lda B ldb m = Inl e"
      using that unfolding trsm_unfold [OF 6] map_sum_Inl by (auto dest: trsm_loops_fail split: if_splits)
    then show ?thesis using 6 by auto
  qed (auto simp: trsm_def Let_def)
qed

end
