(* ===== verification/Trsm_Blocks.thy ===== *)
theory Trsm_Blocks
  imports Trsm
begin

text \<open>
  The loops of \<open>_trsm\<close>. Both sides and both transpositions are one system \<open>E * X = alpha * B\<close>: row \<open>r\<close> of the system is a
  row of \<open>B\<close> on the left side and a column on the right side. The locale \<open>gemm_provider\<close> is what \<open>_trsm\<close> asks of \<open>_gemm\<close>. The
  invariant \<open>sys_inv\<close> says which rows are solved and what has been subtracted from the others; the two calls of a round keep it.
\<close>

section \<open>Cells and systems\<close>

definition sys_cell :: "bool \<Rightarrow> BufferIterator \<Rightarrow> nat \<Rightarrow> nat \<Rightarrow> nat \<Rightarrow> addr" where
  "sys_cell left p ld r c = (it_buffer p, it_offset p + int (if left then r + c * ld else c + r * ld))"

definition sys_off :: "bool \<Rightarrow> nat \<Rightarrow> nat \<Rightarrow> nat" where
  "sys_off left ld i = (if left then i else i * ld)"

definition op_cell_of :: "bool \<Rightarrow> BufferIterator \<Rightarrow> nat \<Rightarrow> nat \<Rightarrow> nat \<Rightarrow> addr" where
  "op_cell_of flip p ld r l = (it_buffer p, it_offset p + int (if flip then l + r * ld else r + l * ld))"

definition sys_gemm ::
  "'v gemm_call \<Rightarrow> bool \<Rightarrow> bool \<Rightarrow> nat \<Rightarrow> nat \<Rightarrow> nat \<Rightarrow> nat \<Rightarrow> 'v \<Rightarrow> BufferIterator \<Rightarrow> nat \<Rightarrow> BufferIterator \<Rightarrow> 'v \<Rightarrow>
   BufferIterator \<Rightarrow> nat \<Rightarrow> 'v mem \<Rightarrow> gemm_error + 'v mem" where
  "sys_gemm call left tr k n1 C n2 a Mat ldm V beta W ld m =
     (if left then call k (trans_char tr) (CHR ''n'') n1 C n2 a Mat ldm V ld beta W ld m
      else call k (CHR ''n'') (trans_char tr) C n1 n2 a V ld Mat ldm beta W ld m)"

definition sys_fits :: "bool \<Rightarrow> BufferIterator \<Rightarrow> nat \<Rightarrow> nat \<Rightarrow> nat \<Rightarrow> bool" where
  "sys_fits left p ld n1 C \<longleftrightarrow> (if left then n1 \<le> ld \<and> columns_fit p n1 ld C else C \<le> ld \<and> columns_fit p C ld n1)"

lemma trans_char_legal: "legal_trans (trans_char b)" "legal_trans (CHR ''n'')" "transposed (trans_char b) = b" "\<not> transposed (CHR ''n'')"
  by (simp_all add: legal_trans_def transposed_def trans_char_def tolower_samples)

lemma sys_cell_plus: "sys_cell left (it_plus p (int (sys_off left ld i))) ld r c = sys_cell left p ld (i + r) c"
  by (simp add: sys_cell_def sys_off_def it_plus_def algebra_simps)

lemma sys_cell_inj:
  assumes "sys_cell left p ld r c = sys_cell left p ld r' c'" "if left then r < ld \<and> r' < ld else c < ld \<and> c' < ld"
  shows "r = r' \<and> c = c'"
  using assms db_cell_inj [of r ld r' c c'] db_cell_inj [of c ld c' r r'] by (auto simp: sys_cell_def split: if_splits)

lemma sys_fits_part:
  assumes "sys_fits left p ld K C" "i + n \<le> K" "0 < C"
  shows "sys_fits left (it_plus p (int (sys_off left ld i))) ld n C"
proof -
  have "(n - 1) * ld + i * ld \<le> (K - 1) * ld" if "0 < n"
  proof -
    have "(n - 1 + i) * ld \<le> (K - 1) * ld" by (rule mult_right_mono) (use assms(2) that in auto)
    then show ?thesis by (simp add: algebra_simps)
  qed
  then have *: "int ((n - 1) * ld) + int i * int ld \<le> int ((K - 1) * ld)" if "0 < n"
    using that by (metis of_nat_add of_nat_le_iff of_nat_mult)
  show ?thesis
    using assms * by (fastforce simp: sys_fits_def columns_fit_def it_plus_def sys_off_def)
qed

locale gemm_provider =
  fixes ready :: bool and call :: "'v::field gemm_call"
  assumes call_result: "ready \<Longrightarrow> legal_trans tA \<Longrightarrow> legal_trans tB \<Longrightarrow> 0 < M \<Longrightarrow> 0 < N \<or> alpha \<noteq> 0 \<Longrightarrow> M \<le> ldc \<Longrightarrow>
    it_buffer a \<noteq> it_buffer c \<Longrightarrow> it_buffer b \<noteq> it_buffer c \<Longrightarrow> columns_fit c M ldc N \<Longrightarrow>
    \<exists>m'. call k tA tB M N K alpha a lda b ldb beta c ldc m = Inr m' \<and>
      gemm_result (beta = 0) (transposed tA) (transposed tB) M N K alpha (it_buffer a, it_offset a) lda
        (it_buffer b, it_offset b) ldb beta (it_buffer c, it_offset c) ldc 1 m m'"
begin

lemma sys_gemm_result:
  assumes ready and "0 < n1 \<or> \<not> left \<and> a \<noteq> 0" "0 < C" "sys_fits left W ld n1 C" "it_buffer Mat \<noteq> it_buffer W" "it_buffer V \<noteq> it_buffer W"
  shows "\<exists>m'. sys_gemm call left tr k n1 C n2 a Mat ldm V beta W ld m = Inr m' \<and>
    (\<forall>r < n1. \<forall>c < C. m' (sys_cell left W ld r c) =
       a * (\<Sum>l < n2. m (op_cell_of (left = tr) Mat ldm r l) * m (sys_cell left V ld l c)) + beta * m (sys_cell left W ld r c)) \<and>
    (\<forall>d. d \<notin> {sys_cell left W ld r c |r c. r < n1 \<and> c < C} \<longrightarrow> m' d = m d)"
proof (cases left)
  case True
  obtain m' where m': "call k (trans_char tr) (CHR ''n'') n1 C n2 a Mat ldm V ld beta W ld m = Inr m'"
    "gemm_result (beta = 0) tr False n1 C n2 a (it_buffer Mat, it_offset Mat) ldm (it_buffer V, it_offset V) ld beta (it_buffer W, it_offset W) ld 1 m m'"
    using call_result [OF assms(1) trans_char_legal(1,2) _ _ _ assms(5,6), of n1 C a ld k tr n2 ldm ld beta m] assms(2-4) True
    by (auto simp: trans_char_legal sys_fits_def)
  have "m' (sys_cell True W ld r c) =
       a * (\<Sum>l < n2. m (op_cell_of tr Mat ldm r l) * m (sys_cell True V ld l c)) + beta * m (sys_cell True W ld r c)"
    if "r < n1" "c < C" for r c
    using m'(2) that by (cases tr) (auto simp: gemm_result_def product_of_def operand_cell_def batch_cell_def sys_cell_def op_cell_of_def add_ac)
  moreover have "{sys_cell True W ld r c |r c. r < n1 \<and> c < C} = c_cells n1 C (it_buffer W, it_offset W) ld 1"
    by (auto simp: c_cells_def batch_cell_def sys_cell_def)
  ultimately show ?thesis using m' True by (auto simp: sys_gemm_def gemm_result_def)
next
  case False
  obtain m' where m': "call k (CHR ''n'') (trans_char tr) C n1 n2 a V ld Mat ldm beta W ld m = Inr m'"
    "gemm_result (beta = 0) False tr C n1 n2 a (it_buffer V, it_offset V) ld (it_buffer Mat, it_offset Mat) ldm beta (it_buffer W, it_offset W) ld 1 m m'"
    using call_result [OF assms(1) trans_char_legal(2,1) _ _ _ assms(6,5), of C n1 a ld k tr n2 ld ldm beta m] assms(2-4) False
    by (auto simp: trans_char_legal sys_fits_def)
  have "m' (sys_cell False W ld r c) =
       a * (\<Sum>l < n2. m (op_cell_of (\<not> tr) Mat ldm r l) * m (sys_cell False V ld l c)) + beta * m (sys_cell False W ld r c)"
    if "r < n1" "c < C" for r c
  proof -
    have cells: "batch_cell (it_buffer p, it_offset p) st ld 0 c r = sys_cell False p ld r c" for p st r
      by (simp add: batch_cell_def sys_cell_def)
    have mat: "operand_cell tr (it_buffer Mat, it_offset Mat) st ldm 0 l r = op_cell_of (\<not> tr) Mat ldm r l" for st l
      by (simp add: operand_cell_def batch_cell_def op_cell_of_def)
    have "m' (batch_cell (it_buffer W, it_offset W) (ld * n1) ld 0 c r) =
        a * product_of False tr C n1 n2 (it_buffer V, it_offset V) ld (it_buffer Mat, it_offset Mat) ldm m 0 c r
        + (if beta = 0 then 0 else beta * m (batch_cell (it_buffer W, it_offset W) (ld * n1) ld 0 c r))"
      using m'(2) that by (auto simp: gemm_result_def)
    then show ?thesis unfolding product_of_def cells mat by (auto simp: operand_cell_def cells mult.commute)
  qed
  moreover have "{sys_cell False W ld r c |r c. r < n1 \<and> c < C} = c_cells C n1 (it_buffer W, it_offset W) ld 1"
    by (auto simp: c_cells_def batch_cell_def sys_cell_def)
  ultimately show ?thesis using m' False by (auto simp: sys_gemm_def gemm_result_def)
qed

end

section \<open>The invariant\<close>

definition sys_inv ::
  "bool \<Rightarrow> nat \<Rightarrow> nat \<Rightarrow> 'v::field \<Rightarrow> (nat \<Rightarrow> nat \<Rightarrow> 'v) \<Rightarrow> BufferIterator \<Rightarrow> BufferIterator \<Rightarrow> nat \<Rightarrow> 'v mem \<Rightarrow> nat set \<Rightarrow> nat set \<Rightarrow> 'v mem \<Rightarrow> bool" where
  "sys_inv left K C alpha E X B ld m0 P U m \<longleftrightarrow>
     (\<forall>r\<in>P. \<forall>c<C. (\<Sum>l\<in>P. E r l * m (sys_cell left X ld l c)) = alpha * m0 (sys_cell left B ld r c)) \<and>
     (\<forall>r<K. \<forall>c<C. r \<notin> P \<longrightarrow> m (sys_cell left B ld r c) =
        (if U = {} then m0 (sys_cell left B ld r c)
         else alpha * m0 (sys_cell left B ld r c) - (\<Sum>l\<in>U. E r l * m (sys_cell left X ld l c)))) \<and>
     (\<forall>d. (\<forall>r<K. \<forall>c<C. d \<noteq> sys_cell left X ld r c \<and> d \<noteq> sys_cell left B ld r c) \<longrightarrow> m d = m0 d)"

lemma sys_inv_frame:
  assumes "sys_inv left K C alpha E X B ld m0 P U m" "\<forall>r<K. \<forall>c<C. d \<noteq> sys_cell left X ld r c \<and> d \<noteq> sys_cell left B ld r c"
  shows "m d = m0 d"
  using assms unfolding sys_inv_def by blast

lemma sum_shift: "(\<Sum>l\<in>{i..<i + q}. f l) = (\<Sum>l<q. f (i + l))" for f :: "nat \<Rightarrow> 'a::comm_monoid_add"
  by (rule sum.reindex_bij_witness [where i = "\<lambda>l. i + l" and j = "\<lambda>l. l - i"]) auto

lemma sum_inverse:
  fixes E G :: "nat \<Rightarrow> nat \<Rightarrow> 'v::field"
  assumes "\<And>c. c < q \<Longrightarrow> (\<Sum>l<q. E r l * G l c) = of_bool (r = c)" "r < q"
  shows "(\<Sum>l<q. E r l * (a * (\<Sum>k<q. G l k * b k))) = a * b r"
proof -
  have "(\<Sum>l<q. E r l * (a * (\<Sum>k<q. G l k * b k))) = (\<Sum>k<q. a * (b k * (\<Sum>l<q. E r l * G l k)))"
    by (subst (2) sum_distrib_left) (simp add: sum_distrib_left mult_ac, subst sum.swap, simp add: mult_ac)
  also have "\<dots> = (\<Sum>k<q. a * (b k * of_bool (r = k)))" by (rule sum.cong) (simp_all add: assms(1))
  also have "\<dots> = a * b r" using assms(2) by (simp add: sum.delta' of_bool_def if_distrib [of "\<lambda>x. _ * x"] cong: if_cong)
  finally show ?thesis .
qed

context gemm_provider begin

lemma solve_block:
  assumes ready and inv: "sys_inv left K C alpha E X B ld m0 P P m"
    and Q: "Q = {i..<i + q}" "P \<inter> Q = {}" "P \<subseteq> {..<K}" "i + q \<le> K" "0 < q" "0 < C"
    and zero: "\<And>r l. r \<in> P \<Longrightarrow> l \<in> Q \<Longrightarrow> E r l = 0"
    and inverse: "\<And>r c. r < q \<Longrightarrow> c < q \<Longrightarrow> (\<Sum>l<q. E (i + r) (i + l) * m0 (op_cell_of (left = tr) Mat ldm l c)) = of_bool (r = c)"
    and bufs: "it_buffer Mat \<noteq> it_buffer X" "it_buffer Mat \<noteq> it_buffer B" "it_buffer B \<noteq> it_buffer X"
    and fits: "sys_fits left X ld K C"
    and a: "a = (if P = {} then alpha else 1)"
  shows "\<exists>m1. sys_gemm call left tr k q C q a Mat ldm (it_plus B (int (sys_off left ld i))) 0 (it_plus X (int (sys_off left ld i))) ld m = Inr m1 \<and>
    sys_inv left K C alpha E X B ld m0 (P \<union> Q) P m1"
proof -
  let ?X = "sys_cell left X ld" and ?B = "sys_cell left B ld" and ?G = "op_cell_of (left = tr) Mat ldm"
  have finP: "finite P" using Q(3) finite_subset by blast
  obtain m1 where m1: "sys_gemm call left tr k q C q a Mat ldm (it_plus B (int (sys_off left ld i))) 0 (it_plus X (int (sys_off left ld i))) ld m = Inr m1"
    "\<And>r c. r < q \<Longrightarrow> c < C \<Longrightarrow> m1 (?X (i + r) c) = a * (\<Sum>l < q. m (?G r l) * m (?B (i + l) c))"
    "\<And>d. d \<notin> {?X (i + r) c |r c. r < q \<and> c < C} \<Longrightarrow> m1 d = m d"
    using sys_gemm_result [OF \<open>ready\<close> _ Q(6) sys_fits_part [OF fits Q(4,6)], of a Mat "it_plus B (int (sys_off left ld i))" tr k q ldm 0 m] bufs Q(5)
    unfolding sys_cell_plus by (auto simp: it_plus_def)
  have X_inj: "r = r' \<and> c = c'" if "?X r c = ?X r' c'" "r < K" "r' < K" "c < C" "c' < C" for r r' c c'
    using sys_cell_inj [OF that(1)] that fits by (auto simp: sys_fits_def split: if_splits)
  have X_P: "m1 (?X l c) = m (?X l c)" if "l \<in> P" "c < C" for l c
  proof (rule m1(3), clarify)
    fix r' c' assume eq: "?X l c = ?X (i + r') c'" "r' < q" "c' < C"
    then have "l = i + r'" using X_inj [OF eq(1)] that Q(3,4) by auto
    then show False using that(1) eq(2) Q(1,2) by auto
  qed
  have other: "m1 d = m d" if "\<forall>r<K. \<forall>c<C. d \<noteq> ?X r c" for d
  proof (rule m1(3), clarify)
    fix r c assume "d = ?X (i + r) c" "r < q" "c < C"
    then show False using that Q(4) by (metis add_less_cancel_left less_le_trans)
  qed
  have B_same: "m1 (?B r c) = m (?B r c)" for r c
    by (rule other) (use bufs(3) in \<open>auto simp: sys_cell_def\<close>)
  have Mat_same: "m (?G r l) = m0 (?G r l)" for r l
    using inv bufs(1,2) by (auto simp: sys_inv_def sys_cell_def op_cell_of_def)
  have B_P: "a * m (?B r c) = alpha * m0 (?B r c) - (\<Sum>l\<in>P. E r l * m (?X l c))" if "r < K" "c < C" "r \<notin> P" for r c
    using inv that a by (auto simp: sys_inv_def)
  have split_sum: "(\<Sum>l\<in>P \<union> Q. E r l * m1 (?X l c)) = (\<Sum>l\<in>P. E r l * m (?X l c)) + (\<Sum>l<q. E r (i + l) * m1 (?X (i + l) c))"
    if "c < C" for r c
    using finP Q(1,2) that by (simp add: sum.union_disjoint sum_shift X_P)
  have solved: "(\<Sum>l\<in>P \<union> Q. E r l * m1 (?X l c)) = alpha * m0 (?B r c)" if r: "r \<in> P \<union> Q" and c: "c < C" for r c
  proof (cases "r \<in> P")
    case True
    have "E r (i + l) = 0" if "l < q" for l using zero [OF True, of "i + l"] that Q(1) by simp
    then have "(\<Sum>l<q. E r (i + l) * m1 (?X (i + l) c)) = 0" by simp
    then show ?thesis unfolding split_sum [OF c] using inv True c by (simp add: sys_inv_def)
  next
    case False
    then obtain r' where r': "r = i + r'" "r' < q" using r Q(1) by (metis UnE atLeastLessThan_iff nat_add_left_cancel_less le_Suc_ex)
    have "(\<Sum>l<q. E r (i + l) * m1 (?X (i + l) c)) = (\<Sum>l<q. E r (i + l) * (a * (\<Sum>k<q. m0 (?G l k) * m (?B (i + k) c))))"
      by (rule sum.cong) (simp_all add: m1(2) c Mat_same)
    also have "\<dots> = a * m (?B r c)"
      unfolding r'(1) by (rule sum_inverse [where E = "\<lambda>r l. E (i + r) (i + l)"]) (use inverse r'(2) in auto)
    finally show ?thesis unfolding split_sum [OF c] using B_P [of r c] False r' c Q(4) by simp
  qed
  have "m1 (?B r c) = (if P = {} then m0 (?B r c) else alpha * m0 (?B r c) - (\<Sum>l\<in>P. E r l * m1 (?X l c)))"
    if "r < K" "c < C" "r \<notin> P \<union> Q" for r c
    using inv that by (auto simp: sys_inv_def B_same X_P)
  moreover have "m1 d = m0 d" if "\<forall>r<K. \<forall>c<C. d \<noteq> ?X r c \<and> d \<noteq> ?B r c" for d
    using other [of d] sys_inv_frame [OF inv that] that by simp
  ultimately have "sys_inv left K C alpha E X B ld m0 (P \<union> Q) P m1"
    unfolding sys_inv_def using solved by blast
  then show ?thesis using m1(1) by blast
qed

lemma update_rest:
  assumes ready and inv: "sys_inv left K C alpha E X B ld m0 (P \<union> Q) P m"
    and Q: "Q = {i..<i + q}" "P \<inter> Q = {}" "0 < q" "0 < C"
    and R: "R = {j..<j + n}" "P \<union> Q \<union> R = {..<K}" "R \<inter> (P \<union> Q) = {}" "0 < n \<or> \<not> left"
    and mat: "\<And>r l. r < n \<Longrightarrow> l < q \<Longrightarrow> E (j + r) (i + l) = m0 (op_cell_of (left = tr) Mat ldm r l)"
    and bufs: "it_buffer Mat \<noteq> it_buffer X" "it_buffer Mat \<noteq> it_buffer B" "it_buffer X \<noteq> it_buffer B"
    and fits: "sys_fits left B ld K C" "j + n \<le> K"
    and a: "a = (if P = {} then alpha else 1)"
  shows "\<exists>m2. sys_gemm call left tr k n C q (- 1) Mat ldm (it_plus X (int (sys_off left ld i))) a (it_plus B (int (sys_off left ld j))) ld m = Inr m2 \<and>
    sys_inv left K C alpha E X B ld m0 (P \<union> Q) (P \<union> Q) m2"
proof -
  let ?X = "sys_cell left X ld" and ?B = "sys_cell left B ld" and ?G = "op_cell_of (left = tr) Mat ldm"
  have fin: "finite P" using R(2) by (metis finite_Un finite_lessThan)
  obtain m2 where m2: "sys_gemm call left tr k n C q (- 1) Mat ldm (it_plus X (int (sys_off left ld i))) a (it_plus B (int (sys_off left ld j))) ld m = Inr m2"
    "\<And>r c. r < n \<Longrightarrow> c < C \<Longrightarrow> m2 (?B (j + r) c) = - (\<Sum>l < q. m (?G r l) * m (?X (i + l) c)) + a * m (?B (j + r) c)"
    "\<And>d. d \<notin> {?B (j + r) c |r c. r < n \<and> c < C} \<Longrightarrow> m2 d = m d"
    using sys_gemm_result [OF \<open>ready\<close> _ Q(4) sys_fits_part [OF fits Q(4)], of "- 1" Mat "it_plus X (int (sys_off left ld i))" tr k q ldm a m] bufs R(4)
    unfolding sys_cell_plus by (auto simp: it_plus_def)
  have other: "m2 d = m d" if "\<forall>r<K. \<forall>c<C. d \<noteq> ?B r c" for d
  proof (rule m2(3), clarify)
    fix r c assume "d = ?B (j + r) c" "r < n" "c < C"
    then show False using that fits(2) by (metis add_less_cancel_left less_le_trans)
  qed
  have X_same: "m2 (?X r c) = m (?X r c)" for r c
    by (rule other) (use bufs(3) in \<open>auto simp: sys_cell_def\<close>)
  have Mat_same: "m (?G r l) = m0 (?G r l)" for r l
    using inv bufs(1,2) by (auto simp: sys_inv_def sys_cell_def op_cell_of_def)
  have B_P: "a * m (?B r c) = alpha * m0 (?B r c) - (\<Sum>l\<in>P. E r l * m (?X l c))" if "r < K" "c < C" "r \<notin> P \<union> Q" for r c
    using inv that a by (auto simp: sys_inv_def)
  have "m2 (?B r c) = alpha * m0 (?B r c) - (\<Sum>l\<in>P \<union> Q. E r l * m2 (?X l c))"
    if r: "r < K" "r \<notin> P \<union> Q" and c: "c < C" for r c
  proof -
    have "r \<in> R" using r R(2) by blast
    then obtain r' where r': "r = j + r'" "r' < n" using R(1) by (metis atLeastLessThan_iff nat_add_left_cancel_less le_Suc_ex)
    have "(\<Sum>l\<in>P \<union> Q. E r l * m2 (?X l c)) = (\<Sum>l\<in>P. E r l * m (?X l c)) + (\<Sum>l<q. E r (i + l) * m (?X (i + l) c))"
      using fin Q(1,2) by (simp add: sum.union_disjoint sum_shift X_same)
    moreover have "(\<Sum>l<q. E r (i + l) * m (?X (i + l) c)) = (\<Sum>l<q. m (?G r' l) * m (?X (i + l) c))"
      by (rule sum.cong) (simp_all add: mat r' Mat_same)
    ultimately show ?thesis using m2(2) [OF r'(2) c] B_P [OF r(1) c r(2)] r'(1) by simp
  qed
  moreover have "P \<union> Q \<noteq> {}" using Q(1,3) by auto
  moreover have "m2 d = m0 d" if "\<forall>r<K. \<forall>c<C. d \<noteq> ?X r c \<and> d \<noteq> ?B r c" for d
    using other [of d] sys_inv_frame [OF inv that] that by simp
  moreover have "(\<Sum>l\<in>P \<union> Q. E r l * m2 (?X l c)) = alpha * m0 (?B r c)" if "r \<in> P \<union> Q" "c < C" for r c
    using inv that by (simp add: sys_inv_def X_same)
  ultimately have "sys_inv left K C alpha E X B ld m0 (P \<union> Q) (P \<union> Q) m2"
    unfolding sys_inv_def by auto
  then show ?thesis using m2(1) by blast
qed

end

section \<open>One round of the loops\<close>

definition sys_ok ::
  "(nat \<Rightarrow> nat \<Rightarrow> 'v::field) \<Rightarrow> bool \<Rightarrow> bool \<Rightarrow> bool \<Rightarrow> nat \<Rightarrow> nat \<Rightarrow> BufferIterator \<Rightarrow> nat \<Rightarrow> BufferIterator \<Rightarrow> BufferIterator \<Rightarrow>
   BufferIterator \<Rightarrow> nat \<Rightarrow> 'v mem \<Rightarrow> bool" where
  "sys_ok E left tr lower K C A lda invA X B ld m0 \<longleftrightarrow>
     (\<forall>r<K. \<forall>l<K. (if lower then r < l else l < r) \<longrightarrow> E r l = 0) \<and>
     (\<forall>r<K. \<forall>l<K. (if lower then l < r else r < l) \<longrightarrow> E r l = m0 (op_cell_of (left = tr) A lda r l)) \<and>
     (\<forall>i<K. 16 dvd i \<longrightarrow> (\<forall>r < min (K - i) 16. \<forall>c < min (K - i) 16.
        (\<Sum>l < min (K - i) 16. E (i + r) (i + l) * m0 (op_cell_of (left = tr) (it_plus invA (int (i * 16))) 16 l c)) = of_bool (r = c))) \<and>
     0 < C \<and> sys_fits left X ld K C \<and> sys_fits left B ld K C \<and>
     it_buffer A \<noteq> it_buffer X \<and> it_buffer A \<noteq> it_buffer B \<and> it_buffer invA \<noteq> it_buffer X \<and> it_buffer invA \<noteq> it_buffer B \<and>
     it_buffer B \<noteq> it_buffer X"

lemma op_cell_of_plus:
  "op_cell_of flip (it_plus A (int (if flip then i + j * lda else j + i * lda))) lda r l = op_cell_of flip A lda (j + r) (i + l)"
  by (simp add: op_cell_of_def it_plus_def algebra_simps)

lemma it_plus_0: "it_plus p 0 = p"
  by (simp add: it_plus_def)

context gemm_provider begin

lemma solve_down:
  assumes ready and ok: "sys_ok E left tr True K C A lda invA X B ld m0"
    and i: "16 dvd i" "i < K" and inv: "sys_inv left K C alpha E X B ld m0 {..<i} {..<i} m"
  shows "\<exists>m1. sys_gemm call left tr k (min (K - i) 16) C (min (K - i) 16) (if i = 0 then alpha else 1)
      (it_plus invA (int (i * 16))) 16 (it_plus B (int (sys_off left ld i))) 0 (it_plus X (int (sys_off left ld i))) ld m = Inr m1 \<and>
    sys_inv left K C alpha E X B ld m0 {..<min K (i + 16)} {..<i} m1"
proof -
  have P: "{..<i} \<union> {i..<i + min (K - i) 16} = {..<min K (i + 16)}" using i(2) by auto
  show ?thesis
    unfolding P [symmetric]
    by (rule solve_block [OF \<open>ready\<close> inv refl]) (use ok i in \<open>auto simp: sys_ok_def it_plus_def lessThan_empty_iff\<close>)
qed

lemma update_down:
  assumes ready and ok: "sys_ok E left tr True K C A lda invA X B ld m0"
    and i: "16 dvd i" "i + 16 \<le> K" "i + 16 < K \<or> \<not> left" and inv: "sys_inv left K C alpha E X B ld m0 {..<i + 16} {..<i} m"
  shows "\<exists>m2. sys_gemm call left tr k (K - i - 16) C 16 (- 1)
      (it_plus A (int (if left = tr then i + (16 + i) * lda else (i + 16) + i * lda))) lda (it_plus X (int (sys_off left ld i)))
      (if i = 0 then alpha else 1) (it_plus B (int (sys_off left ld (i + 16)))) ld m = Inr m2 \<and>
    sys_inv left K C alpha E X B ld m0 {..<i + 16} {..<i + 16} m2"
proof -
  have P: "{..<i + 16} = {..<i} \<union> {i..<i + 16}" by auto
  have rest: "{..<i} \<inter> {i..<i + 16} = {}" "{..<i} \<union> {i..<i + 16} \<union> {i + 16..<i + 16 + (K - i - 16)} = {..<K}"
    "{i + 16..<i + 16 + (K - i - 16)} \<inter> ({..<i} \<union> {i..<i + 16}) = {}"
    using i(2) by auto
  have mat: "E (i + 16 + r) (i + l) = m0 (op_cell_of (left = tr) (it_plus A (int (if left = tr then i + (16 + i) * lda else (i + 16) + i * lda))) lda r l)"
    if "r < K - i - 16" "l < 16" for r l
  proof -
    have "E (i + 16 + r) (i + l) = m0 (op_cell_of (left = tr) A lda (i + 16 + r) (i + l))"
      using ok that i(2) by (auto simp: sys_ok_def)
    then show ?thesis by (simp only: op_cell_of_plus add.commute [of 16 i])
  qed
  show ?thesis
    using inv unfolding P
    by (rule update_rest [where E = E and j = "i + 16" and i = i and tr = tr and left = left, OF \<open>ready\<close> _ refl _ _ _ refl _ _ _ mat])
      (use ok i rest in \<open>simp_all add: sys_ok_def it_plus_def lessThan_empty_iff\<close>)
qed

lemma solve_up:
  assumes ready and ok: "sys_ok E left tr False K C A lda invA X B ld m0"
    and i: "16 dvd i" "i < K" and inv: "sys_inv left K C alpha E X B ld m0 {min K (i + 16)..<K} {min K (i + 16)..<K} m"
  shows "\<exists>m1. sys_gemm call left tr k (min (K - i) 16) C (min (K - i) 16) (if K \<le> i + 16 then alpha else 1)
      (it_plus invA (int (i * 16))) 16 (it_plus B (int (sys_off left ld i))) 0 (it_plus X (int (sys_off left ld i))) ld m = Inr m1 \<and>
    sys_inv left K C alpha E X B ld m0 {i..<K} {min K (i + 16)..<K} m1"
proof -
  have P: "{i..<K} = {min K (i + 16)..<K} \<union> {i..<i + min (K - i) 16}" using i(2) by auto
  show ?thesis
    unfolding P
    by (rule solve_block [OF \<open>ready\<close> inv refl]) (use ok i in \<open>auto simp: sys_ok_def it_plus_def\<close>)
qed

lemma update_up:
  assumes ready and ok: "sys_ok E left tr False K C A lda invA X B ld m0"
    and i: "16 dvd i" "i < K" "0 < i" and inv: "sys_inv left K C alpha E X B ld m0 {i..<K} {min K (i + 16)..<K} m"
  shows "\<exists>m2. sys_gemm call left tr k i C (min (K - i) 16) (- 1)
      (it_plus A (int (if left = tr then i else i * lda))) lda (it_plus X (int (sys_off left ld i)))
      (if K \<le> i + 16 then alpha else 1) B ld m = Inr m2 \<and>
    sys_inv left K C alpha E X B ld m0 {i..<K} {i..<K} m2"
proof -
  have P: "{i..<K} = {min K (i + 16)..<K} \<union> {i..<i + min (K - i) 16}" using i(2) by auto
  have mat: "E (0 + r) (i + l) = m0 (op_cell_of (left = tr) (it_plus A (int (if left = tr then i else i * lda))) lda r l)"
    if "r < i" "l < min (K - i) 16" for r l
  proof -
    have "E r (i + l) = m0 (op_cell_of (left = tr) A lda (0 + r) (i + l))"
      using ok that i(2) by (auto simp: sys_ok_def)
    then show ?thesis unfolding op_cell_of_plus [symmetric] by simp
  qed
  have "\<exists>m2. sys_gemm call left tr k i C (min (K - i) 16) (- 1)
      (it_plus A (int (if left = tr then i else i * lda))) lda (it_plus X (int (sys_off left ld i)))
      (if K \<le> i + 16 then alpha else 1) (it_plus B (int (sys_off left ld 0))) ld m = Inr m2 \<and>
    sys_inv left K C alpha E X B ld m0 {i..<K} {i..<K} m2"
    using inv unfolding P
    by (rule update_rest [where E = E and j = 0 and i = i and tr = tr and left = left, OF \<open>ready\<close> _ refl _ _ _ refl _ _ _ mat]) (use ok i in \<open>auto simp: sys_ok_def it_plus_def\<close>)
  moreover have "it_plus B (int (sys_off left ld 0)) = B" by (simp add: sys_off_def it_plus_0)
  ultimately show ?thesis by simp
qed

end

section \<open>The loops\<close>

lemma if_negated: "(if \<not> P then x else y) = (if P then y else x)"
  by simp

lemma last_block: "0 < K \<Longrightarrow> 16 dvd last_block K" "0 < K \<Longrightarrow> last_block K < K" "0 < K \<Longrightarrow> K \<le> last_block K + 16"
  by (auto simp: minus_mod_eq_mult_div mod_greater_zero_iff_not_dvd dvd_imp_le) 

lemma block_rows:
  assumes "16 dvd i" "i < (K :: nat)"
  shows "(i = last_block K) = (K \<le> i + 16)"
    and "(if K \<le> i + 16 then (if K mod 16 = 0 then 16 else K mod 16) else 16) = min (K - i) 16"
proof -
  obtain k where k: "i = 16 * k" using assms(1) by (elim dvdE)
  define q s where "q = K div 16" and "s = K mod 16"
  have K: "K = 16 * q + s" "s < 16" by (simp_all add: q_def s_def)
  have r: "(if s = 0 then 16 else s) = min (K - i) 16" if "K \<le> i + 16"
  proof (cases "s = 0")
    case True
    then have "q = Suc k" using that assms(2) K k by linarith
    then show ?thesis using True K k by simp
  next
    case False
    then have "q = k" using that assms(2) K k by linarith
    then show ?thesis using False K k by simp
  qed
  have l: "(i = K - (if s = 0 then 16 else s)) = (K \<le> i + 16)"
  proof (cases "s = 0")
    case True
    then have "k < q" using assms(2) K k by simp
    then show ?thesis using True K k by auto
  next
    case False
    then have "k \<le> q" using assms(2) K k by linarith
    then show ?thesis using False K k by auto
  qed
  show "(i = last_block K) = (K \<le> i + 16)" using l by (simp only: s_def)
  show "(if K \<le> i + 16 then (if K mod 16 = 0 then 16 else K mod 16) else 16) = min (K - i) 16"
    using r [unfolded s_def] assms(2) by (cases "K \<le> i + 16") simp_all
qed

context gemm_provider begin

lemma left_down_solves:
  assumes ready and ok: "sys_ok E True tr True M N A lda invA X B ld m0" and "16 dvd i" "i \<le> M"
    and "sys_inv True M N alpha E X B ld m0 {..<i} {..<i} m"
  shows "\<exists>m' U. trsm_left_down call tr M N alpha A lda B ld invA X ld i m = Inr m' \<and> sys_inv True M N alpha E X B ld m0 {..<M} U m'"
  using assms(3-)
proof (induction "M - i" arbitrary: i m rule: less_induct)
  case less
  show ?case
  proof (cases "M \<le> i")
    case True
    then show ?thesis using less.prems by (auto simp: trsm_left_down.simps)
  next
    case False
    obtain m1 where m1: "call (2 * i) (trans_char tr) (CHR ''n'') (min (M - i) 16) N (min (M - i) 16) (if i = 0 then alpha else 1)
        (it_plus invA (int (i * 16))) 16 (it_plus B (int i)) ld 0 (it_plus X (int i)) ld m = Inr m1"
      "sys_inv True M N alpha E X B ld m0 {..<min M (i + 16)} {..<i} m1"
      using solve_down [OF \<open>ready\<close> ok less.prems(1) _ less.prems(3), of "2 * i"] False by (auto simp: sys_gemm_def sys_off_def)
    show ?thesis
    proof (cases "M \<le> i + 16")
      case True
      then show ?thesis using m1 False
        by (subst trsm_left_down.simps) (auto simp: after_gemm_def trsm_blockSize_def min_absorb1)
    next
      case more: False
      obtain m2 where m2: "call (2 * i + 1) (trans_char tr) (CHR ''n'') (M - i - 16) N 16 (- 1)
          (it_plus A (int (if \<not> tr then (i + 16) + i * lda else i + (16 + i) * lda))) lda (it_plus X (int i)) ld
          (if i = 0 then alpha else 1) (it_plus B (int (i + 16))) ld m1 = Inr m2"
        "sys_inv True M N alpha E X B ld m0 {..<i + 16} {..<i + 16} m2"
        using update_down [OF \<open>ready\<close> ok less.prems(1), of alpha m1 "2 * i + 1"] m1(2) more by (auto simp: sys_gemm_def sys_off_def if_negated)
      have "\<exists>m' U. trsm_left_down call tr M N alpha A lda B ld invA X ld (i + 16) m2 = Inr m' \<and> sys_inv True M N alpha E X B ld m0 {..<M} U m'"
        by (rule less.hyps [OF _ _ _ m2(2)]) (use more less.prems(1) in auto)
      then show ?thesis
        by (subst trsm_left_down.simps) (simp only: trsm_blockSize_def Let_def m1(1) m2(1) after_gemm_def sum.case False more if_False)
    qed
  qed
qed

lemma right_down_solves:
  assumes ready and ok: "sys_ok E False tr True N M A lda invA X B ld m0" and "16 dvd i" "i \<le> N"
    and "sys_inv False N M alpha E X B ld m0 {..<i} {..<i} m"
  shows "\<exists>m' U. trsm_right_down call tr M N alpha A lda B ld invA X ld i m = Inr m' \<and> sys_inv False N M alpha E X B ld m0 {..<N} U m'"
  using assms(3-)
proof (induction "N - i" arbitrary: i m rule: less_induct)
  case less
  show ?case
  proof (cases "N \<le> i")
    case True
    then show ?thesis using less.prems by (auto simp: trsm_right_down.simps)
  next
    case False
    obtain m1 where m1: "call (2 * i) (CHR ''n'') (trans_char tr) M (min (N - i) 16) (min (N - i) 16) (if i = 0 then alpha else 1)
        (it_plus B (int (i * ld))) ld (it_plus invA (int (i * 16))) 16 0 (it_plus X (int (i * ld))) ld m = Inr m1"
      "sys_inv False N M alpha E X B ld m0 {..<min N (i + 16)} {..<i} m1"
      using solve_down [OF \<open>ready\<close> ok less.prems(1) _ less.prems(3), of "2 * i"] False by (auto simp: sys_gemm_def sys_off_def)
    show ?thesis
    proof (cases "N < i + 16")
      case True
      then show ?thesis using m1 False
        by (subst trsm_right_down.simps) (auto simp: after_gemm_def trsm_blockSize_def min_absorb1)
    next
      case more: False
      obtain m2 where m2: "call (2 * i + 1) (CHR ''n'') (trans_char tr) M (N - i - 16) 16 (- 1) (it_plus X (int (i * ld))) ld
          (it_plus A (int (if \<not> tr then i + (16 + i) * lda else (i + 16) + i * lda))) lda
          (if i = 0 then alpha else 1) (it_plus B (int ((i + 16) * ld))) ld m1 = Inr m2"
        "sys_inv False N M alpha E X B ld m0 {..<i + 16} {..<i + 16} m2"
        using update_down [OF \<open>ready\<close> ok less.prems(1), of alpha m1 "2 * i + 1"] m1(2) more by (auto simp: sys_gemm_def sys_off_def if_negated)
      have "\<exists>m' U. trsm_right_down call tr M N alpha A lda B ld invA X ld (i + 16) m2 = Inr m' \<and> sys_inv False N M alpha E X B ld m0 {..<N} U m'"
        by (rule less.hyps [OF _ _ _ m2(2)]) (use more less.prems(1) False in auto)
      then show ?thesis
        by (subst trsm_right_down.simps) (simp only: trsm_blockSize_def Let_def m1(1) m2(1) after_gemm_def sum.case False more if_False)
    qed
  qed
qed

lemma left_up_solves:
  assumes ready and ok: "sys_ok E True tr False M N A lda invA X B ld m0" and "16 dvd i" "i < M"
    and "sys_inv True M N alpha E X B ld m0 {min M (i + 16)..<M} {min M (i + 16)..<M} m"
  shows "\<exists>m' U. trsm_left_up call tr M N alpha A lda B ld invA X ld i m = Inr m' \<and> sys_inv True M N alpha E X B ld m0 {..<M} U m'"
  using assms(3-)
proof (induction i arbitrary: m rule: less_induct)
  case (less i)
  obtain m1 where m1: "call (2 * i) (trans_char tr) (CHR ''n'') (min (M - i) 16) N (min (M - i) 16) (if M \<le> i + 16 then alpha else 1)
      (it_plus invA (int (i * 16))) 16 (it_plus B (int i)) ld 0 (it_plus X (int i)) ld m = Inr m1"
    "sys_inv True M N alpha E X B ld m0 {i..<M} {min M (i + 16)..<M} m1"
    using solve_up [OF \<open>ready\<close> ok less.prems, of "2 * i"] by (auto simp: sys_gemm_def sys_off_def)
  note step = trsm_left_up.simps [of call tr M N alpha A lda B ld invA X ld i m, unfolded trsm_blockSize_def Let_def
      block_rows [OF less.prems(1,2)], unfolded m1(1)]
  show ?case
  proof (cases "i < 16")
    case True
    then have "i = 0" using less.prems(1) by (auto elim: dvdE)
    then show ?thesis using m1(2) unfolding step by (auto simp: after_gemm_def lessThan_atLeast0)
  next
    case False
    obtain m2 where m2: "call (2 * i + 1) (trans_char tr) (CHR ''n'') i N (min (M - i) 16) (- 1)
        (it_plus A (int (if \<not> tr then i * lda else i))) lda (it_plus X (int i)) ld (if M \<le> i + 16 then alpha else 1) B ld m1 = Inr m2"
      "sys_inv True M N alpha E X B ld m0 {i..<M} {i..<M} m2"
      using update_up [OF \<open>ready\<close> ok less.prems(1,2) _ m1(2), of "2 * i + 1"] False by (auto simp: sys_gemm_def sys_off_def if_negated)
    have i: "min M (i - 16 + 16) = i" using False less.prems(2) by simp
    have "\<exists>m' U. trsm_left_up call tr M N alpha A lda B ld invA X ld (i - 16) m2 = Inr m' \<and> sys_inv True M N alpha E X B ld m0 {..<M} U m'"
      by (rule less.IH) (use False less.prems(1,2) m2(2) i in auto)
    then show ?thesis unfolding step by (simp only: m2(1) after_gemm_def sum.case False if_False)
  qed
qed

lemma right_up_solves:
  assumes ready and ok: "sys_ok E False tr False N M A lda invA X B ld m0" and "16 dvd i" "i < N"
    and "sys_inv False N M alpha E X B ld m0 {min N (i + 16)..<N} {min N (i + 16)..<N} m"
  shows "\<exists>m' U. trsm_right_up call tr M N alpha A lda B ld invA X ld i m = Inr m' \<and> sys_inv False N M alpha E X B ld m0 {..<N} U m'"
  using assms(3-)
proof (induction i arbitrary: m rule: less_induct)
  case (less i)
  obtain m1 where m1: "call (2 * i) (CHR ''n'') (trans_char tr) M (min (N - i) 16) (min (N - i) 16) (if N \<le> i + 16 then alpha else 1)
      (it_plus B (int (i * ld))) ld (it_plus invA (int (i * 16))) 16 0 (it_plus X (int (i * ld))) ld m = Inr m1"
    "sys_inv False N M alpha E X B ld m0 {i..<N} {min N (i + 16)..<N} m1"
    using solve_up [OF \<open>ready\<close> ok less.prems, of "2 * i"] by (auto simp: sys_gemm_def sys_off_def)
  note step = trsm_right_up.simps [of call tr M N alpha A lda B ld invA X ld i m, unfolded trsm_blockSize_def Let_def
      block_rows [OF less.prems(1,2)], unfolded m1(1)]
  show ?case
  proof (cases "i < 16")
    case True
    then have "i = 0" using less.prems(1) by (auto elim: dvdE)
    then show ?thesis using m1(2) unfolding step by (auto simp: after_gemm_def lessThan_atLeast0)
  next
    case False
    obtain m2 where m2: "call (2 * i + 1) (CHR ''n'') (trans_char tr) M i (min (N - i) 16) (- 1)
        (it_plus X (int (i * ld))) ld (it_plus A (int (if \<not> tr then i else i * lda))) lda (if N \<le> i + 16 then alpha else 1) B ld m1 = Inr m2"
      "sys_inv False N M alpha E X B ld m0 {i..<N} {i..<N} m2"
      using update_up [OF \<open>ready\<close> ok less.prems(1,2) _ m1(2), of "2 * i + 1"] False by (auto simp: sys_gemm_def sys_off_def if_negated)
    have i: "min N (i - 16 + 16) = i" using False less.prems(2) by simp
    have "\<exists>m' U. trsm_right_up call tr M N alpha A lda B ld invA X ld (i - 16) m2 = Inr m' \<and> sys_inv False N M alpha E X B ld m0 {..<N} U m'"
      by (rule less.IH) (use False less.prems(1,2) m2(2) i in auto)
    then show ?thesis unfolding step by (simp only: m2(1) after_gemm_def sum.case False if_False)
  qed
qed

end

end
