(* ===== verification/Trsm_Correct.thy ===== *)
theory Trsm_Correct
  imports Trsm_Blocks
begin

text \<open>
  \<open>_trsm\<close> solves the triangular system. The inverse of a diagonal block that the kernel of \<open>Trsm_Inverter\<close> computes is a left
  inverse; the equations of a triangular block have a solution, so it is a right inverse as well, which is what the
  loops need. \<open>gemm_provider\<close> is interpreted with \<open>_gemm\<close> of \<open>Gemm_Interface\<close>.
\<close>

section \<open>Inverse blocks\<close>

lemma lower_solvable:
  fixes T :: "nat \<Rightarrow> nat \<Rightarrow> 'v::field"
  assumes "\<And>r. r < n \<Longrightarrow> T r r \<noteq> 0" "\<And>r l. r < l \<Longrightarrow> l < n \<Longrightarrow> T r l = 0"
  shows "\<exists>y. \<forall>r<n. (\<Sum>l<n. T r l * y l) = b r"
  using assms
proof (induction n)
  case (Suc n)
  then obtain y where y: "\<forall>r<n. (\<Sum>l<n. T r l * y l) = b r" by auto
  let ?y = "y(n := (b n - (\<Sum>l<n. T n l * y l)) / T n n)"
  have "(\<Sum>l<Suc n. T r l * ?y l) = (\<Sum>l<n. T r l * y l) + T r n * ?y n" for r
    by simp
  then have "(\<Sum>l<Suc n. T r l * ?y l) = b r" if "r < Suc n" for r
    using y Suc.prems that by (cases "r = n") simp_all
  then show ?case by blast
qed simp

lemma upper_solvable:
  fixes T :: "nat \<Rightarrow> nat \<Rightarrow> 'v::field"
  assumes "\<And>r. r < n \<Longrightarrow> T r r \<noteq> 0" "\<And>r l. l < r \<Longrightarrow> r < n \<Longrightarrow> T r l = 0"
  shows "\<exists>y. \<forall>r<n. (\<Sum>l<n. T r l * y l) = b r"
  using assms
proof (induction n arbitrary: b)
  case (Suc n)
  let ?z = "b n / T n n"
  obtain y where y: "\<forall>r<n. (\<Sum>l<n. T r l * y l) = b r - T r n * ?z"
    using Suc.IH [of "\<lambda>r. b r - T r n * ?z"] Suc.prems by auto
  let ?y = "y(n := ?z)"
  have sum: "(\<Sum>l<Suc n. T r l * ?y l) = (\<Sum>l<n. T r l * y l) + T r n * ?z" for r
    by simp
  have "(\<Sum>l<n. T n l * y l) = 0" by (rule sum.neutral) (simp add: Suc.prems)
  then have "(\<Sum>l<Suc n. T r l * ?y l) = b r" if "r < Suc n" for r
    using y Suc.prems that unfolding sum by (cases "r = n") simp_all
  then show ?case by blast
qed simp

text \<open>A left inverse of a matrix all of whose equations have a solution is a right inverse.\<close>

lemma right_inverse:
  fixes T L :: "nat \<Rightarrow> nat \<Rightarrow> 'v::field"
  assumes left: "\<And>r c. r < n \<Longrightarrow> c < n \<Longrightarrow> (\<Sum>l<n. L r l * T l c) = of_bool (r = c)"
    and solvable: "\<And>b. \<exists>y. \<forall>r<n. (\<Sum>l<n. T r l * y l) = b r" and c: "r < n" "c < n"
  shows "(\<Sum>l<n. T r l * L l c) = of_bool (r = c)"
proof -
  obtain y where y: "\<forall>r<n. (\<Sum>l<n. T r l * y l) = of_bool (r = c)"
    using solvable [of "\<lambda>r. of_bool (r = c)"] by blast
  have "L k c = y k" if "k < n" for k
  proof -
    have "(\<Sum>l<n. L k l * (1 * (\<Sum>j<n. T l j * y j))) = 1 * y k"
      by (rule sum_inverse) (use left that in auto)
    moreover have "(\<Sum>l<n. L k l * (1 * (\<Sum>j<n. T l j * y j))) = (\<Sum>l<n. L k l * of_bool (l = c))"
      by (rule sum.cong) (simp_all add: y)
    ultimately show ?thesis using c(2) by (simp add: of_bool_def if_distrib [of "\<lambda>x. _ * x"] cong: if_cong)
  qed
  then have "(\<Sum>l<n. T r l * L l c) = (\<Sum>l<n. T r l * y l)" by simp
  then show ?thesis using y c(1) by simp
qed

lemma copy_unit:
  assumes r: "is_run r" "0 < ph_work_group_size ph" and "0 \<le> it_offset x" "0 \<le> it_offset y"
    and "it_offset x + int n \<le> int (it_count x)" "it_offset y + int n \<le> int (it_count y)" and bufs: "it_buffer x \<noteq> it_buffer y"
  shows "i < n \<Longrightarrow> copy r ph n x 1 y 1 m (it_buffer y, it_offset y + int i) = m (it_buffer x, it_offset x + int i)"
    and "(\<And>i. i < n \<Longrightarrow> d \<noteq> (it_buffer y, it_offset y + int i)) \<Longrightarrow> copy r ph n x 1 y 1 m d = m d"
proof -
  have cell: "cell it 1 n i = (it_buffer it, it_offset it + int i)" for it i
    by (simp add: cell_def blas_index_def)
  have "vector_fits x 1 n" "vector_fits y 1 n" "own_cells n (cell x 1 n) (cell y 1 n)"
    using assms(3-7) by (auto simp: vector_fits_def own_cells_def cell)
  note copy = copy_correct [OF r this, of m, unfolded cell]
  show "i < n \<Longrightarrow> copy r ph n x 1 y 1 m (it_buffer y, it_offset y + int i) = m (it_buffer x, it_offset x + int i)"
    using copy by blast
  show "(\<And>i. i < n \<Longrightarrow> d \<noteq> (it_buffer y, it_offset y + int i)) \<Longrightarrow> copy r ph n x 1 y 1 m d = m d"
    using copy by blast
qed

definition mat_tri :: "bool \<Rightarrow> bool \<Rightarrow> 'v::{zero, one} matrix \<Rightarrow> 'v matrix" where
  "mat_tri isUnitDiag isUpper A =
     (\<lambda>i j. if i = j then (if isUnitDiag then 1 else A i j) else if (if isUpper then i < j else j < i) then A i j else 0)"

definition trsm_solution :: "bool \<Rightarrow> 'v::semiring_0 matrix \<Rightarrow> nat \<Rightarrow> nat \<Rightarrow> 'v \<Rightarrow> 'v matrix \<Rightarrow> 'v matrix \<Rightarrow> bool" where
  "trsm_solution isLeft T M N alpha X B \<longleftrightarrow>
     (\<forall>i<M. \<forall>j<N. (if isLeft then (\<Sum>l<M. T i l * X l j) else (\<Sum>l<N. X i l * T l j)) = alpha * B i j)"

text \<open>The launch of the inverter.\<close>

lemma inverter_result:
  fixes m :: "'v::field mem" and u :: 'v and upper :: bool and ld :: nat
  assumes r: "is_run r" and K: "0 < K" and bufs: "it_buffer A \<noteq> it_buffer invA"
    and diag: "\<And>i. i < K \<Longrightarrow> if unit then m (op_cell_of False A lda i i) = 1 else m (op_cell_of False A lda i i) \<noteq> 0"
  defines "m' \<equiv> db_execute r u (make_diag_blocks_inverter unit upper 16 (make_matrix_view col_major A K K lda)
      (make_matrix_view col_major invA 16 16 ld)) 16 (roundUp K 16 div 16 * 16) m"
    and "T \<equiv> mat_tri unit upper (read_matrix m A K K lda)"
  shows "16 dvd i \<Longrightarrow> i < K \<Longrightarrow> r' < min (K - i) 16 \<Longrightarrow> c < min (K - i) 16 \<Longrightarrow>
      (\<Sum>l < min (K - i) 16. m' (op_cell_of False (it_plus invA (int (i * 16))) 16 r' l) * T (i + l) (i + c)) = of_bool (r' = c)"
    and "fst d \<noteq> it_buffer invA \<Longrightarrow> m' d = m d"
proof -
  let ?t = "make_diag_blocks_inverter unit upper 16 (make_matrix_view col_major A K K lda) (make_matrix_view col_major invA 16 16 ld)"
  have t: "db_UnitDiag ?t = unit" "db_Upper ?t = upper" "db_BlockSize ?t = 16" "db_N ?t = K" "db_lda ?t = lda"
    "mv_get_pointer (db_A ?t) = (it_buffer A, it_offset A)" "mv_get_pointer (db_invA ?t) = (it_buffer invA, it_offset invA)"
    by (simp_all add: make_diag_blocks_inverter_def make_matrix_view_def MatrixView_of_iter_def make_MatrixView_def
      get_range_accessor_def get_range_accessor_sized_def mv_get_pointer_eq)
  define n where "n = roundUp K 16 div 16"
  have n: "0 < n" "K \<le> n * 16" using K roundUp_ge [of 16 K] roundUp_dvd [of 16 K] by (auto simp: n_def)
  have m': "m' = db_execute r u ?t 16 (n * 16) m" by (simp add: m'_def n_def)
  note run = db_execute_result [OF r _ n(1), where t = ?t and m = m and u = u, unfolded t, folded m']
  show "fst d \<noteq> it_buffer invA \<Longrightarrow> m' d = m d"
    by (rule run(2)) (use bufs in auto)
  assume i: "16 dvd i" "i < K" and rc: "r' < min (K - i) 16" "c < min (K - i) 16"
  obtain blk where blk: "i = blk * 16" using i(1) by (metis dvdE mult.commute)
  have rows: "db_rows ?t blk = min (K - i) 16" by (simp add: db_rows_def t blk min.commute)
  have "blk < n" using i(2) n(2) unfolding blk by simp
  then have sol: "db_solution ?t (db_diag ?t blk m) (\<lambda>i j. m' (db_inv_cell ?t blk i j))"
    by (intro run(1)) (use bufs in auto)
  have elem: "db_elem ?t blk m l c = T (i + l) (i + c)" if "l < min (K - i) 16" "c < min (K - i) 16" for l c
  proof -
    have cell: "(it_buffer A, it_offset A + int (c * lda + l + db_srcBlockOffset ?t blk)) = op_cell_of False A lda (i + l) (i + c)"
      by (simp add: op_cell_of_def db_srcBlockOffset_def t blk algebra_simps)
    have lc: "i + l < K" "i + c < K" using that by linarith+
    then have "read_matrix m A K K lda (i + l) (i + c) = m (op_cell_of False A lda (i + l) (i + c))"
      by (simp add: read_matrix_def op_cell_of_def)
    moreover have "unit \<Longrightarrow> m (op_cell_of False A lda (i + l) (i + l)) = 1"
      using diag [OF lc(1)] by simp
    ultimately show ?thesis
      using db_in_range_iff [of l ?t c blk, unfolded t rows] that
      unfolding db_elem_def t ptr_add.simps cell by (auto simp: T_def mat_tri_def)
  qed
  have "(\<Sum>l < db_rows ?t blk. m' (db_inv_cell ?t blk r' l) * db_elem ?t blk m l c) = of_bool (r' = c)"
  proof (rule db_solution_inverse [OF sol])
    fix j assume j: "j < db_rows ?t blk"
    then have jj: "j < min (K - i) 16" "i + j < K" unfolding rows using i(2) by linarith+
    then show "if db_UnitDiag ?t then db_elem ?t blk m j j = 1 else db_elem ?t blk m j j \<noteq> 0"
      unfolding elem [OF jj(1) jj(1)] t T_def using diag [OF jj(2)] jj(2)
      by (cases unit) (simp_all add: mat_tri_def read_matrix_def op_cell_of_def)
  qed (use rc rows in simp_all)
  moreover have "db_inv_cell ?t blk r' l = op_cell_of False (it_plus invA (int (i * 16))) 16 r' l" for l
    by (simp add: db_inv_cell_def t op_cell_of_def it_plus_def db_destBlockOffset_eq blk algebra_simps)
  ultimately show "(\<Sum>l < min (K - i) 16. m' (op_cell_of False (it_plus invA (int (i * 16))) 16 r' l) * T (i + l) (i + c)) = of_bool (r' = c)"
    using rc by (simp add: rows elem)
qed

lemma tri_diag: "mat_tri unit upper A r r = (if unit then 1 else A r r)"
  by (simp add: mat_tri_def)

lemma tri_solvable:
  fixes A :: "nat \<Rightarrow> nat \<Rightarrow> 'v::field"
  assumes "\<And>r. r < n \<Longrightarrow> mat_tri unit upper A (i + r) (i + r) \<noteq> 0"
  shows "\<exists>y. \<forall>r<n. (\<Sum>l<n. mat_tri unit upper A (i + r) (i + l) * y l) = b r"
proof (cases upper)
  case True
  show ?thesis by (rule upper_solvable) (use assms True in \<open>auto simp: mat_tri_def\<close>)
next
  case False
  show ?thesis by (rule lower_solvable) (use assms False in \<open>auto simp: mat_tri_def\<close>)
qed

text \<open>The matrix of the system, for \<open>op(A)\<close> on either side.\<close>

definition sys_matrix :: "bool \<Rightarrow> 'v matrix \<Rightarrow> 'v matrix" where
  "sys_matrix flip T = (\<lambda>r l. if flip then T l r else T r l)"

lemma block_inverse:
  fixes m :: "'v::field mem"
  assumes left: "\<And>r c. r < n \<Longrightarrow> c < n \<Longrightarrow> (\<Sum>l<n. m (op_cell_of False p 16 r l) * mat_tri unit upper A (i + l) (i + c)) = of_bool (r = c)"
    and diag: "\<And>r. r < n \<Longrightarrow> mat_tri unit upper A (i + r) (i + r) \<noteq> 0" and rc: "r < n" "c < n"
  shows "(\<Sum>l<n. sys_matrix flip (mat_tri unit upper A) (i + r) (i + l) * m (op_cell_of flip p 16 l c)) = of_bool (r = c)"
proof (cases flip)
  case True
  have "op_cell_of True p 16 l c = op_cell_of False p 16 c l" for l by (simp add: op_cell_of_def)
  then show ?thesis using left [OF rc(2,1)] True by (simp add: sys_matrix_def mult.commute eq_commute)
next
  case False
  show ?thesis
    using right_inverse [of n "\<lambda>r l. m (op_cell_of False p 16 r l)" "\<lambda>r l. mat_tri unit upper A (i + r) (i + l)", OF left tri_solvable [OF diag] rc] False
    by (simp add: sys_matrix_def)
qed

lemma sys_ok_prepared:
  fixes m m3 :: "'v::field mem" and K lda :: nat and unit upper :: bool and A :: BufferIterator
  defines "T \<equiv> mat_tri unit upper (read_matrix m A K K lda)"
  assumes left: "\<And>i r c. 16 dvd i \<Longrightarrow> i < K \<Longrightarrow> r < min (K - i) 16 \<Longrightarrow> c < min (K - i) 16 \<Longrightarrow>
      (\<Sum>l < min (K - i) 16. m3 (op_cell_of False (it_plus invA (int (i * 16))) 16 r l) * T (i + l) (i + c)) = of_bool (r = c)"
    and diag: "\<And>i. i < K \<Longrightarrow> if unit then m (op_cell_of False A lda i i) = 1 else m (op_cell_of False A lda i i) \<noteq> 0"
    and same: "\<And>d. fst d \<noteq> it_buffer invA \<Longrightarrow> fst d \<noteq> it_buffer X \<Longrightarrow> m3 d = m d"
    and bufs: "it_buffer A \<noteq> it_buffer X" "it_buffer A \<noteq> it_buffer B" "it_buffer invA \<noteq> it_buffer X" "it_buffer invA \<noteq> it_buffer B"
      "it_buffer B \<noteq> it_buffer X" "it_buffer invA \<noteq> it_buffer A"
    and fits: "sys_fits left X ld K C" "sys_fits left B ld K C" "0 < C"
    and lower: "lower \<longleftrightarrow> (upper \<longleftrightarrow> left = tr)"
  shows "sys_ok (sys_matrix (left = tr) T) left tr lower K C A lda invA X B ld m3"
proof -
  have A: "read_matrix m A K K lda r l = m3 (op_cell_of False A lda r l)" if "r < K" "l < K" for r l
    using same [of "op_cell_of False A lda r l"] bufs that by (simp add: read_matrix_def op_cell_of_def)
  have flip: "op_cell_of True A lda r l = op_cell_of False A lda l r" for r l
    by (simp add: op_cell_of_def)
  have nz: "T r r \<noteq> 0" if "r < K" for r
    using diag [OF that] that by (simp add: T_def tri_diag read_matrix_def op_cell_of_def split: if_splits)
  have inverse: "(\<Sum>l<min (K - i) 16. sys_matrix (left = tr) T (i + r) (i + l) *
      m3 (op_cell_of (left = tr) (it_plus invA (int (i * 16))) 16 l c)) = of_bool (r = c)"
    if "16 dvd i" "i < K" "r < min (K - i) 16" "c < min (K - i) 16" for i r c
    unfolding T_def
    by (rule block_inverse) (use left nz that in \<open>auto simp: T_def\<close>)
  have zero: "sys_matrix (left = tr) T r l = 0" if "if lower then r < l else l < r" for r l
    using that by (cases "left = tr"; cases upper) (auto simp: lower sys_matrix_def T_def mat_tri_def)
  have stored: "sys_matrix (left = tr) T r l = m3 (op_cell_of (left = tr) A lda r l)"
    if "r < K" "l < K" "if lower then l < r else r < l" for r l
    using that by (cases "left = tr"; cases upper) (auto simp: lower sys_matrix_def T_def mat_tri_def A flip)
  show ?thesis
    unfolding sys_ok_def using zero stored inverse bufs fits by simp
qed

context gemm_provider begin

lemma loops_solve:
  assumes ready and ok: "sys_ok E left tr lower (if left then M else N) (if left then N else M) A lda invA X B ld m0"
    and lower: "lower \<longleftrightarrow> (upper \<longleftrightarrow> left = tr)" and "0 < M" "0 < N"
  shows "\<exists>m' U. (if left then
       (if upper \<and> tr \<or> \<not> upper \<and> \<not> tr then trsm_left_down call tr M N alpha A lda B ld invA X ld 0 m0
        else trsm_left_up call tr M N alpha A lda B ld invA X ld (last_block M) m0)
     else
       (if upper \<and> tr \<or> \<not> upper \<and> \<not> tr then trsm_right_up call tr M N alpha A lda B ld invA X ld (last_block N) m0
        else trsm_right_down call tr M N alpha A lda B ld invA X ld 0 m0)) = Inr m' \<and>
     sys_inv left (if left then M else N) (if left then N else M) alpha E X B ld m0 {..<if left then M else N} U m'"
proof -
  have start: "sys_inv left K C alpha E X B ld m0 {} {} m0" for K C by (simp add: sys_inv_def)
  have down: "{..<0::nat} = {}" and up: "0 < K \<Longrightarrow> {min K (last_block K + 16)..<K} = {}" for K :: nat
    using last_block(3) [of K] by auto
  show ?thesis
  proof (cases left; cases lower)
    assume c: left lower
    show ?thesis
      using left_down_solves [OF \<open>ready\<close>, of E tr M N A lda invA X B ld m0 0 alpha m0] ok start lower c by auto
  next
    assume c: left "\<not> lower"
    show ?thesis
      using left_up_solves [OF \<open>ready\<close>, of E tr M N A lda invA X B ld m0 "last_block M" alpha m0] ok start lower c
        last_block(1,2) [OF \<open>0 < M\<close>] up [OF \<open>0 < M\<close>] by auto
  next
    assume c: "\<not> left" lower
    show ?thesis
      using right_down_solves [OF \<open>ready\<close>, of E tr N M A lda invA X B ld m0 0 alpha m0] ok start lower c by auto
  next
    assume c: "\<not> left" "\<not> lower"
    show ?thesis
      using right_up_solves [OF \<open>ready\<close>, of E tr N M A lda invA X B ld m0 "last_block N" alpha m0] ok start lower c
        last_block(1,2) [OF \<open>0 < N\<close>] up [OF \<open>0 < N\<close>] by auto
  qed
qed

end

section \<open>The whole routine\<close>

definition b_cells :: "BufferIterator \<Rightarrow> nat \<Rightarrow> nat \<Rightarrow> nat \<Rightarrow> addr set" where
  "b_cells B M N ldb = {(it_buffer B, it_offset B + int (i + j * ldb)) |i j. i < M \<and> j < N}"

lemma span:
  assumes "i < M" "j < (N :: nat)"
  shows "i + j * ldb < ldb * (N - 1) + M"
proof -
  have "j * ldb \<le> (N - 1) * ldb" by (rule mult_le_mono1) (use assms(2) in simp)
  then show ?thesis using assms(1) unfolding mult.commute [of ldb] by linarith
qed

context gemm_provider begin

lemma trsm_result:
  fixes M N lda ldb tmp1 tmp2 :: nat and m :: "'v mem" and A B :: BufferIterator and alpha u :: 'v
  assumes ready and runs: "is_run r1" "is_run r2" "is_run r3" "0 < ph_work_group_size ph"
    and sizes: "0 < M" "0 < N" "0 < lda" "M \<le> ldb" and B: "columns_fit B M ldb N"
    and bufs: "it_buffer A \<noteq> it_buffer B" "{tmp1, tmp2} \<inter> {it_buffer A, it_buffer B} = {}" "tmp1 \<noteq> tmp2"
    and letters: "tolower side \<in> {CHR ''l'', CHR ''r''}" "tolower uplo \<in> {CHR ''u'', CHR ''l''}"
      "tolower trans0 \<in> {CHR ''n'', CHR ''t''}" "tolower diag \<in> {CHR ''u'', CHR ''n''}"
  defines "left \<equiv> tolower side = CHR ''l''" and "upper \<equiv> tolower uplo = CHR ''u''" and "tr \<equiv> tolower trans0 = CHR ''t''"
    and "unit \<equiv> tolower diag = CHR ''u''"
  defines "K \<equiv> if left then M else N"
  assumes diag: "\<And>i. i < K \<Longrightarrow> if unit then m (op_cell_of False A lda i i) = 1 else m (op_cell_of False A lda i i) \<noteq> 0"
  obtains m' where "trsm call r1 r2 r3 ph u tmp1 tmp2 side uplo trans0 diag M N alpha A lda B ldb m = Inr m'"
    and "trsm_solution left (mat_op tr (mat_tri unit upper (read_matrix m A K K lda))) M N alpha (read_matrix m' B M N ldb) (read_matrix m B M N ldb)"
    and "\<And>d. fst d \<notin> {tmp1, tmp2} \<Longrightarrow> d \<notin> b_cells B M N ldb \<Longrightarrow> m' d = m d"
proof -
  define invA where "invA = make_sycl_iterator_buffer tmp1 (roundUp K 16 * 16)"
  define BSize where "BSize = ldb * (N - 1) + M"
  define X where "X = make_sycl_iterator_buffer tmp2 BSize"
  define m1 where "m1 = device_fill invA 0 (roundUp K 16 * 16) m"
  define m2 where "m2 = db_execute r1 u (make_diag_blocks_inverter unit upper 16 (make_matrix_view col_major A K K lda)
      (make_matrix_view col_major invA 16 16 lda)) 16 (roundUp K 16 div 16 * 16) m1"
  define m3 where "m3 = copy r2 ph BSize B 1 X 1 m2"
  define T where "T = mat_tri unit upper (read_matrix m A K K lda)"
  let ?C = "if left then N else M" and ?lower = "upper \<longleftrightarrow> left = tr"
  have its: "it_buffer invA = tmp1" "it_offset invA = 0" "it_buffer X = tmp2" "it_offset X = 0" "it_count X = BSize"
    by (simp_all add: invA_def X_def make_sycl_iterator_buffer_def)
  have bufs': "tmp1 \<noteq> it_buffer A" "tmp1 \<noteq> it_buffer B" "tmp2 \<noteq> it_buffer A" "tmp2 \<noteq> it_buffer B" using bufs(2) by auto
  have m1: "m1 d = m d" if "fst d \<noteq> tmp1" for d
    using that by (cases d) (simp add: m1_def device_fill_def its)
  have K: "0 < K" "0 < ?C" using sizes by (auto simp: K_def)
  have mA: "m1 (op_cell_of f A lda i j) = m (op_cell_of f A lda i j)" for f i j
    by (rule m1) (use bufs' in \<open>simp add: op_cell_of_def\<close>)
  have T: "T = mat_tri unit upper (read_matrix m1 A K K lda)"
    using mA [of False] by (simp add: T_def read_matrix_def op_cell_of_def cong: if_cong)
  have diag1: "if unit then m1 (op_cell_of False A lda i i) = 1 else m1 (op_cell_of False A lda i i) \<noteq> 0" if "i < K" for i
    using diag [OF that] by (simp add: mA)
  have bA: "it_buffer A \<noteq> it_buffer invA" using bufs' its by simp
  note inverter = inverter_result [where m = m1 and A = A and K = K and invA = invA and unit = unit and lda = lda and upper = upper and ld = lda and u = u,
      OF runs(1) K(1) bA diag1, folded m2_def T]
  have B_off: "0 \<le> it_offset B" "it_offset B + int BSize \<le> int (it_count B)"
    using B sizes by (simp_all add: columns_fit_def BSize_def mult.commute)
  have copy1: "i < BSize \<Longrightarrow> m3 (tmp2, int i) = m2 (it_buffer B, it_offset B + int i)" "fst d \<noteq> tmp2 \<Longrightarrow> m3 d = m2 d" for i d
    using copy_unit(1) [OF runs(2,4), where x = B and y = X and n = BSize and m = m2 and i = i, folded m3_def, unfolded its]
      copy_unit(2) [OF runs(2,4), where x = B and y = X and n = BSize and m = m2 and d = d, folded m3_def, unfolded its] B_off bufs'
    by (simp_all, cases d, simp)
  have fits: "sys_fits left X ldb K ?C" "sys_fits left B ldb K ?C"
    using B sizes(4) its by (simp_all add: sys_fits_def K_def columns_fit_def BSize_def mult.commute)
  have ok: "sys_ok (sys_matrix (left = tr) T) left tr ?lower K ?C A lda invA X B ldb m3"
    unfolding T
  proof (rule sys_ok_prepared [where m = m1 and unit = unit and A = A and lda = lda and K = K, OF _ diag1 _ _ _ _ _ _ _ fits K(2) refl])
    show "m3 d = m1 d" if "fst d \<noteq> it_buffer invA" "fst d \<noteq> it_buffer X" for d
      using copy1(2) inverter(2) that its by simp
    show "(\<Sum>l < min (K - i) 16. m3 (op_cell_of False (it_plus invA (int (i * 16))) 16 r l) *
        mat_tri unit upper (read_matrix m1 A K K lda) (i + l) (i + c)) = of_bool (r = c)"
      if "16 dvd i" "i < K" "r < min (K - i) 16" "c < min (K - i) 16" for i r c
      using inverter(1) [OF _ that] copy1(2) bufs(3) its by (simp add: T op_cell_of_def it_plus_def)
  qed (use bufs' bufs its in auto)
  let ?E = "sys_matrix (left = tr) T"
  obtain m4 U where m4: "(if left then
       (if upper \<and> tr \<or> \<not> upper \<and> \<not> tr then trsm_left_down call tr M N alpha A lda B ldb invA X ldb 0 m3
        else trsm_left_up call tr M N alpha A lda B ldb invA X ldb (last_block M) m3)
     else
       (if upper \<and> tr \<or> \<not> upper \<and> \<not> tr then trsm_right_up call tr M N alpha A lda B ldb invA X ldb (last_block N) m3
        else trsm_right_down call tr M N alpha A lda B ldb invA X ldb 0 m3)) = Inr m4"
    and inv: "sys_inv left K ?C alpha ?E X B ldb m3 {..<K} U m4"
    using loops_solve [OF \<open>ready\<close> ok [unfolded K_def] refl sizes(1,2), of alpha] unfolding K_def by blast
  define m' where "m' = copy r3 ph BSize X 1 B 1 m4"
  have copy2: "i < BSize \<Longrightarrow> m' (it_buffer B, it_offset B + int i) = m4 (tmp2, int i)" for i
    using copy_unit(1) [OF runs(3,4), where x = X and y = B and n = BSize and m = m4 and i = i, folded m'_def, unfolded its] B_off bufs'
    by simp
  have copy2': "m' d = m4 d" if "\<And>i. i < BSize \<Longrightarrow> d \<noteq> (it_buffer B, it_offset B + int i)" for d
    unfolding m'_def by (rule copy_unit(2) [OF runs(3,4)]) (use B_off bufs' that its in simp_all)
  have old: "m3 d = m d" if "fst d \<notin> {tmp1, tmp2}" for d
    using that copy1(2) inverter(2) m1 its by simp
  have cells: "sys_cell left p ldb r c = (it_buffer p, it_offset p + int (if left then r + c * ldb else c + r * ldb))" for p r c
    by (simp add: sys_cell_def)
  have X_cell: "i + j * ldb < BSize" "read_matrix m' B M N ldb i j = m4 (tmp2, int (i + j * ldb))" if "i < M" "j < N" for i j
    using span [OF that, of ldb] copy2 [of "i + j * ldb"] that by (simp_all add: BSize_def read_matrix_def)
  have B_cell: "m3 (it_buffer B, it_offset B + int (i + j * ldb)) = read_matrix m B M N ldb i j" if "i < M" "j < N" for i j
    using old [of "(it_buffer B, it_offset B + int (i + j * ldb))"] bufs' that by (simp add: read_matrix_def)
  show thesis
  proof (rule that)
    show "trsm call r1 r2 r3 ph u tmp1 tmp2 side uplo trans0 diag M N alpha A lda B ldb m = Inr m'"
      using trsm_unfold [OF sizes(1-3) _ letters, where ldb = ldb and ?tmp1.0 = tmp1 and ?tmp2.0 = tmp2 and m = m and A = A and B = B and u = u
          and call = call and ph = ph and alpha = alpha and ?r1.0 = r1 and ?r2.0 = r2 and ?r3.0 = r3] sizes(1,4) m4
      by (simp add: left_def upper_def tr_def unit_def K_def invA_def BSize_def X_def m1_def m2_def m3_def m'_def cong: if_cong)
    show "trsm_solution left (mat_op tr (mat_tri unit upper (read_matrix m A K K lda))) M N alpha (read_matrix m' B M N ldb) (read_matrix m B M N ldb)"
      unfolding trsm_solution_def T_def [symmetric]
    proof (intro allI impI)
      fix i j assume ij: "i < M" "j < N"
      let ?r = "if left then i else j" and ?c = "if left then j else i"
      have rc: "?r < K" "?c < ?C" using ij by (simp_all add: K_def)
      have "(\<Sum>l<K. ?E ?r l * m4 (sys_cell left X ldb l ?c)) = alpha * m3 (sys_cell left B ldb ?r ?c)"
        using inv rc unfolding sys_inv_def by blast
      moreover have "sys_cell left B ldb ?r ?c = (it_buffer B, it_offset B + int (i + j * ldb))"
        by (simp add: cells)
      moreover have "(\<Sum>l<K. ?E ?r l * m4 (sys_cell left X ldb l ?c)) =
          (if left then (\<Sum>l<M. mat_op tr T i l * read_matrix m' B M N ldb l j) else (\<Sum>l<N. read_matrix m' B M N ldb i l * mat_op tr T l j))"
        by (cases left) (auto simp: K_def X_cell(2) ij sys_cell_def its mat_op_def sys_matrix_def mult.commute intro!: sum.cong)
      ultimately show "(if left then (\<Sum>l<M. mat_op tr T i l * read_matrix m' B M N ldb l j)
          else (\<Sum>l<N. read_matrix m' B M N ldb i l * mat_op tr T l j)) = alpha * read_matrix m B M N ldb i j"
        by (simp only: B_cell [OF ij])
    qed
    show "m' d = m d" if "fst d \<notin> {tmp1, tmp2}" "d \<notin> b_cells B M N ldb" for d
    proof (cases "\<exists>k < BSize. d = (it_buffer B, it_offset B + int k)")
      case True
      then obtain k where k: "k < BSize" "d = (it_buffer B, it_offset B + int k)" by blast
      have "m4 (tmp2, int k) = m3 (tmp2, int k)"
      proof (rule sys_inv_frame [OF inv], intro allI impI)
        fix r c assume rc: "r < K" "c < ?C"
        have "k \<noteq> (if left then r + c * ldb else c + r * ldb)"
          using that(2) rc unfolding k(2) b_cells_def K_def by (auto split: if_splits)
        then show "(tmp2, int k) \<noteq> sys_cell left X ldb r c \<and> (tmp2, int k) \<noteq> sys_cell left B ldb r c"
          using bufs' by (simp add: cells its)
      qed
      then show ?thesis using copy2 [OF k(1)] copy1(1) [OF k(1)] old [of d] copy1(2) [of d] that(1) by (simp add: k(2))
    next
      case False
      have "m4 d = m3 d"
      proof (rule sys_inv_frame [OF inv], intro allI impI)
        fix r c assume rc: "r < K" "c < ?C"
        then show "d \<noteq> sys_cell left X ldb r c \<and> d \<noteq> sys_cell left B ldb r c"
          using that unfolding b_cells_def K_def by (auto simp: cells its split: if_splits)
      qed
      then show ?thesis using copy2' [of d] False old [OF that(1)] by auto
    qed
  qed
qed

end

section \<open>Properties\<close>

interpretation tg: gemm_provider
  "(\<forall>k. is_run (rl k)) \<and> (\<forall>k i. is_run (r k i)) \<and> 0 < ph_work_group_size ph \<and> modelled_build bd sz"
  "(\<lambda>k. gemm (select_gemm (rl k) ph v sz u other) (r k) ph bd sz) :: 'v::field gemm_call" for rl r ph bd sz v u other
proof
  fix tA tB :: char and M N K ldc lda ldb k :: nat and a b c :: BufferIterator and alpha beta :: 'v and m
  assume ready: "(\<forall>k. is_run (rl k)) \<and> (\<forall>k i. is_run (r k i)) \<and> 0 < ph_work_group_size ph \<and> modelled_build bd sz"
    and args: "legal_trans tA" "legal_trans tB" "0 < M" "0 < N \<or> alpha \<noteq> 0" "M \<le> ldc" "it_buffer a \<noteq> it_buffer c" "it_buffer b \<noteq> it_buffer c" "columns_fit c M ldc N"
  show "\<exists>m'. gemm (select_gemm (rl k) ph v sz u other) (r k) ph bd sz tA tB M N K alpha a lda b ldb beta c ldc m = Inr m' \<and>
      gemm_result (beta = 0) (transposed tA) (transposed tB) M N K alpha (it_buffer a, it_offset a) lda
        (it_buffer b, it_offset b) ldb beta (it_buffer c, it_offset c) ldc 1 m m'"
    using gemm_batched_result [of "rl k" "r k" ph M N alpha 1 ldc a c b tA tB bd sz v u other K lda ldb beta m] ready args
    by (auto simp: gemm_batched_def gemm_def)
qed

text \<open>The letters.\<close>

definition trsm_letters :: "char \<Rightarrow> char \<Rightarrow> char \<Rightarrow> char \<Rightarrow> bool" where
  "trsm_letters side uplo trans0 diag \<longleftrightarrow>
     tolower side \<in> {CHR ''l'', CHR ''r''} \<and> tolower uplo \<in> {CHR ''u'', CHR ''l''} \<and>
     tolower trans0 \<in> {CHR ''n'', CHR ''t''} \<and> tolower diag \<in> {CHR ''u'', CHR ''n''}"

text \<open>The triangular matrix that a call names: the given triangle of \<open>A\<close>, with ones on the diagonal when it is unit.\<close>

definition trsm_triangle :: "char \<Rightarrow> char \<Rightarrow> nat \<Rightarrow> BufferIterator \<Rightarrow> nat \<Rightarrow> 'v::{zero, one} mem \<Rightarrow> 'v matrix" where
  "trsm_triangle uplo diag K A lda m = mat_tri (tolower diag = CHR ''u'') (tolower uplo = CHR ''u'') (read_matrix m A K K lda)"

text \<open>The stored diagonal: not zero, and one where the caller says so.\<close>

definition trsm_diagonal_ok :: "char \<Rightarrow> nat \<Rightarrow> BufferIterator \<Rightarrow> nat \<Rightarrow> 'v::{zero, one} mem \<Rightarrow> bool" where
  "trsm_diagonal_ok diag K A lda m \<longleftrightarrow>
     (\<forall>i<K. if tolower diag = CHR ''u'' then read_matrix m A K K lda i i = 1 else read_matrix m A K K lda i i \<noteq> 0)"

lemma trsm_model_result:
  fixes m :: "'v::field mem"
  assumes "\<forall>k. is_run (rl k)" "\<forall>k i. is_run (r k i)" "is_run r1" "is_run r2" "is_run r3" "0 < ph_work_group_size ph" "modelled_build bd sz"
    and "0 < M" "0 < N" "0 < lda" "M \<le> ldb" "columns_fit B M ldb N"
    and "it_buffer A \<noteq> it_buffer B" "{tmp1, tmp2} \<inter> {it_buffer A, it_buffer B} = {}" "tmp1 \<noteq> tmp2"
    and letters: "trsm_letters side uplo trans0 diag"
    and diag: "trsm_diagonal_ok diag (if tolower side = CHR ''l'' then M else N) A lda m"
  shows "\<exists>m'. trsm (\<lambda>k. gemm (select_gemm (rl k) ph v sz u other) (r k) ph bd sz) r1 r2 r3 ph w tmp1 tmp2 side uplo trans0 diag
       M N alpha A lda B ldb m = Inr m' \<and>
     trsm_solution (tolower side = CHR ''l'')
       (mat_op (tolower trans0 = CHR ''t'') (trsm_triangle uplo diag (if tolower side = CHR ''l'' then M else N) A lda m))
       M N alpha (read_matrix m' B M N ldb) (read_matrix m B M N ldb) \<and>
     (\<forall>d. fst d \<notin> {tmp1, tmp2} \<longrightarrow> d \<notin> b_cells B M N ldb \<longrightarrow> m' d = m d)"
proof -
  have d: "if tolower diag = CHR ''u'' then m (op_cell_of False A lda i i) = 1 else m (op_cell_of False A lda i i) \<noteq> 0"
    if "i < (if tolower side = CHR ''l'' then M else N)" for i
  proof -
    have "read_matrix m A K K lda i i = m (op_cell_of False A lda i i)" if "i < K" for K
      using that by (simp add: read_matrix_def op_cell_of_def)
    from diag [unfolded trsm_diagonal_ok_def, rule_format, OF that, unfolded this [OF that]] show ?thesis .
  qed
  have ready: "(\<forall>k. is_run (rl k)) \<and> (\<forall>k i. is_run (r k i)) \<and> 0 < ph_work_group_size ph \<and> modelled_build bd sz"
    using assms(1,2,6,7) by blast
  have L: "tolower side \<in> {CHR ''l'', CHR ''r''}" "tolower uplo \<in> {CHR ''u'', CHR ''l''}"
    "tolower trans0 \<in> {CHR ''n'', CHR ''t''}" "tolower diag \<in> {CHR ''u'', CHR ''n''}"
    using letters by (simp_all add: trsm_letters_def)
  show ?thesis
  proof (rule tg.trsm_result [where rl = rl and r = r and bd = bd and sz = sz and v = v and ua = u and u = w and other = other and alpha = alpha
        and side = side and uplo = uplo and diag = diag and lda = lda and A = A and m = m, OF ready assms(3-6,8-15) L, OF d])
    show ?thesis if m': "trsm (\<lambda>k. gemm (select_gemm (rl k) ph v sz u other) (r k) ph bd sz) r1 r2 r3 ph w tmp1 tmp2 side uplo trans0 diag
           M N alpha A lda B ldb m = Inr m'"
        "trsm_solution (tolower side = CHR ''l'')
           (mat_op (tolower trans0 = CHR ''t'') (mat_tri (tolower diag = CHR ''u'') (tolower uplo = CHR ''u'')
             (read_matrix m A (if tolower side = CHR ''l'' then M else N) (if tolower side = CHR ''l'' then M else N) lda)))
           M N alpha (read_matrix m' B M N ldb) (read_matrix m B M N ldb)"
        "\<And>d. fst d \<notin> {tmp1, tmp2} \<Longrightarrow> d \<notin> b_cells B M N ldb \<Longrightarrow> m' d = m d" for m'
      unfolding trsm_triangle_def by (intro exI conjI allI impI, rule m'(1), rule m'(2), rule m'(3))
  qed
qed

text \<open>C2: \<open>_trsm\<close> solves the triangular system: afterwards \<open>B\<close> holds the \<open>X\<close> with \<open>op(A) * X = alpha * B\<close> on the left
  side and \<open>X * op(A) = alpha * B\<close> on the right side, for both triangles, both transpositions, every size and every
  leading dimension, and nothing but \<open>B\<close> and the two temporaries has changed, the padding between the columns of \<open>B\<close>
  included. The diagonal of \<open>A\<close> must not have a zero; when the caller declares it to be one, it must be stored as one.\<close>

theorem trsm_solves:
  fixes m :: "'v::field mem"
  assumes "\<forall>k. is_run (rl k)" "\<forall>k i. is_run (r k i)" "is_run r1" "is_run r2" "is_run r3" "0 < ph_work_group_size ph" "modelled_build bd sz"
    and "0 < M" "0 < N" "0 < lda" "M \<le> ldb" "columns_fit B M ldb N"
    and "it_buffer A \<noteq> it_buffer B" "{tmp1, tmp2} \<inter> {it_buffer A, it_buffer B} = {}" "tmp1 \<noteq> tmp2"
    and "trsm_letters side uplo trans0 diag"
    and "trsm_diagonal_ok diag (if tolower side = CHR ''l'' then M else N) A lda m"
  shows "\<exists>m'. trsm (\<lambda>k. gemm (select_gemm (rl k) ph v sz u other) (r k) ph bd sz) r1 r2 r3 ph w tmp1 tmp2 side uplo trans0 diag
       M N alpha A lda B ldb m = Inr m' \<and>
     trsm_solution (tolower side = CHR ''l'')
       (mat_op (tolower trans0 = CHR ''t'') (trsm_triangle uplo diag (if tolower side = CHR ''l'' then M else N) A lda m))
       M N alpha (read_matrix m' B M N ldb) (read_matrix m B M N ldb) \<and>
     (\<forall>d. fst d \<notin> {tmp1, tmp2} \<longrightarrow> d \<notin> b_cells B M N ldb \<longrightarrow> m' d = m d)"
  by (rule trsm_model_result [OF assms])

lemma tolower_trsm_samples: "tolower (CHR ''L'') = CHR ''l''" "tolower (CHR ''l'') = CHR ''l''" "tolower (CHR ''u'') = CHR ''u''"
  by code_simp+

lemma sample_trsm:
  "\<forall>k::nat. is_run (seq_run (8::real))" "\<forall>k i :: nat. is_run (seq_run ())" "trsm_letters (CHR ''L'') (CHR ''l'') (CHR ''n'') (CHR ''N'')"
  "0 < ph_work_group_size sample_ph" "modelled_build arm_build 4" "0 < (2::nat)" "0 < (1::nat)" "0 < (2::nat)" "2 \<le> (2::nat)"
  "columns_fit (sample_it b) 2 2 1" "it_buffer (sample_it 1) \<noteq> it_buffer (sample_it 2)"
  "{8, 9} \<inter> {it_buffer (sample_it 1), it_buffer (sample_it 2)} = {}" "8 \<noteq> (9::nat)"
  by (simp_all add: modelled_build_def arm_build_def trsm_letters_def tolower_samples tolower_trsm_samples columns_fit_def sample_it_def
      make_sycl_iterator_buffer_def)

lemmas sample_runs = sample_trsm(1,2) is_run_seq [of "8::real"] is_run_seq [of "()"] is_run_seq [of "()"] sample_trsm(4-13)

lemma char_differs: "(CHR ''n'' = CHR ''t'') = False"
  by simp

lemmas sample_letters = tolower_samples tolower_trsm_samples mat_op_def simp_thms if_True if_False char_differs

lemma trsm_solves_witness:
  "\<exists>m'. trsm (\<lambda>k. gemm (select_gemm (seq_run 8) sample_ph False 4 (\<lambda>_. 7) (\<lambda>_ m. m)) (\<lambda>_. seq_run ()) sample_ph arm_build 4)
       (seq_run 8) (seq_run ()) (seq_run ()) sample_ph 5 8 9 (CHR ''L'') (CHR ''l'') (CHR ''n'') (CHR ''N'') 2 1 (2 :: real)
       (sample_it 1) 2 (sample_it 2) 2 real_mem = Inr m' \<and> m' (2, 0) = 4 \<and> m' (2, 1) = - 1 / 2"
proof -
  have diag: "trsm_diagonal_ok (CHR ''N'') (if tolower (CHR ''L'') = CHR ''l'' then 2 else 1) (sample_it 1) 2 real_mem"
    by (simp add: trsm_diagonal_ok_def tolower_samples tolower_trsm_samples read_matrix_def real_mem_def)
  obtain m' where m': "trsm (\<lambda>k. gemm (select_gemm (seq_run 8) sample_ph False 4 (\<lambda>_. 7) (\<lambda>_ m. m)) (\<lambda>_. seq_run ()) sample_ph arm_build 4)
       (seq_run 8) (seq_run ()) (seq_run ()) sample_ph 5 8 9 (CHR ''L'') (CHR ''l'') (CHR ''n'') (CHR ''N'') 2 1 (2 :: real)
       (sample_it 1) 2 (sample_it 2) 2 real_mem = Inr m'"
    "trsm_solution True (trsm_triangle (CHR ''l'') (CHR ''N'') 2 (sample_it 1) 2 real_mem) 2 1 2
       (read_matrix m' (sample_it 2) 2 1 2) (read_matrix real_mem (sample_it 2) 2 1 2)"
    using trsm_solves [where rl = "\<lambda>_. seq_run 8" and r = "\<lambda>_ _. seq_run ()" and v = False and u = "\<lambda>_. 7" and other = "\<lambda>_ m. m"
        and w = 5 and alpha = 2, OF sample_runs sample_trsm(3) diag, unfolded sample_letters]
    by (elim exE conjE) (rule that)
  have eq: "trsm_triangle (CHR ''l'') (CHR ''N'') 2 (sample_it 1) 2 real_mem i 0 * m' (2, 0)
      + trsm_triangle (CHR ''l'') (CHR ''N'') 2 (sample_it 1) 2 real_mem i 1 * m' (2, 1) = 2 * real_mem (2, int i)" if "i < 2" for i
    using m'(2) that by (auto simp: trsm_solution_def read_matrix_def numeral_2_eq_2)
  have "m' (2, 0) = 4" "m' (2, 0) * 2 + m' (2, 1) * 4 = 6"
    using eq [of 0] eq [of 1]
    by (simp_all add: trsm_triangle_def mat_tri_def read_matrix_def real_mem_def tolower_samples tolower_trsm_samples)
  then show ?thesis using m'(1) by simp
qed




text \<open>A one by one system with a unit diagonal.\<close>

lemma inverter_unit:
  fixes m :: "'v::field mem" and u :: 'v and lda :: nat
  assumes r: "is_run r" and bufs: "it_buffer A \<noteq> it_buffer invA"
  defines "t \<equiv> make_diag_blocks_inverter True False 16 (make_matrix_view col_major A 1 1 lda) (make_matrix_view col_major invA 16 16 lda)"
  shows "db_execute r u t 16 (roundUp 1 16 div 16 * 16) m (op_cell_of False invA 16 0 0) = m (op_cell_of False A lda 0 0)"
    and "fst d \<noteq> it_buffer invA \<Longrightarrow> db_execute r u t 16 (roundUp 1 16 div 16 * 16) m d = m d"
proof -
  have t: "db_UnitDiag t = True" "db_Upper t = False" "db_BlockSize t = 16" "db_N t = 1" "db_lda t = lda"
    "mv_get_pointer (db_A t) = (it_buffer A, it_offset A)" "mv_get_pointer (db_invA t) = (it_buffer invA, it_offset invA)"
    by (simp_all add: t_def make_diag_blocks_inverter_def make_matrix_view_def MatrixView_of_iter_def make_MatrixView_def
      get_range_accessor_def get_range_accessor_sized_def mv_get_pointer_eq)
  have n: "roundUp 1 16 div 16 = 1" by (simp add: roundUp_def)
  let ?m = "db_execute r u t 16 (1 * 16) m"
  note run = db_execute_result [OF r, where t = t and n = 1 and u = u and m = m, unfolded t]
  have "db_solution t (db_diag t 0 m) (\<lambda>i j. ?m (db_inv_cell t 0 i j))"
    by (rule run(1)) (use bufs in simp_all)
  then have "?m (db_inv_cell t 0 0 0) = db_diag t 0 m 0 0"
    unfolding db_solution_def t by (elim allE [where x = 0]) simp
  moreover have "db_inv_cell t 0 0 0 = op_cell_of False invA 16 0 0"
    by (simp add: db_inv_cell_def t op_cell_of_def db_destBlockOffset_eq)
  moreover have "db_diag t 0 m 0 0 = m (op_cell_of False A lda 0 0)"
    by (simp add: db_diag_def db_elem_def t db_in_range_def db_srcBlockOffset_def op_cell_of_def)
  ultimately show "db_execute r u t 16 (roundUp 1 16 div 16 * 16) m (op_cell_of False invA 16 0 0) = m (op_cell_of False A lda 0 0)"
    by (simp only: n)
  show "fst d \<noteq> it_buffer invA \<Longrightarrow> db_execute r u t 16 (roundUp 1 16 div 16 * 16) m d = m d"
    unfolding n by (rule run(2)) (use bufs in auto)
qed

text \<open>C16: with a unit diagonal the stored diagonal should not matter. \<open>_trsm\<close> reads it and multiplies by it: for a
  one by one system the result is \<open>alpha * a * b\<close> for the stored element \<open>a\<close>, and not \<open>alpha * b\<close>.\<close>

theorem trsm_unit_diagonal_used:
  fixes m :: "'v::field mem"
  assumes runs: "\<forall>k. is_run (rl k)" "\<forall>k i. is_run (r k i)" "is_run r1" "is_run r2" "is_run r3" "0 < ph_work_group_size ph" "modelled_build bd sz"
    and sizes: "0 < lda" "1 \<le> ldb" "columns_fit B 1 ldb 1"
    and bufs: "it_buffer A \<noteq> it_buffer B" "{tmp1, tmp2} \<inter> {it_buffer A, it_buffer B} = {}" "tmp1 \<noteq> tmp2"
  shows "\<exists>m'. trsm (\<lambda>k. gemm (select_gemm (rl k) ph v sz u other) (r k) ph bd sz) r1 r2 r3 ph w tmp1 tmp2
       (CHR ''l'') (CHR ''l'') (CHR ''n'') (CHR ''u'') 1 1 alpha A lda B ldb m = Inr m' \<and>
     read_matrix m' B 1 1 ldb 0 0 = alpha * read_matrix m A 1 1 lda 0 0 * read_matrix m B 1 1 ldb 0 0"
proof -
  let ?call = "\<lambda>k. gemm (select_gemm (rl k) ph v sz u other) (r k) ph bd sz :: char \<Rightarrow> _"
  define invA where "invA = make_sycl_iterator_buffer tmp1 (roundUp 1 16 * 16)"
  define X where "X = make_sycl_iterator_buffer tmp2 1"
  define m1 where "m1 = device_fill invA 0 (roundUp 1 16 * 16) m"
  define m2 where "m2 = db_execute r1 w (make_diag_blocks_inverter True False 16 (make_matrix_view col_major A 1 1 lda)
      (make_matrix_view col_major invA 16 16 lda)) 16 (roundUp 1 16 div 16 * 16) m1"
  define m3 where "m3 = copy r2 ph 1 B 1 X 1 m2"
  have its: "it_buffer invA = tmp1" "it_offset invA = 0" "it_buffer X = tmp2" "it_offset X = 0" "it_count X = 1"
    by (simp_all add: invA_def X_def make_sycl_iterator_buffer_def)
  have letters: "tolower (CHR ''l'') \<in> {CHR ''l'', CHR ''r''}" "tolower (CHR ''l'') \<in> {CHR ''u'', CHR ''l''}"
    "tolower (CHR ''n'') \<in> {CHR ''n'', CHR ''t''}" "tolower (CHR ''u'') \<in> {CHR ''u'', CHR ''n''}"
    by (simp_all add: tolower_samples tolower_trsm_samples)
  have run: "trsm call r1 r2 r3 ph w tmp1 tmp2 (CHR ''l'') (CHR ''l'') (CHR ''n'') (CHR ''u'') 1 1 alpha A lda B ldb m =
      map_sum id (copy r3 ph 1 X 1 B 1) (trsm_left_down call False 1 1 alpha A lda B ldb invA X ldb 0 m3)" for call
    using trsm_unfold [where M = 1 and N = 1, OF _ _ sizes(1) _ letters, where ldb = ldb and ?tmp1.0 = tmp1 and ?tmp2.0 = tmp2 and m = m and A = A
        and B = B and u = w and call = call and ph = ph and alpha = alpha and ?r1.0 = r1 and ?r2.0 = r2 and ?r3.0 = r3] sizes(2)
    by (simp add: tolower_samples tolower_trsm_samples invA_def X_def m1_def m2_def m3_def)
  have ready: "(\<forall>k. is_run (rl k)) \<and> (\<forall>k i. is_run (r k i)) \<and> 0 < ph_work_group_size ph \<and> modelled_build bd sz"
    using runs by blast
  have bufs': "tmp1 \<noteq> it_buffer A" "tmp1 \<noteq> it_buffer B" "tmp2 \<noteq> it_buffer A" "tmp2 \<noteq> it_buffer B" using bufs(2) by auto
  have B: "0 \<le> it_offset B" "it_offset B + 1 \<le> int (it_count B)" using sizes(3) by (simp_all add: columns_fit_def)
  have fit: "sys_fits True X ldb 1 1" using sizes(2) by (simp add: sys_fits_def columns_fit_def its)
  obtain m4 where m4: "sys_gemm ?call True False 0 1 1 1 alpha invA 16 B 0 X ldb m3 = Inr m4"
    "m4 (tmp2, 0) = alpha * (m3 (op_cell_of False invA 16 0 0) * m3 (it_buffer B, it_offset B))"
    using tg.sys_gemm_result [OF ready, where left = True and ?n1.0 = 1 and C = 1 and ?n2.0 = 1 and W = X and Mat = invA and V = B and a = alpha
        and ld = ldb and tr = False and k = 0 and ldm = 16 and beta = 0 and m = m3 and v = v and u = u and other = other, OF _ _ fit] bufs bufs'
    by (auto simp: its sys_cell_def)
  have inv: "m3 (op_cell_of False invA 16 0 0) = m (op_cell_of False A lda 0 0)"
  proof -
    have "m3 (op_cell_of False invA 16 0 0) = m2 (op_cell_of False invA 16 0 0)"
      unfolding m3_def by (rule copy_unit(2) [OF runs(4,6)]) (use B bufs bufs' its in \<open>simp_all add: op_cell_of_def\<close>)
    also have "\<dots> = m1 (op_cell_of False A lda 0 0)"
      unfolding m2_def by (rule inverter_unit(1) [OF runs(3)]) (use bufs' its in simp)
    also have "\<dots> = m (op_cell_of False A lda 0 0)"
      using bufs' by (simp add: m1_def device_fill_def op_cell_of_def its)
    finally show ?thesis .
  qed
  have B3: "m3 (it_buffer B, it_offset B) = m (it_buffer B, it_offset B)"
  proof -
    have "m3 (it_buffer B, it_offset B) = m2 (it_buffer B, it_offset B)"
      unfolding m3_def by (rule copy_unit(2) [OF runs(4,6)]) (use B bufs bufs' its in simp_all)
    also have "\<dots> = m1 (it_buffer B, it_offset B)"
      unfolding m2_def by (rule inverter_unit(2) [OF runs(3)]) (use bufs' its in simp_all)
    also have "\<dots> = m (it_buffer B, it_offset B)"
      using bufs' by (simp add: m1_def device_fill_def its)
    finally show ?thesis .
  qed
  have "trsm_left_down ?call False 1 1 alpha A lda B ldb invA X ldb 0 m3 = Inr m4"
    using m4(1) by (subst trsm_left_down.simps) (simp add: sys_gemm_def after_gemm_def trsm_blockSize_def it_plus_0)
  moreover have "copy r3 ph 1 X 1 B 1 m4 (it_buffer B, it_offset B + int 0) = m4 (it_buffer X, it_offset X + int 0)"
    by (rule copy_unit(1) [OF runs(5,6)]) (use B bufs' its in simp_all)
  ultimately show ?thesis
    unfolding run using m4(2) [unfolded inv B3] by (simp add: its read_matrix_def op_cell_of_def mult_ac)
qed

lemma trsm_unit_diagonal_used_witness:
  "\<exists>m'. trsm (\<lambda>k. gemm (select_gemm (seq_run 8) sample_ph False 4 (\<lambda>_. 7) (\<lambda>_ m. m)) (\<lambda>_. seq_run ()) sample_ph arm_build 4)
       (seq_run 8) (seq_run ()) (seq_run ()) sample_ph 5 8 9 (CHR ''l'') (CHR ''l'') (CHR ''n'') (CHR ''u'') 1 1 (2 :: real)
       (it_plus (sample_it 1) 2) 1 (sample_it 2) 1 real_mem = Inr m' \<and> m' (2, 0) = 2 * 3 * 2"
proof -
  have pre: "columns_fit (sample_it 2) 1 1 1" "it_buffer (it_plus (sample_it 1) 2) \<noteq> it_buffer (sample_it 2)"
    "{8, 9} \<inter> {it_buffer (it_plus (sample_it 1) 2), it_buffer (sample_it 2)} = {}"
    by (simp_all add: columns_fit_def sample_it_def make_sycl_iterator_buffer_def it_plus_def)
  have "\<exists>m'. trsm (\<lambda>k. gemm (select_gemm (seq_run 8) sample_ph False 4 (\<lambda>_. 7) (\<lambda>_ m. m)) (\<lambda>_. seq_run ()) sample_ph arm_build 4)
       (seq_run 8) (seq_run ()) (seq_run ()) sample_ph 5 8 9 (CHR ''l'') (CHR ''l'') (CHR ''n'') (CHR ''u'') 1 1 (2 :: real)
       (it_plus (sample_it 1) 2) 1 (sample_it 2) 1 real_mem = Inr m' \<and>
     read_matrix m' (sample_it 2) 1 1 1 0 0 = 2 * read_matrix real_mem (it_plus (sample_it 1) 2) 1 1 1 0 0 * read_matrix real_mem (sample_it 2) 1 1 1 0 0"
    by (rule trsm_unit_diagonal_used [where rl = "\<lambda>_. seq_run 8" and r = "\<lambda>_ _. seq_run ()", OF sample_trsm(1,2) is_run_seq is_run_seq is_run_seq
          sample_trsm(4,5) zero_less_one order_refl pre sample_trsm(13)])
  moreover have "read_matrix m' (sample_it 2) 1 1 1 0 0 = m' (2, 0)" for m' :: "real mem"
    by (simp add: read_matrix_def)
  moreover have "read_matrix real_mem (it_plus (sample_it 1) 2) 1 1 1 0 0 = 3"
    by (simp add: read_matrix_def real_mem_def it_plus_def sample_it_def make_sycl_iterator_buffer_def)
  ultimately show ?thesis by (simp add: real_mem_def)
qed

end
