(* ===== verification/Ger_Row.thy ===== *)
theory Ger_Row
  imports Ger
begin

text \<open>
  What a launch of \<open>GerRow\<close> with local memory does (\<^verbatim>\<open>src/operations/blas2/ger.hpp\<close>): the elements it adds the update to, for
  every size, launch and order of the items and groups. A rank one update covers the matrix. The loop of the rank two
  update moves on by \<open>local_memory_size\<close> rows after it has handled half as many, and leaves the others out.
\<close>

section \<open>One block\<close>

definition gw_value :: "'v::{plus, times} Ger \<Rightarrow> 'v mem \<Rightarrow> nat \<times> nat \<Rightarrow> 'v" where
  "gw_value t m = (\<lambda>(i, j).
     if gr_Single t then gr_scalar t * gr_x1 t m i * gr_x2 t m j
     else gr_scalar t * gr_x1 t m i * gr_x2 t m j + gr_scalar t * gr_x2 t m i * gr_x1 t m j)"

text \<open>Local memory holds the scaled elements of the rows from \<open>rowid\<close> on.\<close>

definition gw_shr_ok :: "'v::times Ger \<Rightarrow> nd_item \<Rightarrow> nat \<Rightarrow> 'v mem \<Rightarrow> (nat \<Rightarrow> 'v) \<Rightarrow> bool" where
  "gw_shr_ok t it rowid m f \<longleftrightarrow> (\<forall>row < gw_blqSz t it rowid.
     f row = gr_scalar t * gr_x1 t m (rowid + row) \<and>
     (gr_Single t \<or> f (gr_local_memory_size t div 2 + row) = gr_scalar t * gr_x2 t m (rowid + row)))"

lemma gw_blqSz_eq: "gw_blqSz t it rowid = min (gc_step t) (gw_lst_row t it - rowid)"
  by (simp add: gw_blqSz_def gc_step_def)

lemma gw_load_ok:
  fixes gs :: "'v::times gr_state"
  assumes L: "0 < nd_local_range it" and xs: "distinct xs" "set xs = {..<nd_local_range it}"
  obtains f where "fold (gw_load t it rowid) xs gs = gs\<lparr>gs_local := f\<rparr>" "gw_shr_ok t it rowid (gs_mem gs) f"
proof -
  let ?L = "nd_local_range it" and ?n = "gw_blqSz t it rowid" and ?s = "gr_local_memory_size t div 2"
  let ?rows = "\<lambda>l. strided l ?n ?L"
  have rows: "set (?rows l) = {c. c < ?n \<and> c mod ?L = l}" if "l < ?L" for l
    using that L by (auto simp: set_strided intro: mod_less_eq_dividend)
  have n: "?n \<le> ?s" if "\<not> gr_Single t" using that by (simp add: gw_blqSz_def)
  let ?W = "\<lambda>l. {c. c < ?n \<and> c mod ?L = l} \<union>
    (if gr_Single t then {} else {c. ?s \<le> c \<and> c - ?s < ?n \<and> (c - ?s) mod ?L = l})"
  let ?v = "\<lambda>(l :: nat) m c. if c < ?n then gr_scalar t * gr_x1 t m (rowid + c)
    else gr_scalar t * gr_x2 t m (rowid + (c - ?s))"
  let ?step = "\<lambda>l m f. if gr_Single t then
        fold (\<lambda>row f. f(row := gr_scalar t * gr_x1 t m (rowid + row))) (?rows l) f
      else fold (\<lambda>row f. f(row := gr_scalar t * gr_x1 t m (rowid + row),
                            ?s + row := gr_scalar t * gr_x2 t m (rowid + row))) (?rows l) f"
  have step: "?step l m f c = (if c \<in> ?W l then ?v l m c else f c)" if l: "l < ?L" for l m f c
  proof (cases "gr_Single t")
    case True
    then show ?thesis using rows [OF l] by (simp add: fold_store)
  next
    case False
    have "\<forall>x \<in> set (?rows l). x < ?s" using rows [OF l] n [OF False] by auto
    then show ?thesis using False rows [OF l] n [OF False] by (auto simp: fold_store_two)
  qed
  have disj: "?W k \<inter> ?W l = {}" if "k \<noteq> l" for k l using that n by auto
  obtain f where f: "fold (gw_load t it rowid) xs gs = gs\<lparr>gs_local := f\<rparr>"
    and hit: "\<And>l c. l < ?L \<Longrightarrow> c \<in> ?W l \<Longrightarrow> f c = ?v l (gs_mem gs) c"
    by (rule phase_local_cells [where upd = "gw_load t it rowid" and W = ?W and n = ?L and step = ?step and v = ?v
          and gs = gs, OF _ _ _ disj xs])
      (auto simp: gw_load_def Let_def step simp del: Un_iff)
  have lt: "c mod ?L < ?L" for c using L by simp
  have "gw_shr_ok t it rowid (gs_mem gs) f"
    unfolding gw_shr_ok_def
  proof (intro allI impI)
    fix c assume c: "c < ?n"
    have 1: "c \<in> ?W (c mod ?L)" using c by simp
    have 2: "?s + c \<in> ?W (c mod ?L)" "\<not> ?s + c < ?n" if "\<not> gr_Single t" using that c n by auto
    show "f c = gr_scalar t * gr_x1 t (gs_mem gs) (rowid + c) \<and>
      (gr_Single t \<or> f (?s + c) = gr_scalar t * gr_x2 t (gs_mem gs) (rowid + c))"
      using hit [OF lt 1] hit [OF lt 2(1)] 2(2) c by auto
  qed
  then show thesis using that f by blast
qed

text \<open>One column of a block.\<close>

lemma fold_col_added:
  fixes w :: "nat \<Rightarrow> 'v::plus"
  assumes wf: "gr_wf t" and j: "j < mv_sizeC (gr_lhs t)" and n: "n = 0 \<or> c + n \<le> mv_sizeR (gr_lhs t)"
    and v: "\<And>k. k < n \<Longrightarrow> w k = v (c + k, j)"
  shows "added (gr_cells t) {(i, j) |i. c \<le> i \<and> i < c + n \<and> gr_selects t i j} v m
    (fold (\<lambda>k m. if gr_selects t (c + k) j then gr_add t (c + k) j (w k) m else m) [0..<n] m)"
proof -
  let ?S = "\<lambda>k. if gr_selects t (c + k) j then {(c + k, j)} else {}"
  have "added (gr_cells t) (\<Union>k \<in> set [0..<n]. ?S k) v m
    (fold (\<lambda>k m. if gr_selects t (c + k) j then gr_add t (c + k) j (w k) m else m) [0..<n] m)"
    by (rule fold_added [OF gr_cells_inj [OF wf], where X = "{..<n}" and ?m0.0 = m])
      (use j n v in \<open>auto simp: added_def gr_add_def gr_cells_def gr_all_def\<close>)
  moreover have "(\<Union>k \<in> set [0..<n]. ?S k) = {(i, j) |i. c \<le> i \<and> i < c + n \<and> gr_selects t i j}"
  proof (intro subset_antisym subsetI)
    fix p assume "p \<in> {(i, j) |i. c \<le> i \<and> i < c + n \<and> gr_selects t i j}"
    then obtain i where i: "p = (i, j)" "c \<le> i" "i < c + n" "gr_selects t i j" by blast
    then have "p = (c + (i - c), j)" "i - c < n" "gr_selects t (c + (i - c)) j" by auto
    then show "p \<in> (\<Union>k \<in> set [0..<n]. ?S k)" by auto
  qed (auto split: if_splits)
  ultimately show ?thesis by simp
qed

text \<open>One item in a block.\<close>

definition gw_item_part :: "'v Ger \<Rightarrow> nd_item \<Rightarrow> nat \<Rightarrow> nat \<Rightarrow> (nat \<times> nat) set" where
  "gw_item_part t it rowid l =
     {(i, j). j \<in> set (strided (gw_frs_col t it l) (gw_lst_col t it l) (nd_local_range it)) \<and>
              rowid \<le> i \<and> i < rowid + gw_blqSz t it rowid \<and> gr_selects t i j}"

lemma gw_item_part_sub: "0 < nd_local_range it \<Longrightarrow> gw_item_part t it rowid l \<subseteq> gr_all t"
  by (auto simp: gw_item_part_def gr_all_def set_strided gw_lst_col_def gw_blqSz_def gw_lst_row_def)

text \<open>What \<open>gw_update\<close> does to memory, with local memory as an argument.\<close>

definition gw_cols :: "'v::{plus, times} Ger \<Rightarrow> nd_item \<Rightarrow> nat \<Rightarrow> (nat \<Rightarrow> 'v) \<Rightarrow> nat \<Rightarrow> 'v mem \<Rightarrow> 'v mem" where
  "gw_cols t it rowid f l m = gs_mem (gw_update t it rowid l \<lparr>gs_mem = m, gs_local = f, gs_priv = \<lambda>_. ()\<rparr>)"

lemma gw_update_eq: "gw_update t it rowid l gs = gs\<lparr>gs_mem := gw_cols t it rowid (gs_local gs) l (gs_mem gs)\<rparr>"
  by (simp add: gw_update_def gw_cols_def Let_def)

lemma gw_cols_added:
  fixes t :: "'v::{plus, times} Ger"
  assumes wf: "gr_wf t" and shr: "gw_shr_ok t it rowid m0 f" and L: "0 < nd_local_range it"
    and m: "\<And>c. c \<notin> gr_cells t ` gr_all t \<Longrightarrow> m c = m0 c"
  shows "added (gr_cells t) (gw_item_part t it rowid l) (gw_value t m0) m (gw_cols t it rowid f l m)"
proof -
  let ?cols = "strided (gw_frs_col t it l) (gw_lst_col t it l) (nd_local_range it)"
  let ?n = "gw_blqSz t it rowid" and ?s = "gr_local_memory_size t div 2"
  let ?S = "\<lambda>j. {(i, j) |i. rowid \<le> i \<and> i < rowid + ?n \<and> gr_selects t i j}"
  have n: "?n = 0 \<or> rowid + ?n \<le> mv_sizeR (gr_lhs t)"
    by (auto simp: gw_blqSz_def gw_lst_row_def)
  have col: "j < mv_sizeC (gr_lhs t)" if "j \<in> set ?cols" for j
    using that L by (simp add: set_strided gw_lst_col_def)
  have sub: "?S j \<subseteq> gr_all t" if "j \<in> set ?cols" for j
    using col [OF that] n by (auto simp: gr_all_def)
  have disj: "?S j \<inter> ?S k = {}" if "j \<noteq> k" for j k using that by auto
  have part: "(\<Union>j \<in> set ?cols. ?S j) = gw_item_part t it rowid l" by (auto simp: gw_item_part_def)
  note go = fold_added [OF gr_cells_inj [OF wf], where X = "set ?cols" and ?m0.0 = m0 and S = ?S, OF _ sub disj
      distinct_strided subset_refl m, unfolded part]
  show ?thesis
  proof (cases "gr_Single t")
    case True
    have eq: "gw_cols t it rowid f l m = fold (\<lambda>j m. fold (\<lambda>row m'. if gr_selects t (rowid + row) j
        then gr_add t (rowid + row) j (f row * gr_x2 t m j) m' else m') [0..<?n] m) ?cols m"
      using True by (simp add: gw_cols_def gw_update_def Let_def)
    have w: "f k * gr_x2 t m' j = gw_value t m0 (rowid + k, j)"
      if "k < ?n" "\<And>c. c \<notin> gr_cells t ` gr_all t \<Longrightarrow> m' c = m0 c" for j k m'
      using shr True gr_reads [OF wf, of m' m0, OF that(2)] that(1) by (simp add: gw_value_def gw_shr_ok_def)
    show ?thesis
      unfolding eq
      by (rule go, (rule fold_col_added [OF wf col n], assumption, rule w, assumption+)[]) assumption+
  next
    case False
    have eq: "gw_cols t it rowid f l m = fold (\<lambda>j m. fold (\<lambda>row m'. if gr_selects t (rowid + row) j
        then gr_add t (rowid + row) j (f row * gr_x2 t m j + f (?s + row) * gr_x1 t m j) m' else m') [0..<?n] m) ?cols m"
      using False by (simp add: gw_cols_def gw_update_def Let_def)
    have w: "f k * gr_x2 t m' j + f (?s + k) * gr_x1 t m' j = gw_value t m0 (rowid + k, j)"
      if "k < ?n" "\<And>c. c \<notin> gr_cells t ` gr_all t \<Longrightarrow> m' c = m0 c" for j k m'
      using shr False gr_reads [OF wf, of m' m0, OF that(2)] that(1) by (simp add: gw_value_def gw_shr_ok_def)
    show ?thesis
      unfolding eq
      by (rule go, (rule fold_col_added [OF wf col n], assumption, rule w, assumption+)[]) assumption+
  qed
qed

section \<open>The blocks of a group\<close>

definition gw_block_part :: "'v Ger \<Rightarrow> nd_item \<Rightarrow> nat \<Rightarrow> (nat \<times> nat) set" where
  "gw_block_part t it rowid = (\<Union>l < nd_local_range it. gw_item_part t it rowid l)"

lemma gw_block_added:
  fixes t :: "'v::{plus, times} Ger"
  assumes wf: "gr_wf t" and L: "0 < nd_local_range it"
    and xs: "distinct xs" "set xs = {..<nd_local_range it}" and ys: "distinct ys" "set ys = {..<nd_local_range it}"
    and disj: "\<And>k l. k < nd_local_range it \<Longrightarrow> l < nd_local_range it \<Longrightarrow> k \<noteq> l \<Longrightarrow>
        gw_item_part t it rowid k \<inter> gw_item_part t it rowid l = {}"
    and m: "\<And>c. c \<notin> gr_cells t ` gr_all t \<Longrightarrow> gs_mem gs c = m0 c"
  shows "added (gr_cells t) (gw_block_part t it rowid) (gw_value t m0) (gs_mem gs)
    (gs_mem (fold (gw_update t it rowid) ys (fold (gw_load t it rowid) xs gs)))"
proof -
  obtain f where f: "fold (gw_load t it rowid) xs gs = gs\<lparr>gs_local := f\<rparr>" "gw_shr_ok t it rowid (gs_mem gs) f"
    by (rule gw_load_ok [OF L xs])
  have shr: "gw_shr_ok t it rowid m0 f"
    using f(2) gr_reads [OF wf, of "gs_mem gs" m0, OF m] by (simp add: gw_shr_ok_def)
  have up: "fold (gw_update t it rowid) zs gs' = gs'\<lparr>gs_mem := fold (gw_cols t it rowid (gs_local gs')) zs (gs_mem gs')\<rparr>"
    for zs gs' by (induction zs arbitrary: gs') (simp_all add: gw_update_eq)
  have "added (gr_cells t) (\<Union>l \<in> set ys. gw_item_part t it rowid l) (gw_value t m0) (gs_mem gs)
      (fold (gw_cols t it rowid f) ys (gs_mem gs))"
    by (rule fold_added [OF gr_cells_inj [OF wf], where X = "{..<nd_local_range it}" and ?m0.0 = m0 and
          S = "gw_item_part t it rowid" and step = "gw_cols t it rowid f"],
        (rule gw_cols_added [OF wf shr L], simp)[], rule gw_item_part_sub [OF L])
      (use disj ys m in simp_all)
  then show ?thesis by (simp add: f(1) up gw_block_part_def ys lessThan_def)
qed

lemma gw_blocks_added:
  fixes t :: "'v::{plus, times} Ger"
  assumes wf: "gr_wf t" and L: "0 < nd_local_range it"
    and ord: "\<And>k. distinct (ord k)" "\<And>k. set (ord k) = {..<nd_local_range it}"
    and items: "\<And>c k l. k < nd_local_range it \<Longrightarrow> l < nd_local_range it \<Longrightarrow> k \<noteq> l \<Longrightarrow>
        gw_item_part t it c k \<inter> gw_item_part t it c l = {}"
    and blocks: "\<And>c d. c \<in> set cs \<Longrightarrow> d \<in> set cs \<Longrightarrow> c \<noteq> d \<Longrightarrow> gw_block_part t it c \<inter> gw_block_part t it d = {}"
    and cs: "distinct cs"
    and m: "\<And>c. c \<notin> gr_cells t ` gr_all t \<Longrightarrow> gs_mem gs c = m0 c"
  shows "added (gr_cells t) (\<Union>c \<in> set cs. gw_block_part t it c) (gw_value t m0) (gs_mem gs)
    (gs_mem (run_phases ord k (concat (map (\<lambda>c. [gw_load t it c, gw_update t it c]) cs)) gs))"
  using blocks cs m
proof (induction cs arbitrary: gs k)
  case Nil
  then show ?case by simp
next
  case (Cons c cs)
  have sub: "gw_block_part t it d \<subseteq> gr_all t" for d
    using gw_item_part_sub [OF L] by (auto simp: gw_block_part_def)
  define gs' where "gs' = fold (gw_update t it c) (ord (Suc k)) (fold (gw_load t it c) (ord k) gs)"
  have one: "added (gr_cells t) (gw_block_part t it c) (gw_value t m0) (gs_mem gs) (gs_mem gs')"
    unfolding gs'_def by (rule gw_block_added [OF wf L ord ord items Cons.prems(3)])
  have out: "gs_mem gs' d = m0 d" if "d \<notin> gr_cells t ` gr_all t" for d
    using added_frame [OF one sub that] Cons.prems(3) [OF that] by simp
  have rest: "added (gr_cells t) (\<Union>d \<in> set cs. gw_block_part t it d) (gw_value t m0) (gs_mem gs')
    (gs_mem (run_phases ord (Suc (Suc k)) (concat (map (\<lambda>c. [gw_load t it c, gw_update t it c]) cs)) gs'))"
    by (rule Cons.IH [OF _ _ out]) (use Cons.prems(1,2) in auto)
  have "gw_block_part t it c \<inter> (\<Union>d \<in> set cs. gw_block_part t it d) = {}"
    using Cons.prems(1,2) by fastforce
  moreover have "inj_on (gr_cells t) (gw_block_part t it c \<union> (\<Union>d \<in> set cs. gw_block_part t it d))"
    by (rule inj_on_subset [OF gr_cells_inj [OF wf]]) (use sub in blast)
  ultimately show ?case using added_trans [OF one rest] by (simp add: gs'_def)
qed

section \<open>The geometry of the groups\<close>

text \<open>The rows a group reaches: of each block of \<open>local_memory_size\<close> rows, the first \<open>gc_step\<close>.\<close>

definition gw_reaches :: "'v Ger \<Rightarrow> nat \<Rightarrow> bool" where
  "gw_reaches t i \<longleftrightarrow> i mod gw_rowSz t mod gr_local_memory_size t < gc_step t"

definition gw_group_part :: "'v Ger \<Rightarrow> nd_item \<Rightarrow> (nat \<times> nat) set" where
  "gw_group_part t it =
     {(i, j). i < mv_sizeR (gr_lhs t) \<and> j < mv_sizeC (gr_lhs t) \<and> gr_selects t i j \<and> gw_reaches t i \<and>
              i div gw_rowSz t = gc_idWFR t it \<and> j div gw_dimWFC t it = gc_idWFC t it}"

lemma gw_group_part_sub: "gw_group_part t it \<subseteq> gr_all t"
  by (auto simp: gw_group_part_def gr_all_def)

lemma gw_dimWFC_props:
  assumes "0 < nd_local_range it" "0 < gr_nWG_col t" "gr_wf t"
  shows "nd_local_range it dvd gw_dimWFC t it" "0 < gw_dimWFC t it"
    and "mv_sizeC (gr_lhs t) \<le> gr_nWG_col t * gw_dimWFC t it"
  using padded_blocks [OF assms(1,2), of "mv_sizeC (gr_lhs t)"] assms(3)
  by (simp_all add: gw_dimWFC_def cdiv_def Let_def gr_wf_def)

lemma gw_rowSz_props:
  assumes "0 < gr_nWG_row t" "gr_wf t"
  shows "0 < gw_rowSz t" "mv_sizeR (gr_lhs t) \<le> gr_nWG_row t * gw_rowSz t"
proof -
  have eq: "gw_rowSz t = cdiv (mv_sizeR (gr_lhs t)) (gr_nWG_row t)" by (simp add: gw_rowSz_def cdiv_def)
  show "0 < gw_rowSz t" using assms by (simp add: eq cdiv_pos gr_wf_def)
  show "mv_sizeR (gr_lhs t) \<le> gr_nWG_row t * gw_rowSz t"
    using cdiv_covers [OF assms(1)] by (simp add: eq mult.commute)
qed

lemma gw_step_props:
  assumes "gr_wf t"
  shows "0 < gr_local_memory_size t" "gc_step t \<le> gr_local_memory_size t"
  using assms by (auto simp: gr_wf_def gc_step_def split: if_splits)

lemma gw_item_part_eq:
  assumes "gr_wf t" "0 < nd_local_range it" "0 < gr_nWG_col t" "l < nd_local_range it"
  shows "gw_item_part t it rowid l =
    {(i, j). j < mv_sizeC (gr_lhs t) \<and> j div gw_dimWFC t it = gc_idWFC t it \<and> j mod nd_local_range it = l \<and>
             rowid \<le> i \<and> i < rowid + gw_blqSz t it rowid \<and> gr_selects t i j}"
proof -
  note D = gw_dimWFC_props [OF assms(2,3,1)]
  show ?thesis
    unfolding gw_item_part_def gw_lst_col_def gw_frs_col_def cyclic_rows [OF assms(2) D(1,2) assms(4)] by auto
qed

lemma gw_block_part_eq:
  assumes "gr_wf t" "0 < nd_local_range it" "0 < gr_nWG_col t"
  shows "gw_block_part t it rowid =
    {(i, j). j < mv_sizeC (gr_lhs t) \<and> j div gw_dimWFC t it = gc_idWFC t it \<and>
             rowid \<le> i \<and> i < rowid + gw_blqSz t it rowid \<and> gr_selects t i j}"
  unfolding gw_block_part_def using assms(2) gw_item_part_eq [OF assms] by auto

text \<open>A stride of \<open>s\<close>, of which the first \<open>b\<close> are handled.\<close>

lemma strided_parts:
  fixes a i n s b :: nat
  assumes "0 < s" "b \<le> s"
  shows "(\<exists>c \<in> set (strided a n s). c \<le> i \<and> i < c + min b (n - c)) \<longleftrightarrow> a \<le> i \<and> i < n \<and> (i - a) mod s < b"
proof
  assume "\<exists>c \<in> set (strided a n s). c \<le> i \<and> i < c + min b (n - c)"
  then obtain c where c: "a \<le> c" "c < n" "c mod s = a mod s" "c \<le> i" "i < c + b" "i < n"
    using assms(1) by (auto simp: set_strided)
  obtain q where q: "c = a + s * q"
    using c(1,3) mod_eq_nat1E [OF c(3)] by (metis le_add_diff_inverse mod_eq_dvd_iff_nat dvdE)
  have "(i - a) mod s = (i - c + s * q) mod s" using c(4) q by (simp add: add.commute)
  also have "\<dots> = (i - c) mod s" by (rule mod_mult_self2)
  also have "\<dots> = i - c" using c(4,5) assms(2) by (intro mod_less) simp
  finally show "a \<le> i \<and> i < n \<and> (i - a) mod s < b" using c by simp
next
  assume i: "a \<le> i \<and> i < n \<and> (i - a) mod s < b"
  let ?c = "a + (i - a) div s * s"
  have c: "?c + (i - a) mod s = i" using i by simp
  then have "?c < n" using i by linarith
  then have "?c \<in> set (strided a n s)" using assms(1) by (simp add: set_strided)
  moreover have "?c \<le> i" "i < ?c + min b (n - ?c)" using i c by linarith+
  ultimately show "\<exists>c \<in> set (strided a n s). c \<le> i \<and> i < c + min b (n - c)" by blast
qed

lemma gw_rows_iff:
  assumes "0 < gw_rowSz t"
  shows "gw_frs_row t it \<le> i \<and> i < gw_lst_row t it \<longleftrightarrow> i < mv_sizeR (gr_lhs t) \<and> i div gw_rowSz t = gc_idWFR t it"
    and "i div gw_rowSz t = gc_idWFR t it \<Longrightarrow> i - gw_frs_row t it = i mod gw_rowSz t"
proof -
  have "i div gw_rowSz t = b \<longleftrightarrow> b * gw_rowSz t \<le> i \<and> i < b * gw_rowSz t + gw_rowSz t" for b
    using div_nat_eqI [of "gw_rowSz t" b i] dividend_less_div_times [OF assms, of i]
    by (auto simp: mult.commute)
  then show "gw_frs_row t it \<le> i \<and> i < gw_lst_row t it \<longleftrightarrow> i < mv_sizeR (gr_lhs t) \<and> i div gw_rowSz t = gc_idWFR t it"
    by (auto simp: gw_frs_row_def gw_lst_row_def)
  show "i div gw_rowSz t = gc_idWFR t it \<Longrightarrow> i - gw_frs_row t it = i mod gw_rowSz t"
    by (simp add: gw_frs_row_def minus_div_mult_eq_mod flip: minus_div_mult_eq_mod)
qed

lemma gw_blocks_cover:
  assumes wf: "gr_wf t" and L: "0 < nd_local_range it" and nr: "0 < gr_nWG_row t" and nc: "0 < gr_nWG_col t"
  shows "(\<Union>c \<in> set (strided (gw_frs_row t it) (gw_lst_row t it) (gr_local_memory_size t)). gw_block_part t it c)
       = gw_group_part t it"
proof -
  let ?cs = "strided (gw_frs_row t it) (gw_lst_row t it) (gr_local_memory_size t)"
  note rows = gw_rows_iff [OF gw_rowSz_props(1) [OF nr wf]]
  have "(\<exists>c \<in> set ?cs. c \<le> i \<and> i < c + gw_blqSz t it c) \<longleftrightarrow>
      i < mv_sizeR (gr_lhs t) \<and> i div gw_rowSz t = gc_idWFR t it \<and> gw_reaches t i" for i
    unfolding gw_blqSz_eq strided_parts [OF gw_step_props [OF wf]] gw_reaches_def using rows [where i = i and it = it] by auto
  then show ?thesis
    unfolding gw_block_part_eq [OF wf L nc] gw_group_part_def by auto
qed

lemma gw_blocks_disjoint:
  assumes wf: "gr_wf t" and L: "0 < nd_local_range it" and nc: "0 < gr_nWG_col t"
    and "c \<in> set (strided a n (gr_local_memory_size t))" "d \<in> set (strided a n (gr_local_memory_size t))" "c \<noteq> d"
  shows "gw_block_part t it c \<inter> gw_block_part t it d = {}"
proof -
  note st = gw_step_props [OF wf]
  have "\<not> (c \<le> i \<and> i < c + gr_local_memory_size t \<and> d \<le> i \<and> i < d + gr_local_memory_size t)" for i
    using strided_block_unique [OF st(1) assms(4,5)] assms(6) by blast
  then show ?thesis unfolding gw_block_part_eq [OF wf L nc] using st(2) by (fastforce simp: gw_blqSz_eq)
qed

text \<open>A group that skips has no selected element.\<close>

lemma gw_skip_empty:
  assumes "gr_wf t" "0 < nd_local_range it" "0 < gr_nWG_row t" "0 < gr_nWG_col t" "gw_skip t it"
  shows "gw_group_part t it = {}"
proof (rule ccontr)
  assume "gw_group_part t it \<noteq> {}"
  then obtain i j where ij: "i < mv_sizeR (gr_lhs t)" "j < mv_sizeC (gr_lhs t)" "gr_selects t i j"
    "i div gw_rowSz t = gc_idWFR t it" "j div gw_dimWFC t it = gc_idWFC t it"
    by (auto simp: gw_group_part_def)
  let ?D = "gw_dimWFC t it"
  have D: "0 < ?D" using gw_dimWFC_props(2) [OF assms(2,4,1)] .
  have "j = gc_idWFC t it * ?D + j mod ?D" "j mod ?D < ?D"
    using ij(5) D by (metis div_mult_mod_eq, simp)
  then have j: "gc_idWFC t it * ?D \<le> j" "j < gc_idWFC t it * ?D + ?D" by simp_all
  have i: "gw_frs_row t it \<le> i" "i < gw_lst_row t it"
    using gw_rows_iff(1) [OF gw_rowSz_props(1) [OF assms(3,1)], of it i] ij(1,4) by simp_all
  show False
    using assms(5) ij(3) i j unfolding gw_skip_def gr_selects_def by (auto split: if_splits)
qed

section \<open>A launch\<close>

lemma gw_group_added:
  fixes t :: "'v::{plus, times} Ger"
  assumes r: "is_run r" and wf: "gr_wf t" and L: "nd_local_range it = L" "0 < L" and nr: "0 < gr_nWG_row t" and nc: "0 < gr_nWG_col t"
    and m: "\<And>c. c \<notin> gr_cells t ` gr_all t \<Longrightarrow> m c = m0 c"
  shows "added (gr_cells t) (gw_group_part t it) (gw_value t m0) m (run_group r g L () (gw_phases t it) m)"
proof (cases "gw_skip t it")
  case True
  then show ?thesis
    using gw_skip_empty [OF wf _ nr nc True] L by (simp add: run_group_def gw_phases_def)
next
  case False
  have L': "0 < nd_local_range it" using L by simp
  let ?cs = "strided (gw_frs_row t it) (gw_lst_row t it) (gr_local_memory_size t)"
  let ?gs = "\<lparr>gs_mem = m, gs_local = local_init r g, gs_priv = \<lambda>_. ()\<rparr>"
  have items: "gw_item_part t it c k \<inter> gw_item_part t it c l = {}"
    if "k < nd_local_range it" "l < nd_local_range it" "k \<noteq> l" for c k l
    using that unfolding gw_item_part_eq [OF wf L' nc that(1)] gw_item_part_eq [OF wf L' nc that(2)] by auto
  have ord: "distinct (item_order r g k L)" "set (item_order r g k L) = {..<nd_local_range it}" for k
    using run_items [OF r] L by simp_all
  have "added (gr_cells t) (\<Union>c \<in> set ?cs. gw_block_part t it c) (gw_value t m0) (gs_mem ?gs)
    (gs_mem (run_phases (\<lambda>k. item_order r g k L) 0 (concat (map (\<lambda>c. [gw_load t it c, gw_update t it c]) ?cs)) ?gs))"
    by (rule gw_blocks_added [OF wf L' ord items gw_blocks_disjoint [OF wf L' nc] distinct_strided])
      (use m in simp_all)
  then show ?thesis
    using False unfolding gw_blocks_cover [OF wf L' nr nc] by (simp add: run_group_def gw_phases_def)
qed

lemma gw_groups:
  assumes wf: "gr_wf t" and L: "0 < L" and nr: "0 < gr_nWG_row t" and nc: "0 < gr_nWG_col t"
    and it: "\<And>g. nd_local_range (it g) = L" "\<And>g. nd_group (it g) = g"
  shows "(\<Union>g < gr_nWG_row t * gr_nWG_col t. gw_group_part t (it g)) = {(i, j). (i, j) \<in> gr_selected t \<and> gw_reaches t i}"
    and "g \<noteq> h \<Longrightarrow> gw_group_part t (it g) \<inter> gw_group_part t (it h) = {}"
proof -
  define nR nC where "nR = gr_nWG_row t" and "nC = gr_nWG_col t"
  define D R where "D = gw_dimWFC t (it 0)" and "R = gw_rowSz t"
  have D: "gw_dimWFC t (it g) = D" for g by (simp add: D_def gw_dimWFC_def it)
  have ids: "gc_idWFR t (it g) = g mod nR" "gc_idWFC t (it g) = g div nR" for g
    by (simp_all add: gc_idWFR_def gc_idWFC_def it nR_def)
  note Dp = gw_dimWFC_props [OF _ nc wf, where it = "it 0", unfolded it, OF L, folded D_def nC_def]
    and Rp = gw_rowSz_props [OF nr wf, folded R_def nR_def]
  have part: "gw_group_part t (it g) = {(i, j). (i, j) \<in> gr_selected t \<and> gw_reaches t i \<and> i div R = g mod nR \<and> j div D = g div nR}" for g
    by (auto simp: gw_group_part_def gr_selected_def D ids R_def)
  have "(\<Union>g < nR * nC. gw_group_part t (it g)) = {(i, j). (i, j) \<in> gr_selected t \<and> gw_reaches t i}"
  proof (intro subset_antisym subsetI)
    fix p assume "p \<in> {(i, j). (i, j) \<in> gr_selected t \<and> gw_reaches t i}"
    then obtain i j where ij: "p = (i, j)" "(i, j) \<in> gr_selected t" "gw_reaches t i" by blast
    have i: "i div R < nR" and j: "j div D < nC"
      using ij(2) Dp(2,3) Rp by (auto simp: gr_selected_def div_less_iff_less_mult intro: less_le_trans)
    let ?g = "j div D * nR + i div R"
    have g: "?g mod nR = i div R" "?g div nR = j div D" using i by simp_all
    have "?g < Suc (j div D) * nR" using i by simp
    also have "\<dots> \<le> nC * nR" using j by (intro mult_le_mono1) simp
    finally have "?g < nR * nC" by (simp add: mult.commute)
    moreover have "p \<in> gw_group_part t (it ?g)" unfolding part g using ij by simp
    ultimately show "p \<in> (\<Union>g < nR * nC. gw_group_part t (it g))" by blast
  qed (auto simp: part)
  then show "(\<Union>g < gr_nWG_row t * gr_nWG_col t. gw_group_part t (it g)) = {(i, j). (i, j) \<in> gr_selected t \<and> gw_reaches t i}"
    by (simp add: nR_def nC_def)
  show "gw_group_part t (it g) \<inter> gw_group_part t (it h) = {}" if "g \<noteq> h"
    using that unfolding part by (auto, metis div_mult_mod_eq)
qed

lemma gw_launch_added:
  fixes t :: "'v::{plus, times} Ger"
  assumes r: "is_run r" and wf: "gr_wf t" and L: "0 < L" and nr: "0 < gr_nWG_row t" and nc: "0 < gr_nWG_col t"
  shows "added (gr_cells t) {(i, j). (i, j) \<in> gr_selected t \<and> gw_reaches t i} (gw_value t m) m
    (execute_tree_local r () (gw_phases t) L (L * gr_nWG_row t * gr_nWG_col t) m)"
proof -
  define G where "G = L * gr_nWG_row t * gr_nWG_col t"
  have G: "G div L = gr_nWG_row t * gr_nWG_col t" using L by (simp add: G_def mult.assoc)
  have ok: "nd_range_ok G L" using L nr nc by (simp add: nd_range_ok_def G_def)
  define it where "it = (\<lambda>g. item_of L G (g * L))"
  have it: "nd_local_range (it g) = L" "nd_group (it g) = g" for g using L by (simp_all add: it_def)
  note geo = gw_groups [OF wf L nr nc, of it, OF it]
  have "added (gr_cells t) (\<Union>g \<in> set (group_order r (G div L)). gw_group_part t (it g)) (gw_value t m) m
    (fold (\<lambda>g. run_group r g L () (gw_phases t (it g))) (group_order r (G div L)) m)"
    by (rule fold_added [OF gr_cells_inj [OF wf], where X = "{..<G div L}" and ?m0.0 = m],
        (rule gw_group_added [OF r wf it(1) L nr nc], simp)[], rule gw_group_part_sub)
      (use geo(2) run_groups [OF r] in simp_all)
  then show ?thesis
    using ok geo(1) by (simp add: execute_tree_local_def G_def [symmetric] run_groups [OF r] G) (simp add: it_def)
qed

section \<open>Properties\<close>

text \<open>C33: a launch of \<open>GerRow\<close> with local memory updates a selected element when its row, counted from the first row of
  the group and modulo \<open>local_memory_size\<close>, is below \<open>local_memory_size\<close> for a rank one update, which is every row, and
  below half of it for a rank two update. All other elements keep their value, so the rank two update misses the second half
  of every block of \<open>local_memory_size\<close> rows of a group, for every matrix with the vectors in other buffers (\<open>gr_wf\<close>), every
  launch and order.\<close>

theorem ger_row_misses_rows:
  fixes t :: "'v::{plus, times} Ger"
  assumes "is_run r" "gr_wf t" "0 < L" "0 < gr_nWG_row t" "0 < gr_nWG_col t" "i < mv_sizeR (gr_lhs t)" "j < mv_sizeC (gr_lhs t)"
  shows "execute_tree_local r () (gw_phases t) L (L * gr_nWG_row t * gr_nWG_col t) m (maddr (gr_lhs t) i j) =
    (if gr_selects t i j \<and>
        i mod gw_rowSz t mod gr_local_memory_size t < (if gr_Single t then gr_local_memory_size t else gr_local_memory_size t div 2)
     then m (maddr (gr_lhs t) i j) +
       (if gr_Single t then gr_scalar t * gr_x1 t m i * gr_x2 t m j
        else gr_scalar t * gr_x1 t m i * gr_x2 t m j + gr_scalar t * gr_x2 t m i * gr_x1 t m j)
     else m (maddr (gr_lhs t) i j))"
proof -
  let ?S = "{(i, j). (i, j) \<in> gr_selected t \<and> gw_reaches t i}"
  note run = gw_launch_added [OF assms(1-5), of m, unfolded added_def]
  have cell: "gr_cells t (i, j) = maddr (gr_lhs t) i j" by (simp add: gr_cells_def)
  have "(i, j) \<in> gr_all t" "?S \<subseteq> gr_all t" using assms(6,7) by (auto simp: gr_all_def gr_selected_def)
  then have miss: "(i, j) \<notin> ?S \<Longrightarrow> maddr (gr_lhs t) i j \<notin> gr_cells t ` ?S"
    using inj_on_image_mem_iff [OF gr_cells_inj [OF assms(2)], of "(i, j)" ?S] by (simp add: cell)
  have S: "(i, j) \<in> ?S \<longleftrightarrow> gr_selects t i j \<and>
      i mod gw_rowSz t mod gr_local_memory_size t < (if gr_Single t then gr_local_memory_size t else gr_local_memory_size t div 2)"
    using assms(6,7) by (simp add: gr_selected_def gw_reaches_def gc_step_def)
  show ?thesis
  proof (cases "(i, j) \<in> ?S")
    case True
    from bspec [OF conjunct1 [OF run] this] show ?thesis
      unfolding if_P [OF S [THEN iffD1, OF True]] cell by (simp add: gw_value_def)
  next
    case False
    show ?thesis
      unfolding if_not_P [OF False [unfolded S]] by (rule mp [OF spec [OF conjunct2 [OF run]] miss [OF False]])
  qed
qed

lemma ger_row_misses_rows_witness:
  "execute_tree_local (seq_run 0) () (gw_phases (make_Ger False True True True
       (make_matrix_view col_major (sample_it 3) 2 2 2) 1
       (make_vector_view (sample_it 1) 1 2) (make_vector_view (sample_it 2) 1 2) 1 1 2)) 2 2 (\<lambda>_. 1 :: int) (3, 1) = 1"
  using ger_row_misses_rows [of "seq_run 0" "make_Ger False True True True (make_matrix_view col_major (sample_it 3) 2 2 2) 1
       (make_vector_view (sample_it 1) 1 2) (make_vector_view (sample_it 2) 1 2) 1 1 2" 2 1 0 "\<lambda>_. 1 :: int"]
  by (simp add: gr_wf_def gc_step_def matrix_fits_wf maddr_mat_cell gw_rowSz_def mat_cell_def del: One_nat_def)

end
